(* ===== verification/Prelude.thy ===== *)
theory Prelude
  imports Main "HOL-Library.Word" "HOL-Library.Monad_Syntax"
begin

text \<open>
  Shared types and lemmas of the development.

  The integer types of \<open>rt-thread/include/rtdef.h\<close> at their width on the target (Cortex-M3, ILP32),
  the error codes, the alignment macros and \<open>memcpy\<close> between byte buffers. A read or write
  outside a buffer, which C leaves undefined, is \<open>None\<close>; so is a failed \<open>RT_ASSERT\<close>, after
  which \<open>rt_assert_handler\<close> loops forever. The generic queue laws at the end are the interface
  that the bounded queues of the kernel (ring buffer, mailbox) provide to their clients.
\<close>

unbundle bit_operations_syntax

section \<open>Types\<close>

type_synonym u8 = "8 word"
type_synonym u16 = "16 word"
type_synonym u32 = "32 word"
type_synonym rt_err = int

abbreviation (input) RT_EOK :: rt_err where "RT_EOK \<equiv> 0"
abbreviation (input) RT_ERROR :: rt_err where "RT_ERROR \<equiv> 1"
abbreviation (input) RT_ETIMEOUT :: rt_err where "RT_ETIMEOUT \<equiv> 2"
abbreviation (input) RT_EFULL :: rt_err where "RT_EFULL \<equiv> 3"
abbreviation (input) RT_EEMPTY :: rt_err where "RT_EEMPTY \<equiv> 4"
abbreviation (input) RT_ENOMEM :: rt_err where "RT_ENOMEM \<equiv> 5"
abbreviation (input) RT_ENOSYS :: rt_err where "RT_ENOSYS \<equiv> 6"
abbreviation (input) RT_EBUSY :: rt_err where "RT_EBUSY \<equiv> 7"
abbreviation (input) RT_EIO :: rt_err where "RT_EIO \<equiv> 8"
abbreviation (input) RT_EINTR :: rt_err where "RT_EINTR \<equiv> 9"

named_theorems fieldsimps \<open>projection equations of the state-update helpers\<close>

lemma unat_of_nat_small: "m < 2 ^ LENGTH('a) \<Longrightarrow> unat (word_of_nat m :: 'a::len word) = m"
  by (simp add: unsigned_of_nat take_bit_nat_eq_self)

lemma unat_neg:
  assumes "x \<noteq> 0"
  shows "unat (- x :: 'a::len word) = 2 ^ LENGTH('a) - unat x"
proof -
  have lt: "unat x < 2 ^ LENGTH('a)" by (rule unsigned_less)
  have "word_of_nat (2 ^ LENGTH('a) - unat x) = word_of_nat (2 ^ LENGTH('a)) - (word_of_nat (unat x) :: 'a word)"
    by (rule of_nat_diff[OF less_imp_le[OF lt]])
  also have "word_of_nat (unat x) = x" by simp
  also have "word_of_nat (2 ^ LENGTH('a)) = (0 :: 'a word)" by simp
  finally have "word_of_nat (2 ^ LENGTH('a) - unat x) = - x" by simp
  moreover have "0 < unat x" using assms by (simp add: unat_gt_0)
  then have "2 ^ LENGTH('a) - unat x < 2 ^ LENGTH('a)" by simp
  ultimately show ?thesis by (metis unat_of_nat_small)
qed

section \<open>Assertions and partial steps\<close>

definition rt_assert :: "bool \<Rightarrow> unit option" where
  "rt_assert b = (if b then Some () else None)"

lemma rt_assert_simps [simp]:
  "rt_assert True = Some ()" "rt_assert False = None"
  by (simp_all add: rt_assert_def)

lemma rt_assert_eq_Some [simp]: "rt_assert b = Some u \<longleftrightarrow> b"
  by (simp add: rt_assert_def)

lemma rt_assert_bind [simp]:
  "Option.bind (rt_assert b) f = (if b then f () else None)"
  by (simp add: rt_assert_def)

section \<open>Alignment\<close>

text \<open>\<open>RT_ALIGN_SIZE\<close> is 4 in \<open>rtconfig.h\<close>; the macros mask with its complement.\<close>

definition RT_ALIGN :: "'a::len word \<Rightarrow> 'a word" where
  "RT_ALIGN n = (n + 4 - 1) AND NOT (4 - 1)"

definition RT_ALIGN_DOWN :: "'a::len word \<Rightarrow> 'a word" where
  "RT_ALIGN_DOWN n = n AND NOT (4 - 1)"

lemma and_not_3: "x AND NOT 3 = push_bit 2 (drop_bit 2 (x :: 'a::len word))"
proof (rule bit_word_eqI)
  fix n assume n: "n < LENGTH('a)"
  have three: "(3 :: 'a word) = mask 2" by (simp add: mask_numeral)
  show "bit (x AND NOT 3) n = bit (push_bit 2 (drop_bit 2 x)) n"
  proof (cases "n < 2")
    case True
    then show ?thesis unfolding three using n by (simp add: bit_simps)
  next
    case False
    then have "2 + (n - 2) = n" by simp
    with False show ?thesis unfolding three using n by (simp add: bit_simps)
  qed
qed

lemma unat_RT_ALIGN_DOWN: "unat (RT_ALIGN_DOWN (x :: 'a::len word)) = unat x div 4 * 4"
proof -
  have lt: "unat x < 2 ^ LENGTH('a)" by (rule unsigned_less)
  have "unat (push_bit 2 (drop_bit 2 x)) =
      take_bit LENGTH('a) (push_bit 2 (drop_bit 2 (take_bit LENGTH('a) (unat x))))"
    by (simp only: unsigned_push_bit_eq unsigned_drop_bit_eq)
  also have "take_bit LENGTH('a) (unat x) = unat x" using lt by (rule take_bit_nat_eq_self)
  also have "push_bit 2 (drop_bit 2 (unat x)) = unat x div 4 * 4"
    by (simp add: push_bit_eq_mult drop_bit_eq_div)
  also have "take_bit LENGTH('a) (unat x div 4 * 4) = unat x div 4 * 4"
    using lt by (intro take_bit_nat_eq_self) (metis div_times_less_eq_dividend le_less_trans)
  also have "push_bit 2 (drop_bit 2 x) = x AND NOT 3" by (rule and_not_3[symmetric])
  finally show ?thesis by (simp add: RT_ALIGN_DOWN_def)
qed

lemma unat_RT_ALIGN:
  assumes "unat x + 3 < 2 ^ LENGTH('a)" "3 \<le> LENGTH('a)"
  shows "unat (RT_ALIGN (x :: 'a::len word)) = (unat x + 3) div 4 * 4"
proof -
  have eq: "x + 4 - 1 = x + 3" by simp
  have "(3 :: nat) < 2 ^ LENGTH('a)" using assms(1) by linarith
  then have three: "unat (3 :: 'a word) = 3"
    by (metis unat_of_nat_small of_nat_numeral)
  then have "unat (x + 3) = unat x + 3" using assms(1) by (simp add: unat_word_ariths)
  moreover have "RT_ALIGN x = RT_ALIGN_DOWN (x + 3)" by (simp add: RT_ALIGN_def RT_ALIGN_DOWN_def eq)
  ultimately show ?thesis by (simp add: unat_RT_ALIGN_DOWN)
qed

lemma not_msb_unat:
  assumes "unat x < 2 ^ (LENGTH('a) - 1)"
  shows "sint (x :: 'a::len word) = int (unat x)"
proof -
  have *: "int (unat x) < 2 ^ (LENGTH('a) - 1)"
    using assms by (metis of_nat_less_iff of_nat_numeral of_nat_power)
  have "sint x = signed_take_bit (LENGTH('a) - 1) (uint x)" by (simp add: sint_uint)
  also have "uint x = int (unat x)" by simp
  also have "signed_take_bit (LENGTH('a) - 1) (int (unat x)) = int (unat x)"
    by (rule signed_take_bit_int_eq_self) (use * in \<open>auto intro: order.trans[of _ 0]\<close>)
  finally show ?thesis .
qed

lemma sint_nonneg_unat:
  assumes "0 \<le> sint (x :: 'a::len word)"
  shows "sint x = int (unat x)"
proof -
  have "x = word_of_int (sint x)" by simp
  then have "uint x = take_bit LENGTH('a) (sint x)" by (metis uint_word_of_int_eq)
  moreover have "sint x < 2 ^ LENGTH('a)"
    using sint_lt[of x] by (rule order.strict_trans2) simp
  ultimately show ?thesis using assms by (simp add: take_bit_int_eq_self)
qed

section \<open>Byte buffers\<close>

definition memcpy :: "'b list \<Rightarrow> int \<Rightarrow> 'b list \<Rightarrow> int \<Rightarrow> int \<Rightarrow> 'b list option" where
  "memcpy dst di src si n =
     (if 0 \<le> di \<and> 0 \<le> si \<and> 0 \<le> n \<and> di + n \<le> int (length dst) \<and> si + n \<le> int (length src)
      then Some (take (nat di) dst @ take (nat n) (drop (nat si) src) @ drop (nat (di + n)) dst)
      else None)"

lemma memcpy_nat:
  "memcpy dst (int a) src (int b) (int n) =
     (if a + n \<le> length dst \<and> b + n \<le> length src
      then Some (take a dst @ take n (drop b src) @ drop (a + n) dst) else None)"
proof -
  have "nat (int a + int n) = a + n" by (simp add: nat_add_distrib)
  then show ?thesis unfolding memcpy_def by (simp flip: of_nat_add)
qed

lemma memcpy_natE:
  assumes "memcpy dst di src si n = Some d"
  obtains a b k where "di = int a" "si = int b" "n = int k" "a + k \<le> length dst"
    "b + k \<le> length src" "d = take a dst @ take k (drop b src) @ drop (a + k) dst"
proof -
  from assms have "0 \<le> di" "0 \<le> si" "0 \<le> n" by (simp_all add: memcpy_def split: if_splits)
  then obtain a b k where eq: "di = int a" "si = int b" "n = int k"
    by (metis nonneg_int_cases)
  with assms have "memcpy dst (int a) src (int b) (int k) = Some d" by simp
  then have "a + k \<le> length dst" "b + k \<le> length src"
    "d = take a dst @ take k (drop b src) @ drop (a + k) dst"
    by (simp_all add: memcpy_nat split: if_splits)
  with eq that show thesis by blast
qed

lemma memcpy_length:
  "memcpy dst di src si n = Some d \<Longrightarrow> length d = length dst"
  by (erule memcpy_natE) simp

lemma nth_blit:
  assumes "a + k \<le> length dst" "b + k \<le> length src" "i < length dst"
  shows "(take a dst @ take k (drop b src) @ drop (a + k) dst) ! i =
     (if a \<le> i \<and> i < a + k then src ! (b + (i - a)) else dst ! i)"
proof -
  consider "i < a" | "a \<le> i" "i < a + k" | "a + k \<le> i" by linarith
  then show ?thesis
  proof cases
    case 1
    with assms show ?thesis by (simp add: nth_append)
  next
    case 2
    then have "i - a < k" by linarith
    with assms 2 show ?thesis by (simp add: nth_append)
  next
    case 3
    with assms have "\<not> i < a" "\<not> i - a < k" "i - a - k = i - (a + k)" by simp_all
    with assms 3 show ?thesis by (simp add: nth_append)
  qed
qed

definition put_byte :: "'b list \<Rightarrow> nat \<Rightarrow> 'b \<Rightarrow> 'b list option" where
  "put_byte dst i b = (if i < length dst then Some (dst[i := b]) else None)"

definition get_byte :: "'b list \<Rightarrow> nat \<Rightarrow> 'b option" where
  "get_byte src i = (if i < length src then Some (src ! i) else None)"

section \<open>Bounded queues\<close>

text \<open>Adding a list of elements one by one, and taking \<open>n\<close> of them.\<close>

fun enq_all :: "('a \<Rightarrow> 'q \<Rightarrow> 'q option) \<Rightarrow> 'a list \<Rightarrow> 'q \<Rightarrow> 'q option" where
  "enq_all enq [] q = Some q"
| "enq_all enq (x # xs) q = do { q' \<leftarrow> enq x q; enq_all enq xs q' }"

fun deq_n :: "('q \<Rightarrow> ('a \<times> 'q) option) \<Rightarrow> nat \<Rightarrow> 'q \<Rightarrow> ('a list \<times> 'q) option" where
  "deq_n deq 0 q = Some ([], q)"
| "deq_n deq (Suc n) q =
     do { (x, q') \<leftarrow> deq q; (xs, q'') \<leftarrow> deq_n deq n q'; Some (x # xs, q'') }"

locale bounded_queue =
  fixes invar :: "'q \<Rightarrow> bool"
    and contents :: "'q \<Rightarrow> 'a list"
    and capacity :: "'q \<Rightarrow> nat"
    and enq :: "'a \<Rightarrow> 'q \<Rightarrow> 'q option"
    and deq :: "'q \<Rightarrow> ('a \<times> 'q) option"
  assumes enq_room: "\<lbrakk>invar q; length (contents q) < capacity q\<rbrakk> \<Longrightarrow>
      \<exists>q'. enq x q = Some q' \<and> invar q' \<and> contents q' = contents q @ [x] \<and> capacity q' = capacity q"
    and enq_full: "\<lbrakk>invar q; length (contents q) = capacity q\<rbrakk> \<Longrightarrow> enq x q = None"
    and deq_elem: "\<lbrakk>invar q; contents q = x # xs\<rbrakk> \<Longrightarrow>
      \<exists>q'. deq q = Some (x, q') \<and> invar q' \<and> contents q' = xs \<and> capacity q' = capacity q"
    and deq_empty: "\<lbrakk>invar q; contents q = []\<rbrakk> \<Longrightarrow> deq q = None"
    and bounded: "invar q \<Longrightarrow> length (contents q) \<le> capacity q"
begin

lemma enq_all_room:
  "\<lbrakk>invar q; length (contents q) + length xs \<le> capacity q\<rbrakk> \<Longrightarrow>
   \<exists>q'. enq_all enq xs q = Some q' \<and> invar q' \<and> contents q' = contents q @ xs \<and> capacity q' = capacity q"
proof (induction xs arbitrary: q)
  case Nil
  then show ?case by simp
next
  case (Cons x xs)
  from Cons.prems enq_room[of q x] obtain q1 where q1: "enq x q = Some q1" "invar q1"
    "contents q1 = contents q @ [x]" "capacity q1 = capacity q" by auto
  with Cons.prems Cons.IH[of q1] show ?case by auto
qed

lemma deq_n_prefix:
  "\<lbrakk>invar q; n \<le> length (contents q)\<rbrakk> \<Longrightarrow>
   \<exists>q'. deq_n deq n q = Some (take n (contents q), q') \<and> invar q' \<and>
        contents q' = drop n (contents q) \<and> capacity q' = capacity q"
proof (induction n arbitrary: q)
  case 0
  then show ?case by simp
next
  case (Suc n)
  then obtain x xs where c: "contents q = x # xs" by (cases "contents q") auto
  with Suc.prems deq_elem[of q x xs] obtain q1 where q1: "deq q = Some (x, q1)" "invar q1"
    "contents q1 = xs" "capacity q1 = capacity q" by auto
  with Suc.prems Suc.IH[of q1] c show ?case by auto
qed

lemma fifo:
  assumes "invar q" "contents q = []" "length xs \<le> capacity q"
  shows "\<exists>q' q''. enq_all enq xs q = Some q' \<and> deq_n deq (length xs) q' = Some (xs, q'') \<and>
                  invar q'' \<and> contents q'' = []"
proof -
  from assms enq_all_room[of q xs] obtain q' where q': "enq_all enq xs q = Some q'" "invar q'"
    "contents q' = xs" by auto
  with deq_n_prefix[of q' "length xs"] show ?thesis by auto
qed

lemma enq_overflow:
  assumes "invar q" "capacity q < length (contents q) + length xs"
  shows "enq_all enq xs q = None"
  using assms
proof (induction xs arbitrary: q)
  case Nil
  then show ?case using bounded[of q] by simp
next
  case (Cons x xs)
  show ?case
  proof (cases "length (contents q) < capacity q")
    case True
    with Cons.prems enq_room[of q x] obtain q1 where "enq x q = Some q1" "invar q1"
      "contents q1 = contents q @ [x]" "capacity q1 = capacity q" by auto
    with Cons.prems Cons.IH[of q1] show ?thesis by auto
  next
    case False
    with Cons.prems bounded[of q] enq_full[of q x] show ?thesis by auto
  qed
qed

end

end
