(* ===== verification/Cyclic.thy ===== *)
theory Cyclic
  imports Prelude
begin

text \<open>
  Circular buffers: the window of \<open>len\<close> cells that starts at index \<open>r\<close> of a buffer of which
  the first \<open>n\<close> cells are used as a ring. The ring buffer of \<open>ringbuffer.c\<close> and the message
  pool of a mailbox (\<open>ipc.c\<close>) read their contents this way, and share the lemmas on writing at the
  end and reading at the front of the window.
\<close>

definition cyc :: "'a list \<Rightarrow> nat \<Rightarrow> nat \<Rightarrow> nat \<Rightarrow> 'a list" where
  "cyc buf n r len = map (\<lambda>i. buf ! ((r + i) mod n)) [0..<len]"

lemma length_cyc [simp]: "length (cyc buf n r len) = len"
  by (simp add: cyc_def)

lemma nth_cyc [simp]: "i < len \<Longrightarrow> cyc buf n r len ! i = buf ! ((r + i) mod n)"
  by (simp add: cyc_def)

lemma cyc_0 [simp]: "cyc buf n r 0 = []"
  by (simp add: cyc_def)

lemma cyc_drop: "cyc buf n ((r + k) mod n) (len - k) = drop k (cyc buf n r len)"
  by (rule nth_equalityI) (simp_all add: mod_simps add.assoc)

lemma cyc_Cons:
  "0 < len \<Longrightarrow> cyc buf n r len = buf ! (r mod n) # cyc buf n (Suc r mod n) (len - 1)"
  using cyc_drop[of buf n r 1 len]
  by (metis Cons_nth_drop_Suc One_nat_def Suc_eq_plus1 add.right_neutral drop0 length_cyc nth_cyc)

lemma mod_add_cancel:
  assumes "(x + k) mod n = (x + l) mod n" "k < n" "l < (n :: nat)"
  shows "k = l"
proof -
  have "a = b" if "a \<le> b" "b < n" "(x + a) mod n = (x + b) mod n" for a b
  proof -
    have "n dvd (x + b) - (x + a)" using that(1,3) mod_eq_dvd_iff_nat[of "x + a" "x + b" n] by simp
    then have "n dvd b - a" by simp
    then show ?thesis using that(1,2) nat_dvd_not_less[of "b - a" n] by (cases "a = b") auto
  qed
  from this[of k l] this[of l k] show ?thesis using assms by (cases "k \<le> l") auto
qed

text \<open>\<open>buf'\<close> is \<open>buf\<close> with \<open>k\<close> cells of \<open>src\<close> written from index \<open>w\<close> on, wrapping at \<open>n\<close>.\<close>

definition cyc_written :: "nat \<Rightarrow> 'a list \<Rightarrow> nat \<Rightarrow> nat \<Rightarrow> 'a list \<Rightarrow> 'a list \<Rightarrow> bool" where
  "cyc_written n buf w k src buf' \<longleftrightarrow>
     (\<forall>d < n. buf' ! ((w + d) mod n) = (if d < k then src ! d else buf ! ((w + d) mod n)))"

lemma cyc_writtenD:
  "\<lbrakk>cyc_written n buf w k src buf'; d < n\<rbrakk> \<Longrightarrow>
   buf' ! ((w + d) mod n) = (if d < k then src ! d else buf ! ((w + d) mod n))"
  by (simp add: cyc_written_def)

lemma cyc_append:
  assumes w: "cyc_written n buf ((r + len) mod n) k src buf'" and room: "len + k \<le> n"
    and k: "k \<le> length src" and n: "0 < n"
  shows "cyc buf' n r (len + k) = cyc buf n r len @ take k src"
proof (rule nth_equalityI)
  show "length (cyc buf' n r (len + k)) = length (cyc buf n r len @ take k src)" using k by simp
next
  fix i assume "i < length (cyc buf' n r (len + k))"
  then have i: "i < len + k" by simp
  show "cyc buf' n r (len + k) ! i = (cyc buf n r len @ take k src) ! i"
  proof (cases "i < len")
    case True
    let ?d = "n - len + i"
    have eq: "((r + len) mod n + ?d) mod n = (r + i) mod n"
    proof -
      have "((r + len) mod n + ?d) mod n = (r + len + ?d) mod n" by (rule mod_add_left_eq)
      also have "r + len + ?d = r + i + n" using room by linarith
      also have "(r + i + n) mod n = (r + i) mod n" by (rule mod_add_self2)
      finally show ?thesis .
    qed
    have "\<not> ?d < k" "?d < n" using True room by linarith+
    with cyc_writtenD[OF w, of ?d] have "buf' ! ((r + i) mod n) = buf ! ((r + i) mod n)"
      unfolding eq by simp
    with True i show ?thesis by (simp add: nth_append)
  next
    case False
    let ?d = "i - len"
    have d: "?d < k" "?d < n" using i False room by linarith+
    have eq: "((r + len) mod n + ?d) mod n = (r + i) mod n"
    proof -
      have "((r + len) mod n + ?d) mod n = (r + len + ?d) mod n" by (rule mod_add_left_eq)
      also have "r + len + ?d = r + i" using False by linarith
      finally show ?thesis .
    qed
    from cyc_writtenD[OF w d(2)] d have "buf' ! ((r + i) mod n) = src ! ?d"
      unfolding eq by simp
    with False i d show ?thesis by (simp add: nth_append)
  qed
qed

text \<open>Writing past the capacity: the window now starts right after the written cells and holds the
  last \<open>n\<close> elements.\<close>

lemma cyc_overwrite:
  assumes w: "cyc_written n buf ((r + len) mod n) k src buf'" and over: "n \<le> len + k"
    and k: "k \<le> length src" "k \<le> n" "len \<le> n" and n: "0 < n"
  shows "cyc buf' n ((r + len + k) mod n) n = drop (len + k - n) (cyc buf n r len @ take k src)"
proof (rule nth_equalityI)
  show "length (cyc buf' n ((r + len + k) mod n) n) =
        length (drop (len + k - n) (cyc buf n r len @ take k src))" using k over by simp
next
  fix i assume "i < length (cyc buf' n ((r + len + k) mod n) n)"
  then have i: "i < n" by simp
  have lhs: "cyc buf' n ((r + len + k) mod n) n ! i = buf' ! ((r + len + k + i) mod n)"
    using i by (simp add: mod_add_left_eq)
  show "cyc buf' n ((r + len + k) mod n) n ! i =
        drop (len + k - n) (cyc buf n r len @ take k src) ! i"
  proof (cases "k + i < n")
    case True
    have eq: "((r + len) mod n + (k + i)) mod n = (r + len + k + i) mod n"
      by (simp add: mod_add_left_eq add.assoc)
    have eq2: "(r + (len + k - n + i)) mod n = (r + len + k + i) mod n"
    proof -
      have "r + len + k + i = r + (len + k - n + i) + n" using over by simp
      then show ?thesis by (metis mod_add_self2)
    qed
    have "len + k - n + i < len" using True over by linarith
    moreover from cyc_writtenD[OF w True]
      have "buf' ! ((r + len + k + i) mod n) = buf ! ((r + len + k + i) mod n)"
      unfolding eq by simp
    moreover have "drop (len + k - n) (cyc buf n r len @ take k src) ! i =
        (cyc buf n r len @ take k src) ! (len + k - n + i)"
      by (rule nth_drop) (use over k in simp)
    ultimately show ?thesis using lhs by (simp only: nth_append length_cyc nth_cyc eq2 if_True)
  next
    case False
    let ?d = "k + i - n"
    have d: "?d < k" "?d < n" using i False k by linarith+
    have eq: "((r + len) mod n + ?d) mod n = (r + len + k + i) mod n"
    proof -
      have "((r + len) mod n + ?d) mod n = (r + len + ?d) mod n" by (simp add: mod_add_left_eq)
      also have "\<dots> = (r + len + ?d + n) mod n" by simp
      also have "r + len + ?d + n = r + len + k + i" using False by simp
      finally show ?thesis .
    qed
    have "\<not> len + k - n + i < len" "len + k - n + i - len = ?d" using False over by linarith+
    moreover have "drop (len + k - n) (cyc buf n r len @ take k src) ! i =
        (cyc buf n r len @ take k src) ! (len + k - n + i)"
      by (rule nth_drop) (use over k in simp)
    ultimately have "drop (len + k - n) (cyc buf n r len @ take k src) ! i = src ! ?d"
      using d by (simp only: nth_append length_cyc if_False nth_take)
    with lhs cyc_writtenD[OF w d(2)] d show ?thesis unfolding eq by simp
  qed
qed

lemma cyc_written_update:
  assumes "w < n" "n \<le> length buf"
  shows "cyc_written n buf w 1 [x] (buf[w := x])"
  unfolding cyc_written_def
proof (intro allI impI)
  fix d assume d: "d < n"
  show "buf[w := x] ! ((w + d) mod n) = (if d < 1 then [x] ! d else buf ! ((w + d) mod n))"
  proof (cases "d = 0")
    case True
    with assms show ?thesis by simp
  next
    case False
    have "(w + d) mod n \<noteq> w"
    proof (cases "w + d < n")
      case True
      with False show ?thesis by simp
    next
      case wrap: False
      with assms d have "(w + d) mod n = w + d - n" by (simp add: le_mod_geq)
      with wrap d assms show ?thesis by linarith
    qed
    with False show ?thesis by simp
  qed
qed

text \<open>A block copy that does not wrap, and one split in two at the end of the buffer.\<close>

lemma cyc_written_blit:
  assumes "w + k \<le> n" "n \<le> length buf" "k \<le> length src" "w < n"
  shows "cyc_written n buf w k src (take w buf @ take k src @ drop (w + k) buf)"
  unfolding cyc_written_def
proof (intro allI impI)
  fix d assume d: "d < n"
  let ?b = "take w buf @ take k src @ drop (w + k) buf"
  have nth: "i < n \<Longrightarrow> ?b ! i = (if w \<le> i \<and> i < w + k then src ! (i - w) else buf ! i)" for i
    using nth_blit[of w k buf 0 src i] assms by simp
  have m: "(w + d) mod n < n" using d by simp
  show "?b ! ((w + d) mod n) = (if d < k then src ! d else buf ! ((w + d) mod n))"
  proof (cases "w + d < n")
    case True
    then show ?thesis using nth[OF m] by simp
  next
    case False
    with assms d have "(w + d) mod n = w + d - n" by (simp add: le_mod_geq)
    moreover have "\<not> d < k" "w + d - n < w" using False assms d by linarith+
    ultimately show ?thesis using nth[OF m] by simp
  qed
qed

lemma cyc_written_blit2:
  assumes "w < n" "n \<le> length buf" "k \<le> length src" "n - w \<le> k" "k \<le> n"
  shows "cyc_written n buf w k src
    (take (k - (n - w)) (drop (n - w) src) @
     drop (k - (n - w)) (take w buf @ take (n - w) src @ drop n buf))"
  unfolding cyc_written_def
proof (intro allI impI)
  fix d assume d: "d < n"
  let ?f = "n - w" let ?m = "take w buf @ take ?f src @ drop n buf"
  let ?b = "take (k - ?f) (drop ?f src) @ drop (k - ?f) ?m"
  have lm: "length ?m = length buf" using assms by simp
  have m: "i < n \<Longrightarrow> ?m ! i = (if w \<le> i then src ! (i - w) else buf ! i)" for i
    using nth_blit[of w ?f buf 0 src i] assms by simp
  have b: "?b ! i = (if i < k - ?f then src ! (?f + i) else ?m ! i)" if "i < n" for i
    using nth_blit[of 0 "k - ?f" ?m ?f src i] that lm assms by simp
  have i: "(w + d) mod n < n" using d by simp
  show "?b ! ((w + d) mod n) = (if d < k then src ! d else buf ! ((w + d) mod n))"
  proof (cases "w + d < n")
    case True
    then have "\<not> w + d < k - ?f" "d < k" using assms by linarith+
    with True b[OF i] m[OF i] show ?thesis by simp
  next
    case False
    with assms d have e: "(w + d) mod n = w + d - n" by (simp add: le_mod_geq)
    have "w + d - n < k - ?f \<longleftrightarrow> d < k" "\<not> w \<le> w + d - n" "?f + (w + d - n) = d"
      using False assms d by linarith+
    with e b[OF i] m[OF i] show ?thesis by simp
  qed
qed

end
