(* ===== verification/Ringbuffer.thy ===== *)
theory Ringbuffer
  imports Cyclic
begin

text \<open>
  The byte ring buffer of \<open>components/drivers/src/ringbuffer.c\<close>.

  The record is \<open>struct rt_ringbuffer\<close> with its bit fields at their width: one mirror bit and a
  15-bit index for each side, and the signed 16-bit size. The pool is a list of bytes. Arithmetic on
  the bit fields is done in \<open>int\<close>, as the C promotions do; results stored in \<open>rt_size_t\<close> or
  \<open>rt_uint16_t\<close> variables are truncated to that width. An access outside the pool or outside the
  caller's buffer is \<open>None\<close>.
\<close>

section \<open>State\<close>

record rt_ringbuffer =
  buffer_ptr :: "u8 list"
  read_mirror :: "1 word"
  read_index :: "15 word"
  write_mirror :: "1 word"
  write_index :: "15 word"
  buffer_size :: u16

datatype rt_ringbuffer_state =
  RT_RINGBUFFER_EMPTY | RT_RINGBUFFER_FULL | RT_RINGBUFFER_HALFFULL

definition rt_ringbuffer_status :: "rt_ringbuffer \<Rightarrow> rt_ringbuffer_state" where
  "rt_ringbuffer_status rb =
     (if read_index rb = write_index rb
      then (if read_mirror rb = write_mirror rb then RT_RINGBUFFER_EMPTY else RT_RINGBUFFER_FULL)
      else RT_RINGBUFFER_HALFFULL)"

section \<open>Operations\<close>

definition rt_ringbuffer_init :: "rt_ringbuffer \<Rightarrow> u8 list \<Rightarrow> u16 \<Rightarrow> rt_ringbuffer option" where
  "rt_ringbuffer_init rb pool sz = do {
     rt_assert (0 < sint sz);
     Some (rb\<lparr>read_mirror := 0, read_index := 0, write_mirror := 0, write_index := 0,
              buffer_ptr := pool, buffer_size := RT_ALIGN_DOWN sz\<rparr>) }"

definition rt_ringbuffer_data_len :: "rt_ringbuffer \<Rightarrow> u32" where
  "rt_ringbuffer_data_len rb =
     (case rt_ringbuffer_status rb of
        RT_RINGBUFFER_EMPTY \<Rightarrow> 0
      | RT_RINGBUFFER_FULL \<Rightarrow> word_of_int (sint (buffer_size rb))
      | RT_RINGBUFFER_HALFFULL \<Rightarrow>
          (if read_index rb < write_index rb
           then word_of_int (uint (write_index rb) - uint (read_index rb))
           else word_of_int (sint (buffer_size rb) - (uint (read_index rb) - uint (write_index rb)))))"

definition rt_ringbuffer_space_len :: "rt_ringbuffer \<Rightarrow> u32" where
  "rt_ringbuffer_space_len rb = word_of_int (sint (buffer_size rb)) - rt_ringbuffer_data_len rb"

definition rt_ringbuffer_get_size :: "rt_ringbuffer \<Rightarrow> u16" where
  "rt_ringbuffer_get_size rb = buffer_size rb"

text \<open>\<open>tail\<close> is the number of bytes that fit between the index and the end of the pool: a longer
  block is copied in two parts, the rest at the start of the pool.\<close>

definition rt_ringbuffer_put :: "rt_ringbuffer \<Rightarrow> u8 list \<Rightarrow> u16 \<Rightarrow> (u32 \<times> rt_ringbuffer) option" where
  "rt_ringbuffer_put rb ptr len =
     (let sz = (ucast (rt_ringbuffer_space_len rb) :: u16) in
      if sz = 0 then Some (0, rb)
      else
        let len = (if sz < len then sz else len);
            tail = sint (buffer_size rb) - uint (write_index rb) in
        if uint len < tail then do {
          b \<leftarrow> memcpy (buffer_ptr rb) (uint (write_index rb)) ptr 0 (uint len);
          Some (ucast len, rb\<lparr>buffer_ptr := b, write_index := write_index rb + ucast len\<rparr>) }
        else do {
          b1 \<leftarrow> memcpy (buffer_ptr rb) (uint (write_index rb)) ptr 0 tail;
          b2 \<leftarrow> memcpy b1 0 ptr tail (uint len - tail);
          Some (ucast len, rb\<lparr>buffer_ptr := b2, write_mirror := NOT (write_mirror rb),
                              write_index := word_of_int (uint len - tail)\<rparr>) })"

definition rt_ringbuffer_put_force ::
    "rt_ringbuffer \<Rightarrow> u8 list \<Rightarrow> u16 \<Rightarrow> (u32 \<times> rt_ringbuffer) option" where
  "rt_ringbuffer_put_force rb ptr0 len0 =
     (let space_length = (ucast (rt_ringbuffer_space_len rb) :: u16);
          big = sint (buffer_size rb) < uint len0;
          ptr = (if big then drop (nat (uint len0 - sint (buffer_size rb))) ptr0 else ptr0);
          len = (if big then buffer_size rb else len0);
          tail = sint (buffer_size rb) - uint (write_index rb) in
      if uint len < tail then do {
        b \<leftarrow> memcpy (buffer_ptr rb) (uint (write_index rb)) ptr 0 (uint len);
        let rb1 = rb\<lparr>buffer_ptr := b, write_index := write_index rb + ucast len\<rparr>;
        let rb2 = (if space_length < len then rb1\<lparr>read_index := write_index rb1\<rparr> else rb1);
        Some (ucast len, rb2) }
      else do {
        b1 \<leftarrow> memcpy (buffer_ptr rb) (uint (write_index rb)) ptr 0 tail;
        b2 \<leftarrow> memcpy b1 0 ptr tail (uint len - tail);
        let rb1 = rb\<lparr>buffer_ptr := b2, write_mirror := NOT (write_mirror rb),
                     write_index := word_of_int (uint len - tail)\<rparr>;
        let rb2 = (if space_length < len
                   then rb1\<lparr>read_mirror := NOT (read_mirror rb1), read_index := write_index rb1\<rparr>
                   else rb1);
        Some (ucast len, rb2) })"

definition rt_ringbuffer_get ::
    "rt_ringbuffer \<Rightarrow> u8 list \<Rightarrow> u16 \<Rightarrow> (u32 \<times> u8 list \<times> rt_ringbuffer) option" where
  "rt_ringbuffer_get rb ptr len =
     (let sz = rt_ringbuffer_data_len rb in
      if sz = 0 then Some (0, ptr, rb)
      else
        let len = (if sz < ucast len then ucast sz else len);
            tail = sint (buffer_size rb) - uint (read_index rb) in
        if uint len < tail then do {
          p \<leftarrow> memcpy ptr 0 (buffer_ptr rb) (uint (read_index rb)) (uint len);
          Some (ucast len, p, rb\<lparr>read_index := read_index rb + ucast len\<rparr>) }
        else do {
          p1 \<leftarrow> memcpy ptr 0 (buffer_ptr rb) (uint (read_index rb)) tail;
          p2 \<leftarrow> memcpy p1 tail (buffer_ptr rb) 0 (uint len - tail);
          Some (ucast len, p2, rb\<lparr>read_mirror := NOT (read_mirror rb),
                                  read_index := word_of_int (uint len - tail)\<rparr>) })"

definition rt_ringbuffer_putchar :: "rt_ringbuffer \<Rightarrow> u8 \<Rightarrow> (u32 \<times> rt_ringbuffer) option" where
  "rt_ringbuffer_putchar rb ch =
     (if rt_ringbuffer_space_len rb = 0 then Some (0, rb)
      else do {
        b \<leftarrow> put_byte (buffer_ptr rb) (unat (write_index rb)) ch;
        let rb1 = rb\<lparr>buffer_ptr := b\<rparr>;
        Some (1, if uint (write_index rb) = sint (buffer_size rb) - 1
                 then rb1\<lparr>write_mirror := NOT (write_mirror rb), write_index := 0\<rparr>
                 else rb1\<lparr>write_index := write_index rb + 1\<rparr>) })"

definition rt_ringbuffer_putchar_force :: "rt_ringbuffer \<Rightarrow> u8 \<Rightarrow> (u32 \<times> rt_ringbuffer) option" where
  "rt_ringbuffer_putchar_force rb ch =
     (let old_state = rt_ringbuffer_status rb in do {
        b \<leftarrow> put_byte (buffer_ptr rb) (unat (write_index rb)) ch;
        let rb1 = rb\<lparr>buffer_ptr := b\<rparr>;
        Some (1,
          if uint (write_index rb) = sint (buffer_size rb) - 1 then
            (let rb2 = rb1\<lparr>write_mirror := NOT (write_mirror rb), write_index := 0\<rparr> in
             if old_state = RT_RINGBUFFER_FULL
             then rb2\<lparr>read_mirror := NOT (read_mirror rb2), read_index := write_index rb2\<rparr> else rb2)
          else
            (let rb2 = rb1\<lparr>write_index := write_index rb + 1\<rparr> in
             if old_state = RT_RINGBUFFER_FULL
             then rb2\<lparr>read_index := write_index rb2\<rparr> else rb2)) })"

definition rt_ringbuffer_getchar :: "rt_ringbuffer \<Rightarrow> u8 \<Rightarrow> (u32 \<times> u8 \<times> rt_ringbuffer) option" where
  "rt_ringbuffer_getchar rb ch =
     (if rt_ringbuffer_data_len rb = 0 then Some (0, ch, rb)
      else do {
        c \<leftarrow> get_byte (buffer_ptr rb) (unat (read_index rb));
        Some (1, c, if uint (read_index rb) = sint (buffer_size rb) - 1
                    then rb\<lparr>read_mirror := NOT (read_mirror rb), read_index := 0\<rparr>
                    else rb\<lparr>read_index := read_index rb + 1\<rparr>) })"

definition rt_ringbuffer_reset :: "rt_ringbuffer \<Rightarrow> rt_ringbuffer" where
  "rt_ringbuffer_reset rb =
     rb\<lparr>read_mirror := 0, read_index := 0, write_mirror := 0, write_index := 0\<rparr>"

section \<open>Invariant and abstraction\<close>

definition rb_size :: "rt_ringbuffer \<Rightarrow> nat" where
  "rb_size rb = nat (sint (buffer_size rb))"

definition rb_r :: "rt_ringbuffer \<Rightarrow> nat" where "rb_r rb = unat (read_index rb)"
definition rb_w :: "rt_ringbuffer \<Rightarrow> nat" where "rb_w rb = unat (write_index rb)"

definition rb_len :: "rt_ringbuffer \<Rightarrow> nat" where
  "rb_len rb =
     (if rb_r rb = rb_w rb then (if read_mirror rb = write_mirror rb then 0 else rb_size rb)
      else if rb_r rb < rb_w rb then rb_w rb - rb_r rb
      else rb_size rb - (rb_r rb - rb_w rb))"

definition rb_contents :: "rt_ringbuffer \<Rightarrow> u8 list" where
  "rb_contents rb = cyc (buffer_ptr rb) (rb_size rb) (rb_r rb) (rb_len rb)"

definition rb_inv :: "rt_ringbuffer \<Rightarrow> bool" where
  "rb_inv rb \<longleftrightarrow>
     0 < rb_size rb \<and> rb_size rb \<le> length (buffer_ptr rb) \<and>
     rb_r rb < rb_size rb \<and> rb_w rb < rb_size rb \<and>
     (if read_mirror rb = write_mirror rb then rb_r rb \<le> rb_w rb else rb_w rb \<le> rb_r rb)"

lemma one_bit_cases: "(x :: 1 word) = 0 \<or> x = 1"
proof -
  have "unat x < 2 ^ LENGTH(1)" by (rule unsigned_less)
  then have "unat x = 0 \<or> unat x = 1" by auto
  then show ?thesis by (metis unat_eq_zero of_nat_unat ucast_id of_nat_1)
qed

lemma not_bit [simp]: "(NOT (x :: 1 word) = y) = (x \<noteq> y)" "(y = NOT (x :: 1 word)) = (x \<noteq> y)"
  using one_bit_cases[of x] one_bit_cases[of y] by auto

lemma rb_size_bound: "rb_size rb < 32768"
proof -
  have "sint (buffer_size rb) < 2 ^ (LENGTH(16) - 1)" by (rule sint_lt)
  then show ?thesis by (simp add: rb_size_def)
qed

lemma rb_view:
  assumes "rb_inv rb"
  shows "sint (buffer_size rb) = int (rb_size rb)" "0 < rb_size rb"
    "rb_size rb \<le> length (buffer_ptr rb)" "rb_r rb < rb_size rb" "rb_w rb < rb_size rb"
    "uint (read_index rb) = int (rb_r rb)" "uint (write_index rb) = int (rb_w rb)"
  using assms by (simp_all add: rb_inv_def rb_size_def rb_r_def rb_w_def)

lemma rb_len_eq:
  "rb_inv rb \<Longrightarrow> rb_len rb = (if read_mirror rb = write_mirror rb then rb_w rb - rb_r rb
                          else rb_size rb + rb_w rb - rb_r rb)"
  by (cases "read_mirror rb = write_mirror rb") (auto simp: rb_inv_def rb_len_def)

lemma rb_len_le: "rb_inv rb \<Longrightarrow> rb_len rb \<le> rb_size rb"
  using rb_len_eq[of rb] by (cases "read_mirror rb = write_mirror rb") (auto simp: rb_inv_def)

lemma length_rb_contents [simp]: "length (rb_contents rb) = rb_len rb"
  by (simp add: rb_contents_def)

lemma rb_write_pos: "rb_inv rb \<Longrightarrow> (rb_r rb + rb_len rb) mod rb_size rb = rb_w rb"
  using rb_len_eq[of rb] by (cases "read_mirror rb = write_mirror rb") (auto simp: rb_inv_def)

lemma idx_eq: "read_index rb = write_index rb \<longleftrightarrow> rb_r rb = rb_w rb"
  by (simp add: rb_r_def rb_w_def word_unat_eq_iff)

lemma idx_less: "read_index rb < write_index rb \<longleftrightarrow> rb_r rb < rb_w rb"
  by (simp add: rb_r_def rb_w_def word_less_nat_alt)

lemma data_len_nat:
  assumes "rb_inv rb"
  shows "rt_ringbuffer_data_len rb = word_of_nat (rb_len rb)"
  using rb_view[OF assms]
  by (auto simp: rt_ringbuffer_data_len_def rt_ringbuffer_status_def rb_len_def idx_eq idx_less
      of_nat_diff)

lemma unat_small_u32: "m < 65536 \<Longrightarrow> unat (word_of_nat m :: u32) = m"
  by (rule unat_of_nat_small) simp

lemma unat_small_u15: "m < 32768 \<Longrightarrow> unat (word_of_nat m :: 15 word) = m"
  by (rule unat_of_nat_small) simp

lemma unat_data_len:
  assumes "rb_inv rb"
  shows "unat (rt_ringbuffer_data_len rb) = rb_len rb"
  using rb_len_le[OF assms] rb_size_bound[of rb]
  by (simp add: data_len_nat[OF assms] unat_small_u32)

lemma space_len_nat:
  assumes "rb_inv rb"
  shows "rt_ringbuffer_space_len rb = word_of_nat (rb_size rb - rb_len rb)"
  using rb_len_le[OF assms] rb_view(1)[OF assms]
  by (simp add: rt_ringbuffer_space_len_def data_len_nat[OF assms] of_nat_diff)

lemma space_len_eq_0:
  assumes "rb_inv rb"
  shows "rt_ringbuffer_space_len rb = 0 \<longleftrightarrow> rb_len rb = rb_size rb"
proof -
  have "unat (rt_ringbuffer_space_len rb) = rb_size rb - rb_len rb"
    using rb_size_bound[of rb] by (simp add: space_len_nat[OF assms] unat_small_u32)
  then show ?thesis using rb_len_le[OF assms] by (metis diff_is_0_eq le_antisym unat_eq_zero diff_self_eq_0)
qed

lemma unat_space_len16:
  assumes "rb_inv rb"
  shows "unat (ucast (rt_ringbuffer_space_len rb) :: u16) = rb_size rb - rb_len rb"
proof -
  let ?m = "rb_size rb - rb_len rb"
  have "?m < 65536" using rb_size_bound[of rb] by linarith
  then have "unat (word_of_nat ?m :: u16) = ?m" by (intro unat_of_nat_small) simp
  moreover have "(ucast (word_of_nat ?m :: u32) :: u16) = word_of_nat ?m"
    using \<open>?m < 65536\<close> by (metis of_nat_unat unat_small_u32)
  ultimately show ?thesis by (simp only: space_len_nat[OF assms])
qed

section \<open>Moving the indices\<close>

lemma rb_after_write:
  assumes inv: "rb_inv rb"
    and wr: "cyc_written (rb_size rb) (buffer_ptr rb) (rb_w rb) k src b" "length b = length (buffer_ptr rb)"
    and k: "rb_len rb + k \<le> rb_size rb" "k \<le> length src"
    and rb': "rb' = rb\<lparr>buffer_ptr := b,
      write_mirror := (if rb_w rb + k < rb_size rb then write_mirror rb else NOT (write_mirror rb)),
      write_index := word_of_nat w\<rparr>"
    and w_def: "w = (if rb_w rb + k < rb_size rb then rb_w rb + k else rb_w rb + k - rb_size rb)"
  shows "rb_inv rb' \<and> rb_contents rb' = rb_contents rb @ take k src \<and> rb_size rb' = rb_size rb"
proof -
  note v = rb_view[OF inv]
  have w: "w < rb_size rb" using v k by (auto simp: w_def)
  then have w': "rb_w rb' = w" using rb_size_bound[of rb]
    by (simp add: rb' rb_w_def[of "_\<lparr>write_index := _\<rparr>"] unat_small_u15)
  have same: "rb_size rb' = rb_size rb" "rb_r rb' = rb_r rb" "buffer_size rb' = buffer_size rb"
    "read_mirror rb' = read_mirror rb" "buffer_ptr rb' = b"
    by (simp_all add: rb' rb_size_def rb_r_def)
  have wm': "write_mirror rb' = (if rb_w rb + k < rb_size rb then write_mirror rb else NOT (write_mirror rb))"
    by (simp add: rb')
  have k': "if read_mirror rb = write_mirror rb then rb_w rb - rb_r rb + k \<le> rb_size rb
      else rb_size rb + rb_w rb - rb_r rb + k \<le> rb_size rb"
    using k(1) rb_len_eq[OF inv] by (cases "read_mirror rb = write_mirror rb") simp_all
  have inv': "rb_inv rb'"
    using inv k' w wr(2) unfolding rb_inv_def same w' wm' w_def
    by (cases "rb_w rb + k < rb_size rb"; cases "read_mirror rb = write_mirror rb") auto
  have len': "rb_len rb' = rb_len rb + k"
    using inv k' w unfolding rb_len_eq[OF inv] rb_len_eq[OF inv'] rb_inv_def same w' wm' w_def
    by (cases "rb_w rb + k < rb_size rb"; cases "read_mirror rb = write_mirror rb") auto
  have "rb_contents rb' = rb_contents rb @ take k src"
    unfolding rb_contents_def same len'
    by (rule cyc_append) (use wr k v rb_write_pos[OF inv] in auto)
  with inv' same show ?thesis by simp
qed

lemma rb_after_read:
  assumes inv: "rb_inv rb" and k: "k \<le> rb_len rb"
    and rb': "rb' = rb\<lparr>
      read_mirror := (if rb_r rb + k < rb_size rb then read_mirror rb else NOT (read_mirror rb)),
      read_index := word_of_nat r\<rparr>"
    and r_def: "r = (if rb_r rb + k < rb_size rb then rb_r rb + k else rb_r rb + k - rb_size rb)"
  shows "rb_inv rb' \<and> rb_contents rb' = drop k (rb_contents rb) \<and> rb_size rb' = rb_size rb"
proof -
  note v = rb_view[OF inv]
  have kn: "k \<le> rb_size rb" using k rb_len_le[OF inv] by linarith
  have r: "r < rb_size rb" and r_mod: "r = (rb_r rb + k) mod rb_size rb"
    using v kn by (auto simp: r_def le_mod_geq)
  then have r': "rb_r rb' = r" using rb_size_bound[of rb]
    by (simp add: rb' rb_r_def[of "_\<lparr>read_index := _\<rparr>"] unat_small_u15)
  have same: "rb_size rb' = rb_size rb" "rb_w rb' = rb_w rb" "buffer_size rb' = buffer_size rb"
    "write_mirror rb' = write_mirror rb" "buffer_ptr rb' = buffer_ptr rb"
    by (simp_all add: rb' rb_size_def rb_w_def)
  have rm': "read_mirror rb' = (if rb_r rb + k < rb_size rb then read_mirror rb else NOT (read_mirror rb))"
    by (simp add: rb')
  have k': "if read_mirror rb = write_mirror rb then k \<le> rb_w rb - rb_r rb
      else k \<le> rb_size rb + rb_w rb - rb_r rb"
    using k rb_len_eq[OF inv] by (cases "read_mirror rb = write_mirror rb") simp_all
  have inv': "rb_inv rb'"
    using inv k' r unfolding rb_inv_def same r' rm' r_def
    by (cases "rb_r rb + k < rb_size rb"; cases "read_mirror rb = write_mirror rb") auto
  have len': "rb_len rb' = rb_len rb - k"
    using inv k' r unfolding rb_len_eq[OF inv] rb_len_eq[OF inv'] rb_inv_def same r' rm' r_def
    by (cases "rb_r rb + k < rb_size rb"; cases "read_mirror rb = write_mirror rb") auto
  have "rb_contents rb' = drop k (rb_contents rb)"
    unfolding rb_contents_def same len' r' r_mod by (rule cyc_drop)
  with inv' same show ?thesis by simp
qed

section \<open>Behaviour of the operations\<close>

lemma ucast_of_unat: "(ucast (x :: 'a::len word) :: 'b::len word) = word_of_nat (unat x)"
  by simp

lemma unat_ucast_u32: "unat (ucast (x :: u16) :: u32) = unat x"
proof -
  have "unat x < 2 ^ LENGTH(16)" by (rule unsigned_less)
  then show ?thesis unfolding ucast_of_unat[of x] by (intro unat_small_u32) simp
qed

text \<open>The two copies of a block write: in one piece, or split at the end of the pool.\<close>

lemma block_write:
  assumes inv: "rb_inv rb" and k: "k \<le> length ptr" "k \<le> rb_size rb"
  shows "int k < sint (buffer_size rb) - uint (write_index rb) \<Longrightarrow>
      \<exists>b. memcpy (buffer_ptr rb) (uint (write_index rb)) ptr 0 (int k) = Some b \<and>
          length b = length (buffer_ptr rb) \<and> rb_w rb + k < rb_size rb \<and>
          cyc_written (rb_size rb) (buffer_ptr rb) (rb_w rb) k ptr b"
    and "\<not> int k < sint (buffer_size rb) - uint (write_index rb) \<Longrightarrow>
      \<exists>b1 b. memcpy (buffer_ptr rb) (uint (write_index rb)) ptr 0
                (sint (buffer_size rb) - uint (write_index rb)) = Some b1 \<and>
          memcpy b1 0 ptr (sint (buffer_size rb) - uint (write_index rb))
                (int k - (sint (buffer_size rb) - uint (write_index rb))) = Some b \<and>
          length b = length (buffer_ptr rb) \<and> rb_size rb \<le> rb_w rb + k \<and>
          int k - (sint (buffer_size rb) - uint (write_index rb)) = int (rb_w rb + k - rb_size rb) \<and>
          cyc_written (rb_size rb) (buffer_ptr rb) (rb_w rb) k ptr b"
proof -
  note v = rb_view[OF inv]
  {
    assume c: "int k < sint (buffer_size rb) - uint (write_index rb)"
    with v have wk: "rb_w rb + k < rb_size rb" by linarith
    have "memcpy (buffer_ptr rb) (uint (write_index rb)) ptr 0 (int k) =
        Some (take (rb_w rb) (buffer_ptr rb) @ take k ptr @ drop (rb_w rb + k) (buffer_ptr rb))"
      using memcpy_nat[of "buffer_ptr rb" "rb_w rb" ptr 0 k] v k wk by simp
    with cyc_written_blit[of "rb_w rb" k "rb_size rb" "buffer_ptr rb" ptr] v k wk
    show "\<exists>b. memcpy (buffer_ptr rb) (uint (write_index rb)) ptr 0 (int k) = Some b \<and>
          length b = length (buffer_ptr rb) \<and> rb_w rb + k < rb_size rb \<and>
          cyc_written (rb_size rb) (buffer_ptr rb) (rb_w rb) k ptr b"
      by (metis less_imp_le_nat memcpy_length)
  next
    assume c: "\<not> int k < sint (buffer_size rb) - uint (write_index rb)"
    let ?f = "rb_size rb - rb_w rb"
    have f: "sint (buffer_size rb) - uint (write_index rb) = int ?f" using v by simp
    with c have fk: "?f \<le> k" by simp
    then have rest: "int k - int ?f = int (k - ?f)" "k - ?f = rb_w rb + k - rb_size rb"
      "rb_size rb \<le> rb_w rb + k" using v by simp_all
    let ?b1 = "take (rb_w rb) (buffer_ptr rb) @ take ?f ptr @ drop (rb_size rb) (buffer_ptr rb)"
    have b1: "memcpy (buffer_ptr rb) (uint (write_index rb)) ptr 0 (int ?f) = Some ?b1"
      using memcpy_nat[of "buffer_ptr rb" "rb_w rb" ptr 0 ?f] v k fk by simp
    have l1: "length ?b1 = length (buffer_ptr rb)" using b1 by (rule memcpy_length)
    have b2: "memcpy ?b1 0 ptr (int ?f) (int (k - ?f)) =
        Some (take (k - ?f) (drop ?f ptr) @ drop (k - ?f) ?b1)"
      using memcpy_nat[of ?b1 0 ptr ?f "k - ?f"] v k fk unfolding l1 by simp
    have "length (take (k - ?f) (drop ?f ptr) @ drop (k - ?f) ?b1) = length (buffer_ptr rb)"
      using memcpy_length[OF b2] l1 by simp
    moreover have "cyc_written (rb_size rb) (buffer_ptr rb) (rb_w rb) k ptr
        (take (k - ?f) (drop ?f ptr) @ drop (k - ?f) ?b1)"
      by (rule cyc_written_blit2) (use v k fk in auto)
    ultimately
    show "\<exists>b1 b. memcpy (buffer_ptr rb) (uint (write_index rb)) ptr 0
                (sint (buffer_size rb) - uint (write_index rb)) = Some b1 \<and>
          memcpy b1 0 ptr (sint (buffer_size rb) - uint (write_index rb))
                (int k - (sint (buffer_size rb) - uint (write_index rb))) = Some b \<and>
          length b = length (buffer_ptr rb) \<and> rb_size rb \<le> rb_w rb + k \<and>
          int k - (sint (buffer_size rb) - uint (write_index rb)) = int (rb_w rb + k - rb_size rb) \<and>
          cyc_written (rb_size rb) (buffer_ptr rb) (rb_w rb) k ptr b"
      unfolding f rest(1) rest(2)[symmetric] using b1 b2 rest(3) by blast
  }
qed

lemma write_index_plus:
  "unat (x :: u16) = k \<Longrightarrow> write_index rb + ucast x = word_of_nat (rb_w rb + k)"
  by (simp add: rb_w_def ucast_of_unat)

lemma read_index_plus:
  "unat (x :: u16) = k \<Longrightarrow> read_index rb + ucast x = word_of_nat (rb_r rb + k)"
  by (simp add: rb_r_def ucast_of_unat)

lemma ring_put_spec:
  assumes inv: "rb_inv rb" and ptr: "unat len \<le> length ptr"
  defines "k \<equiv> min (unat len) (rb_size rb - rb_len rb)"
  shows "\<exists>rb'. rt_ringbuffer_put rb ptr len = Some (word_of_nat k, rb') \<and> rb_inv rb' \<and>
    rb_contents rb' = rb_contents rb @ take k ptr \<and> rb_size rb' = rb_size rb"
proof -
  let ?room = "rb_size rb - rb_len rb"
  let ?sz = "ucast (rt_ringbuffer_space_len rb) :: u16"
  let ?l = "if ?sz < len then ?sz else len"
  let ?tail = "sint (buffer_size rb) - uint (write_index rb)"
  note v = rb_view[OF inv] and sz = unat_space_len16[OF inv]
  have l: "unat ?l = k" unfolding k_def using sz by (auto simp: word_less_nat_alt)
  then have ul: "uint ?l = int k" by (metis uint_nat)
  have kk: "k \<le> length ptr" "rb_len rb + k \<le> rb_size rb" "k \<le> rb_size rb"
    unfolding k_def using ptr rb_len_le[OF inv] by auto
  have r: "(ucast ?l :: u32) = word_of_nat k" by (rule trans[OF ucast_of_unat]) (simp only: l)
  show ?thesis
  proof (cases "?sz = 0")
    case True
    then have "k = 0" using sz unfolding k_def by simp
    with True inv show ?thesis by (simp add: rt_ringbuffer_put_def)
  next
    case nz: False
    show ?thesis
    proof (cases "int k < ?tail")
      case True
      from block_write(1)[OF inv kk(1) kk(3) True] obtain b where
        b: "memcpy (buffer_ptr rb) (uint (write_index rb)) ptr 0 (int k) = Some b"
          "length b = length (buffer_ptr rb)" "rb_w rb + k < rb_size rb"
          "cyc_written (rb_size rb) (buffer_ptr rb) (rb_w rb) k ptr b" by blast
      let ?rb' = "rb\<lparr>buffer_ptr := b, write_index := word_of_nat (rb_w rb + k)\<rparr>"
      have "rt_ringbuffer_put rb ptr len = Some (word_of_nat k, ?rb')"
        unfolding rt_ringbuffer_put_def Let_def r ul write_index_plus[OF l]
        using nz True b(1) by simp
      moreover have "rb_inv ?rb' \<and> rb_contents ?rb' = rb_contents rb @ take k ptr \<and> rb_size ?rb' = rb_size rb"
        by (rule rb_after_write[OF inv b(4) b(2) kk(2) kk(1)]) (use b(3) in simp_all)
      ultimately show ?thesis by blast
    next
      case False
      from block_write(2)[OF inv kk(1) kk(3) False] obtain b1 b where
        b: "memcpy (buffer_ptr rb) (uint (write_index rb)) ptr 0 ?tail = Some b1"
          "memcpy b1 0 ptr ?tail (int k - ?tail) = Some b"
          "length b = length (buffer_ptr rb)" "rb_size rb \<le> rb_w rb + k"
          "int k - ?tail = int (rb_w rb + k - rb_size rb)"
          "cyc_written (rb_size rb) (buffer_ptr rb) (rb_w rb) k ptr b" by blast
      let ?rb' = "rb\<lparr>buffer_ptr := b, write_mirror := NOT (write_mirror rb),
        write_index := word_of_nat (rb_w rb + k - rb_size rb)\<rparr>"
      have "(word_of_int (int k - ?tail) :: 15 word) = word_of_nat (rb_w rb + k - rb_size rb)"
        unfolding b(5) by (rule of_int_of_nat_eq)
      then have "rt_ringbuffer_put rb ptr len = Some (word_of_nat k, ?rb')"
        unfolding rt_ringbuffer_put_def Let_def r ul
        using nz False b(1,2) by simp
      moreover have "rb_inv ?rb' \<and> rb_contents ?rb' = rb_contents rb @ take k ptr \<and> rb_size ?rb' = rb_size rb"
        by (rule rb_after_write[OF inv b(6) b(3) kk(2) kk(1)]) (use b(4) in simp_all)
      ultimately show ?thesis by blast
    qed
  qed
qed

lemma ring_get_spec:
  assumes inv: "rb_inv rb" and ptr: "unat len \<le> length ptr"
  defines "k \<equiv> min (unat len) (rb_len rb)"
  shows "\<exists>rb'. rt_ringbuffer_get rb ptr len =
      Some (word_of_nat k, take k (rb_contents rb) @ drop k ptr, rb') \<and>
    rb_inv rb' \<and> rb_contents rb' = drop k (rb_contents rb) \<and> rb_size rb' = rb_size rb"
proof -
  let ?sz = "rt_ringbuffer_data_len rb"
  let ?l = "if ?sz < ucast len then ucast ?sz else len"
  let ?tail = "sint (buffer_size rb) - uint (read_index rb)"
  note v = rb_view[OF inv] and sz = unat_data_len[OF inv]
  have small: "rb_len rb < 65536" using rb_len_le[OF inv] rb_size_bound[of rb] by linarith
  have ucl: "unat (ucast len :: u32) = unat len"
    by (rule unat_ucast_u32)
  have "unat (ucast ?sz :: u16) = rb_len rb"
    unfolding ucast_of_unat[of ?sz] sz by (rule unat_of_nat_small) (use small in simp)
  then have l: "unat ?l = k" unfolding k_def using sz ucl by (simp add: word_less_nat_alt)
  then have ul: "uint ?l = int k" by (metis uint_nat)
  have r: "(ucast ?l :: u32) = word_of_nat k" by (rule trans[OF ucast_of_unat]) (simp only: l)
  have kk: "k \<le> length ptr" "k \<le> rb_len rb" "k \<le> rb_size rb"
    unfolding k_def using ptr rb_len_le[OF inv] by auto
  have nth: "rb_contents rb ! i = buffer_ptr rb ! ((rb_r rb + i) mod rb_size rb)" if "i < k" for i
    using that kk by (simp add: rb_contents_def)
  show ?thesis
  proof (cases "?sz = 0")
    case True
    then have "k = 0" using sz unfolding k_def by simp
    with True inv show ?thesis by (simp add: rt_ringbuffer_get_def)
  next
    case nz: False
    show ?thesis
    proof (cases "int k < ?tail")
      case True
      with v have rk: "rb_r rb + k < rb_size rb" by linarith
      let ?rb' = "rb\<lparr>read_index := word_of_nat (rb_r rb + k)\<rparr>"
      have "take k (drop (rb_r rb) (buffer_ptr rb)) = take k (rb_contents rb)"
        by (rule nth_equalityI) (use rk v kk nth in auto)
      then have "memcpy ptr 0 (buffer_ptr rb) (uint (read_index rb)) (int k) =
          Some (take k (rb_contents rb) @ drop k ptr)"
        using memcpy_nat[of ptr 0 "buffer_ptr rb" "rb_r rb" k] rk v kk by simp
      then have "rt_ringbuffer_get rb ptr len =
          Some (word_of_nat k, take k (rb_contents rb) @ drop k ptr, ?rb')"
        unfolding rt_ringbuffer_get_def Let_def r ul read_index_plus[OF l] using nz True by simp
      moreover have "rb_inv ?rb' \<and> rb_contents ?rb' = drop k (rb_contents rb) \<and> rb_size ?rb' = rb_size rb"
        by (rule rb_after_read[OF inv kk(2)]) (use rk in simp_all)
      ultimately show ?thesis by blast
    next
      case False
      let ?f = "rb_size rb - rb_r rb"
      have f: "?tail = int ?f" using v by simp
      with False have fk: "?f \<le> k" "rb_size rb \<le> rb_r rb + k" using v by simp_all
      have rest: "int k - ?tail = int (k - ?f)" "k - ?f = rb_r rb + k - rb_size rb"
        using f fk v by simp_all
      let ?rb' = "rb\<lparr>read_mirror := NOT (read_mirror rb),
        read_index := word_of_nat (rb_r rb + k - rb_size rb)\<rparr>"
      let ?p1 = "take ?f (drop (rb_r rb) (buffer_ptr rb)) @ drop ?f ptr"
      have p1: "memcpy ptr 0 (buffer_ptr rb) (uint (read_index rb)) ?tail = Some ?p1"
        using memcpy_nat[of ptr 0 "buffer_ptr rb" "rb_r rb" ?f] fk v kk unfolding f by simp
      have l1: "length ?p1 = length ptr" using p1 by (rule memcpy_length)
      have "take k (rb_contents rb) @ drop k ptr =
          take ?f ?p1 @ take (k - ?f) (buffer_ptr rb) @ drop k ?p1"
      proof -
        have "take k (rb_contents rb) = take ?f (drop (rb_r rb) (buffer_ptr rb)) @ take (k - ?f) (buffer_ptr rb)"
          by (rule nth_equalityI) (use fk v kk nth in \<open>auto simp: nth_append le_mod_geq add.commute[of _ "rb_r rb"]\<close>)
        then show ?thesis using fk v by simp
      qed
      then have p2: "memcpy ?p1 ?tail (buffer_ptr rb) 0 (int k - ?tail) =
          Some (take k (rb_contents rb) @ drop k ptr)"
        using memcpy_nat[of ?p1 ?f "buffer_ptr rb" 0 "k - ?f"] fk v kk l1
        unfolding f rest(1)[unfolded f] by simp
      have "(word_of_int (int k - ?tail) :: 15 word) = word_of_nat (rb_r rb + k - rb_size rb)"
        unfolding rest by (rule of_int_of_nat_eq)
      then have "rt_ringbuffer_get rb ptr len =
          Some (word_of_nat k, take k (rb_contents rb) @ drop k ptr, ?rb')"
        unfolding rt_ringbuffer_get_def Let_def r ul using nz False p1 p2 by simp
      moreover have "rb_inv ?rb' \<and> rb_contents ?rb' = drop k (rb_contents rb) \<and> rb_size ?rb' = rb_size rb"
        by (rule rb_after_read[OF inv kk(2)]) (use fk in simp_all)
      ultimately show ?thesis by blast
    qed
  qed
qed

lemma ring_putchar_room:
  assumes inv: "rb_inv rb" and room: "rb_len rb < rb_size rb"
  shows "\<exists>rb'. rt_ringbuffer_putchar rb ch = Some (1, rb') \<and> rb_inv rb' \<and>
    rb_contents rb' = rb_contents rb @ [ch] \<and> rb_size rb' = rb_size rb"
proof -
  note v = rb_view[OF inv]
  have last: "uint (write_index rb) = sint (buffer_size rb) - 1 \<longleftrightarrow> rb_w rb + 1 = rb_size rb"
    using v by auto
  let ?w = "if rb_w rb + 1 < rb_size rb then rb_w rb + 1 else rb_w rb + 1 - rb_size rb"
  let ?rb' = "rb\<lparr>buffer_ptr := (buffer_ptr rb)[rb_w rb := ch],
    write_mirror := (if rb_w rb + 1 < rb_size rb then write_mirror rb else NOT (write_mirror rb)),
    write_index := word_of_nat ?w\<rparr>"
  have put: "put_byte (buffer_ptr rb) (unat (write_index rb)) ch = Some ((buffer_ptr rb)[rb_w rb := ch])"
    using v by (simp add: put_byte_def rb_w_def)
  have "rt_ringbuffer_putchar rb ch = Some (1, ?rb')"
    using room v(5) unfolding rt_ringbuffer_putchar_def space_len_eq_0[OF inv] put last
    by (auto simp: rb_w_def)
  moreover have "rb_inv ?rb' \<and> rb_contents ?rb' = rb_contents rb @ take 1 [ch] \<and> rb_size ?rb' = rb_size rb"
    by (rule rb_after_write[OF inv cyc_written_update[OF v(5,3)]]) (use room in simp_all)
  ultimately show ?thesis by auto
qed

lemma ring_putchar_full:
  assumes "rb_inv rb" "rb_len rb = rb_size rb"
  shows "rt_ringbuffer_putchar rb ch = Some (0, rb)"
  using assms by (simp add: rt_ringbuffer_putchar_def space_len_eq_0)

lemma data_len_eq_0: "rb_inv rb \<Longrightarrow> rt_ringbuffer_data_len rb = 0 \<longleftrightarrow> rb_len rb = 0"
  using unat_data_len[of rb] by (metis unat_eq_zero)

lemma ring_getchar_data:
  assumes inv: "rb_inv rb" and data: "rb_contents rb = c # cs"
  shows "\<exists>rb'. rt_ringbuffer_getchar rb ch = Some (1, c, rb') \<and> rb_inv rb' \<and>
    rb_contents rb' = cs \<and> rb_size rb' = rb_size rb"
proof -
  note v = rb_view[OF inv]
  have len: "rb_len rb = Suc (length cs)" using data length_rb_contents[of rb] by simp
  have "rb_contents rb ! 0 = buffer_ptr rb ! rb_r rb"
    using len v by (simp add: rb_contents_def)
  with data have c: "c = buffer_ptr rb ! rb_r rb" by simp
  have last: "uint (read_index rb) = sint (buffer_size rb) - 1 \<longleftrightarrow> rb_r rb + 1 = rb_size rb"
    using v by auto
  let ?r = "if rb_r rb + 1 < rb_size rb then rb_r rb + 1 else rb_r rb + 1 - rb_size rb"
  let ?rb' = "rb\<lparr>
    read_mirror := (if rb_r rb + 1 < rb_size rb then read_mirror rb else NOT (read_mirror rb)),
    read_index := word_of_nat ?r\<rparr>"
  have get: "get_byte (buffer_ptr rb) (unat (read_index rb)) = Some c"
    using v c by (simp add: get_byte_def rb_r_def)
  have "rt_ringbuffer_getchar rb ch = Some (1, c, ?rb')"
    using len v(4) unfolding rt_ringbuffer_getchar_def data_len_eq_0[OF inv] get last
    by (auto simp: rb_r_def)
  moreover have "rb_inv ?rb' \<and> rb_contents ?rb' = drop 1 (rb_contents rb) \<and> rb_size ?rb' = rb_size rb"
    by (rule rb_after_read[OF inv]) (use len in simp_all)
  ultimately show ?thesis using data by auto
qed

lemma ring_getchar_empty:
  assumes "rb_inv rb" "rb_contents rb = []"
  shows "rt_ringbuffer_getchar rb ch = Some (0, ch, rb)"
  using assms length_rb_contents[of rb] by (simp add: rt_ringbuffer_getchar_def data_len_eq_0)

lemma ring_init:
  assumes "4 \<le> sint sz" "unat sz \<le> length pool"
  shows "\<exists>rb'. rt_ringbuffer_init rb pool sz = Some rb' \<and> rb_inv rb' \<and> rb_contents rb' = [] \<and>
    rb_size rb' = unat sz div 4 * 4"
proof -
  have s: "sint sz = int (unat sz)" using assms(1) by (intro sint_nonneg_unat) simp
  have u: "unat (RT_ALIGN_DOWN sz) = unat sz div 4 * 4" by (rule unat_RT_ALIGN_DOWN)
  have "int (unat sz) < int 32768" using sint_lt[of sz] unfolding s by simp
  then have "unat sz < 32768" by (simp only: of_nat_less_iff)
  moreover have "unat sz div 4 * 4 \<le> unat sz" by simp
  ultimately have "unat sz div 4 * 4 < 32768" by linarith
  then have "unat (RT_ALIGN_DOWN sz) < 2 ^ (LENGTH(16) - 1)" unfolding u by simp
  then have sd: "sint (RT_ALIGN_DOWN sz) = int (unat sz div 4 * 4)"
    using u not_msb_unat by metis
  let ?rb = "rb\<lparr>read_mirror := 0, read_index := 0, write_mirror := 0, write_index := 0,
              buffer_ptr := pool, buffer_size := RT_ALIGN_DOWN sz\<rparr>"
  have f: "rb_r ?rb = 0" "rb_w ?rb = 0" "rb_size ?rb = unat sz div 4 * 4"
    by (simp_all add: rb_r_def rb_w_def rb_size_def sd)
  have "int 4 \<le> int (unat sz)" using assms(1) unfolding s by (simp only: of_nat_numeral)
  then have "4 \<le> unat sz" by (simp only: of_nat_le_iff)
  then have "0 < unat sz div 4 * 4" by simp
  moreover have "unat sz div 4 * 4 \<le> length pool" using assms(2) by linarith
  ultimately have "rb_inv ?rb" by (simp add: rb_inv_def f)
  moreover have "rb_contents ?rb = []" by (simp add: rb_contents_def rb_len_def f)
  ultimately show ?thesis using assms(1) f(3) by (simp add: rt_ringbuffer_init_def)
qed

lemma ring_reset:
  assumes "rb_inv rb"
  shows "rb_inv (rt_ringbuffer_reset rb)" "rb_contents (rt_ringbuffer_reset rb) = []"
    "rb_size (rt_ringbuffer_reset rb) = rb_size rb"
proof -
  have f: "rb_r (rt_ringbuffer_reset rb) = 0" "rb_w (rt_ringbuffer_reset rb) = 0"
    "rb_size (rt_ringbuffer_reset rb) = rb_size rb"
    "buffer_ptr (rt_ringbuffer_reset rb) = buffer_ptr rb"
    "read_mirror (rt_ringbuffer_reset rb) = 0" "write_mirror (rt_ringbuffer_reset rb) = 0"
    by (simp_all add: rb_r_def rb_w_def rb_size_def rt_ringbuffer_reset_def)
  show "rb_inv (rt_ringbuffer_reset rb)" using assms unfolding rb_inv_def f by simp
  show "rb_contents (rt_ringbuffer_reset rb) = []" by (simp add: rb_contents_def rb_len_def f)
  show "rb_size (rt_ringbuffer_reset rb) = rb_size rb" by (rule f)
qed

text \<open>Overwriting: the write passes the read index, which is moved to the new write index. The buffer
  is then full if the mirrors differ, and reads as empty if they agree.\<close>

lemma rb_after_overwrite:
  assumes inv: "rb_inv rb"
    and wr: "cyc_written (rb_size rb) (buffer_ptr rb) (rb_w rb) k src b" "length b = length (buffer_ptr rb)"
    and k: "rb_size rb \<le> rb_len rb + k" "k \<le> length src" "k \<le> rb_size rb"
    and rb': "rb' = rb\<lparr>buffer_ptr := b, write_mirror := wm, write_index := word_of_nat w,
                       read_mirror := rm, read_index := word_of_nat w\<rparr>"
    and w_def: "w = (if rb_w rb + k < rb_size rb then rb_w rb + k else rb_w rb + k - rb_size rb)"
  shows "rb_inv rb' \<and> rb_size rb' = rb_size rb \<and> rb_contents rb' =
    (if rm = wm then [] else drop (rb_len rb + k - rb_size rb) (rb_contents rb @ take k src))"
proof -
  note v = rb_view[OF inv]
  have w: "w < rb_size rb" "w < 32768"
    using v k rb_size_bound[of rb] by (auto simp: w_def)
  have f: "rb_size rb' = rb_size rb" "rb_w rb' = w" "rb_r rb' = w" "buffer_ptr rb' = b"
    "read_mirror rb' = rm" "write_mirror rb' = wm"
    using w(2) by (simp_all add: rb' rb_size_def rb_w_def rb_r_def unat_small_u15)
  have "rb_inv rb'" using w wr(2) v unfolding rb_inv_def f by simp
  moreover have "rb_contents rb' = drop (rb_len rb + k - rb_size rb) (rb_contents rb @ take k src)"
    if "rm \<noteq> wm"
  proof -
    have "w = (rb_w rb + k) mod rb_size rb" using v k by (auto simp: w_def le_mod_geq)
    also have "\<dots> = (rb_r rb + rb_len rb + k) mod rb_size rb"
      unfolding rb_write_pos[OF inv, symmetric] by (rule mod_add_left_eq)
    finally have "cyc b (rb_size rb) w (rb_size rb) =
        drop (rb_len rb + k - rb_size rb) (rb_contents rb @ take k src)"
      unfolding rb_contents_def
      using cyc_overwrite[of "rb_size rb" "buffer_ptr rb" "rb_r rb" "rb_len rb" k src b]
        wr(1) k v rb_len_le[OF inv] rb_write_pos[OF inv] by simp
    then show ?thesis using that by (simp add: rb_contents_def rb_len_def f)
  qed
  moreover have "rb_contents rb' = []" if "rm = wm"
    using that by (simp add: rb_contents_def rb_len_def f)
  ultimately show ?thesis using f by simp
qed

lemma keep_last:
  assumes "unat_len \<le> length ptr0" "length c \<le> n"
  defines "k \<equiv> min unat_len n"
  shows "drop (length c + k - n) (c @ take k (drop (unat_len - k) ptr0)) =
         drop (length c + unat_len - n) (c @ take unat_len ptr0)"
proof (cases "unat_len \<le> n")
  case True
  then show ?thesis by (simp add: k_def)
next
  case False
  with assms have "k = n" "n < unat_len" by simp_all
  then show ?thesis using assms by (simp add: drop_take)
qed

text \<open>The result of a forced write, in closed form. The buffer keeps the last \<open>n\<close> bytes of what it
  held followed by the new block, except that a write which wraps while both mirrors agree and
  which passes the read index leaves both mirrors equal, so that the buffer reads as empty.\<close>

definition put_force_contents :: "rt_ringbuffer \<Rightarrow> u8 list \<Rightarrow> nat \<Rightarrow> u8 list" where
  "put_force_contents rb ptr n =
     (let k = min n (rb_size rb); all = rb_contents rb @ take n ptr in
      if rb_size rb - rb_len rb < k \<and> rb_size rb \<le> rb_w rb + k \<and> read_mirror rb = write_mirror rb
      then [] else drop (length all - rb_size rb) all)"

lemma ring_put_force_spec:
  assumes inv: "rb_inv rb" and ptr: "unat len \<le> length ptr"
  shows "\<exists>rb'. rt_ringbuffer_put_force rb ptr len = Some (word_of_nat (min (unat len) (rb_size rb)), rb') \<and>
    rb_inv rb' \<and> rb_contents rb' = put_force_contents rb ptr (unat len) \<and> rb_size rb' = rb_size rb"
proof -
  let ?n = "rb_size rb"
  define k where "k = min (unat len) ?n"
  define q where "q = drop (unat len - k) ptr"
  let ?sp = "ucast (rt_ringbuffer_space_len rb) :: u16"
  let ?tail = "sint (buffer_size rb) - uint (write_index rb)"
  let ?big = "sint (buffer_size rb) < uint len"
  let ?l = "if ?big then buffer_size rb else len"
  note v = rb_view[OF inv]
  have big: "?big \<longleftrightarrow> ?n < unat len" by (metis v(1) of_nat_less_iff uint_nat)
  have bs: "unat (buffer_size rb) = ?n"
  proof -
    have "buffer_size rb = word_of_int (sint (buffer_size rb))" by simp
    also have "\<dots> = word_of_nat ?n" unfolding v(1) by (rule of_int_of_nat_eq)
    finally have "unat (buffer_size rb) = unat (word_of_nat ?n :: u16)" by simp
    also have "\<dots> = ?n" by (rule unat_of_nat_small) (use rb_size_bound[of rb] in simp)
    finally show ?thesis .
  qed
  have l: "unat ?l = k" unfolding k_def big using bs by auto
  then have ul: "uint ?l = int k" by (metis uint_nat)
  have r: "(ucast ?l :: u32) = word_of_nat k" by (rule trans[OF ucast_of_unat]) (simp only: l)
  have pq: "(if ?big then drop (nat (uint len - sint (buffer_size rb))) ptr else ptr) = q"
  proof (cases ?big)
    case True
    then have "uint len - sint (buffer_size rb) = int (unat len - k)"
      unfolding big by (metis v(1) k_def min.absorb_iff2 min.strict_order_iff of_nat_diff
          less_imp_le_nat min.commute uint_nat)
    then have "nat (uint len - sint (buffer_size rb)) = unat len - k" by (simp only: nat_int)
    with True show ?thesis by (simp only: q_def if_True)
  next
    case False
    then show ?thesis unfolding big q_def k_def by simp
  qed
  have sp: "?sp < ?l \<longleftrightarrow> ?n - rb_len rb < k"
    unfolding word_less_nat_alt l unat_space_len16[OF inv] ..
  have kk: "k \<le> length q" "k \<le> ?n" unfolding q_def k_def using ptr by auto
  have total: "drop (rb_len rb + k - ?n) (rb_contents rb @ take k q) =
      drop (rb_len rb + unat len - ?n) (rb_contents rb @ take (unat len) ptr)"
    using keep_last[of "unat len" ptr "rb_contents rb" ?n] ptr rb_len_le[OF inv]
    by (simp add: k_def q_def)
  have fit: "rb_contents rb @ take k q = drop (rb_len rb + unat len - ?n) (rb_contents rb @ take (unat len) ptr)"
    if "\<not> ?n - rb_len rb < k"
  proof -
    have "rb_len rb + k - ?n = 0" using that rb_len_le[OF inv] by linarith
    then show ?thesis using total by simp
  qed
  have spec: "put_force_contents rb ptr (unat len) =
      (if ?n - rb_len rb < k \<and> ?n \<le> rb_w rb + k \<and> read_mirror rb = write_mirror rb then []
       else drop (rb_len rb + unat len - ?n) (rb_contents rb @ take (unat len) ptr))"
    using ptr by (simp add: put_force_contents_def Let_def k_def)
  show ?thesis unfolding k_def[symmetric]
  proof (cases "int k < ?tail")
    case True
    from block_write(1)[OF inv kk True] obtain b where
      b: "memcpy (buffer_ptr rb) (uint (write_index rb)) q 0 (int k) = Some b"
        "length b = length (buffer_ptr rb)" "rb_w rb + k < ?n"
        "cyc_written ?n (buffer_ptr rb) (rb_w rb) k q b" by blast
    let ?rb1 = "rb\<lparr>buffer_ptr := b, write_index := word_of_nat (rb_w rb + k)\<rparr>"
    let ?rb2 = "if ?n - rb_len rb < k then ?rb1\<lparr>read_index := word_of_nat (rb_w rb + k)\<rparr> else ?rb1"
    have run: "rt_ringbuffer_put_force rb ptr len = Some (word_of_nat k, ?rb2)"
      unfolding rt_ringbuffer_put_force_def Let_def r ul pq sp write_index_plus[OF l]
      using True b(1) by simp
    have "rb_inv ?rb2 \<and> rb_contents ?rb2 = put_force_contents rb ptr (unat len) \<and> rb_size ?rb2 = ?n"
    proof (cases "?n - rb_len rb < k")
      case over: True
      have ne: "read_mirror rb \<noteq> write_mirror rb"
        using over b(3) rb_len_eq[OF inv] rb_view[OF inv] by (auto split: if_splits)
      have "rb_inv ?rb2 \<and> rb_size ?rb2 = ?n \<and> rb_contents ?rb2 = (if read_mirror rb = write_mirror rb then []
          else drop (rb_len rb + k - ?n) (rb_contents rb @ take k q))"
        by (rule rb_after_overwrite[OF inv b(4,2) _ kk]) (use over b(3) in simp_all)
      with ne spec total show ?thesis by simp
    next
      case False
      have "rb_inv ?rb2 \<and> rb_contents ?rb2 = rb_contents rb @ take k q \<and> rb_size ?rb2 = ?n"
        by (rule rb_after_write[OF inv b(4,2) _ kk(1)]) (use False b(3) rb_len_le[OF inv] in auto)
      with spec fit[OF False] False show ?thesis by simp
    qed
    with run show "\<exists>rb'. rt_ringbuffer_put_force rb ptr len = Some (word_of_nat k, rb') \<and>
      rb_inv rb' \<and> rb_contents rb' = put_force_contents rb ptr (unat len) \<and> rb_size rb' = ?n" by blast
  next
    case wrap: False
    from block_write(2)[OF inv kk wrap] obtain b1 b where
      b: "memcpy (buffer_ptr rb) (uint (write_index rb)) q 0 ?tail = Some b1"
        "memcpy b1 0 q ?tail (int k - ?tail) = Some b"
        "length b = length (buffer_ptr rb)" "?n \<le> rb_w rb + k"
        "int k - ?tail = int (rb_w rb + k - ?n)"
        "cyc_written ?n (buffer_ptr rb) (rb_w rb) k q b" by blast
    let ?wi = "word_of_nat (rb_w rb + k - ?n) :: 15 word"
    have wi: "word_of_int (int k - ?tail) = ?wi"
      unfolding b(5) by (rule of_int_of_nat_eq)
    let ?rb1 = "rb\<lparr>buffer_ptr := b, write_mirror := NOT (write_mirror rb), write_index := ?wi\<rparr>"
    let ?rb2 = "if ?n - rb_len rb < k
      then ?rb1\<lparr>read_mirror := NOT (read_mirror rb), read_index := ?wi\<rparr> else ?rb1"
    have run: "rt_ringbuffer_put_force rb ptr len = Some (word_of_nat k, ?rb2)"
      unfolding rt_ringbuffer_put_force_def Let_def r ul pq sp
      using wrap b(1,2) wi by simp
    have "rb_inv ?rb2 \<and> rb_contents ?rb2 = put_force_contents rb ptr (unat len) \<and> rb_size ?rb2 = ?n"
    proof (cases "?n - rb_len rb < k")
      case over: True
      have "rb_inv ?rb2 \<and> rb_size ?rb2 = ?n \<and>
          rb_contents ?rb2 = (if NOT (read_mirror rb) = NOT (write_mirror rb) then []
          else drop (rb_len rb + k - ?n) (rb_contents rb @ take k q))"
        by (rule rb_after_overwrite[OF inv b(6,3) _ kk]) (use over b(4) in simp_all)
      with over b(4) spec total show ?thesis by simp
    next
      case False
      have "rb_inv ?rb2 \<and> rb_contents ?rb2 = rb_contents rb @ take k q \<and> rb_size ?rb2 = ?n"
        by (rule rb_after_write[OF inv b(6,3) _ kk(1)]) (use False b(4) rb_len_le[OF inv] in auto)
      with spec fit[OF False] False show ?thesis by simp
    qed
    with run show "\<exists>rb'. rt_ringbuffer_put_force rb ptr len = Some (word_of_nat k, rb') \<and>
      rb_inv rb' \<and> rb_contents rb' = put_force_contents rb ptr (unat len) \<and> rb_size rb' = ?n" by blast
  qed
qed

section \<open>The ring buffer as a bounded queue\<close>

definition rb_enq :: "u8 \<Rightarrow> rt_ringbuffer \<Rightarrow> rt_ringbuffer option" where
  "rb_enq ch rb = (case rt_ringbuffer_putchar rb ch of
     Some (n, rb') \<Rightarrow> if n = 1 then Some rb' else None | None \<Rightarrow> None)"

definition rb_deq :: "rt_ringbuffer \<Rightarrow> (u8 \<times> rt_ringbuffer) option" where
  "rb_deq rb = (case rt_ringbuffer_getchar rb 0 of
     Some (n, c, rb') \<Rightarrow> if n = 1 then Some (c, rb') else None | None \<Rightarrow> None)"

interpretation rbq: bounded_queue rb_inv rb_contents rb_size rb_enq rb_deq
proof unfold_locales
  fix q x assume "rb_inv q" "length (rb_contents q) < rb_size q"
  with ring_putchar_room[of q x] show "\<exists>q'. rb_enq x q = Some q' \<and> rb_inv q' \<and>
      rb_contents q' = rb_contents q @ [x] \<and> rb_size q' = rb_size q"
    by (auto simp: rb_enq_def)
next
  fix q x assume "rb_inv q" "length (rb_contents q) = rb_size q"
  then show "rb_enq x q = None" by (simp add: rb_enq_def ring_putchar_full)
next
  fix q x xs assume "rb_inv q" "rb_contents q = x # xs"
  with ring_getchar_data[of q x xs 0] show "\<exists>q'. rb_deq q = Some (x, q') \<and> rb_inv q' \<and>
      rb_contents q' = xs \<and> rb_size q' = rb_size q"
    by (auto simp: rb_deq_def)
next
  fix q assume "rb_inv q" "rb_contents q = []"
  then show "rb_deq q = None" by (simp add: rb_deq_def ring_getchar_empty)
next
  fix q assume "rb_inv q"
  then show "length (rb_contents q) \<le> rb_size q" by (simp add: rb_len_le)
qed

definition rb_sample :: rt_ringbuffer where
  "rb_sample = \<lparr>buffer_ptr = [0, 0, 0, 0], read_mirror = 0, read_index = 0, write_mirror = 0,
     write_index = 0, buffer_size = 4\<rparr>"

lemma rb_sample_inv: "rb_inv rb_sample" "rb_contents rb_sample = []" "rb_size rb_sample = 4"
  "rb_len rb_sample = 0"
  by (simp_all add: rb_sample_def rb_inv_def rb_contents_def rb_size_def rb_r_def rb_w_def rb_len_def)

definition rb_sample3 :: rt_ringbuffer where
  "rb_sample3 = rb_sample\<lparr>buffer_ptr := [1, 2, 3, 0], write_index := 3\<rparr>"

lemma rb_sample3_inv: "rb_inv rb_sample3" "rb_contents rb_sample3 = [1, 2, 3]" "rb_size rb_sample3 = 4"
  "rb_len rb_sample3 = 3"
  by (simp_all add: rb_sample3_def rb_sample_def rb_inv_def rb_contents_def rb_size_def rb_r_def
      rb_w_def rb_len_def cyc_def upt_rec)

section \<open>Properties\<close>

text \<open>C39: a forced write keeps the invariant and leaves the last \<open>n\<close> bytes of the old contents
  followed by the new block, where \<open>n\<close> is the buffer size; the exception is a write that overflows
  while it wraps and both mirrors agree: it flips both mirror bits, and the buffer reads as empty,
  so the data just written is lost.\<close>

theorem put_force_behaviour:
  assumes "rb_inv rb" and "unat len \<le> length ptr"
  shows "\<exists>rb'. rt_ringbuffer_put_force rb ptr len = Some (word_of_nat (min (unat len) (rb_size rb)), rb') \<and>
    rb_inv rb' \<and> rb_size rb' = rb_size rb \<and>
    rb_contents rb' =
      (let k = min (unat len) (rb_size rb); all = rb_contents rb @ take (unat len) ptr in
       if rb_size rb < rb_len rb + k \<and> rb_size rb \<le> rb_w rb + k \<and> read_mirror rb = write_mirror rb
       then [] else drop (length all - rb_size rb) all)"
proof -
  have "rb_size rb - rb_len rb < k \<longleftrightarrow> rb_size rb < rb_len rb + k" for k
    using rb_len_le[OF assms(1)] by linarith
  with ring_put_force_spec[OF assms] show ?thesis by (auto simp: put_force_contents_def)
qed

theorem put_force_behaviour_witness:
  "\<exists>rb'. rt_ringbuffer_put_force rb_sample3 [7, 8, 9] 3 = Some (3, rb') \<and> rb_contents rb' = []"
  using put_force_behaviour[of rb_sample3 3 "[7, 8, 9]"]
  by (auto simp: rb_sample3_inv) (simp add: rb_sample3_def rb_sample_def rb_w_def)

text \<open>A block put into the buffer comes back out unchanged and in order, after the bytes that
  were there before: putting \<open>ptr\<close> and then getting everything yields the old contents followed by
  the bytes of \<open>ptr\<close> that fitted, and empties the buffer. No access leaves the pool or the caller's
  buffers.\<close>

theorem put_then_get_all:
  assumes "rb_inv rb" and "unat len \<le> length ptr"
    and "length out = rb_len rb + min (unat len) (rb_size rb - rb_len rb)"
    and "length out < 2 ^ 16"
  shows "\<exists>rb1 rb2. rt_ringbuffer_put rb ptr len =
      Some (word_of_nat (min (unat len) (rb_size rb - rb_len rb)), rb1) \<and>
    rt_ringbuffer_get rb1 out (word_of_nat (length out)) =
      Some (word_of_nat (length out), rb_contents rb @ take (length out - rb_len rb) ptr, rb2) \<and>
    rb_inv rb2 \<and> rb_contents rb2 = []"
proof -
  let ?k = "min (unat len) (rb_size rb - rb_len rb)"
  from ring_put_spec[OF assms(1,2)] obtain rb1 where rb1:
    "rt_ringbuffer_put rb ptr len = Some (word_of_nat ?k, rb1)" "rb_inv rb1"
    "rb_contents rb1 = rb_contents rb @ take ?k ptr" by blast
  have len: "rb_len rb1 = length out"
    using arg_cong[OF rb1(3), of length] assms(2,3) by simp
  have n: "unat (word_of_nat (length out) :: u16) = length out"
    by (rule unat_of_nat_small) (use assms(4) in simp)
  from ring_get_spec[OF rb1(2), of "word_of_nat (length out)" out] n len obtain rb2 where
    "rt_ringbuffer_get rb1 out (word_of_nat (length out)) =
      Some (word_of_nat (length out), rb_contents rb1, rb2)"
    "rb_inv rb2" "rb_contents rb2 = []" by auto
  with rb1 assms(3) show ?thesis by auto
qed

theorem put_then_get_all_witness:
  "\<exists>rb1 rb2. rt_ringbuffer_put rb_sample [5, 6] 2 = Some (2, rb1) \<and>
     rt_ringbuffer_get rb1 [0, 0] 2 = Some (2, [5, 6], rb2) \<and> rb_contents rb2 = []"
  using put_then_get_all[of rb_sample 2 "[5, 6]" "[0, 0]"] by (auto simp: rb_sample_inv)

text \<open>the character interface is a FIFO of \<open>rb_size\<close> bytes: any \<open>xs\<close> that fits an empty buffer
  is accepted byte by byte by \<open>rt_ringbuffer_putchar\<close> and read back in the same order by
  \<open>rt_ringbuffer_getchar\<close>, and one byte more is refused.\<close>

theorem ringbuffer_char_fifo:
  assumes "rb_inv rb" and "rb_contents rb = []" and "length xs = rb_size rb"
  shows "\<exists>rb1 rb2. enq_all rb_enq xs rb = Some rb1 \<and> rt_ringbuffer_putchar rb1 y = Some (0, rb1) \<and>
    deq_n rb_deq (length xs) rb1 = Some (xs, rb2) \<and> rb_inv rb2 \<and> rb_contents rb2 = []"
proof -
  from rbq.enq_all_room[of rb xs] assms obtain rb1 where rb1: "enq_all rb_enq xs rb = Some rb1"
    "rb_inv rb1" "rb_contents rb1 = xs" "rb_size rb1 = rb_size rb" by auto
  moreover have "rt_ringbuffer_putchar rb1 y = Some (0, rb1)"
    using rb1 assms(3) length_rb_contents[of rb1] by (intro ring_putchar_full) simp_all
  moreover from rbq.fifo[OF assms(1,2), of xs] rb1(1) assms(3) obtain rb2 where
    "deq_n rb_deq (length xs) rb1 = Some (xs, rb2)" "rb_inv rb2" "rb_contents rb2 = []" by auto
  ultimately show ?thesis by blast
qed

theorem ringbuffer_char_fifo_witness:
  "\<exists>rb1 rb2. enq_all rb_enq [1, 2, 3, 4] rb_sample = Some rb1 \<and>
    rt_ringbuffer_putchar rb1 5 = Some (0, rb1) \<and> deq_n rb_deq 4 rb1 = Some ([1, 2, 3, 4], rb2)"
  using ringbuffer_char_fifo[of rb_sample "[1, 2, 3, 4]" 5]
  by (auto simp: rb_sample_inv eval_nat_numeral)

end
