(* ===== verification/Ringblk.thy ===== *)
theory Ringblk
  imports Prelude
begin

text \<open>
  The block ring buffer of \<open>components/drivers/src/ringblk_buf.c\<close>: blocks of varying size in one circular
  memory, handed to the user by address. The block set is an array of \<open>blk_max_num\<close> entries, here its
  length; the singly linked list \<open>blk_list\<close> links entries of the array and is the list of their indices.
  Addresses and sizes are 32-bit words. \<open>None\<close> is a failed \<open>RT_ASSERT\<close>, an index outside the array, or
  linking an entry that is already linked.
\<close>

section \<open>State\<close>

datatype rt_rbb_status = RT_RBB_BLK_UNUSED | RT_RBB_BLK_INITED | RT_RBB_BLK_PUT | RT_RBB_BLK_GET

record rt_rbb_blk =
  blk_status :: rt_rbb_status
  blk_size :: u32
  blk_buf :: u32

record rt_rbb =
  rbb_buf :: u32
  rbb_buf_size :: u32
  blk_set :: "rt_rbb_blk list"
  blk_list :: "nat list"

record rt_rbb_blk_queue =
  q_blocks :: nat
  q_blk_num :: u32

definition blk_max_num :: "rt_rbb \<Rightarrow> nat" where
  "blk_max_num r = length (blk_set r)"

section \<open>Operations\<close>

definition rt_rbb_init :: "u32 \<Rightarrow> u32 \<Rightarrow> rt_rbb_blk list \<Rightarrow> rt_rbb" where
  "rt_rbb_init buf buf_size block_set =
     \<lparr>rbb_buf = buf, rbb_buf_size = buf_size, blk_set = map (\<lambda>b. b\<lparr>blk_status := RT_RBB_BLK_UNUSED\<rparr>) block_set,
      blk_list = []\<rparr>"

definition find_empty_blk_in_set :: "rt_rbb \<Rightarrow> nat option" where
  "find_empty_blk_in_set r = find (\<lambda>i. blk_status (blk_set r ! i) = RT_RBB_BLK_UNUSED) [0..<blk_max_num r]"

definition append_blk :: "nat \<Rightarrow> u32 \<Rightarrow> u32 \<Rightarrow> rt_rbb \<Rightarrow> (nat option \<times> rt_rbb) option" where
  "append_blk i buf sz r =
     (if i \<in> set (blk_list r) then None
      else Some (Some i, r\<lparr>blk_list := blk_list r @ [i],
        blk_set := (blk_set r)[i := \<lparr>blk_status = RT_RBB_BLK_INITED, blk_size = sz, blk_buf = buf\<rparr>]\<rparr>))"

definition rt_rbb_blk_alloc :: "u32 \<Rightarrow> rt_rbb \<Rightarrow> (nat option \<times> rt_rbb) option" where
  "rt_rbb_blk_alloc sz r = do {
     rt_assert (sz < 2 ^ 24);
     case find_empty_blk_in_set r of None \<Rightarrow> Some (None, r)
     | Some new \<Rightarrow>
       if length (blk_list r) < blk_max_num r
       then if length (blk_list r) > 0
         then (let head = blk_set r ! hd (blk_list r); tail = blk_set r ! last (blk_list r) in
           if blk_buf head \<le> blk_buf tail
           then (let empty1 = (rbb_buf r + rbb_buf_size r) - (blk_buf tail + blk_size tail);
                     empty2 = blk_buf head - rbb_buf r in
                 if empty1 \<ge> sz then append_blk new (blk_buf tail + blk_size tail) sz r
                 else if empty2 \<ge> sz then append_blk new (rbb_buf r) sz r
                 else Some (None, r))
           else (let empty1 = blk_buf head - (blk_buf tail + blk_size tail) in
                 if empty1 \<ge> sz then append_blk new (blk_buf tail + blk_size tail) sz r
                 else Some (None, r)))
         else append_blk new (rbb_buf r) sz r
       else Some (None, r) }"

definition set_blk_status :: "nat \<Rightarrow> rt_rbb_status \<Rightarrow> rt_rbb \<Rightarrow> rt_rbb" where
  "set_blk_status i x r = r\<lparr>blk_set := (blk_set r)[i := (blk_set r ! i)\<lparr>blk_status := x\<rparr>]\<rparr>"

definition rt_rbb_blk_put :: "nat \<Rightarrow> rt_rbb \<Rightarrow> rt_rbb option" where
  "rt_rbb_blk_put i r = do {
     rt_assert (i < blk_max_num r);
     rt_assert (blk_status (blk_set r ! i) = RT_RBB_BLK_INITED);
     Some (set_blk_status i RT_RBB_BLK_PUT r) }"

definition rt_rbb_blk_get :: "rt_rbb \<Rightarrow> nat option \<times> rt_rbb" where
  "rt_rbb_blk_get r =
     (case find (\<lambda>i. blk_status (blk_set r ! i) = RT_RBB_BLK_PUT) (blk_list r) of
        None \<Rightarrow> (None, r) | Some i \<Rightarrow> (Some i, set_blk_status i RT_RBB_BLK_GET r))"

definition rt_rbb_blk_size :: "nat \<Rightarrow> rt_rbb \<Rightarrow> u32 option" where
  "rt_rbb_blk_size i r = do { rt_assert (i < blk_max_num r); Some (blk_size (blk_set r ! i)) }"

definition rt_rbb_blk_buf :: "nat \<Rightarrow> rt_rbb \<Rightarrow> u32 option" where
  "rt_rbb_blk_buf i r = do { rt_assert (i < blk_max_num r); Some (blk_buf (blk_set r ! i)) }"

text \<open>\<open>rt_slist_remove\<close> does nothing when the node is not in the list.\<close>

definition rt_rbb_blk_free :: "nat \<Rightarrow> rt_rbb \<Rightarrow> rt_rbb option" where
  "rt_rbb_blk_free i r = do {
     rt_assert (i < blk_max_num r);
     rt_assert (blk_status (blk_set r ! i) \<noteq> RT_RBB_BLK_UNUSED);
     Some (set_blk_status i RT_RBB_BLK_UNUSED (r\<lparr>blk_list := remove1 i (blk_list r)\<rparr>)) }"

section \<open>Block queues\<close>

text \<open>The loop of \<open>rt_rbb_blk_queue_get\<close> over the nodes of the list; removing a node keeps its own link.\<close>

definition queue_take :: "nat \<Rightarrow> rt_rbb \<Rightarrow> rt_rbb" where
  "queue_take i r = set_blk_status i RT_RBB_BLK_GET (r\<lparr>blk_list := remove1 i (blk_list r)\<rparr>)"

fun queue_scan :: "nat list \<Rightarrow> nat option \<Rightarrow> u32 \<Rightarrow> u32 \<Rightarrow> rt_rbb_blk_queue \<Rightarrow> rt_rbb \<Rightarrow> u32 \<times> rt_rbb_blk_queue \<times> rt_rbb" where
  "queue_scan [] last_block queue_data_len data_total_size q r = (data_total_size, q, r)"
| "queue_scan (i # nodes) None queue_data_len data_total_size q r =
     (let b = blk_set r ! i in
      if blk_status b = RT_RBB_BLK_PUT
      then queue_scan nodes (Some i) queue_data_len (data_total_size + blk_size b)
             (q\<lparr>q_blocks := i, q_blk_num := 0 + 1\<rparr>) (queue_take i r)
      else queue_scan nodes None queue_data_len data_total_size q r)"
| "queue_scan (i # nodes) (Some l) queue_data_len data_total_size q r =
     (let b = blk_set r ! i in
      if blk_status b \<noteq> RT_RBB_BLK_PUT \<or> blk_buf (blk_set r ! l) > blk_buf b \<or> data_total_size + blk_size b > queue_data_len
      then (data_total_size, q, r)
      else queue_scan nodes (Some i) queue_data_len (data_total_size + blk_size b)
             (q\<lparr>q_blk_num := q_blk_num q + 1\<rparr>) (queue_take i r))"

definition rt_rbb_blk_queue_get :: "u32 \<Rightarrow> rt_rbb_blk_queue \<Rightarrow> rt_rbb \<Rightarrow> u32 \<times> rt_rbb_blk_queue \<times> rt_rbb" where
  "rt_rbb_blk_queue_get queue_data_len q r = queue_scan (blk_list r) None queue_data_len 0 q r"

text \<open>The queue is used as an array that begins at its first block.\<close>

definition rt_rbb_blk_queue_len :: "rt_rbb_blk_queue \<Rightarrow> rt_rbb \<Rightarrow> u32 option" where
  "rt_rbb_blk_queue_len q r =
     (if q_blocks q + unat (q_blk_num q) \<le> blk_max_num r
      then Some (fold (\<lambda>i n. n + blk_size (blk_set r ! (q_blocks q + i))) [0..<unat (q_blk_num q)] 0) else None)"

definition rt_rbb_blk_queue_buf :: "rt_rbb_blk_queue \<Rightarrow> rt_rbb \<Rightarrow> u32 option" where
  "rt_rbb_blk_queue_buf q r = rt_rbb_blk_buf (q_blocks q) r"

definition rt_rbb_blk_queue_free :: "rt_rbb_blk_queue \<Rightarrow> rt_rbb \<Rightarrow> rt_rbb option" where
  "rt_rbb_blk_queue_free q r =
     fold (\<lambda>i r. Option.bind r (rt_rbb_blk_free (q_blocks q + i))) [0..<unat (q_blk_num q)] (Some r)"

fun next_len_scan :: "nat list \<Rightarrow> nat option \<Rightarrow> u32 \<Rightarrow> rt_rbb \<Rightarrow> u32" where
  "next_len_scan [] last_block data_len r = data_len"
| "next_len_scan (i # nodes) None data_len r =
     (if blk_status (blk_set r ! i) = RT_RBB_BLK_PUT
      then next_len_scan nodes (Some i) (data_len + blk_size (blk_set r ! i)) r
      else next_len_scan nodes None data_len r)"
| "next_len_scan (i # nodes) (Some l) data_len r =
     (if blk_status (blk_set r ! i) \<noteq> RT_RBB_BLK_PUT \<or> blk_buf (blk_set r ! l) > blk_buf (blk_set r ! i)
      then data_len
      else next_len_scan nodes (Some i) (data_len + blk_size (blk_set r ! i)) r)"

definition rt_rbb_next_blk_queue_len :: "rt_rbb \<Rightarrow> u32" where
  "rt_rbb_next_blk_queue_len r = next_len_scan (blk_list r) None 0 r"

definition rt_rbb_get_buf_size :: "rt_rbb \<Rightarrow> u32" where
  "rt_rbb_get_buf_size r = rbb_buf_size r"

section \<open>Blocks in use do not overlap\<close>

definition blk_from :: "rt_rbb \<Rightarrow> nat \<Rightarrow> nat" where
  "blk_from r i = unat (blk_buf (blk_set r ! i))"

definition blk_to :: "rt_rbb \<Rightarrow> nat \<Rightarrow> nat" where
  "blk_to r i = blk_from r i + unat (blk_size (blk_set r ! i))"

definition before :: "rt_rbb \<Rightarrow> nat \<Rightarrow> nat \<Rightarrow> bool" where
  "before r i j \<longleftrightarrow> blk_to r i \<le> blk_from r j"

definition in_use :: "rt_rbb \<Rightarrow> nat set" where
  "in_use r = {i. i < blk_max_num r \<and> blk_status (blk_set r ! i) \<noteq> RT_RBB_BLK_UNUSED}"

text \<open>The list is a run of ascending blocks, followed by a second run below all of the first when the
  buffer has wrapped.\<close>

definition two_runs :: "rt_rbb \<Rightarrow> nat list \<Rightarrow> bool" where
  "two_runs r xs \<longleftrightarrow> (\<exists>A B. xs = A @ B \<and> (A = [] \<longrightarrow> B = []) \<and> sorted_wrt (before r) A \<and> sorted_wrt (before r) B \<and>
     (\<forall>a \<in> set A. \<forall>b \<in> set B. before r b a))"

definition rbb_inv :: "rt_rbb \<Rightarrow> bool" where
  "rbb_inv r \<longleftrightarrow> unat (rbb_buf r) + unat (rbb_buf_size r) < 2 ^ 32 \<and> distinct (blk_list r) \<and>
     set (blk_list r) = in_use r \<and>
     (\<forall>i \<in> in_use r. 0 < blk_size (blk_set r ! i) \<and> unat (rbb_buf r) \<le> blk_from r i \<and>
        blk_to r i \<le> unat (rbb_buf r) + unat (rbb_buf_size r)) \<and>
     two_runs r (blk_list r)"

lemma two_runs_disjoint:
  assumes "two_runs r xs" "i \<in> set xs" "j \<in> set xs" "i \<noteq> j"
  shows "before r i j \<or> before r j i"
proof -
  have s: "before r i j \<or> before r j i" if "sorted_wrt (before r) ys" "i \<in> set ys" "j \<in> set ys" for ys
  proof -
    from that(2,3) obtain m n where "m < length ys" "ys ! m = i" "n < length ys" "ys ! n = j" by (meson in_set_conv_nth)
    then show ?thesis using that(1) assms(4) by (metis linorder_neqE_nat sorted_wrt_nth_less)
  qed
  then show ?thesis using assms unfolding two_runs_def by (metis Un_iff set_append)
qed

lemma sorted_wrt_remove1: "sorted_wrt P xs \<Longrightarrow> sorted_wrt P (remove1 x xs)"
  by (induction xs) (auto dest: in_set_remove1[THEN iffD1, rotated] simp: notin_set_remove1 dest!: set_remove1_subset[THEN subsetD])

lemma two_runs_remove1:
  assumes "two_runs r xs"
  shows "two_runs r (remove1 x xs)"
proof -
  from assms obtain A B where ab: "xs = A @ B" "A = [] \<longrightarrow> B = []" "sorted_wrt (before r) A" "sorted_wrt (before r) B"
    "\<forall>a \<in> set A. \<forall>b \<in> set B. before r b a" by (auto simp: two_runs_def)
  define A' B' where "A' = (if x \<in> set A then remove1 x A else A)" and "B' = (if x \<in> set A then B else remove1 x B)"
  have e: "remove1 x xs = A' @ B'" by (simp add: ab(1) A'_def B'_def remove1_append)
  have s: "sorted_wrt (before r) A'" "sorted_wrt (before r) B'" "set A' \<subseteq> set A" "set B' \<subseteq> set B"
    using ab(3,4) sorted_wrt_remove1[of "before r"] set_remove1_subset[of x A] set_remove1_subset[of x B] by (auto simp: A'_def B'_def)
  show ?thesis
  proof (cases "A' = []")
    case True
    then show ?thesis unfolding two_runs_def e using s(2) by (intro exI[of _ B'] exI[of _ "[]"]) simp
  next
    case False
    then show ?thesis unfolding two_runs_def e using s ab(5) by (intro exI[of _ A'] exI[of _ B']) auto
  qed
qed

lemma two_runs_cong:
  assumes "\<And>i. i \<in> set xs \<Longrightarrow> blk_from r' i = blk_from r i \<and> blk_to r' i = blk_to r i"
  shows "two_runs r' xs = two_runs r xs"
proof -
  have s: "sorted_wrt (before r') ys = sorted_wrt (before r) ys" if "set ys \<subseteq> set xs" for ys
    by (intro iffI; erule sorted_wrt_mono_rel[rotated]; use that assms in \<open>auto simp: before_def subset_iff\<close>)
  have "two_runs r' xs \<longleftrightarrow> (\<exists>A B. xs = A @ B \<and> (A = [] \<longrightarrow> B = []) \<and> sorted_wrt (before r) A \<and> sorted_wrt (before r) B \<and>
     (\<forall>a \<in> set A. \<forall>b \<in> set B. before r b a))"
    unfolding two_runs_def
  proof (intro iff_exI)
    fix A B
    show "(xs = A @ B \<and> (A = [] \<longrightarrow> B = []) \<and> sorted_wrt (before r') A \<and> sorted_wrt (before r') B \<and>
       (\<forall>a \<in> set A. \<forall>b \<in> set B. before r' b a)) \<longleftrightarrow>
      (xs = A @ B \<and> (A = [] \<longrightarrow> B = []) \<and> sorted_wrt (before r) A \<and> sorted_wrt (before r) B \<and>
       (\<forall>a \<in> set A. \<forall>b \<in> set B. before r b a))"
    proof (cases "xs = A @ B")
      case True
      then have sub: "set A \<subseteq> set xs" "set B \<subseteq> set xs" by auto
      have "before r' b a = before r b a" if "a \<in> set A" "b \<in> set B" for a b
      proof -
        have "a \<in> set xs" "b \<in> set xs" using that sub by auto
        then show ?thesis using assms[of a] assms[of b] by (simp add: before_def)
      qed
      then show ?thesis using s[OF sub(1)] s[OF sub(2)] by auto
    qed simp
  qed
  then show ?thesis by (simp add: two_runs_def)
qed

lemma runs_pos:
  assumes "sorted_wrt (before r) xs" "xs \<noteq> []" "x \<in> set xs"
  shows "blk_to r x \<le> blk_to r (last xs)" "blk_from r (hd xs) \<le> blk_from r x"
proof -
  have le: "blk_from r i \<le> blk_to r i" for i by (simp add: blk_to_def)
  from assms(2) obtain ys l where xs: "xs = ys @ [l]" by (cases xs rule: rev_cases) auto
  then show "blk_to r x \<le> blk_to r (last xs)"
    using assms(1,3) le[of l] by (auto simp: sorted_wrt_append before_def intro: order_trans)
  show "blk_from r (hd xs) \<le> blk_from r x"
    using assms le[of "hd xs"] by (cases xs) (auto simp: before_def intro: order_trans)
qed

text \<open>The effect of an allocation at an address.\<close>

lemma append_blk_inv:
  assumes inv: "rbb_inv r" and new: "i < blk_max_num r" "i \<notin> in_use r" "0 < sz"
    and reg: "unat (rbb_buf r) \<le> unat p" "unat p + unat sz \<le> unat (rbb_buf r) + unat (rbb_buf_size r)"
    and split: "blk_list r = A @ B" "A = [] \<longrightarrow> B = []" "sorted_wrt (before r) A" "sorted_wrt (before r) B"
      "\<forall>a \<in> set A. \<forall>b \<in> set B. before r b a"
    and pos: "B = [] \<and> (\<forall>a \<in> set A. blk_to r a \<le> unat p) \<or>
      A \<noteq> [] \<and> (\<forall>b \<in> set B. blk_to r b \<le> unat p) \<and> (\<forall>a \<in> set A. unat p + unat sz \<le> blk_from r a)"
  shows "\<exists>r'. append_blk i p sz r = Some (Some i, r') \<and> rbb_inv r' \<and> blk_list r' = blk_list r @ [i] \<and>
    blk_from r' i = unat p \<and> blk_to r' i = unat p + unat sz \<and> (\<forall>j. j \<noteq> i \<longrightarrow> blk_set r' ! j = blk_set r ! j) \<and>
    in_use r' = insert i (in_use r) \<and> blk_max_num r' = blk_max_num r \<and> rbb_buf r' = rbb_buf r \<and> rbb_buf_size r' = rbb_buf_size r"
proof -
  define r' where "r' = r\<lparr>blk_list := blk_list r @ [i],
        blk_set := (blk_set r)[i := \<lparr>blk_status = RT_RBB_BLK_INITED, blk_size = sz, blk_buf = p\<rparr>]\<rparr>"
  have l: "set (blk_list r) = in_use r" "distinct (blk_list r)" using inv by (simp_all add: rbb_inv_def)
  have run: "append_blk i p sz r = Some (Some i, r')" using l(1) new(2) by (simp add: append_blk_def r'_def)
  have at: "blk_from r' i = unat p" "blk_to r' i = unat p + unat sz"
    using new(1) by (simp_all add: r'_def blk_from_def blk_to_def blk_max_num_def)
  have oth: "blk_set r' ! j = blk_set r ! j" if "j \<noteq> i" for j using that by (simp add: r'_def)
  then have oth2: "blk_from r' j = blk_from r j" "blk_to r' j = blk_to r j" if "j \<noteq> i" for j
    using that by (simp_all add: blk_from_def blk_to_def)
  have n: "blk_max_num r' = blk_max_num r" "rbb_buf r' = rbb_buf r" "rbb_buf_size r' = rbb_buf_size r"
    by (simp_all add: r'_def blk_max_num_def)
  have use: "in_use r' = insert i (in_use r)"
    using new(1) oth by (auto simp: in_use_def n r'_def blk_max_num_def nth_list_update)
  have ni: "i \<notin> set A" "i \<notin> set B" using l(1) new(2) split(1) by auto
  have keep: "sorted_wrt (before r') ys = sorted_wrt (before r) ys" if "i \<notin> set ys" for ys
  proof -
    have "before r' a b = before r a b" if "a \<in> set ys" "b \<in> set ys" for a b
    proof -
      have "a \<noteq> i" "b \<noteq> i" using that \<open>i \<notin> set ys\<close> by auto
      then show ?thesis by (simp add: before_def oth2)
    qed
    note eq = this
    show ?thesis by (intro iffI; erule sorted_wrt_mono_rel[rotated]) (simp_all add: eq)
  qed
  have cross: "\<forall>a \<in> set A. \<forall>b \<in> set B. before r' b a" using split(5) ni oth2 unfolding before_def by metis
  have "two_runs r' (blk_list r @ [i])"
  proof -
    from pos show ?thesis
    proof
      assume h: "B = [] \<and> (\<forall>a \<in> set A. blk_to r a \<le> unat p)"
      then have "sorted_wrt (before r') (A @ [i])"
        using split(3) keep[OF ni(1)] ni oth2(2) at by (auto simp: sorted_wrt_append before_def) (metis ni(1))
      then show ?thesis unfolding two_runs_def split(1) using h by (intro exI[of _ "A @ [i]"] exI[of _ "[]"]) simp
    next
      assume h: "A \<noteq> [] \<and> (\<forall>b \<in> set B. blk_to r b \<le> unat p) \<and> (\<forall>a \<in> set A. unat p + unat sz \<le> blk_from r a)"
      have "\<forall>b \<in> set B. before r' b i" "\<forall>a \<in> set A. before r' i a" using h ni oth2 at unfolding before_def by metis+
      then have "sorted_wrt (before r') (B @ [i])" "\<forall>a \<in> set A. \<forall>b \<in> set (B @ [i]). before r' b a"
        using split(4) keep[OF ni(2)] cross by (auto simp: sorted_wrt_append)
      then show ?thesis unfolding two_runs_def split(1) using h split(3) keep[OF ni(1)]
        by (intro exI[of _ A] exI[of _ "B @ [i]"]) simp
    qed
  qed
  moreover have "0 < blk_size (blk_set r' ! j) \<and> unat (rbb_buf r') \<le> blk_from r' j \<and>
      blk_to r' j \<le> unat (rbb_buf r') + unat (rbb_buf_size r')" if "j \<in> in_use r'" for j
  proof (cases "j = i")
    case True
    then show ?thesis using at reg new(1,3) n by (simp add: r'_def blk_max_num_def)
  next
    case False
    then show ?thesis using that use inv oth[OF False] oth2[OF False] n by (auto simp: rbb_inv_def)
  qed
  ultimately have "rbb_inv r'"
    using inv l new(2) use n unfolding rbb_inv_def by (simp add: r'_def)
  then show ?thesis using run at oth use n by (auto simp: r'_def)
qed

lemma find_empty:
  "find_empty_blk_in_set r = Some i \<Longrightarrow> i < blk_max_num r \<and> i \<notin> in_use r"
  "find_empty_blk_in_set r = None \<Longrightarrow> {..<blk_max_num r} \<subseteq> in_use r"
  by (auto simp: find_empty_blk_in_set_def in_use_def find_Some_iff find_None_iff)

lemma in_use_less: "rbb_inv r \<Longrightarrow> i < blk_max_num r \<Longrightarrow> i \<notin> in_use r \<Longrightarrow> length (blk_list r) < blk_max_num r"
proof -
  assume a: "rbb_inv r" "i < blk_max_num r" "i \<notin> in_use r"
  then have "length (blk_list r) = card (in_use r)" by (metis rbb_inv_def distinct_card)
  also have "in_use r \<subset> {..<blk_max_num r}" using a(2,3) by (auto simp: in_use_def)
  then have "card (in_use r) < card {..<blk_max_num r}" by (rule psubset_card_mono[rotated]) simp
  finally show "length (blk_list r) < blk_max_num r" by simp
qed

definition alloc_result :: "rt_rbb \<Rightarrow> u32 \<Rightarrow> nat option \<times> rt_rbb \<Rightarrow> bool" where
  "alloc_result r sz x \<longleftrightarrow> (case x of (None, r') \<Rightarrow> r' = r
     | (Some i, r') \<Rightarrow> i < blk_max_num r \<and> i \<notin> in_use r \<and> rbb_inv r' \<and> blk_list r' = blk_list r @ [i] \<and>
         in_use r' = insert i (in_use r) \<and> blk_to r' i = blk_from r' i + unat sz \<and>
         (\<forall>j. j \<noteq> i \<longrightarrow> blk_set r' ! j = blk_set r ! j) \<and>
         blk_max_num r' = blk_max_num r \<and> rbb_buf r' = rbb_buf r \<and> rbb_buf_size r' = rbb_buf_size r)"

lemma append_result:
  assumes "\<exists>r'. append_blk i p sz r = Some (Some i, r') \<and> rbb_inv r' \<and> blk_list r' = blk_list r @ [i] \<and>
    blk_from r' i = unat p \<and> blk_to r' i = unat p + unat sz \<and> (\<forall>j. j \<noteq> i \<longrightarrow> blk_set r' ! j = blk_set r ! j) \<and>
    in_use r' = insert i (in_use r) \<and> blk_max_num r' = blk_max_num r \<and> rbb_buf r' = rbb_buf r \<and> rbb_buf_size r' = rbb_buf_size r"
    "i < blk_max_num r" "i \<notin> in_use r"
  shows "\<exists>x. append_blk i p sz r = Some x \<and> alloc_result r sz x"
  using assms by (auto simp: alloc_result_def)

lemma blk_alloc_ok:
  assumes inv: "rbb_inv r" and sz: "0 < sz" "sz < 2 ^ 24" "sz \<le> rbb_buf_size r"
  shows "\<exists>x. rt_rbb_blk_alloc sz r = Some x \<and> alloc_result r sz x"
proof (cases "find_empty_blk_in_set r")
  case None
  then show ?thesis using sz by (simp add: rt_rbb_blk_alloc_def alloc_result_def)
next
  case (Some i)
  note new = find_empty(1)[OF Some]
  have less: "length (blk_list r) < blk_max_num r" using in_use_less[OF inv] new by blast
  let ?B = "unat (rbb_buf r)" and ?S = "unat (rbb_buf_size r)"
  have bs: "?B + ?S < 2 ^ 32" "set (blk_list r) = in_use r" using inv by (simp_all add: rbb_inv_def)
  have rg: "0 < blk_size (blk_set r ! j)" "?B \<le> blk_from r j" "blk_to r j \<le> ?B + ?S" if "j \<in> set (blk_list r)" for j
    using inv that by (auto simp: rbb_inv_def)
  have szn: "0 < unat sz" "unat sz \<le> ?S" using sz by (simp_all add: unat_gt_0 word_le_nat_alt)
  from inv obtain A B where ab: "blk_list r = A @ B" "A = [] \<longrightarrow> B = []" "sorted_wrt (before r) A" "sorted_wrt (before r) B"
    "\<forall>a \<in> set A. \<forall>b \<in> set B. before r b a" by (auto simp: rbb_inv_def two_runs_def)
  show ?thesis
  proof (cases "blk_list r = []")
    case True
    have "\<exists>x. append_blk i (rbb_buf r) sz r = Some x \<and> alloc_result r sz x"
      by (rule append_result[OF append_blk_inv[OF inv _ _ sz(1) _ _ ab]]) (use new szn True ab in auto)
    then show ?thesis using True sz Some less by (simp add: rt_rbb_blk_alloc_def)
  next
    case False
    define h where "h = hd (blk_list r)"
    define t where "t = last (blk_list r)"
    have ht: "h \<in> set (blk_list r)" "t \<in> set (blk_list r)" using False by (simp_all add: h_def t_def)
    have An: "A \<noteq> []" using False ab(1,2) by auto
    have hA: "h = hd A" using ab(1) An by (simp add: h_def)
    have fromA: "blk_from r h \<le> blk_from r a" if "a \<in> set A" for a using runs_pos(2)[OF ab(3) An that] hA by simp
    define p where "p = blk_buf (blk_set r ! t) + blk_size (blk_set r ! t)"
    have p: "unat p = blk_to r t" using rg(3)[OF ht(2)] bs(1) unfolding p_def
      by (simp add: blk_to_def blk_from_def unat_word_ariths)
    have en: "unat (rbb_buf r + rbb_buf_size r) = ?B + ?S" using bs(1) by (simp add: unat_word_ariths)
    have le: "?B \<le> blk_from r t" "blk_from r t < blk_to r t" "blk_to r t \<le> ?B + ?S"
      using rg[OF ht(2)] by (simp_all add: blk_to_def unat_gt_0 word_gt_0)
    show ?thesis
    proof (cases "B = []")
      case True
      have tA: "t = last A" using ab(1) True by (simp add: t_def)
      have toA: "blk_to r a \<le> unat p" if "a \<in> set A" for a using runs_pos(1)[OF ab(3) An that] tA p by simp
      have c: "blk_buf (blk_set r ! h) \<le> blk_buf (blk_set r ! t)"
        using fromA[of t] tA An by (simp add: word_le_nat_alt blk_from_def)
      define e1 where "e1 = (rbb_buf r + rbb_buf_size r) - p"
      define e2 where "e2 = blk_buf (blk_set r ! h) - rbb_buf r"
      have run: "rt_rbb_blk_alloc sz r = (if e1 \<ge> sz then append_blk i p sz r
          else if e2 \<ge> sz then append_blk i (rbb_buf r) sz r else Some (None, r))"
        using sz Some less False c by (simp add: rt_rbb_blk_alloc_def Let_def h_def t_def e1_def e2_def p_def)
      have e: "unat e1 = ?B + ?S - unat p" "unat e2 = blk_from r h - ?B"
        using le p en rg(2)[OF ht(1)] unfolding e1_def e2_def by (simp_all add: unat_sub_if' word_le_nat_alt blk_from_def)
      have one: "\<exists>x. append_blk i p sz r = Some x \<and> alloc_result r sz x" if "e1 \<ge> sz"
        by (rule append_result[OF append_blk_inv[OF inv _ _ sz(1) _ _ ab]])
          (use new that True toA p le e(1) in \<open>auto simp: word_le_nat_alt\<close>)
      have two: "\<exists>x. append_blk i (rbb_buf r) sz r = Some x \<and> alloc_result r sz x" if "e2 \<ge> sz"
      proof (rule append_result[OF append_blk_inv[OF inv _ _ sz(1) _ _ ab]])
        show "B = [] \<and> (\<forall>a \<in> set A. blk_to r a \<le> ?B) \<or> A \<noteq> [] \<and> (\<forall>b \<in> set B. blk_to r b \<le> ?B) \<and>
            (\<forall>a \<in> set A. ?B + unat sz \<le> blk_from r a)"
          using An True fromA that e(2) rg(2)[OF ht(1)] by (fastforce simp: word_le_nat_alt)
      qed (use new szn in auto)
      show ?thesis unfolding run using one two by (auto simp: alloc_result_def)
    next
      case nB: False
      have tB: "t = last B" using ab(1) nB by (simp add: t_def)
      have toB: "blk_to r b \<le> unat p" if "b \<in> set B" for b using runs_pos(1)[OF ab(4) nB that] tB p by simp
      have th: "blk_to r t \<le> blk_from r h" using ab(5) tB hA nB An by (simp add: before_def)
      then have c: "\<not> blk_buf (blk_set r ! h) \<le> blk_buf (blk_set r ! t)"
        using le(2) by (simp add: word_le_nat_alt blk_from_def)
      define e1 where "e1 = blk_buf (blk_set r ! h) - p"
      have run: "rt_rbb_blk_alloc sz r = (if e1 \<ge> sz then append_blk i p sz r else Some (None, r))"
        using sz Some less False c by (simp add: rt_rbb_blk_alloc_def Let_def h_def t_def e1_def p_def)
      have e: "unat e1 = blk_from r h - unat p"
        using th p unfolding e1_def by (simp add: unat_sub_if' word_le_nat_alt blk_from_def)
      have hle: "blk_from r h \<le> ?B + ?S" using rg(3)[OF ht(1)] by (simp add: blk_to_def)
      have one: "\<exists>x. append_blk i p sz r = Some x \<and> alloc_result r sz x" if "e1 \<ge> sz"
      proof (rule append_result[OF append_blk_inv[OF inv _ _ sz(1) _ _ ab]])
        have q: "unat p + unat sz \<le> blk_from r h" using that e th p by (simp add: word_le_nat_alt)
        show "?B \<le> unat p" using le p by simp
        show "unat p + unat sz \<le> ?B + ?S" using q hle by simp
        show "B = [] \<and> (\<forall>a \<in> set A. blk_to r a \<le> unat p) \<or> A \<noteq> [] \<and> (\<forall>b \<in> set B. blk_to r b \<le> unat p) \<and>
            (\<forall>a \<in> set A. unat p + unat sz \<le> blk_from r a)" using An toB fromA q by fastforce
      qed (use new in auto)
      show ?thesis unfolding run using one by (auto simp: alloc_result_def)
    qed
  qed
qed

text \<open>A change of status among those in use.\<close>

lemma status_inv:
  assumes "rbb_inv r" "i \<in> in_use r" "x \<noteq> RT_RBB_BLK_UNUSED"
  shows "rbb_inv (set_blk_status i x r)" "in_use (set_blk_status i x r) = in_use r"
    "blk_from (set_blk_status i x r) j = blk_from r j" "blk_to (set_blk_status i x r) j = blk_to r j"
proof -
  let ?r = "set_blk_status i x r"
  have i: "i < length (blk_set r)" using assms(2) by (simp add: in_use_def blk_max_num_def)
  then have b: "blk_buf (blk_set ?r ! j) = blk_buf (blk_set r ! j)" "blk_size (blk_set ?r ! j) = blk_size (blk_set r ! j)" for j
    by (cases "j = i"; simp add: set_blk_status_def)+
  then show pos: "blk_from ?r j = blk_from r j" "blk_to ?r j = blk_to r j" for j by (simp_all add: blk_from_def blk_to_def)
  show use: "in_use ?r = in_use r"
    using i assms(2,3) by (auto simp: in_use_def set_blk_status_def blk_max_num_def nth_list_update split: if_splits)
  have "two_runs ?r (blk_list r) = two_runs r (blk_list r)" by (rule two_runs_cong) (simp add: pos)
  moreover have "rbb_buf ?r = rbb_buf r" "rbb_buf_size ?r = rbb_buf_size r" "blk_list ?r = blk_list r"
    by (simp_all add: set_blk_status_def)
  ultimately show "rbb_inv ?r" using assms(1) by (simp add: rbb_inv_def use pos b)
qed

lemma blk_put_ok:
  assumes "rbb_inv r" "rt_rbb_blk_put i r = Some r'"
  shows "rbb_inv r'" "in_use r' = in_use r" "blk_from r' j = blk_from r j" "blk_to r' j = blk_to r j"
proof -
  from assms(2) have "i \<in> in_use r" "r' = set_blk_status i RT_RBB_BLK_PUT r"
    by (auto simp: rt_rbb_blk_put_def in_use_def bind_eq_Some_conv split: if_splits)
  then show "rbb_inv r'" "in_use r' = in_use r" "blk_from r' j = blk_from r j" "blk_to r' j = blk_to r j"
    using status_inv[OF assms(1)] by simp_all
qed

lemma blk_get_ok:
  assumes "rbb_inv r" "rt_rbb_blk_get r = (x, r')"
  shows "rbb_inv r'" "in_use r' = in_use r" "blk_from r' j = blk_from r j" "blk_to r' j = blk_to r j"
proof -
  have "rbb_inv r' \<and> in_use r' = in_use r \<and> blk_from r' j = blk_from r j \<and> blk_to r' j = blk_to r j"
  proof (cases "find (\<lambda>i. blk_status (blk_set r ! i) = RT_RBB_BLK_PUT) (blk_list r)")
    case (Some i)
    then have "i \<in> in_use r" using assms(1) by (auto simp: rbb_inv_def find_Some_iff)
    moreover have "r' = set_blk_status i RT_RBB_BLK_GET r" using Some assms(2) by (auto simp: rt_rbb_blk_get_def)
    ultimately show ?thesis using status_inv[OF assms(1)] by simp
  qed (use assms in \<open>simp add: rt_rbb_blk_get_def\<close>)
  then show "rbb_inv r'" "in_use r' = in_use r" "blk_from r' j = blk_from r j" "blk_to r' j = blk_to r j" by auto
qed

lemma blk_free_ok:
  assumes "rbb_inv r" "rt_rbb_blk_free i r = Some r'"
  shows "rbb_inv r'" "in_use r' = in_use r - {i}" "blk_from r' j = blk_from r j" "blk_to r' j = blk_to r j"
proof -
  from assms(2) have i: "i < length (blk_set r)" and r': "r' = set_blk_status i RT_RBB_BLK_UNUSED (r\<lparr>blk_list := remove1 i (blk_list r)\<rparr>)"
    by (auto simp: rt_rbb_blk_free_def blk_max_num_def bind_eq_Some_conv split: if_splits)
  have b: "blk_buf (blk_set r' ! j) = blk_buf (blk_set r ! j)" "blk_size (blk_set r' ! j) = blk_size (blk_set r ! j)" for j
    using i by (cases "j = i"; simp add: r' set_blk_status_def)+
  then show pos: "blk_from r' j = blk_from r j" "blk_to r' j = blk_to r j" for j by (simp_all add: blk_from_def blk_to_def)
  show use: "in_use r' = in_use r - {i}"
    using i by (auto simp: in_use_def r' set_blk_status_def blk_max_num_def nth_list_update split: if_splits)
  have "two_runs r' (remove1 i (blk_list r))"
    using two_runs_cong[of "remove1 i (blk_list r)" r' r] two_runs_remove1[of r "blk_list r" i] assms(1) pos
    by (simp add: rbb_inv_def)
  moreover have "rbb_buf r' = rbb_buf r" "rbb_buf_size r' = rbb_buf_size r" "blk_list r' = remove1 i (blk_list r)"
    by (simp_all add: r' set_blk_status_def)
  ultimately show "rbb_inv r'" using assms(1) by (simp add: rbb_inv_def use pos b set_remove1_eq)
qed

lemma init_inv: "unat buf + unat n < 2 ^ 32 \<Longrightarrow> rbb_inv (rt_rbb_init buf n bs)"
  by (auto simp: rbb_inv_def rt_rbb_init_def in_use_def two_runs_def blk_max_num_def)

section \<open>Histories\<close>

text \<open>Histories of the operations on single blocks, with sizes that are not 0 and not above the buffer size.\<close>

inductive rbb_run :: "rt_rbb \<Rightarrow> rt_rbb \<Rightarrow> bool" for r0 :: rt_rbb where
  start: "rbb_run r0 r0"
| alloc: "\<lbrakk>rbb_run r0 r; 0 < sz; sz \<le> rbb_buf_size r; rt_rbb_blk_alloc sz r = Some (x, r')\<rbrakk> \<Longrightarrow> rbb_run r0 r'"
| put: "\<lbrakk>rbb_run r0 r; rt_rbb_blk_put i r = Some r'\<rbrakk> \<Longrightarrow> rbb_run r0 r'"
| get: "\<lbrakk>rbb_run r0 r; rt_rbb_blk_get r = (x, r')\<rbrakk> \<Longrightarrow> rbb_run r0 r'"
| free: "\<lbrakk>rbb_run r0 r; rt_rbb_blk_free i r = Some r'\<rbrakk> \<Longrightarrow> rbb_run r0 r'"

lemma alloc_small: "rt_rbb_blk_alloc sz r = Some x \<Longrightarrow> sz < 2 ^ 24"
  by (auto simp: rt_rbb_blk_alloc_def bind_eq_Some_conv split: if_splits)

lemma rbb_run_inv:
  assumes "rbb_run r0 r" "rbb_inv r0"
  shows "rbb_inv r"
  using assms
proof (induction rule: rbb_run.induct)
  case (alloc r sz x r')
  from blk_alloc_ok[OF alloc.IH[OF alloc.prems] alloc.hyps(2) alloc_small[OF alloc.hyps(4)] alloc.hyps(3)] alloc.hyps(4)
  have "alloc_result r sz (x, r')" by simp
  then show ?case using alloc.IH[OF alloc.prems] by (auto simp: alloc_result_def split: option.splits)
qed (auto dest: blk_put_ok(1) blk_get_ok(1) blk_free_ok(1))

text \<open>C37: Over every history of allocations, puts, gets and frees of single blocks, that is without the block
  queues, and with sizes asked for that are positive and not above the size of the buffer: an allocation of
  such a size below \<open>2 ^ 24\<close> fails without any change or returns a block that lies in the buffer and shares no byte with
  any block in use, and the blocks in use stay where they are. (The code does not compare the size of the first
  block with that of the buffer. What block queues do is shown below.)\<close>

theorem rbb_blocks_disjoint:
  assumes "rbb_run (rt_rbb_init buf n bs) r" "unat buf + unat n < 2 ^ 32"
    and "0 < sz" "sz \<le> n" "sz < 2 ^ 24"
  shows "\<exists>x r'. rt_rbb_blk_alloc sz r = Some (x, r') \<and>
    (case x of None \<Rightarrow> r' = r
     | Some i \<Rightarrow> i \<notin> in_use r \<and> in_use r' = insert i (in_use r) \<and> blk_to r' i = blk_from r' i + unat sz \<and>
         unat buf \<le> blk_from r' i \<and> blk_to r' i \<le> unat buf + unat n \<and>
         (\<forall>j \<in> in_use r. blk_from r' j = blk_from r j \<and> blk_to r' j = blk_to r j \<and>
            (blk_to r' i \<le> blk_from r' j \<or> blk_to r' j \<le> blk_from r' i)))"
proof -
  have "rbb_buf r = buf \<and> rbb_buf_size r = n" using assms(1)
  proof (induction rule: rbb_run.induct)
    case (alloc r sz x r')
    then show ?case by (auto simp: rt_rbb_blk_alloc_def append_blk_def Let_def bind_eq_Some_conv split: option.splits if_splits)
  qed (auto simp: rt_rbb_init_def rt_rbb_blk_put_def rt_rbb_blk_get_def rt_rbb_blk_free_def set_blk_status_def
      bind_eq_Some_conv split: option.splits if_splits)
  then have bn: "rbb_buf r = buf" "rbb_buf_size r = n" by auto
  have inv: "rbb_inv r" by (rule rbb_run_inv[OF assms(1) init_inv[OF assms(2)]])
  obtain x r' where run: "rt_rbb_blk_alloc sz r = Some (x, r')" and res: "alloc_result r sz (x, r')"
    using blk_alloc_ok[OF inv assms(3,5)] assms(4) bn by auto
  show ?thesis
  proof (cases x)
    case (Some i)
    then have f: "i \<notin> in_use r" "rbb_inv r'" "blk_list r' = blk_list r @ [i]" "in_use r' = insert i (in_use r)"
      "blk_to r' i = blk_from r' i + unat sz" "\<And>j. j \<noteq> i \<Longrightarrow> blk_set r' ! j = blk_set r ! j"
      "rbb_buf r' = buf" "rbb_buf_size r' = n"
      using res bn by (simp_all add: alloc_result_def)
    have keep: "blk_from r' j = blk_from r j \<and> blk_to r' j = blk_to r j \<and> (blk_to r' i \<le> blk_from r' j \<or> blk_to r' j \<le> blk_from r' i)"
      if "j \<in> in_use r" for j
    proof -
      have ne: "j \<noteq> i" using that f(1) by blast
      have l: "set (blk_list r') = insert i (in_use r)" "two_runs r' (blk_list r')" using f(2,4) by (simp_all add: rbb_inv_def)
      from two_runs_disjoint[OF l(2), of i j] l(1) that ne f(6)[OF ne] show ?thesis
        by (auto simp: before_def blk_from_def blk_to_def)
    qed
    have "unat buf \<le> blk_from r' i" "blk_to r' i \<le> unat buf + unat n"
      using f(2,4,7,8) by (simp_all add: rbb_inv_def)
    then show ?thesis using run Some f(1,4,5) by (intro exI[of _ x] exI[of _ r']) (simp add: keep del: ball_simps; metis keep f(5))
  qed (use run res in \<open>simp add: alloc_result_def\<close>)
qed

definition two_slots :: "rt_rbb_blk list" where
  "two_slots = [\<lparr>blk_status = RT_RBB_BLK_GET, blk_size = 0, blk_buf = 0\<rparr>,
    \<lparr>blk_status = RT_RBB_BLK_GET, blk_size = 0, blk_buf = 0\<rparr>]"

theorem rbb_blocks_disjoint_witness:
  "\<exists>r i r'. rbb_run (rt_rbb_init 0x20000000 64 two_slots) r \<and> in_use r = {0} \<and>
     rt_rbb_blk_alloc 16 r = Some (Some i, r') \<and> blk_from r' i = 0x20000014"
proof -
  define r where "r = \<lparr>rbb_buf = 0x20000000, rbb_buf_size = 64,
    blk_set = [\<lparr>blk_status = RT_RBB_BLK_INITED, blk_size = 20, blk_buf = 0x20000000\<rparr>,
               \<lparr>blk_status = RT_RBB_BLK_UNUSED, blk_size = 0, blk_buf = 0\<rparr>], blk_list = [0]\<rparr>"
  have one: "rt_rbb_blk_alloc 20 (rt_rbb_init 0x20000000 64 two_slots) = Some (Some 0, r)"
    by (simp add: rt_rbb_blk_alloc_def rt_rbb_init_def two_slots_def find_empty_blk_in_set_def blk_max_num_def append_blk_def
        r_def upt_rec)
  have run: "rbb_run (rt_rbb_init 0x20000000 64 two_slots) r"
    by (rule rbb_run.alloc[OF rbb_run.start _ _ one]) (simp_all add: rt_rbb_init_def)
  have "in_use r = {0}" by (auto simp: in_use_def r_def blk_max_num_def less_Suc_eq)
  moreover obtain x r' where x: "rt_rbb_blk_alloc 16 r = Some (x, r')" "case x of None \<Rightarrow> r' = r | Some i \<Rightarrow> i \<notin> in_use r"
    using rbb_blocks_disjoint[OF run, of 16] by (auto split: option.splits)
  moreover have "rt_rbb_blk_alloc 16 r = Some (Some 1, r\<lparr>blk_list := [0, 1], blk_set :=
      [blk_set r ! 0, \<lparr>blk_status = RT_RBB_BLK_INITED, blk_size = 16, blk_buf = 0x20000014\<rparr>]\<rparr>)"
    by (simp add: rt_rbb_blk_alloc_def find_empty_blk_in_set_def blk_max_num_def append_blk_def r_def Let_def upt_rec)
  ultimately show ?thesis using run by (fastforce simp: blk_from_def)
qed

section \<open>Block queues take blocks out too early\<close>

text \<open>Blocks that the loop unlinks are marked as taken, and keep their place; nothing else changes.\<close>

definition taken :: "rt_rbb \<Rightarrow> rt_rbb \<Rightarrow> bool" where
  "taken r r' \<longleftrightarrow> blk_max_num r' = blk_max_num r \<and> rbb_buf r' = rbb_buf r \<and> set (blk_list r') \<subseteq> set (blk_list r) \<and>
     (\<forall>j. blk_from r' j = blk_from r j \<and> blk_size (blk_set r' ! j) = blk_size (blk_set r ! j) \<and>
        blk_status (blk_set r' ! j) =
          (if j \<in> set (blk_list r) - set (blk_list r') then RT_RBB_BLK_GET else blk_status (blk_set r ! j)))"

lemma taken_refl: "taken r r"
  by (simp add: taken_def)

lemma taken_trans:
  assumes "taken a b" "taken b c"
  shows "taken a c"
  using assms unfolding taken_def by (elim conjE) (intro conjI allI; force)

lemma queue_take_taken:
  assumes "distinct (blk_list r)" "set (blk_list r) \<subseteq> {..<blk_max_num r}" "i \<in> set (blk_list r)"
  shows "taken r (queue_take i r)" "distinct (blk_list (queue_take i r))"
    "set (blk_list (queue_take i r)) = set (blk_list r) - {i}"
proof -
  have i: "i < length (blk_set r)" using assms(2,3) by (auto simp: blk_max_num_def)
  show l: "set (blk_list (queue_take i r)) = set (blk_list r) - {i}" "distinct (blk_list (queue_take i r))"
    using assms(1) by (simp_all add: queue_take_def set_blk_status_def set_remove1_eq)
  have b: "blk_set (queue_take i r) ! j = (if j = i then (blk_set r ! i)\<lparr>blk_status := RT_RBB_BLK_GET\<rparr> else blk_set r ! j)" for j
    using i by (simp add: queue_take_def set_blk_status_def)
  show "taken r (queue_take i r)" unfolding taken_def l using assms(3)
    by (simp add: blk_from_def b) (simp add: queue_take_def set_blk_status_def blk_max_num_def)
qed

lemma queue_scan_taken:
  assumes "queue_scan nodes l n len q r = (len', q', r')" "distinct (blk_list r)" "set (blk_list r) \<subseteq> {..<blk_max_num r}"
    and "distinct nodes" "set nodes \<subseteq> set (blk_list r)"
  shows "taken r r'"
  using assms
proof (induction nodes l n len q r rule: queue_scan.induct)
  case (2 i nodes n len q r)
  note t = queue_take_taken[OF 2(4,5), of i]
  show ?case
  proof (cases "blk_status (blk_set r ! i) = RT_RBB_BLK_PUT")
    case True
    have "blk_max_num (queue_take i r) = blk_max_num r" using t(1) 2(7) by (simp add: taken_def)
    then have "taken (queue_take i r) r'" using 2(1)[OF refl True] 2(3,5-7) t(2,3) True by (auto simp: Let_def)
    then show ?thesis using taken_trans t(1) 2(7) by simp
  qed (use 2(2)[OF refl] 2(3-7) in \<open>simp add: Let_def\<close>)
next
  case (3 i nodes l n len q r)
  note t = queue_take_taken[OF 3(3,4), of i]
  let ?stop = "blk_status (blk_set r ! i) \<noteq> RT_RBB_BLK_PUT \<or> blk_buf (blk_set r ! l) > blk_buf (blk_set r ! i) \<or>
    len + blk_size (blk_set r ! i) > n"
  show ?case
  proof (cases ?stop)
    case False
    have "blk_max_num (queue_take i r) = blk_max_num r" using t(1) 3(6) by (simp add: taken_def)
    then have "taken (queue_take i r) r'" using 3(1)[OF refl False] 3(2,4-6) t(2,3) False by (auto simp: Let_def)
    then show ?thesis using taken_trans t(1) 3(6) by simp
  next
    case True
    then have "r' = r" using 3(2) by (simp add: Let_def split: if_splits)
    then show ?thesis by (simp add: taken_refl)
  qed
qed (simp add: taken_refl)

text \<open>C38: \<open>rt_rbb_blk_queue_get\<close> unlinks the blocks that it hands out, but allocation only keeps clear of
  linked blocks. In a well-formed buffer let it take every linked block, and let \<open>i\<close> be a block in use then, which
  its holder has not freed. When there is a free slot, the next allocation of any size that reaches from the start
  of the buffer into that block succeeds, and the new block overlaps \<open>i\<close>, which is still in use. (While other
  blocks stay linked, the allocation goes behind the last of these.)\<close>

theorem rbb_queue_block_overlaid:
  assumes "rbb_inv r" "rt_rbb_blk_queue_get n q r = (len, q', r')" "blk_list r' = []"
    and "i \<in> in_use r'" "in_use r' \<noteq> {..<blk_max_num r'}" "sz < 2 ^ 24" "blk_from r' i < unat (rbb_buf r') + unat sz"
  shows "blk_status (blk_set r' ! i) = RT_RBB_BLK_GET \<and>
    (\<exists>j r2. rt_rbb_blk_alloc sz r' = Some (Some j, r2) \<and> j \<noteq> i \<and> in_use r2 = insert j (in_use r') \<and>
       blk_from r2 j < blk_to r2 i \<and> blk_from r2 i < blk_to r2 j)"
proof -
  have l: "distinct (blk_list r)" "set (blk_list r) = in_use r" "in_use r \<subseteq> {..<blk_max_num r}"
    using assms(1) by (auto simp: rbb_inv_def in_use_def)
  have t: "taken r r'" using queue_scan_taken[OF assms(2)[unfolded rt_rbb_blk_queue_get_def] l(1) _ l(1)] l(2,3) by simp
  then have k: "blk_max_num r' = blk_max_num r" "rbb_buf r' = rbb_buf r" "blk_from r' i = blk_from r i"
    "blk_size (blk_set r' ! i) = blk_size (blk_set r ! i)"
    "blk_status (blk_set r' ! i) = (if i \<in> in_use r then RT_RBB_BLK_GET else blk_status (blk_set r ! i))"
    using l(2) assms(3) by (simp_all add: taken_def)
  then have iu: "i \<in> in_use r" using assms(4) by (auto simp: in_use_def split: if_splits)
  then have get: "blk_status (blk_set r' ! i) = RT_RBB_BLK_GET" using k(5) by simp
  have place: "unat (rbb_buf r') \<le> blk_from r' i" "0 < unat (blk_size (blk_set r' ! i))"
    using assms(1) iu k by (auto simp: rbb_inv_def unat_gt_0 word_neq_0_conv)
  obtain j where j: "find_empty_blk_in_set r' = Some j"
    using find_empty(2)[of r'] assms(5) by (cases "find_empty_blk_in_set r'") (auto simp: in_use_def)
  then have j2: "j < blk_max_num r'" "j \<notin> in_use r'" using find_empty(1) by simp_all
  let ?r2 = "r'\<lparr>blk_list := [j], blk_set := (blk_set r')[j := \<lparr>blk_status = RT_RBB_BLK_INITED, blk_size = sz, blk_buf = rbb_buf r'\<rparr>]\<rparr>"
  have ne: "j \<noteq> i" using j2(2) assms(4) by auto
  have "rt_rbb_blk_alloc sz r' = Some (Some j, ?r2)"
    using j j2(1) assms(3,6) by (simp add: rt_rbb_blk_alloc_def append_blk_def)
  moreover have "in_use ?r2 = insert j (in_use r')" using j2(1) by (auto simp: in_use_def blk_max_num_def nth_list_update split: if_splits)
  moreover have "blk_from ?r2 j < blk_to ?r2 i" "blk_from ?r2 i < blk_to ?r2 j"
    using ne j2(1) place assms(7) by (simp_all add: blk_to_def blk_from_def blk_max_num_def)
  ultimately show ?thesis using get ne by blast
qed

text \<open>A buffer of 64 bytes, in which a block of 16 has been put.\<close>

definition one_put :: rt_rbb where
  "one_put = \<lparr>rbb_buf = 0x20000000, rbb_buf_size = 64,
     blk_set = [\<lparr>blk_status = RT_RBB_BLK_PUT, blk_size = 16, blk_buf = 0x20000000\<rparr>,
                \<lparr>blk_status = RT_RBB_BLK_UNUSED, blk_size = 0, blk_buf = 0\<rparr>], blk_list = [0]\<rparr>"

theorem rbb_queue_block_overlaid_witness:
  "\<exists>q r' j r2. rbb_run (rt_rbb_init 0x20000000 64 two_slots) one_put \<and>
     rt_rbb_blk_queue_get 64 \<lparr>q_blocks = 0, q_blk_num = 0\<rparr> one_put = (16, q, r') \<and>
     rt_rbb_blk_alloc 16 r' = Some (Some j, r2) \<and> blk_from r2 0 < blk_to r2 j"
proof -
  let ?r0 = "one_put\<lparr>blk_set := [\<lparr>blk_status = RT_RBB_BLK_INITED, blk_size = 16, blk_buf = 0x20000000\<rparr>, blk_set one_put ! 1]\<rparr>"
  have one: "rt_rbb_blk_alloc 16 (rt_rbb_init 0x20000000 64 two_slots) = Some (Some 0, ?r0)"
    by (simp add: rt_rbb_blk_alloc_def rt_rbb_init_def two_slots_def find_empty_blk_in_set_def blk_max_num_def append_blk_def
        one_put_def upt_rec)
  have put: "rt_rbb_blk_put 0 ?r0 = Some one_put" by (simp add: rt_rbb_blk_put_def blk_max_num_def set_blk_status_def one_put_def)
  have "rbb_run (rt_rbb_init 0x20000000 64 two_slots) ?r0"
    by (rule rbb_run.alloc[OF rbb_run.start _ _ one]) (simp_all add: rt_rbb_init_def)
  then have run: "rbb_run (rt_rbb_init 0x20000000 64 two_slots) one_put" by (rule rbb_run.put[OF _ put])
  have inv: "rbb_inv one_put" by (rule rbb_run_inv[OF run init_inv]) simp
  let ?r' = "one_put\<lparr>blk_list := [], blk_set := [\<lparr>blk_status = RT_RBB_BLK_GET, blk_size = 16, blk_buf = 0x20000000\<rparr>, blk_set one_put ! 1]\<rparr>"
  have get: "rt_rbb_blk_queue_get 64 \<lparr>q_blocks = 0, q_blk_num = 0\<rparr> one_put = (16, \<lparr>q_blocks = 0, q_blk_num = 1\<rparr>, ?r')"
    by (simp add: rt_rbb_blk_queue_get_def queue_take_def set_blk_status_def one_put_def)
  have "in_use ?r' = {0}" by (auto simp: in_use_def blk_max_num_def one_put_def less_Suc_eq)
  moreover have "blk_max_num ?r' = 2" "blk_from ?r' 0 = 0x20000000" "rbb_buf ?r' = 0x20000000"
    by (simp_all add: blk_max_num_def one_put_def blk_from_def)
  ultimately have use: "in_use ?r' = {0}" "blk_max_num ?r' = 2" "blk_from ?r' 0 = 0x20000000" "rbb_buf ?r' = 0x20000000" .
  have "\<exists>j r2. rt_rbb_blk_alloc 16 ?r' = Some (Some j, r2) \<and> blk_from r2 0 < blk_to r2 j"
    using rbb_queue_block_overlaid[OF inv get, of 0 16] use by (auto simp: lessThan_nat_numeral lessThan_Suc)
  with run get show ?thesis by blast
qed

end
