(* ===== verification/Small_mem.thy ===== *)
theory Small_mem
  imports Prelude
begin

text \<open>
  The system heap of \<open>src/mem.c\<close> (\<open>RT_USING_SMALL_MEM\<close>).

  The heap is a doubly linked chain of blocks, each with a \<open>struct heap_mem\<close> header of
  \<open>SIZEOF_STRUCT_MEM\<close> = 12 bytes. A \<open>struct heap_mem *\<close> is its byte offset from \<open>heap_ptr\<close>, the form in
  which the code stores \<open>next\<close> and \<open>prev\<close>; the headers are a function from offsets to headers and the
  rest of the memory a function from offsets to bytes. Arguments and results are addresses, 0 is
  \<open>RT_NULL\<close>. The argument \<open>nest\<close> is \<open>rt_interrupt_nest\<close>, which \<open>RT_DEBUG_NOT_IN_INTERRUPT\<close> asserts to
  be 0. \<open>None\<close> is a failed assertion or a search that does not end. The semaphore \<open>heap_sem\<close>, which
  makes each call atomic, is not part of the state.
\<close>

section \<open>State\<close>

record heap_mem =
  hm_magic :: u16
  hm_used :: u16
  hm_next :: u32
  hm_prev :: u32

record small_mem =
  heap_ptr :: u32
  heap_end :: u32
  lfree :: u32
  mem_size_aligned :: u32
  used_mem :: u32
  max_mem :: u32
  hdr :: "u32 \<Rightarrow> heap_mem"
  bytes :: "u32 \<Rightarrow> u8"

abbreviation (input) HEAP_MAGIC :: u16 where "HEAP_MAGIC \<equiv> 0x1ea0"
abbreviation (input) SIZEOF_STRUCT_MEM :: u32 where "SIZEOF_STRUCT_MEM \<equiv> 12"
abbreviation (input) MIN_SIZE_ALIGNED :: u32 where "MIN_SIZE_ALIGNED \<equiv> 12"

definition hdr_upd :: "u32 \<Rightarrow> (heap_mem \<Rightarrow> heap_mem) \<Rightarrow> small_mem \<Rightarrow> small_mem" where
  "hdr_upd p f h = h\<lparr>hdr := (hdr h)(p := f (hdr h p))\<rparr>"

section \<open>Operations\<close>

definition plug_holes :: "u32 \<Rightarrow> small_mem \<Rightarrow> small_mem option" where
  "plug_holes mem h = do {
     rt_assert (mem < heap_end h);
     rt_assert (hm_used (hdr h mem) = 0);
     let nmem = hm_next (hdr h mem);
     let h1 = (if mem \<noteq> nmem \<and> hm_used (hdr h nmem) = 0 \<and> nmem \<noteq> heap_end h
               then (let h0 = (if lfree h = nmem then h\<lparr>lfree := mem\<rparr> else h);
                         nn = hm_next (hdr h0 nmem);
                         h0' = hdr_upd mem (hm_next_update (\<lambda>_. nn)) h0
                     in hdr_upd (hm_next (hdr h0' nmem)) (hm_prev_update (\<lambda>_. mem)) h0')
               else h);
     let pmem = hm_prev (hdr h1 mem);
     Some (if pmem \<noteq> mem \<and> hm_used (hdr h1 pmem) = 0
           then (let h2 = (if lfree h1 = mem then h1\<lparr>lfree := pmem\<rparr> else h1);
                     h3 = hdr_upd pmem (hm_next_update (\<lambda>_. hm_next (hdr h2 mem))) h2
                 in hdr_upd (hm_next (hdr h3 mem)) (hm_prev_update (\<lambda>_. pmem)) h3)
           else h1) }"

definition rt_system_heap_init :: "u8 \<Rightarrow> u32 \<Rightarrow> u32 \<Rightarrow> small_mem \<Rightarrow> small_mem option" where
  "rt_system_heap_init nest begin_addr end_addr h =
     (let begin_align = RT_ALIGN begin_addr; end_align = RT_ALIGN_DOWN end_addr in do {
        rt_assert (nest = 0);
        Some (if end_align > 2 * SIZEOF_STRUCT_MEM \<and> end_align - 2 * SIZEOF_STRUCT_MEM \<ge> begin_align
              then (let sz = end_align - begin_align - 2 * SIZEOF_STRUCT_MEM;
                        e = sz + SIZEOF_STRUCT_MEM in
                    h\<lparr>mem_size_aligned := sz, heap_ptr := begin_align,
                      hdr := (hdr h)
                        (0 := \<lparr>hm_magic = HEAP_MAGIC, hm_used = 0, hm_next = e, hm_prev = 0\<rparr>,
                         e := \<lparr>hm_magic = HEAP_MAGIC, hm_used = 1, hm_next = e, hm_prev = e\<rparr>),
                      heap_end := e, lfree := 0\<rparr>)
              else h) })"

text \<open>\<open>lfree_search\<close> is the loop that moves \<open>lfree\<close> up to the next free block or the end.\<close>

partial_function (option) lfree_search :: "small_mem \<Rightarrow> u32 \<Rightarrow> u32 option" where
  "lfree_search h p =
     (if hm_used (hdr h p) \<noteq> 0 \<and> p \<noteq> heap_end h then lfree_search h (hm_next (hdr h p)) else Some p)"

text \<open>The body of the loop of \<open>rt_malloc\<close> once a fitting block at offset \<open>ptr\<close> is found: the block is
  split when the rest can hold another block, and marked as used.\<close>

definition malloc_mark :: "u32 \<Rightarrow> u32 \<Rightarrow> small_mem \<Rightarrow> small_mem" where
  "malloc_mark ptr sz h =
     (let nxt = hm_next (hdr h ptr);
          h1 = (if nxt - (ptr + SIZEOF_STRUCT_MEM) \<ge> sz + SIZEOF_STRUCT_MEM + MIN_SIZE_ALIGNED
                then (let ptr2 = ptr + SIZEOF_STRUCT_MEM + sz;
                          a = h\<lparr>hdr := (hdr h)(ptr2 := \<lparr>hm_magic = HEAP_MAGIC, hm_used = 0,
                                                       hm_next = nxt, hm_prev = ptr\<rparr>)\<rparr>;
                          b = hdr_upd ptr (\<lambda>m. m\<lparr>hm_next := ptr2, hm_used := 1\<rparr>) a;
                          c = (if hm_next (hdr b ptr2) \<noteq> mem_size_aligned b + SIZEOF_STRUCT_MEM
                               then hdr_upd (hm_next (hdr b ptr2)) (hm_prev_update (\<lambda>_. ptr2)) b else b);
                          u = used_mem c + (sz + SIZEOF_STRUCT_MEM)
                      in c\<lparr>used_mem := u, max_mem := (if max_mem c < u then u else max_mem c)\<rparr>)
                else (let b = hdr_upd ptr (hm_used_update (\<lambda>_. 1)) h;
                          u = used_mem b + (hm_next (hdr b ptr) - ptr)
                      in b\<lparr>used_mem := u, max_mem := (if max_mem b < u then u else max_mem b)\<rparr>))
      in hdr_upd ptr (hm_magic_update (\<lambda>_. HEAP_MAGIC)) h1)"

definition malloc_take :: "u32 \<Rightarrow> u32 \<Rightarrow> small_mem \<Rightarrow> (u32 \<times> small_mem) option" where
  "malloc_take ptr sz h = do {
     let h2 = malloc_mark ptr sz h;
     h3 \<leftarrow> (if ptr = lfree h2
            then do { l \<leftarrow> lfree_search h2 (lfree h2);
                      rt_assert (l = heap_end h2 \<or> hm_used (hdr h2 l) = 0);
                      Some (h2\<lparr>lfree := l\<rparr>) }
            else Some h2);
     rt_assert (heap_ptr h3 + ptr + SIZEOF_STRUCT_MEM + sz \<le> heap_ptr h3 + heap_end h3);
     rt_assert ((heap_ptr h3 + ptr + SIZEOF_STRUCT_MEM) mod 4 = 0);
     rt_assert ((heap_ptr h3 + ptr) AND 3 = 0);
     Some (heap_ptr h3 + ptr + SIZEOF_STRUCT_MEM, h3) }"

partial_function (option) malloc_search :: "u32 \<Rightarrow> small_mem \<Rightarrow> u32 \<Rightarrow> (u32 \<times> small_mem) option" where
  "malloc_search sz h ptr =
     (if ptr < mem_size_aligned h - sz
      then (if hm_used (hdr h ptr) = 0 \<and> hm_next (hdr h ptr) - (ptr + SIZEOF_STRUCT_MEM) \<ge> sz
            then malloc_take ptr sz h
            else malloc_search sz h (hm_next (hdr h ptr)))
      else Some (0, h))"

definition rt_malloc :: "u8 \<Rightarrow> u32 \<Rightarrow> small_mem \<Rightarrow> (u32 \<times> small_mem) option" where
  "rt_malloc nest sz h =
     (if sz = 0 then Some (0, h)
      else do {
        rt_assert (nest = 0);
        let sz = RT_ALIGN sz;
        if sz > mem_size_aligned h then Some (0, h)
        else malloc_search (if sz < MIN_SIZE_ALIGNED then MIN_SIZE_ALIGNED else sz) h (lfree h) })"

definition rt_free :: "u8 \<Rightarrow> u32 \<Rightarrow> small_mem \<Rightarrow> small_mem option" where
  "rt_free nest rmem h =
     (if rmem = 0 then Some h
      else do {
        rt_assert (nest = 0);
        rt_assert (rmem AND 3 = 0);
        rt_assert (heap_ptr h \<le> rmem \<and> rmem < heap_ptr h + heap_end h);
        let mem = rmem - heap_ptr h - SIZEOF_STRUCT_MEM;
        rt_assert (hm_used (hdr h mem) \<noteq> 0);
        rt_assert (hm_magic (hdr h mem) = HEAP_MAGIC);
        let h1 = hdr_upd mem (\<lambda>m. m\<lparr>hm_used := 0, hm_magic := HEAP_MAGIC\<rparr>) h;
        let h2 = (if mem < lfree h1 then h1\<lparr>lfree := mem\<rparr> else h1);
        plug_holes mem (h2\<lparr>used_mem := used_mem h2 - (hm_next (hdr h2 mem) - mem)\<rparr>) })"

definition heap_copy :: "u32 \<Rightarrow> u32 \<Rightarrow> u32 \<Rightarrow> small_mem \<Rightarrow> small_mem" where
  "heap_copy dst src n h =
     h\<lparr>bytes := (\<lambda>p. if p - dst < n then bytes h (src + (p - dst)) else bytes h p)\<rparr>"

definition rt_realloc :: "u8 \<Rightarrow> u32 \<Rightarrow> u32 \<Rightarrow> small_mem \<Rightarrow> (u32 \<times> small_mem) option" where
  "rt_realloc nest rmem newsize0 h = do {
     rt_assert (nest = 0);
     let newsize = RT_ALIGN newsize0;
     if newsize > mem_size_aligned h then Some (0, h)
     else if newsize = 0 then do { h' \<leftarrow> rt_free nest rmem h; Some (0, h') }
     else if rmem = 0 then rt_malloc nest newsize h
     else if rmem < heap_ptr h \<or> rmem \<ge> heap_ptr h + heap_end h then Some (rmem, h)
     else
       let ptr = rmem - heap_ptr h - SIZEOF_STRUCT_MEM;
           sz = hm_next (hdr h ptr) - ptr - SIZEOF_STRUCT_MEM in
       if sz = newsize then Some (rmem, h)
       else if newsize + SIZEOF_STRUCT_MEM + 12 < sz then
         let ptr2 = ptr + SIZEOF_STRUCT_MEM + newsize;
             a = h\<lparr>used_mem := used_mem h - (sz - newsize),
                   hdr := (hdr h)(ptr2 := \<lparr>hm_magic = HEAP_MAGIC, hm_used = 0,
                                          hm_next = hm_next (hdr h ptr), hm_prev = ptr\<rparr>)\<rparr>;
             b = hdr_upd ptr (hm_next_update (\<lambda>_. ptr2)) a;
             c = (if hm_next (hdr b ptr2) \<noteq> mem_size_aligned b + SIZEOF_STRUCT_MEM
                  then hdr_upd (hm_next (hdr b ptr2)) (hm_prev_update (\<lambda>_. ptr2)) b else b)
         in do { d \<leftarrow> plug_holes ptr2 c; Some (rmem, d) }
       else do {
         (nmem, h1) \<leftarrow> rt_malloc nest newsize h;
         if nmem \<noteq> 0 then do {
           let h2 = heap_copy (nmem - heap_ptr h1) (rmem - heap_ptr h1)
                      (if sz < newsize then sz else newsize) h1;
           h3 \<leftarrow> rt_free nest rmem h2;
           Some (nmem, h3) }
         else Some (nmem, h1) } }"

definition rt_calloc :: "u8 \<Rightarrow> u32 \<Rightarrow> u32 \<Rightarrow> small_mem \<Rightarrow> (u32 \<times> small_mem) option" where
  "rt_calloc nest count sz h = do {
     (p, h1) \<leftarrow> rt_malloc nest (count * sz) h;
     Some (p, if p \<noteq> 0
              then h1\<lparr>bytes := (\<lambda>q. if q - (p - heap_ptr h1) < count * sz then 0 else bytes h1 q)\<rparr>
              else h1) }"

definition rt_memory_info :: "small_mem \<Rightarrow> u32 \<times> u32 \<times> u32" where
  "rt_memory_info h = (mem_size_aligned h, used_mem h, max_mem h)"

end
