(* ===== verification/State.thy ===== *)
theory State
  imports Small_mem
begin

text \<open>
  The kernel's data: the control blocks of \<open>include/rtdef.h\<close> and the static variables of
  \<open>scheduler.c\<close>, \<open>timer.c\<close>, \<open>clock.c\<close>, \<open>irq.c\<close> and \<open>object.c\<close>, in one record; with them the data of the
  serial devices, the state of their ports, and in \<open>ram\<close> the memory of the buffers that callers pass.

  A control block is named by its address, a natural number. A doubly linked list is the list of
  the blocks linked into it; \<open>tlink\<close> says into which list the \<open>tlist\<close> node of a thread is linked
  (\<open>None\<close>: the node points to itself), so that \<open>rt_list_remove\<close> needs no list head, as in the code.
  Linking a node that is already linked, which would corrupt both lists, is \<open>None\<close>. The operations
  are functions to \<open>option\<close>: \<open>None\<close> is a failed \<open>RT_ASSERT\<close> (an endless loop), the endless loop of
  the stack check, a null dereference or an access outside an array.
\<close>

section \<open>Names of control blocks\<close>

datatype timer_id = ThreadTimer nat | UserTimer nat

datatype oid = OThread nat | OSemaphore nat | OMutex nat | OEvent nat | OMailBox nat
  | OMessageQueue nat | OMemPool nat | ODevice nat | OTimer timer_id

text \<open>The heads of the lists that link threads through \<open>tlist\<close>: the ready table, the defunct list, the
  \<open>suspend_thread\<close> list of an IPC object or memory pool, the second list of a mailbox, and the lists of
  completions and data queues.\<close>

datatype driver_list = Suspended_list nat | Suspended_push_list nat | Suspended_pop_list nat

datatype lhead = ReadyQ nat | Defunct | WaitQ oid | SenderQ nat | DriverQ driver_list

datatype timeout_fn = Rt_thread_timeout nat | User_timeout nat nat

section \<open>Control blocks\<close>

record rt_object =
  obj_name :: "u8 list"
  obj_type :: u8
  obj_flag :: u8

record rt_timer =
  tm_func :: timeout_fn
  tm_init_tick :: u32
  tm_timeout_tick :: u32

record rt_thread =
  th_sp :: u32
  th_entry :: nat
  th_parameter :: u32
  th_stack_addr :: u32
  th_stack_size :: u32
  th_stack :: "u8 list"
  th_error :: rt_err
  th_stat :: u8
  th_current_priority :: u8
  th_init_priority :: u8
  th_number_mask :: u32
  th_event_set :: u32
  th_event_info :: u8
  th_init_tick :: u32
  th_remaining_tick :: u32
  th_cleanup :: nat
  th_user_data :: u32

record rt_mutex =
  mu_value :: u16
  mu_original_priority :: u8
  mu_hold :: u8
  mu_owner :: "nat option"

record rt_mailbox =
  mb_pool_addr :: u32
  mb_msg_pool :: "u32 list"
  mb_size :: u16
  mb_entry :: u16
  mb_in_offset :: u16
  mb_out_offset :: u16

record rt_messagequeue =
  mq_msg_pool :: u32
  mq_msg_size :: u16
  mq_max_msgs :: u16
  mq_entry :: u16
  mq_head :: u32
  mq_tail :: u32
  mq_free :: u32
  mq_next :: "u32 \<Rightarrow> u32"
  mq_data :: "u32 \<Rightarrow> u8 list"

record rt_mempool =
  mp_start_address :: u32
  mp_size :: u32
  mp_block_size :: u32
  mp_block_list :: u32
  mp_block_total_count :: u32
  mp_block_free_count :: u32
  mp_suspend_thread_count :: u32

record rt_device =
  dv_type :: nat
  dv_flag :: u16
  dv_open_flag :: u16
  dv_ref_count :: u8
  dv_rx_indicate :: nat
  dv_tx_complete :: nat

record rt_data_queue =
  dq_size :: u16
  dq_lwm :: u16
  dq_get_index :: u16
  dq_put_index :: u16
  dq_addr :: u32
  dq_queue :: "(u32 \<times> u32) list"
  dq_evt_notify :: nat

record serial_configure =
  sc_baud_rate :: u32
  sc_data_bits :: "4 word"
  sc_stop_bits :: "2 word"
  sc_parity :: "2 word"
  sc_bit_order :: "1 word"
  sc_invert :: "1 word"
  sc_bufsz :: u16
  sc_reserved :: "6 word"

record rt_serial_rx_fifo =
  rx_buffer :: "u8 list"
  rx_put_index :: u16
  rx_get_index :: u16
  rx_is_full :: bool

text \<open>\<open>serial_rx\<close> and \<open>serial_tx\<close> are untyped pointers; the constructor says what was allocated at the address.
  The completion of a \<open>Tx_fifo\<close> and the data queue of a \<open>Tx_dma\<close> are fields of the allocated structure.\<close>

datatype serial_rx = No_rx | Rx_fifo u32 rt_serial_rx_fifo | Rx_dma u32 bool
datatype serial_tx = No_tx | Tx_fifo u32 | Tx_dma u32 bool

record rt_serial_device =
  sr_config :: serial_configure
  sr_rx :: serial_rx
  sr_tx :: serial_tx

text \<open>The port behind a serial device: the bytes that its receiver yields until it is found empty (the one in
  the data register first, then those that arrive while the register is read), the bytes sent, whether the
  receive interrupt is enabled, and the settings of the last initialisation.\<close>

record stm32_uart =
  ua_received :: "u8 list"
  ua_sent :: "u8 list"
  ua_rxne_int :: bool
  ua_init :: "u32 \<times> nat \<times> nat \<times> nat"

section \<open>The kernel state\<close>

record kstate =
  objs :: "oid \<Rightarrow> rt_object"
  containers :: "u8 \<Rightarrow> oid list"
  threads :: "nat \<Rightarrow> rt_thread"
  lists :: "lhead \<Rightarrow> nat list"
  tlink :: "nat \<Rightarrow> lhead option"
  ready_group :: u32
  cur :: "nat option"
  cur_priority :: u8
  lock_nest :: "16 word"
  interrupt_nest :: u8
  tick :: u32
  timers :: "timer_id \<Rightarrow> rt_timer"
  timer_list :: "timer_id list"
  random_nr :: u32
  sems :: "nat \<Rightarrow> u16"
  mutexes :: "nat \<Rightarrow> rt_mutex"
  events :: "nat \<Rightarrow> u32"
  mailboxes :: "nat \<Rightarrow> rt_mailbox"
  mqueues :: "nat \<Rightarrow> rt_messagequeue"
  mempools :: "nat \<Rightarrow> rt_mempool"
  mp_links :: "u32 \<Rightarrow> u32"
  devices :: "nat \<Rightarrow> rt_device"
  completions :: "nat \<Rightarrow> u32"
  dqueues :: "nat \<Rightarrow> rt_data_queue"
  serials :: "nat \<Rightarrow> rt_serial_device"
  uarts :: "nat \<Rightarrow> stm32_uart"
  ram :: "u32 \<Rightarrow> u8"
  idle_hook_list :: "nat list"
  kheap :: small_mem
  kerrno :: rt_err

section \<open>Constants\<close>

abbreviation (input) RT_THREAD_INIT :: u8 where "RT_THREAD_INIT \<equiv> 0"
abbreviation (input) RT_THREAD_READY :: u8 where "RT_THREAD_READY \<equiv> 1"
abbreviation (input) RT_THREAD_SUSPEND :: u8 where "RT_THREAD_SUSPEND \<equiv> 2"
abbreviation (input) RT_THREAD_RUNNING :: u8 where "RT_THREAD_RUNNING \<equiv> 3"
abbreviation (input) RT_THREAD_CLOSE :: u8 where "RT_THREAD_CLOSE \<equiv> 4"
abbreviation (input) RT_THREAD_STAT_MASK :: u8 where "RT_THREAD_STAT_MASK \<equiv> 0x0f"

abbreviation (input) Class_Thread :: u8 where "Class_Thread \<equiv> 1"
abbreviation (input) Class_Semaphore :: u8 where "Class_Semaphore \<equiv> 2"
abbreviation (input) Class_Mutex :: u8 where "Class_Mutex \<equiv> 3"
abbreviation (input) Class_Event :: u8 where "Class_Event \<equiv> 4"
abbreviation (input) Class_MailBox :: u8 where "Class_MailBox \<equiv> 5"
abbreviation (input) Class_MessageQueue :: u8 where "Class_MessageQueue \<equiv> 6"
abbreviation (input) Class_MemPool :: u8 where "Class_MemPool \<equiv> 8"
abbreviation (input) Class_Timer :: u8 where "Class_Timer \<equiv> 10"
abbreviation (input) Class_Static :: u8 where "Class_Static \<equiv> 0x80"

abbreviation (input) TIMER_ACTIVATED :: u8 where "TIMER_ACTIVATED \<equiv> 1"
abbreviation (input) TIMER_PERIODIC :: u8 where "TIMER_PERIODIC \<equiv> 2"
abbreviation (input) RT_TICK_MAX :: u32 where "RT_TICK_MAX \<equiv> 0xffffffff"

text \<open>A call that may block either returns, or has called \<open>rt_schedule\<close> with its thread suspended: then
  the rest of the function is a second definition, which runs when the thread is current again.\<close>

datatype 'a outcome = Done 'a | Blocked

section \<open>Access and update\<close>

definition thr_upd :: "nat \<Rightarrow> (rt_thread \<Rightarrow> rt_thread) \<Rightarrow> kstate \<Rightarrow> kstate" where
  "thr_upd t f s = s\<lparr>threads := (threads s)(t := f (threads s t))\<rparr>"

definition obj_upd :: "oid \<Rightarrow> (rt_object \<Rightarrow> rt_object) \<Rightarrow> kstate \<Rightarrow> kstate" where
  "obj_upd x f s = s\<lparr>objs := (objs s)(x := f (objs s x))\<rparr>"

definition tm_upd :: "timer_id \<Rightarrow> (rt_timer \<Rightarrow> rt_timer) \<Rightarrow> kstate \<Rightarrow> kstate" where
  "tm_upd x f s = s\<lparr>timers := (timers s)(x := f (timers s x))\<rparr>"

definition stat_of :: "kstate \<Rightarrow> nat \<Rightarrow> u8" where
  "stat_of s t = th_stat (threads s t) AND RT_THREAD_STAT_MASK"

definition prio_of :: "kstate \<Rightarrow> nat \<Rightarrow> nat" where
  "prio_of s t = unat (th_current_priority (threads s t))"

text \<open>\<open>thread->stat = st | (thread->stat & ~RT_THREAD_STAT_MASK)\<close>\<close>

definition set_stat :: "nat \<Rightarrow> u8 \<Rightarrow> kstate \<Rightarrow> kstate" where
  "set_stat t st = thr_upd t (th_stat_update (\<lambda>x. st OR (x AND NOT RT_THREAD_STAT_MASK)))"

definition set_error :: "nat \<Rightarrow> rt_err \<Rightarrow> kstate \<Rightarrow> kstate" where
  "set_error t e = thr_upd t (th_error_update (\<lambda>_. e))"

text \<open>\<open>rt_thread_self\<close> of \<open>thread.c\<close>, and the value used where the code dereferences it.\<close>

definition rt_thread_self :: "kstate \<Rightarrow> nat option" where
  "rt_thread_self s = cur s"

text \<open>The error number: that of the current thread, or \<open>__rt_errno\<close> of \<open>kservice.c\<close> in an interrupt and
  before the first thread runs.\<close>

definition rt_set_errno :: "rt_err \<Rightarrow> kstate \<Rightarrow> kstate" where
  "rt_set_errno e s =
     (if interrupt_nest s \<noteq> 0 then s\<lparr>kerrno := e\<rparr>
      else (case cur s of None \<Rightarrow> s\<lparr>kerrno := e\<rparr> | Some t \<Rightarrow> set_error t e s))"

definition rt_get_errno :: "kstate \<Rightarrow> rt_err" where
  "rt_get_errno s =
     (if interrupt_nest s \<noteq> 0 then kerrno s
      else (case cur s of None \<Rightarrow> kerrno s | Some t \<Rightarrow> th_error (threads s t)))"

section \<open>Thread lists\<close>

definition rt_list_isempty :: "lhead \<Rightarrow> kstate \<Rightarrow> bool" where
  "rt_list_isempty h s \<longleftrightarrow> lists s h = []"

definition rt_list_remove :: "nat \<Rightarrow> kstate \<Rightarrow> kstate" where
  "rt_list_remove t s =
     (case tlink s t of None \<Rightarrow> s
      | Some h \<Rightarrow> s\<lparr>lists := (lists s)(h := remove1 t (lists s h)), tlink := (tlink s)(t := None)\<rparr>)"

text \<open>Insertion before a list head appends; insertion after a list head puts the node in front;
  insertion before the node of another thread places it directly before that thread.\<close>

definition list_put :: "lhead \<Rightarrow> nat list \<Rightarrow> nat \<Rightarrow> nat list \<Rightarrow> kstate \<Rightarrow> kstate option" where
  "list_put h xs t ys s =
     (if tlink s t = None
      then Some (s\<lparr>lists := (lists s)(h := xs @ t # ys), tlink := (tlink s)(t := Some h)\<rparr>) else None)"

definition rt_list_insert_before :: "lhead \<Rightarrow> nat \<Rightarrow> kstate \<Rightarrow> kstate option" where
  "rt_list_insert_before h t s = list_put h (lists s h) t [] s"

definition rt_list_insert_after :: "lhead \<Rightarrow> nat \<Rightarrow> kstate \<Rightarrow> kstate option" where
  "rt_list_insert_after h t s = list_put h [] t (lists s h) s"

section \<open>Interrupt nesting and context checks\<close>

definition rt_interrupt_enter :: "kstate \<Rightarrow> kstate" where
  "rt_interrupt_enter s = s\<lparr>interrupt_nest := interrupt_nest s + 1\<rparr>"

definition rt_interrupt_leave :: "kstate \<Rightarrow> kstate" where
  "rt_interrupt_leave s = s\<lparr>interrupt_nest := interrupt_nest s - 1\<rparr>"

definition rt_interrupt_get_nest :: "kstate \<Rightarrow> u8" where
  "rt_interrupt_get_nest s = interrupt_nest s"

definition RT_DEBUG_NOT_IN_INTERRUPT :: "kstate \<Rightarrow> unit option" where
  "RT_DEBUG_NOT_IN_INTERRUPT s = rt_assert (interrupt_nest s = 0)"

definition RT_DEBUG_IN_THREAD_CONTEXT :: "kstate \<Rightarrow> unit option" where
  "RT_DEBUG_IN_THREAD_CONTEXT s = do { rt_assert (cur s \<noteq> None); RT_DEBUG_NOT_IN_INTERRUPT s }"

section \<open>Projections of the update helpers\<close>

lemma thr_upd_simps [simp]:
  "threads (thr_upd t f s) = (threads s)(t := f (threads s t))"
  "objs (thr_upd t f s) = objs s" "containers (thr_upd t f s) = containers s"
  "lists (thr_upd t f s) = lists s" "tlink (thr_upd t f s) = tlink s"
  "ready_group (thr_upd t f s) = ready_group s" "cur (thr_upd t f s) = cur s"
  "lock_nest (thr_upd t f s) = lock_nest s" "interrupt_nest (thr_upd t f s) = interrupt_nest s"
  "tick (thr_upd t f s) = tick s" "timers (thr_upd t f s) = timers s"
  "timer_list (thr_upd t f s) = timer_list s" "sems (thr_upd t f s) = sems s"
  "mutexes (thr_upd t f s) = mutexes s" "events (thr_upd t f s) = events s"
  "mailboxes (thr_upd t f s) = mailboxes s" "mqueues (thr_upd t f s) = mqueues s"
  "mempools (thr_upd t f s) = mempools s" "mp_links (thr_upd t f s) = mp_links s"
  "kheap (thr_upd t f s) = kheap s" "cur_priority (thr_upd t f s) = cur_priority s"
  by (simp_all add: thr_upd_def)

lemma obj_upd_simps [simp]:
  "objs (obj_upd x f s) = (objs s)(x := f (objs s x))"
  "threads (obj_upd x f s) = threads s" "containers (obj_upd x f s) = containers s"
  "lists (obj_upd x f s) = lists s" "tlink (obj_upd x f s) = tlink s"
  "ready_group (obj_upd x f s) = ready_group s" "cur (obj_upd x f s) = cur s"
  "lock_nest (obj_upd x f s) = lock_nest s" "interrupt_nest (obj_upd x f s) = interrupt_nest s"
  "tick (obj_upd x f s) = tick s" "timers (obj_upd x f s) = timers s"
  "timer_list (obj_upd x f s) = timer_list s" "sems (obj_upd x f s) = sems s"
  "mutexes (obj_upd x f s) = mutexes s" "events (obj_upd x f s) = events s"
  "mailboxes (obj_upd x f s) = mailboxes s" "mqueues (obj_upd x f s) = mqueues s"
  "mempools (obj_upd x f s) = mempools s" "mp_links (obj_upd x f s) = mp_links s"
  "kheap (obj_upd x f s) = kheap s" "cur_priority (obj_upd x f s) = cur_priority s"
  by (simp_all add: obj_upd_def)

lemma tm_upd_simps [simp]:
  "timers (tm_upd x f s) = (timers s)(x := f (timers s x))"
  "objs (tm_upd x f s) = objs s"
  "threads (tm_upd x f s) = threads s" "containers (tm_upd x f s) = containers s"
  "lists (tm_upd x f s) = lists s" "tlink (tm_upd x f s) = tlink s"
  "ready_group (tm_upd x f s) = ready_group s" "cur (tm_upd x f s) = cur s"
  "lock_nest (tm_upd x f s) = lock_nest s" "interrupt_nest (tm_upd x f s) = interrupt_nest s"
  "tick (tm_upd x f s) = tick s"
  "timer_list (tm_upd x f s) = timer_list s" "sems (tm_upd x f s) = sems s"
  "mutexes (tm_upd x f s) = mutexes s" "events (tm_upd x f s) = events s"
  "mailboxes (tm_upd x f s) = mailboxes s" "mqueues (tm_upd x f s) = mqueues s"
  "mempools (tm_upd x f s) = mempools s" "mp_links (tm_upd x f s) = mp_links s"
  "kheap (tm_upd x f s) = kheap s" "cur_priority (tm_upd x f s) = cur_priority s"
  by (simp_all add: tm_upd_def)

end
