(* ===== verification/Ffs.thy ===== *)
theory Ffs
  imports Prelude
begin

text \<open>
  Find-first-set of \<open>src/kservice.c\<close> (built without \<open>RT_USING_CPU_FFS\<close>): the table
  \<open>__lowest_bit_bitmap\<close> as it stands in the source and \<open>__rt_ffs\<close>, shown equal to the position of the
  lowest set bit plus one.
\<close>

definition lowest_bit_bitmap :: "nat list" where
  "lowest_bit_bitmap =
   [0, 0, 1, 0, 2, 0, 1, 0, 3, 0, 1, 0, 2, 0, 1, 0,
    4, 0, 1, 0, 2, 0, 1, 0, 3, 0, 1, 0, 2, 0, 1, 0,
    5, 0, 1, 0, 2, 0, 1, 0, 3, 0, 1, 0, 2, 0, 1, 0,
    4, 0, 1, 0, 2, 0, 1, 0, 3, 0, 1, 0, 2, 0, 1, 0,
    6, 0, 1, 0, 2, 0, 1, 0, 3, 0, 1, 0, 2, 0, 1, 0,
    4, 0, 1, 0, 2, 0, 1, 0, 3, 0, 1, 0, 2, 0, 1, 0,
    5, 0, 1, 0, 2, 0, 1, 0, 3, 0, 1, 0, 2, 0, 1, 0,
    4, 0, 1, 0, 2, 0, 1, 0, 3, 0, 1, 0, 2, 0, 1, 0,
    7, 0, 1, 0, 2, 0, 1, 0, 3, 0, 1, 0, 2, 0, 1, 0,
    4, 0, 1, 0, 2, 0, 1, 0, 3, 0, 1, 0, 2, 0, 1, 0,
    5, 0, 1, 0, 2, 0, 1, 0, 3, 0, 1, 0, 2, 0, 1, 0,
    4, 0, 1, 0, 2, 0, 1, 0, 3, 0, 1, 0, 2, 0, 1, 0,
    6, 0, 1, 0, 2, 0, 1, 0, 3, 0, 1, 0, 2, 0, 1, 0,
    4, 0, 1, 0, 2, 0, 1, 0, 3, 0, 1, 0, 2, 0, 1, 0,
    5, 0, 1, 0, 2, 0, 1, 0, 3, 0, 1, 0, 2, 0, 1, 0,
    4, 0, 1, 0, 2, 0, 1, 0, 3, 0, 1, 0, 2, 0, 1, 0]"

definition rt_ffs :: "u32 \<Rightarrow> nat" where
  "rt_ffs v =
     (if v = 0 then 0
      else if v AND 0xff \<noteq> 0 then lowest_bit_bitmap ! unat (v AND 0xff) + 1
      else if v AND 0xff00 \<noteq> 0 then lowest_bit_bitmap ! unat (drop_bit 8 (v AND 0xff00)) + 9
      else if v AND 0xff0000 \<noteq> 0 then lowest_bit_bitmap ! unat (drop_bit 16 (v AND 0xff0000)) + 17
      else lowest_bit_bitmap ! unat (drop_bit 24 (v AND 0xff000000)) + 25)"

section \<open>The table\<close>

fun ctz :: "nat \<Rightarrow> nat" where
  "ctz n = (if n = 0 \<or> odd n then 0 else Suc (ctz (n div 2)))"

declare ctz.simps [simp del]

lemma ctz_bit: "n \<noteq> 0 \<Longrightarrow> bit n (ctz n) \<and> (\<forall>j < ctz n. \<not> bit n j)"
proof (induction n rule: ctz.induct)
  case (1 n)
  show ?case
  proof (cases "odd n")
    case True
    then show ?thesis by (simp add: ctz.simps[of n] bit_0)
  next
    case False
    with 1 have "n div 2 \<noteq> 0" by (auto elim: evenE)
    with 1 False have ih: "bit (n div 2) (ctz (n div 2))" "\<forall>j < ctz (n div 2). \<not> bit (n div 2) j"
      by auto
    have c: "ctz n = Suc (ctz (n div 2))" using 1 False by (simp add: ctz.simps[of n])
    have "\<not> bit n j" if "j < ctz n" for j
      using that ih(2) False by (cases j) (auto simp: c bit_0 bit_Suc)
    moreover have "bit n (ctz n)" using ih(1) by (simp add: c bit_Suc)
    ultimately show ?thesis by blast
  qed
qed

lemma lowest_bit_bitmap_ctz: "lowest_bit_bitmap = map ctz [0..<256]"
  unfolding lowest_bit_bitmap_def by (simp add: upt_rec ctz.simps)

lemma lowest_bit_nth: "n < 256 \<Longrightarrow> lowest_bit_bitmap ! n = ctz n"
  by (simp add: lowest_bit_bitmap_ctz)

section \<open>The lowest set bit\<close>

lemma byte_bit:
  assumes "k + 8 \<le> 32"
  shows "bit (unat (drop_bit k (v AND push_bit k (mask 8)) :: u32)) j \<longleftrightarrow> j < 8 \<and> bit v (k + j)"
  using assms by (auto simp: bit_unsigned_iff bit_simps)

lemma byte_zero:
  assumes "k + 8 \<le> 32" "v AND push_bit k (mask 8) = (0 :: u32)" "j < 8"
  shows "\<not> bit v (k + j)"
proof
  assume "bit v (k + j)"
  then have "bit (v AND push_bit k (mask 8)) (k + j)" using assms(1,3) by (simp add: bit_simps)
  then show False by (simp add: assms(2))
qed

lemma byte_ctz:
  assumes k: "k + 8 \<le> 32" and nz: "v AND push_bit k (mask 8) \<noteq> (0 :: u32)"
    and low: "\<forall>j < k. \<not> bit v j"
  defines "b \<equiv> unat (drop_bit k (v AND push_bit k (mask 8)))"
  shows "lowest_bit_bitmap ! b < 8 \<and> bit v (k + lowest_bit_bitmap ! b) \<and>
         (\<forall>j < k + lowest_bit_bitmap ! b. \<not> bit v j)"
proof -
  have b: "bit b j \<longleftrightarrow> j < 8 \<and> bit v (k + j)" for j
    unfolding b_def using k by (rule byte_bit)
  obtain n where "bit (v AND push_bit k (mask 8)) n"
    using nz by (metis bit_eqI bit_0_eq bot_apply bot_bool_def)
  then have "k \<le> n" "n - k < 8" "bit v n" using k by (auto simp: bit_simps)
  then have "bit b (n - k)" by (simp add: b)
  then have "b \<noteq> 0" by (cases "b = 0") simp_all
  have "b < 2 ^ 8"
  proof -
    have "take_bit 8 b = b"
      by (rule bit_eqI) (auto simp: bit_take_bit_iff b)
    then show ?thesis by (metis take_bit_nat_less_exp)
  qed
  then have t: "lowest_bit_bitmap ! b = ctz b" by (simp add: lowest_bit_nth)
  from ctz_bit[OF \<open>b \<noteq> 0\<close>] have "bit b (ctz b)" and min: "\<forall>j < ctz b. \<not> bit b j" by blast+
  then have c: "ctz b < 8" "bit v (k + ctz b)" by (simp_all add: b)
  have "\<not> bit v j" if "j < k + ctz b" for j
  proof (cases "j < k")
    case False
    with that have "j - k < ctz b" by simp
    with min c(1) False have "\<not> bit v (k + (j - k))" by (auto simp: b)
    with False show ?thesis by simp
  qed (use low in blast)
  with c t show ?thesis by simp
qed

lemma byte_lowest:
  assumes "k + 8 \<le> 32" "v AND push_bit k (mask 8) \<noteq> (0 :: u32)" "\<forall>j < k. \<not> bit v j"
    and "d = k + 1"
  shows "\<exists>n < 32. lowest_bit_bitmap ! unat (drop_bit k (v AND push_bit k (mask 8))) + d = n + 1 \<and>
    bit v n \<and> (\<forall>j < n. \<not> bit v j)"
  using byte_ctz[OF assms(1-3)] assms(1,4)
  by (intro exI[of _ "k + lowest_bit_bitmap ! unat (drop_bit k (v AND push_bit k (mask 8)))"]) simp

lemma byte_above:
  assumes "k + 8 \<le> 32" "v AND push_bit k (mask 8) = (0 :: u32)" "\<forall>j < k. \<not> bit v j"
    and "d = k + 8"
  shows "\<forall>j < d. \<not> bit v j"
proof (intro allI impI)
  fix j assume "j < d"
  then show "\<not> bit v j" using assms(3,4) byte_zero[OF assms(1,2), of "j - k"]
    by (cases "j < k") auto
qed

lemma byte_masks:
  "(0xff :: u32) = push_bit 0 (mask 8)" "(0xff00 :: u32) = push_bit 8 (mask 8)"
  "(0xff0000 :: u32) = push_bit 16 (mask 8)" "(0xff000000 :: u32) = push_bit 24 (mask 8)"
  by (simp_all add: mask_numeral push_bit_eq_mult)

lemma rt_ffs_lowest:
  assumes "v \<noteq> 0"
  shows "\<exists>n < 32. rt_ffs v = n + 1 \<and> bit v n \<and> (\<forall>j < n. \<not> bit v j)"
proof -
  let ?z = "\<lambda>k. v AND push_bit k (mask 8) = 0"
  have l8: "\<forall>j < 8. \<not> bit v j" if "?z 0"
    by (rule byte_above[OF _ that]) auto
  have l16: "\<forall>j < 16. \<not> bit v j" if "?z 0" "?z 8"
    by (rule byte_above[OF _ that(2) l8[OF that(1)]]) auto
  have l24: "\<forall>j < 24. \<not> bit v j" if "?z 0" "?z 8" "?z 16"
    by (rule byte_above[OF _ that(3) l16[OF that(1,2)]]) auto
  have nz: "\<not> ?z 24" if "?z 0" "?z 8" "?z 16"
  proof
    assume z: "?z 24"
    have "\<forall>j < 32. \<not> bit v j" by (rule byte_above[OF _ z l24[OF that]]) auto
    then have "v = 0" by (intro bit_word_eqI) simp
    with assms show False by simp
  qed
  consider "\<not> ?z 0" | "?z 0" "\<not> ?z 8" | "?z 0" "?z 8" "\<not> ?z 16" | "?z 0" "?z 8" "?z 16" by blast
  then show ?thesis
  proof cases
    case 1
    have "rt_ffs v = lowest_bit_bitmap ! unat (drop_bit 0 (v AND push_bit 0 (mask 8))) + 1"
      using assms 1 by (simp only: rt_ffs_def byte_masks if_True if_False simp_thms drop_bit_0 id_apply)
    moreover have "\<exists>n < 32. lowest_bit_bitmap ! unat (drop_bit 0 (v AND push_bit 0 (mask 8))) + 1 = n + 1 \<and>
        bit v n \<and> (\<forall>j < n. \<not> bit v j)"
      by (rule byte_lowest) (use 1 in auto)
    ultimately show ?thesis by simp
  next
    case 2
    have "rt_ffs v = lowest_bit_bitmap ! unat (drop_bit 8 (v AND push_bit 8 (mask 8))) + 9"
      using assms 2 by (simp only: rt_ffs_def byte_masks if_True if_False simp_thms drop_bit_0 id_apply)
    moreover have "\<exists>n < 32. lowest_bit_bitmap ! unat (drop_bit 8 (v AND push_bit 8 (mask 8))) + 9 = n + 1 \<and>
        bit v n \<and> (\<forall>j < n. \<not> bit v j)"
      by (rule byte_lowest) (use 2 l8[OF 2(1)] in auto)
    ultimately show ?thesis by simp
  next
    case 3
    have "rt_ffs v = lowest_bit_bitmap ! unat (drop_bit 16 (v AND push_bit 16 (mask 8))) + 17"
      using assms 3 by (simp only: rt_ffs_def byte_masks if_True if_False simp_thms drop_bit_0 id_apply)
    moreover have "\<exists>n < 32. lowest_bit_bitmap ! unat (drop_bit 16 (v AND push_bit 16 (mask 8))) + 17 = n + 1 \<and>
        bit v n \<and> (\<forall>j < n. \<not> bit v j)"
      by (rule byte_lowest) (use 3 l16[OF 3(1,2)] in auto)
    ultimately show ?thesis by simp
  next
    case 4
    have "rt_ffs v = lowest_bit_bitmap ! unat (drop_bit 24 (v AND push_bit 24 (mask 8))) + 25"
      using assms 4 by (simp only: rt_ffs_def byte_masks if_True if_False simp_thms drop_bit_0 id_apply)
    moreover have "\<exists>n < 32. lowest_bit_bitmap ! unat (drop_bit 24 (v AND push_bit 24 (mask 8))) + 25 = n + 1 \<and>
        bit v n \<and> (\<forall>j < n. \<not> bit v j)"
      by (rule byte_lowest) (use nz[OF 4] l24[OF 4] in auto)
    ultimately show ?thesis by simp
  qed
qed

section \<open>Properties\<close>

text \<open>C40: \<open>__rt_ffs\<close> returns one more than the position of the lowest set bit, for every nonzero
  32-bit value, and 0 for 0; the table lookup by bytes is exact.\<close>

theorem rt_ffs_correct:
  "rt_ffs v = (if v = 0 then 0 else (LEAST n. bit v n) + 1)"
proof (cases "v = 0")
  case False
  then obtain n where n: "rt_ffs v = n + 1" "bit v n" "\<forall>j < n. \<not> bit v j"
    using rt_ffs_lowest by blast
  then have "(LEAST n. bit v n) = n"
    by (intro Least_equality) (auto simp: not_less[symmetric])
  with n(1) False show ?thesis by simp
qed (simp add: rt_ffs_def)

end
