(* ===== verification/Sched.thy ===== *)
theory Sched
  imports State Ffs
begin

text \<open>
  The uniprocessor scheduler of \<open>src/scheduler.c\<close>: a bitmap of non-empty priorities over a table of
  32 FIFO lists of ready threads. A context switch is the update of \<open>rt_current_thread\<close>; the registers
  the port saves on the stack are not part of the state. The hooks are not installed.
\<close>

section \<open>Operations\<close>

text \<open>\<open>1L << priority\<close>, undefined beyond the width of the operand.\<close>

definition pbit :: "nat \<Rightarrow> u32" where
  "pbit p = push_bit p 1"

definition prio_mask :: "u8 \<Rightarrow> u32 option" where
  "prio_mask p = (if p < 32 then Some (pbit (unat p)) else None)"

definition stack_check :: "nat \<Rightarrow> kstate \<Rightarrow> unit option" where
  "stack_check t s = (let th = threads s t in
     rt_assert (th_stack th \<noteq> [] \<and> hd (th_stack th) = 0x23 \<and>
                th_stack_addr th < th_sp th \<and> th_sp th \<le> th_stack_addr th + th_stack_size th))"

definition get_highest_priority_thread :: "kstate \<Rightarrow> (nat \<times> nat) option" where
  "get_highest_priority_thread s =
     (if ready_group s = 0 then None
      else (let highest = rt_ffs (ready_group s) - 1 in
            case lists s (ReadyQ highest) of [] \<Rightarrow> None | t # _ \<Rightarrow> Some (t, highest)))"

definition rt_system_scheduler_init :: "kstate \<Rightarrow> kstate" where
  "rt_system_scheduler_init s =
     s\<lparr>lock_nest := 0,
       lists := (\<lambda>h. case h of ReadyQ p \<Rightarrow> if p < 32 then [] else lists s h | Defunct \<Rightarrow> []
                     | _ \<Rightarrow> lists s h),
       ready_group := 0\<rparr>"

definition rt_schedule_insert_thread :: "nat \<Rightarrow> kstate \<Rightarrow> kstate option" where
  "rt_schedule_insert_thread t s =
     (if cur s = Some t then Some (set_stat t RT_THREAD_RUNNING s)
      else do {
        let s1 = set_stat t RT_THREAD_READY s;
        rt_assert (prio_of s1 t < 32);
        s2 \<leftarrow> rt_list_insert_before (ReadyQ (prio_of s1 t)) t s1;
        Some (s2\<lparr>ready_group := ready_group s2 OR th_number_mask (threads s2 t)\<rparr>) })"

definition rt_schedule_remove_thread :: "nat \<Rightarrow> kstate \<Rightarrow> kstate option" where
  "rt_schedule_remove_thread t s =
     (let s1 = rt_list_remove t s in do {
        rt_assert (prio_of s1 t < 32);
        Some (if rt_list_isempty (ReadyQ (prio_of s1 t)) s1
              then s1\<lparr>ready_group := ready_group s1 AND NOT (th_number_mask (threads s1 t))\<rparr>
              else s1) })"

definition rt_system_scheduler_start :: "kstate \<Rightarrow> kstate option" where
  "rt_system_scheduler_start s = do {
     (to_thread, _) \<leftarrow> get_highest_priority_thread s;
     s1 \<leftarrow> rt_schedule_remove_thread to_thread (s\<lparr>cur := Some to_thread\<rparr>);
     Some (thr_upd to_thread (th_stat_update (\<lambda>_. RT_THREAD_RUNNING)) s1) }"

text \<open>The two halves of \<open>rt_schedule\<close>: the choice of \<open>to_thread\<close> with the flag
  \<open>need_insert_from_thread\<close>, and the switch to it.\<close>

definition choose_thread :: "nat \<Rightarrow> kstate \<Rightarrow> (nat \<times> nat \<times> bool) option" where
  "choose_thread c s = do {
     (to_thread, highest) \<leftarrow> get_highest_priority_thread s;
     Some (if stat_of s c = RT_THREAD_RUNNING
           then (if prio_of s c < highest then (c, highest, False) else (to_thread, highest, True))
           else (to_thread, highest, False)) }"

definition switch_thread :: "nat \<Rightarrow> nat \<Rightarrow> nat \<Rightarrow> bool \<Rightarrow> kstate \<Rightarrow> kstate option" where
  "switch_thread from_thread to_thread highest need_insert s = do {
     let s1 = s\<lparr>cur_priority := of_nat highest, cur := Some to_thread\<rparr>;
     s2 \<leftarrow> (if need_insert then rt_schedule_insert_thread from_thread s1 else Some s1);
     s3 \<leftarrow> rt_schedule_remove_thread to_thread s2;
     let s4 = set_stat to_thread RT_THREAD_RUNNING s3;
     stack_check to_thread s4;
     Some s4 }"

definition rt_schedule :: "kstate \<Rightarrow> kstate option" where
  "rt_schedule s =
     (if lock_nest s = 0 \<and> ready_group s \<noteq> 0 then do {
        c \<leftarrow> cur s;
        (to_thread, highest, need_insert) \<leftarrow> choose_thread c s;
        if to_thread \<noteq> c then switch_thread c to_thread highest need_insert s
        else do {
          s1 \<leftarrow> rt_schedule_remove_thread c s;
          Some (set_stat c RT_THREAD_RUNNING s1) } }
      else Some s)"

definition rt_enter_critical :: "kstate \<Rightarrow> kstate" where
  "rt_enter_critical s = s\<lparr>lock_nest := lock_nest s + 1\<rparr>"

definition rt_exit_critical :: "kstate \<Rightarrow> kstate option" where
  "rt_exit_critical s =
     (let n = lock_nest s - 1 in
      if sint n \<le> 0
      then (let s1 = s\<lparr>lock_nest := 0\<rparr> in if cur s1 \<noteq> None then rt_schedule s1 else Some s1)
      else Some (s\<lparr>lock_nest := n\<rparr>))"

definition rt_critical_level :: "kstate \<Rightarrow> u16" where
  "rt_critical_level s = lock_nest s"

section \<open>Invariant\<close>

text \<open>The lists and the link fields agree, no thread is linked twice.\<close>

definition links_ok :: "kstate \<Rightarrow> bool" where
  "links_ok s \<longleftrightarrow> (\<forall>t h. tlink s t = Some h \<longleftrightarrow> t \<in> set (lists s h)) \<and> (\<forall>h. distinct (lists s h))"

text \<open>Bit \<open>p\<close> of the ready group is set exactly when the ready list of priority \<open>p\<close> is not empty.\<close>

definition group_ok :: "kstate \<Rightarrow> bool" where
  "group_ok s \<longleftrightarrow> (\<forall>p. bit (ready_group s) p \<longleftrightarrow> lists s (ReadyQ p) \<noteq> [])"

text \<open>What a thread needs to be put on a ready list and run: a priority in range with its mask, and a
  stack that has not overflowed.\<close>

definition runnable_ok :: "kstate \<Rightarrow> nat \<Rightarrow> bool" where
  "runnable_ok s t \<longleftrightarrow> prio_of s t < 32 \<and> th_number_mask (threads s t) = pbit (prio_of s t) \<and>
     stack_check t s = Some ()"

text \<open>The state of a thread agrees with the list it is linked into.\<close>

definition place_ok :: "kstate \<Rightarrow> nat \<Rightarrow> bool" where
  "place_ok s t \<longleftrightarrow>
     (case tlink s t of
        Some (ReadyQ p) \<Rightarrow> stat_of s t = RT_THREAD_READY \<and> p = prio_of s t \<and> cur s \<noteq> Some t
      | Some Defunct \<Rightarrow> stat_of s t = RT_THREAD_CLOSE
      | Some (WaitQ _) \<Rightarrow> stat_of s t = RT_THREAD_SUSPEND
      | Some (SenderQ _) \<Rightarrow> stat_of s t = RT_THREAD_SUSPEND
      | Some (DriverQ _) \<Rightarrow> stat_of s t = RT_THREAD_SUSPEND
      | None \<Rightarrow> stat_of s t \<noteq> RT_THREAD_READY \<and>
                (stat_of s t = RT_THREAD_RUNNING \<longrightarrow> cur s = Some t))"

definition thr_ok :: "kstate \<Rightarrow> nat \<Rightarrow> bool" where
  "thr_ok s t \<longleftrightarrow> place_ok s t \<and>
     (stat_of s t \<in> {RT_THREAD_READY, RT_THREAD_SUSPEND, RT_THREAD_RUNNING} \<longrightarrow> runnable_ok s t)"

definition sched_ok :: "nat set \<Rightarrow> kstate \<Rightarrow> bool" where
  "sched_ok X s \<longleftrightarrow> links_ok s \<and> group_ok s \<and> (\<forall>t. t \<notin> X \<longrightarrow> thr_ok s t)"

abbreviation sched_inv :: "kstate \<Rightarrow> bool" where "sched_inv \<equiv> sched_ok {}"

lemma sched_ok_mono: "sched_ok X s \<Longrightarrow> X \<subseteq> Y \<Longrightarrow> sched_ok Y s"
  by (auto simp: sched_ok_def)

lemma sched_ok_close: "sched_ok X s \<Longrightarrow> (\<And>t. t \<in> X \<Longrightarrow> thr_ok s t) \<Longrightarrow> sched_inv s"
  by (auto simp: sched_ok_def)

lemma sched_okD:
  assumes "sched_ok X s"
  shows "links_ok s" "group_ok s" "t \<notin> X \<Longrightarrow> thr_ok s t"
  using assms by (auto simp: sched_ok_def)

section \<open>Status bits\<close>

lemma stat_set [simp]:
  "stat_of (set_stat t 1 s) t = 1" "stat_of (set_stat t 2 s) t = 2" "stat_of (set_stat t 3 s) t = 3"
proof -
  have n: "(- 16 :: u8) = NOT 15" by simp
  have eq: "(st OR x AND - 16) AND 15 = st AND 15" for st x :: u8
    unfolding n by (rule bit_word_eqI) (simp only: bit_and_iff bit_or_iff bit_not_iff, blast)
  show "stat_of (set_stat t 1 s) t = 1" "stat_of (set_stat t 2 s) t = 2" "stat_of (set_stat t 3 s) t = 3"
    by (simp_all add: stat_of_def set_stat_def eq)
qed

lemma stat_set_other [simp]: "u \<noteq> t \<Longrightarrow> stat_of (set_stat t st s) u = stat_of s u"
  by (simp add: stat_of_def set_stat_def)

lemma set_stat_simps [simp]:
  "prio_of (set_stat t st s) u = prio_of s u"
  "th_number_mask (threads (set_stat t st s) u) = th_number_mask (threads s u)"
  "stack_check u (set_stat t st s) = stack_check u s"
  "runnable_ok (set_stat t st s) u = runnable_ok s u"
  "lists (set_stat t st s) = lists s" "tlink (set_stat t st s) = tlink s"
  "ready_group (set_stat t st s) = ready_group s" "cur (set_stat t st s) = cur s"
  "lock_nest (set_stat t st s) = lock_nest s" "timer_list (set_stat t st s) = timer_list s"
  "timers (set_stat t st s) = timers s" "objs (set_stat t st s) = objs s"
  "tick (set_stat t st s) = tick s" "interrupt_nest (set_stat t st s) = interrupt_nest s"
  by (auto simp: set_stat_def prio_of_def stack_check_def runnable_ok_def Let_def)

text \<open>The fields on which the state of a thread depends.\<close>

definition same_thr :: "kstate \<Rightarrow> kstate \<Rightarrow> nat \<Rightarrow> bool" where
  "same_thr s s' t \<longleftrightarrow> stat_of s' t = stat_of s t \<and> prio_of s' t = prio_of s t \<and>
     runnable_ok s' t = runnable_ok s t"

lemma thr_ok_cong:
  assumes "threads s' t = threads s t" "tlink s' t = tlink s t"
    and "cur s' = Some t \<longleftrightarrow> cur s = Some t"
  shows "thr_ok s' t \<longleftrightarrow> thr_ok s t"
  using assms by (simp add: thr_ok_def place_ok_def runnable_ok_def stat_of_def prio_of_def
      stack_check_def Let_def split: option.splits lhead.splits)

section \<open>Linking and unlinking\<close>

definition unlinked :: "nat \<Rightarrow> u32 \<Rightarrow> kstate \<Rightarrow> kstate" where
  "unlinked t g s = s\<lparr>lists := (\<lambda>h. removeAll t (lists s h)), tlink := (tlink s)(t := None),
                      ready_group := g\<rparr>"

lemma unlinked_simps [simp]:
  "lists (unlinked t g s) h = removeAll t (lists s h)"
  "tlink (unlinked t g s) = (tlink s)(t := None)" "ready_group (unlinked t g s) = g"
  "threads (unlinked t g s) = threads s" "cur (unlinked t g s) = cur s"
  "lock_nest (unlinked t g s) = lock_nest s" "objs (unlinked t g s) = objs s"
  "timers (unlinked t g s) = timers s" "timer_list (unlinked t g s) = timer_list s"
  "tick (unlinked t g s) = tick s" "interrupt_nest (unlinked t g s) = interrupt_nest s"
  "stat_of (unlinked t g s) u = stat_of s u" "prio_of (unlinked t g s) u = prio_of s u"
  "runnable_ok (unlinked t g s) u = runnable_ok s u" "stack_check u (unlinked t g s) = stack_check u s"
  by (simp_all add: unlinked_def stat_of_def prio_of_def runnable_ok_def stack_check_def)

lemma links_okD:
  assumes "links_ok s"
  shows "tlink s t = Some h \<longleftrightarrow> t \<in> set (lists s h)" "distinct (lists s h)"
  using assms by (auto simp: links_ok_def)

lemma rt_list_remove_eq:
  assumes "links_ok s"
  shows "rt_list_remove t s = unlinked t (ready_group s) s"
proof (cases "tlink s t")
  case None
  then have "t \<notin> set (lists s h)" for h using links_okD(1)[OF assms, of t h] by simp
  with None show ?thesis by (simp add: rt_list_remove_def unlinked_def removeAll_id fun_upd_idem)
next
  case (Some h)
  have "(lists s)(h := remove1 t (lists s h)) = (\<lambda>k. removeAll t (lists s k))"
  proof
    fix k
    show "((lists s)(h := remove1 t (lists s h))) k = removeAll t (lists s k)"
    proof (cases "k = h")
      case True
      with links_okD(2)[OF assms, of h] show ?thesis by (simp add: distinct_remove1_removeAll)
    next
      case False
      then have "t \<notin> set (lists s k)" using links_okD(1)[OF assms, of t k] Some by simp
      with False show ?thesis by (simp add: removeAll_id)
    qed
  qed
  with Some show ?thesis by (simp add: rt_list_remove_def unlinked_def)
qed

lemma unlinked_links_ok:
  assumes "links_ok s"
  shows "links_ok (unlinked t g s)"
  using assms unfolding links_ok_def by (auto simp: distinct_removeAll)

lemma bit_and_not_mask:
  "p < 32 \<Longrightarrow> bit (g AND NOT (pbit p)) q \<longleftrightarrow> bit g q \<and> q \<noteq> p"
  by (auto simp: pbit_def bit_simps dest: bit_imp_le_length)

lemma bit_or_mask:
  "p < 32 \<Longrightarrow> bit (g OR pbit p) q \<longleftrightarrow> bit g q \<or> q = p"
  by (auto simp: pbit_def bit_simps)

lemma rt_schedule_remove_thread_eq:
  assumes "links_ok s" "group_ok s" "runnable_ok s t"
    and "\<And>p. tlink s t = Some (ReadyQ p) \<Longrightarrow> p = prio_of s t"
  shows "\<exists>g. rt_schedule_remove_thread t s = Some (unlinked t g s) \<and>
             links_ok (unlinked t g s) \<and> group_ok (unlinked t g s)"
proof -
  let ?p = "prio_of s t"
  let ?s1 = "unlinked t (ready_group s) s"
  define g where "g = (if removeAll t (lists s (ReadyQ ?p)) = []
     then ready_group s AND NOT (pbit ?p) else ready_group s)"
  have p: "?p < 32" and m: "th_number_mask (threads s t) = pbit ?p"
    using assms(3) by (auto simp: runnable_ok_def)
  have run: "rt_schedule_remove_thread t s = Some (unlinked t g s)"
    unfolding rt_schedule_remove_thread_def rt_list_remove_eq[OF assms(1)] Let_def rt_list_isempty_def
      unlinked_simps g_def using p m by (simp add: unlinked_def)
  have other: "removeAll t (lists s (ReadyQ q)) = lists s (ReadyQ q)" if "q \<noteq> ?p" for q
  proof -
    have "tlink s t \<noteq> Some (ReadyQ q)" using assms(4) that by blast
    then show ?thesis using links_okD(1)[OF assms(1)] by (simp add: removeAll_id)
  qed
  have old: "bit (ready_group s) q \<longleftrightarrow> lists s (ReadyQ q) \<noteq> []" for q
    using assms(2) by (simp add: group_ok_def)
  have "bit g q \<longleftrightarrow> removeAll t (lists s (ReadyQ q)) \<noteq> []" for q
  proof (cases "removeAll t (lists s (ReadyQ ?p)) = []")
    case True
    have "bit g q \<longleftrightarrow> lists s (ReadyQ q) \<noteq> [] \<and> q \<noteq> ?p"
      unfolding g_def if_P[OF True] bit_and_not_mask[OF p] old by (rule refl)
    with True other[of q] show ?thesis by (cases "q = ?p") simp_all
  next
    case False
    have "bit g q \<longleftrightarrow> lists s (ReadyQ q) \<noteq> []"
      unfolding g_def if_not_P[OF False] old by (intro refl)
    moreover have "lists s (ReadyQ ?p) \<noteq> []" using False by (metis removeAll.simps(1))
    ultimately show ?thesis using False other[of q] by (cases "q = ?p") simp_all
  qed
  then have "group_ok (unlinked t g s)" by (simp add: group_ok_def)
  with run unlinked_links_ok[OF assms(1)] show ?thesis by blast
qed

definition linked :: "lhead \<Rightarrow> nat list \<Rightarrow> nat \<Rightarrow> nat list \<Rightarrow> u32 \<Rightarrow> kstate \<Rightarrow> kstate" where
  "linked h xs t ys g s = s\<lparr>lists := (lists s)(h := xs @ t # ys), tlink := (tlink s)(t := Some h),
                            ready_group := g\<rparr>"

lemma linked_simps [simp]:
  "lists (linked h xs t ys g s) = (lists s)(h := xs @ t # ys)"
  "tlink (linked h xs t ys g s) = (tlink s)(t := Some h)" "ready_group (linked h xs t ys g s) = g"
  "threads (linked h xs t ys g s) = threads s" "cur (linked h xs t ys g s) = cur s"
  "lock_nest (linked h xs t ys g s) = lock_nest s" "objs (linked h xs t ys g s) = objs s"
  "timers (linked h xs t ys g s) = timers s" "timer_list (linked h xs t ys g s) = timer_list s"
  "tick (linked h xs t ys g s) = tick s" "interrupt_nest (linked h xs t ys g s) = interrupt_nest s"
  "stat_of (linked h xs t ys g s) u = stat_of s u" "prio_of (linked h xs t ys g s) u = prio_of s u"
  "runnable_ok (linked h xs t ys g s) u = runnable_ok s u"
  "stack_check u (linked h xs t ys g s) = stack_check u s"
  by (simp_all add: linked_def stat_of_def prio_of_def runnable_ok_def stack_check_def)

lemma linked_links_ok:
  assumes "links_ok s" "tlink s t = None" "lists s h = xs @ ys"
  shows "links_ok (linked h xs t ys g s)"
proof -
  have t: "t \<notin> set (lists s k)" for k using assms(1,2) links_okD(1)[of s t k] by simp
  moreover have "t \<notin> set xs" "t \<notin> set ys" using t[of h] assms(3) by simp_all
  moreover have "distinct (xs @ ys)" using links_okD(2)[OF assms(1), of h] assms(3) by simp
  moreover have "u \<in> set (lists s h) \<longleftrightarrow> u \<in> set xs \<or> u \<in> set ys" for u by (simp add: assms(3))
  ultimately show ?thesis
    using assms(1) unfolding links_ok_def by (auto simp: assms(3))
qed

lemma rt_schedule_insert_thread_eq:
  assumes "links_ok s" "group_ok s" "runnable_ok s t" "tlink s t = None" "cur s \<noteq> Some t"
  shows "\<exists>g. let s' = linked (ReadyQ (prio_of s t)) (lists s (ReadyQ (prio_of s t))) t [] g (set_stat t 1 s)
    in rt_schedule_insert_thread t s = Some s' \<and> links_ok s' \<and> group_ok s'"
proof -
  let ?p = "prio_of s t"
  let ?g = "ready_group s OR pbit ?p"
  let ?s = "linked (ReadyQ ?p) (lists s (ReadyQ ?p)) t [] ?g (set_stat t 1 s)"
  have p: "?p < 32" and m: "th_number_mask (threads s t) = pbit ?p"
    using assms(3) by (auto simp: runnable_ok_def)
  have "links_ok (set_stat t 1 s)" using assms(1) by (simp add: links_ok_def)
  then have "links_ok ?s" by (rule linked_links_ok) (simp_all add: assms(4))
  moreover have "group_ok ?s" using assms(2) p by (auto simp: group_ok_def bit_or_mask)
  moreover have "rt_schedule_insert_thread t s = Some ?s"
    unfolding rt_schedule_insert_thread_def rt_list_insert_before_def list_put_def linked_def Let_def
    using assms(4,5) p m by simp
  ultimately show ?thesis by (auto simp: Let_def)
qed

lemma get_highest:
  assumes "group_ok s" "ready_group s \<noteq> 0"
  shows "\<exists>t p ts. get_highest_priority_thread s = Some (t, p) \<and> lists s (ReadyQ p) = t # ts \<and>
    (\<forall>q < p. lists s (ReadyQ q) = [])"
proof -
  from rt_ffs_lowest[OF assms(2)] obtain p where p: "rt_ffs (ready_group s) = p + 1"
    "bit (ready_group s) p" "\<forall>q < p. \<not> bit (ready_group s) q" by blast
  with assms(1) obtain t ts where "lists s (ReadyQ p) = t # ts"
    by (auto simp: group_ok_def neq_Nil_conv)
  with p assms show ?thesis by (auto simp: get_highest_priority_thread_def group_ok_def)
qed

section \<open>Frames\<close>

text \<open>What the scheduler leaves alone: everything but the current thread, the ready structures and the
  status of threads.\<close>

definition sched_frame :: "kstate \<Rightarrow> kstate \<Rightarrow> bool" where
  "sched_frame s s' \<longleftrightarrow>
     s' = s\<lparr>threads := threads s', lists := lists s', tlink := tlink s', ready_group := ready_group s',
            cur := cur s', cur_priority := cur_priority s'\<rparr> \<and>
     (\<forall>t. threads s' t = (threads s t)\<lparr>th_stat := th_stat (threads s' t)\<rparr>) \<and>
     (\<forall>h. (\<forall>p. h \<noteq> ReadyQ p) \<longrightarrow> lists s' h = lists s h)"

lemma sched_frame_refl [simp, intro]: "sched_frame s s"
  by (simp add: sched_frame_def)

lemma sched_frame_trans [trans]:
  assumes "sched_frame a b" "sched_frame b c"
  shows "sched_frame a c"
proof -
  from assms(1) have b: "b = a\<lparr>threads := threads b, lists := lists b, tlink := tlink b,
     ready_group := ready_group b, cur := cur b, cur_priority := cur_priority b\<rparr>"
    and tb: "\<And>t. threads b t = (threads a t)\<lparr>th_stat := th_stat (threads b t)\<rparr>"
    by (auto simp: sched_frame_def)
  from assms(2) have c: "c = b\<lparr>threads := threads c, lists := lists c, tlink := tlink c,
     ready_group := ready_group c, cur := cur c, cur_priority := cur_priority c\<rparr>"
    and tc: "\<And>t. threads c t = (threads b t)\<lparr>th_stat := th_stat (threads c t)\<rparr>"
    by (auto simp: sched_frame_def)
  have "c = a\<lparr>threads := threads c, lists := lists c, tlink := tlink c,
     ready_group := ready_group c, cur := cur c, cur_priority := cur_priority c\<rparr>"
    by (subst c, subst b) simp
  moreover have "threads c t = (threads a t)\<lparr>th_stat := th_stat (threads c t)\<rparr>" for t
    by (subst tc, subst tb) simp
  ultimately show ?thesis using assms unfolding sched_frame_def by auto
qed

lemma sched_frameD:
  assumes "sched_frame s s'"
  shows "objs s' = objs s" "containers s' = containers s" "timers s' = timers s"
    "timer_list s' = timer_list s" "tick s' = tick s" "lock_nest s' = lock_nest s"
    "interrupt_nest s' = interrupt_nest s" "sems s' = sems s" "mutexes s' = mutexes s"
    "events s' = events s" "mailboxes s' = mailboxes s" "mqueues s' = mqueues s"
    "mempools s' = mempools s" "mp_links s' = mp_links s" "kheap s' = kheap s"
    "random_nr s' = random_nr s" "prio_of s' t = prio_of s t"
    "th_error (threads s' t) = th_error (threads s t)"
    "th_event_set (threads s' t) = th_event_set (threads s t)"
    "th_event_info (threads s' t) = th_event_info (threads s t)"
    "th_init_priority (threads s' t) = th_init_priority (threads s t)"
    "th_current_priority (threads s' t) = th_current_priority (threads s t)"
    "lists s' Defunct = lists s Defunct" "lists s' (WaitQ x) = lists s (WaitQ x)"
    "lists s' (SenderQ n) = lists s (SenderQ n)" "runnable_ok s' t = runnable_ok s t"
    "lists s' (DriverQ l) = lists s (DriverQ l)"
proof -
  from assms have e: "s' = s\<lparr>threads := threads s', lists := lists s', tlink := tlink s',
     ready_group := ready_group s', cur := cur s', cur_priority := cur_priority s'\<rparr>"
    and tb: "threads s' t = (threads s t)\<lparr>th_stat := th_stat (threads s' t)\<rparr>"
    by (auto simp: sched_frame_def)
  show "objs s' = objs s" "containers s' = containers s" "timers s' = timers s"
    "timer_list s' = timer_list s" "tick s' = tick s" "lock_nest s' = lock_nest s"
    "interrupt_nest s' = interrupt_nest s" "sems s' = sems s" "mutexes s' = mutexes s"
    "events s' = events s" "mailboxes s' = mailboxes s" "mqueues s' = mqueues s"
    "mempools s' = mempools s" "mp_links s' = mp_links s" "kheap s' = kheap s"
    "random_nr s' = random_nr s"
    by (subst e, simp)+
  show "prio_of s' t = prio_of s t" "th_error (threads s' t) = th_error (threads s t)"
    "th_event_set (threads s' t) = th_event_set (threads s t)"
    "th_event_info (threads s' t) = th_event_info (threads s t)"
    "th_init_priority (threads s' t) = th_init_priority (threads s t)"
    "th_current_priority (threads s' t) = th_current_priority (threads s t)"
    "runnable_ok s' t = runnable_ok s t"
    by (simp_all add: prio_of_def runnable_ok_def stack_check_def Let_def, (subst tb, simp)+)
  show "lists s' Defunct = lists s Defunct" "lists s' (WaitQ x) = lists s (WaitQ x)"
    "lists s' (SenderQ n) = lists s (SenderQ n)" "lists s' (DriverQ l) = lists s (DriverQ l)"
    using assms by (auto simp: sched_frame_def)
qed

section \<open>Switching threads\<close>

lemma thr_okD:
  assumes "thr_ok s t"
  shows "tlink s t = Some (ReadyQ p) \<Longrightarrow> stat_of s t = 1 \<and> p = prio_of s t \<and> cur s \<noteq> Some t \<and> runnable_ok s t"
    "stat_of s t = 1 \<Longrightarrow> tlink s t = Some (ReadyQ (prio_of s t)) \<and> runnable_ok s t \<and> cur s \<noteq> Some t"
    "stat_of s t = 2 \<Longrightarrow> runnable_ok s t"
    "stat_of s t = 3 \<Longrightarrow> tlink s t = None \<and> runnable_ok s t \<and> cur s = Some t"
  using assms by (auto simp: thr_ok_def place_ok_def split: option.splits lhead.splits)

lemma runnable_stat:
  "runnable_ok (s\<lparr>cur_priority := a, cur := b\<rparr>) t = runnable_ok s t"
  "stat_of (s\<lparr>cur_priority := a, cur := b\<rparr>) t = stat_of s t"
  "prio_of (s\<lparr>cur_priority := a, cur := b\<rparr>) t = prio_of s t"
  "stack_check t (s\<lparr>cur_priority := a, cur := b\<rparr>) = stack_check t s"
  by (simp_all add: runnable_ok_def stat_of_def prio_of_def stack_check_def)

lemma frame_linked:
  "sched_frame s (linked (ReadyQ p) xs t ys g s)"
  by (simp add: sched_frame_def linked_def)

lemma frame_unlinked:
  assumes "links_ok s" "\<And>h. tlink s t = Some h \<Longrightarrow> \<exists>p. h = ReadyQ p"
  shows "sched_frame s (unlinked t g s)"
proof -
  have "removeAll t (lists s h) = lists s h" if "\<forall>p. h \<noteq> ReadyQ p" for h
    using assms(2) links_okD(1)[OF assms(1), of t h] that by (metis removeAll_id)
  then show ?thesis by (simp add: sched_frame_def unlinked_def)
qed

lemma frame_set_stat: "sched_frame s (set_stat t st s)"
  by (simp add: sched_frame_def set_stat_def thr_upd_def)

lemma frame_cur: "sched_frame s (s\<lparr>cur_priority := a, cur := b\<rparr>)"
  by (simp add: sched_frame_def)

definition after_switch :: "nat \<Rightarrow> nat \<Rightarrow> kstate \<Rightarrow> lhead \<Rightarrow> nat list" where
  "after_switch c t s = (\<lambda>h. removeAll t (lists s h @
     (if stat_of s c = RT_THREAD_RUNNING \<and> h = ReadyQ (prio_of s c) then [c] else [])))"

lemma thr_ok_leave:
  assumes "thr_ok s c" "stat_of s c \<noteq> 3" "threads s' c = threads s c" "tlink s' c = tlink s c"
    "cur s = Some c"
  shows "thr_ok s' c"
  using assms by (simp add: thr_ok_def place_ok_def runnable_ok_def stat_of_def prio_of_def
      stack_check_def Let_def split: option.splits lhead.splits)

lemma links_group_cong:
  assumes "lists s' = lists s" "tlink s' = tlink s" "ready_group s' = ready_group s"
  shows "links_ok s' = links_ok s" "group_ok s' = group_ok s"
  using assms by (simp_all add: links_ok_def group_ok_def)

lemma put_from:
  fixes w :: u8
  assumes inv: "sched_inv s" and c: "cur s = Some c" and t: "t \<noteq> c"
  defines "s1 \<equiv> s\<lparr>cur_priority := w, cur := Some t\<rparr>"
  shows "\<exists>s2. (if stat_of s c = 3 then rt_schedule_insert_thread c s1 else Some s1) = Some s2 \<and>
    links_ok s2 \<and> group_ok s2 \<and> cur s2 = Some t \<and> sched_frame s s2 \<and> thr_ok s2 c \<and>
    stat_of s2 c = (if stat_of s c = 3 then 1 else stat_of s c) \<and>
    (\<forall>u. u \<noteq> c \<longrightarrow> threads s2 u = threads s u \<and> tlink s2 u = tlink s u) \<and>
    lists s2 = (\<lambda>h. lists s h @ (if stat_of s c = 3 \<and> h = ReadyQ (prio_of s c) then [c] else []))"
proof -
  note ok = sched_okD[OF inv]
  have lg: "links_ok s1" "group_ok s1" using ok links_group_cong[of s1 s] by (simp_all add: s1_def)
  have f1: "sched_frame s s1" unfolding s1_def by (rule frame_cur)
  show ?thesis
  proof (cases "stat_of s c = 3")
    case True
    then have r: "runnable_ok s1 c" "tlink s1 c = None" "cur s1 \<noteq> Some c" "prio_of s1 c = prio_of s c"
      using thr_okD(4)[OF ok(3), of c] t by (simp_all add: s1_def runnable_stat)
    let ?p = "prio_of s c"
    from rt_schedule_insert_thread_eq[OF lg r(1-3)] r(4) obtain g where
      g: "rt_schedule_insert_thread c s1 = Some (linked (ReadyQ ?p) (lists s1 (ReadyQ ?p)) c [] g (set_stat c 1 s1))"
         "links_ok (linked (ReadyQ ?p) (lists s1 (ReadyQ ?p)) c [] g (set_stat c 1 s1))"
         "group_ok (linked (ReadyQ ?p) (lists s1 (ReadyQ ?p)) c [] g (set_stat c 1 s1))"
      by (auto simp: Let_def)
    let ?s2 = "linked (ReadyQ ?p) (lists s1 (ReadyQ ?p)) c [] g (set_stat c 1 s1)"
    have f: "sched_frame s ?s2"
      by (rule sched_frame_trans[OF f1 sched_frame_trans[OF frame_set_stat frame_linked]])
    have "thr_ok ?s2 c" using r t by (simp add: thr_ok_def place_ok_def s1_def)
    moreover have "lists ?s2 = (\<lambda>h. lists s h @ (if stat_of s c = 3 \<and> h = ReadyQ ?p then [c] else []))"
      using True by (auto simp: s1_def)
    moreover have "threads ?s2 u = threads s u \<and> tlink ?s2 u = tlink s u" if "u \<noteq> c" for u
      using that by (simp add: s1_def set_stat_def)
    moreover have "cur ?s2 = Some t" by (simp add: s1_def)
    ultimately show ?thesis using g f True by (intro exI[of _ ?s2]) simp
  next
    case False
    have "thr_ok s1 c" using ok(3)[of c] False c by (rule_tac thr_ok_leave) (simp_all add: s1_def)
    with False lg f1 show ?thesis by (intro exI[of _ s1]) (simp add: s1_def runnable_stat)
  qed
qed

lemma switch_thread_ok:
  assumes inv: "sched_inv s" and c: "cur s = Some c" and hd: "lists s (ReadyQ p) = t # ts"
  shows "\<exists>s'. switch_thread c t p (stat_of s c = RT_THREAD_RUNNING) s = Some s' \<and>
    sched_inv s' \<and> cur s' = Some t \<and> stat_of s' t = RT_THREAD_RUNNING \<and>
    lists s' = after_switch c t s \<and> sched_frame s s' \<and>
    (\<forall>u. u \<noteq> c \<and> u \<noteq> t \<longrightarrow> threads s' u = threads s u) \<and>
    stat_of s' c = (if stat_of s c = RT_THREAD_RUNNING then RT_THREAD_READY else stat_of s c)"
proof -
  note ok = sched_okD[OF inv]
  have tl: "tlink s t = Some (ReadyQ p)" using hd links_okD(1)[OF ok(1), of t "ReadyQ p"] by simp
  have t: "stat_of s t = 1" "p = prio_of s t" "t \<noteq> c" "runnable_ok s t"
    using thr_okD(1)[OF ok(3) tl] c by auto
  let ?s1 = "s\<lparr>cur_priority := of_nat p, cur := Some t\<rparr>"
  from put_from[OF inv c t(3), of "of_nat p"] obtain s2 where
    s2: "(if stat_of s c = 3 then rt_schedule_insert_thread c ?s1 else Some ?s1) = Some s2"
      "links_ok s2" "group_ok s2" "cur s2 = Some t" "sched_frame s s2" "thr_ok s2 c"
      "stat_of s2 c = (if stat_of s c = 3 then 1 else stat_of s c)"
      "\<And>u. u \<noteq> c \<Longrightarrow> threads s2 u = threads s u \<and> tlink s2 u = tlink s u"
      "lists s2 = (\<lambda>h. lists s h @ (if stat_of s c = 3 \<and> h = ReadyQ (prio_of s c) then [c] else []))"
    by blast
  note fr = sched_frameD[OF s2(5)]
  have tl2: "tlink s2 t = Some (ReadyQ p)" using s2(8)[of t] t tl by simp
  from rt_schedule_remove_thread_eq[OF s2(2,3), of t] obtain g where
    g: "rt_schedule_remove_thread t s2 = Some (unlinked t g s2)" "links_ok (unlinked t g s2)"
      "group_ok (unlinked t g s2)"
    using tl2 t(2,4) by (auto simp: fr)
  let ?s4 = "set_stat t 3 (unlinked t g s2)"
  have "stack_check t ?s4 = Some ()" using t(4) fr(26)[of t] by (simp add: runnable_ok_def)
  then have run: "switch_thread c t p (stat_of s c = 3) s = Some ?s4"
    unfolding switch_thread_def Let_def s2(1) by (simp add: g(1))
  have f: "sched_frame s ?s4"
    by (rule sched_frame_trans[OF s2(5) sched_frame_trans[OF frame_unlinked[OF s2(2)] frame_set_stat]])
      (use tl2 in auto)
  have "thr_ok ?s4 u" for u
  proof -
    consider "u = t" | "u = c" | "u \<noteq> t" "u \<noteq> c" by blast
    then show ?thesis
    proof cases
      case 1
      then show ?thesis using t(4) fr(26)[of t] s2(4) by (simp add: thr_ok_def place_ok_def)
    next
      case 2
      have "thr_ok ?s4 c = thr_ok s2 c"
        by (rule thr_ok_cong) (use t(3) in \<open>simp_all add: set_stat_def\<close>)
      with 2 s2(6) show ?thesis by simp
    next
      case 3
      have "thr_ok ?s4 u = thr_ok s u"
        by (rule thr_ok_cong) (use 3 s2(4,8) c in \<open>simp_all add: set_stat_def\<close>)
      with ok(3) show ?thesis by simp
    qed
  qed
  moreover have "links_ok ?s4" "group_ok ?s4"
    using g(2,3) links_group_cong[of ?s4 "unlinked t g s2"] by simp_all
  ultimately have "sched_inv ?s4" by (simp add: sched_ok_def)
  moreover have "lists ?s4 = after_switch c t s" by (auto simp: after_switch_def s2(9))
  moreover have "threads ?s4 u = threads s u" if "u \<noteq> c" "u \<noteq> t" for u
    using that s2(8) by (simp add: set_stat_def)
  moreover have "stat_of ?s4 c = (if stat_of s c = 3 then 1 else stat_of s c)"
    using t(3) s2(7) by simp
  ultimately show ?thesis using run f s2(4) by (intro exI[of _ ?s4]) simp
qed

definition highest_first :: "kstate \<Rightarrow> nat \<Rightarrow> nat \<Rightarrow> nat list \<Rightarrow> bool" where
  "highest_first s p t ts \<longleftrightarrow> lists s (ReadyQ p) = t # ts \<and> (\<forall>q < p. lists s (ReadyQ q) = [])"

lemma highest_first_ex:
  assumes "sched_ok X s" "ready_group s \<noteq> 0"
  obtains p t ts where "get_highest_priority_thread s = Some (t, p)" "highest_first s p t ts"
  using get_highest[OF sched_okD(2)[OF assms(1)] assms(2)] by (auto simp: highest_first_def)

lemma highest_first_get:
  assumes "sched_ok X s" "highest_first s p t ts"
  shows "get_highest_priority_thread s = Some (t, p)" "ready_group s \<noteq> 0"
proof -
  have b: "bit (ready_group s) p" "\<forall>q < p. \<not> bit (ready_group s) q"
    using assms sched_okD(2)[OF assms(1)] by (auto simp: highest_first_def group_ok_def)
  then show nz: "ready_group s \<noteq> 0" by auto
  from rt_ffs_lowest[OF nz] obtain n where n: "rt_ffs (ready_group s) = n + 1" "bit (ready_group s) n"
    "\<forall>j < n. \<not> bit (ready_group s) j" by blast
  with b have "n = p" by (metis linorder_neqE_nat)
  with n nz assms(2) show "get_highest_priority_thread s = Some (t, p)"
    by (simp add: get_highest_priority_thread_def highest_first_def)
qed

lemma rt_schedule_switch:
  assumes inv: "sched_inv s" and c: "cur s = Some c" and lock: "lock_nest s = 0"
    and hf: "highest_first s p t ts" and low: "stat_of s c = RT_THREAD_RUNNING \<Longrightarrow> p \<le> prio_of s c"
  shows "\<exists>s'. rt_schedule s = Some s' \<and>
    sched_inv s' \<and> cur s' = Some t \<and> stat_of s' t = RT_THREAD_RUNNING \<and>
    lists s' = after_switch c t s \<and> sched_frame s s' \<and>
    (\<forall>u. u \<noteq> c \<and> u \<noteq> t \<longrightarrow> threads s' u = threads s u) \<and>
    stat_of s' c = (if stat_of s c = RT_THREAD_RUNNING then RT_THREAD_READY else stat_of s c)"
proof -
  have hd: "lists s (ReadyQ p) = t # ts" using hf by (simp add: highest_first_def)
  have "tlink s t = Some (ReadyQ p)" using hd links_okD(1)[OF sched_okD(1)[OF inv], of t "ReadyQ p"] by simp
  then have "t \<noteq> c" using thr_okD(1)[OF sched_okD(3)[OF inv], of t p] c by auto
  moreover have "choose_thread c s = Some (t, p, stat_of s c = RT_THREAD_RUNNING)"
    using low highest_first_get[OF inv hf] by (auto simp: choose_thread_def)
  ultimately show ?thesis
    using switch_thread_ok[OF inv c hd] c lock highest_first_get[OF inv hf]
    by (simp add: rt_schedule_def)
qed

lemma running_stat_idem:
  assumes "stat_of s c = 3"
  shows "set_stat c 3 s = s"
proof -
  have "3 OR (x AND NOT 15) = x" if "x AND 15 = 3" for x :: u8
  proof (rule bit_word_eqI)
    fix n assume "n < LENGTH(8)"
    have "bit (x AND 15) n \<longleftrightarrow> bit (3 :: u8) n" by (simp add: that)
    then show "bit (3 OR (x AND NOT 15)) n = bit x n"
      using \<open>n < LENGTH(8)\<close> by (auto simp: bit_simps)
  qed
  with assms have "3 OR (th_stat (threads s c) AND NOT 15) = th_stat (threads s c)"
    by (simp only: stat_of_def)
  then have "th_stat_update (\<lambda>x. 3 OR (x AND NOT 15)) (threads s c) = threads s c"
    by (cases "threads s c") simp
  then show ?thesis by (simp only: set_stat_def thr_upd_def fun_upd_triv) simp
qed

lemma rt_schedule_stay:
  assumes inv: "sched_inv s" and c: "cur s = Some c"
    and stay: "lock_nest s \<noteq> 0 \<or> (\<forall>p. lists s (ReadyQ p) = []) \<or>
      stat_of s c = RT_THREAD_RUNNING \<and> (\<forall>p \<le> prio_of s c. lists s (ReadyQ p) = [])"
  shows "rt_schedule s = Some s"
proof (cases "lock_nest s = 0 \<and> ready_group s \<noteq> 0")
  case True
  then obtain p t ts where g: "get_highest_priority_thread s = Some (t, p)" and hf: "highest_first s p t ts"
    using highest_first_ex[OF inv] by blast
  with stay True have st: "stat_of s c = 3" "prio_of s c < p"
    by (auto simp: highest_first_def) (metis list.distinct(1) linorder_not_le)
  note ok = sched_okD[OF inv]
  have r: "runnable_ok s c" "tlink s c = None" using thr_okD(4)[OF ok(3) st(1)] by auto
  from rt_schedule_remove_thread_eq[OF ok(1,2) r(1)] r(2) obtain g where
    g': "rt_schedule_remove_thread c s = Some (unlinked c g s)" "group_ok (unlinked c g s)" by auto
  have l: "removeAll c (lists s h) = lists s h" for h
    using r(2) links_okD(1)[OF ok(1), of c h] by (simp add: removeAll_id)
  have "bit g q = bit (ready_group s) q" for q
    using g'(2) ok(2) by (simp add: group_ok_def l)
  then have "g = ready_group s" by (intro bit_word_eqI) simp
  then have "unlinked c g s = s" using r(2) by (simp add: unlinked_def l fun_upd_idem)
  with g g' c st True show ?thesis
    by (simp add: rt_schedule_def choose_thread_def running_stat_idem)
qed (auto simp: rt_schedule_def)

lemma rt_schedule_total:
  assumes inv: "sched_inv s" and c: "cur s = Some c"
  shows "\<exists>s'. rt_schedule s = Some s' \<and> sched_inv s' \<and> sched_frame s s' \<and> cur s' \<noteq> None"
proof (cases "lock_nest s = 0 \<and> ready_group s \<noteq> 0")
  case True
  then obtain p t ts where hf: "highest_first s p t ts" using highest_first_ex[OF inv] by blast
  show ?thesis
  proof (cases "stat_of s c = 3 \<and> prio_of s c < p")
    case stay: True
    then have "rt_schedule s = Some s"
      using hf by (intro rt_schedule_stay[OF inv c]) (auto simp: highest_first_def)
    with inv c show ?thesis by auto
  next
    case False
    with rt_schedule_switch[OF inv c _ hf] True show ?thesis by fastforce
  qed
next
  case False
  then show ?thesis using inv c by (auto simp: rt_schedule_def)
qed

section \<open>A sample state\<close>

text \<open>Three threads: 1 runs at priority 10, 2 is ready at priority 10 and 3 at priority 20. The object
  headers have the type their name says.\<close>

definition sample_thread :: "u8 \<Rightarrow> u8 \<Rightarrow> rt_thread" where
  "sample_thread st p = \<lparr>th_sp = 0x1100, th_entry = 0, th_parameter = 0, th_stack_addr = 0x1000,
     th_stack_size = 0x200, th_stack = [0x23], th_error = 0, th_stat = st, th_current_priority = p,
     th_init_priority = p, th_number_mask = pbit (unat p), th_event_set = 0, th_event_info = 0,
     th_init_tick = 5, th_remaining_tick = 5, th_cleanup = 0, th_user_data = 0\<rparr>"

definition sample_type :: "oid \<Rightarrow> u8" where
  "sample_type x = (case x of OThread _ \<Rightarrow> 0x81 | OSemaphore _ \<Rightarrow> 0x82 | OMutex _ \<Rightarrow> 0x83 | OEvent _ \<Rightarrow> 0x84
     | OMailBox _ \<Rightarrow> 0x85 | OMessageQueue _ \<Rightarrow> 0x86 | OMemPool _ \<Rightarrow> 0x88 | ODevice _ \<Rightarrow> 0x89 | OTimer _ \<Rightarrow> 0x8a)"

definition sample :: kstate where
  "sample = \<lparr>
     objs = (\<lambda>x. \<lparr>obj_name = replicate 8 0, obj_type = sample_type x, obj_flag = 0\<rparr>),
     containers = (\<lambda>_. []),
     threads = (\<lambda>_. sample_thread 0 0)(1 := sample_thread 3 10, 2 := sample_thread 1 10,
                                       3 := sample_thread 1 20),
     lists = (\<lambda>_. [])(ReadyQ 10 := [2], ReadyQ 20 := [3]),
     tlink = (\<lambda>_. None)(2 := Some (ReadyQ 10), 3 := Some (ReadyQ 20)),
     ready_group = pbit 10 OR pbit 20, cur = Some 1, cur_priority = 10, lock_nest = 0,
     interrupt_nest = 0, tick = 100,
     timers = (\<lambda>x. \<lparr>tm_func = (case x of ThreadTimer t \<Rightarrow> Rt_thread_timeout t | UserTimer a \<Rightarrow> User_timeout a 0),
                   tm_init_tick = 7, tm_timeout_tick = 0\<rparr>),
     timer_list = [], random_nr = 0, sems = (\<lambda>_. 0),
     mutexes = (\<lambda>_. \<lparr>mu_value = 1, mu_original_priority = 0xff, mu_hold = 0, mu_owner = None\<rparr>),
     events = (\<lambda>_. 0),
     mailboxes = (\<lambda>_. \<lparr>mb_pool_addr = 0, mb_msg_pool = [0, 0], mb_size = 2, mb_entry = 0,
                      mb_in_offset = 0, mb_out_offset = 0\<rparr>),
     mqueues = (\<lambda>_. \<lparr>mq_msg_pool = 0, mq_msg_size = 4, mq_max_msgs = 0, mq_entry = 0, mq_head = 0,
                    mq_tail = 0, mq_free = 0, mq_next = (\<lambda>_. 0), mq_data = (\<lambda>_. [0, 0, 0, 0])\<rparr>),
     mempools = (\<lambda>_. \<lparr>mp_start_address = 0, mp_size = 0, mp_block_size = 0, mp_block_list = 0,
                     mp_block_total_count = 0, mp_block_free_count = 0, mp_suspend_thread_count = 0\<rparr>),
     mp_links = (\<lambda>_. 0),
     devices = (\<lambda>_. \<lparr>dv_type = 0, dv_flag = 0, dv_open_flag = 0, dv_ref_count = 0, dv_rx_indicate = 0,
                    dv_tx_complete = 0\<rparr>),
     completions = (\<lambda>_. 0),
     dqueues = (\<lambda>_. \<lparr>dq_size = 2, dq_lwm = 1, dq_get_index = 0, dq_put_index = 0, dq_addr = 0,
                    dq_queue = [(0, 0), (0, 0)], dq_evt_notify = 0\<rparr>),
     serials = (\<lambda>_. \<lparr>sr_config = \<lparr>sc_baud_rate = 115200, sc_data_bits = 8, sc_stop_bits = 0, sc_parity = 0,
                    sc_bit_order = 0, sc_invert = 0, sc_bufsz = 64, sc_reserved = 0\<rparr>, sr_rx = No_rx, sr_tx = No_tx\<rparr>),
     uarts = (\<lambda>_. \<lparr>ua_received = [], ua_sent = [], ua_rxne_int = False, ua_init = (0, 0, 0, 0)\<rparr>),
     ram = (\<lambda>_. 0),
     idle_hook_list = [0, 0, 0, 0],
     kheap = \<lparr>heap_ptr = 0, heap_end = 0, lfree = 0, mem_size_aligned = 0, used_mem = 0, max_mem = 0,
             hdr = (\<lambda>_. \<lparr>hm_magic = 0, hm_used = 0, hm_next = 0, hm_prev = 0\<rparr>), bytes = (\<lambda>_. 0)\<rparr>, kerrno = 0\<rparr>"

lemma bit_pbit: "p < 32 \<Longrightarrow> bit (pbit p) q \<longleftrightarrow> q = p"
  using bit_or_mask[of p 0 q] by simp

lemma sample_simps:
  "cur sample = Some 1" "lock_nest sample = 0" "interrupt_nest sample = 0" "timer_list sample = []"
  "tick sample = 100"
  "lists sample = (\<lambda>_. [])(ReadyQ 10 := [2], ReadyQ 20 := [3])"
  "tlink sample = (\<lambda>_. None)(2 := Some (ReadyQ 10), 3 := Some (ReadyQ 20))"
  "threads sample = (\<lambda>_. sample_thread 0 0)(1 := sample_thread 3 10, 2 := sample_thread 1 10,
                                       3 := sample_thread 1 20)"
  "ready_group sample = pbit 10 OR pbit 20"
  by (simp_all add: sample_def)

lemma sample_stat:
  "stat_of sample t = (if t = 1 then 3 else if t = 2 \<or> t = 3 then 1 else 0)"
  "prio_of sample t = (if t = 1 \<or> t = 2 then 10 else if t = 3 then 20 else 0)"
  by (simp_all add: stat_of_def prio_of_def sample_simps sample_thread_def)

lemma sample_inv: "sched_inv sample"
proof -
  have "links_ok sample" by (auto simp: links_ok_def sample_simps)
  moreover have "group_ok sample"
    by (auto simp: group_ok_def sample_simps bit_or_mask bit_pbit)
  moreover have "thr_ok sample t" for t
    by (auto simp: thr_ok_def place_ok_def runnable_ok_def stack_check_def sample_stat sample_simps
        sample_thread_def)
  ultimately show ?thesis by (simp add: sched_ok_def)
qed

section \<open>Properties\<close>

text \<open>C1: whenever the scheduler is not locked and a thread is ready or the current one still runs,
  \<open>rt_schedule\<close> returns with a running thread that has the highest priority of all runnable threads,
  and the scheduler's invariant holds again: bitmap, ready lists, links and thread states agree.\<close>

theorem schedule_picks_highest:
  assumes "sched_inv s" and "cur s = Some c" and "lock_nest s = 0"
    and "stat_of s c = RT_THREAD_RUNNING \<or> ready_group s \<noteq> 0"
  shows "\<exists>s' t. rt_schedule s = Some s' \<and> sched_inv s' \<and> cur s' = Some t \<and>
    stat_of s' t = RT_THREAD_RUNNING \<and>
    (\<forall>u. stat_of s' u = RT_THREAD_READY \<longrightarrow> prio_of s' t \<le> prio_of s' u)"
proof -
  have ready: "lists s' (ReadyQ (prio_of s' u)) \<noteq> []" if "sched_inv s'" "stat_of s' u = 1" for s' u
  proof -
    have "tlink s' u = Some (ReadyQ (prio_of s' u))"
      using thr_okD(2)[OF sched_okD(3)[OF that(1)] that(2)] by simp
    then show ?thesis using links_okD(1)[OF sched_okD(1)[OF that(1)]] by force
  qed
  show ?thesis
  proof (cases "stat_of s c = 3 \<and> (\<forall>p \<le> prio_of s c. lists s (ReadyQ p) = [])")
    case True
    then have "rt_schedule s = Some s" by (intro rt_schedule_stay[OF assms(1,2)]) simp
    moreover have "prio_of s c \<le> prio_of s u" if "stat_of s u = 1" for u
      using ready[OF assms(1) that] True by (metis linorder_le_cases)
    ultimately show ?thesis using assms(1,2) True by blast
  next
    case False
    then have "ready_group s \<noteq> 0 \<and> (stat_of s c = 3 \<longrightarrow> (\<exists>p \<le> prio_of s c. lists s (ReadyQ p) \<noteq> []))"
      using assms(4) sched_okD(2)[OF assms(1)] by (auto simp: group_ok_def)
    then obtain p t ts where hf: "highest_first s p t ts" and low: "stat_of s c = 3 \<Longrightarrow> p \<le> prio_of s c"
      using highest_first_ex[OF assms(1)]
      by (metis highest_first_def linorder_not_le order_less_le_trans)
    from rt_schedule_switch[OF assms(1-3) hf low] obtain s' where s':
      "rt_schedule s = Some s'" "sched_inv s'" "cur s' = Some t" "stat_of s' t = 3"
      "lists s' = after_switch c t s" "sched_frame s s'" by blast
    have t: "prio_of s t = p"
      using hf links_okD(1)[OF sched_okD(1)[OF assms(1)], of t "ReadyQ p"]
        thr_okD(1)[OF sched_okD(3)[OF assms(1)], of t p] by (auto simp: highest_first_def)
    have "p \<le> prio_of s' u" if "stat_of s' u = 1" for u
    proof (rule ccontr)
      assume "\<not> p \<le> prio_of s' u"
      then have "after_switch c t s (ReadyQ (prio_of s' u)) = []"
        using hf low by (auto simp: after_switch_def highest_first_def)
      with ready[OF s'(2) that] s'(5) show False by simp
    qed
    with s' t sched_frameD(17)[OF s'(6), of t] show ?thesis by auto
  qed
qed

theorem schedule_picks_highest_witness:
  "\<exists>s' t. rt_schedule sample = Some s' \<and> cur s' = Some t \<and>
    (\<forall>u. stat_of s' u = RT_THREAD_READY \<longrightarrow> prio_of s' t \<le> prio_of s' u)"
  using schedule_picks_highest[of sample 1] sample_inv by (auto simp: sample_simps sample_stat)

end
