(* ===== verification/Kobject.thy ===== *)
theory Kobject
  imports Sched
begin

text \<open>
  The object system of \<open>src/object.c\<close>, with \<open>rt_strncpy\<close> and \<open>rt_strncmp\<close> of \<open>src/kservice.c\<close> that it
  uses for names. Every class has a container list; a static object carries the flag
  \<open>RT_Object_Class_Static\<close> in its type, a dynamic one lives in a block of the system heap.
  A string is the list of the bytes in memory from its first character; reading past it is \<open>None\<close>.
  \<open>rt_exit_critical\<close> may switch threads in the middle of an operation; the rest of the operation, which
  touches only the object, is part of the same step.
\<close>

section \<open>Strings\<close>

fun rt_strncpy :: "nat \<Rightarrow> u8 list \<Rightarrow> u8 list option" where
  "rt_strncpy 0 src = Some []"
| "rt_strncpy (Suc n) [] = None"
| "rt_strncpy (Suc n) (c # src) =
     (if c = 0 then Some (replicate (Suc n) 0) else map_option ((#) c) (rt_strncpy n src))"

fun rt_strncmp :: "nat \<Rightarrow> u8 list \<Rightarrow> u8 list \<Rightarrow> int option" where
  "rt_strncmp 0 cs ct = Some 0"
| "rt_strncmp (Suc n) (c # cs) (d # ct) =
     (let res = c - d in if res \<noteq> 0 \<or> c = 0 then Some (sint res) else rt_strncmp n cs ct)"
| "rt_strncmp (Suc n) cs ct = None"

section \<open>Operations\<close>

text \<open>The classes of \<open>rt_object_container\<close>, with the size of their control blocks on the target.\<close>

definition rt_object_container :: "(u8 \<times> u32) list" where
  "rt_object_container = [(1, 128), (2, 32), (3, 36), (4, 32), (5, 48), (6, 52), (7, 100), (8, 56),
     (9, 68), (10, 44)]"

definition rt_object_get_information :: "u8 \<Rightarrow> u32 option" where
  "rt_object_get_information ty = map_of rt_object_container ty"

definition rt_object_is_systemobject :: "oid \<Rightarrow> kstate \<Rightarrow> bool" where
  "rt_object_is_systemobject x s \<longleftrightarrow> obj_type (objs s x) AND Class_Static \<noteq> 0"

definition rt_object_get_type :: "oid \<Rightarrow> kstate \<Rightarrow> u8" where
  "rt_object_get_type x s = obj_type (objs s x) AND NOT Class_Static"

definition container_put :: "u8 \<Rightarrow> oid \<Rightarrow> kstate \<Rightarrow> kstate" where
  "container_put ty x s = s\<lparr>containers := (containers s)(ty := x # containers s ty)\<rparr>"

definition container_remove :: "oid \<Rightarrow> kstate \<Rightarrow> kstate" where
  "container_remove x s = s\<lparr>containers := (\<lambda>c. remove1 x (containers s c))\<rparr>"

definition rt_object_init :: "oid \<Rightarrow> u8 \<Rightarrow> u8 list \<Rightarrow> kstate \<Rightarrow> kstate option" where
  "rt_object_init x ty name s = do {
     _ \<leftarrow> rt_object_get_information ty;
     let s1 = rt_enter_critical s;
     rt_assert (x \<notin> set (containers s1 ty));
     s2 \<leftarrow> rt_exit_critical s1;
     nm \<leftarrow> rt_strncpy 8 name;
     let s3 = obj_upd x (\<lambda>ob. ob\<lparr>obj_type := ty OR Class_Static, obj_name := nm\<rparr>) s2;
     Some (container_put ty x s3) }"

definition rt_object_detach :: "oid \<Rightarrow> kstate \<Rightarrow> kstate" where
  "rt_object_detach x s = container_remove x (obj_upd x (obj_type_update (\<lambda>_. 0)) s)"

text \<open>\<open>rt_memset(object, 0, size)\<close> on the control block.\<close>

definition zero_thread :: rt_thread where
  "zero_thread = \<lparr>th_sp = 0, th_entry = 0, th_parameter = 0, th_stack_addr = 0, th_stack_size = 0,
     th_stack = [], th_error = 0, th_stat = 0, th_current_priority = 0, th_init_priority = 0,
     th_number_mask = 0, th_event_set = 0, th_event_info = 0, th_init_tick = 0,
     th_remaining_tick = 0, th_cleanup = 0, th_user_data = 0\<rparr>"

definition zero_block :: "oid \<Rightarrow> kstate \<Rightarrow> kstate" where
  "zero_block x s = (case x of
     OThread a \<Rightarrow> s\<lparr>threads := (threads s)(a := zero_thread)\<rparr>
   | OSemaphore a \<Rightarrow> s\<lparr>sems := (sems s)(a := 0)\<rparr>
   | OMutex a \<Rightarrow> s\<lparr>mutexes := (mutexes s)(a := \<lparr>mu_value = 0, mu_original_priority = 0, mu_hold = 0,
                                              mu_owner = None\<rparr>)\<rparr>
   | OEvent a \<Rightarrow> s\<lparr>events := (events s)(a := 0)\<rparr>
   | OMailBox a \<Rightarrow> s\<lparr>mailboxes := (mailboxes s)(a := \<lparr>mb_pool_addr = 0, mb_msg_pool = [], mb_size = 0,
                                mb_entry = 0, mb_in_offset = 0, mb_out_offset = 0\<rparr>)\<rparr>
   | OMessageQueue a \<Rightarrow> s\<lparr>mqueues := (mqueues s)(a := (mqueues s a)\<lparr>mq_msg_pool := 0, mq_msg_size := 0,
                                mq_max_msgs := 0, mq_entry := 0, mq_head := 0, mq_tail := 0,
                                mq_free := 0\<rparr>)\<rparr>
   | OMemPool a \<Rightarrow> s\<lparr>mempools := (mempools s)(a := \<lparr>mp_start_address = 0, mp_size = 0,
                                mp_block_size = 0, mp_block_list = 0, mp_block_total_count = 0,
                                mp_block_free_count = 0, mp_suspend_thread_count = 0\<rparr>)\<rparr>
   | ODevice a \<Rightarrow> s\<lparr>devices := (devices s)(a := \<lparr>dv_type = 0, dv_flag = 0, dv_open_flag = 0,
                                dv_ref_count = 0, dv_rx_indicate = 0, dv_tx_complete = 0\<rparr>)\<rparr>
   | OTimer a \<Rightarrow> tm_upd a (\<lambda>m. m\<lparr>tm_init_tick := 0, tm_timeout_tick := 0\<rparr>) s)"

definition rt_object_allocate ::
    "(nat \<Rightarrow> oid) \<Rightarrow> u8 \<Rightarrow> u8 list \<Rightarrow> kstate \<Rightarrow> (nat option \<times> kstate) option" where
  "rt_object_allocate mk ty name s = do {
     RT_DEBUG_NOT_IN_INTERRUPT s;
     object_size \<leftarrow> rt_object_get_information ty;
     (p, h) \<leftarrow> rt_malloc (interrupt_nest s) object_size (kheap s);
     let s1 = s\<lparr>kheap := h\<rparr>;
     if p = 0 then Some (None, s1)
     else do {
       nm \<leftarrow> rt_strncpy 8 name;
       let x = mk (unat p);
       let s2 = obj_upd x (\<lambda>_. \<lparr>obj_name = nm, obj_type = ty, obj_flag = 0\<rparr>) (zero_block x s1);
       Some (Some (unat p), container_put ty x s2) } }"

definition rt_object_delete :: "oid \<Rightarrow> nat \<Rightarrow> kstate \<Rightarrow> kstate option" where
  "rt_object_delete x addr s = do {
     rt_assert (obj_type (objs s x) AND Class_Static = 0);
     let s1 = container_remove x (obj_upd x (obj_type_update (\<lambda>_. 0)) s);
     h \<leftarrow> rt_free (interrupt_nest s1) (of_nat addr) (kheap s1);
     Some (s1\<lparr>kheap := h\<rparr>) }"

fun find_named :: "u8 list \<Rightarrow> (oid \<Rightarrow> rt_object) \<Rightarrow> oid list \<Rightarrow> oid option option" where
  "find_named name ob [] = Some None"
| "find_named name ob (x # xs) = do {
     r \<leftarrow> rt_strncmp 8 (obj_name (ob x)) name;
     if r = 0 then Some (Some x) else find_named name ob xs }"

definition rt_object_find :: "u8 list option \<Rightarrow> u8 \<Rightarrow> kstate \<Rightarrow> (oid option \<times> kstate) option" where
  "rt_object_find name ty s =
     (case name of None \<Rightarrow> Some (None, s)
      | Some nm \<Rightarrow>
        if ty > 12 then Some (None, s)
        else do {
          RT_DEBUG_NOT_IN_INTERRUPT s;
          let s1 = rt_enter_critical s;
          _ \<leftarrow> rt_object_get_information ty;
          r \<leftarrow> find_named nm (objs s1) (containers s1 ty);
          s2 \<leftarrow> rt_exit_critical s1;
          Some (r, s2) })"

end
