(* ===== verification/Timer.thy ===== *)
theory Timer
  imports Kobject
begin

text \<open>
  The hard timers of \<open>src/timer.c\<close>. With \<open>RT_TIMER_SKIP_LIST_LEVEL\<close> = 1 the skip list is one doubly
  linked list, here the list of the timers in \<open>rt_timer_list\<close>; the flags of a timer are in its object
  header. The timeout function is an argument of \<open>rt_timer_check\<close>, which the clock interrupt
  instantiates. The loop over the expired timers may run forever (a periodic timer of period 0): it is
  a partial function whose value is then \<open>None\<close>.
\<close>

section \<open>Operations\<close>

definition timer_flag :: "timer_id \<Rightarrow> kstate \<Rightarrow> u8" where
  "timer_flag x s = obj_flag (objs s (OTimer x))"

definition set_timer_flag :: "timer_id \<Rightarrow> (u8 \<Rightarrow> u8) \<Rightarrow> kstate \<Rightarrow> kstate" where
  "set_timer_flag x f = obj_upd (OTimer x) (obj_flag_update f)"

definition rt_timer_remove :: "timer_id \<Rightarrow> kstate \<Rightarrow> kstate" where
  "rt_timer_remove x s = s\<lparr>timer_list := remove1 x (timer_list s)\<rparr>"

text \<open>\<open>_rt_timer_init\<close>: initialising the node of a timer that is still linked would break the list.\<close>

definition rt_timer_setup :: "timer_id \<Rightarrow> timeout_fn \<Rightarrow> u32 \<Rightarrow> u8 \<Rightarrow> kstate \<Rightarrow> kstate option" where
  "rt_timer_setup x timeout time flag s = do {
     let s1 = set_timer_flag x (\<lambda>_. flag) s;
     let s2 = set_timer_flag x (\<lambda>f. f AND NOT TIMER_ACTIVATED) s1;
     let s3 = tm_upd x (\<lambda>_. \<lparr>tm_func = timeout, tm_init_tick = time, tm_timeout_tick = 0\<rparr>) s2;
     rt_assert (x \<notin> set (timer_list s3));
     Some s3 }"

definition rt_timer_init ::
    "timer_id \<Rightarrow> u8 list \<Rightarrow> timeout_fn \<Rightarrow> u32 \<Rightarrow> u8 \<Rightarrow> kstate \<Rightarrow> kstate option" where
  "rt_timer_init x name timeout time flag s = do {
     s1 \<leftarrow> rt_object_init (OTimer x) Class_Timer name s;
     rt_timer_setup x timeout time flag s1 }"

definition rt_timer_detach :: "timer_id \<Rightarrow> kstate \<Rightarrow> (rt_err \<times> kstate) option" where
  "rt_timer_detach x s = do {
     rt_assert (rt_object_get_type (OTimer x) s = Class_Timer);
     rt_assert (rt_object_is_systemobject (OTimer x) s);
     Some (RT_EOK, rt_object_detach (OTimer x) (rt_timer_remove x s)) }"

definition rt_timer_create ::
    "u8 list \<Rightarrow> timeout_fn \<Rightarrow> u32 \<Rightarrow> u8 \<Rightarrow> kstate \<Rightarrow> (nat option \<times> kstate) option" where
  "rt_timer_create name timeout time flag s = do {
     (r, s1) \<leftarrow> rt_object_allocate (\<lambda>a. OTimer (UserTimer a)) Class_Timer name s;
     case r of None \<Rightarrow> Some (None, s1)
     | Some a \<Rightarrow> do {
         s2 \<leftarrow> rt_timer_setup (UserTimer a) timeout time flag s1;
         Some (Some a, s2) } }"

definition rt_timer_delete :: "nat \<Rightarrow> kstate \<Rightarrow> (rt_err \<times> kstate) option" where
  "rt_timer_delete a s = (let x = UserTimer a in do {
     rt_assert (rt_object_get_type (OTimer x) s = Class_Timer);
     rt_assert (\<not> rt_object_is_systemobject (OTimer x) s);
     s1 \<leftarrow> rt_object_delete (OTimer x) a (rt_timer_remove x s);
     Some (RT_EOK, s1) })"

text \<open>The walk of \<open>rt_timer_start\<close> along the list: it passes timers that expire at the same tick and
  timers that expire earlier, within half of the tick range, and stops before a later one.\<close>

fun timer_insert :: "(timer_id \<Rightarrow> u32) \<Rightarrow> u32 \<Rightarrow> timer_id \<Rightarrow> timer_id list \<Rightarrow> timer_id list" where
  "timer_insert timeout w x [] = [x]"
| "timer_insert timeout w x (t # ts) =
     (if timeout t - w = 0 then t # timer_insert timeout w x ts
      else if timeout t - w < RT_TICK_MAX div 2 then x # t # ts
      else t # timer_insert timeout w x ts)"

definition rt_timer_start :: "timer_id \<Rightarrow> kstate \<Rightarrow> (rt_err \<times> kstate) option" where
  "rt_timer_start x s = do {
     rt_assert (rt_object_get_type (OTimer x) s = Class_Timer);
     let s1 = set_timer_flag x (\<lambda>f. f AND NOT TIMER_ACTIVATED) (rt_timer_remove x s);
     rt_assert (tm_init_tick (timers s1 x) < RT_TICK_MAX div 2);
     let s2 = tm_upd x (\<lambda>m. m\<lparr>tm_timeout_tick := tick s1 + tm_init_tick m\<rparr>) s1;
     let tl = timer_insert (\<lambda>y. tm_timeout_tick (timers s2 y)) (tm_timeout_tick (timers s2 x)) x
                (timer_list s2);
     let s3 = s2\<lparr>random_nr := random_nr s2 + 1, timer_list := tl\<rparr>;
     Some (RT_EOK, set_timer_flag x (\<lambda>f. f OR TIMER_ACTIVATED) s3) }"

definition rt_timer_stop :: "timer_id \<Rightarrow> kstate \<Rightarrow> (rt_err \<times> kstate) option" where
  "rt_timer_stop x s = do {
     rt_assert (rt_object_get_type (OTimer x) s = Class_Timer);
     Some (if timer_flag x s AND TIMER_ACTIVATED = 0 then (- RT_ERROR, s)
           else (RT_EOK, set_timer_flag x (\<lambda>f. f AND NOT TIMER_ACTIVATED) (rt_timer_remove x s))) }"

text \<open>The argument is the value behind the pointer, before and after.\<close>

definition rt_timer_control :: "timer_id \<Rightarrow> nat \<Rightarrow> u32 \<Rightarrow> kstate \<Rightarrow> (rt_err \<times> u32 \<times> kstate) option" where
  "rt_timer_control x cmd arg s = do {
     rt_assert (rt_object_get_type (OTimer x) s = Class_Timer);
     Some (RT_EOK,
       (if cmd = 1 then (tm_init_tick (timers s x), s)
        else if cmd = 0 then (arg, tm_upd x (tm_init_tick_update (\<lambda>_. arg)) s)
        else if cmd = 2 then (arg, set_timer_flag x (\<lambda>f. f AND NOT TIMER_PERIODIC) s)
        else if cmd = 3 then (arg, set_timer_flag x (\<lambda>f. f OR TIMER_PERIODIC) s)
        else (arg, s))) }"

text \<open>\<open>rt_timer_control\<close> with \<open>RT_TIMER_CTRL_SET_TIME\<close> followed by \<open>rt_timer_start\<close>: how a blocking
  call arms the timer of its thread.\<close>

definition timer_arm :: "timer_id \<Rightarrow> u32 \<Rightarrow> kstate \<Rightarrow> kstate option" where
  "timer_arm x time s = do {
     (_, _, s1) \<leftarrow> rt_timer_control x 0 time s;
     (_, s2) \<leftarrow> rt_timer_start x s1;
     Some s2 }"

text \<open>What happens to an expired timer after its timeout function returned.\<close>

definition timer_expired :: "timer_id \<Rightarrow> kstate \<Rightarrow> kstate option" where
  "timer_expired t s =
     (if timer_flag t s AND TIMER_PERIODIC \<noteq> 0 \<and> timer_flag t s AND TIMER_ACTIVATED \<noteq> 0
      then do {
        (_, s1) \<leftarrow> rt_timer_start t (set_timer_flag t (\<lambda>f. f AND NOT TIMER_ACTIVATED) s);
        Some s1 }
      else Some (set_timer_flag t (\<lambda>f. f AND NOT TIMER_ACTIVATED) s))"

partial_function (option) timer_check_loop ::
    "(timeout_fn \<Rightarrow> kstate \<Rightarrow> kstate option) \<Rightarrow> u32 \<Rightarrow> kstate \<Rightarrow> kstate option" where
  "timer_check_loop run current_tick s =
     (case timer_list s of
        [] \<Rightarrow> Some s
      | t # _ \<Rightarrow>
          if current_tick - tm_timeout_tick (timers s t) < RT_TICK_MAX div 2
          then do {
            let s1 = rt_timer_remove t s;
            s2 \<leftarrow> run (tm_func (timers s1 t)) s1;
            let current_tick = tick s2;
            s3 \<leftarrow> timer_expired t s2;
            timer_check_loop run current_tick s3 }
          else Some s)"

definition rt_timer_check ::
    "(timeout_fn \<Rightarrow> kstate \<Rightarrow> kstate option) \<Rightarrow> kstate \<Rightarrow> kstate option" where
  "rt_timer_check run s = timer_check_loop run (tick s) s"

definition rt_timer_next_timeout_tick :: "kstate \<Rightarrow> u32" where
  "rt_timer_next_timeout_tick s =
     (case timer_list s of [] \<Rightarrow> RT_TICK_MAX | t # _ \<Rightarrow> tm_timeout_tick (timers s t))"

definition rt_system_timer_init :: "kstate \<Rightarrow> kstate" where
  "rt_system_timer_init s = s\<lparr>timer_list := []\<rparr>"

section \<open>Projections\<close>

lemma set_timer_flag_simps [simp]:
  "timer_list (set_timer_flag x f s) = timer_list s" "timers (set_timer_flag x f s) = timers s"
  "threads (set_timer_flag x f s) = threads s" "lists (set_timer_flag x f s) = lists s"
  "tlink (set_timer_flag x f s) = tlink s" "cur (set_timer_flag x f s) = cur s"
  "ready_group (set_timer_flag x f s) = ready_group s" "tick (set_timer_flag x f s) = tick s"
  "lock_nest (set_timer_flag x f s) = lock_nest s"
  "timer_flag y (set_timer_flag x f s) = (if y = x then f (timer_flag x s) else timer_flag y s)"
  "rt_object_get_type z (set_timer_flag x f s) = rt_object_get_type z s"
  by (simp_all add: set_timer_flag_def timer_flag_def rt_object_get_type_def)

lemma rt_timer_remove_simps [simp]:
  "timer_list (rt_timer_remove x s) = remove1 x (timer_list s)" "timers (rt_timer_remove x s) = timers s"
  "threads (rt_timer_remove x s) = threads s" "lists (rt_timer_remove x s) = lists s"
  "tlink (rt_timer_remove x s) = tlink s" "cur (rt_timer_remove x s) = cur s"
  "ready_group (rt_timer_remove x s) = ready_group s" "tick (rt_timer_remove x s) = tick s"
  "lock_nest (rt_timer_remove x s) = lock_nest s" "timer_flag y (rt_timer_remove x s) = timer_flag y s"
  "rt_object_get_type z (rt_timer_remove x s) = rt_object_get_type z s"
  by (simp_all add: rt_timer_remove_def timer_flag_def rt_object_get_type_def)

end
