(* ===== verification/Thread.thy ===== *)
theory Thread
  imports Timer
begin

text \<open>
  Threads (\<open>src/thread.c\<close>), the initial stack of \<open>libcpu/arm/cortex-m3/cpuport.c\<close> and the clock tick
  (\<open>src/clock.c\<close>). A blocking call has two parts: the call itself up to and including
  \<open>rt_schedule\<close>, and, named \<open>_woken\<close>, what it does once its thread runs again.
  \<open>rt_thread_exit_addr\<close> is the address of \<open>rt_thread_exit\<close>, a value of the linker. The machine
  code a thread runs is not modelled.
\<close>

section \<open>The initial stack\<close>

definition word_bytes :: "u32 \<Rightarrow> u8 list" where
  "word_bytes w = [ucast w, ucast (drop_bit 8 w), ucast (drop_bit 16 w), ucast (drop_bit 24 w)]"

text \<open>\<open>struct stack_frame\<close>: r4 to r11, then r0, r1, r2, r3, r12, lr, pc and psr.\<close>

definition rt_hw_stack_init :: "u32 \<Rightarrow> u32 \<Rightarrow> u32 \<Rightarrow> u32 \<Rightarrow> u32 \<times> u8 list" where
  "rt_hw_stack_init tentry parameter stack_addr texit =
     (let stk = ((stack_addr + 4) AND NOT 7) - 64;
          frame = replicate 8 0xdeadbeef @ [parameter, 0, 0, 0, 0, texit, tentry, 0x01000000]
      in (stk, concat (map word_bytes frame)))"

section \<open>Operations\<close>

definition rt_thread_resume :: "nat \<Rightarrow> kstate \<Rightarrow> (rt_err \<times> kstate) option" where
  "rt_thread_resume t s = do {
     rt_assert (rt_object_get_type (OThread t) s = Class_Thread);
     if stat_of s t \<noteq> RT_THREAD_SUSPEND then Some (- RT_ERROR, s)
     else do {
       (_, s1) \<leftarrow> rt_timer_stop (ThreadTimer t) (rt_list_remove t s);
       s2 \<leftarrow> rt_schedule_insert_thread t s1;
       Some (RT_EOK, s2) } }"

definition rt_thread_suspend :: "nat \<Rightarrow> kstate \<Rightarrow> (rt_err \<times> kstate) option" where
  "rt_thread_suspend t s = do {
     rt_assert (rt_object_get_type (OThread t) s = Class_Thread);
     if stat_of s t \<noteq> RT_THREAD_READY \<and> stat_of s t \<noteq> RT_THREAD_RUNNING then Some (- RT_ERROR, s)
     else do {
       rt_assert (stat_of s t = RT_THREAD_RUNNING \<longrightarrow> cur s = Some t);
       s1 \<leftarrow> rt_schedule_remove_thread t s;
       let s2 = set_stat t RT_THREAD_SUSPEND s1;
       (_, s3) \<leftarrow> rt_timer_stop (ThreadTimer t) s2;
       Some (RT_EOK, s3) } }"

definition rt_thread_timeout :: "nat \<Rightarrow> kstate \<Rightarrow> kstate option" where
  "rt_thread_timeout t s = do {
     rt_assert (stat_of s t = RT_THREAD_SUSPEND);
     rt_assert (rt_object_get_type (OThread t) s = Class_Thread);
     s1 \<leftarrow> rt_schedule_insert_thread t (rt_list_remove t (set_error t (- RT_ETIMEOUT) s));
     rt_schedule s1 }"

definition thread_setup :: "u32 \<Rightarrow> nat \<Rightarrow> u32 \<Rightarrow> u32 \<Rightarrow> u32 \<Rightarrow> u32 \<Rightarrow> u8 \<Rightarrow> u32 \<Rightarrow> kstate \<Rightarrow>
    (rt_err \<times> kstate) option" where
  "thread_setup rt_thread_exit_addr t entry parameter stack_start stack_size priority time_slice s = do {
     rt_assert (tlink s t = None);
     let (sp, frame) = rt_hw_stack_init entry parameter (stack_start + stack_size - 4) rt_thread_exit_addr;
     stack \<leftarrow> memcpy (replicate (unat stack_size) 0x23) (uint sp - uint stack_start) frame 0 64;
     rt_assert (priority < 32);
     let s1 = thr_upd t (\<lambda>th. th\<lparr>th_entry := unat entry, th_parameter := parameter,
       th_stack_addr := stack_start, th_stack_size := stack_size, th_stack := stack, th_sp := sp,
       th_init_priority := priority, th_current_priority := priority, th_number_mask := 0,
       th_init_tick := time_slice, th_remaining_tick := time_slice, th_error := RT_EOK,
       th_stat := RT_THREAD_INIT, th_cleanup := 0, th_user_data := 0\<rparr>) s;
     s2 \<leftarrow> rt_timer_init (ThreadTimer t) (obj_name (objs s1 (OThread t))) (Rt_thread_timeout t) 0 0 s1;
     Some (RT_EOK, s2) }"

definition rt_thread_init :: "u32 \<Rightarrow> nat \<Rightarrow> u8 list \<Rightarrow> u32 \<Rightarrow> u32 \<Rightarrow> u32 \<Rightarrow> u32 \<Rightarrow> u8 \<Rightarrow> u32 \<Rightarrow> kstate \<Rightarrow>
    (rt_err \<times> kstate) option" where
  "rt_thread_init rt_thread_exit_addr t name entry parameter stack_start stack_size priority time_slice s = do {
     rt_assert (stack_start \<noteq> 0);
     s1 \<leftarrow> rt_object_init (OThread t) Class_Thread name s;
     thread_setup rt_thread_exit_addr t entry parameter stack_start stack_size priority time_slice s1 }"

definition rt_thread_startup :: "nat \<Rightarrow> kstate \<Rightarrow> (rt_err \<times> kstate) option" where
  "rt_thread_startup t s = do {
     rt_assert (stat_of s t = RT_THREAD_INIT);
     rt_assert (rt_object_get_type (OThread t) s = Class_Thread);
     let p = th_init_priority (threads s t);
     m \<leftarrow> prio_mask p;
     let s1 = thr_upd t (\<lambda>th. th\<lparr>th_current_priority := p, th_number_mask := m,
                                 th_stat := RT_THREAD_SUSPEND\<rparr>) s;
     (_, s2) \<leftarrow> rt_thread_resume t s1;
     s3 \<leftarrow> (if rt_thread_self s2 \<noteq> None then rt_schedule s2 else Some s2);
     Some (RT_EOK, s3) }"

definition rt_thread_exit :: "kstate \<Rightarrow> kstate option" where
  "rt_thread_exit s = do {
     t \<leftarrow> rt_thread_self s;
     s1 \<leftarrow> rt_schedule_remove_thread t s;
     let s2 = thr_upd t (th_stat_update (\<lambda>_. RT_THREAD_CLOSE)) s1;
     (_, s3) \<leftarrow> rt_timer_detach (ThreadTimer t) s2;
     s4 \<leftarrow> (if rt_object_is_systemobject (OThread t) s3 \<and> th_cleanup (threads s3 t) = 0
            then Some (rt_object_detach (OThread t) s3)
            else rt_list_insert_after Defunct t s3);
     rt_schedule s4 }"

definition rt_thread_detach :: "nat \<Rightarrow> kstate \<Rightarrow> (rt_err \<times> kstate) option" where
  "rt_thread_detach t s = do {
     rt_assert (rt_object_get_type (OThread t) s = Class_Thread);
     rt_assert (rt_object_is_systemobject (OThread t) s);
     s1 \<leftarrow> (if stat_of s t \<noteq> RT_THREAD_INIT then rt_schedule_remove_thread t s else Some s);
     (_, s2) \<leftarrow> rt_timer_detach (ThreadTimer t) s1;
     let s3 = thr_upd t (th_stat_update (\<lambda>_. RT_THREAD_CLOSE)) s2;
     s4 \<leftarrow> (if rt_object_is_systemobject (OThread t) s3 \<and> th_cleanup (threads s3 t) = 0
            then Some (rt_object_detach (OThread t) s3)
            else rt_list_insert_after Defunct t s3);
     Some (RT_EOK, s4) }"

definition rt_thread_create :: "u32 \<Rightarrow> u8 list \<Rightarrow> u32 \<Rightarrow> u32 \<Rightarrow> u32 \<Rightarrow> u8 \<Rightarrow> u32 \<Rightarrow> kstate \<Rightarrow>
    (nat option \<times> kstate) option" where
  "rt_thread_create rt_thread_exit_addr name entry parameter stack_size priority time_slice s = do {
     (r, s1) \<leftarrow> rt_object_allocate OThread Class_Thread name s;
     case r of None \<Rightarrow> Some (None, s1)
     | Some t \<Rightarrow> do {
         (stack_start, h) \<leftarrow> rt_malloc (interrupt_nest s1) stack_size (kheap s1);
         let s2 = s1\<lparr>kheap := h\<rparr>;
         if stack_start = 0
         then do { s3 \<leftarrow> rt_object_delete (OThread t) t s2; Some (None, s3) }
         else do {
           (_, s3) \<leftarrow> thread_setup rt_thread_exit_addr t entry parameter stack_start stack_size priority
                        time_slice s2;
           Some (Some t, s3) } } }"

definition rt_thread_delete :: "nat \<Rightarrow> kstate \<Rightarrow> (rt_err \<times> kstate) option" where
  "rt_thread_delete t s = do {
     rt_assert (rt_object_get_type (OThread t) s = Class_Thread);
     rt_assert (\<not> rt_object_is_systemobject (OThread t) s);
     s1 \<leftarrow> (if stat_of s t \<noteq> RT_THREAD_INIT then rt_schedule_remove_thread t s else Some s);
     (_, s2) \<leftarrow> rt_timer_detach (ThreadTimer t) s1;
     let s3 = thr_upd t (th_stat_update (\<lambda>_. RT_THREAD_CLOSE)) s2;
     s4 \<leftarrow> rt_list_insert_after Defunct t s3;
     Some (RT_EOK, s4) }"

definition rt_thread_yield :: "kstate \<Rightarrow> (rt_err \<times> kstate) option" where
  "rt_thread_yield s = do { s1 \<leftarrow> rt_schedule s; Some (RT_EOK, s1) }"

definition rt_thread_sleep :: "u32 \<Rightarrow> kstate \<Rightarrow> (rt_err outcome \<times> kstate) option" where
  "rt_thread_sleep ticks s = do {
     t \<leftarrow> rt_thread_self s;
     rt_assert (rt_object_get_type (OThread t) s = Class_Thread);
     (_, s1) \<leftarrow> rt_thread_suspend t s;
     s2 \<leftarrow> timer_arm (ThreadTimer t) ticks s1;
     s3 \<leftarrow> rt_schedule s2;
     Some (Blocked, s3) }"

definition rt_thread_sleep_woken :: "nat \<Rightarrow> kstate \<Rightarrow> rt_err \<times> kstate" where
  "rt_thread_sleep_woken t s =
     (RT_EOK, if th_error (threads s t) = - RT_ETIMEOUT then set_error t RT_EOK s else s)"

definition rt_thread_delay :: "u32 \<Rightarrow> kstate \<Rightarrow> (rt_err outcome \<times> kstate) option" where
  "rt_thread_delay ticks s = rt_thread_sleep ticks s"

definition rt_tick_from_millisecond :: "32 word \<Rightarrow> u32" where
  "rt_tick_from_millisecond ms =
     (if sint ms < 0 then 0xffffffff
      else word_of_int (1000 * (sint ms div 1000))
         + word_of_int ((1000 * (sint ms mod 1000) + 999) div 1000))"

definition rt_thread_mdelay :: "32 word \<Rightarrow> kstate \<Rightarrow> (rt_err outcome \<times> kstate) option" where
  "rt_thread_mdelay ms s = rt_thread_sleep (rt_tick_from_millisecond ms) s"

definition change_priority :: "nat \<Rightarrow> u8 \<Rightarrow> kstate \<Rightarrow> kstate option" where
  "change_priority t p s =
     (let setp = (\<lambda>m. thr_upd t (\<lambda>th. th\<lparr>th_current_priority := p, th_number_mask := m\<rparr>)) in
      if stat_of s t = RT_THREAD_READY
      then do {
        s1 \<leftarrow> rt_schedule_remove_thread t s;
        m \<leftarrow> prio_mask p;
        rt_schedule_insert_thread t (setp m s1) }
      else do {
        m \<leftarrow> prio_mask p;
        Some (setp m s) })"

definition rt_thread_control :: "nat \<Rightarrow> nat \<Rightarrow> u8 \<Rightarrow> kstate \<Rightarrow> (rt_err \<times> kstate) option" where
  "rt_thread_control t cmd arg s = do {
     rt_assert (rt_object_get_type (OThread t) s = Class_Thread);
     if cmd = 2 then do { s1 \<leftarrow> change_priority t arg s; Some (RT_EOK, s1) }
     else if cmd = 0 then rt_thread_startup t s
     else if cmd = 1 then rt_thread_delete t s
     else Some (RT_EOK, s) }"

definition rt_thread_find :: "u8 list \<Rightarrow> kstate \<Rightarrow> (oid option \<times> kstate) option" where
  "rt_thread_find name s = do {
     let s1 = (if rt_thread_self s \<noteq> None then rt_enter_critical s else s);
     _ \<leftarrow> rt_object_get_information Class_Thread;
     r \<leftarrow> find_named name (objs s1) (containers s1 Class_Thread);
     s2 \<leftarrow> (if rt_thread_self s1 \<noteq> None then rt_exit_critical s1 else Some s1);
     Some (r, s2) }"

section \<open>The clock\<close>

definition rt_tick_get :: "kstate \<Rightarrow> u32" where
  "rt_tick_get s = tick s"

definition rt_tick_set :: "u32 \<Rightarrow> kstate \<Rightarrow> kstate" where
  "rt_tick_set t s = s\<lparr>tick := t\<rparr>"

text \<open>The timeout functions: a thread timer runs \<open>rt_thread_timeout\<close>, any other timer the
  application's function \<open>user\<close>, a parameter.\<close>

definition run_timeout :: "(nat \<Rightarrow> nat \<Rightarrow> kstate \<Rightarrow> kstate option) \<Rightarrow> timeout_fn \<Rightarrow> kstate \<Rightarrow> kstate option" where
  "run_timeout user f = (case f of Rt_thread_timeout t \<Rightarrow> rt_thread_timeout t
                         | User_timeout g p \<Rightarrow> user g p)"

definition rt_tick_increase :: "(nat \<Rightarrow> nat \<Rightarrow> kstate \<Rightarrow> kstate option) \<Rightarrow> kstate \<Rightarrow> kstate option" where
  "rt_tick_increase user s = do {
     let s1 = s\<lparr>tick := tick s + 1\<rparr>;
     t \<leftarrow> rt_thread_self s1;
     let s2 = thr_upd t (\<lambda>th. th\<lparr>th_remaining_tick := th_remaining_tick th - 1\<rparr>) s1;
     s3 \<leftarrow> (if th_remaining_tick (threads s2 t) = 0
            then do {
              (_, a) \<leftarrow> rt_thread_yield
                (thr_upd t (\<lambda>th. th\<lparr>th_remaining_tick := th_init_tick th\<rparr>) s2);
              Some a }
            else Some s2);
     rt_timer_check (run_timeout user) s3 }"

end
