(* ===== verification/Kinv.thy ===== *)
theory Kinv
  imports Thread
begin

text \<open>
  The invariant of the kernel's core, which every system call and the clock interrupt keep: the
  scheduler's invariant, the consistency of the timer list, and the types of the control blocks of
  started threads. The lemmas describe the effect of the timer and thread operations, on which the
  blocking and waking operations of the IPC objects are built.
\<close>

section \<open>Invariant\<close>

definition timer_entry_ok :: "kstate \<Rightarrow> timer_id \<Rightarrow> bool" where
  "timer_entry_ok s x \<longleftrightarrow> rt_object_get_type (OTimer x) s = Class_Timer \<and>
     timer_flag x s AND TIMER_ACTIVATED \<noteq> 0 \<and>
     (case x of ThreadTimer t \<Rightarrow> stat_of s t = RT_THREAD_SUSPEND
      | UserTimer a \<Rightarrow> (\<exists>f p. tm_func (timers s x) = User_timeout f p))"

definition timers_ok :: "kstate \<Rightarrow> bool" where
  "timers_ok s \<longleftrightarrow> distinct (timer_list s) \<and> (\<forall>x \<in> set (timer_list s). timer_entry_ok s x)"

definition typed_ok :: "kstate \<Rightarrow> nat \<Rightarrow> bool" where
  "typed_ok s t \<longleftrightarrow> rt_object_get_type (OThread t) s = Class_Thread \<and>
     rt_object_get_type (OTimer (ThreadTimer t)) s = Class_Timer \<and>
     timer_flag (ThreadTimer t) s AND TIMER_PERIODIC = 0 \<and>
     tm_func (timers s (ThreadTimer t)) = Rt_thread_timeout t"

definition started :: "kstate \<Rightarrow> nat \<Rightarrow> bool" where
  "started s t \<longleftrightarrow> stat_of s t \<in> {RT_THREAD_READY, RT_THREAD_SUSPEND, RT_THREAD_RUNNING}"

definition kinv :: "kstate \<Rightarrow> bool" where
  "kinv s \<longleftrightarrow> sched_inv s \<and> timers_ok s \<and> (\<forall>t. started s t \<longrightarrow> typed_ok s t) \<and> cur s \<noteq> None"

lemma kinvD:
  assumes "kinv s"
  shows "sched_inv s" "timers_ok s" "started s t \<Longrightarrow> typed_ok s t" "\<exists>c. cur s = Some c"
  using assms by (auto simp: kinv_def)

text \<open>The part of a thread the invariant looks at.\<close>

definition core_thr :: "rt_thread \<Rightarrow> u8 \<times> u8 \<times> u32 \<times> u32 \<times> u32 \<times> u32 \<times> u8 list" where
  "core_thr th = (th_stat th, th_current_priority th, th_number_mask th, th_sp th, th_stack_addr th,
     th_stack_size th, th_stack th)"

definition same_core :: "kstate \<Rightarrow> kstate \<Rightarrow> bool" where
  "same_core s s' \<longleftrightarrow> (\<forall>t. core_thr (threads s' t) = core_thr (threads s t)) \<and> lists s' = lists s \<and>
     tlink s' = tlink s \<and> ready_group s' = ready_group s \<and> cur s' = cur s \<and> objs s' = objs s \<and>
     timers s' = timers s \<and> timer_list s' = timer_list s"

lemma core_thr_eqs:
  assumes "core_thr (threads s' t) = core_thr (threads s t)"
  shows "stat_of s' t = stat_of s t" "prio_of s' t = prio_of s t" "stack_check t s' = stack_check t s"
    "runnable_ok s' t = runnable_ok s t" "th_number_mask (threads s' t) = th_number_mask (threads s t)"
  using assms by (auto simp: core_thr_def stat_of_def prio_of_def stack_check_def runnable_ok_def Let_def)

lemma same_core_stat:
  assumes "same_core s s'"
  shows "stat_of s' t = stat_of s t" "prio_of s' t = prio_of s t" "runnable_ok s' t = runnable_ok s t"
  using core_thr_eqs[of s' t s] assms by (auto simp: same_core_def)

lemma same_core_sched:
  assumes "same_core s s'"
  shows "sched_ok X s' = sched_ok X s"
proof -
  have "thr_ok s' t = thr_ok s t" for t
    using same_core_stat[OF assms, of t] assms by (simp add: thr_ok_def place_ok_def same_core_def split: option.split lhead.split)
  moreover have "links_ok s' = links_ok s" "group_ok s' = group_ok s"
    using links_group_cong[of s' s] assms by (auto simp: same_core_def)
  ultimately show ?thesis by (simp add: sched_ok_def)
qed

lemma same_core_kinv:
  assumes "same_core s s'"
  shows "kinv s' = kinv s"
proof -
  have "timer_entry_ok s' x = timer_entry_ok s x" for x
    using same_core_stat[OF assms] assms
    by (simp add: timer_entry_ok_def same_core_def rt_object_get_type_def timer_flag_def split: timer_id.split)
  moreover have "typed_ok s' t = typed_ok s t" for t
    using assms by (simp add: typed_ok_def same_core_def rt_object_get_type_def timer_flag_def)
  ultimately show ?thesis using same_core_sched[OF assms] same_core_stat[OF assms] assms
    by (simp add: kinv_def timers_ok_def started_def same_core_def)
qed

text \<open>Updates outside the core keep the invariant.\<close>

lemma kinv_upd [simp]:
  "kinv (s\<lparr>sems := a\<rparr>) = kinv s" "kinv (s\<lparr>mutexes := b\<rparr>) = kinv s" "kinv (s\<lparr>events := c\<rparr>) = kinv s"
  "kinv (s\<lparr>mailboxes := d\<rparr>) = kinv s" "kinv (s\<lparr>mqueues := e\<rparr>) = kinv s"
  "kinv (s\<lparr>mempools := f\<rparr>) = kinv s" "kinv (s\<lparr>mp_links := g\<rparr>) = kinv s" "kinv (s\<lparr>kheap := h\<rparr>) = kinv s"
  "kinv (s\<lparr>tick := i\<rparr>) = kinv s" "kinv (s\<lparr>interrupt_nest := j\<rparr>) = kinv s"
  "kinv (s\<lparr>lock_nest := k\<rparr>) = kinv s" "kinv (s\<lparr>random_nr := l\<rparr>) = kinv s"
  "kinv (s\<lparr>containers := m\<rparr>) = kinv s" "kinv (s\<lparr>cur_priority := n\<rparr>) = kinv s"
  "kinv (s\<lparr>kerrno := q\<rparr>) = kinv s"
  by (rule same_core_kinv, simp add: same_core_def)+

lemma kinv_thr [simp]:
  "kinv (set_error t e s) = kinv s"
  "kinv (thr_upd t (th_remaining_tick_update r) s) = kinv s"
  "kinv (thr_upd t (th_event_set_update w) s) = kinv s"
  "kinv (thr_upd t (\<lambda>th. th\<lparr>th_event_set := es, th_event_info := ei\<rparr>) s) = kinv s"
  by (rule same_core_kinv, simp add: same_core_def core_thr_def set_error_def)+

section \<open>Frames\<close>

text \<open>What the timer and thread operations leave alone: all but the scheduler's variables, the timer
  list, timer flags, and the status and error of threads.\<close>

definition core_frame :: "kstate \<Rightarrow> kstate \<Rightarrow> bool" where
  "core_frame s s' \<longleftrightarrow>
     s' = s\<lparr>threads := threads s', lists := lists s', tlink := tlink s', ready_group := ready_group s',
            cur := cur s', cur_priority := cur_priority s', timers := timers s',
            timer_list := timer_list s', objs := objs s', random_nr := random_nr s'\<rparr> \<and>
     (\<forall>t. threads s' t = (threads s t)\<lparr>th_stat := th_stat (threads s' t),
                                       th_error := th_error (threads s' t)\<rparr>) \<and>
     (\<forall>x. obj_type (objs s' x) = obj_type (objs s x)) \<and>
     (\<forall>x. (\<forall>y. x \<noteq> OTimer y) \<longrightarrow> objs s' x = objs s x) \<and>
     (\<forall>x. timer_flag x s' AND TIMER_PERIODIC = timer_flag x s AND TIMER_PERIODIC \<and>
          tm_func (timers s' x) = tm_func (timers s x))"

lemma core_frame_refl [simp, intro]: "core_frame s s"
  by (simp add: core_frame_def)

lemma core_frame_trans [trans]:
  assumes "core_frame a b" "core_frame b c"
  shows "core_frame a c"
proof -
  let ?u = "\<lambda>a b. a\<lparr>threads := threads b, lists := lists b, tlink := tlink b, ready_group := ready_group b,
            cur := cur b, cur_priority := cur_priority b, timers := timers b,
            timer_list := timer_list b, objs := objs b, random_nr := random_nr b\<rparr>"
  let ?w = "\<lambda>a b. a\<lparr>th_stat := th_stat b, th_error := th_error b\<rparr>"
  from assms(1) have b: "b = ?u a b" and tb: "\<And>t. threads b t = ?w (threads a t) (threads b t)"
    by (auto simp: core_frame_def)
  from assms(2) have c: "c = ?u b c" and tc: "\<And>t. threads c t = ?w (threads b t) (threads c t)"
    by (auto simp: core_frame_def)
  have "c = ?u a c" by (subst c, subst b) simp
  moreover have "threads c t = ?w (threads a t) (threads c t)" for t
    by (subst tc, subst tb) simp
  ultimately show ?thesis using assms unfolding core_frame_def by auto
qed

lemma sched_core_frame:
  assumes "sched_frame s s'"
  shows "core_frame s s'"
proof -
  from assms have e: "s' = s\<lparr>threads := threads s', lists := lists s', tlink := tlink s',
     ready_group := ready_group s', cur := cur s', cur_priority := cur_priority s'\<rparr>"
    and tb: "\<And>t. threads s' t = (threads s t)\<lparr>th_stat := th_stat (threads s' t)\<rparr>"
    by (auto simp: sched_frame_def)
  note d = sched_frameD[OF assms]
  have "s' = s\<lparr>threads := threads s', lists := lists s', tlink := tlink s', ready_group := ready_group s',
            cur := cur s', cur_priority := cur_priority s', timers := timers s',
            timer_list := timer_list s', objs := objs s', random_nr := random_nr s'\<rparr>"
    by (subst e) (simp add: d)
  moreover have "threads s' t = (threads s t)\<lparr>th_stat := th_stat (threads s' t),
                                       th_error := th_error (threads s' t)\<rparr>" for t
    by (subst tb) (simp add: d)
  ultimately show ?thesis unfolding core_frame_def by (auto simp: d timer_flag_def)
qed

lemma core_frameD:
  assumes "core_frame s s'"
  shows "containers s' = containers s" "tick s' = tick s" "lock_nest s' = lock_nest s"
    "interrupt_nest s' = interrupt_nest s" "sems s' = sems s" "mutexes s' = mutexes s"
    "events s' = events s" "mailboxes s' = mailboxes s" "mqueues s' = mqueues s"
    "mempools s' = mempools s" "mp_links s' = mp_links s" "kheap s' = kheap s"
    "prio_of s' t = prio_of s t"
    "th_event_set (threads s' t) = th_event_set (threads s t)"
    "th_event_info (threads s' t) = th_event_info (threads s t)"
    "th_current_priority (threads s' t) = th_current_priority (threads s t)"
    "runnable_ok s' t = runnable_ok s t" "typed_ok s' t = typed_ok s t"
    "obj_type (objs s' x) = obj_type (objs s x)"
    "rt_object_get_type x s' = rt_object_get_type x s"
    "(\<And>y. x \<noteq> OTimer y) \<Longrightarrow> objs s' x = objs s x"
    "tm_func (timers s' y) = tm_func (timers s y)"
proof -
  from assms have e: "s' = s\<lparr>threads := threads s', lists := lists s', tlink := tlink s',
     ready_group := ready_group s', cur := cur s', cur_priority := cur_priority s', timers := timers s',
            timer_list := timer_list s', objs := objs s', random_nr := random_nr s'\<rparr>"
    and tb: "threads s' t = (threads s t)\<lparr>th_stat := th_stat (threads s' t),
                                       th_error := th_error (threads s' t)\<rparr>"
    by (auto simp: core_frame_def)
  show "containers s' = containers s" "tick s' = tick s" "lock_nest s' = lock_nest s"
    "interrupt_nest s' = interrupt_nest s" "sems s' = sems s" "mutexes s' = mutexes s"
    "events s' = events s" "mailboxes s' = mailboxes s" "mqueues s' = mqueues s"
    "mempools s' = mempools s" "mp_links s' = mp_links s" "kheap s' = kheap s"
    by (subst e, simp)+
  show "prio_of s' t = prio_of s t" "th_event_set (threads s' t) = th_event_set (threads s t)"
    "th_event_info (threads s' t) = th_event_info (threads s t)"
    "th_current_priority (threads s' t) = th_current_priority (threads s t)"
    "runnable_ok s' t = runnable_ok s t"
    by (simp_all add: prio_of_def runnable_ok_def stack_check_def Let_def, (subst tb, simp)+)
  show "obj_type (objs s' x) = obj_type (objs s x)" "rt_object_get_type x s' = rt_object_get_type x s"
    "(\<And>y. x \<noteq> OTimer y) \<Longrightarrow> objs s' x = objs s x" "tm_func (timers s' y) = tm_func (timers s y)"
    "typed_ok s' t = typed_ok s t"
    using assms by (auto simp: core_frame_def rt_object_get_type_def typed_ok_def)
qed

lemma set_error_simps [simp]:
  "lists (set_error t e s) = lists s" "tlink (set_error t e s) = tlink s" "cur (set_error t e s) = cur s"
  "ready_group (set_error t e s) = ready_group s" "lock_nest (set_error t e s) = lock_nest s"
  "objs (set_error t e s) = objs s" "timers (set_error t e s) = timers s"
  "timer_list (set_error t e s) = timer_list s" "tick (set_error t e s) = tick s"
  "interrupt_nest (set_error t e s) = interrupt_nest s"
  "stat_of (set_error t e s) u = stat_of s u" "prio_of (set_error t e s) u = prio_of s u"
  "u \<noteq> t \<Longrightarrow> threads (set_error t e s) u = threads s u"
  "th_error (threads (set_error t e s) t) = e" "rt_object_get_type x (set_error t e s) = rt_object_get_type x s"
  by (simp_all add: set_error_def stat_of_def prio_of_def rt_object_get_type_def)

lemma core_frame_error: "core_frame s (set_error t e s)"
  by (simp add: core_frame_def set_error_def thr_upd_def timer_flag_def)

section \<open>Timers\<close>

definition same_sched :: "kstate \<Rightarrow> kstate \<Rightarrow> bool" where
  "same_sched s s' \<longleftrightarrow> threads s' = threads s \<and> lists s' = lists s \<and> tlink s' = tlink s \<and>
     ready_group s' = ready_group s \<and> cur s' = cur s"

lemma same_schedD:
  assumes "same_sched s s'"
  shows "threads s' = threads s" "lists s' = lists s" "tlink s' = tlink s" "ready_group s' = ready_group s"
    "cur s' = cur s" "stat_of s' t = stat_of s t" "prio_of s' t = prio_of s t" "started s' t = started s t"
    "sched_ok X s' = sched_ok X s" "runnable_ok s' t = runnable_ok s t" "thr_ok s' t = thr_ok s t"
proof -
  show "threads s' = threads s" "lists s' = lists s" "tlink s' = tlink s" "ready_group s' = ready_group s"
    "cur s' = cur s" "stat_of s' t = stat_of s t" "prio_of s' t = prio_of s t" "started s' t = started s t"
    "runnable_ok s' t = runnable_ok s t"
    using assms by (simp_all add: same_sched_def stat_of_def prio_of_def started_def runnable_ok_def
        stack_check_def Let_def)
  have t: "thr_ok s' t = thr_ok s t" for t
    by (rule thr_ok_cong) (use assms in \<open>simp_all add: same_sched_def\<close>)
  then show "thr_ok s' t = thr_ok s t" .
  show "sched_ok X s' = sched_ok X s"
    using t links_group_cong[of s' s] assms by (simp add: sched_ok_def same_sched_def)
qed

lemma timer_stop_ok:
  assumes ok: "timers_ok s" and ty: "rt_object_get_type (OTimer x) s = Class_Timer"
  shows "\<exists>r s'. rt_timer_stop x s = Some (r, s') \<and> timers_ok s' \<and> core_frame s s' \<and> same_sched s s' \<and>
    timer_list s' = removeAll x (timer_list s) \<and> timers s' = timers s \<and>
    (\<forall>y. y \<noteq> x \<longrightarrow> timer_flag y s' = timer_flag y s)"
proof (cases "timer_flag x s AND TIMER_ACTIVATED = 0")
  case True
  then have "x \<notin> set (timer_list s)" using ok by (auto simp: timers_ok_def timer_entry_ok_def)
  with True ok ty show ?thesis
    by (simp add: rt_timer_stop_def removeAll_id same_sched_def)
next
  case False
  let ?s = "set_timer_flag x (\<lambda>f. f AND NOT TIMER_ACTIVATED) (rt_timer_remove x s)"
  have run: "rt_timer_stop x s = Some (RT_EOK, ?s)" using False ty by (simp add: rt_timer_stop_def)
  have tl: "timer_list ?s = removeAll x (timer_list s)"
    using ok by (simp add: set_timer_flag_def rt_timer_remove_def distinct_remove1_removeAll timers_ok_def)
  have e: "timer_entry_ok ?s y = timer_entry_ok s y" if "y \<noteq> x" for y
    using that by (simp add: timer_entry_ok_def set_timer_flag_def rt_timer_remove_def timer_flag_def
        rt_object_get_type_def stat_of_def split: timer_id.split)
  have "timers_ok ?s" using ok e unfolding timers_ok_def tl by (auto simp: distinct_removeAll)
  moreover have "(f AND NOT 1) AND 2 = f AND 2" for f :: u8
    by (rule bit_word_eqI) (auto simp: bit_simps)
  then have "core_frame s ?s"
    by (auto simp: core_frame_def set_timer_flag_def rt_timer_remove_def timer_flag_def obj_upd_def)
  moreover have "same_sched s ?s"
    by (simp add: same_sched_def set_timer_flag_def rt_timer_remove_def)
  moreover have "timers ?s = timers s" by (simp add: set_timer_flag_def rt_timer_remove_def)
  moreover have "\<forall>y. y \<noteq> x \<longrightarrow> timer_flag y ?s = timer_flag y s" by simp
  ultimately show ?thesis using run tl by blast
qed

lemma set_timer_insert [simp]: "set (timer_insert f w x ts) = insert x (set ts)"
  by (induction ts) auto

lemma distinct_timer_insert: "distinct ts \<Longrightarrow> x \<notin> set ts \<Longrightarrow> distinct (timer_insert f w x ts)"
  by (induction ts) auto

lemma remove_timer_insert: "x \<notin> set ts \<Longrightarrow> remove1 x (timer_insert f w x ts) = ts"
  by (induction ts) auto

lemma timer_insert_cong:
  "(\<And>y. y \<in> set ts \<Longrightarrow> f y = g y) \<Longrightarrow> timer_insert f w x ts = timer_insert g w x ts"
  by (induction ts) auto

lemma timer_start_ok:
  assumes ok: "timers_ok s" and ty: "rt_object_get_type (OTimer x) s = Class_Timer"
    and small: "tm_init_tick (timers s x) < RT_TICK_MAX div 2"
    and st: "case x of ThreadTimer t \<Rightarrow> stat_of s t = RT_THREAD_SUSPEND
      | UserTimer a \<Rightarrow> (\<exists>f p. tm_func (timers s x) = User_timeout f p)"
  shows "\<exists>s'. rt_timer_start x s = Some (RT_EOK, s') \<and> timers_ok s' \<and> core_frame s s' \<and> same_sched s s' \<and>
    timer_list s' = timer_insert (\<lambda>y. tm_timeout_tick (timers s y)) (tick s + tm_init_tick (timers s x)) x
      (removeAll x (timer_list s)) \<and>
    tm_timeout_tick (timers s' x) = tick s + tm_init_tick (timers s x) \<and>
    (\<forall>y. y \<noteq> x \<longrightarrow> timers s' y = timers s y \<and> timer_flag y s' = timer_flag y s) \<and>
    tm_init_tick (timers s' x) = tm_init_tick (timers s x)"
proof -
  let ?w = "tick s + tm_init_tick (timers s x)"
  let ?tl = "timer_insert (\<lambda>y. tm_timeout_tick (timers s y)) ?w x (removeAll x (timer_list s))"
  from ty small obtain s' where s': "rt_timer_start x s = Some (RT_EOK, s')"
    by (simp add: rt_timer_start_def set_timer_flag_def rt_timer_remove_def rt_object_get_type_def Let_def)
  have rm: "remove1 x (timer_list s) = removeAll x (timer_list s)"
    using ok by (simp add: timers_ok_def distinct_remove1_removeAll)
  have tl0: "timer_insert (\<lambda>y. tm_timeout_tick (((timers s)(x := m)) y)) v x (removeAll x (timer_list s)) =
      timer_insert (\<lambda>y. tm_timeout_tick (timers s y)) v x (removeAll x (timer_list s))" for m v
    by (rule timer_insert_cong) auto
  have tl: "timer_list s' = ?tl"
    using s' ty small tl0 unfolding rt_timer_start_def Let_def set_timer_flag_def rt_timer_remove_def
    by (auto simp: rm)
  have same: "same_sched s s'"
    using s' ty small unfolding rt_timer_start_def Let_def set_timer_flag_def rt_timer_remove_def
    by (auto simp: same_sched_def)
  have tm: "timers s' = (timers s)(x := (timers s x)\<lparr>tm_timeout_tick := ?w\<rparr>)"
    using s' ty small unfolding rt_timer_start_def Let_def set_timer_flag_def rt_timer_remove_def by auto
  have ob: "objs s' = (objs s)(OTimer x := (objs s (OTimer x))\<lparr>obj_flag :=
      (timer_flag x s AND NOT 1) OR 1\<rparr>)"
    using s' ty small unfolding rt_timer_start_def Let_def set_timer_flag_def rt_timer_remove_def
    by (auto simp: timer_flag_def)
  have e: "timer_entry_ok s' y = timer_entry_ok s y" if "y \<noteq> x" for y
    using that ob tm same_schedD(6)[OF same]
    by (simp add: timer_entry_ok_def timer_flag_def rt_object_get_type_def split: timer_id.split)
  have act: "((f AND NOT 1) OR 1) AND 1 \<noteq> 0" for f :: u8
  proof -
    have "((f AND NOT 1) OR 1) AND 1 = (1 :: u8)" by (rule bit_word_eqI) (auto simp: bit_simps)
    then show ?thesis by simp
  qed
  have "timer_entry_ok s' x"
    using st ty ob tm same_schedD(6)[OF same] act[of "timer_flag x s"]
    by (simp add: timer_entry_ok_def timer_flag_def rt_object_get_type_def split: timer_id.splits)
  then have "timer_entry_ok s' y" if "y = x \<or> timer_entry_ok s y" for y
    using e[of y] that by (cases "y = x") auto
  then have "timers_ok s'"
    using ok by (auto simp: timers_ok_def tl distinct_timer_insert distinct_removeAll)
  moreover have "((f AND NOT 1) OR 1) AND 2 = f AND 2" for f :: u8
    by (rule bit_word_eqI) (auto simp: bit_simps)
  then have "core_frame s s'"
    using s' ty small ob tm unfolding rt_timer_start_def Let_def set_timer_flag_def rt_timer_remove_def
    by (auto simp: core_frame_def timer_flag_def tm_upd_def obj_upd_def)
  ultimately show ?thesis using s' same tl tm ob by (auto simp: timer_flag_def)
qed

section \<open>Threads\<close>

lemma stat_of_cong: "threads s' t = threads s t \<Longrightarrow> stat_of s' t = stat_of s t"
  by (simp add: stat_of_def)

lemma timers_ok_cong:
  assumes "timers_ok s" "timer_list s' = timer_list s" "objs s' = objs s" "timers s' = timers s"
    and "\<And>t. ThreadTimer t \<in> set (timer_list s) \<Longrightarrow> stat_of s' t = RT_THREAD_SUSPEND"
  shows "timers_ok s'"
proof -
  have "timer_entry_ok s' x" if "x \<in> set (timer_list s)" for x
  proof -
    have "timer_entry_ok s x" using assms(1) that by (simp add: timers_ok_def)
    then show ?thesis using assms(3-5) that
      by (cases x) (simp_all add: timer_entry_ok_def timer_flag_def rt_object_get_type_def)
  qed
  with assms(1,2) show ?thesis by (simp add: timers_ok_def)
qed

lemma timers_ok_stat:
  "timers_ok s \<Longrightarrow> ThreadTimer t \<in> set (timer_list s) \<Longrightarrow> stat_of s t = RT_THREAD_SUSPEND"
  by (auto simp: timers_ok_def timer_entry_ok_def)

lemma rt_schedule_kinv:
  assumes "kinv s"
  shows "\<exists>s'. rt_schedule s = Some s' \<and> kinv s' \<and> sched_frame s s' \<and>
    (\<forall>t. started s' t = started s t \<and> (stat_of s' t = RT_THREAD_SUSPEND \<longleftrightarrow> stat_of s t = RT_THREAD_SUSPEND))"
proof -
  note k = kinvD[OF assms]
  from k(4) obtain c where c: "cur s = Some c" by blast
  have "\<exists>s'. rt_schedule s = Some s' \<and> sched_inv s' \<and> sched_frame s s' \<and> cur s' \<noteq> None \<and>
    (\<forall>t. started s' t = started s t \<and> (stat_of s' t = RT_THREAD_SUSPEND \<longleftrightarrow> stat_of s t = RT_THREAD_SUSPEND))"
  proof (cases "lock_nest s \<noteq> 0 \<or> (\<forall>p. lists s (ReadyQ p) = []) \<or>
      stat_of s c = RT_THREAD_RUNNING \<and> (\<forall>p \<le> prio_of s c. lists s (ReadyQ p) = [])")
    case True
    with rt_schedule_stay[OF k(1) c] k(1) c show ?thesis by auto
  next
    case False
    then have "ready_group s \<noteq> 0" using sched_okD(2)[OF k(1)] by (auto simp: group_ok_def)
    then obtain p t ts where hf: "highest_first s p t ts" using highest_first_ex[OF k(1)] by blast
    have low: "p \<le> prio_of s c" if "stat_of s c = 3"
      using False that hf by (metis highest_first_def linorder_not_le order_less_le_trans)
    have lock: "lock_nest s = 0" using False by blast
    have tl: "tlink s t = Some (ReadyQ p)"
      using hf links_okD(1)[OF sched_okD(1)[OF k(1)], of t "ReadyQ p"] by (simp add: highest_first_def)
    have t: "stat_of s t = 1" using thr_okD(1)[OF sched_okD(3)[OF k(1)] tl] by simp
    from rt_schedule_switch[OF k(1) c lock hf low] obtain s' where s':
      "rt_schedule s = Some s'" "sched_inv s'" "cur s' = Some t" "stat_of s' t = 3" "sched_frame s s'"
      "\<And>u. u \<noteq> c \<Longrightarrow> u \<noteq> t \<Longrightarrow> threads s' u = threads s u"
      "stat_of s' c = (if stat_of s c = 3 then 1 else stat_of s c)" by blast
    have "started s' u = started s u \<and> (stat_of s' u = 2 \<longleftrightarrow> stat_of s u = 2)" for u
    proof -
      consider "u = t" | "u = c" "u \<noteq> t" | "u \<noteq> t" "u \<noteq> c" by blast
      then show ?thesis
        by cases (use s'(4,7) t stat_of_cong[OF s'(6)] in \<open>auto simp: started_def\<close>)
    qed
    with s' show ?thesis by auto
  qed
  then obtain s' where s': "rt_schedule s = Some s'" "sched_inv s'" "sched_frame s s'" "cur s' \<noteq> None"
    "\<And>t. started s' t = started s t" "\<And>t. stat_of s' t = 2 \<longleftrightarrow> stat_of s t = 2" by blast
  note f = sched_frameD[OF s'(3)]
  have "timers_ok s'" by (rule timers_ok_cong[OF k(2)]) (use f s'(6) timers_ok_stat[OF k(2)] in auto)
  moreover have "typed_ok s' t" if "started s' t" for t
    using k(3)[of t] that s'(5)[of t] core_frameD(18)[OF sched_core_frame[OF s'(3)], of t] by simp
  ultimately have "kinv s'" using s' by (auto simp: kinv_def)
  with s' show ?thesis by blast
qed

lemma set_stat_suspend_ok:
  assumes "sched_ok {t} s" "tlink s t = None" "runnable_ok s t"
  shows "sched_inv (set_stat t 2 s)"
proof -
  have "thr_ok (set_stat t 2 s) u" for u
  proof (cases "u = t")
    case True
    with assms(2,3) show ?thesis by (simp add: thr_ok_def place_ok_def)
  next
    case False
    then have "thr_ok (set_stat t 2 s) u = thr_ok s u"
      by (intro thr_ok_cong) (simp_all add: set_stat_def)
    with False sched_okD(3)[OF assms(1), of u] show ?thesis by simp
  qed
  then show ?thesis using sched_okD(1,2)[OF assms(1)] links_group_cong[of "set_stat t 2 s" s]
    by (simp add: sched_ok_def)
qed

lemma unlinked_sched_ok:
  assumes "sched_inv s" "links_ok (unlinked t g s)" "group_ok (unlinked t g s)"
  shows "sched_ok {t} (unlinked t g s)"
proof -
  have "thr_ok (unlinked t g s) u = thr_ok s u" if "u \<noteq> t" for u
    using that by (intro thr_ok_cong) simp_all
  with assms sched_okD(3)[OF assms(1)] show ?thesis by (auto simp: sched_ok_def)
qed

text \<open>What suspending or waking a thread does to the kernel: it changes only that thread.\<close>

definition thr_step :: "nat \<Rightarrow> kstate \<Rightarrow> kstate \<Rightarrow> bool" where
  "thr_step t s s' \<longleftrightarrow> kinv s' \<and> core_frame s s' \<and> cur s' = cur s \<and>
     (\<forall>u. u \<noteq> t \<longrightarrow> threads s' u = threads s u) \<and>
     th_error (threads s' t) = th_error (threads s t) \<and>
     timer_list s' = removeAll (ThreadTimer t) (timer_list s) \<and> timers s' = timers s \<and>
     (\<forall>y. y \<noteq> ThreadTimer t \<longrightarrow> timer_flag y s' = timer_flag y s)"

lemma rt_thread_suspend_ok:
  assumes inv: "kinv s" and st: "stat_of s t = RT_THREAD_READY \<or> cur s = Some t \<and> stat_of s t = RT_THREAD_RUNNING"
  shows "\<exists>s'. rt_thread_suspend t s = Some (RT_EOK, s') \<and> thr_step t s s' \<and>
    stat_of s' t = RT_THREAD_SUSPEND \<and> tlink s' t = None \<and> lists s' = (\<lambda>h. removeAll t (lists s h))"
proof -
  note k = kinvD[OF inv]
  note ok = sched_okD[OF k(1)]
  have ty: "typed_ok s t" using k(3)[of t] st by (auto simp: started_def)
  have r1: "runnable_ok s t" using thr_okD(2,4)[OF ok(3), of t] st by blast
  have r2: "tlink s t = Some (ReadyQ p) \<Longrightarrow> p = prio_of s t" for p
    using thr_okD(1)[OF ok(3), of t p] by blast
  note r = r1 r2
  from rt_schedule_remove_thread_eq[OF ok(1,2) r] obtain g where
    g: "rt_schedule_remove_thread t s = Some (unlinked t g s)" "links_ok (unlinked t g s)"
      "group_ok (unlinked t g s)" by blast
  let ?s2 = "set_stat t 2 (unlinked t g s)"
  have inv2: "sched_inv ?s2"
    by (rule set_stat_suspend_ok[OF unlinked_sched_ok[OF k(1) g(2,3)]]) (use r(1) in auto)
  have n: "ThreadTimer t \<notin> set (timer_list s)" using timers_ok_stat[OF k(2), of t] st by auto
  have "timers_ok ?s2"
  proof (rule timers_ok_cong[OF k(2)])
    fix u assume u: "ThreadTimer u \<in> set (timer_list s)"
    then show "stat_of ?s2 u = 2" using timers_ok_stat[OF k(2) u] by (cases "u = t") auto
  qed auto
  moreover have "rt_object_get_type (OTimer (ThreadTimer t)) ?s2 = 10"
    using ty by (simp add: typed_ok_def rt_object_get_type_def)
  ultimately obtain r s3 where s3: "rt_timer_stop (ThreadTimer t) ?s2 = Some (r, s3)" "timers_ok s3"
    "core_frame ?s2 s3" "same_sched ?s2 s3" "timer_list s3 = removeAll (ThreadTimer t) (timer_list s)"
    "timers s3 = timers s" "\<And>y. y \<noteq> ThreadTimer t \<Longrightarrow> timer_flag y s3 = timer_flag y ?s2"
    using timer_stop_ok[of ?s2 "ThreadTimer t"] by auto
  note sm = same_schedD[OF s3(4)]
  have run: "rt_thread_suspend t s = Some (RT_EOK, s3)"
    using ty st g(1) s3(1) by (auto simp: rt_thread_suspend_def typed_ok_def)
  have cf: "core_frame s ?s2"
    by (auto simp: core_frame_def set_stat_def thr_upd_def unlinked_def timer_flag_def)
  have cf3: "core_frame s s3" by (rule core_frame_trans[OF cf s3(3)])
  have "started s3 u \<Longrightarrow> started s u" for u
    using sm(6)[of u] st by (cases "u = t") (auto simp: started_def)
  then have "kinv s3"
    using inv2 s3(2) sm(5,9) k(3,4) core_frameD(18)[OF cf3] by (auto simp: kinv_def)
  then have "thr_step t s s3"
    unfolding thr_step_def using cf3 sm(1,5) s3(5-7) by (simp add: set_stat_def timer_flag_def)
  then show ?thesis using run sm by (intro exI[of _ s3]) auto
qed

lemma list_remove_suspended:
  assumes inv: "sched_inv s" and st: "stat_of s t = RT_THREAD_SUSPEND"
  shows "rt_list_remove t s = unlinked t (ready_group s) s" "sched_inv (unlinked t (ready_group s) s)"
proof -
  note ok = sched_okD[OF inv]
  show "rt_list_remove t s = unlinked t (ready_group s) s" by (rule rt_list_remove_eq[OF ok(1)])
  let ?s = "unlinked t (ready_group s) s"
  have "removeAll t (lists s (ReadyQ p)) = lists s (ReadyQ p)" for p
  proof -
    have "tlink s t \<noteq> Some (ReadyQ p)" using thr_okD(1)[OF ok(3), of t p] st by auto
    then show ?thesis using links_okD(1)[OF ok(1), of t "ReadyQ p"] by (simp add: removeAll_id)
  qed
  then have "group_ok ?s" using ok(2) by (simp add: group_ok_def)
  then have "sched_ok {t} ?s" using unlinked_sched_ok[OF inv] unlinked_links_ok[OF ok(1)] by blast
  moreover have "thr_ok ?s t" using ok(3)[of t] st by (simp add: thr_ok_def place_ok_def)
  ultimately show "sched_inv ?s" using sched_ok_close[of "{t}" ?s] by auto
qed

lemma insert_thread_ok:
  assumes inv: "sched_inv s" and st: "stat_of s t = RT_THREAD_SUSPEND" "tlink s t = None"
  shows "\<exists>s'. rt_schedule_insert_thread t s = Some s' \<and> sched_inv s' \<and> sched_frame s s' \<and> cur s' = cur s \<and>
    (\<forall>u. u \<noteq> t \<longrightarrow> threads s' u = threads s u) \<and>
    stat_of s' t = (if cur s = Some t then RT_THREAD_RUNNING else RT_THREAD_READY) \<and>
    lists s' = (\<lambda>h. lists s h @ (if cur s \<noteq> Some t \<and> h = ReadyQ (prio_of s t) then [t] else []))"
proof -
  note ok = sched_okD[OF inv]
  have r: "runnable_ok s t" using thr_okD(3)[OF ok(3)] st by blast
  have oth: "thr_ok s' u" if "u \<noteq> t" "threads s' u = threads s u" "tlink s' u = tlink s u" "cur s' = cur s" for s' u
    using thr_ok_cong[of s' u s] that ok(3)[of u] by simp
  show ?thesis
  proof (cases "cur s = Some t")
    case True
    have "thr_ok (set_stat t 3 s) t" using True r st by (simp add: thr_ok_def place_ok_def)
    moreover have "thr_ok (set_stat t 3 s) u" if "u \<noteq> t" for u
      using oth[OF that, of "set_stat t 3 s"] that by (simp add: set_stat_def)
    ultimately have "thr_ok (set_stat t 3 s) u" for u by (cases "u = t") auto
    then have "sched_inv (set_stat t 3 s)"
      using links_group_cong[of "set_stat t 3 s" s] ok(1,2) by (simp add: sched_ok_def)
    moreover have "threads (set_stat t 3 s) u = threads s u" if "u \<noteq> t" for u
      using that by (simp add: set_stat_def)
    ultimately show ?thesis using True frame_set_stat by (auto simp: rt_schedule_insert_thread_def)
  next
    case False
    let ?p = "prio_of s t"
    from rt_schedule_insert_thread_eq[OF ok(1,2) r st(2) False] obtain g where g:
      "rt_schedule_insert_thread t s = Some (linked (ReadyQ ?p) (lists s (ReadyQ ?p)) t [] g (set_stat t 1 s))"
      "links_ok (linked (ReadyQ ?p) (lists s (ReadyQ ?p)) t [] g (set_stat t 1 s))"
      "group_ok (linked (ReadyQ ?p) (lists s (ReadyQ ?p)) t [] g (set_stat t 1 s))"
      by (auto simp: Let_def)
    let ?s = "linked (ReadyQ ?p) (lists s (ReadyQ ?p)) t [] g (set_stat t 1 s)"
    have "thr_ok ?s t" using False r by (simp add: thr_ok_def place_ok_def)
    moreover have "thr_ok ?s u" if "u \<noteq> t" for u
      using oth[OF that, of ?s] that by (simp add: set_stat_def)
    ultimately have "thr_ok ?s u" for u by (cases "u = t") auto
    then have "sched_inv ?s" using g(2,3) by (simp add: sched_ok_def)
    moreover have "sched_frame s ?s" by (rule sched_frame_trans[OF frame_set_stat frame_linked])
    moreover have "lists ?s = (\<lambda>h. lists s h @ (if cur s \<noteq> Some t \<and> h = ReadyQ ?p then [t] else []))"
      using False by auto
    moreover have "threads ?s u = threads s u" if "u \<noteq> t" for u using that by (simp add: set_stat_def)
    ultimately show ?thesis using g(1) False by (intro exI[of _ ?s]) simp
  qed
qed

lemma core_frame_unlinked: "core_frame s (unlinked t g s)"
  by (simp add: core_frame_def unlinked_def timer_flag_def)

lemma core_frame_set_stat: "core_frame s (set_stat t st s)"
  by (rule sched_core_frame[OF frame_set_stat])

lemma started_typed:
  assumes "kinv s" "core_frame s s'" "\<And>u. started s' u \<Longrightarrow> started s u" "started s' u"
  shows "typed_ok s' u"
  using kinvD(3)[OF assms(1), of u] core_frameD(18)[OF assms(2), of u] assms(3)[OF assms(4)] by simp

lemma rt_thread_resume_ok:
  assumes inv: "kinv s" and st: "stat_of s t = RT_THREAD_SUSPEND"
  shows "\<exists>s'. rt_thread_resume t s = Some (RT_EOK, s') \<and> thr_step t s s' \<and>
    stat_of s' t = (if cur s = Some t then RT_THREAD_RUNNING else RT_THREAD_READY) \<and>
    lists s' = (\<lambda>h. removeAll t (lists s h) @
                    (if cur s \<noteq> Some t \<and> h = ReadyQ (prio_of s t) then [t] else []))"
proof -
  note k = kinvD[OF inv]
  have ty: "typed_ok s t" using k(3)[of t] st by (auto simp: started_def)
  let ?s1 = "unlinked t (ready_group s) s"
  note rm = list_remove_suspended[OF k(1) st]
  have "timers_ok ?s1" by (rule timers_ok_cong[OF k(2)]) (use timers_ok_stat[OF k(2)] in auto)
  moreover have "rt_object_get_type (OTimer (ThreadTimer t)) ?s1 = 10"
    using ty by (simp add: typed_ok_def rt_object_get_type_def)
  ultimately obtain r s2 where s2: "rt_timer_stop (ThreadTimer t) ?s1 = Some (r, s2)" "timers_ok s2"
    "core_frame ?s1 s2" "same_sched ?s1 s2" "timer_list s2 = removeAll (ThreadTimer t) (timer_list s)"
    "timers s2 = timers s" "\<And>y. y \<noteq> ThreadTimer t \<Longrightarrow> timer_flag y s2 = timer_flag y ?s1"
    using timer_stop_ok[of ?s1 "ThreadTimer t"] by auto
  note sm = same_schedD[OF s2(4)]
  have inv2: "sched_inv s2" using sm(9) rm(2) by simp
  have st2: "stat_of s2 t = 2" "tlink s2 t = None" using sm(6)[of t] sm(3) st by simp_all
  from insert_thread_ok[OF inv2 st2] obtain s3 where s3:
    "rt_schedule_insert_thread t s2 = Some s3" "sched_inv s3" "sched_frame s2 s3" "cur s3 = cur s2"
    "\<And>u. u \<noteq> t \<Longrightarrow> threads s3 u = threads s2 u"
    "stat_of s3 t = (if cur s2 = Some t then 3 else 1)"
    "lists s3 = (\<lambda>h. lists s2 h @ (if cur s2 \<noteq> Some t \<and> h = ReadyQ (prio_of s2 t) then [t] else []))" by blast
  note f3 = sched_frameD[OF s3(3)]
  have cf: "core_frame s s3"
    by (rule core_frame_trans[OF core_frame_unlinked core_frame_trans[OF s2(3) sched_core_frame[OF s3(3)]]])
  have tm3: "timers_ok s3"
  proof (rule timers_ok_cong[OF s2(2)])
    fix u assume u: "ThreadTimer u \<in> set (timer_list s2)"
    then have "u \<noteq> t" using s2(5) by auto
    then show "stat_of s3 u = 2" using timers_ok_stat[OF s2(2) u] stat_of_cong[OF s3(5)] by simp
  qed (simp_all add: f3)
  have "started s u" if "started s3 u" for u
    using that st stat_of_cong[OF s3(5), of u] sm(6)[of u] by (cases "u = t") (auto simp: started_def)
  then have "kinv s3"
    unfolding kinv_def using s3(2,4) tm3 sm(5) k(4) started_typed[OF inv cf] by auto
  moreover have "th_error (threads s3 t) = th_error (threads s t)" using f3(18)[of t] sm(1) by simp
  ultimately have "thr_step t s s3"
    unfolding thr_step_def using cf s3(4,5) sm(1,5) s2(5-7) f3(1,3,4) by (simp add: timer_flag_def)
  moreover have "rt_thread_resume t s = Some (RT_EOK, s3)"
    using ty st rm(1) s2(1) s3(1) by (simp add: rt_thread_resume_def typed_ok_def)
  ultimately show ?thesis using s3(6,7) sm by (intro exI[of _ s3]) simp
qed

lemma rt_thread_resume_refused:
  assumes "kinv s" "started s t" "stat_of s t \<noteq> RT_THREAD_SUSPEND"
  shows "rt_thread_resume t s = Some (- RT_ERROR, s)"
  using kinvD(3)[OF assms(1,2)] assms(3) by (simp add: rt_thread_resume_def typed_ok_def)

lemma rt_thread_timeout_ok:
  assumes inv: "kinv s" and st: "stat_of s t = RT_THREAD_SUSPEND" and n: "ThreadTimer t \<notin> set (timer_list s)"
  shows "\<exists>s'. rt_thread_timeout t s = Some s' \<and> kinv s' \<and> core_frame s s' \<and>
    th_error (threads s' t) = - RT_ETIMEOUT \<and> stat_of s' t \<in> {RT_THREAD_READY, RT_THREAD_RUNNING} \<and>
    (\<forall>x. lists s' (WaitQ x) = removeAll t (lists s (WaitQ x))) \<and>
    (\<forall>x. lists s' (SenderQ x) = removeAll t (lists s (SenderQ x))) \<and>
    (\<forall>x. lists s' (DriverQ x) = removeAll t (lists s (DriverQ x))) \<and>
    timer_list s' = timer_list s \<and> timers s' = timers s \<and>
    (\<forall>x. timer_flag x s' = timer_flag x s) \<and>
    (\<forall>u. u \<noteq> t \<longrightarrow> th_error (threads s' u) = th_error (threads s u) \<and>
      (stat_of s' u = RT_THREAD_SUSPEND \<longleftrightarrow> stat_of s u = RT_THREAD_SUSPEND))"
proof -
  let ?e = "set_error t (- RT_ETIMEOUT) s"
  have inv0: "kinv ?e" using inv by simp
  note k = kinvD[OF inv0]
  have st0: "stat_of ?e t = 2" using st by (simp add: stat_of_def set_error_def)
  have ty: "typed_ok s t" using kinvD(3)[OF inv, of t] st by (auto simp: started_def)
  let ?s1 = "unlinked t (ready_group ?e) ?e"
  note rm = list_remove_suspended[OF k(1) st0]
  from insert_thread_ok[OF rm(2), of t] st0 obtain s3 where s3:
    "rt_schedule_insert_thread t ?s1 = Some s3" "sched_inv s3" "sched_frame ?s1 s3" "cur s3 = cur s"
    "\<And>u. u \<noteq> t \<Longrightarrow> threads s3 u = threads ?e u"
    "stat_of s3 t = (if cur s = Some t then 3 else 1)"
    "lists s3 = (\<lambda>h. removeAll t (lists s h) @ (if cur s \<noteq> Some t \<and> h = ReadyQ (prio_of ?e t) then [t] else []))"
    by auto
  note f3 = sched_frameD[OF s3(3)]
  have cf: "core_frame s s3"
    by (rule core_frame_trans[OF core_frame_error core_frame_trans[OF core_frame_unlinked sched_core_frame[OF s3(3)]]])
  have su: "stat_of s3 u = stat_of s u" if "u \<noteq> t" for u
    using stat_of_cong[OF s3(5)[OF that]] that by simp
  have "timers_ok s3"
  proof (rule timers_ok_cong[OF kinvD(2)[OF inv]])
    fix u assume u: "ThreadTimer u \<in> set (timer_list s)"
    with n have "u \<noteq> t" by auto
    then show "stat_of s3 u = 2" using timers_ok_stat[OF kinvD(2)[OF inv] u] su by simp
  qed (simp_all add: f3)
  moreover have "started s u" if "started s3 u" for u
    using that st su by (cases "u = t") (auto simp: started_def)
  ultimately have inv3: "kinv s3"
    unfolding kinv_def using s3(2,4) kinvD(4)[OF inv] started_typed[OF inv cf] by auto
  from rt_schedule_kinv[OF inv3] obtain s' where s': "rt_schedule s3 = Some s'" "kinv s'" "sched_frame s3 s'"
    "\<And>u. started s' u = started s3 u \<and> (stat_of s' u = 2 \<longleftrightarrow> stat_of s3 u = 2)" by blast
  note f = sched_frameD[OF s'(3)]
  have "rt_thread_timeout t s = Some s'"
    using st ty rm(1) s3(1) s'(1) by (simp add: rt_thread_timeout_def typed_ok_def)
  moreover have "core_frame s s'" by (rule core_frame_trans[OF cf sched_core_frame[OF s'(3)]])
  moreover have "th_error (threads s' t) = - RT_ETIMEOUT"
    using f(18)[of t] f3(18)[of t] by simp
  moreover have "stat_of s' t \<in> {1, 3}"
    using s'(4)[of t] s3(6) by (auto simp: started_def split: if_splits)
  moreover have "lists s' (WaitQ x) = removeAll t (lists s (WaitQ x))"
    "lists s' (SenderQ y) = removeAll t (lists s (SenderQ y))"
    "lists s' (DriverQ z) = removeAll t (lists s (DriverQ z))" for x y z
    using f(24)[of x] f(25)[of y] f(27)[of z] s3(7) by simp_all
  moreover have "th_error (threads s' u) = th_error (threads s u) \<and> (stat_of s' u = 2 \<longleftrightarrow> stat_of s u = 2)"
    if "u \<noteq> t" for u
    using f(18)[of u] s3(5)[OF that] s'(4)[of u] su[OF that] that by simp
  moreover have "timer_list s' = timer_list s" "timers s' = timers s"
    using f(3,4) f3(3,4) by simp_all
  moreover have "timer_flag x s' = timer_flag x s" for x
    using f(1) f3(1) by (simp add: timer_flag_def)
  ultimately show ?thesis using s'(2) by blast
qed

lemma timer_arm_ok:
  assumes inv: "kinv s" and st: "stat_of s t = RT_THREAD_SUSPEND" and time: "time < RT_TICK_MAX div 2"
  shows "\<exists>s'. timer_arm (ThreadTimer t) time s = Some s' \<and> kinv s' \<and> core_frame s s' \<and> same_sched s s' \<and>
    ThreadTimer t \<in> set (timer_list s') \<and> tm_timeout_tick (timers s' (ThreadTimer t)) = tick s + time \<and>
    (\<forall>y. y \<noteq> ThreadTimer t \<longrightarrow> timers s' y = timers s y \<and> timer_flag y s' = timer_flag y s) \<and>
    set (timer_list s') = insert (ThreadTimer t) (set (timer_list s))"
proof -
  note k = kinvD[OF inv]
  have ty: "typed_ok s t" using k(3)[of t] st by (auto simp: started_def)
  let ?s1 = "tm_upd (ThreadTimer t) (tm_init_tick_update (\<lambda>_. time)) s"
  have run: "rt_timer_control (ThreadTimer t) 0 time s = Some (RT_EOK, time, ?s1)"
    using ty by (simp add: rt_timer_control_def typed_ok_def)
  have e: "timer_entry_ok ?s1 x = timer_entry_ok s x" for x
    by (cases x) (simp_all add: timer_entry_ok_def rt_object_get_type_def timer_flag_def stat_of_def)
  have ok1: "timers_ok ?s1" using k(2) e by (simp add: timers_ok_def)
  have cf1: "core_frame s ?s1" by (simp add: core_frame_def tm_upd_def timer_flag_def)
  have sm1: "same_sched s ?s1" by (simp add: same_sched_def)
  from timer_start_ok[OF ok1, of "ThreadTimer t"] ty time st obtain s' where s':
    "rt_timer_start (ThreadTimer t) ?s1 = Some (RT_EOK, s')" "timers_ok s'" "core_frame ?s1 s'" "same_sched ?s1 s'"
    "timer_list s' = timer_insert (\<lambda>y. tm_timeout_tick (timers ?s1 y)) (tick s + time) (ThreadTimer t)
      (removeAll (ThreadTimer t) (timer_list s))"
    "tm_timeout_tick (timers s' (ThreadTimer t)) = tick s + time"
    "\<And>y. y \<noteq> ThreadTimer t \<Longrightarrow> timers s' y = timers ?s1 y \<and> timer_flag y s' = timer_flag y ?s1"
    using same_schedD(6)[OF sm1, of t] by (auto simp: typed_ok_def rt_object_get_type_def)
  have cf: "core_frame s s'" by (rule core_frame_trans[OF cf1 s'(3)])
  have sm: "same_sched s s'" using sm1 s'(4) by (simp add: same_sched_def)
  note smd = same_schedD[OF sm]
  have "kinv s'"
    unfolding kinv_def using smd(9) k(1,4) s'(2) smd(5,8) started_typed[OF inv cf] by auto
  then show ?thesis using run s'(1,5,6,7) cf sm by (simp add: timer_arm_def timer_flag_def)
qed

section \<open>Sample states\<close>

lemma sample_kinv: "kinv sample"
proof -
  have "typed_ok sample t" for t
    by (simp add: typed_ok_def rt_object_get_type_def timer_flag_def sample_def sample_type_def)
  moreover have "timers_ok sample" by (simp add: timers_ok_def sample_simps)
  ultimately show ?thesis using sample_inv by (simp add: kinv_def sample_simps)
qed

text \<open>As \<open>sample\<close>, with thread 2 asleep until the next tick.\<close>

definition sample_sleep :: kstate where
  "sample_sleep = sample\<lparr>
     threads := (threads sample)(2 := sample_thread 2 10),
     lists := (\<lambda>_. [])(ReadyQ 20 := [3]), tlink := (\<lambda>_. None)(3 := Some (ReadyQ 20)),
     ready_group := pbit 20, timer_list := [ThreadTimer 2], tick := 100,
     timers := (timers sample)(ThreadTimer 2 := \<lparr>tm_func = Rt_thread_timeout 2, tm_init_tick = 1,
                                                tm_timeout_tick = 101\<rparr>),
     objs := (objs sample)(OTimer (ThreadTimer 2) := \<lparr>obj_name = replicate 8 0, obj_type = 0x8a, obj_flag = 1\<rparr>)\<rparr>"

lemma sample_sleep_simps:
  "cur sample_sleep = Some 1" "timer_list sample_sleep = [ThreadTimer 2]"
  "lists sample_sleep = (\<lambda>_. [])(ReadyQ 20 := [3])"
  "tlink sample_sleep = (\<lambda>_. None)(3 := Some (ReadyQ 20))" "ready_group sample_sleep = pbit 20"
  "threads sample_sleep = (\<lambda>_. sample_thread 0 0)(1 := sample_thread 3 10, 2 := sample_thread 2 10,
                                                3 := sample_thread 1 20)"
  by (simp_all add: sample_sleep_def sample_simps fun_upd_twist)

lemma sample_sleep_stat:
  "stat_of sample_sleep t = (if t = 1 then 3 else if t = 2 then 2 else if t = 3 then 1 else 0)"
  "prio_of sample_sleep t = (if t = 1 \<or> t = 2 then 10 else if t = 3 then 20 else 0)"
  by (simp_all add: stat_of_def prio_of_def sample_sleep_simps sample_thread_def)

lemma sample_sleep_kinv: "kinv sample_sleep"
proof -
  have "links_ok sample_sleep" by (auto simp: links_ok_def sample_sleep_simps)
  moreover have "group_ok sample_sleep" by (auto simp: group_ok_def sample_sleep_simps bit_pbit)
  moreover have "thr_ok sample_sleep t" for t
    by (auto simp: thr_ok_def place_ok_def runnable_ok_def stack_check_def sample_sleep_stat
        sample_sleep_simps sample_thread_def)
  ultimately have "sched_inv sample_sleep" by (simp add: sched_ok_def)
  moreover have "typed_ok sample_sleep t" for t
    by (simp add: typed_ok_def rt_object_get_type_def timer_flag_def sample_sleep_def sample_def sample_type_def)
  moreover have "timer_entry_ok sample_sleep (ThreadTimer 2)"
    unfolding timer_entry_ok_def timer_id.case sample_sleep_stat
    by (simp add: rt_object_get_type_def timer_flag_def sample_sleep_def)
  then have "timers_ok sample_sleep" by (simp add: timers_ok_def sample_sleep_simps)
  ultimately show ?thesis by (simp add: kinv_def sample_sleep_simps)
qed

end
