(* ===== verification/Clock.thy ===== *)
theory Clock
  imports Kinv
begin

text \<open>
  The tick interrupt: which timers expire, in which order, and that the loop of \<open>rt_timer_check\<close> ends.

  \<open>rem s x\<close> is the number of ticks until timer \<open>x\<close> is due. A timer is started with less than half of the
  tick range, so that the pending timers are sorted by \<open>rem\<close> whatever the value of the tick counter,
  across its wrap-around; the invariant \<open>timers_sorted\<close> says so.
\<close>

section \<open>Pending timers\<close>

definition rem :: "kstate \<Rightarrow> timer_id \<Rightarrow> nat" where
  "rem s x = unat (tm_timeout_tick (timers s x) - tick s)"

definition timers_sorted :: "kstate \<Rightarrow> bool" where
  "timers_sorted s \<longleftrightarrow> sorted (map (rem s) (timer_list s)) \<and> (\<forall>x \<in> set (timer_list s). rem s x < 2147483647)"

text \<open>No pending timer is overdue: what \<open>rt_timer_check\<close> establishes.\<close>

definition timers_future :: "kstate \<Rightarrow> bool" where
  "timers_future s \<longleftrightarrow> timers_sorted s \<and> (\<forall>x \<in> set (timer_list s). 0 < rem s x)"

lemma expired_iff:
  assumes "rem s x < 2147483647"
  shows "tick s - tm_timeout_tick (timers s x) < RT_TICK_MAX div 2 \<longleftrightarrow> rem s x = 0"
proof -
  let ?d = "tm_timeout_tick (timers s x) - tick s"
  have e: "tick s - tm_timeout_tick (timers s x) = - ?d" by simp
  have m: "unat (RT_TICK_MAX div 2) = 2147483647" by (simp add: unat_div)
  show ?thesis
  proof (cases "?d = 0")
    case True
    then show ?thesis unfolding e by (simp add: rem_def)
  next
    case False
    then have "unat (- ?d) = 2 ^ 32 - unat ?d" using unat_neg[of ?d] by (simp only: len_of_numeral_defs) simp
    moreover have "rem s x \<noteq> 0" using False by (simp add: rem_def unat_eq_zero)
    ultimately show ?thesis using assms unfolding e word_less_nat_alt m by (simp add: rem_def)
  qed
qed

lemma later_iff:
  fixes a b t :: u32
  assumes "unat (a - t) < 2147483647" "unat (b - t) < 2147483647"
  shows "a - b = 0 \<longleftrightarrow> unat (a - t) = unat (b - t)"
    "a - b \<noteq> 0 \<Longrightarrow> a - b < RT_TICK_MAX div 2 \<longleftrightarrow> unat (b - t) < unat (a - t)"
proof -
  have m: "unat (RT_TICK_MAX div 2 :: u32) = 2147483647" by (simp add: unat_div)
  show "a - b = 0 \<longleftrightarrow> unat (a - t) = unat (b - t)" by (metis right_minus_eq word_unat_eq_iff diff_add_cancel)
  have e: "a - b = (a - t) - (b - t)" by simp
  assume ne: "a - b \<noteq> 0"
  show "a - b < RT_TICK_MAX div 2 \<longleftrightarrow> unat (b - t) < unat (a - t)"
  proof (cases "unat (b - t) < unat (a - t)")
    case True
    then have "unat (a - b) = unat (a - t) - unat (b - t)"
      unfolding e by (subst unat_sub) (simp_all add: word_le_nat_alt)
    with True assms show ?thesis by (simp add: word_less_nat_alt m)
  next
    case False
    with ne have lt: "unat (a - t) < unat (b - t)"
      by (metis linorder_neqE_nat right_minus_eq word_unat_eq_iff diff_add_cancel)
    have "unat (b - a) = unat (b - t) - unat (a - t)"
    proof -
      have "b - a = (b - t) - (a - t)" by simp
      then show ?thesis using lt by (simp only:) (subst unat_sub, simp_all add: word_le_nat_alt)
    qed
    moreover have "unat (a - b) = 2 ^ 32 - unat (b - a)"
    proof -
      have "a - b = - (b - a)" by simp
      moreover have "b - a \<noteq> 0" using ne by auto
      ultimately show ?thesis using unat_neg[of "b - a"] by simp
    qed
    ultimately show ?thesis using lt assms by (simp add: word_less_nat_alt m)
  qed
qed

text \<open>The walk of \<open>rt_timer_start\<close> inserts behind all timers that are due no later.\<close>

lemma timer_insert_split:
  assumes "\<forall>y \<in> set ts. unat (f y - t) < 2147483647" "unat (w - t) < 2147483647"
    "sorted (map (\<lambda>y. unat (f y - t)) ts)"
  shows "timer_insert f w x ts =
    filter (\<lambda>y. unat (f y - t) \<le> unat (w - t)) ts @ x # filter (\<lambda>y. unat (w - t) < unat (f y - t)) ts"
  using assms
proof (induction ts)
  case Nil
  then show ?case by simp
next
  case (Cons y ts)
  have y: "unat (f y - t) < 2147483647" using Cons.prems(1) by simp
  note li = later_iff[OF y Cons.prems(2)]
  have ih: "timer_insert f w x ts =
    filter (\<lambda>y. unat (f y - t) \<le> unat (w - t)) ts @ x # filter (\<lambda>y. unat (w - t) < unat (f y - t)) ts"
    using Cons by simp
  show ?case
  proof (cases "unat (w - t) < unat (f y - t)")
    case True
    then have lt: "f y - w \<noteq> 0" "f y - w < RT_TICK_MAX div 2" using li by auto
    have "\<forall>z \<in> set ts. unat (w - t) < unat (f z - t)" using Cons.prems(3) True by fastforce
    then have "filter (\<lambda>y. unat (f y - t) \<le> unat (w - t)) ts = []"
      "filter (\<lambda>y. unat (w - t) < unat (f y - t)) ts = ts"
      by (auto simp: filter_empty_conv intro: filter_True)
    with True lt show ?thesis by simp
  next
    case False
    then have "f y - w = 0 \<or> \<not> f y - w < RT_TICK_MAX div 2" using li by blast
    then have "timer_insert f w x (y # ts) = y # timer_insert f w x ts" by auto
    with False ih show ?thesis by simp
  qed
qed

lemma rem_window:
  assumes "timers_sorted s" "timer_list s' = filter P (timer_list s)" "timers s' = timers s" "tick s' = tick s"
  shows "timers_sorted s'"
proof -
  have "rem s' = rem s" using assms by (auto simp: rem_def)
  moreover have "sorted (map (rem s) (filter P (timer_list s)))"
    using assms(1) by (simp add: timers_sorted_def sorted_filter)
  ultimately show ?thesis using assms(1,2) by (auto simp: timers_sorted_def)
qed

lemma timers_sorted_insert:
  assumes so: "timers_sorted s" and d: "distinct (timer_list s)" and r: "unat i < 2147483647"
    and tl: "timer_list s' = timer_insert (\<lambda>y. tm_timeout_tick (timers s y)) (tick s + i) x
      (removeAll x (timer_list s))"
    and tx: "tm_timeout_tick (timers s' x) = tick s + i"
    and oth: "\<And>y. y \<noteq> x \<Longrightarrow> timers s' y = timers s y" and tk: "tick s' = tick s"
  shows "timers_sorted s'" "rem s' x = unat i" "\<And>y. y \<noteq> x \<Longrightarrow> rem s' y = rem s y"
    "timer_list s' = filter (\<lambda>y. y \<noteq> x \<and> rem s y \<le> unat i) (timer_list s) @
       x # filter (\<lambda>y. y \<noteq> x \<and> unat i < rem s y) (timer_list s)"
proof -
  show rx: "rem s' x = unat i" using tx tk by (simp add: rem_def)
  show ro: "\<And>y. y \<noteq> x \<Longrightarrow> rem s' y = rem s y" using oth tk by (simp add: rem_def)
  let ?ts = "filter (\<lambda>y. y \<noteq> x) (timer_list s)"
  have ra: "removeAll x ts = filter (\<lambda>y. y \<noteq> x) ts" for ts :: "timer_id list" by (induction ts) auto
  have w: "unat (tick s + i - tick s) = unat i" by simp
  have so': "sorted (map (\<lambda>y. rem s y) ?ts)" using so by (simp add: timers_sorted_def sorted_filter)
  have "timer_list s' = filter (\<lambda>y. rem s y \<le> unat i) ?ts @ x # filter (\<lambda>y. unat i < rem s y) ?ts"
    unfolding tl ra using timer_insert_split[of ?ts "\<lambda>y. tm_timeout_tick (timers s y)" "tick s" "tick s + i" x]
      so so' r unfolding w rem_def[symmetric] by (simp add: timers_sorted_def)
  then show sp: "timer_list s' = filter (\<lambda>y. y \<noteq> x \<and> rem s y \<le> unat i) (timer_list s) @
       x # filter (\<lambda>y. y \<noteq> x \<and> unat i < rem s y) (timer_list s)" by (simp add: conj_commute)
  have m: "map (rem s') (filter (\<lambda>y. y \<noteq> x \<and> Q y) ys) = map (rem s) (filter (\<lambda>y. y \<noteq> x \<and> Q y) ys)" for Q ys
    using ro by (intro map_cong) auto
  have "sorted (map (rem s') (timer_list s'))"
    unfolding sp map_append list.map m rx sorted_append
    using so by (auto simp: timers_sorted_def sorted_filter)
  moreover have "rem s' y < 2147483647" if "y \<in> set (timer_list s')" for y
    using that so r rx ro[of y] unfolding sp by (cases "y = x") (auto simp: timers_sorted_def)
  ultimately show "timers_sorted s'" by (simp add: timers_sorted_def)
qed

section \<open>One expired timer\<close>

lemma remove_timer_kinv:
  assumes "kinv s"
  shows "kinv (rt_timer_remove x s)"
proof -
  note k = kinvD[OF assms]
  let ?s = "rt_timer_remove x s"
  have sm: "same_sched s ?s" by (simp add: same_sched_def rt_timer_remove_def)
  note smd = same_schedD[OF sm]
  have e: "timer_entry_ok ?s y = timer_entry_ok s y" for y
    using smd(6) by (simp add: timer_entry_ok_def rt_timer_remove_def rt_object_get_type_def timer_flag_def
        split: timer_id.split)
  have "set (remove1 x (timer_list s)) \<subseteq> set (timer_list s)" by (rule set_remove1_subset)
  then have "timers_ok ?s" using k(2) e by (auto simp: timers_ok_def rt_timer_remove_def)
  moreover have "typed_ok ?s t = typed_ok s t" for t
    by (simp add: typed_ok_def rt_timer_remove_def rt_object_get_type_def timer_flag_def)
  ultimately show ?thesis using k smd(5,8,9) by (auto simp: kinv_def)
qed

lemma clear_timer_flag_kinv:
  assumes inv: "kinv s" and n: "x \<notin> set (timer_list s)"
  shows "kinv (set_timer_flag x (\<lambda>f. f AND NOT TIMER_ACTIVATED) s)"
proof -
  note k = kinvD[OF inv]
  let ?s = "set_timer_flag x (\<lambda>f. f AND NOT TIMER_ACTIVATED) s"
  have sm: "same_sched s ?s" by (simp add: same_sched_def set_timer_flag_def)
  note smd = same_schedD[OF sm]
  have e: "timer_entry_ok ?s y = timer_entry_ok s y" if "y \<noteq> x" for y
    using smd(6) that by (simp add: timer_entry_ok_def set_timer_flag_def rt_object_get_type_def timer_flag_def
        split: timer_id.split)
  have tl: "timer_list ?s = timer_list s" by (simp add: set_timer_flag_def)
  have "timer_entry_ok ?s y" if "y \<in> set (timer_list s)" for y
    using e[of y] n that k(2) by (cases "y = x") (auto simp: timers_ok_def)
  then have "timers_ok ?s" using k(2) by (simp add: timers_ok_def)
  moreover have "(f AND NOT 1) AND 2 = f AND 2" for f :: u8
    by (rule bit_word_eqI) (auto simp: bit_simps)
  then have "typed_ok ?s t = typed_ok s t" for t
    by (simp add: typed_ok_def set_timer_flag_def rt_object_get_type_def timer_flag_def)
  ultimately show ?thesis using k smd(5,8,9) by (auto simp: kinv_def)
qed

definition timers_due :: "kstate \<Rightarrow> timer_id list" where
  "timers_due s = filter (\<lambda>x. rem s x = 0) (timer_list s)"

definition periodic_ok :: "kstate \<Rightarrow> bool" where
  "periodic_ok s \<longleftrightarrow> (\<forall>x \<in> set (timer_list s). timer_flag x s AND TIMER_PERIODIC \<noteq> 0 \<longrightarrow>
     0 < unat (tm_init_tick (timers s x)) \<and> unat (tm_init_tick (timers s x)) < 2147483647)"

text \<open>A thread timer that expires wakes its thread with \<open>-RT_ETIMEOUT\<close> and is not started again.\<close>

lemma thread_timer_step:
  assumes inv: "kinv s" and so: "timers_sorted s" and tl: "timer_list s = ThreadTimer t # ts"
  shows "\<exists>s2 s3. run_timeout user (tm_func (timers s (ThreadTimer t))) (rt_timer_remove (ThreadTimer t) s) = Some s2 \<and>
    tick s2 = tick s \<and> timer_expired (ThreadTimer t) s2 = Some s3 \<and> kinv s3 \<and> tick s3 = tick s \<and>
    timer_list s3 = ts \<and> timers s3 = timers s \<and> (\<forall>y. y \<noteq> ThreadTimer t \<longrightarrow> timer_flag y s3 = timer_flag y s) \<and>
    (\<forall>x. rt_object_get_type x s3 = rt_object_get_type x s) \<and>
    th_error (threads s3 t) = - RT_ETIMEOUT \<and> stat_of s3 t \<noteq> RT_THREAD_SUSPEND \<and>
    (\<forall>x. lists s3 (WaitQ x) = removeAll t (lists s (WaitQ x))) \<and>
    (\<forall>x. lists s3 (SenderQ x) = removeAll t (lists s (SenderQ x))) \<and>
    (\<forall>x. lists s3 (DriverQ x) = removeAll t (lists s (DriverQ x))) \<and>
    (\<forall>u. u \<noteq> t \<longrightarrow> th_error (threads s3 u) = th_error (threads s u) \<and>
      (stat_of s3 u = RT_THREAD_SUSPEND \<longleftrightarrow> stat_of s u = RT_THREAD_SUSPEND))"
proof -
  let ?x = "ThreadTimer t"
  let ?s1 = "rt_timer_remove ?x s"
  note k = kinvD[OF inv]
  have st: "stat_of s t = 2" using timers_ok_stat[OF k(2), of t] tl by simp
  have ty: "typed_ok s t" using k(3)[of t] st by (auto simp: started_def)
  have d: "?x \<notin> set ts" "distinct ts" using k(2) tl by (auto simp: timers_ok_def)
  have tl1: "timer_list ?s1 = ts" by (simp add: rt_timer_remove_def tl)
  have "stat_of ?s1 t = 2" using st by (simp add: rt_timer_remove_def stat_of_def)
  from rt_thread_timeout_ok[OF remove_timer_kinv[OF inv] this] d(1) tl1 obtain s2 where s2:
    "rt_thread_timeout t ?s1 = Some s2" "kinv s2" "core_frame ?s1 s2" "th_error (threads s2 t) = - RT_ETIMEOUT"
    "stat_of s2 t \<in> {1, 3}" "\<And>x. lists s2 (WaitQ x) = removeAll t (lists ?s1 (WaitQ x))"
    "\<And>x. lists s2 (SenderQ x) = removeAll t (lists ?s1 (SenderQ x))"
    "timer_list s2 = ts" "timers s2 = timers ?s1" "\<And>x. timer_flag x s2 = timer_flag x ?s1"
    "\<And>u. u \<noteq> t \<Longrightarrow> th_error (threads s2 u) = th_error (threads ?s1 u) \<and>
      (stat_of s2 u = 2 \<longleftrightarrow> stat_of ?s1 u = 2)"
    "\<And>x. lists s2 (DriverQ x) = removeAll t (lists ?s1 (DriverQ x))" by blast
  let ?s3 = "set_timer_flag ?x (\<lambda>f. f AND NOT TIMER_ACTIVATED) s2"
  have "timer_flag ?x s2 AND TIMER_PERIODIC = 0"
    using ty s2(10) by (simp add: typed_ok_def rt_timer_remove_def timer_flag_def)
  then have e: "timer_expired ?x s2 = Some ?s3" by (simp add: timer_expired_def)
  have run: "run_timeout user (tm_func (timers s ?x)) ?s1 = Some s2"
    using ty s2(1) by (simp add: typed_ok_def run_timeout_def)
  have tk: "tick s2 = tick s" using core_frameD(2)[OF s2(3)] by (simp add: rt_timer_remove_def)
  have "kinv ?s3" using s2(2) d(1) s2(8) by (intro clear_timer_flag_kinv) simp_all
  moreover have s3: "tick ?s3 = tick s" "timer_list ?s3 = ts" "timers ?s3 = timers s" "threads ?s3 = threads s2"
    "lists ?s3 = lists s2" "lists ?s1 = lists s" "threads ?s1 = threads s"
    using tk s2(8,9) by (simp_all add: set_timer_flag_def rt_timer_remove_def)
  moreover have "timer_flag y ?s3 = timer_flag y s" if "y \<noteq> ?x" for y
    using that s2(10)[of y] by (simp add: set_timer_flag_def timer_flag_def rt_timer_remove_def)
  moreover have "stat_of ?s3 u = stat_of s2 u" "stat_of ?s1 u = stat_of s u" for u
    using s3 by (simp_all add: stat_of_def)
  moreover have "rt_object_get_type z ?s3 = rt_object_get_type z s" for z
    using core_frameD(20)[OF s2(3), of z] by simp
  ultimately show ?thesis using run tk e s2(4-7,11,12) by (intro exI[of _ s2] exI[of _ ?s3]) auto
qed

section \<open>The loop over expired timers\<close>

lemma timers_sorted_tail:
  assumes "timers_sorted s" "timer_list s = x # ts" "timer_list s' = ts" "timers s' = timers s" "tick s' = tick s"
  shows "timers_sorted s'"
proof -
  have r: "rem s' = rem s" using assms(4,5) by (auto simp: rem_def)
  show ?thesis using assms(1-3) unfolding timers_sorted_def r by simp
qed

lemma timer_check_unfold:
  assumes "timer_list s = x # ts" "rem s x < 2147483647"
  shows "timer_check_loop run (tick s) s =
    (if rem s x = 0 then do {
       s2 \<leftarrow> run (tm_func (timers s x)) (rt_timer_remove x s);
       s3 \<leftarrow> timer_expired x s2;
       timer_check_loop run (tick s2) s3 } else Some s)"
  using expired_iff[OF assms(2)] assms(1) by (subst timer_check_loop.simps) (simp add: Let_def)

lemma timers_future_head:
  assumes "timers_sorted s" "timer_list s = x # ts" "rem s x \<noteq> 0"
  shows "timers_future s"
  using assms by (auto simp: timers_future_def timers_sorted_def)

text \<open>With thread timers only: exactly the threads whose timer is due are woken, with \<open>-RT_ETIMEOUT\<close>.\<close>

lemma timer_check_threads:
  assumes "kinv s" "timers_sorted s" "\<forall>x \<in> set (timer_list s). \<exists>t. x = ThreadTimer t"
  shows "\<exists>s'. timer_check_loop (run_timeout user) (tick s) s = Some s' \<and> kinv s' \<and> tick s' = tick s \<and>
    timers_future s' \<and> timers s' = timers s \<and>
    timer_list s' = filter (\<lambda>x. 0 < rem s x) (timer_list s) \<and>
    (\<forall>t. ThreadTimer t \<in> set (timers_due s) \<longrightarrow> th_error (threads s' t) = - RT_ETIMEOUT \<and>
       stat_of s' t \<noteq> RT_THREAD_SUSPEND) \<and>
    (\<forall>t. ThreadTimer t \<notin> set (timers_due s) \<longrightarrow> th_error (threads s' t) = th_error (threads s t) \<and>
       (stat_of s' t = RT_THREAD_SUSPEND \<longleftrightarrow> stat_of s t = RT_THREAD_SUSPEND)) \<and>
    (\<forall>x. lists s' (WaitQ x) = filter (\<lambda>t. ThreadTimer t \<notin> set (timers_due s)) (lists s (WaitQ x)))"
  using assms
proof (induction "timer_list s" arbitrary: s)
  case Nil
  then have e: "timer_list s = []" by simp
  have "timer_check_loop (run_timeout user) (tick s) s = Some s"
    by (subst timer_check_loop.simps) (simp add: e)
  with Nil e show ?case by (simp add: timers_due_def timers_future_def)
next
  case (Cons x ts)
  from Cons.hyps(2) have tl: "timer_list s = x # ts" by simp
  have small: "rem s x < 2147483647" using Cons.prems(2) tl by (simp add: timers_sorted_def)
  note unf = timer_check_unfold[OF tl small, of "run_timeout user"]
  show ?case
  proof (cases "rem s x = 0")
    case False
    then have f: "timers_future s" using timers_future_head[OF Cons.prems(2) tl] by simp
    have "filter (\<lambda>x. 0 < rem s x) (timer_list s) = timer_list s" "timers_due s = []"
      using f by (auto simp: timers_future_def timers_due_def filter_empty_conv intro: filter_True)
    with False unf f Cons.prems(1) show ?thesis by simp
  next
    case True
    from Cons.prems(3) tl obtain t where x: "x = ThreadTimer t" by auto
    from thread_timer_step[OF Cons.prems(1,2), of t ts user] tl x obtain s2 s3 where s:
      "run_timeout user (tm_func (timers s x)) (rt_timer_remove x s) = Some s2" "tick s2 = tick s"
      "timer_expired x s2 = Some s3" "kinv s3" "tick s3 = tick s" "timer_list s3 = ts" "timers s3 = timers s"
      "th_error (threads s3 t) = - RT_ETIMEOUT" "stat_of s3 t \<noteq> 2"
      "\<And>y. lists s3 (WaitQ y) = removeAll t (lists s (WaitQ y))"
      "\<And>u. u \<noteq> t \<Longrightarrow> th_error (threads s3 u) = th_error (threads s u) \<and> (stat_of s3 u = 2 \<longleftrightarrow> stat_of s u = 2)"
      by blast
    have r: "rem s3 = rem s" using s(5,7) by (auto simp: rem_def)
    have so: "timers_sorted s3" by (rule timers_sorted_tail[OF Cons.prems(2) tl s(6,7,5)])
    have d: "x \<notin> set ts" using kinvD(2)[OF Cons.prems(1)] tl by (simp add: timers_ok_def)
    have due: "timers_due s = x # timers_due s3" using True tl s(6) r by (simp add: timers_due_def)
    have nd: "ThreadTimer t \<notin> set (timers_due s3)" using d x s(6) by (auto simp: timers_due_def)
    from Cons.hyps(1)[of s3] s(4,6) so Cons.prems(3) tl obtain s' where s':
      "timer_check_loop (run_timeout user) (tick s3) s3 = Some s'" "kinv s'" "tick s' = tick s3" "timers_future s'"
      "timers s' = timers s3" "timer_list s' = filter (\<lambda>x. 0 < rem s3 x) (timer_list s3)"
      "\<And>t. ThreadTimer t \<in> set (timers_due s3) \<Longrightarrow> th_error (threads s' t) = - RT_ETIMEOUT \<and> stat_of s' t \<noteq> 2"
      "\<And>t. ThreadTimer t \<notin> set (timers_due s3) \<Longrightarrow> th_error (threads s' t) = th_error (threads s3 t) \<and>
         (stat_of s' t = 2 \<longleftrightarrow> stat_of s3 t = 2)"
      "\<And>x. lists s' (WaitQ x) = filter (\<lambda>t. ThreadTimer t \<notin> set (timers_due s3)) (lists s3 (WaitQ x))"
      by auto
    have run: "timer_check_loop (run_timeout user) (tick s) s = Some s'"
      using unf True s(1-3,5) s'(1) by simp
    have "th_error (threads s' u) = - RT_ETIMEOUT \<and> stat_of s' u \<noteq> 2" if "ThreadTimer u \<in> set (timers_due s)" for u
      using that s'(7)[of u] s'(8)[of t] nd s(8,9) due x by (cases "u = t") auto
    moreover have "th_error (threads s' u) = th_error (threads s u) \<and> (stat_of s' u = 2 \<longleftrightarrow> stat_of s u = 2)"
      if "ThreadTimer u \<notin> set (timers_due s)" for u
      using that s'(8)[of u] s(11)[of u] due x by (cases "u = t") auto
    moreover have "lists s' (WaitQ y) = filter (\<lambda>u. ThreadTimer u \<notin> set (timers_due s)) (lists s (WaitQ y))" for y
      unfolding s'(9) s(10) due x by (simp add: removeAll_filter_not_eq) (rule filter_cong, auto)
    moreover have "timer_list s' = filter (\<lambda>x. 0 < rem s x) (timer_list s)"
      using s'(6) s(6) r tl True by simp
    ultimately show ?thesis using run s'(2-5) s(5,7) by auto
  qed
qed

section \<open>Timeout functions of the application\<close>

text \<open>The contract of the functions that user timers call: they keep the kernel's invariant and the
  tick, and touch timers only by stopping some of them (as waking a thread does). What a function
  needs of its argument, for instance that it names a semaphore, depends on the object types only.\<close>

definition calm :: "kstate \<Rightarrow> kstate \<Rightarrow> bool" where
  "calm s s' \<longleftrightarrow> kinv s' \<and> tick s' = tick s \<and> timers s' = timers s \<and>
     (\<exists>P. timer_list s' = filter P (timer_list s)) \<and>
     (\<forall>a. timer_flag (UserTimer a) s' = timer_flag (UserTimer a) s) \<and>
     (\<forall>x. timer_flag x s' AND TIMER_PERIODIC = timer_flag x s AND TIMER_PERIODIC) \<and>
     (\<forall>x. rt_object_get_type x s' = rt_object_get_type x s)"

lemma calm_refl: "kinv s \<Longrightarrow> calm s s"
  unfolding calm_def by (auto intro!: exI[of _ "\<lambda>_. True"])

lemma calm_trans:
  assumes "calm a b" "calm b c"
  shows "calm a c"
proof -
  from assms obtain P Q where "timer_list b = filter P (timer_list a)" "timer_list c = filter Q (timer_list b)"
    by (auto simp: calm_def)
  then have "timer_list c = filter (\<lambda>x. P x \<and> Q x) (timer_list a)" by (simp add: conj_commute)
  with assms show ?thesis unfolding calm_def by auto
qed

lemma rem_set_timer_flag [simp]: "rem (set_timer_flag x f s) = rem s"
  by (auto simp: rem_def)

locale timeout_functions =
  fixes user :: "nat \<Rightarrow> nat \<Rightarrow> kstate \<Rightarrow> kstate option"
    and needs :: "nat \<Rightarrow> nat \<Rightarrow> (oid \<Rightarrow> u8) \<Rightarrow> bool"
  assumes user_calm: "\<lbrakk>kinv s; needs f p (\<lambda>x. rt_object_get_type x s)\<rbrakk> \<Longrightarrow>
    \<exists>s'. user f p s = Some s' \<and> calm s s'"
begin

text \<open>Every pending user timer may be run.\<close>

abbreviation ready :: "kstate \<Rightarrow> bool" where
  "ready s \<equiv> \<forall>x \<in> set (timer_list s). \<forall>f p. tm_func (timers s x) = User_timeout f p \<longrightarrow>
     needs f p (\<lambda>x. rt_object_get_type x s)"

lemma ready_sub:
  assumes "ready s" "set (timer_list s') \<subseteq> set (timer_list s)"
    and "\<And>x. tm_func (timers s' x) = tm_func (timers s x)"
    and "\<And>x. rt_object_get_type x s' = rt_object_get_type x s"
  shows "ready s'"
  using assms(1,2) unfolding assms(3,4) by blast

lemma user_timer_step:
  assumes inv: "kinv s" and so: "timers_sorted s" and per: "periodic_ok s" and rd: "ready s"
    and tl: "timer_list s = UserTimer a # ts"
  shows "\<exists>s2 s3. run_timeout user (tm_func (timers s (UserTimer a))) (rt_timer_remove (UserTimer a) s) = Some s2 \<and>
    tick s2 = tick s \<and> timer_expired (UserTimer a) s2 = Some s3 \<and> kinv s3 \<and> tick s3 = tick s \<and>
    timers_sorted s3 \<and> periodic_ok s3 \<and> ready s3 \<and>
    length (timers_due s3) \<le> length (filter (\<lambda>x. rem s x = 0) ts)"
proof -
  let ?x = "UserTimer a"
  let ?s1 = "rt_timer_remove ?x s"
  note k = kinvD[OF inv]
  have e: "timer_entry_ok s ?x" using k(2) tl by (simp add: timers_ok_def)
  then obtain f p where fp: "tm_func (timers s ?x) = User_timeout f p"
    and ty: "rt_object_get_type (OTimer ?x) s = 10" by (auto simp: timer_entry_ok_def)
  have d: "?x \<notin> set ts" "distinct ts" using k(2) tl by (auto simp: timers_ok_def)
  have nd: "needs f p (\<lambda>z. rt_object_get_type z ?s1)" using rd tl fp by auto
  from user_calm[OF remove_timer_kinv[OF inv] nd] obtain s2 P where s2:
    "user f p ?s1 = Some s2" "kinv s2" "tick s2 = tick s" "timers s2 = timers s"
    "timer_list s2 = filter P ts" "\<And>b. timer_flag (UserTimer b) s2 = timer_flag (UserTimer b) s"
    "\<And>x. timer_flag x s2 AND TIMER_PERIODIC = timer_flag x s AND TIMER_PERIODIC"
    "\<And>x. rt_object_get_type x s2 = rt_object_get_type x s"
    using tl unfolding calm_def by auto
  have run: "run_timeout user (tm_func (timers s ?x)) ?s1 = Some s2"
    using fp s2(1) by (simp add: run_timeout_def)
  have so1: "timers_sorted ?s1" by (rule timers_sorted_tail[OF so tl]) (simp_all add: tl)
  have so2: "timers_sorted s2" by (rule rem_window[OF so1]) (use s2 tl in simp_all)
  have per2: "periodic_ok s2" using per s2(4,5,7) tl by (auto simp: periodic_ok_def)
  have r2: "rem s2 = rem s" using s2(3,4) by (auto simp: rem_def)
  have due2: "length (timers_due s2) \<le> length (filter (\<lambda>x. rem s x = 0) ts)"
    unfolding timers_due_def s2(5) r2 by (induction ts) auto
  have n2: "?x \<notin> set (timer_list s2)" using d(1) s2(5) by simp
  let ?c = "set_timer_flag ?x (\<lambda>f. f AND NOT TIMER_ACTIVATED) s2"
  have kc: "kinv ?c" by (rule clear_timer_flag_kinv[OF s2(2) n2])
  have rc: "rem ?c = rem s2" by (rule rem_set_timer_flag)
  have soc: "timers_sorted ?c" using so2 unfolding timers_sorted_def rc by simp
  have fl: "timer_flag y ?c AND TIMER_PERIODIC = timer_flag y s2 AND TIMER_PERIODIC" for y
  proof -
    have "(f AND NOT 1) AND 2 = f AND 2" for f :: u8 by (rule bit_word_eqI) (auto simp: bit_simps)
    then show ?thesis by simp
  qed
  have perc: "periodic_ok ?c" using per2 fl by (simp add: periodic_ok_def)
  show ?thesis
  proof (cases "timer_flag ?x s2 AND TIMER_PERIODIC \<noteq> 0 \<and> timer_flag ?x s2 AND TIMER_ACTIVATED \<noteq> 0")
    case False
    then have "timer_expired ?x s2 = Some ?c" by (auto simp: timer_expired_def)
    moreover have "timers_due ?c = timers_due s2" unfolding timers_due_def rc by simp
    moreover have "ready ?c" by (rule ready_sub[OF rd]) (use s2(4,5,8) tl in auto)
    ultimately show ?thesis using run kc soc perc s2(3) due2 by auto
  next
    case True
    let ?i = "tm_init_tick (timers s ?x)"
    have i: "0 < unat ?i" "unat ?i < 2147483647"
      using per True s2(7)[of ?x] tl by (auto simp: periodic_ok_def)
    have i': "?i < RT_TICK_MAX div 2" using i(2) by (simp add: word_less_nat_alt unat_div)
    note kd = kinvD[OF kc]
    from timer_start_ok[OF kd(2), of ?x] ty fp i' s2(4,8) obtain s3 where s3:
      "rt_timer_start ?x ?c = Some (RT_EOK, s3)" "timers_ok s3" "core_frame ?c s3" "same_sched ?c s3"
      "timer_list s3 = timer_insert (\<lambda>y. tm_timeout_tick (timers ?c y)) (tick ?c + ?i) ?x
        (removeAll ?x (timer_list ?c))"
      "tm_timeout_tick (timers s3 ?x) = tick ?c + ?i"
      "\<And>y. y \<noteq> ?x \<Longrightarrow> timers s3 y = timers ?c y \<and> timer_flag y s3 = timer_flag y ?c"
      "tm_init_tick (timers s3 ?x) = ?i" by auto
    have tk: "tick s3 = tick ?c" using core_frameD(2)[OF s3(3)] by simp
    have dc: "distinct (timer_list ?c)" using kd(2) by (simp add: timers_ok_def)
    note ins = timers_sorted_insert[OF soc dc i(2) s3(5,6) _ tk]
    have so3: "timers_sorted s3" and rx: "rem s3 ?x = unat ?i"
      and ro: "\<And>y. y \<noteq> ?x \<Longrightarrow> rem s3 y = rem ?c y"
      and sp: "timer_list s3 = filter (\<lambda>y. y \<noteq> ?x \<and> rem ?c y \<le> unat ?i) (timer_list ?c) @
       ?x # filter (\<lambda>y. y \<noteq> ?x \<and> unat ?i < rem ?c y) (timer_list ?c)"
      using ins s3(7) by blast+
    have sub: "set (timer_list s3) \<subseteq> insert ?x (set (timer_list ?c))" unfolding sp by auto
    have pd: "timer_flag y s3 AND TIMER_PERIODIC = timer_flag y ?c AND TIMER_PERIODIC" for y
      using s3(3) by (simp add: core_frame_def)
    have "periodic_ok s3"
      unfolding periodic_ok_def
    proof (intro ballI impI)
      fix y assume y: "y \<in> set (timer_list s3)" "timer_flag y s3 AND TIMER_PERIODIC \<noteq> 0"
      show "0 < unat (tm_init_tick (timers s3 y)) \<and> unat (tm_init_tick (timers s3 y)) < 2147483647"
      proof (cases "y = ?x")
        case False
        with y sub perc s3(7)[OF False] pd show ?thesis by (auto simp: periodic_ok_def)
      qed (use i s3(8) in simp)
    qed
    moreover have "timers_due s3 = timers_due s2"
    proof -
      have z: "filter (\<lambda>y. rem s3 y = 0) (filter (\<lambda>y. y \<noteq> ?x \<and> Q y) ys) =
          filter (\<lambda>y. rem s2 y = 0 \<and> y \<noteq> ?x \<and> Q y) ys" for Q ys
        using ro unfolding rc by (induction ys) auto
      have tc: "timer_list ?c = timer_list s2" by (rule set_timer_flag_simps)
      have "\<not> rem s3 ?x = 0" using i(1) rx by simp
      then have "timers_due s3 = filter (\<lambda>y. rem s2 y = 0 \<and> y \<noteq> ?x \<and> rem s2 y \<le> unat ?i) (timer_list s2) @
        filter (\<lambda>y. rem s2 y = 0 \<and> y \<noteq> ?x \<and> unat ?i < rem s2 y) (timer_list s2)"
        unfolding timers_due_def sp rc tc filter_append filter.simps(2) z by (simp only: if_False)
      also have "filter (\<lambda>y. rem s2 y = 0 \<and> y \<noteq> ?x \<and> unat ?i < rem s2 y) (timer_list s2) = []"
        by (auto simp: filter_empty_conv)
      also have "filter (\<lambda>y. rem s2 y = 0 \<and> y \<noteq> ?x \<and> rem s2 y \<le> unat ?i) (timer_list s2) = timers_due s2"
        unfolding timers_due_def using n2 by (intro filter_cong) auto
      finally show ?thesis by simp
    qed
    moreover have "kinv s3"
      unfolding kinv_def
      using same_schedD(5,8,9)[OF s3(4)] kd(1,4) s3(2) started_typed[OF kc s3(3)] by auto
    moreover have "timer_expired ?x s2 = Some s3" using True s3(1) by (simp add: timer_expired_def)
    moreover have "ready s3"
    proof (rule ready_sub[OF rd])
      show "set (timer_list s3) \<subseteq> set (timer_list s)" using sub s2(5) tl by auto
      show "tm_func (timers s3 y) = tm_func (timers s y)" for y
        using core_frameD(22)[OF s3(3), of y] s2(4) by simp
      show "rt_object_get_type z s3 = rt_object_get_type z s" for z
        using core_frameD(20)[OF s3(3), of z] s2(8) by simp
    qed
    ultimately show ?thesis using run s2(3) tk so3 due2 by auto
  qed
qed

lemma timer_check_ends:
  assumes "kinv s" "timers_sorted s" "periodic_ok s" "ready s"
  shows "\<exists>s'. timer_check_loop (run_timeout user) (tick s) s = Some s' \<and> kinv s' \<and> tick s' = tick s \<and>
    timers_future s' \<and> periodic_ok s' \<and> ready s'"
  using assms
proof (induction "length (timers_due s)" arbitrary: s rule: less_induct)
  case less
  show ?case
  proof (cases "timer_list s")
    case Nil
    then have "timer_check_loop (run_timeout user) (tick s) s = Some s"
      by (subst timer_check_loop.simps) simp
    with Nil less.prems show ?thesis by (simp add: timers_future_def)
  next
    case (Cons x ts)
    have small: "rem s x < 2147483647" using less.prems(2) Cons by (simp add: timers_sorted_def)
    note unf = timer_check_unfold[OF Cons small, of "run_timeout user"]
    show ?thesis
    proof (cases "rem s x = 0")
      case False
      with unf less.prems timers_future_head[OF less.prems(2) Cons] show ?thesis by simp
    next
      case True
      have "\<exists>s2 s3. run_timeout user (tm_func (timers s x)) (rt_timer_remove x s) = Some s2 \<and>
        tick s2 = tick s \<and> timer_expired x s2 = Some s3 \<and> kinv s3 \<and> tick s3 = tick s \<and>
        timers_sorted s3 \<and> periodic_ok s3 \<and> ready s3 \<and>
        length (timers_due s3) \<le> length (filter (\<lambda>x. rem s x = 0) ts)"
      proof (cases x)
        case (UserTimer a)
        with user_timer_step[OF less.prems] Cons show ?thesis by simp
      next
        case (ThreadTimer t)
        from thread_timer_step[OF less.prems(1,2), of t ts user] Cons ThreadTimer obtain s2 s3 where s:
          "\<And>z. rt_object_get_type z s3 = rt_object_get_type z s" 
          "run_timeout user (tm_func (timers s x)) (rt_timer_remove x s) = Some s2" "tick s2 = tick s"
          "timer_expired x s2 = Some s3" "kinv s3" "tick s3 = tick s" "timer_list s3 = ts" "timers s3 = timers s"
          "\<And>y. y \<noteq> x \<Longrightarrow> timer_flag y s3 = timer_flag y s" by blast
        have r: "rem s3 = rem s" using s(6,8) by (auto simp: rem_def)
        have n: "x \<notin> set ts" using kinvD(2)[OF less.prems(1)] Cons by (simp add: timers_ok_def)
        have "periodic_ok s3"
          unfolding periodic_ok_def
        proof (intro ballI impI)
          fix y assume y: "y \<in> set (timer_list s3)" "timer_flag y s3 AND TIMER_PERIODIC \<noteq> 0"
          with n s(7) have "y \<noteq> x" by auto
          with y s(7-9) less.prems(3) Cons
          show "0 < unat (tm_init_tick (timers s3 y)) \<and> unat (tm_init_tick (timers s3 y)) < 2147483647"
            by (simp add: periodic_ok_def)
        qed
        moreover have "timers_due s3 = filter (\<lambda>x. rem s x = 0) ts" by (simp add: timers_due_def s(7) r)
        moreover have "ready s3" by (rule ready_sub[OF less.prems(4)]) (use s(1,7,8) Cons in auto)
        ultimately show ?thesis using s timers_sorted_tail[OF less.prems(2) Cons s(7,8,6)] by auto
      qed
      then obtain s2 s3 where s:
        "run_timeout user (tm_func (timers s x)) (rt_timer_remove x s) = Some s2" "tick s2 = tick s"
        "timer_expired x s2 = Some s3" "kinv s3" "tick s3 = tick s" "timers_sorted s3" "periodic_ok s3" "ready s3"
        "length (timers_due s3) \<le> length (filter (\<lambda>x. rem s x = 0) ts)" by blast
      have "length (timers_due s3) < length (timers_due s)"
        using s(9) True Cons by (simp add: timers_due_def)
      from less.hyps[OF this s(4,6,7,8)] unf True s(1-3,5) show ?thesis by auto
    qed
  qed
qed

end

section \<open>The tick interrupt\<close>

lemma rem_tick:
  assumes "tick s' = tick s + 1" "timers s' = timers s" "0 < rem s x"
  shows "rem s' x = rem s x - 1"
proof -
  let ?d = "tm_timeout_tick (timers s x) - tick s"
  have "tm_timeout_tick (timers s' x) - tick s' = ?d - 1" using assms(1,2) by simp
  moreover have "?d \<noteq> 0" using assms(3) by (auto simp: rem_def)
  ultimately show ?thesis unfolding rem_def by (metis unat_minus_one)
qed

lemma tick_sorted:
  assumes fut: "timers_future s" and t: "tick s' = tick s + 1" "timers s' = timers s" "timer_list s' = timer_list s"
  shows "timers_sorted s'" "\<And>x. x \<in> set (timer_list s) \<Longrightarrow> rem s' x = rem s x - 1"
proof -
  have pos: "0 < rem s x" if "x \<in> set (timer_list s)" for x using fut that by (simp add: timers_future_def)
  show r: "\<And>x. x \<in> set (timer_list s) \<Longrightarrow> rem s' x = rem s x - 1"
    using rem_tick[OF t(1,2)] pos by blast
  have "map (rem s') (timer_list s) = map (\<lambda>n. n - 1) (map (rem s) (timer_list s))"
    using r by (simp add: map_eq_conv)
  moreover have "sorted (map (\<lambda>n. n - 1) ns)" if "sorted ns" for ns :: "nat list"
    using that by (induction ns) (auto intro: diff_le_mono)
  moreover have "sorted (map (rem s) (timer_list s))" using fut by (simp add: timers_future_def timers_sorted_def)
  ultimately have "sorted (map (rem s') (timer_list s))" by metis
  moreover have "rem s' x < 2147483647" if "x \<in> set (timer_list s)" for x
    using fut that r[OF that] by (auto simp: timers_future_def timers_sorted_def)
  ultimately show "timers_sorted s'" by (simp add: timers_sorted_def t(3))
qed

text \<open>The part of \<open>rt_tick_increase\<close> before \<open>rt_timer_check\<close>: the time slice.\<close>

lemma tick_slice:
  assumes inv: "kinv s"
  shows "\<exists>s3. (\<forall>user. rt_tick_increase user s = rt_timer_check (run_timeout user) s3) \<and> kinv s3 \<and>
    tick s3 = tick s + 1 \<and> timers s3 = timers s \<and> timer_list s3 = timer_list s \<and> objs s3 = objs s \<and>
    (\<forall>x. lists s3 (WaitQ x) = lists s (WaitQ x)) \<and>
    (\<forall>t. th_error (threads s3 t) = th_error (threads s t) \<and>
       (stat_of s3 t = RT_THREAD_SUSPEND \<longleftrightarrow> stat_of s t = RT_THREAD_SUSPEND))"
proof -
  let ?s1 = "s\<lparr>tick := tick s + 1\<rparr>"
  from kinvD(4)[OF inv] obtain t where c: "cur s = Some t" by blast
  let ?s2 = "thr_upd t (\<lambda>th. th\<lparr>th_remaining_tick := th_remaining_tick th - 1\<rparr>) ?s1"
  let ?r = "thr_upd t (\<lambda>th. th\<lparr>th_remaining_tick := th_init_tick th\<rparr>) ?s2"
  have core: "same_core ?s1 ?s2" "same_core ?s1 ?r"
    by (simp_all add: same_core_def core_thr_def)
  have k: "kinv ?s2" "kinv ?r" using same_core_kinv[OF core(1)] same_core_kinv[OF core(2)] inv by simp_all
  have st: "stat_of ?s2 u = stat_of s u" "stat_of ?r u = stat_of s u" for u
    using same_core_stat(1)[OF core(1), of u] same_core_stat(1)[OF core(2), of u] by (simp_all add: stat_of_def)
  have er: "th_error (threads ?s2 u) = th_error (threads s u)" "th_error (threads ?r u) = th_error (threads s u)" for u
    by simp_all
  show ?thesis
  proof (cases "th_remaining_tick (threads ?s2 t) = 0")
    case False
    then have "rt_tick_increase user s = rt_timer_check (run_timeout user) ?s2" for user
      using c by (simp add: rt_tick_increase_def rt_thread_self_def Let_def)
    with k(1) st er show ?thesis by (intro exI[of _ ?s2]) auto
  next
    case True
    from rt_schedule_kinv[OF k(2)] obtain s3 where s3: "rt_schedule ?r = Some s3" "kinv s3" "sched_frame ?r s3"
      "\<And>u. stat_of s3 u = 2 \<longleftrightarrow> stat_of ?r u = 2" by blast
    note f = sched_frameD[OF s3(3)]
    have "rt_tick_increase user s = rt_timer_check (run_timeout user) s3" for user
      using c True s3(1) by (simp add: rt_tick_increase_def rt_thread_self_def rt_thread_yield_def Let_def)
    with s3(2,4) f(1,3,4,5,18,24) st er show ?thesis by (intro exI[of _ s3]) auto
  qed
qed

context timeout_functions
begin

lemma tick_increase_ends:
  assumes "kinv s" "timers_future s" "periodic_ok s" "ready s"
  shows "\<exists>s'. rt_tick_increase user s = Some s' \<and> kinv s' \<and> tick s' = tick s + 1 \<and>
    timers_future s' \<and> periodic_ok s' \<and> ready s'"
proof -
  from tick_slice[OF assms(1)] obtain s3 where s3: "rt_tick_increase user s = rt_timer_check (run_timeout user) s3"
    "kinv s3" "tick s3 = tick s + 1" "timers s3 = timers s" "timer_list s3 = timer_list s" "objs s3 = objs s" by blast
  have "timers_sorted s3" by (rule tick_sorted[OF assms(2) s3(3-5)])
  moreover have "periodic_ok s3" using assms(3) s3(4-6) by (simp add: periodic_ok_def timer_flag_def)
  moreover have "ready s3"
    by (rule ready_sub[OF assms(4)]) (use s3(4-6) in \<open>simp_all add: rt_object_get_type_def\<close>)
  ultimately show ?thesis using timer_check_ends[OF s3(2)] s3(1,3) by (auto simp: rt_timer_check_def)
qed

end

section \<open>Properties\<close>

text \<open>C19: \<open>rt_timer_start\<close> re-arms a timer: it becomes active, due after its period, and takes the
  place behind all pending timers that are due no later, so that timers of equal time run in the order
  in which they were started; the list stays sorted also when the 32-bit tick counter wraps.\<close>

theorem timer_start_position:
  assumes "timers_ok s" and "timers_sorted s"
    and "rt_object_get_type (OTimer (UserTimer a)) s = Class_Timer"
    and "tm_func (timers s (UserTimer a)) = User_timeout f p"
    and "tm_init_tick (timers s (UserTimer a)) < RT_TICK_MAX div 2"
  shows "\<exists>s'. rt_timer_start (UserTimer a) s = Some (RT_EOK, s') \<and> timers_ok s' \<and> timers_sorted s' \<and>
    rem s' (UserTimer a) = unat (tm_init_tick (timers s (UserTimer a))) \<and>
    timer_list s' =
      filter (\<lambda>y. y \<noteq> UserTimer a \<and> rem s y \<le> unat (tm_init_tick (timers s (UserTimer a)))) (timer_list s) @
      UserTimer a #
      filter (\<lambda>y. y \<noteq> UserTimer a \<and> unat (tm_init_tick (timers s (UserTimer a))) < rem s y) (timer_list s)"
proof -
  let ?x = "UserTimer a"
  from timer_start_ok[OF assms(1,3,5)] assms(4) obtain s' where s':
    "rt_timer_start ?x s = Some (RT_EOK, s')" "timers_ok s'" "core_frame s s'"
    "timer_list s' = timer_insert (\<lambda>y. tm_timeout_tick (timers s y)) (tick s + tm_init_tick (timers s ?x)) ?x
      (removeAll ?x (timer_list s))"
    "tm_timeout_tick (timers s' ?x) = tick s + tm_init_tick (timers s ?x)"
    "\<And>y. y \<noteq> ?x \<Longrightarrow> timers s' y = timers s y" by auto
  have d: "distinct (timer_list s)" using assms(1) by (simp add: timers_ok_def)
  have i: "unat (tm_init_tick (timers s ?x)) < 2147483647" using assms(5) by (simp add: word_less_nat_alt unat_div)
  have tk: "tick s' = tick s" using core_frameD(2)[OF s'(3)] .
  show ?thesis
    using timers_sorted_insert(1,2,4)[OF assms(2) d i s'(4,5,6) tk] s'(1,2) by blast
qed

theorem timer_start_position_witness:
  "\<exists>s'. rt_timer_start (UserTimer 9) sample = Some (RT_EOK, s') \<and> timer_list s' = [UserTimer 9] \<and>
     rem s' (UserTimer 9) = 7"
  using timer_start_position[of sample 9 9 0]
  by (auto simp: timers_ok_def timers_sorted_def rt_object_get_type_def sample_def sample_type_def)

text \<open>C15: one tick with thread timers pending: the clock interrupt always returns, wakes exactly the
  suspended threads whose timer is due with the error \<open>-RT_ETIMEOUT\<close>, takes them off the list of the
  object they waited for, and leaves all later timers pending in order; the kernel's invariant
  holds again and no timer is overdue.\<close>

theorem tick_wakes_due_threads:
  assumes "kinv s" and "timers_future s" and "\<forall>x \<in> set (timer_list s). \<exists>t. x = ThreadTimer t"
  shows "\<exists>s'. rt_tick_increase user s = Some s' \<and> kinv s' \<and> tick s' = tick s + 1 \<and> timers_future s' \<and>
    timer_list s' = filter (\<lambda>x. rem s x \<noteq> 1) (timer_list s) \<and>
    (\<forall>t. ThreadTimer t \<in> set (timer_list s) \<and> rem s (ThreadTimer t) = 1 \<longrightarrow>
       th_error (threads s' t) = - RT_ETIMEOUT \<and> stat_of s' t \<noteq> RT_THREAD_SUSPEND \<and>
       (\<forall>x. t \<notin> set (lists s' (WaitQ x)))) \<and>
    (\<forall>t. \<not> (ThreadTimer t \<in> set (timer_list s) \<and> rem s (ThreadTimer t) = 1) \<longrightarrow>
       th_error (threads s' t) = th_error (threads s t) \<and>
       (stat_of s' t = RT_THREAD_SUSPEND \<longleftrightarrow> stat_of s t = RT_THREAD_SUSPEND))"
proof -
  from tick_slice[OF assms(1)] obtain s3 where s3: "rt_tick_increase user s = rt_timer_check (run_timeout user) s3"
    "kinv s3" "tick s3 = tick s + 1" "timers s3 = timers s" "timer_list s3 = timer_list s"
    "\<And>x. lists s3 (WaitQ x) = lists s (WaitQ x)"
    "\<And>t. th_error (threads s3 t) = th_error (threads s t) \<and> (stat_of s3 t = 2 \<longleftrightarrow> stat_of s t = 2)" by blast
  note ts = tick_sorted[OF assms(2) s3(3-5)]
  have pos: "0 < rem s x" if "x \<in> set (timer_list s)" for x using assms(2) that by (simp add: timers_future_def)
  have due: "x \<in> set (timers_due s3) \<longleftrightarrow> x \<in> set (timer_list s) \<and> rem s x = 1" for x
    using ts(2)[of x] pos[of x] by (auto simp: timers_due_def s3(5))
  have later: "filter (\<lambda>x. 0 < rem s3 x) (timer_list s3) = filter (\<lambda>x. rem s x \<noteq> 1) (timer_list s)"
    unfolding s3(5) using ts(2) pos by (intro filter_cong) (auto, force)
  from timer_check_threads[OF s3(2) ts(1), of user] assms(3) s3(5) obtain s' where s':
    "timer_check_loop (run_timeout user) (tick s3) s3 = Some s'" "kinv s'" "tick s' = tick s3" "timers_future s'"
    "timer_list s' = filter (\<lambda>x. 0 < rem s3 x) (timer_list s3)"
    "\<And>t. ThreadTimer t \<in> set (timers_due s3) \<Longrightarrow> th_error (threads s' t) = - RT_ETIMEOUT \<and> stat_of s' t \<noteq> 2"
    "\<And>t. ThreadTimer t \<notin> set (timers_due s3) \<Longrightarrow> th_error (threads s' t) = th_error (threads s3 t) \<and>
       (stat_of s' t = 2 \<longleftrightarrow> stat_of s3 t = 2)"
    "\<And>x. lists s' (WaitQ x) = filter (\<lambda>t. ThreadTimer t \<notin> set (timers_due s3)) (lists s3 (WaitQ x))"
    by auto
  have "rt_tick_increase user s = Some s'" using s3(1) s'(1) by (simp add: rt_timer_check_def)
  with s'(2-8) s3(3,7) due later show ?thesis by (intro exI[of _ s']) auto
qed

theorem tick_wakes_due_threads_witness:
  "\<exists>s'. rt_tick_increase (\<lambda>_ _ s. Some s) sample_sleep = Some s' \<and> timer_list s' = [] \<and>
    th_error (threads s' 2) = - RT_ETIMEOUT \<and> stat_of s' 2 \<noteq> RT_THREAD_SUSPEND"
proof -
  have "rem sample_sleep (ThreadTimer 2) = 1" by (simp add: rem_def sample_sleep_def)
  moreover from this have "timers_future sample_sleep"
    by (simp add: timers_future_def timers_sorted_def) (simp add: sample_sleep_def)
  ultimately show ?thesis
    using tick_wakes_due_threads[of sample_sleep "\<lambda>_ _ s. Some s"] sample_sleep_kinv
    by (auto simp: sample_sleep_def)
qed

end
