(* ===== verification/Ipc_base.thy ===== *)
theory Ipc_base
  imports Clock
begin

text \<open>
  The inline functions of \<open>src/ipc.c\<close> that all IPC objects share: suspending the current thread on the
  list of an object, in FIFO or priority order, and waking the first or all threads of a list.
  \<open>time\<close> arguments are \<open>rt_int32_t\<close>: 0 does not wait, a negative value waits forever.
\<close>

section \<open>Operations\<close>

text \<open>The head of a wait list is initialised while no thread is linked to it; for a list with threads the
  code would leave their links dangling, which is the outcome \<open>None\<close>.\<close>

definition rt_ipc_object_init :: "lhead \<Rightarrow> kstate \<Rightarrow> kstate option" where
  "rt_ipc_object_init h s = do { rt_assert (lists s h = []); Some s }"

definition rt_ipc_list_suspend :: "lhead \<Rightarrow> nat \<Rightarrow> u8 \<Rightarrow> kstate \<Rightarrow> kstate option" where
  "rt_ipc_list_suspend h t flag s = do {
     (_, s1) \<leftarrow> rt_thread_suspend t s;
     if flag = 0 then rt_list_insert_before h t s1
     else if flag = 1 then
       (let later = (\<lambda>u. prio_of s1 t < prio_of s1 u) in
        list_put h (takeWhile (\<lambda>u. \<not> later u) (lists s1 h)) t (dropWhile (\<lambda>u. \<not> later u) (lists s1 h)) s1)
     else Some s1 }"

definition rt_ipc_list_resume :: "lhead \<Rightarrow> kstate \<Rightarrow> kstate option" where
  "rt_ipc_list_resume h s =
     (case lists s h of [] \<Rightarrow> None
      | t # _ \<Rightarrow> do { (_, s1) \<leftarrow> rt_thread_resume t s; Some s1 })"

partial_function (option) rt_ipc_list_resume_all :: "lhead \<Rightarrow> kstate \<Rightarrow> kstate option" where
  "rt_ipc_list_resume_all h s =
     (case lists s h of [] \<Rightarrow> Some s
      | t # _ \<Rightarrow> do {
          (_, s1) \<leftarrow> rt_thread_resume t (set_error t (- RT_ERROR) s);
          rt_ipc_list_resume_all h s1 })"

text \<open>The common end of every blocking call: suspend the thread on a list, arm its timer when the wait
  is limited, and schedule.\<close>

definition block_thread :: "lhead \<Rightarrow> nat \<Rightarrow> u8 \<Rightarrow> 32 word \<Rightarrow> kstate \<Rightarrow> kstate option" where
  "block_thread h t flag time s = do {
     s1 \<leftarrow> rt_ipc_list_suspend h t flag s;
     s2 \<leftarrow> (if 0 < sint time then timer_arm (ThreadTimer t) time s1 else Some s1);
     rt_schedule s2 }"

text \<open>The remaining waiting time when a woken thread finds that it has to wait again.\<close>

definition time_left :: "32 word \<Rightarrow> u32 \<Rightarrow> u32 \<Rightarrow> 32 word" where
  "time_left timeout start now =
     (if 0 < sint timeout
      then (let t = timeout - (now - start) in if sint t < 0 then 0 else t) else timeout)"

definition set_flag :: "oid \<Rightarrow> u8 \<Rightarrow> kstate \<Rightarrow> kstate" where
  "set_flag x flag = obj_upd x (obj_flag_update (\<lambda>_. flag))"

definition flag_of :: "oid \<Rightarrow> kstate \<Rightarrow> u8" where
  "flag_of x s = obj_flag (objs s x)"

definition of_class :: "oid \<Rightarrow> u8 \<Rightarrow> kstate \<Rightarrow> unit option" where
  "of_class x ty s = rt_assert (rt_object_get_type x s = ty)"

end
