(* ===== verification/Waiting.thy ===== *)
theory Waiting
  imports Ipc_base
begin

text \<open>
  The wait lists of the IPC objects. The locales state what the objects rely on: waking takes the first
  thread of one list and leaves the other lists alone, scheduling changes no list. They are interpreted
  on \<open>rt_ipc_list_resume\<close>, the loop of \<open>rt_ipc_list_resume_all\<close> and \<open>rt_schedule\<close>, with the kernel's
  invariant. The last section describes the blocking of the current thread.
\<close>

section \<open>The interface\<close>

locale wait_lists =
  fixes inv :: "'s \<Rightarrow> bool" and hd_ok :: "'h \<Rightarrow> bool"
    and waiters :: "'h \<Rightarrow> 's \<Rightarrow> 't list" and suspended :: "'s \<Rightarrow> 't \<Rightarrow> bool" and code :: "'s \<Rightarrow> 't \<Rightarrow> 'e"
    and frame :: "'s \<Rightarrow> 's \<Rightarrow> bool"
    and wake :: "'h \<Rightarrow> 's \<Rightarrow> 's option" and sched :: "'s \<Rightarrow> 's option"
    and woken_code :: "'e \<Rightarrow> 'e"
  assumes frame_refl: "frame s s"
    and frame_trans: "\<lbrakk>frame s s1; frame s1 s2\<rbrakk> \<Longrightarrow> frame s s2"
    and waiters_suspended: "\<lbrakk>inv s; hd_ok h; t \<in> set (waiters h s)\<rbrakk> \<Longrightarrow> suspended s t"
    and waiters_distinct: "inv s \<Longrightarrow> distinct (waiters h s)"
    and wake_first: "\<lbrakk>inv s; hd_ok h; waiters h s = t # ts\<rbrakk> \<Longrightarrow>
      \<exists>s'. wake h s = Some s' \<and> inv s' \<and> frame s s' \<and> waiters h s' = ts \<and>
        (\<forall>k. hd_ok k \<and> k \<noteq> h \<longrightarrow> waiters k s' = waiters k s) \<and>
        (\<forall>u. suspended s' u \<longleftrightarrow> suspended s u \<and> u \<noteq> t) \<and>
        (\<forall>u. code s' u = (if u = t then woken_code (code s t) else code s u))"
    and sched_ok: "inv s \<Longrightarrow>
      \<exists>s'. sched s = Some s' \<and> inv s' \<and> frame s s' \<and> (\<forall>k. hd_ok k \<longrightarrow> waiters k s' = waiters k s) \<and>
        (\<forall>u. suspended s' u = suspended s u \<and> code s' u = code s u)"
begin

lemma wake_sched:
  assumes "inv s" "hd_ok h" "waiters h s = t # ts"
  shows "\<exists>s1 s'. wake h s = Some s1 \<and> sched s1 = Some s' \<and> inv s' \<and> frame s s' \<and> waiters h s' = ts \<and>
    (\<forall>k. hd_ok k \<and> k \<noteq> h \<longrightarrow> waiters k s' = waiters k s) \<and>
    (\<forall>u. suspended s' u \<longleftrightarrow> suspended s u \<and> u \<noteq> t) \<and>
    (\<forall>u. code s' u = (if u = t then woken_code (code s t) else code s u))"
proof -
  from wake_first[OF assms] obtain s1 where s1: "wake h s = Some s1" "inv s1" "frame s s1"
    "waiters h s1 = ts" "\<And>k. hd_ok k \<and> k \<noteq> h \<Longrightarrow> waiters k s1 = waiters k s"
    "\<And>u. suspended s1 u \<longleftrightarrow> suspended s u \<and> u \<noteq> t"
    "\<And>u. code s1 u = (if u = t then woken_code (code s t) else code s u)" by blast
  from sched_ok[OF s1(2)] obtain s' where s': "sched s1 = Some s'" "inv s'" "frame s1 s'"
    "\<And>k. hd_ok k \<Longrightarrow> waiters k s' = waiters k s1"
    "\<And>u. suspended s' u = suspended s1 u \<and> code s' u = code s1 u" by blast
  have "frame s s'" using frame_trans[OF s1(3) s'(3)] .
  with s1 s' assms(2) show ?thesis by (intro exI[of _ s1] exI[of _ s']) simp
qed

end

locale wait_lists_all = wait_lists +
  fixes wake_all :: "'b \<Rightarrow> 'a \<Rightarrow> 'a option"
  assumes all_nil: "waiters h s = [] \<Longrightarrow> wake_all h s = Some s"
    and all_cons: "waiters h s = t # ts \<Longrightarrow> wake_all h s = Option.bind (wake h s) (wake_all h)"
begin

lemma wake_all_ends:
  assumes "inv s" "hd_ok h"
  shows "\<exists>s'. wake_all h s = Some s' \<and> inv s' \<and> frame s s' \<and> waiters h s' = [] \<and>
    (\<forall>k. hd_ok k \<and> k \<noteq> h \<longrightarrow> waiters k s' = waiters k s) \<and>
    (\<forall>u. suspended s' u \<longleftrightarrow> suspended s u \<and> u \<notin> set (waiters h s)) \<and>
    (\<forall>u. code s' u = (if u \<in> set (waiters h s) then woken_code (code s u) else code s u))"
  using assms(1)
proof (induction "waiters h s" arbitrary: s)
  case Nil
  then have e: "waiters h s = []" by simp
  show ?case unfolding all_nil[OF e] e using Nil frame_refl by simp
next
  case (Cons t ts)
  from Cons.hyps(2) have e: "waiters h s = t # ts" by simp
  from wake_first[OF Cons.prems assms(2) e] obtain s1 where s1: "wake h s = Some s1" "inv s1" "frame s s1"
    "waiters h s1 = ts" "\<And>k. hd_ok k \<and> k \<noteq> h \<Longrightarrow> waiters k s1 = waiters k s"
    "\<And>u. suspended s1 u \<longleftrightarrow> suspended s u \<and> u \<noteq> t"
    "\<And>u. code s1 u = (if u = t then woken_code (code s t) else code s u)" by blast
  have t: "t \<notin> set ts" using waiters_distinct[OF Cons.prems, of h] e by simp
  from Cons.hyps(1)[OF s1(4)[symmetric] s1(2)] obtain s' where s': "wake_all h s1 = Some s'" "inv s'"
    "frame s1 s'" "waiters h s' = []" "\<And>k. hd_ok k \<and> k \<noteq> h \<Longrightarrow> waiters k s' = waiters k s1"
    "\<And>u. suspended s' u \<longleftrightarrow> suspended s1 u \<and> u \<notin> set (waiters h s1)"
    "\<And>u. code s' u = (if u \<in> set (waiters h s1) then woken_code (code s1 u) else code s1 u)" by blast
  have "frame s s'" using frame_trans[OF s1(3) s'(3)] .
  moreover have "wake_all h s = Some s'" unfolding all_cons[OF e] s1(1) using s'(1) by simp
  ultimately show ?case
    unfolding e using s'(2,4-7) s1(4-7) t by (intro exI[of _ s']) (auto)
qed

end

section \<open>The kernel's wait lists\<close>

definition is_wait :: "lhead \<Rightarrow> bool" where
  "is_wait h = (case h of WaitQ _ \<Rightarrow> True | SenderQ _ \<Rightarrow> True | DriverQ _ \<Rightarrow> True | _ \<Rightarrow> False)"

lemma is_wait_simps [simp]: "is_wait (WaitQ x)" "is_wait (SenderQ n)" "is_wait (DriverQ l)" "\<not> is_wait (ReadyQ p)" "\<not> is_wait Defunct"
  by (simp_all add: is_wait_def)

definition wait_frame :: "kstate \<Rightarrow> kstate \<Rightarrow> bool" where
  "wait_frame s s' \<longleftrightarrow> core_frame s s' \<and> timers s' = timers s \<and>
     (\<exists>P. timer_list s' = filter P (timer_list s)) \<and>
     (\<forall>a. timer_flag (UserTimer a) s' = timer_flag (UserTimer a) s)"

lemma wait_frame_refl [simp, intro]: "wait_frame s s"
  by (auto simp: wait_frame_def intro!: exI[of _ "\<lambda>_. True"])

lemma wait_frame_trans [trans]:
  assumes "wait_frame a b" "wait_frame b c"
  shows "wait_frame a c"
proof -
  from assms obtain P Q where "timer_list b = filter P (timer_list a)" "timer_list c = filter Q (timer_list b)"
    by (auto simp: wait_frame_def)
  then have "timer_list c = filter (\<lambda>x. P x \<and> Q x) (timer_list a)" by (simp add: conj_commute)
  moreover have "core_frame a c" using core_frame_trans assms unfolding wait_frame_def by blast
  ultimately show ?thesis using assms unfolding wait_frame_def by auto
qed

lemma wait_frameD:
  assumes "wait_frame s s'"
  shows "core_frame s s'" "timers s' = timers s" "\<exists>P. timer_list s' = filter P (timer_list s)"
  using assms by (auto simp: wait_frame_def)

lemma wait_frame_calm:
  assumes "wait_frame s s'" "kinv s'"
  shows "calm s s'"
  using assms core_frameD(2,20)[OF wait_frameD(1)[OF assms(1)]]
  unfolding calm_def wait_frame_def by (auto simp: core_frame_def)

lemma thr_step_frame:
  assumes "thr_step t s s'"
  shows "wait_frame s s'"
proof -
  have "removeAll x ts = filter (\<lambda>y. y \<noteq> x) ts" for x :: timer_id and ts by (induction ts) auto
  with assms show ?thesis unfolding thr_step_def wait_frame_def by auto
qed

lemma error_frame: "wait_frame s (set_error t e s)"
  using core_frame_error[of s t e] by (auto simp: wait_frame_def timer_flag_def intro!: exI[of _ "\<lambda>_. True"])

lemma sched_wait_frame:
  assumes "sched_frame s s'"
  shows "wait_frame s s'"
  using sched_core_frame[OF assms] sched_frameD[OF assms]
  by (auto simp: wait_frame_def timer_flag_def intro!: exI[of _ "\<lambda>_. True"])

lemma waiting_suspended:
  assumes "kinv s" "is_wait h" "t \<in> set (lists s h)"
  shows "stat_of s t = RT_THREAD_SUSPEND"
proof -
  note ok = sched_okD[OF kinvD(1)[OF assms(1)]]
  have "tlink s t = Some h" using links_okD(1)[OF ok(1)] assms(3) by blast
  moreover have "place_ok s t" using ok(3)[of t] by (simp add: thr_ok_def)
  ultimately show ?thesis using assms(2) by (cases h) (auto simp: place_ok_def)
qed

lemma lists_distinct: "kinv s \<Longrightarrow> distinct (lists s h)"
  using links_okD(2)[OF sched_okD(1)[OF kinvD(1)]] .

lemma lists_disjoint:
  assumes "kinv s" "t \<in> set (lists s h)" "k \<noteq> h"
  shows "t \<notin> set (lists s k)"
  using links_okD(1)[OF sched_okD(1)[OF kinvD(1)[OF assms(1)]], of t] assms(2,3) by (metis option.inject)

lemma removeAll_first:
  assumes "kinv s" "lists s h = t # ts" "is_wait h" "is_wait k"
  shows "removeAll t (lists s k) = (if k = h then ts else lists s k)"
proof (cases "k = h")
  case True
  then show ?thesis using lists_distinct[OF assms(1), of h] assms(2) by (simp add: removeAll_id)
next
  case False
  then show ?thesis using lists_disjoint[OF assms(1), of t h k] assms(2) by (simp add: removeAll_id)
qed

lemma resume_first:
  assumes inv: "kinv s" and h: "is_wait h" and hd: "lists s h = t # ts"
  shows "\<exists>s'. rt_thread_resume t s = Some (RT_EOK, s') \<and> thr_step t s s' \<and> lists s' h = ts \<and>
    (\<forall>k. is_wait k \<and> k \<noteq> h \<longrightarrow> lists s' k = lists s k) \<and>
    (\<forall>u. stat_of s' u = RT_THREAD_SUSPEND \<longleftrightarrow> stat_of s u = RT_THREAD_SUSPEND \<and> u \<noteq> t) \<and>
    (\<forall>u. th_error (threads s' u) = th_error (threads s u)) \<and>
    stat_of s' t \<in> {RT_THREAD_READY, RT_THREAD_RUNNING}"
proof -
  have st: "stat_of s t = 2" using waiting_suspended[OF inv h, of t] hd by simp
  from rt_thread_resume_ok[OF inv st] obtain s' where s': "rt_thread_resume t s = Some (RT_EOK, s')"
    "thr_step t s s'" "stat_of s' t = (if cur s = Some t then 3 else 1)"
    "lists s' = (\<lambda>h. removeAll t (lists s h) @ (if cur s \<noteq> Some t \<and> h = ReadyQ (prio_of s t) then [t] else []))"
    by blast
  have oth: "threads s' u = threads s u" if "u \<noteq> t" for u using s'(2) that by (simp add: thr_step_def)
  have "lists s' k = (if k = h then ts else lists s k)" if "is_wait k" for k
    using removeAll_first[OF inv hd h that] that s'(4) by auto
  moreover have "stat_of s' u = 2 \<longleftrightarrow> stat_of s u = 2 \<and> u \<noteq> t" for u
    using s'(3) stat_of_cong[OF oth, of u] by (cases "u = t") auto
  moreover have "th_error (threads s' u) = th_error (threads s u)" for u
    using oth[of u] s'(2) by (cases "u = t") (auto simp: thr_step_def)
  ultimately show ?thesis using s'(1-3) h by (intro exI[of _ s']) auto
qed

lemma schedule_waiters:
  assumes "kinv s"
  shows "\<exists>s'. rt_schedule s = Some s' \<and> kinv s' \<and> wait_frame s s' \<and> (\<forall>k. is_wait k \<longrightarrow> lists s' k = lists s k) \<and>
    (\<forall>u. (stat_of s' u = RT_THREAD_SUSPEND) = (stat_of s u = RT_THREAD_SUSPEND) \<and>
      th_error (threads s' u) = th_error (threads s u))"
proof -
  from rt_schedule_kinv[OF assms] obtain s' where s': "rt_schedule s = Some s'" "kinv s'" "sched_frame s s'"
    "\<And>t. stat_of s' t = 2 \<longleftrightarrow> stat_of s t = 2" by blast
  have "lists s' k = lists s k" if "is_wait k" for k
    using that sched_frameD(24,25,27)[OF s'(3)] by (cases k) auto
  then show ?thesis using s' sched_wait_frame[OF s'(3)] sched_frameD(18)[OF s'(3)] by blast
qed

interpretation wl: wait_lists kinv is_wait "\<lambda>h s. lists s h" "\<lambda>s t. stat_of s t = RT_THREAD_SUSPEND"
  "\<lambda>s t. th_error (threads s t)" wait_frame rt_ipc_list_resume rt_schedule "\<lambda>e. e"
proof
  fix s h and t :: nat and ts
  assume a: "kinv s" "is_wait h" "lists s h = t # ts"
  from resume_first[OF a] obtain s' where s': "rt_thread_resume t s = Some (RT_EOK, s')" "thr_step t s s'"
    "lists s' h = ts" "\<And>k. is_wait k \<and> k \<noteq> h \<Longrightarrow> lists s' k = lists s k"
    "\<And>u. stat_of s' u = 2 \<longleftrightarrow> stat_of s u = 2 \<and> u \<noteq> t" "\<And>u. th_error (threads s' u) = th_error (threads s u)"
    by blast
  have "rt_ipc_list_resume h s = Some s'" using a(3) s'(1) by (simp add: rt_ipc_list_resume_def)
  with s' thr_step_frame[OF s'(2)] show "\<exists>s'. rt_ipc_list_resume h s = Some s' \<and> kinv s' \<and> wait_frame s s' \<and>
     lists s' h = ts \<and> (\<forall>k. is_wait k \<and> k \<noteq> h \<longrightarrow> lists s' k = lists s k) \<and>
     (\<forall>u. (stat_of s' u = 2) = (stat_of s u = 2 \<and> u \<noteq> t)) \<and>
     (\<forall>u. th_error (threads s' u) = (if u = t then th_error (threads s t) else th_error (threads s u)))"
    by (intro exI[of _ s']) (auto simp: thr_step_def)
qed (use wait_frame_trans waiting_suspended lists_distinct schedule_waiters in blast)+

text \<open>One round of \<open>rt_ipc_list_resume_all\<close>.\<close>

definition resume_with_error :: "lhead \<Rightarrow> kstate \<Rightarrow> kstate option" where
  "resume_with_error h s =
     (case lists s h of [] \<Rightarrow> None
      | t # _ \<Rightarrow> do { (_, s1) \<leftarrow> rt_thread_resume t (set_error t (- RT_ERROR) s); Some s1 })"

interpretation wa: wait_lists_all kinv is_wait "\<lambda>h s. lists s h" "\<lambda>s t. stat_of s t = RT_THREAD_SUSPEND"
  "\<lambda>s t. th_error (threads s t)" wait_frame resume_with_error rt_schedule "\<lambda>_. - RT_ERROR" rt_ipc_list_resume_all
proof
  fix s h and t :: nat and ts
  assume a: "kinv s" "is_wait h" "lists s h = t # ts"
  let ?e = "set_error t (- RT_ERROR) s"
  have b: "kinv ?e" "lists ?e h = t # ts" using a by simp_all
  from resume_first[OF b(1) a(2) b(2)] obtain s' where s': "rt_thread_resume t ?e = Some (RT_EOK, s')" "thr_step t ?e s'"
    "lists s' h = ts" "\<And>k. is_wait k \<and> k \<noteq> h \<Longrightarrow> lists s' k = lists s k"
    "\<And>u. stat_of s' u = 2 \<longleftrightarrow> stat_of s u = 2 \<and> u \<noteq> t" "\<And>u. th_error (threads s' u) = th_error (threads ?e u)"
    by auto
  have "resume_with_error h s = Some s'" using a(3) s'(1) by (simp add: resume_with_error_def)
  moreover have "wait_frame s s'" by (rule wait_frame_trans[OF error_frame thr_step_frame[OF s'(2)]])
  ultimately show "\<exists>s'. resume_with_error h s = Some s' \<and> kinv s' \<and> wait_frame s s' \<and>
     lists s' h = ts \<and> (\<forall>k. is_wait k \<and> k \<noteq> h \<longrightarrow> lists s' k = lists s k) \<and>
     (\<forall>u. (stat_of s' u = 2) = (stat_of s u = 2 \<and> u \<noteq> t)) \<and>
     (\<forall>u. th_error (threads s' u) = (if u = t then - RT_ERROR else th_error (threads s u)))"
    using s' by (intro exI[of _ s']) (auto simp: thr_step_def)
next
  fix h and s :: kstate assume "lists s h = []"
  then show "rt_ipc_list_resume_all h s = Some s" by (subst rt_ipc_list_resume_all.simps) simp
next
  fix h and s :: kstate and t :: nat and ts assume "lists s h = t # ts"
  then show "rt_ipc_list_resume_all h s = Option.bind (resume_with_error h s) (rt_ipc_list_resume_all h)"
    by (subst rt_ipc_list_resume_all.simps)
      (cases "rt_thread_resume t (set_error t (- RT_ERROR) s)", auto simp: resume_with_error_def)
qed (use wait_frame_trans waiting_suspended lists_distinct schedule_waiters in blast)+

text \<open>How the objects end a call that made something available.\<close>

lemma wake_if_any:
  assumes "kinv s" "is_wait h"
  shows "\<exists>s'. (if \<not> rt_list_isempty h s
       then do { s2 \<leftarrow> rt_ipc_list_resume h s; s3 \<leftarrow> rt_schedule s2; Some (r, s3) } else Some (r, s)) = Some (r, s') \<and>
    kinv s' \<and> wait_frame s s' \<and> lists s' h = tl (lists s h) \<and>
    (\<forall>k. is_wait k \<and> k \<noteq> h \<longrightarrow> lists s' k = lists s k) \<and>
    (\<forall>u. stat_of s' u = RT_THREAD_SUSPEND \<longleftrightarrow> stat_of s u = RT_THREAD_SUSPEND \<and> u \<notin> set (take 1 (lists s h))) \<and>
    (\<forall>u. th_error (threads s' u) = th_error (threads s u))"
proof (cases "lists s h")
  case Nil
  then show ?thesis using assms(1) by (simp add: rt_list_isempty_def)
next
  case (Cons t ts)
  from wl.wake_sched[OF assms Cons] obtain s1 s' where s: "rt_ipc_list_resume h s = Some s1" "rt_schedule s1 = Some s'"
    "kinv s'" "wait_frame s s'" "lists s' h = ts" "\<And>k. is_wait k \<and> k \<noteq> h \<Longrightarrow> lists s' k = lists s k"
    "\<And>u. stat_of s' u = 2 \<longleftrightarrow> stat_of s u = 2 \<and> u \<noteq> t"
    "\<And>u. th_error (threads s' u) = (if u = t then th_error (threads s t) else th_error (threads s u))" by blast
  then show ?thesis using Cons by (intro exI[of _ s']) (simp add: rt_list_isempty_def)
qed

section \<open>Blocking the current thread\<close>

text \<open>Where \<open>rt_ipc_list_suspend\<close> puts thread \<open>t\<close>: at the end of a FIFO list, in a priority list before
  the first thread of lower urgency.\<close>

definition wait_insert :: "u8 \<Rightarrow> kstate \<Rightarrow> nat \<Rightarrow> nat list \<Rightarrow> nat list" where
  "wait_insert flag s t ts =
     (if flag = 0 then ts @ [t]
      else takeWhile (\<lambda>u. prio_of s u \<le> prio_of s t) ts @ t # dropWhile (\<lambda>u. prio_of s u \<le> prio_of s t) ts)"

lemma set_wait_insert [simp]: "set (wait_insert flag s t ts) = insert t (set ts)"
proof -
  have "set (takeWhile P ts) \<union> set (dropWhile P ts) = set ts" for P
    by (metis set_append takeWhile_dropWhile_id)
  then show ?thesis by (auto simp: wait_insert_def)
qed

lemma wait_insert_cong: "(\<And>u. prio_of s' u = prio_of s u) \<Longrightarrow> wait_insert flag s' t ts = wait_insert flag s t ts"
  by (simp add: wait_insert_def)

lemma sorted_split:
  fixes n :: nat
  assumes "sorted (map f ts)"
  shows "takeWhile (\<lambda>u. f u \<le> n) ts = filter (\<lambda>u. f u \<le> n) ts"
    "dropWhile (\<lambda>u. f u \<le> n) ts = filter (\<lambda>u. n < f u) ts"
proof -
  show "takeWhile (\<lambda>u. f u \<le> n) ts = filter (\<lambda>u. f u \<le> n) ts"
    using assms
  proof (induction ts)
    case (Cons a ts)
    show ?case
    proof (cases "f a \<le> n")
      case False
      with Cons.prems have "\<forall>u \<in> set ts. \<not> f u \<le> n" by auto
      with False show ?thesis by (simp add: filter_empty_conv)
    qed (use Cons in auto)
  qed simp
  show "dropWhile (\<lambda>u. f u \<le> n) ts = filter (\<lambda>u. n < f u) ts"
    using assms
  proof (induction ts)
    case (Cons a ts)
    show ?case
    proof (cases "f a \<le> n")
      case False
      with Cons.prems have "\<forall>u \<in> set ts. n < f u" by auto
      with False show ?thesis by (simp add: filter_id_conv)
    qed (use Cons in auto)
  qed simp
qed

text \<open>In a sorted priority list the thread comes behind all threads of its own priority.\<close>

lemma wait_insert_sorted:
  assumes "flag \<noteq> 0" "sorted (map (prio_of s) ts)"
  shows "wait_insert flag s t ts =
      filter (\<lambda>u. prio_of s u \<le> prio_of s t) ts @ t # filter (\<lambda>u. prio_of s t < prio_of s u) ts"
    "sorted (map (prio_of s) (wait_insert flag s t ts))"
proof -
  show e: "wait_insert flag s t ts =
      filter (\<lambda>u. prio_of s u \<le> prio_of s t) ts @ t # filter (\<lambda>u. prio_of s t < prio_of s u) ts"
    using assms by (simp add: wait_insert_def sorted_split)
  show "sorted (map (prio_of s) (wait_insert flag s t ts))"
    unfolding e using assms(2) by (auto simp: sorted_append sorted_filter)
qed

lemma link_suspended:
  assumes inv: "kinv s" and st: "stat_of s t = RT_THREAD_SUSPEND" "tlink s t = None"
    and h: "is_wait h" "lists s h = xs @ ys"
  shows "\<exists>s'. list_put h xs t ys s = Some s' \<and> kinv s' \<and> wait_frame s s' \<and> cur s' = cur s \<and>
    threads s' = threads s \<and> timer_list s' = timer_list s \<and> lists s' = (lists s)(h := xs @ t # ys)"
proof -
  note k = kinvD[OF inv]
  note ok = sched_okD[OF k(1)]
  let ?s = "linked h xs t ys (ready_group s) s"
  have run: "list_put h xs t ys s = Some ?s" using st(2) by (simp add: list_put_def linked_def)
  have l: "links_ok ?s" using ok(1) st(2) h(2) by (rule linked_links_ok)
  have "ReadyQ p \<noteq> h" for p using h(1) by auto
  then have g: "group_ok ?s" using ok(2) unfolding group_ok_def by simp
  have "thr_ok ?s u" for u
  proof (cases "u = t")
    case True
    moreover have "place_ok ?s t" using st h(1) by (cases h) (auto simp: place_ok_def)
    ultimately show ?thesis using ok(3)[of t] by (simp add: thr_ok_def)
  next
    case False
    then have "thr_ok ?s u = thr_ok s u" by (intro thr_ok_cong) simp_all
    with ok(3) show ?thesis by simp
  qed
  with l g have si: "sched_inv ?s" by (simp add: sched_ok_def)
  have "core_frame s ?s" by (simp add: core_frame_def linked_def timer_flag_def)
  then have wf: "wait_frame s ?s"
    by (auto simp: wait_frame_def timer_flag_def intro!: exI[of _ "\<lambda>_. True"])
  have "timers_ok ?s" by (rule timers_ok_cong[OF k(2)]) (use timers_ok_stat[OF k(2)] in auto)
  moreover have "started ?s u = started s u" for u by (simp add: started_def)
  ultimately have "kinv ?s"
    unfolding kinv_def using si k(4) started_typed[OF inv wait_frameD(1)[OF wf]] by auto
  with run wf show ?thesis by (intro exI[of _ ?s]) auto
qed

text \<open>The state after the current thread \<open>t\<close> is suspended and linked into \<open>h\<close>, which then is \<open>ws\<close>.\<close>

definition linked_in :: "lhead \<Rightarrow> nat \<Rightarrow> nat list \<Rightarrow> kstate \<Rightarrow> kstate \<Rightarrow> bool" where
  "linked_in h t ws s s' \<longleftrightarrow> kinv s' \<and> wait_frame s s' \<and> cur s' = cur s \<and>
    stat_of s' t = RT_THREAD_SUSPEND \<and> lists s' h = ws \<and> (\<forall>k. k \<noteq> h \<longrightarrow> lists s' k = lists s k) \<and>
    (\<forall>u. u \<noteq> t \<longrightarrow> threads s' u = threads s u) \<and> th_error (threads s' t) = th_error (threads s t) \<and>
    timer_list s' = timer_list s"

lemma suspend_link_ok:
  assumes inv: "kinv s" and c: "cur s = Some t" "stat_of s t = RT_THREAD_RUNNING"
    and h: "is_wait h" and e: "lists s h = xs @ ys"
  shows "\<exists>s1 s'. rt_thread_suspend t s = Some (RT_EOK, s1) \<and> lists s1 = lists s \<and>
    (\<forall>u. prio_of s1 u = prio_of s u) \<and> list_put h xs t ys s1 = Some s' \<and> linked_in h t (xs @ t # ys) s s'"
proof -
  note k = kinvD[OF inv]
  note ok = sched_okD[OF k(1)]
  have tl: "tlink s t = None" using thr_okD(4)[OF ok(3) c(2)] by blast
  have nl: "removeAll t (lists s j) = lists s j" for j
    using links_okD(1)[OF ok(1), of t j] tl by (simp add: removeAll_id)
  from rt_thread_suspend_ok[OF inv disjI2[OF conjI[OF c]]] obtain s1 where s1:
    "rt_thread_suspend t s = Some (RT_EOK, s1)" "thr_step t s s1" "stat_of s1 t = 2" "tlink s1 t = None"
    "lists s1 = lists s"
    unfolding nl by (elim exE conjE)
  have nt: "ThreadTimer t \<notin> set (timer_list s)" using timers_ok_stat[OF k(2), of t] c(2) by auto
  have tm: "timer_list s1 = timer_list s" using s1(2) nt by (simp add: thr_step_def removeAll_id)
  have pr: "\<forall>u. prio_of s1 u = prio_of s u"
    using core_frameD(13)[of s s1] s1(2) by (simp add: thr_step_def)
  have e1: "lists s1 h = xs @ ys" by (simp add: e s1(5))
  have k1: "kinv s1" using s1(2) by (simp add: thr_step_def)
  from link_suspended[OF k1 s1(3,4) h e1] obtain s' where s':
    "list_put h xs t ys s1 = Some s'" "kinv s'" "wait_frame s1 s'" "cur s' = cur s1" "threads s' = threads s1"
    "timer_list s' = timer_list s1" "lists s' = (lists s1)(h := xs @ t # ys)" by blast
  have wf: "wait_frame s s'" by (rule wait_frame_trans[OF thr_step_frame[OF s1(2)] s'(3)])
  have st: "stat_of s' t = 2" using stat_of_cong[of s' t s1] s'(5) s1(3) by simp
  have "lists s' k = lists s k" if "k \<noteq> h" for k using s'(7) s1(5) that by simp
  moreover have "lists s' h = xs @ t # ys" using s'(7) by simp
  moreover have "cur s' = cur s" "\<forall>u. u \<noteq> t \<longrightarrow> threads s' u = threads s u"
    "th_error (threads s' t) = th_error (threads s t)" "timer_list s' = timer_list s"
    using s1(2) s'(4,5,6) tm unfolding thr_step_def by simp_all
  ultimately have "linked_in h t (xs @ t # ys) s s'" using wf s'(2) st unfolding linked_in_def by blast
  then show ?thesis using s1(1,5) pr s'(1) by blast
qed

lemma list_suspend_ok:
  assumes inv: "kinv s" and c: "cur s = Some t" "stat_of s t = RT_THREAD_RUNNING"
    and h: "is_wait h" and flag: "flag = 0 \<or> flag = 1"
  shows "\<exists>s'. rt_ipc_list_suspend h t flag s = Some s' \<and> linked_in h t (wait_insert flag s t (lists s h)) s s'"
proof -
  define xs where "xs = (if flag = 0 then lists s h else takeWhile (\<lambda>u. prio_of s u \<le> prio_of s t) (lists s h))"
  define ys where "ys = (if flag = 0 then [] else dropWhile (\<lambda>u. prio_of s u \<le> prio_of s t) (lists s h))"
  have e: "lists s h = xs @ ys" by (simp add: xs_def ys_def)
  have i: "xs @ t # ys = wait_insert flag s t (lists s h)" by (simp add: xs_def ys_def wait_insert_def)
  from suspend_link_ok[OF inv c h e] obtain s1 s' where s1: "rt_thread_suspend t s = Some (RT_EOK, s1)"
    "lists s1 = lists s" "\<forall>u. prio_of s1 u = prio_of s u" "list_put h xs t ys s1 = Some s'"
    "linked_in h t (xs @ t # ys) s s'" by blast
  have "rt_ipc_list_suspend h t flag s = Some s'"
    using flag s1(1-4)
    by (auto simp: rt_ipc_list_suspend_def rt_list_insert_before_def xs_def ys_def Let_def not_less)
  then show ?thesis using s1(5) i by auto
qed

lemma sched_leaves:
  assumes inv: "kinv s" and c: "cur s = Some t" "stat_of s t = RT_THREAD_SUSPEND"
    and free: "lock_nest s = 0" "lists s (ReadyQ p) \<noteq> []" and run: "rt_schedule s = Some s'"
  shows "\<exists>u. cur s' = Some u \<and> u \<noteq> t \<and> stat_of s' u = RT_THREAD_RUNNING"
proof -
  note k = kinvD[OF inv]
  have "ready_group s \<noteq> 0" using sched_okD(2)[OF k(1)] free(2) by (auto simp: group_ok_def)
  then obtain q u us where hf: "highest_first s q u us" using highest_first_ex[OF k(1)] by blast
  have low: "stat_of s t = 3 \<Longrightarrow> q \<le> prio_of s t" using c(2) by simp
  from rt_schedule_switch[OF k(1) c(1) free(1) hf low] run have "cur s' = Some u" "stat_of s' u = 3" by auto
  moreover from rt_schedule_kinv[OF inv] run c(2) have "stat_of s' t = 2" by auto
  ultimately show ?thesis by auto
qed

lemma timeout_small:
  assumes "0 < sint (time :: 32 word)" "time \<noteq> 0x7fffffff"
  shows "time < RT_TICK_MAX div 2"
proof -
  have "sint time = int (unat time)" by (rule sint_nonneg_unat) (use assms in simp)
  moreover have "sint time < 2147483648" using sint_lt[of time] by simp
  moreover have "unat time \<noteq> 2147483647"
  proof
    assume "unat time = 2147483647"
    then have "unat time = unat (0x7fffffff :: 32 word)" by simp
    then have "time = 0x7fffffff" by (simp only: word_unat_eq_iff)
    with assms(2) show False by simp
  qed
  ultimately have "int (unat time) < 2147483647" by linarith
  then have "unat time < 2147483647" by linarith
  then show ?thesis by (simp add: word_less_nat_alt unat_div)
qed

text \<open>The state after a blocking call: the thread is suspended in the list, which then is \<open>ws\<close>, its timer
  is armed exactly for a limited wait, and unless the scheduler is locked another thread runs.\<close>

definition blocked_at :: "lhead \<Rightarrow> nat \<Rightarrow> nat list \<Rightarrow> 32 word \<Rightarrow> kstate \<Rightarrow> kstate \<Rightarrow> bool" where
  "blocked_at h t ws time s s' \<longleftrightarrow> kinv s' \<and> core_frame s s' \<and> stat_of s' t = RT_THREAD_SUSPEND \<and>
     lists s' h = ws \<and>
     (\<forall>k. is_wait k \<and> k \<noteq> h \<longrightarrow> lists s' k = lists s k) \<and>
     (\<forall>u. u \<noteq> t \<longrightarrow> (stat_of s' u = RT_THREAD_SUSPEND) = (stat_of s u = RT_THREAD_SUSPEND)) \<and>
     (\<forall>u. th_error (threads s' u) = th_error (threads s u)) \<and>
     (ThreadTimer t \<in> set (timer_list s') \<longleftrightarrow> 0 < sint time) \<and>
     (0 < sint time \<longrightarrow> tm_timeout_tick (timers s' (ThreadTimer t)) = tick s + time) \<and>
     (lock_nest s = 0 \<and> (\<exists>p. lists s (ReadyQ p) \<noteq> []) \<longrightarrow>
       (\<exists>u. cur s' = Some u \<and> u \<noteq> t \<and> stat_of s' u = RT_THREAD_RUNNING))"

definition blocked_in :: "lhead \<Rightarrow> nat \<Rightarrow> u8 \<Rightarrow> 32 word \<Rightarrow> kstate \<Rightarrow> kstate \<Rightarrow> bool" where
  "blocked_in h t flag time s s' \<longleftrightarrow> blocked_at h t (wait_insert flag s t (lists s h)) time s s'"

lemma blocked_atD:
  assumes "blocked_at h t ws time s s'"
  shows "kinv s'" "core_frame s s'" "stat_of s' t = RT_THREAD_SUSPEND" "lists s' h = ws"
    "is_wait k \<Longrightarrow> k \<noteq> h \<Longrightarrow> lists s' k = lists s k"
    "u \<noteq> t \<Longrightarrow> (stat_of s' u = RT_THREAD_SUSPEND) = (stat_of s u = RT_THREAD_SUSPEND)"
    "th_error (threads s' u) = th_error (threads s u)"
    "ThreadTimer t \<in> set (timer_list s') \<longleftrightarrow> 0 < sint time"
    "0 < sint time \<Longrightarrow> tm_timeout_tick (timers s' (ThreadTimer t)) = tick s + time"
  using assms by (simp_all add: blocked_at_def)

lemmas blocked_inD = blocked_atD[OF blocked_in_def[THEN iffD1]]

lemma arm_and_schedule:
  assumes inv: "kinv s" and c: "cur s = Some t" "stat_of s t = RT_THREAD_RUNNING"
    and h: "is_wait h" and time: "0 < sint time \<longrightarrow> time \<noteq> 0x7fffffff" and l: "linked_in h t ws s s1"
  shows "\<exists>s2 s'. (if 0 < sint time then timer_arm (ThreadTimer t) time s1 else Some s1) = Some s2 \<and>
    rt_schedule s2 = Some s' \<and> blocked_at h t ws time s s'"
proof -
  have s1: "kinv s1" "wait_frame s s1" "cur s1 = cur s" "stat_of s1 t = 2" "lists s1 h = ws"
    "\<And>k. k \<noteq> h \<Longrightarrow> lists s1 k = lists s k" "\<And>u. u \<noteq> t \<Longrightarrow> threads s1 u = threads s u"
    "th_error (threads s1 t) = th_error (threads s t)" "timer_list s1 = timer_list s"
    using l by (simp_all add: linked_in_def)
  have nt: "ThreadTimer t \<notin> set (timer_list s)" using timers_ok_stat[OF kinvD(2)[OF inv], of t] c(2) by auto
  have "\<exists>s2. (if 0 < sint time then timer_arm (ThreadTimer t) time s1 else Some s1) = Some s2 \<and> kinv s2 \<and>
    core_frame s1 s2 \<and> same_sched s1 s2 \<and> (ThreadTimer t \<in> set (timer_list s2) \<longleftrightarrow> 0 < sint time) \<and>
    (0 < sint time \<longrightarrow> tm_timeout_tick (timers s2 (ThreadTimer t)) = tick s1 + time)"
  proof (cases "0 < sint time")
    case True
    then have sm: "time < RT_TICK_MAX div 2" using timeout_small time by blast
    from timer_arm_ok[OF s1(1,4) sm] True show ?thesis by auto
  next
    case False
    then show ?thesis using s1(1,9) nt by (intro exI[of _ s1]) (simp add: same_sched_def)
  qed
  then obtain s2 where s2: "(if 0 < sint time then timer_arm (ThreadTimer t) time s1 else Some s1) = Some s2"
    "kinv s2" "core_frame s1 s2" "same_sched s1 s2" "ThreadTimer t \<in> set (timer_list s2) \<longleftrightarrow> 0 < sint time"
    "0 < sint time \<Longrightarrow> tm_timeout_tick (timers s2 (ThreadTimer t)) = tick s1 + time" by blast
  note sm = same_schedD[OF s2(4)]
  from rt_schedule_kinv[OF s2(2)] obtain s' where s': "rt_schedule s2 = Some s'" "kinv s'" "sched_frame s2 s'"
    "\<And>u. stat_of s' u = 2 \<longleftrightarrow> stat_of s2 u = 2" by blast
  note f = sched_frameD[OF s'(3)]
  have cf: "core_frame s s'"
    using core_frame_trans[OF wait_frameD(1)[OF s1(2)] core_frame_trans[OF s2(3) sched_core_frame[OF s'(3)]]] .
  have li: "lists s' k = lists s1 k" if "is_wait k" for k
    using that f(24,25,27) sm(2) by (cases k) auto
  have st: "stat_of s' u = 2 \<longleftrightarrow> stat_of s1 u = 2" for u using s'(4)[of u] sm(6)[of u] by simp
  have oth: "(stat_of s' u = 2) = (stat_of s u = 2)" if "u \<noteq> t" for u
    using st[of u] stat_of_cong[of s1 u s] s1(7)[OF that] by simp
  have er: "th_error (threads s' u) = th_error (threads s u)" for u
    using f(18)[of u] sm(1) s1(7)[of u] s1(8) by (cases "u = t") simp_all
  have tk: "tick s1 = tick s" using core_frameD(2)[OF wait_frameD(1)[OF s1(2)]] .
  have lv: "\<exists>u. cur s' = Some u \<and> u \<noteq> t \<and> stat_of s' u = 3"
    if "lock_nest s = 0" "lists s (ReadyQ p) \<noteq> []" for p
  proof (rule sched_leaves[OF s2(2) _ _ _ _ s'(1)])
    show "cur s2 = Some t" "stat_of s2 t = 2" using sm(5) sm(6)[of t] s1(3,4) c(1) by simp_all
    show "lock_nest s2 = 0"
      using core_frameD(3)[OF s2(3)] core_frameD(3)[OF wait_frameD(1)[OF s1(2)]] that(1) by simp
    have "ReadyQ p \<noteq> h" using h by auto
    then show "lists s2 (ReadyQ p) \<noteq> []" using sm(2) s1(6) that(2) by simp
  qed
  have t1: "stat_of s' t = 2" using st[of t] s1(4) by simp
  have t2: "lists s' h = ws" using li[OF h] s1(5) by simp
  have t3: "\<forall>k. is_wait k \<and> k \<noteq> h \<longrightarrow> lists s' k = lists s k" using li s1(6) by simp
  have t4: "ThreadTimer t \<in> set (timer_list s') \<longleftrightarrow> 0 < sint time" using f(4) s2(5) by simp
  have t5: "0 < sint time \<longrightarrow> tm_timeout_tick (timers s' (ThreadTimer t)) = tick s + time"
    using f(3) s2(6) tk by simp
  have "blocked_at h t ws time s s'" unfolding blocked_at_def using s'(2) cf t1 t2 t3 oth er t4 t5 lv by blast
  then show ?thesis using s2(1) s'(1) by blast
qed

lemma block_thread_ok:
  assumes inv: "kinv s" and c: "cur s = Some t" "stat_of s t = RT_THREAD_RUNNING"
    and h: "is_wait h" and flag: "flag = 0 \<or> flag = 1" and time: "0 < sint time \<longrightarrow> time \<noteq> 0x7fffffff"
  shows "\<exists>s'. block_thread h t flag time s = Some s' \<and> blocked_in h t flag time s s'"
proof -
  from list_suspend_ok[OF inv c h flag] obtain s1 where s1: "rt_ipc_list_suspend h t flag s = Some s1"
    "linked_in h t (wait_insert flag s t (lists s h)) s s1" by blast
  from arm_and_schedule[OF inv c h time s1(2)] show ?thesis
    unfolding block_thread_def s1(1) blocked_in_def by auto
qed

text \<open>The context of a call that may block: the thread \<open>t\<close> runs, not an interrupt handler; and the
  arguments for which the call does not run into an assertion.\<close>

definition running :: "kstate \<Rightarrow> nat \<Rightarrow> bool" where
  "running s t \<longleftrightarrow> cur s = Some t \<and> stat_of s t = RT_THREAD_RUNNING \<and> interrupt_nest s = 0"

definition wait_args :: "oid \<Rightarrow> 32 word \<Rightarrow> kstate \<Rightarrow> bool" where
  "wait_args x time s \<longleftrightarrow> (flag_of x s = 0 \<or> flag_of x s = 1) \<and> (0 < sint time \<longrightarrow> time \<noteq> 0x7fffffff)"

lemma block_thread_running:
  assumes "kinv s" "running s t" "is_wait h" "wait_args x time s"
  shows "\<exists>s'. block_thread h t (flag_of x s) time s = Some s' \<and> blocked_in h t (flag_of x s) time s s'"
  using block_thread_ok[of s t h "flag_of x s" time] assms
  unfolding running_def wait_args_def by blast

lemma running_error [simp]: "running (set_error t e s) u = running s u"
  by (simp add: running_def)

lemma wait_args_error [simp]: "wait_args x time (set_error t e s) = wait_args x time s"
  "flag_of x (set_error t e s) = flag_of x s"
  by (simp_all add: wait_args_def flag_of_def)

lemma running_checks:
  assumes "running s t"
  shows "RT_DEBUG_IN_THREAD_CONTEXT s = Some ()" "RT_DEBUG_NOT_IN_INTERRUPT s = Some ()" "rt_thread_self s = Some t"
  using assms by (simp_all add: running_def RT_DEBUG_IN_THREAD_CONTEXT_def RT_DEBUG_NOT_IN_INTERRUPT_def rt_thread_self_def)

lemma set_error_payload [simp]:
  "sems (set_error t e s) = sems s" "mutexes (set_error t e s) = mutexes s" "events (set_error t e s) = events s"
  "mailboxes (set_error t e s) = mailboxes s" "mqueues (set_error t e s) = mqueues s"
  "mempools (set_error t e s) = mempools s" "kheap (set_error t e s) = kheap s" "mp_links (set_error t e s) = mp_links s"
  by (simp_all add: set_error_def)

section \<open>Creating and deleting objects\<close>

lemma kinv_obj_upd:
  assumes "kinv s" "\<And>t. x \<noteq> OThread t" "\<And>y. x \<noteq> OTimer y"
  shows "kinv (obj_upd x f s)"
proof -
  let ?s = "obj_upd x f s"
  note k = kinvD[OF assms(1)]
  have sm: "same_sched s ?s" by (simp add: same_sched_def)
  have o: "objs ?s (OThread t) = objs s (OThread t)" "objs ?s (OTimer y) = objs s (OTimer y)" for t y
    using assms(2)[of t] assms(3)[of y] by auto
  have e: "timer_entry_ok ?s y = timer_entry_ok s y" for y
    using same_schedD(6)[OF sm] o
    by (simp add: timer_entry_ok_def rt_object_get_type_def timer_flag_def split: timer_id.split)
  have "typed_ok ?s t = typed_ok s t" for t
    using o by (simp add: typed_ok_def rt_object_get_type_def timer_flag_def)
  then show ?thesis
    unfolding kinv_def same_schedD(5,8,9)[OF sm] using k e by (simp add: timers_ok_def)
qed

lemma object_init_ok:
  assumes inv: "kinv s" and lock: "lock_nest s = 0" and new: "x \<notin> set (containers s ty)"
    and info: "rt_object_get_information ty \<noteq> None" and name: "rt_strncpy 8 name = Some nm"
    and x: "\<And>t. x \<noteq> OThread t" "\<And>y. x \<noteq> OTimer y"
  shows "\<exists>s'. rt_object_init x ty name s = Some s' \<and> kinv s' \<and> (\<forall>k. is_wait k \<longrightarrow> lists s' k = lists s k) \<and>
    obj_type (objs s' x) = ty OR Class_Static \<and> (\<forall>t. th_error (threads s' t) = th_error (threads s t))"
proof -
  have l: "s\<lparr>lock_nest := 0\<rparr> = s" using lock by simp
  from schedule_waiters[OF inv] obtain s1 where s1: "rt_schedule s = Some s1" "kinv s1" "wait_frame s s1"
    "\<And>k. is_wait k \<Longrightarrow> lists s1 k = lists s k" "\<And>u. th_error (threads s1 u) = th_error (threads s u)" by blast
  have "rt_exit_critical (rt_enter_critical s) = Some s1"
    using s1(1) kinvD(4)[OF inv] by (auto simp: rt_exit_critical_def rt_enter_critical_def Let_def lock l)
  moreover have "containers (rt_enter_critical s) ty = containers s ty" by (simp add: rt_enter_critical_def)
  ultimately have run: "rt_object_init x ty name s =
      Some (container_put ty x (obj_upd x (\<lambda>ob. ob\<lparr>obj_type := ty OR Class_Static, obj_name := nm\<rparr>) s1))"
    using new info name by (auto simp: rt_object_init_def)
  moreover have "kinv (container_put ty x (obj_upd x g s1))" for g
    using kinv_obj_upd[OF s1(2) x] by (simp add: container_put_def)
  ultimately show ?thesis using s1(4,5) by (simp add: container_put_def)
qed

section \<open>Calls in progress\<close>

text \<open>A history of an object tracks the set \<open>P\<close> of the threads that are inside a blocking call on the list \<open>h\<close>:
  they have blocked and have not returned. Those that wait have the error code 0; those that have been taken
  off the list and still have it were served, and the call will return successfully. \<open>-RT_EINTR\<close> is only set by
  signals, which are compiled out.\<close>

definition granted :: "lhead \<Rightarrow> nat set \<Rightarrow> kstate \<Rightarrow> nat set" where
  "granted h P s = {t \<in> P. t \<notin> set (lists s h) \<and> th_error (threads s t) = RT_EOK}"

definition in_calls :: "lhead \<Rightarrow> nat set \<Rightarrow> kstate \<Rightarrow> bool" where
  "in_calls h P s \<longleftrightarrow> finite P \<and> set (lists s h) \<subseteq> P \<and> (\<forall>t \<in> set (lists s h). th_error (threads s t) = RT_EOK) \<and>
     (\<forall>t \<in> P. th_error (threads s t) \<noteq> - RT_EINTR)"

text \<open>What other code may do to these threads: end a wait with an error, as a timeout does, and nothing else.\<close>

definition bystander :: "lhead \<Rightarrow> nat set \<Rightarrow> kstate \<Rightarrow> kstate \<Rightarrow> bool" where
  "bystander h P s s' \<longleftrightarrow> set (lists s' h) \<subseteq> set (lists s h) \<and>
     (\<forall>t \<in> P. if t \<in> set (lists s h) - set (lists s' h)
             then th_error (threads s' t) \<noteq> RT_EOK \<and> th_error (threads s' t) \<noteq> - RT_EINTR
             else th_error (threads s' t) = th_error (threads s t))"

lemma bystander_calls:
  assumes "in_calls h P s" "bystander h P s s'"
  shows "in_calls h P s'" "granted h P s' = granted h P s"
proof -
  have c: "finite P" "set (lists s h) \<subseteq> P" "\<And>t. t \<in> set (lists s h) \<Longrightarrow> th_error (threads s t) = 0"
    "\<And>t. t \<in> P \<Longrightarrow> th_error (threads s t) \<noteq> - 9" using assms(1) by (auto simp: in_calls_def)
  have sub: "set (lists s' h) \<subseteq> set (lists s h)" using assms(2) by (simp add: bystander_def)
  have left: "th_error (threads s' t) \<noteq> 0 \<and> th_error (threads s' t) \<noteq> - 9"
    if "t \<in> set (lists s h)" "t \<notin> set (lists s' h)" for t
  proof -
    have "t \<in> P" using c(2) that(1) by blast
    then show ?thesis using assms(2) that by (auto simp: bystander_def)
  qed
  have same: "th_error (threads s' t) = th_error (threads s t)"
    if "t \<in> P" "t \<notin> set (lists s h) \<or> t \<in> set (lists s' h)" for t
    using assms(2) that by (auto simp: bystander_def)
  have "th_error (threads s' t) = 0" if "t \<in> set (lists s' h)" for t
  proof -
    have "t \<in> set (lists s h)" "t \<in> P" using that sub c(2) by blast+
    then show ?thesis using that same[of t] c(3)[of t] by simp
  qed
  moreover have "th_error (threads s' t) \<noteq> - 9" if "t \<in> P" for t
    using left[of t] same[OF that] c(4)[OF that] by (cases "t \<in> set (lists s h) \<and> t \<notin> set (lists s' h)") auto
  ultimately show "in_calls h P s'" using sub c(1,2) by (auto simp: in_calls_def)
  have "t \<notin> set (lists s' h) \<and> th_error (threads s' t) = 0 \<longleftrightarrow> t \<notin> set (lists s h) \<and> th_error (threads s t) = 0"
    if "t \<in> P" for t
    using sub left[of t] same[OF that] by (cases "t \<in> set (lists s h)"; cases "t \<in> set (lists s' h)") auto
  then show "granted h P s' = granted h P s" by (auto simp: granted_def)
qed

lemma bystander_same:
  "\<lbrakk>lists s' h = lists s h; \<And>t. t \<in> P \<Longrightarrow> th_error (threads s' t) = th_error (threads s t)\<rbrakk> \<Longrightarrow> bystander h P s s'"
  by (simp add: bystander_def)

lemma timeout_bystander:
  assumes inv: "kinv s" and h: "is_wait h" and t: "t \<in> set (lists s h)" "ThreadTimer t \<notin> set (timer_list s)"
    and run: "rt_thread_timeout t s = Some s'"
  shows "kinv s'" "core_frame s s'" "bystander h P s s'"
proof -
  from rt_thread_timeout_ok[OF inv waiting_suspended[OF inv h t(1)] t(2)] run have s': "kinv s'" "core_frame s s'"
    "th_error (threads s' t) = - RT_ETIMEOUT" "\<And>x. lists s' (WaitQ x) = removeAll t (lists s (WaitQ x))"
    "\<And>x. lists s' (SenderQ x) = removeAll t (lists s (SenderQ x))"
    "\<And>x. lists s' (DriverQ x) = removeAll t (lists s (DriverQ x))"
    "\<And>u. u \<noteq> t \<Longrightarrow> th_error (threads s' u) = th_error (threads s u)" by auto
  show "kinv s'" "core_frame s s'" by (rule s'(1), rule s'(2))
  have "lists s' h = removeAll t (lists s h)" using h s'(4-6) by (cases h) simp_all
  then have "set (lists s' h) = set (lists s h) - {t}" by simp
  moreover have "th_error (threads s' u) = th_error (threads s u)" if "u \<notin> set (lists s h) \<or> u \<noteq> t" for u
    using s'(7)[of u] t(1) that by blast
  ultimately show "bystander h P s s'" using s'(3) by (auto simp: bystander_def)
qed

lemma calls_block:
  assumes "in_calls h P s" "t \<notin> P" "set (lists s' h) = insert t (set (lists s h))"
    "th_error (threads s' t) = RT_EOK" "\<And>u. u \<noteq> t \<Longrightarrow> th_error (threads s' u) = th_error (threads s u)"
  shows "in_calls h (insert t P) s'" "granted h (insert t P) s' = granted h P s"
proof -
  have e: "th_error (threads s' u) = (if u = t then 0 else th_error (threads s u))" for u using assms(4,5) by simp
  show "in_calls h (insert t P) s'" using assms(1,3) unfolding in_calls_def e by auto
  show "granted h (insert t P) s' = granted h P s" using assms(2,3) unfolding granted_def e by auto
qed

lemma calls_wake:
  assumes "in_calls h P s" "lists s h = t # ts" "t \<notin> set ts" "lists s' h = ts"
    "\<And>u. th_error (threads s' u) = th_error (threads s u)"
  shows "in_calls h P s'" "granted h P s' = insert t (granted h P s)" "t \<notin> granted h P s"
  using assms unfolding in_calls_def granted_def by auto

lemma calls_return:
  assumes "in_calls h P s" "t \<in> P" "t \<notin> set (lists s h)"
  shows "in_calls h (P - {t}) s" "granted h (P - {t}) s = granted h P s - {t}"
    "t \<in> granted h P s \<longleftrightarrow> th_error (threads s t) = RT_EOK" "finite (granted h P s)"
  using assms unfolding in_calls_def granted_def by auto

lemma running_not_waiting:
  assumes "kinv s" "is_wait h" "running s t"
  shows "t \<notin> set (lists s h)"
  using waiting_suspended[OF assms(1,2), of t] assms(3) by (auto simp: running_def)

section \<open>Sample states\<close>

text \<open>Thread 2 waits in the list \<open>h\<close>, without a timer.\<close>

definition sample_wait :: "lhead \<Rightarrow> kstate" where
  "sample_wait h = sample_sleep\<lparr>timer_list := [], lists := (lists sample_sleep)(h := [2]),
     tlink := (tlink sample_sleep)(2 := Some h)\<rparr>"

lemma sample_wait_simps:
  "cur (sample_wait h) = Some 1" "timer_list (sample_wait h) = []" "threads (sample_wait h) = threads sample_sleep"
  "objs (sample_wait h) = objs sample_sleep" "sems (sample_wait h) = sems sample"
  "is_wait h \<Longrightarrow> lists (sample_wait h) = (\<lambda>_. [])(ReadyQ 20 := [3], h := [2])"
  "stat_of (sample_wait h) t = stat_of sample_sleep t" "prio_of (sample_wait h) t = prio_of sample_sleep t"
  "interrupt_nest (sample_wait h) = 0" "lock_nest (sample_wait h) = 0" "tick (sample_wait h) = 100"
  "mutexes (sample_wait h) = mutexes sample" "events (sample_wait h) = events sample"
  "mailboxes (sample_wait h) = mailboxes sample" "mqueues (sample_wait h) = mqueues sample"
  by (simp_all add: sample_wait_def sample_sleep_def sample_simps stat_of_def prio_of_def)

lemma sample_wait_kinv:
  assumes "is_wait h"
  shows "kinv (sample_wait h)"
proof -
  let ?s = "sample_sleep\<lparr>timer_list := []\<rparr>"
  note k = kinvD[OF sample_sleep_kinv]
  have sm: "same_sched sample_sleep ?s" by (simp add: same_sched_def)
  have ty: "typed_ok ?s t = typed_ok sample_sleep t" for t
    by (simp add: typed_ok_def rt_object_get_type_def timer_flag_def)
  have "kinv ?s"
    unfolding kinv_def same_schedD(5,8,9)[OF sm] ty using k by (simp add: timers_ok_def)
  moreover have "lists ?s h = [] @ []" using assms by (cases h) (simp_all add: sample_sleep_simps)
  moreover have "stat_of ?s 2 = 2" "tlink ?s 2 = None"
    using same_schedD(6)[OF sm, of 2] by (simp_all add: sample_sleep_stat sample_sleep_simps)
  ultimately obtain s' where "list_put h [] 2 [] ?s = Some s'" "kinv s'"
    using link_suspended[of ?s 2 h "[]" "[]"] assms by auto
  moreover have "list_put h [] 2 [] ?s = Some (sample_wait h)"
    by (simp add: list_put_def sample_wait_def sample_sleep_simps)
  ultimately show ?thesis by simp
qed

lemma sample_type_ok: "rt_object_get_type (OSemaphore x) (sample_wait h) = Class_Semaphore"
  "rt_object_get_type (OMutex x) (sample_wait h) = Class_Mutex"
  "rt_object_get_type (OEvent x) (sample_wait h) = Class_Event"
  "rt_object_get_type (OMailBox x) (sample_wait h) = Class_MailBox"
  "rt_object_get_type (OMessageQueue x) (sample_wait h) = Class_MessageQueue"
  "flag_of x' sample = 0"
  by (simp_all add: rt_object_get_type_def sample_wait_def sample_sleep_def sample_def sample_type_def flag_of_def)

end
