(* ===== verification/Heap.thy ===== *)
theory Heap
  imports Small_mem
begin

text \<open>
  Correctness of the system heap. The chain of block headers is described by the list of block offsets,
  from 0 to the sentinel \<open>heap_end\<close>; \<open>heap_inv\<close> is what every operation keeps: links in both directions,
  no two adjacent free blocks, and \<open>lfree\<close> the lowest free block. The blocks in use, as pairs of their
  start and the start of the next block, are the abstract state.
\<close>

section \<open>Chains of blocks\<close>

abbreviation used :: "small_mem \<Rightarrow> u32 \<Rightarrow> bool" where
  "used h a \<equiv> hm_used (hdr h a) \<noteq> 0"

definition blk :: "small_mem \<Rightarrow> u32 \<Rightarrow> u32 \<Rightarrow> u32 \<Rightarrow> bool" where
  "blk h p a b \<longleftrightarrow> hm_prev (hdr h a) = p \<and> hm_next (hdr h a) = b \<and> hm_magic (hdr h a) = HEAP_MAGIC \<and>
     unat a + 16 \<le> unat b \<and> unat a mod 4 = 0"

fun seg :: "small_mem \<Rightarrow> u32 \<Rightarrow> u32 list \<Rightarrow> u32 \<Rightarrow> bool" where
  "seg h p [] b \<longleftrightarrow> True"
| "seg h p (a # as) b \<longleftrightarrow> blk h p a (hd (as @ [b])) \<and> seg h a as b"

lemma hd_append_hd: "hd ((xs @ ys) @ [b]) = hd (xs @ [hd (ys @ [b])])"
  by (cases xs) simp_all

lemma seg_append:
  "seg h p (xs @ ys) b \<longleftrightarrow> seg h p xs (hd (ys @ [b])) \<and> seg h (last (p # xs)) ys b"
  by (induction xs arbitrary: p) (auto simp: hd_append_hd simp del: append_assoc)

lemma seg_cong:
  assumes "\<And>a. a \<in> set xs \<Longrightarrow> hm_prev (hdr h' a) = hm_prev (hdr h a) \<and> hm_next (hdr h' a) = hm_next (hdr h a) \<and>
    hm_magic (hdr h' a) = hm_magic (hdr h a)"
  shows "seg h' p xs b = seg h p xs b"
  using assms by (induction xs arbitrary: p) (auto simp: blk_def)

lemma seg_sorted:
  assumes "seg h p xs b"
  shows "sorted_wrt (\<lambda>a c. unat a + 12 \<le> unat c) (xs @ [b])"
  using assms
proof (induction xs arbitrary: p)
  case (Cons a as)
  then have ih: "sorted_wrt (\<lambda>a c. unat a + 12 \<le> unat c) (as @ [b])" and a: "unat a + 12 \<le> unat (hd (as @ [b]))"
    by (auto simp: blk_def)
  have "unat (hd (as @ [b])) \<le> unat c" if "c \<in> set (as @ [b])" for c
    using ih that by (cases as) auto
  with a ih show ?case by fastforce
qed simp

lemma seg_distinct:
  assumes "seg h p xs b"
  shows "distinct (xs @ [b])"
proof -
  have "sorted_wrt (\<lambda>a c. unat a + 12 \<le> unat c) ys \<Longrightarrow> distinct ys" for ys :: "u32 list"
    by (induction ys) auto
  with seg_sorted[OF assms] show ?thesis by blast
qed

text \<open>Changing the back link of the first block.\<close>

definition set_prev :: "u32 \<Rightarrow> u32 \<Rightarrow> small_mem \<Rightarrow> small_mem" where
  "set_prev a p = hdr_upd a (hm_prev_update (\<lambda>_. p))"

lemma hdr_upd_simps [simp]:
  "hdr (hdr_upd a f h) = (hdr h)(a := f (hdr h a))" "heap_ptr (hdr_upd a f h) = heap_ptr h"
  "heap_end (hdr_upd a f h) = heap_end h" "lfree (hdr_upd a f h) = lfree h"
  "mem_size_aligned (hdr_upd a f h) = mem_size_aligned h" "used_mem (hdr_upd a f h) = used_mem h"
  "max_mem (hdr_upd a f h) = max_mem h" "bytes (hdr_upd a f h) = bytes h"
  by (simp_all add: hdr_upd_def)

lemma seg_relink:
  assumes "seg h p ys b" "distinct ys"
  shows "seg (set_prev (hd (ys @ [b])) q h) q ys b"
proof (cases ys)
  case (Cons c cs)
  have "seg (set_prev c q h) c cs b = seg h c cs b"
    by (rule seg_cong) (use assms(2) Cons in \<open>auto simp: set_prev_def\<close>)
  with assms(1) Cons show ?thesis by (simp add: blk_def set_prev_def)
qed simp

lemma unat_add_small: "unat a + unat b < 2 ^ 32 \<Longrightarrow> unat (a + b :: u32) = unat a + unat b"
  by (simp add: unat_word_ariths)

section \<open>The invariant\<close>

text \<open>No two neighbours are free.\<close>

definition coalesced :: "small_mem \<Rightarrow> u32 list \<Rightarrow> bool" where
  "coalesced h = successively (\<lambda>a b. used h a \<or> used h b)"

lemma coalesced_simps [simp]:
  "coalesced h []" "coalesced h [a]" "coalesced h (a # b # bs) \<longleftrightarrow> (used h a \<or> used h b) \<and> coalesced h (b # bs)"
  by (simp_all add: coalesced_def)

lemma coalesced_append:
  "coalesced h (xs @ ys) \<longleftrightarrow> coalesced h xs \<and> coalesced h ys \<and>
     (xs = [] \<or> ys = [] \<or> used h (last xs) \<or> used h (hd ys))"
  by (auto simp: coalesced_def successively_append_iff)

lemma coalesced_Cons: "coalesced h (a # bs) \<longleftrightarrow> (bs = [] \<or> used h a \<or> used h (hd bs)) \<and> coalesced h bs"
  by (cases bs) auto

lemma coalesced_cong:
  assumes "\<And>a. a \<in> set bs \<Longrightarrow> used h' a = used h a"
  shows "coalesced h' bs = coalesced h bs"
  unfolding coalesced_def by (rule successively_cong) (use assms in auto)

definition heap_base :: "small_mem \<Rightarrow> u32 list \<Rightarrow> bool" where
  "heap_base h bs \<longleftrightarrow>
     bs \<noteq> [] \<and> hd bs = 0 \<and> seg h 0 bs (heap_end h) \<and> used h (heap_end h) \<and>
     unat (heap_end h) = unat (mem_size_aligned h) + 12 \<and> unat (mem_size_aligned h) mod 4 = 0 \<and>
     unat (heap_ptr h) + unat (heap_end h) + 12 \<le> 2 ^ 32 \<and> unat (heap_ptr h) mod 4 = 0 \<and> heap_ptr h \<noteq> 0 \<and>
     12 \<le> unat (mem_size_aligned h) \<and>
     (lfree h = heap_end h \<or> lfree h \<in> set bs \<and> \<not> used h (lfree h)) \<and>
     (\<forall>a \<in> set bs. \<not> used h a \<longrightarrow> lfree h \<le> a)"

definition heap_inv :: "small_mem \<Rightarrow> u32 list \<Rightarrow> bool" where
  "heap_inv h bs \<longleftrightarrow> heap_base h bs \<and> coalesced h bs"

lemma heap_baseD:
  assumes "heap_base h bs"
  shows "bs \<noteq> []" "hd bs = 0" "seg h 0 bs (heap_end h)" "used h (heap_end h)"
    "unat (heap_end h) = unat (mem_size_aligned h) + 12" "unat (mem_size_aligned h) mod 4 = 0"
    "unat (heap_ptr h) + unat (heap_end h) + 12 \<le> 2 ^ 32" "unat (heap_ptr h) mod 4 = 0"
    "12 \<le> unat (mem_size_aligned h)"
    "lfree h = heap_end h \<or> lfree h \<in> set bs \<and> \<not> used h (lfree h)"
    "a \<in> set bs \<Longrightarrow> \<not> used h a \<Longrightarrow> lfree h \<le> a"
    "distinct (bs @ [heap_end h])" "sorted_wrt (\<lambda>a c. unat a + 12 \<le> unat c) (bs @ [heap_end h])"
    "0 < unat (heap_ptr h)"
  using assms seg_distinct[of h 0 bs "heap_end h"] seg_sorted[of h 0 bs "heap_end h"]
  by (auto simp: heap_base_def unat_gt_0)

lemma heap_invD:
  assumes "heap_inv h bs"
  shows "bs \<noteq> []" "hd bs = 0" "seg h 0 bs (heap_end h)" "used h (heap_end h)"
    "unat (heap_end h) = unat (mem_size_aligned h) + 12" "unat (mem_size_aligned h) mod 4 = 0"
    "unat (heap_ptr h) + unat (heap_end h) + 12 \<le> 2 ^ 32" "unat (heap_ptr h) mod 4 = 0"
    "coalesced h bs"
    "lfree h = heap_end h \<or> lfree h \<in> set bs \<and> \<not> used h (lfree h)"
    "a \<in> set bs \<Longrightarrow> \<not> used h a \<Longrightarrow> lfree h \<le> a"
    "distinct (bs @ [heap_end h])" "sorted_wrt (\<lambda>a c. unat a + 12 \<le> unat c) (bs @ [heap_end h])"
    "0 < unat (heap_ptr h)" "12 \<le> unat (mem_size_aligned h)"
  using assms heap_baseD[of h bs] by (auto simp: heap_inv_def)

text \<open>The blocks in use, by the offsets of their header and of the next header.\<close>

definition allocs :: "small_mem \<Rightarrow> u32 list \<Rightarrow> (u32 \<times> u32) set" where
  "allocs h bs = {(a, hm_next (hdr h a)) | a. a \<in> set bs \<and> used h a}"

lemma next_block:
  assumes "seg h p (xs @ a # ys) e"
  shows "hm_next (hdr h a) = hd (ys @ [e])" "unat a + 12 \<le> unat (hd (ys @ [e]))" "unat a mod 4 = 0"
  using assms by (simp_all add: seg_append blk_def)

text \<open>Blocks do not overlap.\<close>

lemma blocks_apart:
  assumes "heap_inv h bs" "a \<in> set bs" "b \<in> set bs" "a \<noteq> b"
  shows "unat (hm_next (hdr h a)) \<le> unat b \<or> unat (hm_next (hdr h b)) \<le> unat a"
proof -
  note i = heap_invD[OF assms(1)]
  have *: "unat (hm_next (hdr h c)) \<le> unat d" if "bs = xs @ c # ys" "d \<in> set ys" for c d xs ys
  proof -
    have "hm_next (hdr h c) = hd (ys @ [heap_end h])" using next_block(1) i(3) that(1) by metis
    moreover have "sorted_wrt (\<lambda>a c. unat a + 12 \<le> unat c) ys" using i(13) that(1) by (simp add: sorted_wrt_append)
    ultimately show ?thesis using that(2) by (cases ys) auto
  qed
  obtain xs ys where s: "bs = xs @ a # ys" using split_list[OF assms(2)] by blast
  from assms(3,4) s consider "b \<in> set ys" | "b \<in> set xs" by auto
  then show ?thesis
  proof cases
    case 2
    then obtain us vs where "xs = us @ b # vs" using split_list by metis
    with s have "bs = us @ b # (vs @ a # ys)" by simp
    from *[OF this] show ?thesis by simp
  qed (use *[OF s] in blast)
qed

section \<open>Searching\<close>

lemma lfree_search_seg:
  assumes "seg h p zs e" "e = heap_end h"
  shows "lfree_search h (hd (zs @ [e])) = Some (hd (dropWhile (used h) zs @ [e]))"
  using assms(1)
proof (induction zs arbitrary: p)
  case Nil
  show ?case by (subst lfree_search.simps) (simp add: assms(2))
next
  case (Cons a as)
  have d: "a \<noteq> heap_end h" using seg_distinct[OF Cons.prems] assms(2) by auto
  show ?case
  proof (cases "used h a")
    case True
    have n: "hm_next (hdr h a) = hd (as @ [e])" "seg h a as e" using Cons.prems by (simp_all add: blk_def)
    show ?thesis by (subst lfree_search.simps) (use True d n(1) Cons.IH[OF n(2)] in simp)
  next
    case False
    then show ?thesis by (subst lfree_search.simps) simp
  qed
qed

text \<open>A free block is large enough for \<open>sz\<close> bytes; the loop of \<open>rt_malloc\<close> also wants it to start below
  \<open>mem_size_aligned - sz\<close>.\<close>

definition fits :: "small_mem \<Rightarrow> u32 \<Rightarrow> u32 \<Rightarrow> bool" where
  "fits h sz a \<longleftrightarrow> \<not> used h a \<and> unat a + 12 + unat sz \<le> unat (hm_next (hdr h a)) \<and>
     unat a + unat sz < unat (mem_size_aligned h)"

lemma unat_gap:
  assumes "unat a + 12 \<le> unat (b :: u32)"
  shows "unat (b - (a + 12)) = unat b - unat a - 12"
proof -
  have "unat (a + 12) = unat a + 12"
    using unat_add_small[of a 12] assms unsigned_less[of b, where 'a=nat] by simp
  moreover have "a + 12 \<le> b" using calculation assms by (simp add: word_le_nat_alt)
  ultimately show ?thesis by (simp add: unat_sub)
qed

lemma malloc_search_seg:
  assumes "heap_inv h (xs @ ys)" "sz \<le> mem_size_aligned h" "12 \<le> sz"
  shows "malloc_search sz h (hd (ys @ [heap_end h])) =
    (case dropWhile (\<lambda>a. \<not> fits h sz a) ys of [] \<Rightarrow> Some (0, h) | a # _ \<Rightarrow> malloc_take a sz h)"
  using assms(1)
proof (induction ys arbitrary: xs)
  case Nil
  note i = heap_invD[OF Nil.prems]
  have "unat (mem_size_aligned h - sz) = unat (mem_size_aligned h) - unat sz" by (rule unat_sub[OF assms(2)])
  then have "\<not> heap_end h < mem_size_aligned h - sz" using i(5) by (simp add: word_less_nat_alt)
  then show ?case by (subst malloc_search.simps) simp
next
  case (Cons a as)
  note i = heap_invD[OF Cons.prems]
  have n: "hm_next (hdr h a) = hd (as @ [heap_end h])" "unat a + 12 \<le> unat (hm_next (hdr h a))"
    using next_block[OF i(3)] by simp_all
  have sub: "unat (mem_size_aligned h - sz) = unat (mem_size_aligned h) - unat sz" by (rule unat_sub[OF assms(2)])
  have lt: "a < mem_size_aligned h - sz \<longleftrightarrow> unat a + unat sz < unat (mem_size_aligned h)"
    unfolding word_less_nat_alt sub by auto
  have fi: "hm_used (hdr h a) = 0 \<and> hm_next (hdr h a) - (a + SIZEOF_STRUCT_MEM) \<ge> sz \<longleftrightarrow>
      \<not> used h a \<and> unat a + 12 + unat sz \<le> unat (hm_next (hdr h a))"
    unfolding word_le_nat_alt unat_gap[OF n(2)] using n(2) by auto
  have ih: "malloc_search sz h (hm_next (hdr h a)) =
    (case dropWhile (\<lambda>a. \<not> fits h sz a) as of [] \<Rightarrow> Some (0, h) | a # _ \<Rightarrow> malloc_take a sz h)"
    using Cons.IH[of "xs @ [a]"] Cons.prems n(1) by simp
  show ?case
  proof (cases "unat a + unat sz < unat (mem_size_aligned h)")
    case True
    with lt fi ih show ?thesis by (subst malloc_search.simps) (auto simp: fits_def)
  next
    case False
    have "\<not> fits h sz b" if "b \<in> set (a # as)" for b
    proof -
      have "unat a \<le> unat b" using i(13) that by (auto simp: sorted_wrt_append)
      then show ?thesis using False by (simp add: fits_def)
    qed
    then have "dropWhile (\<lambda>a. \<not> fits h sz a) (a # as) = []" by (simp only: dropWhile_eq_Nil_conv) blast
    with False lt show ?thesis by (subst malloc_search.simps) simp
  qed
qed

section \<open>Allocating\<close>

text \<open>The effect of marking block \<open>a\<close> as used, its successors then being \<open>zs\<close>.\<close>

definition marked :: "u32 \<Rightarrow> u32 \<Rightarrow> u32 list \<Rightarrow> u32 list \<Rightarrow> u32 list \<Rightarrow> small_mem \<Rightarrow> small_mem \<Rightarrow> bool" where
  "marked a sz xs ys zs h h' \<longleftrightarrow>
     seg h' 0 (xs @ a # zs) (heap_end h) \<and> coalesced h' (xs @ a # zs) \<and>
     used h' a \<and> (\<forall>c \<in> set xs \<union> set ys. used h' c = used h c \<and> hm_next (hdr h' c) = hm_next (hdr h c)) \<and>
     (\<forall>c \<in> set zs - set ys. \<not> used h' c \<and> a \<le> c) \<and> set ys \<subseteq> set zs \<and>
     unat a + 12 + unat sz \<le> unat (hm_next (hdr h' a)) \<and>
     used h' (heap_end h) \<and> lfree h' = lfree h \<and> heap_ptr h' = heap_ptr h \<and> heap_end h' = heap_end h \<and>
     mem_size_aligned h' = mem_size_aligned h \<and> bytes h' = bytes h \<and>
     used_mem h' = used_mem h + (hm_next (hdr h' a) - a)"

lemma mark_whole:
  assumes inv: "heap_inv h (xs @ a # ys)" and free: "\<not> used h a"
    and fit: "unat a + 12 + unat sz \<le> unat (hm_next (hdr h a))"
    and small: "\<not> sz + SIZEOF_STRUCT_MEM + MIN_SIZE_ALIGNED \<le> hm_next (hdr h a) - (a + SIZEOF_STRUCT_MEM)"
  shows "marked a sz xs ys ys h (malloc_mark a sz h)"
proof -
  note i = heap_invD[OF inv]
  let ?h = "malloc_mark a sz h"
  have mg: "hm_magic (hdr h a) = HEAP_MAGIC" using i(3) by (simp add: seg_append blk_def)
  have e: "a \<noteq> heap_end h" using i(12) by auto
  have hd': "hdr ?h = (hdr h)(a := (hdr h a)\<lparr>hm_used := 1\<rparr>)"
    using small mg by (simp add: malloc_mark_def Let_def fun_eq_iff)
  have r: "lfree ?h = lfree h" "heap_ptr ?h = heap_ptr h" "heap_end ?h = heap_end h"
    "mem_size_aligned ?h = mem_size_aligned h" "bytes ?h = bytes h"
    "used_mem ?h = used_mem h + (hm_next (hdr h a) - a)"
    using small by (simp_all add: malloc_mark_def Let_def)
  have "seg ?h 0 (xs @ a # ys) (heap_end h) = seg h 0 (xs @ a # ys) (heap_end h)"
    by (rule seg_cong) (simp add: hd')
  moreover have "coalesced ?h (xs @ a # ys)"
    using i(9) unfolding coalesced_def by (rule successively_mono) (auto simp: hd')
  moreover have "c \<noteq> a" if "c \<in> set xs \<union> set ys" for c using that i(12) by auto
  ultimately show ?thesis unfolding marked_def using i(3,4) e fit by (auto simp: hd' r)
qed

lemma mark_large:
  assumes "sz + SIZEOF_STRUCT_MEM + MIN_SIZE_ALIGNED \<le> n - (a + SIZEOF_STRUCT_MEM)" "n = hm_next (hdr h a)"
    "c = a + 12 + sz" "c \<noteq> a" "c \<noteq> n" "n \<noteq> a"
  shows "hdr (malloc_mark a sz h) = (\<lambda>d. if d = c then \<lparr>hm_magic = HEAP_MAGIC, hm_used = 0, hm_next = n, hm_prev = a\<rparr>
      else if d = a then (hdr h a)\<lparr>hm_next := c, hm_used := 1, hm_magic := HEAP_MAGIC\<rparr>
      else if d = n \<and> n \<noteq> mem_size_aligned h + 12 then (hdr h d)\<lparr>hm_prev := c\<rparr> else hdr h d)" (is "?l = ?r")
proof
  fix d
  consider "d = c" | "d = a" | "d = n" "n \<noteq> mem_size_aligned h + 12" "d \<noteq> c" "d \<noteq> a"
    | "d \<noteq> c" "d \<noteq> a" "d = n \<longrightarrow> n = mem_size_aligned h + 12" by blast
  then show "?l d = ?r d"
    by cases (use assms(1,4-6) in \<open>simp_all add: malloc_mark_def Let_def flip: assms(2,3)\<close>)
qed

lemma mark_split:
  assumes inv: "heap_inv h (xs @ a # ys)" and free: "\<not> used h a"
    and fit: "unat a + 12 + unat sz \<le> unat (hm_next (hdr h a))" and sz: "unat sz mod 4 = 0" "sz \<le> mem_size_aligned h" "4 \<le> unat sz"
    and large: "sz + SIZEOF_STRUCT_MEM + MIN_SIZE_ALIGNED \<le> hm_next (hdr h a) - (a + SIZEOF_STRUCT_MEM)"
  shows "marked a sz xs ys ((a + 12 + sz) # ys) h (malloc_mark a sz h)"
proof -
  note i = heap_invD[OF inv]
  let ?h = "malloc_mark a sz h" and ?b = "hd (ys @ [heap_end h])" and ?c = "a + 12 + sz"
  have mg: "hm_magic (hdr h a) = HEAP_MAGIC" and nx: "hm_next (hdr h a) = ?b" and al: "unat a mod 4 = 0"
    and pv: "hm_prev (hdr h a) = last (0 # xs)" using i(3) by (simp_all add: seg_append blk_def)
  have e: "a \<noteq> heap_end h" "?b \<noteq> a" using i(12) by (cases ys; auto)+
  have bl: "unat ?b < 2 ^ 32" using unsigned_less[of ?b, where 'a=nat] by simp
  have "unat (mem_size_aligned h) + 24 < 2 ^ 32" using i(5,7,14) by simp
  then have "unat (sz + 12 + 12) = unat sz + 24"
    using sz(2) unat_add_small[of sz "12"] unat_add_small[of "sz + 12" 12] by (simp add: word_le_nat_alt)
  then have big: "unat a + 12 + unat sz + 24 \<le> unat ?b"
    using large fit unat_gap[of a ?b] unfolding nx by (simp add: word_le_nat_alt)
  have uc: "unat ?c = unat a + 12 + unat sz"
    using unat_add_small[of a 12] unat_add_small[of "a + 12" sz] big bl by simp
  have mod4: "(unat a + 12 + unat sz) mod 4 = 0"
    using al sz(1) mod_add_eq[of "unat a + 12" 4 "unat sz"] mod_add_eq[of "unat a" 4 12] by simp
  have ce: "?c = heap_end h \<Longrightarrow> False" "?c \<notin> set xs" "?c \<notin> set ys" "?c \<noteq> a" "?c \<noteq> ?b"
  proof -
    have so: "\<forall>d \<in> set xs. unat d < unat a" "\<forall>d \<in> set (ys @ [heap_end h]). unat ?b \<le> unat d"
    proof -
      show "\<forall>d \<in> set xs. unat d < unat a" using i(13) by (auto simp: sorted_wrt_append)
      have "sorted_wrt (\<lambda>a c. unat a + 12 \<le> unat c) (ys @ [heap_end h])" using i(13) by (simp add: sorted_wrt_append)
      then show "\<forall>d \<in> set (ys @ [heap_end h]). unat ?b \<le> unat d" by (cases ys) auto
    qed
    have lt: "unat a < unat ?c" "unat ?c < unat ?b" using uc big by simp_all
    show "?c = heap_end h \<Longrightarrow> False" "?c \<notin> set ys" using so(2) lt(2) by force+
    show "?c \<notin> set xs" using so(1) lt(1) by force
    show "?c \<noteq> a" "?c \<noteq> ?b" using lt by (metis less_irrefl)+
  qed
  have end_eq: "heap_end h = mem_size_aligned h + 12"
  proof -
    have "unat (mem_size_aligned h + 12) = unat (mem_size_aligned h) + 12"
      using unat_add_small[of "mem_size_aligned h" 12] i(5,7,14) by simp
    then show ?thesis using i(5) by (simp add: word_unat_eq_iff)
  qed
  have yb: "?b = heap_end h \<longleftrightarrow> ys = []" using i(12) by (cases ys) auto
  have hd': "hdr ?h = (\<lambda>d. if d = ?c then \<lparr>hm_magic = HEAP_MAGIC, hm_used = 0, hm_next = ?b, hm_prev = a\<rparr>
      else if d = a then (hdr h a)\<lparr>hm_next := ?c, hm_used := 1\<rparr>
      else if d = ?b \<and> ys \<noteq> [] then (hdr h d)\<lparr>hm_prev := ?c\<rparr> else hdr h d)"
    unfolding mark_large[OF large[unfolded nx] nx[symmetric] refl ce(4,5) e(2)] end_eq[symmetric] yb
    using mg by (intro ext) (simp add: yb)
  have r: "lfree ?h = lfree h" "heap_ptr ?h = heap_ptr h" "heap_end ?h = heap_end h"
    "mem_size_aligned ?h = mem_size_aligned h" "bytes ?h = bytes h" "used_mem ?h = used_mem h + (sz + 12)"
    using large by (simp_all add: malloc_mark_def Let_def)
  have dis: "a \<notin> set xs" "a \<notin> set ys" "?b \<notin> set xs" "distinct ys" "heap_end h \<notin> set ys" "heap_end h \<notin> set xs"
    using i(12) by (cases ys; auto)+
  have "seg ?h 0 xs a = seg h 0 xs a" by (rule seg_cong) (use dis ce in \<open>auto simp: hd'\<close>)
  moreover have "seg ?h ?c ys (heap_end h)"
  proof (cases ys)
    case (Cons d ds)
    have "seg ?h d ds (heap_end h) = seg h d ds (heap_end h)"
      by (rule seg_cong) (use dis ce Cons in \<open>auto simp: hd'\<close>)
    moreover have "blk h a d (hd (ds @ [heap_end h]))" "seg h d ds (heap_end h)"
      using i(3) Cons by (simp_all add: seg_append)
    moreover have "d \<noteq> ?c" "d \<noteq> a" using ce dis Cons by auto
    ultimately show ?thesis using Cons by (simp add: blk_def hd')
  qed simp
  moreover have "blk ?h (last (0 # xs)) a ?c" "blk ?h a ?c ?b"
    using pv mg al ce(4,5) uc big mod4 sz(3) by (simp_all add: blk_def hd')
  ultimately have sg: "seg ?h 0 (xs @ a # ?c # ys) (heap_end h)"
    using i(3) by (simp add: seg_append)
  have us: "used ?h d = used h d" if "d \<noteq> a" "d \<noteq> ?c" for d using that by (simp add: hd')
  have ub: "used ?h ?b"
  proof -
    have "used h ?b" using i(4,9) free yb by (cases ys) (auto simp: coalesced_append)
    then show ?thesis using us[of ?b] e(2) ce(5) by simp
  qed
  have "coalesced ?h xs = coalesced h xs" "coalesced ?h ys = coalesced h ys"
    by (rule coalesced_cong, use us dis ce in metis)+
  moreover have "coalesced h xs" "coalesced h ys" using i(9) by (auto simp: coalesced_append coalesced_Cons)
  moreover have "used ?h a" using ce(4) by (simp add: hd')
  ultimately have co: "coalesced ?h (xs @ a # ?c # ys)"
    using ub by (cases ys) (auto simp: coalesced_append coalesced_Cons)
  have ac: "a \<le> ?c" using uc by (simp add: word_le_nat_alt)
  have keep: "used ?h d = used h d \<and> hm_next (hdr ?h d) = hm_next (hdr h d)" if "d \<in> set xs \<union> set ys" for d
    using that dis ce by (auto simp: hd')
  have na: "hm_next (hdr ?h a) = ?c" and uc': "\<not> used ?h ?c" using ce(4) by (simp_all add: hd')
  have ue: "used ?h (heap_end h)" using i(4) us[of "heap_end h"] e(1) ce(1) by fastforce
  have um: "used_mem ?h = used_mem h + (?c - a)" using r(6) by (simp add: add.commute)
  show ?thesis
    unfolding marked_def na
    using sg co \<open>used ?h a\<close> keep uc' ac uc ue r(1-5) um by auto
qed

lemma and_3: "(x :: u32) AND 3 = x mod 4"
proof -
  have "x AND 3 = take_bit 2 x" by (simp add: take_bit_eq_mask mask_eq_exp_minus_1)
  then show ?thesis by (simp add: take_bit_eq_mod)
qed

lemma mod_4: "(x :: u32) mod 4 = 0 \<longleftrightarrow> unat x mod 4 = 0"
  by (simp add: unat_eq_zero[symmetric] unat_mod)

lemma lowest_unused:
  assumes "sorted_wrt (\<lambda>a c. unat a + 12 \<le> unat c) zs" "d \<in> set zs" "\<not> P d"
  shows "hd (dropWhile P zs @ [e]) \<le> (d :: u32)"
  using assms by (induction zs) (auto simp: word_le_nat_alt)

lemma seg_next_le:
  assumes "seg h p (xs @ a # zs) e"
  shows "unat (hm_next (hdr h a)) \<le> unat e"
proof -
  have "sorted_wrt (\<lambda>a c. unat a + 12 \<le> unat c) (zs @ [e])" using seg_sorted[OF assms] by (simp add: sorted_wrt_append)
  then have "unat (hd (zs @ [e])) \<le> unat e" by (cases zs) auto
  then show ?thesis using next_block(1)[OF assms] by simp
qed

text \<open>\<open>lfree\<close> moves on when the block it pointed to is taken.\<close>

definition next_free :: "u32 \<Rightarrow> u32 list \<Rightarrow> small_mem \<Rightarrow> u32" where
  "next_free a zs h = (if a = lfree h then hd (dropWhile (used h) (a # zs) @ [heap_end h]) else lfree h)"

lemma next_free_inv:
  assumes inv: "heap_inv h (xs @ a # ys)" and free: "\<not> used h a" and m: "marked a sz xs ys zs h h2"
  shows "heap_inv (h2\<lparr>lfree := next_free a zs h2\<rparr>) (xs @ a # zs)"
    "next_free a zs h2 = heap_end h2 \<or> \<not> used h2 (next_free a zs h2)"
proof -
  note i = heap_invD[OF inv]
  have m': "seg h2 0 (xs @ a # zs) (heap_end h)" "coalesced h2 (xs @ a # zs)" "used h2 a"
    "\<And>c. c \<in> set xs \<union> set ys \<Longrightarrow> used h2 c = used h c"
    "\<And>c. c \<in> set zs \<Longrightarrow> c \<notin> set ys \<Longrightarrow> \<not> used h2 c \<and> a \<le> c" "set ys \<subseteq> set zs"
    "used h2 (heap_end h)" "lfree h2 = lfree h" "heap_ptr h2 = heap_ptr h" "heap_end h2 = heap_end h"
    "mem_size_aligned h2 = mem_size_aligned h" using m by (auto simp: marked_def)
  let ?l = "next_free a zs h2"
  have so: "sorted_wrt (\<lambda>a c. unat a + 12 \<le> unat c) (xs @ a # zs)"
    using seg_sorted[OF m'(1)] by (simp add: sorted_wrt_append)
  have la: "lfree h \<le> a" using i(11) free by simp
  have "(?l = heap_end h \<or> ?l \<in> set (xs @ a # zs) \<and> \<not> used h2 ?l) \<and>
      (\<forall>d \<in> set (xs @ a # zs). \<not> used h2 d \<longrightarrow> ?l \<le> d)"
  proof (cases "a = lfree h")
    case True
    have l: "?l = hd (dropWhile (used h2) (a # zs) @ [heap_end h])" using True m'(8,10) by (simp add: next_free_def)
    have "?l \<le> d" if "d \<in> set (xs @ a # zs)" "\<not> used h2 d" for d
    proof -
      have "d \<notin> set xs"
      proof
        assume d: "d \<in> set xs"
        then have "lfree h \<le> d" using i(11)[of d] m'(4)[of d] that(2) by simp
        moreover have "unat d < unat a" using so d by (auto simp: sorted_wrt_append)
        ultimately show False using True by (simp add: word_le_nat_alt)
      qed
      then show ?thesis
        unfolding l using so that by (intro lowest_unused) (auto simp: sorted_wrt_append)
    qed
    moreover have "?l = heap_end h \<or> ?l \<in> set (a # zs) \<and> \<not> used h2 ?l"
    proof (cases "dropWhile (used h2) (a # zs)")
      case Nil
      show ?thesis unfolding l Nil by simp
    next
      case (Cons c cs)
      then have "c \<in> set (a # zs)" by (metis list.set_intros(1) set_dropWhileD)
      moreover have "\<not> used h2 c" using hd_dropWhile[of "used h2" "a # zs"] Cons by simp
      ultimately show ?thesis unfolding l Cons by simp
    qed
    ultimately show ?thesis by auto
  next
    case False
    then have l: "?l = lfree h" using m'(8) by (simp add: next_free_def)
    have "lfree h = heap_end h \<or> lfree h \<in> set xs \<union> set ys \<and> \<not> used h (lfree h)" using i(10) False by auto
    then have "lfree h = heap_end h \<or> lfree h \<in> set (xs @ a # zs) \<and> \<not> used h2 (lfree h)"
      using m'(4)[of "lfree h"] m'(6) by auto
    moreover have "lfree h \<le> d" if "d \<in> set (xs @ a # zs)" "\<not> used h2 d" for d
    proof (cases "d \<in> set xs \<union> set ys")
      case True
      then show ?thesis using i(11)[of d] m'(4)[OF True] that(2) by auto
    next
      case False
      then have "a \<le> d" using that m'(3,5) by auto
      then show ?thesis using la by (rule order_trans[rotated])
    qed
    ultimately show ?thesis unfolding l by blast
  qed
  moreover have "seg (h2\<lparr>lfree := ?l\<rparr>) 0 (xs @ a # zs) (heap_end h) = seg h2 0 (xs @ a # zs) (heap_end h)"
    by (rule seg_cong) simp
  moreover have "coalesced (h2\<lparr>lfree := ?l\<rparr>) (xs @ a # zs) = coalesced h2 (xs @ a # zs)" by (rule coalesced_cong) simp
  moreover have "hd (xs @ a # zs) = 0" using i(2) by (cases xs) auto
  ultimately show "heap_inv (h2\<lparr>lfree := ?l\<rparr>) (xs @ a # zs)" "?l = heap_end h2 \<or> \<not> used h2 ?l"
    using m' i(5-8,14,15) by (auto simp: heap_inv_def heap_base_def unat_gt_0)
qed

lemma malloc_take_ok:
  assumes inv: "heap_inv h (xs @ a # ys)" and free: "\<not> used h a" and m: "marked a sz xs ys zs h (malloc_mark a sz h)"
  shows "malloc_take a sz h = Some (heap_ptr h + a + 12, (malloc_mark a sz h)\<lparr>lfree := next_free a zs (malloc_mark a sz h)\<rparr>)"
proof -
  let ?h = "malloc_mark a sz h"
  note i = heap_invD[OF inv] and n = next_free_inv[OF assms]
  have m': "seg ?h 0 (xs @ a # zs) (heap_end h)" "lfree ?h = lfree h" "heap_ptr ?h = heap_ptr h"
    "heap_end ?h = heap_end h" "unat a + 12 + unat sz \<le> unat (hm_next (hdr ?h a))" using m by (auto simp: marked_def)
  have le: "unat a + 12 + unat sz \<le> unat (heap_end h)" using m'(5) seg_next_le[OF m'(1)] by linarith
  have al: "unat a mod 4 = 0" using next_block(3)[OF m'(1)] .
  have u: "unat (heap_ptr h + a) = unat (heap_ptr h) + unat a"
    "unat (heap_ptr h + a + 12) = unat (heap_ptr h) + unat a + 12"
    "unat (heap_ptr h + a + 12 + sz) = unat (heap_ptr h) + unat a + 12 + unat sz"
    "unat (heap_ptr h + heap_end h) = unat (heap_ptr h) + unat (heap_end h)"
    using le i(7) unat_add_small[of "heap_ptr h" a] unat_add_small[of "heap_ptr h + a" 12]
      unat_add_small[of "heap_ptr h + a + 12" sz] unat_add_small[of "heap_ptr h" "heap_end h"] by simp_all
  have as: "heap_ptr h + a + 12 + sz \<le> heap_ptr h + heap_end h" using le u by (simp add: word_le_nat_alt)
  have m1: "(unat (heap_ptr h) + unat a) mod 4 = 0" using al i(8) mod_add_eq[of "unat (heap_ptr h)" 4 "unat a"] by simp
  then have m2: "(unat (heap_ptr h) + unat a + 12) mod 4 = 0"
    using mod_add_eq[of "unat (heap_ptr h) + unat a" 4 12] by simp
  have "(heap_ptr h + a + 12) mod 4 = 0" "(heap_ptr h + a) AND 3 = 0"
    unfolding and_3 mod_4 u using m1 m2 by simp_all
  moreover have "(if a = lfree ?h then do { l \<leftarrow> lfree_search ?h (lfree ?h);
      rt_assert (l = heap_end ?h \<or> hm_used (hdr ?h l) = 0); Some (?h\<lparr>lfree := l\<rparr>) } else Some ?h) =
      Some (?h\<lparr>lfree := next_free a zs ?h\<rparr>)"
  proof (cases "a = lfree ?h")
    case True
    have "seg ?h (last (0 # xs)) (a # zs) (heap_end ?h)" using m'(1,4) by (simp add: seg_append)
    from lfree_search_seg[OF this refl] have "lfree_search ?h (lfree ?h) = Some (next_free a zs ?h)"
      using True by (simp add: next_free_def)
    then show ?thesis using True n(2) by auto
  next
    case False
    then show ?thesis by (simp add: next_free_def)
  qed
  ultimately show ?thesis using as unfolding malloc_take_def Let_def by (simp add: m'(3,4))
qed

text \<open>The whole of \<open>rt_malloc\<close>: \<open>need\<close> is the size it looks for.\<close>

definition need :: "u32 \<Rightarrow> u32" where
  "need sz = (if RT_ALIGN sz < (12 :: u32) then 12 else RT_ALIGN sz)"

text \<open>The parts of the heap that no allocation changes.\<close>

definition same_area :: "small_mem \<Rightarrow> small_mem \<Rightarrow> bool" where
  "same_area h h' \<longleftrightarrow> heap_ptr h' = heap_ptr h \<and> heap_end h' = heap_end h \<and>
     mem_size_aligned h' = mem_size_aligned h \<and> bytes h' = bytes h"

lemma marked_allocs:
  assumes "marked a sz xs ys zs h h'" "\<not> used h a"
  shows "allocs h' (xs @ a # zs) = insert (a, hm_next (hdr h' a)) (allocs h (xs @ a # ys))"
proof -
  have m: "used h' a" "\<And>c. c \<in> set xs \<union> set ys \<Longrightarrow> used h' c = used h c \<and> hm_next (hdr h' c) = hm_next (hdr h c)"
    "\<And>c. c \<in> set zs \<Longrightarrow> c \<notin> set ys \<Longrightarrow> \<not> used h' c" "set ys \<subseteq> set zs" using assms(1) by (auto simp: marked_def)
  show ?thesis
  proof (intro set_eqI iffI)
    fix q assume "q \<in> allocs h' (xs @ a # zs)"
    then obtain c where c: "q = (c, hm_next (hdr h' c))" "c \<in> set (xs @ a # zs)" "used h' c" by (auto simp: allocs_def)
    show "q \<in> insert (a, hm_next (hdr h' a)) (allocs h (xs @ a # ys))"
    proof (cases "c = a")
      case False
      then have "c \<in> set xs \<union> set ys" using c(2,3) m(3)[of c] by auto
      then show ?thesis using c m(2)[of c] by (auto simp: allocs_def)
    qed (use c in simp)
  next
    fix q assume "q \<in> insert (a, hm_next (hdr h' a)) (allocs h (xs @ a # ys))"
    then consider "q = (a, hm_next (hdr h' a))"
      | c where "q = (c, hm_next (hdr h c))" "c \<in> set (xs @ a # ys)" "used h c" by (auto simp: allocs_def)
    then show "q \<in> allocs h' (xs @ a # zs)"
    proof cases
      case (2 c)
      then have "c \<in> set xs \<union> set ys" using assms(2) by auto
      then show ?thesis using 2 m(2)[of c] m(4) by (auto simp: allocs_def)
    qed (use m(1) in \<open>simp add: allocs_def\<close>)
  qed
qed

lemma lfree_split:
  assumes "heap_inv h bs"
  shows "\<exists>xs ys. bs = xs @ ys \<and> lfree h = hd (ys @ [heap_end h])"
proof (cases "lfree h = heap_end h")
  case True
  then show ?thesis by (intro exI[of _ bs] exI[of _ "[]"]) simp
next
  case False
  then obtain xs ys where "bs = xs @ lfree h # ys" using heap_invD(10)[OF assms] split_list by metis
  then show ?thesis by (intro exI[of _ xs] exI[of _ "lfree h # ys"]) simp
qed

lemma malloc_ok:
  assumes inv: "heap_inv h bs" and sz: "sz \<noteq> 0" "unat sz + 3 < 2 ^ 32"
  shows "rt_malloc 0 sz h = Some (0, h) \<and> (\<forall>a \<in> set bs. \<not> fits h (need sz) a) \<or>
    (\<exists>a n bs' h'. rt_malloc 0 sz h = Some (heap_ptr h + a + 12, h') \<and> a \<in> set bs \<and> fits h (need sz) a \<and>
       heap_inv h' bs' \<and> allocs h' bs' = insert (a, n) (allocs h bs) \<and> a \<notin> fst ` allocs h bs \<and>
       unat a + 12 + unat (need sz) \<le> unat n \<and> unat n \<le> unat (heap_end h) \<and>
       same_area h h' \<and> used_mem h' = used_mem h + (n - a))"
proof (cases "RT_ALIGN sz > mem_size_aligned h")
  case True
  note i = heap_invD[OF inv]
  have "need sz \<ge> RT_ALIGN sz" by (auto simp: need_def)
  then have "unat (need sz) > unat (mem_size_aligned h)" using True by (simp add: word_less_nat_alt word_le_nat_alt)
  then have "\<not> fits h (need sz) a" for a by (simp add: fits_def)
  then show ?thesis using True sz(1) by (simp add: rt_malloc_def)
next
  case False
  note i = heap_invD[OF inv]
  let ?n = "need sz"
  have n: "?n \<le> mem_size_aligned h" "12 \<le> ?n" using False i(15) by (auto simp: need_def word_le_nat_alt word_less_nat_alt)
  have n4: "unat ?n mod 4 = 0" using unat_RT_ALIGN[of sz] sz(2) by (simp add: need_def)
  obtain xs ys where b: "bs = xs @ ys" "lfree h = hd (ys @ [heap_end h])" using lfree_split[OF inv] by blast
  have run: "rt_malloc 0 sz h = (case dropWhile (\<lambda>a. \<not> fits h ?n a) ys of [] \<Rightarrow> Some (0, h) | a # _ \<Rightarrow> malloc_take a ?n h)"
    using malloc_search_seg[OF inv[unfolded b(1)] n] False sz(1) b(2) by (simp add: rt_malloc_def need_def)
  show ?thesis
  proof (cases "dropWhile (\<lambda>a. \<not> fits h ?n a) ys")
    case Nil
    have "\<not> fits h ?n a" if "a \<in> set bs" for a
    proof (cases "a \<in> set ys")
      case True
      then show ?thesis using Nil by (auto simp: dropWhile_eq_Nil_conv)
    next
      case False
      then have a: "a \<in> set xs" using that b(1) by simp
      have "sorted_wrt (\<lambda>a c. unat a + 12 \<le> unat c) (xs @ (ys @ [heap_end h]))" using i(13) b(1) by simp
      then have "unat a < unat (lfree h)" unfolding b(2) using a by (cases ys) (auto simp: sorted_wrt_append)
      then have "used h a" using i(11)[OF that] by (auto simp: word_le_nat_alt)
      then show ?thesis by (simp add: fits_def)
    qed
    then show ?thesis using run Nil by simp
  next
    case (Cons a as)
    let ?us = "takeWhile (\<lambda>a. \<not> fits h ?n a) ys"
    have ys: "ys = ?us @ a # as" using takeWhile_dropWhile_id[of "\<lambda>a. \<not> fits h ?n a" ys] Cons by simp
    have fit: "fits h ?n a" using hd_dropWhile[of "\<lambda>a. \<not> fits h ?n a" ys] Cons by simp
    have free: "\<not> used h a" and room: "unat a + 12 + unat ?n \<le> unat (hm_next (hdr h a))" using fit by (simp_all add: fits_def)
    have bs: "bs = (xs @ ?us) @ a # as" using b(1) ys by simp
    let ?h = "malloc_mark a ?n h"
    have "\<exists>zs. marked a ?n (xs @ ?us) as zs h ?h"
      using mark_whole[OF inv[unfolded bs] free room] mark_split[OF inv[unfolded bs] free room n4 n(1)] n(2)
      by (auto simp: word_le_nat_alt)
    then obtain zs where m: "marked a ?n (xs @ ?us) as zs h ?h" by blast
    let ?h' = "?h\<lparr>lfree := next_free a zs ?h\<rparr>"
    have r: "rt_malloc 0 sz h = Some (heap_ptr h + a + 12, ?h')"
      using run Cons malloc_take_ok[OF inv[unfolded bs] free m] by simp
    have inv': "heap_inv ?h' ((xs @ ?us) @ a # zs)" by (rule next_free_inv(1)[OF inv[unfolded bs] free m])
    have al: "allocs ?h' ((xs @ ?us) @ a # zs) = insert (a, hm_next (hdr ?h a)) (allocs h bs)"
      using marked_allocs[OF m free] unfolding bs by (simp add: allocs_def)
    have mm: "unat a + 12 + unat ?n \<le> unat (hm_next (hdr ?h a))" "same_area h ?h'"
      "used_mem ?h' = used_mem h + (hm_next (hdr ?h a) - a)" "unat (hm_next (hdr ?h a)) \<le> unat (heap_end h)"
      using m seg_next_le[of ?h 0 "xs @ ?us" a zs "heap_end h"] by (simp_all add: marked_def same_area_def)
    have "a \<notin> fst ` allocs h bs" using free by (auto simp: allocs_def)
    moreover have "a \<in> set bs" unfolding bs by simp
    ultimately show ?thesis using r inv' al mm fit by blast
  qed
qed

lemma malloc_refused:
  assumes "heap_inv h bs" "sz \<noteq> 0" "unat sz + 3 < 2 ^ 32" "rt_malloc 0 sz h = Some (0, h)"
  shows "\<forall>a \<in> set bs. \<not> fits h (need sz) a"
  using malloc_ok[OF assms(1-3)]
proof (elim disjE exE conjE)
  fix a n bs' h'
  assume "rt_malloc 0 sz h = Some (heap_ptr h + a + 12, h')" "unat a + 12 + unat (need sz) \<le> unat n" "unat n \<le> unat (heap_end h)"
  moreover from this heap_invD(7)[OF assms(1)] have "unat (heap_ptr h + a) = unat (heap_ptr h) + unat a"
    "unat (heap_ptr h + a + 12) = unat (heap_ptr h) + unat a + 12"
    using unat_add_small[of "heap_ptr h" a] unat_add_small[of "heap_ptr h + a" 12] by simp_all
  ultimately show ?thesis using assms(4) by (metis Pair_inject add_is_0 option.inject unat_0 zero_neq_numeral)
qed

section \<open>Freeing\<close>

text \<open>One merge of \<open>plug_holes\<close>: block \<open>b\<close>, which follows \<open>a\<close>, becomes part of it.\<close>

definition merge :: "u32 \<Rightarrow> u32 \<Rightarrow> small_mem \<Rightarrow> small_mem" where
  "merge a b h = set_prev (hm_next (hdr h b)) a (hdr_upd a (hm_next_update (\<lambda>_. hm_next (hdr h b))) h)"

lemma merge_simps [simp]:
  "lfree (merge a b h) = lfree h" "heap_ptr (merge a b h) = heap_ptr h" "heap_end (merge a b h) = heap_end h"
  "mem_size_aligned (merge a b h) = mem_size_aligned h" "bytes (merge a b h) = bytes h"
  "used_mem (merge a b h) = used_mem h" "used (merge a b h) c = used h c"
  by (simp_all add: merge_def set_prev_def)

lemma merge_seg:
  assumes "seg h p (xs @ a # b # zs) e"
  shows "seg (merge a b h) p (xs @ a # zs) e"
    "c \<noteq> a \<Longrightarrow> hm_next (hdr (merge a b h) c) = hm_next (hdr h c)"
proof -
  let ?n = "hd (zs @ [e])" and ?h = "merge a b h"
  have d: "distinct (xs @ a # b # zs @ [e])" using seg_distinct[OF assms] by simp
  have s: "seg h p xs a" "blk h (last (p # xs)) a b" "blk h a b ?n" "seg h b zs e"
    using assms by (simp_all add: seg_append)
  have nb: "hm_next (hdr h b) = ?n" using s(3) by (simp add: blk_def)
  have ne: "?n \<noteq> a" "?n \<noteq> b" "?n \<notin> set xs" using d by (cases zs; auto)+
  have h: "hdr ?h = (\<lambda>c. if c = ?n then (hdr h c)\<lparr>hm_prev := a\<rparr> else if c = a then (hdr h a)\<lparr>hm_next := ?n\<rparr> else hdr h c)"
    using ne by (auto simp: merge_def set_prev_def nb fun_eq_iff)
  have "seg ?h p xs a = seg h p xs a" by (rule seg_cong) (use d ne in \<open>auto simp: h\<close>)
  moreover have "blk ?h (last (p # xs)) a ?n" using s(2,3) ne by (simp add: blk_def h)
  moreover have "seg ?h a zs e"
  proof (cases zs)
    case (Cons c cs)
    have "seg ?h c cs e = seg h c cs e" by (rule seg_cong) (use d Cons in \<open>auto simp: h\<close>)
    then show ?thesis using s(4) d Cons by (simp add: blk_def h)
  qed simp
  ultimately show "seg ?h p (xs @ a # zs) e" using s(1) by (simp add: seg_append)
  show "c \<noteq> a \<Longrightarrow> hm_next (hdr ?h c) = hm_next (hdr h c)" by (simp add: h)
qed

lemma merge_base:
  assumes base: "heap_base h (xs @ a # b # zs)" and free: "\<not> used h a" "\<not> used h b"
  shows "heap_base (merge a b h) (xs @ a # zs)" "allocs (merge a b h) (xs @ a # zs) = allocs h (xs @ a # b # zs)"
    "lfree h \<noteq> b"
proof -
  note i = heap_baseD[OF base]
  have "unat a < unat b" using i(13) by (simp add: sorted_wrt_append)
  moreover have la: "lfree h \<le> a" using i(11)[of a] free by simp
  ultimately show nb: "lfree h \<noteq> b" by (auto simp: word_le_nat_alt)
  have "lfree h = heap_end h \<or> lfree h \<in> set (xs @ a # zs) \<and> \<not> used h (lfree h)" using i(10) nb by auto
  moreover have "hd (xs @ a # zs) = 0" using i(2) by (cases xs) auto
  ultimately show "heap_base (merge a b h) (xs @ a # zs)"
    unfolding heap_base_def merge_simps using i(4-9,11,14) merge_seg(1)[OF i(3)] by (auto simp: unat_gt_0)
  have "hm_next (hdr (merge a b h) c) = hm_next (hdr h c)" if "used h c" for c
    using merge_seg(2)[OF i(3), of c] that free(1) by auto
  then show "allocs (merge a b h) (xs @ a # zs) = allocs h (xs @ a # b # zs)"
    using free by (auto simp: allocs_def)
qed

lemma plug_holes_ok:
  assumes base: "heap_base h (xs @ a # ys)" and free: "\<not> used h a" and co: "coalesced h xs" "coalesced h ys"
  shows "\<exists>h' bs'. plug_holes a h = Some h' \<and> heap_inv h' bs' \<and> allocs h' bs' = allocs h (xs @ a # ys) \<and>
    same_area h h' \<and> used_mem h' = used_mem h"
proof -
  note i = heap_baseD[OF base]
  let ?e = "heap_end h"
  define fwd where "fwd = (ys \<noteq> [] \<and> \<not> used h (hd ys))"
  define h1 where "h1 = (if fwd then merge a (hd ys) h else h)"
  define zs where "zs = (if fwd then tl ys else ys)"
  have nx: "hm_next (hdr h a) = hd (ys @ [?e])" using next_block(1)[OF i(3)] .
  have an: "a \<noteq> hd (ys @ [?e])" "a \<noteq> ?e" using i(12) by (cases ys; auto)+
  have c1: "(a \<noteq> hm_next (hdr h a) \<and> hm_used (hdr h (hm_next (hdr h a))) = 0 \<and> hm_next (hdr h a) \<noteq> ?e) = fwd"
    unfolding nx fwd_def using an i(12) by (cases ys) auto
  have b1: "heap_base h1 (xs @ a # zs)" "allocs h1 (xs @ a # zs) = allocs h (xs @ a # ys)" "coalesced h1 zs"
    "coalesced h1 xs" "zs \<noteq> [] \<longrightarrow> used h1 (hd zs)" "\<not> used h1 a" "same_area h h1" "used_mem h1 = used_mem h"
    "fwd \<longrightarrow> lfree h \<noteq> hd ys"
  proof -
    have "heap_base h1 (xs @ a # zs) \<and> allocs h1 (xs @ a # zs) = allocs h (xs @ a # ys) \<and> coalesced h1 zs \<and>
      coalesced h1 xs \<and> (zs \<noteq> [] \<longrightarrow> used h1 (hd zs)) \<and> \<not> used h1 a \<and> same_area h h1 \<and> used_mem h1 = used_mem h \<and>
      (fwd \<longrightarrow> lfree h \<noteq> hd ys)"
    proof (cases fwd)
      case True
      then obtain b bs where ys: "ys = b # bs" "\<not> used h b" by (cases ys) (auto simp: fwd_def)
      have "coalesced (merge a b h) ts = coalesced h ts" for ts by (rule coalesced_cong) simp
      then show ?thesis using merge_base[OF base[unfolded ys(1)] free ys(2)] True ys co free
        by (auto simp: h1_def zs_def same_area_def coalesced_Cons)
    next
      case False
      then show ?thesis using base co free by (auto simp: h1_def zs_def same_area_def fwd_def)
    qed
    then show "heap_base h1 (xs @ a # zs)" "allocs h1 (xs @ a # zs) = allocs h (xs @ a # ys)" "coalesced h1 zs"
      "coalesced h1 xs" "zs \<noteq> [] \<longrightarrow> used h1 (hd zs)" "\<not> used h1 a" "same_area h h1" "used_mem h1 = used_mem h"
      "fwd \<longrightarrow> lfree h \<noteq> hd ys" by blast+
  qed
  note j = heap_baseD[OF b1(1)]
  have pv: "hm_prev (hdr h1 a) = last (0 # xs)" using j(3) by (simp add: seg_append blk_def)
  define bwd where "bwd = (xs \<noteq> [] \<and> \<not> used h1 (last xs))"
  have x0: "xs = [] \<Longrightarrow> a = 0" using i(2) by simp
  have al: "xs \<noteq> [] \<Longrightarrow> last xs \<noteq> a" using i(12) last_in_set[of xs] by auto
  have c2: "(hm_prev (hdr h1 a) \<noteq> a \<and> hm_used (hdr h1 (hm_prev (hdr h1 a))) = 0) = bwd"
    unfolding pv bwd_def using x0 al by auto
  have lt: "a < ?e"
  proof -
    have "unat a + 12 \<le> unat ?e" using i(13) by (simp add: sorted_wrt_append)
    then show ?thesis by (simp add: word_less_nat_alt)
  qed
  have f1: "(if fwd then (let h0 = (if lfree h = hm_next (hdr h a) then h\<lparr>lfree := a\<rparr> else h);
        nn = hm_next (hdr h0 (hm_next (hdr h a))); h0' = hdr_upd a (hm_next_update (\<lambda>_. nn)) h0
      in hdr_upd (hm_next (hdr h0' (hm_next (hdr h a)))) (hm_prev_update (\<lambda>_. a)) h0') else h) = h1"
  proof (cases fwd)
    case True
    then have n: "hm_next (hdr h a) = hd ys" "hd ys \<noteq> a" "lfree h \<noteq> hd ys"
      using nx an(1) b1(9) by (cases ys; simp add: fwd_def)+
    show ?thesis using True n by (simp add: h1_def merge_def set_prev_def Let_def)
  qed (simp add: h1_def)
  have run: "plug_holes a h = Some (if bwd then (let h2 = (if lfree h1 = a then h1\<lparr>lfree := last xs\<rparr> else h1);
        h3 = hdr_upd (last xs) (hm_next_update (\<lambda>_. hm_next (hdr h2 a))) h2
      in hdr_upd (hm_next (hdr h3 a)) (hm_prev_update (\<lambda>_. last xs)) h3) else h1)"
    using lt free f1 c2 pv unfolding plug_holes_def Let_def c1
    by (simp add: bwd_def cong: if_cong)
  show ?thesis
  proof (cases bwd)
    case True
    then obtain us c where xs: "xs = us @ [c]" "\<not> used h1 c" by (cases xs rule: rev_cases) (auto simp: bwd_def)
    have b: "heap_base h1 (us @ c # a # zs)" using b1(1) xs(1) by simp
    note mb = merge_base[OF b xs(2) b1(6)]
    have ca: "c \<noteq> a" using al xs(1) by simp
    have r: "plug_holes a h = Some (merge c a h1)"
      using run True xs(1) mb(3) ca by (simp add: merge_def set_prev_def Let_def)
    have "coalesced (merge c a h1) ts = coalesced h1 ts" for ts by (rule coalesced_cong) simp
    moreover have "coalesced h1 (us @ c # zs)"
      using b1(3,4,5) unfolding xs(1) by (auto simp: coalesced_append coalesced_Cons)
    ultimately have "heap_inv (merge c a h1) (us @ c # zs)" using mb(1) by (simp add: heap_inv_def)
    moreover have "allocs (merge c a h1) (us @ c # zs) = allocs h (xs @ a # ys)" using mb(2) b1(2) xs(1) by simp
    moreover have "same_area h (merge c a h1)" "used_mem (merge c a h1) = used_mem h"
      using b1(7,8) by (simp_all add: same_area_def)
    ultimately show ?thesis using r by blast
  next
    case False
    have "coalesced h1 (xs @ a # zs)" using False b1(3,4,5) by (auto simp: coalesced_append coalesced_Cons bwd_def)
    then have "heap_inv h1 (xs @ a # zs)" using b1(1) by (simp add: heap_inv_def)
    then show ?thesis using run False b1(2,7,8) by auto
  qed
qed

lemma alloc_block:
  assumes "heap_inv h bs" "(a, n) \<in> allocs h bs"
  shows "a \<in> set bs" "used h a" "n = hm_next (hdr h a)" "unat a + 16 \<le> unat n" "unat n \<le> unat (heap_end h)"
    "unat a mod 4 = 0" "hm_magic (hdr h a) = HEAP_MAGIC"
proof -
  show a: "a \<in> set bs" "used h a" "n = hm_next (hdr h a)" using assms(2) by (auto simp: allocs_def)
  obtain xs ys where bs: "bs = xs @ a # ys" using split_list[OF a(1)] by blast
  have s: "seg h 0 (xs @ a # ys) (heap_end h)" using heap_invD(3)[OF assms(1)] bs by simp
  show "unat a + 16 \<le> unat n" "unat a mod 4 = 0" using s a(3) by (simp_all add: seg_append blk_def)
  show "unat n \<le> unat (heap_end h)" using seg_next_le[OF s] a(3) by simp
  show "hm_magic (hdr h a) = HEAP_MAGIC" using s by (simp add: seg_append blk_def)
qed

lemma free_ok:
  assumes inv: "heap_inv h bs" and al: "(a, n) \<in> allocs h bs"
  shows "\<exists>h' bs'. rt_free 0 (heap_ptr h + a + 12) h = Some h' \<and> heap_inv h' bs' \<and>
    allocs h' bs' = allocs h bs - {(a, n)} \<and> same_area h h' \<and> used_mem h' = used_mem h - (n - a)"
proof -
  note i = heap_invD[OF inv] and b = alloc_block[OF inv al]
  obtain xs ys where bs: "bs = xs @ a # ys" using split_list[OF b(1)] by blast
  let ?p = "heap_ptr h + a + 12"
  define h1 where "h1 = hdr_upd a (\<lambda>m. m\<lparr>hm_used := 0, hm_magic := HEAP_MAGIC\<rparr>) h"
  define h2 where "h2 = (if a < lfree h1 then h1\<lparr>lfree := a\<rparr> else h1)"
  define h3 where "h3 = h2\<lparr>used_mem := used_mem h2 - (hm_next (hdr h2 a) - a)\<rparr>"
  have hd3: "hdr h3 = (hdr h)(a := (hdr h a)\<lparr>hm_used := 0\<rparr>)" using b(7) by (simp add: h3_def h2_def h1_def fun_eq_iff)
  have f3: "heap_ptr h3 = heap_ptr h" "heap_end h3 = heap_end h" "mem_size_aligned h3 = mem_size_aligned h"
    "bytes h3 = bytes h" "used_mem h3 = used_mem h - (n - a)" "lfree h3 = (if a < lfree h then a else lfree h)"
    using b(3) by (simp_all add: h3_def h2_def h1_def)
  have u: "unat (heap_ptr h + a) = unat (heap_ptr h) + unat a" "unat ?p = unat (heap_ptr h) + unat a + 12"
    "unat (heap_ptr h + heap_end h) = unat (heap_ptr h) + unat (heap_end h)"
    using b(4,5) i(7) unat_add_small[of "heap_ptr h" a] unat_add_small[of "heap_ptr h + a" 12]
      unat_add_small[of "heap_ptr h" "heap_end h"] by simp_all
  have p0: "?p \<noteq> 0" using u(2) by (metis add_is_0 unat_0 zero_neq_numeral)
  have m1: "(unat (heap_ptr h) + unat a) mod 4 = 0" using b(6) i(8) mod_add_eq[of "unat (heap_ptr h)" 4 "unat a"] by simp
  then have "(unat (heap_ptr h) + unat a + 12) mod 4 = 0" using mod_add_eq[of "unat (heap_ptr h) + unat a" 4 12] by simp
  then have p1: "?p AND 3 = 0" unfolding and_3 mod_4 u .
  have ne: "hd (ys @ [heap_end h]) = n" using next_block(1)[of h 0 xs a ys "heap_end h"] i(3) bs b(3) by simp
  have lt: "unat a + 12 < unat (heap_end h)" using b(4,5) by simp
  have p2: "heap_ptr h \<le> ?p" "?p < heap_ptr h + heap_end h"
    using lt u by (simp_all add: word_le_nat_alt word_less_nat_alt)
  have run: "rt_free 0 ?p h = plug_holes a h3"
    using p0 p1 p2 b(2,7) unfolding rt_free_def h3_def h2_def h1_def Let_def by simp
  have "seg h3 0 bs (heap_end h) = seg h 0 bs (heap_end h)" by (rule seg_cong) (simp add: hd3)
  moreover have "a \<noteq> heap_end h" using i(12) b(1) by auto
  moreover have "lfree h3 = heap_end h \<or> lfree h3 \<in> set bs \<and> \<not> used h3 (lfree h3)"
    using i(10) b(1,2) by (auto simp: f3 hd3)
  moreover have "\<forall>d \<in> set bs. \<not> used h3 d \<longrightarrow> lfree h3 \<le> d"
    using i(11) by (auto simp: f3 hd3 split: if_splits) (meson less_imp_le order.trans)
  ultimately have base: "heap_base h3 (xs @ a # ys)"
    using i(1-8,14,15) unfolding heap_base_def f3 bs[symmetric] by (auto simp: hd3 unat_gt_0)
  have d: "a \<notin> set xs" "a \<notin> set ys" using i(12) bs by auto
  have "coalesced h3 xs = coalesced h xs" "coalesced h3 ys = coalesced h ys"
    by (rule coalesced_cong; use d in \<open>auto simp: hd3\<close>)+
  moreover have "coalesced h xs" "coalesced h ys" using i(9) bs by (auto simp: coalesced_append coalesced_Cons)
  ultimately have co: "coalesced h3 xs" "coalesced h3 ys" by simp_all
  have "\<not> used h3 a" by (simp add: hd3)
  from plug_holes_ok[OF base this co] obtain h' bs' where r: "plug_holes a h3 = Some h'" "heap_inv h' bs'"
    "allocs h' bs' = allocs h3 (xs @ a # ys)" "same_area h3 h'" "used_mem h' = used_mem h3" by blast
  have "allocs h3 (xs @ a # ys) = allocs h bs - {(a, n)}"
    using b(3) unfolding bs allocs_def by (auto simp: hd3)
  then show ?thesis using r run f3 by (auto simp: same_area_def)
qed

section \<open>Initialisation and histories\<close>

lemma heap_init_ok:
  assumes "b \<noteq> 0" "unat b + 39 \<le> unat (RT_ALIGN_DOWN e)"
  shows "\<exists>h'. rt_system_heap_init 0 b e h = Some h' \<and> heap_inv h' [0] \<and> allocs h' [0] = {} \<and>
    heap_ptr h' = RT_ALIGN b \<and> unat (RT_ALIGN b) + unat (heap_end h') + 12 = unat (RT_ALIGN_DOWN e) \<and>
    used_mem h' = used_mem h"
proof -
  let ?b = "RT_ALIGN b" and ?e = "RT_ALIGN_DOWN e"
  have le: "unat ?e < 2 ^ 32" using unsigned_less[of ?e, where 'a=nat] by simp
  have b: "unat ?b = (unat b + 3) div 4 * 4" using unat_RT_ALIGN[of b] assms(2) le by simp
  have bl: "unat b \<le> unat ?b" "unat ?b \<le> unat b + 3" "unat ?b mod 4 = 0" unfolding b by simp_all
  have el: "unat ?e mod 4 = 0" by (simp add: unat_RT_ALIGN_DOWN)
  have b0: "0 < unat ?b" using bl(1) assms(1) by (metis gr_zeroI le_zero_eq unat_eq_zero)
  have e24: "24 < ?e" "unat (?e - 24) = unat ?e - 24"
    using assms(2) by (simp_all add: word_less_nat_alt unat_sub word_le_nat_alt)
  have cond: "?e > 2 * SIZEOF_STRUCT_MEM \<and> ?e - 2 * SIZEOF_STRUCT_MEM \<ge> ?b"
    using e24 assms(2) bl(2) by (simp add: word_le_nat_alt)
  let ?s = "?e - ?b - 2 * SIZEOF_STRUCT_MEM"
  have "unat (?e - ?b) = unat ?e - unat ?b" using assms(2) bl(2) by (simp add: unat_sub word_le_nat_alt)
  then have s: "unat ?s = unat ?e - unat ?b - 24"
    using assms(2) bl(2) by (simp add: unat_sub word_le_nat_alt)
  then have sm: "unat ?s mod 4 = 0" "12 \<le> unat ?s"
    using bl(2,3) el assms(2) by (simp_all add: mod_eq_0_iff_dvd dvd_diff_nat)
  have se: "unat (?s + 12) = unat ?s + 12" using s le b0 unat_add_small[of ?s 12] by simp
  have ne: "?s + 12 \<noteq> 0" using se by (metis add_is_0 unat_0 zero_neq_numeral)
  let ?h = "h\<lparr>mem_size_aligned := ?s, heap_ptr := ?b,
                      hdr := (hdr h)
                        (0 := \<lparr>hm_magic = HEAP_MAGIC, hm_used = 0, hm_next = ?s + 12, hm_prev = 0\<rparr>,
                         ?s + 12 := \<lparr>hm_magic = HEAP_MAGIC, hm_used = 1, hm_next = ?s + 12, hm_prev = ?s + 12\<rparr>),
                      heap_end := ?s + 12, lfree := 0\<rparr>"
  have run: "rt_system_heap_init 0 b e h = Some ?h" using cond by (simp add: rt_system_heap_init_def Let_def)
  have "heap_base ?h [0]"
    using ne se sm s bl(2,3) b0 le assms(2) by (simp add: heap_base_def blk_def) (simp add: unat_gt_0[symmetric])
  then have "heap_inv ?h [0]" by (simp add: heap_inv_def)
  moreover have "allocs ?h [0] = {}" using ne by (auto simp: allocs_def)
  moreover have "unat ?b + unat (?s + 12) + 12 = unat ?e" using se s assms(2) bl(2) by simp
  ultimately show ?thesis using run by simp
qed

lemma heap_inv_bytes [simp]:
  "heap_inv (h\<lparr>bytes := f\<rparr>) bs = heap_inv h bs" "allocs (h\<lparr>bytes := f\<rparr>) bs = allocs h bs"
proof -
  have "seg (h\<lparr>bytes := f\<rparr>) p xs e = seg h p xs e" for p xs e by (rule seg_cong) simp
  moreover have "coalesced (h\<lparr>bytes := f\<rparr>) bs = coalesced h bs" by (rule coalesced_cong) simp
  ultimately show "heap_inv (h\<lparr>bytes := f\<rparr>) bs = heap_inv h bs" by (simp add: heap_inv_def heap_base_def)
  show "allocs (h\<lparr>bytes := f\<rparr>) bs = allocs h bs" by (simp add: allocs_def)
qed

text \<open>A history of the heap: allocations, frees of what was allocated, and writes to memory. \<open>A\<close> are the
  blocks allocated and not freed.\<close>

inductive heap_run :: "small_mem \<Rightarrow> (u32 \<times> u32) set \<Rightarrow> small_mem \<Rightarrow> bool" for h0 :: small_mem where
  start: "heap_run h0 {} h0"
| malloc: "\<lbrakk>heap_run h0 A h; sz \<noteq> 0; unat sz + 3 < 2 ^ 32; rt_malloc 0 sz h = Some (p, h')\<rbrakk> \<Longrightarrow>
    heap_run h0 (if p = 0 then A else insert (p - heap_ptr h - 12, hm_next (hdr h' (p - heap_ptr h - 12))) A) h'"
| free: "\<lbrakk>heap_run h0 A h; (a, n) \<in> A; rt_free 0 (heap_ptr h + a + 12) h = Some h'\<rbrakk> \<Longrightarrow>
    heap_run h0 (A - {(a, n)}) h'"
| store: "heap_run h0 A h \<Longrightarrow> heap_run h0 A (h\<lparr>bytes := f\<rparr>)"

definition heap_good :: "small_mem \<Rightarrow> (u32 \<times> u32) set \<Rightarrow> bool" where
  "heap_good h A \<longleftrightarrow> (\<exists>bs. heap_inv h bs \<and> allocs h bs = A) \<and> used_mem h = (\<Sum>(a, n) \<in> A. n - a)"

lemma allocs_finite [simp]: "finite (allocs h bs)"
proof -
  have "allocs h bs \<subseteq> (\<lambda>a. (a, hm_next (hdr h a))) ` set bs" by (auto simp: allocs_def)
  then show ?thesis by (rule finite_subset) simp
qed

lemma malloc_good:
  assumes "heap_good h A" "sz \<noteq> 0" "unat sz + 3 < 2 ^ 32" "rt_malloc 0 sz h = Some (p, h')"
  shows "if p = 0 then h' = h
    else \<exists>a n. p = heap_ptr h + a + 12 \<and> (a, n) \<notin> A \<and> n = hm_next (hdr h' a) \<and> heap_good h' (insert (a, n) A) \<and>
      same_area h h' \<and> unat a + 12 + unat (need sz) \<le> unat n"
proof -
  from assms(1) obtain bs where bs: "heap_inv h bs" "allocs h bs = A" "used_mem h = (\<Sum>(a, n) \<in> A. n - a)"
    by (auto simp: heap_good_def)
  note i = heap_invD[OF bs(1)]
  from malloc_ok[OF bs(1) assms(2,3)] show ?thesis
  proof (elim disjE exE conjE)
    assume "rt_malloc 0 sz h = Some (0, h)"
    then show ?thesis using assms(4) by simp
  next
    fix a n bs' h1
    assume r: "rt_malloc 0 sz h = Some (heap_ptr h + a + 12, h1)" "heap_inv h1 bs'"
      "allocs h1 bs' = insert (a, n) (allocs h bs)" "a \<notin> fst ` allocs h bs"
      "unat a + 12 + unat (need sz) \<le> unat n" "unat n \<le> unat (heap_end h)" "same_area h h1"
      "used_mem h1 = used_mem h + (n - a)"
    have e: "p = heap_ptr h + a + 12" "h' = h1" using r(1) assms(4) by simp_all
    have "unat (heap_ptr h + a) = unat (heap_ptr h) + unat a" "unat (heap_ptr h + a + 12) = unat (heap_ptr h) + unat a + 12"
      using r(5,6) i(7) unat_add_small[of "heap_ptr h" a] unat_add_small[of "heap_ptr h + a" 12] by simp_all
    then have p: "p \<noteq> 0" unfolding e by (metis add_is_0 unat_0 zero_neq_numeral)
    have al: "(a, n) \<in> allocs h1 bs'" using r(3) by simp
    have new: "(a, n) \<notin> A" using r(4) bs(2) by force
    have "finite A" using bs(2) allocs_finite[of h bs] by simp
    then have "used_mem h1 = (\<Sum>(a, n) \<in> insert (a, n) A. n - a)"
      using new r(8) bs(3) by (simp add: add.commute)
    then have "heap_good h1 (insert (a, n) A)" using r(2,3) bs(2) by (auto simp: heap_good_def)
    then show ?thesis using p e new r(5,7) alloc_block(3)[OF r(2) al] by auto
  qed
qed

lemma heap_run_good:
  assumes "heap_run h0 A h" "heap_good h0 {}"
  shows "heap_good h A \<and> same_area (h0\<lparr>bytes := bytes h\<rparr>) h"
  using assms
proof induction
  case start
  then show ?case by (simp add: same_area_def)
next
  case (malloc A h sz p h')
  then have g: "heap_good h A" "same_area (h0\<lparr>bytes := bytes h\<rparr>) h" by auto
  show ?case
  proof (cases "p = 0")
    case True
    then show ?thesis using malloc_good[OF g(1) malloc.hyps(2-4)] g by simp
  next
    case False
    then obtain a n where m: "p = heap_ptr h + a + 12" "n = hm_next (hdr h' a)" "heap_good h' (insert (a, n) A)"
      "same_area h h'" using malloc_good[OF g(1) malloc.hyps(2-4)] by auto
    have "p - heap_ptr h - 12 = a" using m(1) by simp
    then show ?thesis using False m g(2) by (simp add: same_area_def)
  qed
next
  case (free A h a n h')
  then obtain bs where bs: "heap_inv h bs" "allocs h bs = A" "used_mem h = (\<Sum>(a, n) \<in> A. n - a)"
    and sa: "same_area (h0\<lparr>bytes := bytes h\<rparr>) h" by (auto simp: heap_good_def)
  have al: "(a, n) \<in> allocs h bs" using free.hyps(2) bs(2) by simp
  from free_ok[OF bs(1) al] free.hyps(3) obtain bs' where r: "heap_inv h' bs'" "allocs h' bs' = A - {(a, n)}"
    "same_area h h'" "used_mem h' = used_mem h - (n - a)" using bs(2) by auto
  have "finite A" using bs(2) allocs_finite[of h bs] by simp
  then have "used_mem h' = (\<Sum>(a, n) \<in> A - {(a, n)}. n - a)"
    using r(4) bs(3) free.hyps(2) by (simp add: sum_diff1)
  then show ?case using r sa by (auto simp: heap_good_def same_area_def)
next
  case (store A h f)
  then obtain bs where "heap_inv h bs" "allocs h bs = A" "used_mem h = (\<Sum>(a, n) \<in> A. n - a)"
    and sa: "same_area (h0\<lparr>bytes := bytes h\<rparr>) h" by (auto simp: heap_good_def)
  then have "heap_good (h\<lparr>bytes := f\<rparr>) A" unfolding heap_good_def by (auto intro!: exI[of _ bs])
  then show ?case using sa by (simp add: same_area_def)
qed


section \<open>Properties\<close>

text \<open>A heap of 100 bytes, for the witnesses.\<close>

definition heap_blank :: small_mem where
  "heap_blank = \<lparr>heap_ptr = 0, heap_end = 0, lfree = 0, mem_size_aligned = 0, used_mem = 0, max_mem = 0,
     hdr = (\<lambda>_. \<lparr>hm_magic = 0, hm_used = 0, hm_next = 0, hm_prev = 0\<rparr>), bytes = (\<lambda>_. 0)\<rparr>"

definition heap_demo :: small_mem where
  "heap_demo = the (rt_system_heap_init 0 0x20000000 0x2000007C heap_blank)"

lemma heap_demo_init: "rt_system_heap_init 0 0x20000000 0x2000007C heap_blank = Some heap_demo"
  by (simp add: heap_demo_def rt_system_heap_init_def RT_ALIGN_def RT_ALIGN_DOWN_def heap_blank_def)

lemma heap_demo_inv: "heap_inv heap_demo [0]" "allocs heap_demo [0] = {}" "used_mem heap_demo = 0"
    "heap_ptr heap_demo = 0x20000000"
  using heap_init_ok[of "0x20000000" "0x2000007C" heap_blank] heap_demo_init
  by (simp_all add: RT_ALIGN_DOWN_def RT_ALIGN_def heap_blank_def)

lemma fits30: "fits heap_demo (need 30) 0"
  by (simp add: fits_def need_def heap_demo_def rt_system_heap_init_def RT_ALIGN_def RT_ALIGN_DOWN_def heap_blank_def)

lemma sz30: "(30 :: u32) \<noteq> 0" "unat (30 :: u32) + 3 < 2 ^ 32"
  by simp_all

lemma demo_malloc:
  obtains a n bs' h' where "rt_malloc 0 30 heap_demo = Some (0x20000000 + a + 12, h')" "heap_inv h' bs'"
    "allocs h' bs' = {(a, n)}" "used_mem h' = n - a" "heap_ptr h' = 0x20000000"
    "unat n \<le> 112" "unat a + 16 \<le> unat n"
proof -
  have "unat (heap_end heap_demo) = 112"
    by (simp add: heap_demo_def rt_system_heap_init_def RT_ALIGN_def RT_ALIGN_DOWN_def heap_blank_def)
  then show thesis
    using malloc_ok[OF heap_demo_inv(1) sz30]
  proof (elim disjE exE conjE)
    fix a n bs' h'
    assume m: "rt_malloc 0 30 heap_demo = Some (heap_ptr heap_demo + a + 12, h')" "heap_inv h' bs'"
      "allocs h' bs' = insert (a, n) (allocs heap_demo [0])" "same_area heap_demo h'"
      "used_mem h' = used_mem heap_demo + (n - a)" and n: "unat n \<le> unat (heap_end heap_demo)"
    moreover have "unat a + 16 \<le> unat n" using alloc_block(4)[OF m(2), of a n] m(3) by simp
    moreover assume "unat (heap_end heap_demo) = 112"
    ultimately show thesis using that[of a h' bs' n] unfolding heap_demo_inv same_area_def by simp
  qed (use fits30 in simp)
qed

text \<open>C29: Allocation. In a well-formed heap \<open>rt_malloc\<close> of a size that does not wrap returns, and either there is
  no free block that the search accepts, the result is \<open>RT_NULL\<close> and nothing changes; or it takes one of
  the free blocks the search accepts, the heap stays well formed, exactly the new block is added to the
  blocks in use, the block has room for the aligned size, the byte contents do not change and the usage
  counter grows by the size of the block with its header.\<close>

theorem heap_malloc_behaviour:
  assumes "heap_inv h bs" "sz \<noteq> 0" "unat sz + 3 < 2 ^ 32"
  shows "rt_malloc 0 sz h = Some (0, h) \<and> (\<forall>a \<in> set bs. \<not> fits h (need sz) a) \<or>
    (\<exists>a n bs' h'. rt_malloc 0 sz h = Some (heap_ptr h + a + 12, h') \<and> a \<in> set bs \<and> fits h (need sz) a \<and>
       heap_inv h' bs' \<and> allocs h' bs' = insert (a, n) (allocs h bs) \<and> a \<notin> fst ` allocs h bs \<and>
       unat a + 12 + unat (need sz) \<le> unat n \<and> unat n \<le> unat (heap_end h) \<and>
       same_area h h' \<and> used_mem h' = used_mem h + (n - a))"
  by (rule malloc_ok[OF assms])

theorem heap_malloc_behaviour_witness:
  "\<exists>a n bs' h'. rt_malloc 0 30 heap_demo = Some (0x20000000 + a + 12, h') \<and> heap_inv h' bs' \<and>
     allocs h' bs' = {(a, n)} \<and> used_mem h' = n - a"
proof -
  from heap_malloc_behaviour[OF heap_demo_inv(1) sz30] show ?thesis
  proof (elim disjE exE conjE)
    fix a n bs' h'
    assume "rt_malloc 0 30 heap_demo = Some (heap_ptr heap_demo + a + 12, h')" "heap_inv h' bs'"
      "allocs h' bs' = insert (a, n) (allocs heap_demo [0])" "used_mem h' = used_mem heap_demo + (n - a)"
    then show ?thesis unfolding heap_demo_inv by (intro exI conjI) (assumption, simp)+
  qed (use fits30 in simp)
qed

text \<open>Freeing. For the address of a block in use \<open>rt_free\<close> passes all its assertions and returns; the heap
  stays well formed, with neighbouring free blocks merged and \<open>lfree\<close> the lowest free block; exactly
  that block leaves the blocks in use, no byte changes, and the usage counter drops by its size.\<close>

theorem heap_free_behaviour:
  assumes "heap_inv h bs" "(a, n) \<in> allocs h bs"
  shows "\<exists>h' bs'. rt_free 0 (heap_ptr h + a + 12) h = Some h' \<and> heap_inv h' bs' \<and>
    allocs h' bs' = allocs h bs - {(a, n)} \<and> same_area h h' \<and> used_mem h' = used_mem h - (n - a)"
  by (rule free_ok[OF assms])

theorem heap_free_behaviour_witness:
  "\<exists>a h' h'' bs. rt_malloc 0 30 heap_demo = Some (0x20000000 + a + 12, h') \<and>
     rt_free 0 (0x20000000 + a + 12) h' = Some h'' \<and> heap_inv h'' bs \<and> allocs h'' bs = {} \<and> used_mem h'' = 0"
proof -
  obtain a n bs' h' where
    m: "rt_malloc 0 30 heap_demo = Some (0x20000000 + a + 12, h')" "heap_inv h' bs'" "allocs h' bs' = {(a, n)}"
      "used_mem h' = n - a" "heap_ptr h' = 0x20000000" "unat n \<le> 112" "unat a + 16 \<le> unat n" by (rule demo_malloc)
  then have "(a, n) \<in> allocs h' bs'" by simp
  from heap_free_behaviour[OF m(2) this] show ?thesis unfolding m(3-5) using m(1) by fastforce
qed

text \<open>Two blocks, header and data, share no byte.\<close>

definition apart :: "u32 \<times> u32 \<Rightarrow> u32 \<times> u32 \<Rightarrow> bool" where
  "apart x y \<longleftrightarrow> unat (snd x) \<le> unat (fst y) \<or> unat (snd y) \<le> unat (fst x)"

lemma good_apart:
  assumes "heap_good h A" "(a, n) \<in> A" "(b, m) \<in> A" "(a, n) \<noteq> (b, m)"
  shows "apart (a, n) (b, m)"
proof -
  from assms(1) obtain bs where bs: "heap_inv h bs" "allocs h bs = A" by (auto simp: heap_good_def)
  with assms(2-4) have "a \<in> set bs" "b \<in> set bs" "n = hm_next (hdr h a)" "m = hm_next (hdr h b)" "a \<noteq> b"
    by (auto simp: allocs_def)
  then show ?thesis using blocks_apart[OF bs(1)] by (auto simp: apart_def)
qed

lemma good_inside:
  assumes "heap_good h A" "(a, n) \<in> A"
  shows "unat a + 16 \<le> unat n" "unat n \<le> unat (heap_end h)" "unat a mod 4 = 0"
  using assms alloc_block by (auto simp: heap_good_def)

text \<open>C9: Exclusive memory. From the initialisation on, over every history of allocations, frees of allocated
  blocks and writes to memory: the blocks in use lie inside the heap and share no byte with each other,
  the usage counter is the sum of their sizes, every further \<open>rt_malloc\<close> returns, and what it returns is
  \<open>RT_NULL\<close> or a new word aligned block with room for the size, inside the heap, that shares no byte
  with any block in use; and every block in use can be freed.\<close>

theorem heap_blocks_exclusive:
  assumes "b \<noteq> 0" "unat b + 39 \<le> unat (RT_ALIGN_DOWN e)" "used_mem z = 0"
    and "rt_system_heap_init 0 b e z = Some h0" "heap_run h0 A h"
  shows "(\<forall>x \<in> A. unat (fst x) + 16 \<le> unat (snd x) \<and> unat (snd x) \<le> unat (heap_end h) \<and>
           (\<forall>y \<in> A. x \<noteq> y \<longrightarrow> apart x y)) \<and>
    used_mem h = (\<Sum>(a, n) \<in> A. n - a) \<and> unat (heap_ptr h) + unat (heap_end h) + 12 = unat (RT_ALIGN_DOWN e) \<and>
    (\<forall>sz. sz \<noteq> 0 \<and> unat sz + 3 < 2 ^ 32 \<longrightarrow> rt_malloc 0 sz h = Some (0, h) \<or>
      (\<exists>a n h'. rt_malloc 0 sz h = Some (heap_ptr h + a + 12, h') \<and> n = hm_next (hdr h' a) \<and>
         unat a mod 4 = 0 \<and> unat a + 12 + unat sz \<le> unat n \<and> unat n \<le> unat (heap_end h) \<and>
         (\<forall>x \<in> A. apart (a, n) x))) \<and>
    (\<forall>(a, n) \<in> A. \<exists>h'. rt_free 0 (heap_ptr h + a + 12) h = Some h')"
proof -
  from heap_init_ok[OF assms(1,2), of z] assms(3,4) have h0: "heap_good h0 {}"
    "unat (heap_ptr h0) + unat (heap_end h0) + 12 = unat (RT_ALIGN_DOWN e)"
    by (auto simp: heap_good_def)
  from heap_run_good[OF assms(5) h0(1)] have g: "heap_good h A" and sa: "heap_ptr h = heap_ptr h0" "heap_end h = heap_end h0"
    by (auto simp: same_area_def)
  from g obtain bs where bs: "heap_inv h bs" "allocs h bs = A" "used_mem h = (\<Sum>(a, n) \<in> A. n - a)"
    by (auto simp: heap_good_def)
  have m: "rt_malloc 0 sz h = Some (0, h) \<or>
      (\<exists>a n h'. rt_malloc 0 sz h = Some (heap_ptr h + a + 12, h') \<and> n = hm_next (hdr h' a) \<and>
         unat a mod 4 = 0 \<and> unat a + 12 + unat sz \<le> unat n \<and> unat n \<le> unat (heap_end h) \<and>
         (\<forall>x \<in> A. apart (a, n) x))" if sz: "sz \<noteq> 0" "unat sz + 3 < 2 ^ 32" for sz
    using malloc_ok[OF bs(1) sz]
  proof (elim disjE exE conjE)
    fix a n bs' h'
    assume r: "rt_malloc 0 sz h = Some (heap_ptr h + a + 12, h')" "heap_inv h' bs'"
      "allocs h' bs' = insert (a, n) (allocs h bs)" "a \<notin> fst ` allocs h bs"
      "unat a + 12 + unat (need sz) \<le> unat n" "unat n \<le> unat (heap_end h)"
      "used_mem h' = used_mem h + (n - a)"
    have "(a, n) \<notin> A" using r(4) bs(2) by force
    moreover have "finite A" using bs(2) allocs_finite[of h bs] by simp
    ultimately have g': "heap_good h' (insert (a, n) A)"
      using r(2,3,7) bs(2,3) by (auto simp: heap_good_def add.commute)
    have "(a, n) \<in> allocs h' bs'" using r(3) by simp
    from alloc_block[OF r(2) this] have "n = hm_next (hdr h' a)" "unat a mod 4 = 0" by simp_all
    moreover have "apart (a, n) x" if "x \<in> A" for x
      using good_apart[OF g', of a n "fst x" "snd x"] that \<open>(a, n) \<notin> A\<close> by (cases x) auto
    moreover have "unat sz \<le> unat (need sz)" using unat_RT_ALIGN[of sz] sz(2)
      by (auto simp: need_def word_less_nat_alt)
    ultimately show ?thesis using r(1,5,6) by force
  qed blast
  moreover have "\<forall>(a, n) \<in> A. \<exists>h'. rt_free 0 (heap_ptr h + a + 12) h = Some h'"
    using free_ok[OF bs(1)] bs(2) by blast
  moreover have "\<forall>x \<in> A. unat (fst x) + 16 \<le> unat (snd x) \<and> unat (snd x) \<le> unat (heap_end h) \<and>
           (\<forall>y \<in> A. x \<noteq> y \<longrightarrow> apart x y)"
    using good_apart[OF g] good_inside[OF g] by fastforce
  ultimately show ?thesis using bs(3) h0(2) sa by simp
qed

theorem heap_blocks_exclusive_witness:
  "\<exists>A h. heap_run heap_demo A h \<and> A \<noteq> {} \<and> used_mem h = (\<Sum>(a, n) \<in> A. n - a) \<and>
     (\<forall>(a, n) \<in> A. \<exists>h'. rt_free 0 (heap_ptr h + a + 12) h = Some h')"
proof -
  obtain a n bs' h' where
    m: "rt_malloc 0 30 heap_demo = Some (0x20000000 + a + 12, h')" "heap_inv h' bs'" "allocs h' bs' = {(a, n)}"
      "used_mem h' = n - a" "heap_ptr h' = 0x20000000" "unat n \<le> 112" "unat a + 16 \<le> unat n" by (rule demo_malloc)
  have "unat (0x20000000 + a) = 0x20000000 + unat a" "unat (0x20000000 + a + 12) = 0x20000000 + unat a + 12"
    using m(6,7) unat_add_small[of "0x20000000" a] unat_add_small[of "0x20000000 + a" 12] by simp_all
  then have p: "0x20000000 + a + 12 \<noteq> 0" by (metis add_is_0 unat_0 zero_neq_numeral)
  from heap_run.malloc[OF heap_run.start sz30 m(1)[folded heap_demo_inv(4)]] p obtain A where
    A: "A \<noteq> {}" "heap_run heap_demo A h'" unfolding heap_demo_inv(4) if_not_P[OF p] by blast
  have "0x20000000 \<noteq> (0::u32)" "unat (0x20000000::u32) + 39 \<le> unat (RT_ALIGN_DOWN (0x2000007C::u32))" "used_mem heap_blank = 0"
    by (simp_all add: RT_ALIGN_DOWN_def heap_blank_def)
  from heap_blocks_exclusive[OF this heap_demo_init A(2)] A show ?thesis by blast
qed

text \<open>Wrap-around of the request: requests above 0xFFFFFFFC are aligned to 0, so that the largest requests
  are served like a request for 12 bytes: the caller gets a block far smaller than it asked for.\<close>

lemma malloc_wraps:
  assumes "heap_inv h bs" "0xFFFFFFFD \<le> sz"
  shows "rt_malloc 0 sz h = rt_malloc 0 12 h"
proof -
  have "unat sz < 2 ^ 32" using unsigned_less[of sz, where 'a=nat] by simp
  then have "unat (sz + 3) = unat sz + 3 - 2 ^ 32" "unat sz + 3 - 2 ^ 32 < 3"
    using assms(2) by (simp_all add: word_le_nat_alt unat_word_ariths mod_if)
  then have "unat (RT_ALIGN_DOWN (sz + 3)) = 0" by (simp add: unat_RT_ALIGN_DOWN)
  then have "RT_ALIGN sz = 0" by (simp add: RT_ALIGN_def RT_ALIGN_DOWN_def unat_eq_zero add.commute)
  moreover have "RT_ALIGN 12 = (12 :: u32)" by (simp add: RT_ALIGN_def)
  moreover have "12 \<le> mem_size_aligned h" using heap_invD(15)[OF assms(1)] by (simp add: word_le_nat_alt)
  moreover have "sz \<noteq> 0" using assms(2) by auto
  ultimately show ?thesis by (simp add: rt_malloc_def not_less[symmetric])
qed

lemma heap_demo_eq: "heap_demo = \<lparr>heap_ptr = 0x20000000, heap_end = 112, lfree = 0, mem_size_aligned = 100, used_mem = 0, max_mem = 0,
     hdr = (\<lambda>_. \<lparr>hm_magic = 0, hm_used = 0, hm_next = 0, hm_prev = 0\<rparr>)
       (0 := \<lparr>hm_magic = HEAP_MAGIC, hm_used = 0, hm_next = 112, hm_prev = 0\<rparr>,
        112 := \<lparr>hm_magic = HEAP_MAGIC, hm_used = 1, hm_next = 112, hm_prev = 112\<rparr>), bytes = (\<lambda>_. 0)\<rparr>"
  by (simp add: heap_demo_def rt_system_heap_init_def RT_ALIGN_def RT_ALIGN_DOWN_def heap_blank_def)

definition heap_demo_used :: small_mem where
  "heap_demo_used = heap_demo\<lparr>lfree := 32, hdr := (hdr heap_demo)
       (0 := \<lparr>hm_magic = HEAP_MAGIC, hm_used = 1, hm_next = 32, hm_prev = 0\<rparr>,
        32 := \<lparr>hm_magic = HEAP_MAGIC, hm_used = 0, hm_next = 112, hm_prev = 0\<rparr>)\<rparr>"

lemma heap_demo_grow: "heap_inv heap_demo_used [0, 32]"
  by (simp add: heap_inv_def heap_base_def heap_demo_eq heap_demo_used_def blk_def)

text \<open>Growing a block. \<open>rt_realloc\<close> of a block in use to a size that is neither its present one nor small
  enough to split it either finds no memory and changes nothing, or moves the block: the new block
  replaces the old one among the blocks in use, the heap stays well formed, and the data is carried over
  up to the smaller of the two sizes, all other bytes staying as they are.\<close>

theorem heap_realloc_moves:
  assumes inv: "heap_inv h bs" and al: "(a, n) \<in> allocs h bs" and s: "s = n - a - 12"
    and sz: "RT_ALIGN sz \<noteq> 0" "unat sz + 3 < 2 ^ 32" "RT_ALIGN sz \<noteq> s" "\<not> RT_ALIGN sz + 12 + 12 < s"
  shows "rt_realloc 0 (heap_ptr h + a + 12) sz h = Some (0, h) \<or>
    (\<exists>c m h' bs'. rt_realloc 0 (heap_ptr h + a + 12) sz h = Some (heap_ptr h + c + 12, h') \<and> heap_inv h' bs' \<and>
       allocs h' bs' = insert (c, m) (allocs h bs) - {(a, n)} \<and> unat c + 12 + unat (RT_ALIGN sz) \<le> unat m \<and>
       (\<forall>q. bytes h' q = (if q - (c + 12) < min s (RT_ALIGN sz) then bytes h (a + 12 + (q - (c + 12))) else bytes h q)))"
proof (cases "RT_ALIGN sz > mem_size_aligned h")
  case True
  then show ?thesis by (simp add: rt_realloc_def)
next
  case False
  let ?p = "heap_ptr h + a + 12" and ?z = "RT_ALIGN sz"
  note i = heap_invD[OF inv] and b = alloc_block[OF inv al]
  have u: "unat (heap_ptr h + a) = unat (heap_ptr h) + unat a" "unat ?p = unat (heap_ptr h) + unat a + 12"
    "unat (heap_ptr h + heap_end h) = unat (heap_ptr h) + unat (heap_end h)"
    using b(4,5) i(7) unat_add_small[of "heap_ptr h" a] unat_add_small[of "heap_ptr h + a" 12]
      unat_add_small[of "heap_ptr h" "heap_end h"] by simp_all
  have p0: "?p \<noteq> 0" using u(2) by (metis add_is_0 unat_0 zero_neq_numeral)
  have in_heap: "\<not> (?p < heap_ptr h \<or> heap_ptr h + heap_end h \<le> ?p)"
    using u b(4,5) by (simp add: word_less_nat_alt word_le_nat_alt)
  have z: "unat ?z = (unat sz + 3) div 4 * 4" using unat_RT_ALIGN[of sz] sz(2) by simp
  have zl: "unat ?z \<le> 2 ^ 32 - 4" using z sz(2) by simp
  then have "unat (RT_ALIGN ?z) = (unat ?z + 3) div 4 * 4" using unat_RT_ALIGN[of ?z] by simp
  then have zz: "RT_ALIGN ?z = ?z" "unat ?z + 3 < 2 ^ 32" using z zl by (simp_all add: word_unat_eq_iff)
  have run: "rt_realloc 0 ?p sz h = do {
         (nmem, h1) \<leftarrow> rt_malloc 0 ?z h;
         if nmem \<noteq> 0 then do {
           let h2 = heap_copy (nmem - heap_ptr h1) (?p - heap_ptr h1) (if s < ?z then s else ?z) h1;
           h3 \<leftarrow> rt_free 0 ?p h2;
           Some (nmem, h3) }
         else Some (nmem, h1) }"
    using False sz in_heap p0 b(3) unfolding rt_realloc_def s b(3) by (simp add: Let_def)
  from malloc_ok[OF inv sz(1) zz(2)] show ?thesis
  proof (elim disjE exE conjE)
    assume "rt_malloc 0 ?z h = Some (0, h)"
    then show ?thesis using run by simp
  next
    fix c m bs1 h1
    assume r: "rt_malloc 0 ?z h = Some (heap_ptr h + c + 12, h1)" "heap_inv h1 bs1"
      "allocs h1 bs1 = insert (c, m) (allocs h bs)" "unat c + 12 + unat (need ?z) \<le> unat m"
      "unat m \<le> unat (heap_end h)" "same_area h h1"
    have sa: "heap_ptr h1 = heap_ptr h" "bytes h1 = bytes h" using r(6) by (simp_all add: same_area_def)
    have "unat (heap_ptr h + c) = unat (heap_ptr h) + unat c" "unat (heap_ptr h + c + 12) = unat (heap_ptr h) + unat c + 12"
      using r(4,5) i(7) unat_add_small[of "heap_ptr h" c] unat_add_small[of "heap_ptr h + c" 12] by simp_all
    then have c0: "heap_ptr h + c + 12 \<noteq> 0" by (metis add_is_0 unat_0 zero_neq_numeral)
    let ?h2 = "heap_copy (c + 12) (a + 12) (if s < ?z then s else ?z) h1"
    have h2: "heap_inv ?h2 bs1" "(a, n) \<in> allocs ?h2 bs1" "heap_ptr ?h2 = heap_ptr h"
      "allocs ?h2 bs1 = insert (c, m) (allocs h bs)"
      using r(2,3) al sa by (simp_all add: heap_copy_def)
    from free_ok[OF h2(1,2)] obtain h3 bs3 where f: "rt_free 0 ?p ?h2 = Some h3" "heap_inv h3 bs3"
      "allocs h3 bs3 = insert (c, m) (allocs h bs) - {(a, n)}" "same_area ?h2 h3"
      unfolding h2(3,4) by blast
    have "rt_realloc 0 ?p sz h = Some (heap_ptr h + c + 12, h3)"
      using run r(1) c0 f(1) sa(1) by (simp add: algebra_simps)
    moreover have "bytes h3 q = (if q - (c + 12) < min s ?z then bytes h (a + 12 + (q - (c + 12))) else bytes h q)" for q
    proof -
      have "(if s < ?z then s else ?z) = min s ?z" by (auto simp: min_def)
      with f(4) sa show ?thesis by (simp add: same_area_def heap_copy_def)
    qed
    moreover have "unat ?z \<le> unat (need ?z)" unfolding need_def zz(1) by (simp add: word_less_nat_alt)
    then have "unat c + 12 + unat ?z \<le> unat m" using r(4) by simp
    ultimately show ?thesis using f(2,3) by blast
  qed
qed

theorem heap_realloc_moves_witness:
  "rt_realloc 0 0x2000000C 32 heap_demo_used = Some (0, heap_demo_used) \<or>
    (\<exists>c m h'. rt_realloc 0 0x2000000C 32 heap_demo_used = Some (0x20000000 + c + 12, h') \<and>
       (\<forall>q. q - (c + 12) < 20 \<longrightarrow> bytes h' q = bytes heap_demo_used (0 + 12 + (q - (c + 12)))))"
proof -
  have "(0, 32) \<in> allocs heap_demo_used [0, 32]" by (simp add: heap_demo_used_def allocs_def)
  moreover have "heap_ptr heap_demo_used = 0x20000000" by (simp add: heap_demo_used_def heap_demo_eq)
  ultimately show ?thesis
    using heap_realloc_moves[OF heap_demo_grow, of 0 32 20 32] by (fastforce simp: RT_ALIGN_def)
qed

definition heap_demo1 :: small_mem where
  "heap_demo1 = heap_demo\<lparr>lfree := 72, used_mem := 72, max_mem := 72,
     hdr := (hdr heap_demo)
       (0 := \<lparr>hm_magic = HEAP_MAGIC, hm_used = 1, hm_next = 72, hm_prev = 0\<rparr>,
        72 := \<lparr>hm_magic = HEAP_MAGIC, hm_used = 0, hm_next = 112, hm_prev = 0\<rparr>)\<rparr>"

definition heap_demo2 :: small_mem where
  "heap_demo2 = heap_demo1\<lparr>lfree := 112, used_mem := 112, max_mem := 112,
     hdr := (hdr heap_demo1)
       (72 := \<lparr>hm_magic = HEAP_MAGIC, hm_used = 1, hm_next = 112, hm_prev = 0\<rparr>)\<rparr>"

lemmas demo_step = rt_malloc_def rt_realloc_def RT_ALIGN_def malloc_take_def malloc_mark_def hdr_upd_def

text \<open>The search of a heap whose blocks from \<open>lfree\<close> on are those of a well-formed one.\<close>

lemma malloc_search_none:
  assumes "heap_inv h (xs @ ys)" "sz \<le> mem_size_aligned h" "\<forall>b \<in> set ys. \<not> fits h sz b"
    and "mem_size_aligned h' = mem_size_aligned h" "\<forall>b \<in> set ys. hdr h' b = hdr h b"
  shows "malloc_search sz h' (hd (ys @ [heap_end h])) = Some (0, h')"
  using assms(1,3,5)
proof (induction ys arbitrary: xs)
  case Nil
  note i = heap_invD[OF Nil.prems(1)]
  have "unat (mem_size_aligned h - sz) = unat (mem_size_aligned h) - unat sz" by (rule unat_sub[OF assms(2)])
  then have "\<not> heap_end h < mem_size_aligned h' - sz" using i(5) assms(4) by (simp add: word_less_nat_alt)
  then show ?case by (subst malloc_search.simps) simp
next
  case (Cons a as)
  note i = heap_invD[OF Cons.prems(1)]
  have n: "hm_next (hdr h a) = hd (as @ [heap_end h])" "unat a + 12 \<le> unat (hm_next (hdr h a))"
    using next_block[OF i(3)] by simp_all
  have sub: "unat (mem_size_aligned h - sz) = unat (mem_size_aligned h) - unat sz" by (rule unat_sub[OF assms(2)])
  have lt: "a < mem_size_aligned h - sz \<longleftrightarrow> unat a + unat sz < unat (mem_size_aligned h)"
    unfolding word_less_nat_alt sub by auto
  have fi: "hm_used (hdr h a) = 0 \<and> hm_next (hdr h a) - (a + SIZEOF_STRUCT_MEM) \<ge> sz \<longleftrightarrow>
      \<not> used h a \<and> unat a + 12 + unat sz \<le> unat (hm_next (hdr h a))"
    unfolding word_le_nat_alt unat_gap[OF n(2)] using n(2) by auto
  have no: "\<not> fits h sz a" "hdr h' a = hdr h a" using Cons.prems(2,3) by simp_all
  have ih: "malloc_search sz h' (hm_next (hdr h a)) = Some (0, h')"
    using Cons.IH[of "xs @ [a]"] Cons.prems n(1) by simp
  show ?case
    by (subst malloc_search.simps) (use lt fi ih no assms(4) in \<open>auto simp: fits_def\<close>)
qed

text \<open>The heap after the block \<open>(a, n)\<close> in use has been shrunk to \<open>z\<close> bytes, when the block behind it is in use.\<close>

definition shrunk :: "u32 \<Rightarrow> u32 \<Rightarrow> u32 \<Rightarrow> small_mem \<Rightarrow> small_mem" where
  "shrunk a n z h =
     (let b = a + 12 + z;
          h1 = h\<lparr>used_mem := used_mem h - (n - a - 12 - z),
             hdr := (hdr h)(b := \<lparr>hm_magic = HEAP_MAGIC, hm_used = 0, hm_next = n, hm_prev = a\<rparr>)\<rparr>;
          h2 = hdr_upd a (hm_next_update (\<lambda>_. b)) h1
      in if n \<noteq> heap_end h then hdr_upd n (hm_prev_update (\<lambda>_. b)) h2 else h2)"

lemma rt_realloc_shrink:
  assumes inv: "heap_inv h bs" and al: "(a, n) \<in> allocs h bs" and un: "used h n"
    and z: "z = RT_ALIGN sz" "z \<noteq> 0" "unat a + 36 + unat z < unat n"
  shows "rt_realloc 0 (heap_ptr h + a + 12) sz h = Some (heap_ptr h + a + 12, shrunk a n z h)"
    and "unat (a + 12 + z) = unat a + 12 + unat z"
proof -
  note i = heap_invD[OF inv] and b = alloc_block[OF inv al]
  let ?p = "heap_ptr h + a + 12" and ?b = "a + 12 + z"
  have lt: "unat n < 2 ^ 32" using unsigned_less[of n, where 'a = nat] by simp
  then have u12: "unat (a + 12) = unat a + 12" using unat_add_small[of a 12] b(4) by simp
  then show ub: "unat ?b = unat a + 12 + unat z" using unat_add_small[of "a + 12" z] z(3) lt by simp
  have u: "unat (heap_ptr h + a) = unat (heap_ptr h) + unat a" "unat ?p = unat (heap_ptr h) + unat a + 12"
    "unat (heap_ptr h + heap_end h) = unat (heap_ptr h) + unat (heap_end h)"
    using b(4,5) i(7) unat_add_small[of "heap_ptr h" a] unat_add_small[of "heap_ptr h + a" 12]
      unat_add_small[of "heap_ptr h" "heap_end h"] by simp_all
  have p0: "?p \<noteq> 0" using u(2) by (metis add_is_0 unat_0 zero_neq_numeral)
  have in_heap: "\<not> (?p < heap_ptr h \<or> heap_ptr h + heap_end h \<le> ?p)"
    using u b(4,5) by (simp add: word_less_nat_alt word_le_nat_alt)
  have s: "unat (n - a - 12) = unat n - unat a - 12" using unat_gap[of a n] b(4) by (simp add: diff_diff_add)
  have z24: "unat (z + 12 + 12) = unat z + 24" using unat_add_small[of z 24] z(3) lt by (simp add: add.assoc)
  have small: "z + 12 + 12 < n - a - 12" unfolding word_less_nat_alt s z24 using z(3) by simp
  have ms: "\<not> z > mem_size_aligned h" using z(3) b(5) i(5) by (simp add: word_less_nat_alt)
  have ne: "n - a - 12 \<noteq> z"
  proof
    assume "n - a - 12 = z"
    then have "unat n - unat a - 12 = unat z" using s by metis
    then show False using z(3) by linarith
  qed
  have d: "?b \<noteq> a" "?b \<noteq> n" "n \<noteq> a" using ub z(3) by (auto simp: word_unat_eq_iff)
  have he: "heap_end h = mem_size_aligned h + 12" using i(5) b(5) i(7)
    by (simp add: word_unat_eq_iff unat_word_ariths)
  have be: "?b < heap_end h" using ub z(3) b(5) by (simp add: word_less_nat_alt)
  have "plug_holes ?b (shrunk a n z h) = Some (shrunk a n z h)"
    using d be un b(2) unfolding plug_holes_def shrunk_def by (auto simp: Let_def)
  then have plug: "plug_holes ?b (shrunk a n z h) = Some (shrunk a n z h)" .
  show "rt_realloc 0 ?p sz h = Some (?p, shrunk a n z h)"
  proof (cases "n = mem_size_aligned h + 12")
    case True
    then show ?thesis
      using plug ms z(2) p0 in_heap ne small d unfolding rt_realloc_def z(1)[symmetric] shrunk_def
      by (simp add: Let_def b(3)[symmetric] he)
  next
    case False
    then show ?thesis
      using plug ms z(2) p0 in_heap ne small d unfolding rt_realloc_def z(1)[symmetric] shrunk_def
      by (simp add: Let_def b(3)[symmetric] he)
  qed
qed

text \<open>C30: Shrinking loses memory. In a well-formed heap let \<open>(a, n)\<close> be a block in use that starts below
  \<open>lfree\<close>, the block behind it also being in use (or the end of the heap), and let it be shrunk by
  \<open>rt_realloc\<close> to a size that leaves room for a new block. The call returns the same address and leaves a free
  block behind the shrunk one, but \<open>lfree\<close> is not moved down to it: it lies below \<open>lfree\<close>, where the
  search of \<open>rt_malloc\<close> does not look, and every request that was refused before the shrink is refused after
  it, even when the free block is large enough. (When the block behind is free, it is merged, and \<open>lfree\<close> moves
  if it pointed there.)\<close>

theorem realloc_shrink_loses_block:
  assumes "heap_inv h bs" "(a, n) \<in> allocs h bs" "a < lfree h" "used h n"
    and "z = RT_ALIGN sz" "z \<noteq> 0" "unat a + 36 + unat z < unat n"
  shows "\<exists>h'. rt_realloc 0 (heap_ptr h + a + 12) sz h = Some (heap_ptr h + a + 12, h') \<and>
    hm_next (hdr h' a) = a + 12 + z \<and> \<not> used h' (a + 12 + z) \<and> hm_next (hdr h' (a + 12 + z)) = n \<and>
    lfree h' = lfree h \<and> a + 12 + z < lfree h \<and>
    (\<forall>m. m \<noteq> 0 \<and> unat m + 3 < 2 ^ 32 \<and> rt_malloc 0 m h = Some (0, h) \<longrightarrow> rt_malloc 0 m h' = Some (0, h'))"
proof -
  let ?h = "shrunk a n z h" and ?b = "a + 12 + z"
  note i = heap_invD[OF assms(1)] and b = alloc_block[OF assms(1,2)]
  note r = rt_realloc_shrink[OF assms(1,2,4-7)]
  have d: "?b \<noteq> a" "?b \<noteq> n" "n \<noteq> a" using r(2) assms(7) by (auto simp: word_unat_eq_iff)
  obtain xs ys where bs: "bs = xs @ ys" "lfree h = hd (ys @ [heap_end h])" using lfree_split[OF assms(1)] by blast
  have nl: "unat n \<le> unat (lfree h)" "lfree h \<in> set bs \<Longrightarrow> unat n < unat (lfree h)"
  proof -
    show "unat n < unat (lfree h)" if "lfree h \<in> set bs"
    proof -
      have "\<not> used h (lfree h)" using that i(10,12) by auto
      then have "lfree h \<noteq> n" using assms(4) by auto
      moreover have "unat n \<le> unat (lfree h) \<or> unat (hm_next (hdr h (lfree h))) \<le> unat a"
        using blocks_apart[OF assms(1) b(1) that] assms(3) b(3) by auto
      moreover have "unat (lfree h) \<le> unat (hm_next (hdr h (lfree h)))"
        using split_list[OF that] next_block(1,2)[of h 0 _ "lfree h"] i(3) by fastforce
      ultimately show ?thesis using assms(3) by (auto simp: word_less_nat_alt word_unat_eq_iff)
    qed
    then show "unat n \<le> unat (lfree h)" using i(10) b(5) by (cases "lfree h \<in> set bs") auto
  qed
  have above: "unat n < unat c" if "c \<in> set ys" for c
  proof -
    have "unat (lfree h) \<le> unat c" using i(13) bs that by (cases ys) (auto simp: sorted_wrt_append)
    moreover have "lfree h \<in> set bs" using bs that by (cases ys) auto
    ultimately show ?thesis using nl(2) by simp
  qed
  have same: "\<forall>c \<in> set ys. hdr ?h c = hdr h c"
    using above r(2) assms(7) by (fastforce simp: shrunk_def Let_def)
  have ms: "mem_size_aligned ?h = mem_size_aligned h" "lfree ?h = lfree h" by (simp_all add: shrunk_def Let_def)
  have "rt_malloc 0 m ?h = Some (0, ?h)" if m: "m \<noteq> 0" "unat m + 3 < 2 ^ 32" "rt_malloc 0 m h = Some (0, h)" for m
  proof (cases "RT_ALIGN m > mem_size_aligned h")
    case True
    then show ?thesis using m(1) ms by (simp add: rt_malloc_def)
  next
    case False
    then have n: "need m \<le> mem_size_aligned h" using i(15) by (auto simp: need_def word_le_nat_alt word_less_nat_alt)
    have "\<forall>c \<in> set bs. \<not> fits h (need m) c" by (rule malloc_refused[OF assms(1) m])
    then have "malloc_search (need m) ?h (lfree h) = Some (0, ?h)"
      using malloc_search_none[OF assms(1)[unfolded bs(1)] n _ ms(1) same] bs by simp
    then show ?thesis using False m(1) ms by (simp add: rt_malloc_def need_def)
  qed
  moreover have "?b < lfree h" using r(2) assms(7) nl(1) by (simp add: word_less_nat_alt)
  moreover have "hm_next (hdr ?h a) = ?b" "\<not> used ?h ?b" "hm_next (hdr ?h ?b) = n"
    using d by (simp_all add: shrunk_def Let_def)
  ultimately show ?thesis using r(1) ms(2) by blast
qed

text \<open>The heap of 100 bytes, all of it in use by blocks of 60 and 28 bytes.\<close>

lemma heap_demo2_inv: "heap_inv heap_demo2 [0, 72]"
  by (simp add: heap_inv_def heap_base_def heap_demo_eq heap_demo2_def heap_demo1_def blk_def)

lemma demo2_full: "rt_malloc 0 12 heap_demo2 = Some (0, heap_demo2)"
  unfolding heap_demo2_def heap_demo1_def heap_demo_eq
  by (subst rt_malloc_def, subst malloc_search.simps) (simp add: RT_ALIGN_def)

theorem realloc_shrink_loses_block_witness:
  "\<exists>h. rt_realloc 0 0x2000000C 20 heap_demo2 = Some (0x2000000C, h) \<and>
     \<not> used h 32 \<and> hm_next (hdr h 32) = 32 + 12 + 28 \<and> rt_malloc 0 12 h = Some (0, h)"
proof -
  have "(0, 72) \<in> allocs heap_demo2 [0, 72]" "0 < lfree heap_demo2" "used heap_demo2 72" "heap_ptr heap_demo2 = 0x20000000"
    by (simp_all add: allocs_def heap_demo2_def heap_demo1_def heap_demo_eq)
  moreover have "(20 :: u32) = RT_ALIGN 20" by (simp add: RT_ALIGN_def)
  ultimately show ?thesis
    using realloc_shrink_loses_block[OF heap_demo2_inv, of 0 72 20 20] demo2_full by (fastforce intro: spec[of _ 12])
qed

end
