(* ===== verification/Idle.thy ===== *)
theory Idle
  imports Waiting Heap
begin

text \<open>
  The idle thread (\<open>src/idle.c\<close>): its hook list and the reclaiming of the threads in the defunct list,
  which \<open>rt_thread_exit\<close>, \<open>rt_thread_delete\<close> and \<open>rt_thread_detach\<close> of \<open>src/thread.c\<close> fill. Hooks and the
  \<open>cleanup\<close> functions of threads are application code, parameters of the definitions; a function is named
  by a number, 0 for \<open>RT_NULL\<close>. The control block of the idle thread, its stack and its entry are
  addresses of the linker.
\<close>

section \<open>Operations\<close>

definition rt_thread_idle_sethook :: "nat \<Rightarrow> kstate \<Rightarrow> rt_err \<times> kstate" where
  "rt_thread_idle_sethook hook s =
     (case find (\<lambda>i. idle_hook_list s ! i = 0) [0..<4] of
        None \<Rightarrow> (- RT_EFULL, s)
      | Some i \<Rightarrow> (RT_EOK, s\<lparr>idle_hook_list := (idle_hook_list s)[i := hook]\<rparr>))"

definition rt_thread_idle_delhook :: "nat \<Rightarrow> kstate \<Rightarrow> rt_err \<times> kstate" where
  "rt_thread_idle_delhook hook s =
     (case find (\<lambda>i. idle_hook_list s ! i = hook) [0..<4] of
        None \<Rightarrow> (- RT_ENOSYS, s)
      | Some i \<Rightarrow> (RT_EOK, s\<lparr>idle_hook_list := (idle_hook_list s)[i := 0]\<rparr>))"

definition has_defunct_thread :: "kstate \<Rightarrow> bool" where
  "has_defunct_thread s \<longleftrightarrow> lists s Defunct \<noteq> []"

partial_function (option) rt_thread_idle_excute ::
    "(nat \<Rightarrow> nat \<Rightarrow> kstate \<Rightarrow> kstate option) \<Rightarrow> kstate \<Rightarrow> kstate option" where
  "rt_thread_idle_excute cleanup s =
     (if \<not> has_defunct_thread s then Some s
      else do {
        RT_DEBUG_NOT_IN_INTERRUPT s;
        let t = hd (lists s Defunct);
        let s1 = rt_enter_critical (rt_list_remove t s);
        s2 \<leftarrow> (if th_cleanup (threads s1 t) \<noteq> 0 then cleanup (th_cleanup (threads s1 t)) t s1 else Some s1);
        if rt_object_is_systemobject (OThread t) s2
        then rt_exit_critical (rt_object_detach (OThread t) s2)
        else do {
          s3 \<leftarrow> rt_exit_critical s2;
          h \<leftarrow> rt_free (interrupt_nest s3) (th_stack_addr (threads s3 t)) (kheap s3);
          s4 \<leftarrow> rt_object_delete (OThread t) t (s3\<lparr>kheap := h\<rparr>);
          rt_thread_idle_excute cleanup s4 } })"

text \<open>One round of the endless loop of \<open>rt_thread_idle_entry\<close>.\<close>

function run_idle_hooks :: "(nat \<Rightarrow> kstate \<Rightarrow> kstate option) \<Rightarrow> nat \<Rightarrow> kstate \<Rightarrow> kstate option" where
  "run_idle_hooks run i s =
     (if i < 4 then do {
        s1 \<leftarrow> (if idle_hook_list s ! i \<noteq> 0 then run (idle_hook_list s ! i) s else Some s);
        run_idle_hooks run (i + 1) s1 }
      else Some s)"
  by auto
termination by (relation "measure (\<lambda>(run, i, s). 4 - i)") auto

declare run_idle_hooks.simps [simp del]

definition rt_thread_idle_entry_round ::
    "(nat \<Rightarrow> kstate \<Rightarrow> kstate option) \<Rightarrow> (nat \<Rightarrow> nat \<Rightarrow> kstate \<Rightarrow> kstate option) \<Rightarrow> kstate \<Rightarrow> kstate option" where
  "rt_thread_idle_entry_round run cleanup s = do {
     s1 \<leftarrow> run_idle_hooks run 0 s;
     rt_thread_idle_excute cleanup s1 }"

definition rt_thread_idle_init :: "u32 \<Rightarrow> nat \<Rightarrow> u32 \<Rightarrow> u32 \<Rightarrow> kstate \<Rightarrow> kstate option" where
  "rt_thread_idle_init rt_thread_exit_addr idle idle_stack rt_thread_idle_entry s = do {
     let tidle_name = [0x74, 0x69, 0x64, 0x6c, 0x65, 0x30, 0];
     (_, s1) \<leftarrow> rt_thread_init rt_thread_exit_addr idle tidle_name rt_thread_idle_entry 0 idle_stack 256 31 32 s;
     (_, s2) \<leftarrow> rt_thread_startup idle s1;
     Some s2 }"

section \<open>Reclaiming\<close>

text \<open>A closed thread leaves the defunct list.\<close>

lemma remove_closed_kinv:
  assumes inv: "kinv s" and st: "stat_of s t = RT_THREAD_CLOSE"
  shows "rt_list_remove t s = unlinked t (ready_group s) s" "kinv (unlinked t (ready_group s) s)"
proof -
  note k = kinvD[OF inv] and ok = sched_okD[OF kinvD(1)[OF inv]]
  show "rt_list_remove t s = unlinked t (ready_group s) s" by (rule rt_list_remove_eq[OF ok(1)])
  let ?s = "unlinked t (ready_group s) s"
  have "removeAll t (lists s (ReadyQ p)) = lists s (ReadyQ p)" for p
  proof -
    have "tlink s t \<noteq> Some (ReadyQ p)" using thr_okD(1)[OF ok(3), of t p] st by auto
    then show ?thesis using links_okD(1)[OF ok(1), of t "ReadyQ p"] by (simp add: removeAll_id)
  qed
  then have "group_ok ?s" using ok(2) by (simp add: group_ok_def)
  then have "sched_ok {t} ?s" using unlinked_sched_ok[OF k(1)] unlinked_links_ok[OF ok(1)] by blast
  moreover have "thr_ok ?s t" using st by (simp add: thr_ok_def place_ok_def)
  ultimately have "sched_inv ?s" using sched_ok_close[of "{t}" ?s] by auto
  moreover have "timer_entry_ok ?s x = timer_entry_ok s x" for x
    by (simp add: timer_entry_ok_def rt_object_get_type_def timer_flag_def split: timer_id.split)
  moreover have "typed_ok ?s u = typed_ok s u" for u by (simp add: typed_ok_def rt_object_get_type_def timer_flag_def)
  ultimately show "kinv ?s" using k by (simp add: kinv_def timers_ok_def started_def)
qed

lemma defunct_closed:
  assumes "kinv s" "t \<in> set (lists s Defunct)"
  shows "stat_of s t = RT_THREAD_CLOSE"
proof -
  note ok = sched_okD[OF kinvD(1)[OF assms(1)]]
  have "tlink s t = Some Defunct" using links_okD(1)[OF ok(1)] assms(2) by blast
  then show ?thesis using ok(3)[of t] by (simp add: thr_ok_def place_ok_def)
qed

text \<open>The control block of a closed thread is given up.\<close>

lemma kinv_thread_obj:
  assumes inv: "kinv s" and st: "\<not> started s t"
  shows "kinv (obj_upd (OThread t) f s)"
proof -
  let ?s = "obj_upd (OThread t) f s"
  note k = kinvD[OF inv]
  have sm: "same_sched s ?s" by (simp add: same_sched_def)
  have e: "timer_entry_ok ?s y = timer_entry_ok s y" for y
    using same_schedD(6)[OF sm] by (simp add: timer_entry_ok_def rt_object_get_type_def timer_flag_def split: timer_id.split)
  have "typed_ok ?s u = typed_ok s u" if "started s u" for u
  proof -
    have "u \<noteq> t" using that st by blast
    then show ?thesis by (simp add: typed_ok_def rt_object_get_type_def timer_flag_def)
  qed
  then show ?thesis unfolding kinv_def same_schedD(5,8,9)[OF sm] using k e by (simp add: timers_ok_def)
qed

text \<open>What the reclaiming needs from cleanup functions: they return and keep the kernel's invariant, the
  defunct list, the heap and the identity of threads; they may wake threads and change other objects.\<close>

definition reclaim_frame :: "kstate \<Rightarrow> kstate \<Rightarrow> bool" where
  "reclaim_frame s s' \<longleftrightarrow> lists s' Defunct = lists s Defunct \<and> kheap s' = kheap s \<and> lock_nest s' = lock_nest s \<and>
     interrupt_nest s' = interrupt_nest s \<and> containers s' = containers s \<and>
     (\<forall>t. started s' t = started s t \<and> obj_type (objs s' (OThread t)) = obj_type (objs s (OThread t)) \<and>
        th_stack_addr (threads s' t) = th_stack_addr (threads s t))"

lemma reclaim_frame_trans: "\<lbrakk>reclaim_frame a b; reclaim_frame b c\<rbrakk> \<Longrightarrow> reclaim_frame a c"
  by (simp add: reclaim_frame_def)

definition cleanup_ok :: "(nat \<Rightarrow> nat \<Rightarrow> kstate \<Rightarrow> kstate option) \<Rightarrow> bool" where
  "cleanup_ok cleanup \<longleftrightarrow> (\<forall>f t s. kinv s \<longrightarrow> (\<exists>s'. cleanup f t s = Some s' \<and> kinv s' \<and> reclaim_frame s s'))"

lemma exit_critical_ok:
  assumes "kinv s" "lock_nest s = 1"
  shows "\<exists>s'. rt_exit_critical s = Some s' \<and> kinv s' \<and> lock_nest s' = 0 \<and> reclaim_frame (s\<lparr>lock_nest := 0\<rparr>) s'"
proof -
  let ?s = "s\<lparr>lock_nest := 0\<rparr>"
  have k: "kinv ?s" using assms(1) by simp
  from rt_schedule_kinv[OF k] obtain s' where s': "rt_schedule ?s = Some s'" "kinv s'" "sched_frame ?s s'"
    "\<And>t. started s' t = started ?s t" by blast
  have st: "th_stack_addr (threads s' t) = th_stack_addr (threads s t)" for t
  proof -
    have "threads s' t = (threads ?s t)\<lparr>th_stat := th_stat (threads s' t)\<rparr>" using s'(3) by (simp add: sched_frame_def)
    then have "th_stack_addr (threads s' t) = th_stack_addr ((threads ?s t)\<lparr>th_stat := th_stat (threads s' t)\<rparr>)"
      by (rule arg_cong)
    then show ?thesis by simp
  qed
  have "rt_exit_critical s = Some s'" using s'(1) kinvD(4)[OF assms(1)] assms(2) by (auto simp: rt_exit_critical_def Let_def)
  with s'(2,4) sched_frameD[OF s'(3)] st show ?thesis by (auto simp: reclaim_frame_def)
qed

text \<open>Taking the first defunct thread up to the end of its cleanup.\<close>

lemma unlink_first:
  assumes inv: "kinv s" and z: "lock_nest s = 0" and d: "lists s Defunct = t # ts" and cl: "cleanup_ok cleanup"
  shows "\<exists>s2. (let s1 = rt_enter_critical (rt_list_remove t s) in
      if th_cleanup (threads s1 t) \<noteq> 0 then cleanup (th_cleanup (threads s1 t)) t s1 else Some s1) = Some s2 \<and>
    kinv s2 \<and> lists s2 Defunct = ts \<and> lock_nest s2 = 1 \<and> stat_of s t = RT_THREAD_CLOSE \<and>
    reclaim_frame (s\<lparr>lists := (lists s)(Defunct := ts), lock_nest := 1\<rparr>) s2"
proof -
  have st: "stat_of s t = RT_THREAD_CLOSE" using defunct_closed[OF inv] d by simp
  note rm = remove_closed_kinv[OF inv st]
  let ?u = "unlinked t (ready_group s) s"
  define s1 where "s1 = rt_enter_critical (rt_list_remove t s)"
  have e1: "s1 = ?u\<lparr>lock_nest := 1\<rparr>" using z by (simp add: s1_def rm(1) rt_enter_critical_def)
  have "t \<notin> set ts" using lists_distinct[OF inv, of Defunct] d by simp
  then have "lists s1 Defunct = ts" using d by (simp add: e1 removeAll_id)
  moreover have k1: "kinv s1" using rm(2) by (simp add: e1)
  moreover have "reclaim_frame (s\<lparr>lists := (lists s)(Defunct := ts), lock_nest := 1\<rparr>) s1"
    using calculation by (simp add: reclaim_frame_def e1 unlinked_def started_def stat_of_def)
  moreover obtain s2 where "(if th_cleanup (threads s1 t) \<noteq> 0 then cleanup (th_cleanup (threads s1 t)) t s1 else Some s1) = Some s2"
    "kinv s2" "reclaim_frame s1 s2"
  proof (cases "th_cleanup (threads s1 t) = 0")
    case False
    then show ?thesis using that cl k1 unfolding cleanup_ok_def by fastforce
  qed (use that k1 in \<open>simp add: reclaim_frame_def\<close>)
  ultimately show ?thesis unfolding s1_def[symmetric] Let_def using st reclaim_frame_trans[of _ s1 s2]
    by (intro exI[of _ s2]) (auto simp: reclaim_frame_def e1)
qed

section \<open>The heap blocks of threads\<close>

definition block_at :: "small_mem \<Rightarrow> u32 \<Rightarrow> u32" where
  "block_at h p = p - heap_ptr h - 12"

definition blocks_used :: "small_mem \<Rightarrow> u32 list \<Rightarrow> u32 set" where
  "blocks_used h bs = fst ` allocs h bs"

lemma free_block:
  assumes "heap_inv h bs" "block_at h p \<in> blocks_used h bs"
  shows "\<exists>h' bs'. rt_free 0 p h = Some h' \<and> heap_inv h' bs' \<and> heap_ptr h' = heap_ptr h \<and>
    blocks_used h' bs' = blocks_used h bs - {block_at h p}"
proof -
  let ?a = "block_at h p"
  from assms(2) have al: "(?a, hm_next (hdr h ?a)) \<in> allocs h bs" by (auto simp: blocks_used_def allocs_def)
  from free_ok[OF assms(1) al] obtain h' bs' where f: "rt_free 0 (heap_ptr h + ?a + 12) h = Some h'" "heap_inv h' bs'"
    "allocs h' bs' = allocs h bs - {(?a, hm_next (hdr h ?a))}" "same_area h h'" by blast
  have "heap_ptr h + ?a + 12 = p" by (simp add: block_at_def)
  moreover have "blocks_used h' bs' = blocks_used h bs - {?a}" unfolding blocks_used_def f(3) by (auto simp: allocs_def)
  ultimately show ?thesis using f by (auto simp: same_area_def)
qed

definition thread_blocks :: "kstate \<Rightarrow> nat \<Rightarrow> u32 list" where
  "thread_blocks s t = [block_at (kheap s) (th_stack_addr (threads s t)), block_at (kheap s) (of_nat t)]"

text \<open>One thread of the heap is reclaimed.\<close>

lemma reclaim_dynamic:
  assumes inv: "kinv s" and z: "lock_nest s = 0" "interrupt_nest s = 0" and d: "lists s Defunct = t # ts"
    and cl: "cleanup_ok cleanup" and dyn: "\<not> rt_object_is_systemobject (OThread t) s"
    and h: "heap_inv (kheap s) bs" "set (thread_blocks s t) \<subseteq> blocks_used (kheap s) bs" "distinct (thread_blocks s t)"
  shows "\<exists>s' bs'. rt_thread_idle_excute cleanup s = rt_thread_idle_excute cleanup s' \<and> kinv s' \<and>
    lock_nest s' = 0 \<and> interrupt_nest s' = 0 \<and> lists s' Defunct = ts \<and> heap_inv (kheap s') bs' \<and>
    heap_ptr (kheap s') = heap_ptr (kheap s) \<and>
    blocks_used (kheap s') bs' = blocks_used (kheap s) bs - set (thread_blocks s t) \<and>
    (\<forall>u. th_stack_addr (threads s' u) = th_stack_addr (threads s u) \<and>
       obj_type (objs s' (OThread u)) = (if u = t then 0 else obj_type (objs s (OThread u)))) \<and>
    containers s' = (\<lambda>c. remove1 (OThread t) (containers s c))"
proof -
  from unlink_first[OF inv z(1) d cl] obtain s2 where s2:
    "(let s1 = rt_enter_critical (rt_list_remove t s) in
      if th_cleanup (threads s1 t) \<noteq> 0 then cleanup (th_cleanup (threads s1 t)) t s1 else Some s1) = Some s2"
    "kinv s2" "lists s2 Defunct = ts" "lock_nest s2 = 1" "stat_of s t = 4"
    "reclaim_frame (s\<lparr>lists := (lists s)(Defunct := ts), lock_nest := 1\<rparr>) s2" by blast
  from exit_critical_ok[OF s2(2,4)] obtain s3 where s3: "rt_exit_critical s2 = Some s3" "kinv s3" "lock_nest s3 = 0"
    "reclaim_frame (s2\<lparr>lock_nest := 0\<rparr>) s3" by blast
  have f: "lists s3 Defunct = ts" "kheap s3 = kheap s" "interrupt_nest s3 = 0" "containers s3 = containers s"
    "\<And>u. th_stack_addr (threads s3 u) = th_stack_addr (threads s u)"
    "\<And>u. obj_type (objs s3 (OThread u)) = obj_type (objs s (OThread u))"
    using s2(6) s3(4) z(2) by (auto simp: reclaim_frame_def)
  have d2: "\<not> rt_object_is_systemobject (OThread t) s2" using dyn s2(6) by (simp add: reclaim_frame_def rt_object_is_systemobject_def)
  let ?p = "th_stack_addr (threads s t)"
  from free_block[OF h(1), of ?p] h(2) obtain h1 b1 where h1: "rt_free 0 ?p (kheap s) = Some h1" "heap_inv h1 b1"
    "heap_ptr h1 = heap_ptr (kheap s)" "blocks_used h1 b1 = blocks_used (kheap s) bs - {block_at (kheap s) ?p}"
    by (auto simp: thread_blocks_def)
  have "block_at h1 (of_nat t) \<in> blocks_used h1 b1"
    using h(2,3) h1(3,4) by (auto simp: thread_blocks_def block_at_def)
  from free_block[OF h1(2) this] obtain h2 b2 where h2: "rt_free 0 (of_nat t) h1 = Some h2" "heap_inv h2 b2"
    "heap_ptr h2 = heap_ptr h1" "blocks_used h2 b2 = blocks_used h1 b1 - {block_at h1 (of_nat t)}" by blast
  define s4 where "s4 = (container_remove (OThread t) (obj_upd (OThread t) (obj_type_update (\<lambda>_. 0)) (s3\<lparr>kheap := h1\<rparr>)))\<lparr>kheap := h2\<rparr>"
  have del: "rt_object_delete (OThread t) t (s3\<lparr>kheap := h1\<rparr>) = Some s4"
    using dyn f(3,6) h2(1) by (simp add: rt_object_delete_def s4_def container_remove_def rt_object_is_systemobject_def)
  have run: "rt_thread_idle_excute cleanup s = rt_thread_idle_excute cleanup s4"
    by (subst rt_thread_idle_excute.simps)
      (use d z(2) s2(1) d2 s3(1) f(2,3,5) h1(1) del in
        \<open>simp add: has_defunct_thread_def RT_DEBUG_NOT_IN_INTERRUPT_def Let_def\<close>)
  have "\<not> started s3 t"
  proof -
    have "started s3 t = started s t" using s2(6) s3(4) by (simp add: reclaim_frame_def started_def stat_of_def)
    then show ?thesis using s2(5) by (simp add: started_def)
  qed
  then have "kinv s4"
    using kinv_thread_obj[of "s3\<lparr>kheap := h1\<rparr>" t "obj_type_update (\<lambda>_. 0)"] s3(2)
    by (simp add: s4_def container_remove_def started_def stat_of_def)
  moreover have "blocks_used h2 b2 = blocks_used (kheap s) bs - set (thread_blocks s t)"
    unfolding h2(4) h1(4) by (auto simp: thread_blocks_def block_at_def h1(3))
  ultimately show ?thesis using run s3(3) f h2(2,3) h1(3)
    by (intro exI[of _ s4] exI[of _ b2]) (auto simp: s4_def container_remove_def)
qed

text \<open>One static thread ends the call.\<close>

lemma reclaim_static:
  assumes inv: "kinv s" and z: "lock_nest s = 0" "interrupt_nest s = 0" and d: "lists s Defunct = t # ts"
    and cl: "cleanup_ok cleanup" and st: "rt_object_is_systemobject (OThread t) s"
  shows "\<exists>s'. rt_thread_idle_excute cleanup s = Some s' \<and> kinv s' \<and> lists s' Defunct = ts \<and> kheap s' = kheap s \<and>
    (\<forall>u. obj_type (objs s' (OThread u)) = (if u = t then 0 else obj_type (objs s (OThread u)))) \<and>
    containers s' = (\<lambda>c. remove1 (OThread t) (containers s c))"
proof -
  from unlink_first[OF inv z(1) d cl] obtain s2 where s2:
    "(let s1 = rt_enter_critical (rt_list_remove t s) in
      if th_cleanup (threads s1 t) \<noteq> 0 then cleanup (th_cleanup (threads s1 t)) t s1 else Some s1) = Some s2"
    "kinv s2" "lists s2 Defunct = ts" "lock_nest s2 = 1" "stat_of s t = 4"
    "reclaim_frame (s\<lparr>lists := (lists s)(Defunct := ts), lock_nest := 1\<rparr>) s2" by blast
  have st2: "rt_object_is_systemobject (OThread t) s2" using st s2(6) by (simp add: reclaim_frame_def rt_object_is_systemobject_def)
  have "started s2 t = started s t" using s2(6) by (simp add: reclaim_frame_def started_def stat_of_def)
  then have "\<not> started s2 t" using s2(5) by (simp add: started_def)
  then have k: "kinv (rt_object_detach (OThread t) s2)"
    using kinv_thread_obj[OF s2(2)] by (simp add: rt_object_detach_def container_remove_def)
  have "lock_nest (rt_object_detach (OThread t) s2) = 1" using s2(4) by (simp add: rt_object_detach_def container_remove_def)
  from exit_critical_ok[OF k this] obtain s' where s': "rt_exit_critical (rt_object_detach (OThread t) s2) = Some s'" "kinv s'"
    "reclaim_frame ((rt_object_detach (OThread t) s2)\<lparr>lock_nest := 0\<rparr>) s'" by blast
  have "rt_thread_idle_excute cleanup s = Some s'"
    by (subst rt_thread_idle_excute.simps)
      (use d z(2) s2(1) st2 s'(1) in \<open>simp add: has_defunct_thread_def RT_DEBUG_NOT_IN_INTERRUPT_def Let_def\<close>)
  with s'(2,3) s2(3,6) show ?thesis by (auto simp: reclaim_frame_def rt_object_detach_def container_remove_def)
qed

definition dynamic_threads :: "kstate \<Rightarrow> nat list \<Rightarrow> nat list" where
  "dynamic_threads s ts = takeWhile (\<lambda>t. \<not> rt_object_is_systemobject (OThread t) s) ts"

lemma idle_reclaims_list:
  assumes "kinv s" "lock_nest s = 0" "interrupt_nest s = 0" "cleanup_ok cleanup" "heap_inv (kheap s) bs"
    and "us = dynamic_threads s (lists s Defunct)" "ts = drop (length us) (lists s Defunct)"
    and "set (concat (map (thread_blocks s) us)) \<subseteq> blocks_used (kheap s) bs" "distinct (concat (map (thread_blocks s) us))"
    and "\<forall>c. distinct (containers s c)"
  shows "\<exists>s' bs'. rt_thread_idle_excute cleanup s = Some s' \<and> kinv s' \<and> lists s' Defunct = tl ts \<and>
    heap_inv (kheap s') bs' \<and>
    blocks_used (kheap s') bs' = blocks_used (kheap s) bs - set (concat (map (thread_blocks s) us)) \<and>
    (\<forall>t \<in> set us \<union> set (take 1 ts). obj_type (objs s' (OThread t)) = 0 \<and> (\<forall>c. OThread t \<notin> set (containers s' c))) \<and>
    (\<forall>t. t \<notin> set us \<union> set (take 1 ts) \<longrightarrow> obj_type (objs s' (OThread t)) = obj_type (objs s (OThread t)) \<and>
       (\<forall>c. OThread t \<in> set (containers s' c) \<longleftrightarrow> OThread t \<in> set (containers s c)))"
  using assms
proof (induction us arbitrary: s bs)
  case Nil
  show ?case
  proof (cases "lists s Defunct")
    case Nil
    have "rt_thread_idle_excute cleanup s = Some s"
      by (subst rt_thread_idle_excute.simps) (simp add: Nil has_defunct_thread_def)
    then show ?thesis using Nil Nil.prems by (intro exI[of _ s] exI[of _ bs]) simp
  next
    case (Cons t rest)
    have st: "rt_object_is_systemobject (OThread t) s" using Nil.prems(6) Cons by (simp add: dynamic_threads_def split: if_splits)
    from reclaim_static[OF Nil.prems(1-3) Cons Nil.prems(4) st] obtain s' where
      "rt_thread_idle_excute cleanup s = Some s'" "kinv s'" "lists s' Defunct = rest" "kheap s' = kheap s"
      "\<And>u. obj_type (objs s' (OThread u)) = (if u = t then 0 else obj_type (objs s (OThread u)))" "containers s' = (\<lambda>c. remove1 (OThread t) (containers s c))" by blast
    then show ?thesis using Cons Nil.prems by (intro exI[of _ s'] exI[of _ bs]) (simp add: in_set_remove1)
  qed
next
  case (Cons t us)
  let ?P = "\<lambda>s t. \<not> rt_object_is_systemobject (OThread t) s"
  from Cons.prems(6) obtain rest where d: "lists s Defunct = t # rest" and dyn: "?P s t" and us: "us = takeWhile (?P s) rest"
    unfolding dynamic_threads_def by (cases "lists s Defunct") (auto split: if_splits)
  have b: "set (thread_blocks s t) \<subseteq> blocks_used (kheap s) bs" "distinct (thread_blocks s t)"
    using Cons.prems(8,9) by auto
  from reclaim_dynamic[OF Cons.prems(1-3) d Cons.prems(4) dyn Cons.prems(5) b] obtain s1 b1 where s1:
    "rt_thread_idle_excute cleanup s = rt_thread_idle_excute cleanup s1" "kinv s1" "lock_nest s1 = 0" "interrupt_nest s1 = 0"
    "lists s1 Defunct = rest" "heap_inv (kheap s1) b1" "heap_ptr (kheap s1) = heap_ptr (kheap s)"
    "blocks_used (kheap s1) b1 = blocks_used (kheap s) bs - set (thread_blocks s t)"
    "\<And>u. th_stack_addr (threads s1 u) = th_stack_addr (threads s u)"
    "\<And>u. obj_type (objs s1 (OThread u)) = (if u = t then 0 else obj_type (objs s (OThread u)))"
    "containers s1 = (\<lambda>c. remove1 (OThread t) (containers s c))" by blast
  have tb: "thread_blocks s1 = thread_blocks s" by (rule ext) (simp add: thread_blocks_def block_at_def s1(7,9))
  have t: "t \<notin> set rest" using lists_distinct[OF Cons.prems(1), of Defunct] d by simp
  have us1: "us = dynamic_threads s1 (lists s1 Defunct)"
    unfolding us dynamic_threads_def s1(5) by (rule takeWhile_cong) (use t in \<open>auto simp: rt_object_is_systemobject_def s1(10)\<close>)
  have ts1: "ts = drop (length us) (lists s1 Defunct)" using Cons.prems(7) d s1(5) by simp
  have bl: "set (concat (map (thread_blocks s1) us)) \<subseteq> blocks_used (kheap s1) b1" "distinct (concat (map (thread_blocks s1) us))"
    using Cons.prems(8,9) unfolding tb s1(8) by auto
  have cd: "\<forall>c. distinct (containers s1 c)" using Cons.prems(10) s1(11) by simp
  from Cons.IH[OF s1(2-4) Cons.prems(4) s1(6) us1 ts1 bl cd] obtain s' bs' where s':
    "rt_thread_idle_excute cleanup s1 = Some s'" "kinv s'" "lists s' Defunct = tl ts" "heap_inv (kheap s') bs'"
    "blocks_used (kheap s') bs' = blocks_used (kheap s1) b1 - set (concat (map (thread_blocks s1) us))"
    "\<forall>t \<in> set us \<union> set (take 1 ts). obj_type (objs s' (OThread t)) = 0 \<and> (\<forall>c. OThread t \<notin> set (containers s' c))"
    "\<And>t. t \<notin> set us \<union> set (take 1 ts) \<Longrightarrow> obj_type (objs s' (OThread t)) = obj_type (objs s1 (OThread t)) \<and>
      (\<forall>c. OThread t \<in> set (containers s' c) \<longleftrightarrow> OThread t \<in> set (containers s1 c))"
    by blast
  have "ts = drop (length us) rest" using ts1 s1(5) by simp
  then have "set us \<union> set (take 1 ts) \<subseteq> set rest"
    unfolding us by (auto dest: set_takeWhileD in_set_takeD in_set_dropD)
  then have out: "t \<notin> set us \<union> set (take 1 ts)" using t by blast
  have mem: "OThread u \<in> set (containers s1 c) \<longleftrightarrow> u \<noteq> t \<and> OThread u \<in> set (containers s c)" for u c
    using Cons.prems(10) by (auto simp: s1(11) in_set_remove1)
  have e: "blocks_used (kheap s') bs' = blocks_used (kheap s) bs - set (concat (map (thread_blocks s) (t # us)))"
    unfolding s'(5) s1(8) tb by auto
  have gone: "obj_type (objs s' (OThread u)) = 0 \<and> (\<forall>c. OThread u \<notin> set (containers s' c))"
    if "u \<in> set (t # us) \<union> set (take 1 ts)" for u
    using that s'(6) s'(7)[OF out] s1(10)[of t] mem[of t] by (cases "u = t") auto
  have kept: "obj_type (objs s' (OThread u)) = obj_type (objs s (OThread u)) \<and>
      (\<forall>c. OThread u \<in> set (containers s' c) \<longleftrightarrow> OThread u \<in> set (containers s c))"
    if "u \<notin> set (t # us) \<union> set (take 1 ts)" for u
    using that s'(7)[of u] s1(10)[of u] mem[of u] by auto
  have "rt_thread_idle_excute cleanup s = Some s'" using s1(1) s'(1) by simp
  with s'(2-4) e gone kept show ?case by (intro exI[of _ s'] exI[of _ bs'] conjI ballI allI impI) simp_all
qed

section \<open>Properties\<close>

text \<open>C10: the idle thread reclaims what closed threads leave behind. A call of \<open>rt_thread_idle_excute\<close>
  returns, with the kernel's invariant; it takes the dynamic threads at the front of the defunct list, runs
  their cleanup functions, gives exactly their stacks and control blocks back to the heap, which stays well
  formed, and removes them from their containers. The first static thread is detached and ends the call, so
  that, unlike its comment says, threads behind it stay for the next call.\<close>

theorem idle_reclaims_defunct:
  assumes "kinv s" and "lock_nest s = 0" and "interrupt_nest s = 0" and "cleanup_ok cleanup"
    and "heap_inv (kheap s) bs" and "\<forall>c. distinct (containers s c)"
    and "set (concat (map (thread_blocks s) (dynamic_threads s (lists s Defunct)))) \<subseteq> blocks_used (kheap s) bs"
    and "distinct (concat (map (thread_blocks s) (dynamic_threads s (lists s Defunct))))"
  shows "let us = dynamic_threads s (lists s Defunct); ts = drop (length us) (lists s Defunct) in
    \<exists>s' bs'. rt_thread_idle_excute cleanup s = Some s' \<and> kinv s' \<and> lists s' Defunct = tl ts \<and>
      heap_inv (kheap s') bs' \<and>
      blocks_used (kheap s') bs' = blocks_used (kheap s) bs - set (concat (map (thread_blocks s) us)) \<and>
      (\<forall>t \<in> set us \<union> set (take 1 ts). obj_type (objs s' (OThread t)) = 0 \<and> (\<forall>c. OThread t \<notin> set (containers s' c))) \<and>
      (\<forall>t. t \<notin> set us \<union> set (take 1 ts) \<longrightarrow> obj_type (objs s' (OThread t)) = obj_type (objs s (OThread t)) \<and>
         (\<forall>c. OThread t \<in> set (containers s' c) \<longleftrightarrow> OThread t \<in> set (containers s c)))"
  unfolding Let_def using idle_reclaims_list[OF assms(1-5) refl refl assms(7,8,6)] by blast

text \<open>A dynamic thread and two static ones with cleanup functions in the defunct list; the heap holds the
  stack and the control block of the first.\<close>

abbreviation dead :: nat where "dead \<equiv> 0x20000054"

definition sample_defunct :: kstate where
  "sample_defunct = sample\<lparr>kheap := heap_demo2,
     threads := (threads sample)(dead := (sample_thread 4 10)\<lparr>th_stack_addr := 0x2000000C\<rparr>,
       4 := (sample_thread 4 10)\<lparr>th_cleanup := 7\<rparr>, 5 := (sample_thread 4 10)\<lparr>th_cleanup := 7\<rparr>),
     lists := (lists sample)(Defunct := [dead, 4, 5]),
     tlink := (tlink sample)(dead := Some Defunct, 4 := Some Defunct, 5 := Some Defunct),
     objs := (objs sample)(OThread dead := \<lparr>obj_name = replicate 8 0, obj_type = 1, obj_flag = 0\<rparr>),
     containers := (\<lambda>_. [])(Class_Thread := [OThread dead, OThread 4, OThread 5])\<rparr>"

definition mark_user_data :: "nat \<Rightarrow> nat \<Rightarrow> kstate \<Rightarrow> kstate option" where
  "mark_user_data f t s = Some (thr_upd t (th_user_data_update (\<lambda>_. of_nat f)) s)"

lemma mark_user_data_ok: "cleanup_ok mark_user_data"
proof -
  have "same_core s (thr_upd t (th_user_data_update g) s)" for s t g by (simp add: same_core_def core_thr_def)
  then have "kinv (thr_upd t (th_user_data_update g) s) = kinv s" for s t g by (rule same_core_kinv)
  then show ?thesis by (simp add: cleanup_ok_def mark_user_data_def reclaim_frame_def started_def stat_of_def)
qed

lemma sample_defunct_simps:
  "cur sample_defunct = Some 1" "timer_list sample_defunct = []"
  "lists sample_defunct = (\<lambda>_. [])(ReadyQ 10 := [2], ReadyQ 20 := [3], Defunct := [dead, 4, 5])"
  "tlink sample_defunct = (\<lambda>_. None)(2 := Some (ReadyQ 10), 3 := Some (ReadyQ 20),
     dead := Some Defunct, 4 := Some Defunct, 5 := Some Defunct)"
  "ready_group sample_defunct = pbit 10 OR pbit 20"
  "threads sample_defunct = (threads sample)(dead := (sample_thread 4 10)\<lparr>th_stack_addr := 0x2000000C\<rparr>,
       4 := (sample_thread 4 10)\<lparr>th_cleanup := 7\<rparr>, 5 := (sample_thread 4 10)\<lparr>th_cleanup := 7\<rparr>)"
  by (simp_all add: sample_defunct_def sample_simps)

lemma sample_defunct_stat: "stat_of sample_defunct t = (if t \<in> {dead, 4, 5} then 4 else stat_of sample t)"
  "prio_of sample_defunct t = (if t \<in> {dead, 4, 5} then 10 else prio_of sample t)"
  by (simp_all add: stat_of_def prio_of_def sample_defunct_def sample_thread_def)

lemma sample_defunct_kinv: "kinv sample_defunct"
proof -
  have "links_ok sample_defunct" by (auto simp: links_ok_def sample_defunct_simps)
  moreover have "group_ok sample_defunct" by (auto simp: group_ok_def sample_defunct_simps bit_or_mask bit_pbit)
  moreover have "thr_ok sample_defunct t" for t
    by (auto simp: thr_ok_def place_ok_def runnable_ok_def stack_check_def sample_defunct_stat sample_stat
        sample_defunct_simps sample_simps sample_thread_def)
  ultimately have "sched_inv sample_defunct" by (simp add: sched_ok_def)
  moreover have "typed_ok sample_defunct t" if "started sample_defunct t" for t
    using that by (auto simp: typed_ok_def rt_object_get_type_def timer_flag_def started_def sample_defunct_stat sample_stat)
      (simp_all add: sample_defunct_def sample_def sample_type_def)
  moreover have "timers_ok sample_defunct" by (simp add: timers_ok_def sample_defunct_def sample_simps)
  ultimately show ?thesis by (simp add: kinv_def sample_defunct_def sample_simps)
qed

theorem idle_reclaims_defunct_witness:
  "\<exists>s' bs'. rt_thread_idle_excute mark_user_data sample_defunct = Some s' \<and> lists s' Defunct = [5] \<and>
     heap_inv (kheap s') bs' \<and> blocks_used (kheap s') bs' = {}"
proof -
  let ?s = sample_defunct
  have d: "lists ?s Defunct = [dead, 4, 5]" "lock_nest ?s = 0" "interrupt_nest ?s = 0" "kheap ?s = heap_demo2"
    by (simp_all add: sample_defunct_def sample_simps)
  have us: "dynamic_threads ?s [dead, 4, 5] = [dead]"
    by (simp add: dynamic_threads_def rt_object_is_systemobject_def sample_defunct_def sample_def sample_type_def)
  have b: "thread_blocks ?s dead = [0, 72]"
    by (simp add: thread_blocks_def block_at_def sample_defunct_def heap_demo2_def heap_demo1_def heap_demo_eq)
  have u: "blocks_used heap_demo2 [0, 72] = {0, 72}"
    by (auto simp: blocks_used_def allocs_def heap_demo2_def heap_demo1_def heap_demo_eq image_def)
  have "\<forall>c. distinct (containers ?s c)" by (simp add: sample_defunct_def)
  from idle_reclaims_defunct[OF sample_defunct_kinv d(2,3) mark_user_data_ok _ this, of "[0, 72]"] heap_demo2_inv
  show ?thesis unfolding d us Let_def by (simp add: b u) blast
qed

end
