(* ===== verification/Device.thy ===== *)
theory Device
  imports Idle
begin

text \<open>
  Devices (\<open>src/device.c\<close>): named objects with a reference count, in front of the functions of a driver.
  The driver's functions are parameters: \<open>ops d\<close> are the function pointers of device \<open>d\<close>, \<open>None\<close> for
  \<open>RT_NULL\<close>; they may change the state as they like. Callbacks are named by numbers. Messages on the console
  are left out.
\<close>

section \<open>Operations\<close>

record rt_device_ops =
  op_init :: "(kstate \<Rightarrow> (rt_err \<times> kstate) option) option"
  op_open :: "(u16 \<Rightarrow> kstate \<Rightarrow> (rt_err \<times> kstate) option) option"
  op_close :: "(kstate \<Rightarrow> (rt_err \<times> kstate) option) option"
  op_read :: "(u32 \<Rightarrow> u32 \<Rightarrow> u32 \<Rightarrow> kstate \<Rightarrow> (u32 \<times> kstate) option) option"
  op_write :: "(u32 \<Rightarrow> u32 \<Rightarrow> u32 \<Rightarrow> kstate \<Rightarrow> (u32 outcome \<times> kstate) option) option"
  op_control :: "(nat \<Rightarrow> u32 \<Rightarrow> kstate \<Rightarrow> (rt_err \<times> kstate) option) option"

abbreviation (input) Class_Device :: u8 where "Class_Device \<equiv> 9"
abbreviation (input) FLAG_STANDALONE :: u16 where "FLAG_STANDALONE \<equiv> 0x008"
abbreviation (input) FLAG_ACTIVATED :: u16 where "FLAG_ACTIVATED \<equiv> 0x010"
abbreviation (input) OFLAG_OPEN :: u16 where "OFLAG_OPEN \<equiv> 0x008"
abbreviation (input) OFLAG_MASK :: u16 where "OFLAG_MASK \<equiv> 0xf0f"

definition dev_upd :: "nat \<Rightarrow> (rt_device \<Rightarrow> rt_device) \<Rightarrow> kstate \<Rightarrow> kstate" where
  "dev_upd d f s = s\<lparr>devices := (devices s)(d := f (devices s d))\<rparr>"

definition is_device :: "nat \<Rightarrow> kstate \<Rightarrow> unit option" where
  "is_device d s = rt_assert (rt_object_get_type (ODevice d) s = Class_Device)"

definition rt_device_find :: "u8 list \<Rightarrow> kstate \<Rightarrow> (oid option \<times> kstate) option" where
  "rt_device_find name s = do {
     let s1 = (if rt_thread_self s \<noteq> None then rt_enter_critical s else s);
     _ \<leftarrow> rt_object_get_information Class_Device;
     r \<leftarrow> find_named name (objs s1) (containers s1 Class_Device);
     s2 \<leftarrow> (if rt_thread_self s1 \<noteq> None then rt_exit_critical s1 else Some s1);
     Some (r, s2) }"

definition rt_device_register :: "nat option \<Rightarrow> u8 list \<Rightarrow> u16 \<Rightarrow> kstate \<Rightarrow> (rt_err \<times> kstate) option" where
  "rt_device_register dev name flags s =
     (case dev of None \<Rightarrow> Some (- RT_ERROR, s)
      | Some d \<Rightarrow> do {
          (r, s1) \<leftarrow> rt_device_find name s;
          if r \<noteq> None then Some (- RT_ERROR, s1)
          else do {
            s2 \<leftarrow> rt_object_init (ODevice d) Class_Device name s1;
            Some (RT_EOK, dev_upd d (\<lambda>v. v\<lparr>dv_flag := flags, dv_ref_count := 0, dv_open_flag := 0\<rparr>) s2) } })"

definition rt_device_unregister :: "nat \<Rightarrow> kstate \<Rightarrow> (rt_err \<times> kstate) option" where
  "rt_device_unregister d s = do {
     is_device d s;
     rt_assert (rt_object_is_systemobject (ODevice d) s);
     Some (RT_EOK, rt_object_detach (ODevice d) s) }"

definition rt_device_create :: "nat \<Rightarrow> u32 \<Rightarrow> kstate \<Rightarrow> (nat option \<times> kstate) option" where
  "rt_device_create ty attach_size s = do {
     let sz = RT_ALIGN 68 + RT_ALIGN attach_size;
     (p, h) \<leftarrow> rt_malloc (interrupt_nest s) sz (kheap s);
     let s1 = s\<lparr>kheap := h\<rparr>;
     if p = 0 then Some (None, s1)
     else (let d = unat p;
               s2 = obj_upd (ODevice d) (\<lambda>_. \<lparr>obj_name = replicate 8 0, obj_type = 0, obj_flag = 0\<rparr>) s1 in
       Some (Some d, dev_upd d (\<lambda>_. \<lparr>dv_type = ty, dv_flag = 0, dv_open_flag = 0, dv_ref_count = 0,
                                    dv_rx_indicate = 0, dv_tx_complete = 0\<rparr>) s2)) }"

definition rt_device_destroy :: "nat \<Rightarrow> kstate \<Rightarrow> kstate option" where
  "rt_device_destroy d s = do {
     is_device d s;
     rt_assert (\<not> rt_object_is_systemobject (ODevice d) s);
     let s1 = rt_object_detach (ODevice d) s;
     h \<leftarrow> rt_free (interrupt_nest s1) (of_nat d) (kheap s1);
     Some (s1\<lparr>kheap := h\<rparr>) }"

definition activate :: "nat \<Rightarrow> kstate \<Rightarrow> kstate" where
  "activate d = dev_upd d (\<lambda>v. v\<lparr>dv_flag := dv_flag v OR FLAG_ACTIVATED\<rparr>)"

definition rt_device_init :: "(nat \<Rightarrow> rt_device_ops) \<Rightarrow> nat \<Rightarrow> kstate \<Rightarrow> (rt_err \<times> kstate) option" where
  "rt_device_init ops d s =
     (case op_init (ops d) of None \<Rightarrow> Some (RT_EOK, s)
      | Some init \<Rightarrow>
        if dv_flag (devices s d) AND FLAG_ACTIVATED = 0
        then do {
          (result, s1) \<leftarrow> init s;
          Some (result, if result \<noteq> RT_EOK then s1 else activate d s1) }
        else Some (RT_EOK, s))"

definition device_open_call :: "(nat \<Rightarrow> rt_device_ops) \<Rightarrow> nat \<Rightarrow> u16 \<Rightarrow> kstate \<Rightarrow> (rt_err \<times> kstate) option" where
  "device_open_call ops d oflag s =
     (case op_open (ops d) of Some open_fn \<Rightarrow> open_fn oflag s
      | None \<Rightarrow> Some (RT_EOK, dev_upd d (\<lambda>v. v\<lparr>dv_open_flag := oflag AND OFLAG_MASK\<rparr>) s))"

definition rt_device_open :: "(nat \<Rightarrow> rt_device_ops) \<Rightarrow> nat \<Rightarrow> u16 \<Rightarrow> kstate \<Rightarrow> (rt_err \<times> kstate) option" where
  "rt_device_open ops d oflag s = do {
     is_device d s;
     (result, s1) \<leftarrow>
       (if dv_flag (devices s d) AND FLAG_ACTIVATED = 0
        then do {
          (r, a) \<leftarrow> (case op_init (ops d) of Some init \<Rightarrow> init s | None \<Rightarrow> Some (RT_EOK, s));
          Some (r, if r \<noteq> RT_EOK then a else activate d a) }
        else Some (RT_EOK, s));
     if result \<noteq> RT_EOK then Some (result, s1)
     else if dv_flag (devices s1 d) AND FLAG_STANDALONE \<noteq> 0 \<and> dv_open_flag (devices s1 d) AND OFLAG_OPEN \<noteq> 0
     then Some (- RT_EBUSY, s1)
     else do {
       (result, s2) \<leftarrow> device_open_call ops d oflag s1;
       if result = RT_EOK \<or> result = - RT_ENOSYS
       then do {
         let s3 = dev_upd d (\<lambda>v. v\<lparr>dv_open_flag := dv_open_flag v OR OFLAG_OPEN, dv_ref_count := dv_ref_count v + 1\<rparr>) s2;
         rt_assert (dv_ref_count (devices s3 d) \<noteq> 0);
         Some (result, s3) }
       else Some (result, s2) } }"

definition rt_device_close :: "(nat \<Rightarrow> rt_device_ops) \<Rightarrow> nat \<Rightarrow> kstate \<Rightarrow> (rt_err \<times> kstate) option" where
  "rt_device_close ops d s = do {
     is_device d s;
     if dv_ref_count (devices s d) = 0 then Some (- RT_ERROR, s)
     else do {
       let s1 = dev_upd d (\<lambda>v. v\<lparr>dv_ref_count := dv_ref_count v - 1\<rparr>) s;
       if dv_ref_count (devices s1 d) \<noteq> 0 then Some (RT_EOK, s1)
       else do {
         (result, s2) \<leftarrow> (case op_close (ops d) of Some close_fn \<Rightarrow> close_fn s1 | None \<Rightarrow> Some (RT_EOK, s1));
         Some (result, if result = RT_EOK \<or> result = - RT_ENOSYS
                       then dev_upd d (dv_open_flag_update (\<lambda>_. 0)) s2 else s2) } } }"

definition rt_device_read :: "(nat \<Rightarrow> rt_device_ops) \<Rightarrow> nat \<Rightarrow> u32 \<Rightarrow> u32 \<Rightarrow> u32 \<Rightarrow> kstate \<Rightarrow> (u32 \<times> kstate) option" where
  "rt_device_read ops d pos buf sz s = do {
     is_device d s;
     if dv_ref_count (devices s d) = 0 then Some (0, rt_set_errno (- RT_ERROR) s)
     else (case op_read (ops d) of Some read_fn \<Rightarrow> read_fn pos buf sz s | None \<Rightarrow> Some (0, rt_set_errno (- RT_ENOSYS) s)) }"

definition rt_device_write :: "(nat \<Rightarrow> rt_device_ops) \<Rightarrow> nat \<Rightarrow> u32 \<Rightarrow> u32 \<Rightarrow> u32 \<Rightarrow> kstate \<Rightarrow> (u32 outcome \<times> kstate) option" where
  "rt_device_write ops d pos buf sz s = do {
     is_device d s;
     if dv_ref_count (devices s d) = 0 then Some (Done 0, rt_set_errno (- RT_ERROR) s)
     else (case op_write (ops d) of Some write_fn \<Rightarrow> write_fn pos buf sz s | None \<Rightarrow> Some (Done 0, rt_set_errno (- RT_ENOSYS) s)) }"

definition rt_device_control :: "(nat \<Rightarrow> rt_device_ops) \<Rightarrow> nat \<Rightarrow> nat \<Rightarrow> u32 \<Rightarrow> kstate \<Rightarrow> (rt_err \<times> kstate) option" where
  "rt_device_control ops d cmd arg s = do {
     is_device d s;
     (case op_control (ops d) of Some control_fn \<Rightarrow> control_fn cmd arg s | None \<Rightarrow> Some (- RT_ENOSYS, s)) }"

definition rt_device_set_rx_indicate :: "nat \<Rightarrow> nat \<Rightarrow> kstate \<Rightarrow> (rt_err \<times> kstate) option" where
  "rt_device_set_rx_indicate d rx_ind s = do {
     is_device d s;
     Some (RT_EOK, dev_upd d (dv_rx_indicate_update (\<lambda>_. rx_ind)) s) }"

definition rt_device_set_tx_complete :: "nat \<Rightarrow> nat \<Rightarrow> kstate \<Rightarrow> (rt_err \<times> kstate) option" where
  "rt_device_set_tx_complete d tx_done s = do {
     is_device d s;
     Some (RT_EOK, dev_upd d (dv_tx_complete_update (\<lambda>_. tx_done)) s) }"

section \<open>Reference counting\<close>

definition dev_frame :: "nat \<Rightarrow> kstate \<Rightarrow> kstate \<Rightarrow> bool" where
  "dev_frame d s s' \<longleftrightarrow> dv_ref_count (devices s' d) = dv_ref_count (devices s d) \<and>
     dv_open_flag (devices s' d) AND OFLAG_OPEN = dv_open_flag (devices s d) AND OFLAG_OPEN \<and>
     rt_object_get_type (ODevice d) s' = rt_object_get_type (ODevice d) s"

text \<open>What \<open>open\<close> and \<open>close\<close> of a driver must keep: they may write \<open>open_flag\<close>, as \<open>rt_serial_open\<close> does.\<close>

definition dev_kept :: "nat \<Rightarrow> kstate \<Rightarrow> kstate \<Rightarrow> bool" where
  "dev_kept d s s' \<longleftrightarrow> dv_ref_count (devices s' d) = dv_ref_count (devices s d) \<and>
     rt_object_get_type (ODevice d) s' = rt_object_get_type (ODevice d) s"

text \<open>A driver that leaves the counting to \<open>device.c\<close>.\<close>

definition driver_ok :: "rt_device_ops \<Rightarrow> nat \<Rightarrow> bool" where
  "driver_ok v d \<longleftrightarrow>
     (\<forall>f s r s'. op_init v = Some f \<longrightarrow> f s = Some (r, s') \<longrightarrow> dev_frame d s s') \<and>
     (\<forall>f s fl r s'. op_open v = Some f \<longrightarrow> f fl s = Some (r, s') \<longrightarrow>
        dev_kept d s s' \<and> (r \<noteq> RT_EOK \<longrightarrow> r \<noteq> - RT_ENOSYS \<longrightarrow> dev_frame d s s')) \<and>
     (\<forall>f s r s'. op_close v = Some f \<longrightarrow> f s = Some (r, s') \<longrightarrow> dev_kept d s s')"

text \<open>\<open>-RT_ENOSYS\<close> from \<open>rt_device_open\<close> has two meanings: the driver's \<open>init\<close> answered it, and the device is
  not open; or the driver's \<open>open\<close> did, and the device is open and counted.\<close>

definition init_refused :: "(nat \<Rightarrow> rt_device_ops) \<Rightarrow> nat \<Rightarrow> kstate \<Rightarrow> bool" where
  "init_refused ops d s \<longleftrightarrow> dv_flag (devices s d) AND FLAG_ACTIVATED = 0 \<and>
     (case op_init (ops d) of None \<Rightarrow> False
      | Some init \<Rightarrow> (case init s of None \<Rightarrow> False | Some (r, _) \<Rightarrow> r = - RT_ENOSYS))"

definition opened :: "(nat \<Rightarrow> rt_device_ops) \<Rightarrow> nat \<Rightarrow> kstate \<Rightarrow> rt_err \<Rightarrow> bool" where
  "opened ops d s r \<longleftrightarrow> r = RT_EOK \<or> r = - RT_ENOSYS \<and> \<not> init_refused ops d s"

lemma dev_upd_simps [simp]:
  "devices (dev_upd d f s) = (devices s)(d := f (devices s d))" "objs (dev_upd d f s) = objs s"
  "rt_object_get_type x (dev_upd d f s) = rt_object_get_type x s"
  by (simp_all add: dev_upd_def rt_object_get_type_def)

lemma dev_frame_trans: "\<lbrakk>dev_frame d a b; dev_frame d b c\<rbrakk> \<Longrightarrow> dev_frame d a c"
  by (simp add: dev_frame_def)

lemma dev_frame_refl [simp]: "dev_frame d s s"
  by (simp add: dev_frame_def)

lemma dev_frame_kept: "dev_frame d s s' \<Longrightarrow> dev_kept d s s'"
  by (simp add: dev_frame_def dev_kept_def)

lemma activate_frame [simp]: "dev_frame d s (activate e t) = dev_frame d s t"
  by (simp_all add: activate_def dev_frame_def)

lemma open_bit: "(x OR OFLAG_OPEN) AND OFLAG_OPEN \<noteq> 0"
proof -
  have "(x OR 8) AND 8 = (8 :: u16)" by (rule bit_word_eqI) (simp only: bit_and_iff bit_or_iff, blast)
  then show ?thesis by simp
qed

lemma open_step:
  assumes ty: "rt_object_get_type (ODevice d) s = Class_Device" and drv: "driver_ok (ops d) d"
    and run: "rt_device_open ops d oflag s = Some (r, s')"
  shows "if opened ops d s r
    then dv_ref_count (devices s' d) = dv_ref_count (devices s d) + 1 \<and> dv_ref_count (devices s' d) \<noteq> 0 \<and>
      dv_open_flag (devices s' d) AND OFLAG_OPEN \<noteq> 0 \<and> rt_object_get_type (ODevice d) s' = Class_Device
    else dev_frame d s s'"
proof -
  define pre where "pre = (if dv_flag (devices s d) AND FLAG_ACTIVATED = 0
        then do {
          (r, a) \<leftarrow> (case op_init (ops d) of Some init \<Rightarrow> init s | None \<Rightarrow> Some (RT_EOK, s));
          Some (r, if r \<noteq> RT_EOK then a else activate d a) }
        else Some (RT_EOK, s))"
  from run obtain r1 s1 where pre: "pre = Some (r1, s1)"
    unfolding rt_device_open_def pre_def[symmetric] by (auto simp: bind_eq_Some_conv)
  have f1: "dev_frame d s s1"
    using pre drv unfolding pre_def driver_ok_def
    by (auto simp: bind_eq_Some_conv split: if_splits option.splits intro: dev_frame_trans)
  have ref: "init_refused ops d s \<longleftrightarrow> r1 = - RT_ENOSYS"
    using pre unfolding pre_def init_refused_def
    by (auto simp: bind_eq_Some_conv split: if_splits option.splits)
  have rest: "(if r1 \<noteq> RT_EOK then Some (r1, s1)
     else if dv_flag (devices s1 d) AND FLAG_STANDALONE \<noteq> 0 \<and> dv_open_flag (devices s1 d) AND OFLAG_OPEN \<noteq> 0
     then Some (- RT_EBUSY, s1)
     else do {
       (result, s2) \<leftarrow> device_open_call ops d oflag s1;
       if result = RT_EOK \<or> result = - RT_ENOSYS
       then do {
         let s3 = dev_upd d (\<lambda>v. v\<lparr>dv_open_flag := dv_open_flag v OR OFLAG_OPEN, dv_ref_count := dv_ref_count v + 1\<rparr>) s2;
         rt_assert (dv_ref_count (devices s3 d) \<noteq> 0);
         Some (result, s3) }
       else Some (result, s2) }) = Some (r, s')"
    using run ty unfolding rt_device_open_def pre_def[symmetric] pre by (simp add: is_device_def)
  show ?thesis
  proof (cases "r1 \<noteq> RT_EOK \<or> dv_flag (devices s1 d) AND FLAG_STANDALONE \<noteq> 0 \<and> dv_open_flag (devices s1 d) AND OFLAG_OPEN \<noteq> 0")
    case True
    then show ?thesis using rest f1 ref by (auto simp: opened_def split: if_splits)
  next
    case False
    then obtain r2 s2 where c: "device_open_call ops d oflag s1 = Some (r2, s2)" using rest by (auto simp: bind_eq_Some_conv)
    have f2: "dev_kept d s1 s2 \<and> (r2 \<noteq> RT_EOK \<longrightarrow> r2 \<noteq> - RT_ENOSYS \<longrightarrow> dev_frame d s1 s2)"
    proof (cases "op_open (ops d)")
      case None
      then show ?thesis using c by (auto simp: device_open_call_def dev_kept_def)
    next
      case (Some f)
      then have "f oflag s1 = Some (r2, s2)" using c by (simp add: device_open_call_def)
      then show ?thesis using drv Some unfolding driver_ok_def by blast
    qed
    have nref: "\<not> init_refused ops d s" using False ref by auto
    show ?thesis
    proof (cases "r2 = RT_EOK \<or> r2 = - RT_ENOSYS")
      case True
      then have "dv_ref_count (devices s2 d) + 1 \<noteq> 0" "r = r2"
        "s' = dev_upd d (\<lambda>v. v\<lparr>dv_open_flag := dv_open_flag v OR OFLAG_OPEN, dv_ref_count := dv_ref_count v + 1\<rparr>) s2"
        using rest False c by (auto simp: Let_def bind_eq_Some_conv split: if_splits)
      then show ?thesis using True f1 f2 ty open_bit nref by (simp add: dev_frame_def dev_kept_def opened_def)
    next
      case no: False
      then have "r = r2" "s' = s2" using rest False c by (auto split: if_splits)
      moreover have "dev_frame d s s2" using dev_frame_trans f1 f2 no by blast
      ultimately show ?thesis using no by (simp add: opened_def)
    qed
  qed
qed

lemma close_step:
  assumes ty: "rt_object_get_type (ODevice d) s = Class_Device" and drv: "driver_ok (ops d) d"
    and run: "rt_device_close ops d s = Some (r, s')"
  shows "if dv_ref_count (devices s d) = 0 then r = - RT_ERROR \<and> s' = s
    else if dv_ref_count (devices s d) = 1
    then dv_ref_count (devices s' d) = 0 \<and> rt_object_get_type (ODevice d) s' = Class_Device \<and>
      (r = RT_EOK \<or> r = - RT_ENOSYS \<longrightarrow> dv_open_flag (devices s' d) = 0)
    else r = RT_EOK \<and> s' = dev_upd d (\<lambda>v. v\<lparr>dv_ref_count := dv_ref_count v - 1\<rparr>) s"
proof -
  let ?s1 = "dev_upd d (\<lambda>v. v\<lparr>dv_ref_count := dv_ref_count v - 1\<rparr>) s"
  have one: "dv_ref_count (devices s d) - 1 = 0 \<longleftrightarrow> dv_ref_count (devices s d) = 1" by simp
  show ?thesis
  proof (cases "dv_ref_count (devices s d) = 1")
    case True
    then obtain s2 where c: "(case op_close (ops d) of Some f \<Rightarrow> f ?s1 | None \<Rightarrow> Some (RT_EOK, ?s1)) = Some (r, s2)"
      "s' = (if r = RT_EOK \<or> r = - RT_ENOSYS then dev_upd d (dv_open_flag_update (\<lambda>_. 0)) s2 else s2)"
      using run ty by (auto simp: rt_device_close_def is_device_def Let_def bind_eq_Some_conv)
    have "dev_kept d ?s1 s2" using c(1) drv by (auto simp: driver_ok_def dev_frame_kept split: option.splits)
    then show ?thesis using True c(2) ty by (auto simp: dev_kept_def)
  next
    case False
    then show ?thesis using run ty one by (auto simp: rt_device_close_def is_device_def Let_def split: if_splits)
  qed
qed

text \<open>A history of one device: opens, closes, and whatever leaves its counting alone. The number counts the
  opens that succeeded and have not been closed.\<close>

inductive dev_run :: "(nat \<Rightarrow> rt_device_ops) \<Rightarrow> nat \<Rightarrow> kstate \<Rightarrow> nat \<Rightarrow> kstate \<Rightarrow> bool" for ops d s0 where
  start: "dev_run ops d s0 0 s0"
| opens: "\<lbrakk>dev_run ops d s0 n s; rt_device_open ops d oflag s = Some (r, s')\<rbrakk> \<Longrightarrow>
    dev_run ops d s0 (if opened ops d s r then n + 1 else n) s'"
| closes: "\<lbrakk>dev_run ops d s0 n s; rt_device_close ops d s = Some (r, s')\<rbrakk> \<Longrightarrow> dev_run ops d s0 (n - 1) s'"
| other: "\<lbrakk>dev_run ops d s0 n s; dev_frame d s s'\<rbrakk> \<Longrightarrow> dev_run ops d s0 n s'"

definition dev_inv :: "nat \<Rightarrow> nat \<Rightarrow> kstate \<Rightarrow> bool" where
  "dev_inv d n s \<longleftrightarrow> rt_object_get_type (ODevice d) s = Class_Device \<and> unat (dv_ref_count (devices s d)) = n \<and>
     (0 < n \<longrightarrow> dv_open_flag (devices s d) AND OFLAG_OPEN \<noteq> 0)"

lemma dev_run_inv:
  assumes "dev_run ops d s0 n s" "dev_inv d 0 s0" "driver_ok (ops d) d"
  shows "dev_inv d n s"
  using assms
proof induction
  case (opens n s oflag r s')
  then have i: "dev_inv d n s" by blast
  from open_step[OF _ opens.prems(2) opens.hyps(2)] i have st: "if opened ops d s r
    then dv_ref_count (devices s' d) = dv_ref_count (devices s d) + 1 \<and> dv_ref_count (devices s' d) \<noteq> 0 \<and>
      dv_open_flag (devices s' d) AND OFLAG_OPEN \<noteq> 0 \<and> rt_object_get_type (ODevice d) s' = Class_Device
    else dev_frame d s s'" by (simp add: dev_inv_def)
  show ?case
  proof (cases "opened ops d s r")
    case True
    with st have c: "dv_ref_count (devices s' d) = dv_ref_count (devices s d) + 1" "dv_ref_count (devices s d) + 1 \<noteq> 0" by auto
    then have "unat (dv_ref_count (devices s' d)) = n + 1"
      using i unatSuc[of "dv_ref_count (devices s d)"] by (simp add: dev_inv_def add.commute)
    then show ?thesis using True st by (simp add: dev_inv_def)
  qed (use st i in \<open>simp add: dev_inv_def dev_frame_def\<close>)
next
  case (closes n s r s')
  then have i: "dev_inv d n s" by blast
  let ?c = "dv_ref_count (devices s d)"
  from close_step[OF _ closes.prems(2) closes.hyps(2)] i have st: "if ?c = 0 then r = - RT_ERROR \<and> s' = s
    else if ?c = 1
    then dv_ref_count (devices s' d) = 0 \<and> rt_object_get_type (ODevice d) s' = Class_Device \<and>
      (r = RT_EOK \<or> r = - RT_ENOSYS \<longrightarrow> dv_open_flag (devices s' d) = 0)
    else r = RT_EOK \<and> s' = dev_upd d (\<lambda>v. v\<lparr>dv_ref_count := dv_ref_count v - 1\<rparr>) s" by (simp add: dev_inv_def)
  consider "?c = 0" | "?c = 1" | "?c \<noteq> 0" "?c \<noteq> 1" by blast
  then show ?case
  proof cases
    case 3
    then have "unat (?c - 1) = unat ?c - 1" using unat_minus_one[of ?c] by simp
    with 3 st i show ?thesis by (simp add: dev_inv_def)
  qed (use st i in \<open>auto simp: dev_inv_def\<close>)
qed (auto simp: dev_inv_def dev_frame_def)

section \<open>Properties\<close>

text \<open>C11: reference counting, for drivers whose \<open>init\<close>, \<open>open\<close> and \<open>close\<close> leave the counter and the class of the
  object alone (\<open>open\<close> may rewrite \<open>open_flag\<close>, as the serial devices do, unless it fails; \<open>init\<close> keeps the mark).
  Over every history of opens, closes and steps that leave the counting alone, the 8-bit counter of a device is
  the number of successful opens that have not been closed, at most 255, and the device is marked open while it
  is positive. An open is successful when it returns \<open>RT_EOK\<close>, or \<open>-RT_ENOSYS\<close> that does not come from the
  driver's \<open>init\<close>. Closing an unopened device is \<open>-RT_ERROR\<close>; the driver's \<open>close\<close> runs only with the last
  reference, all other closes change nothing but the counter; and at 255 references no further open succeeds.\<close>

theorem device_references_counted:
  assumes "dev_run ops d s0 n s" and "dev_inv d 0 s0" and "driver_ok (ops d) d"
  shows "unat (dv_ref_count (devices s d)) = n \<and> n \<le> 255 \<and> (0 < n \<longrightarrow> dv_open_flag (devices s d) AND 8 \<noteq> 0) \<and>
    (n = 0 \<longrightarrow> rt_device_close ops d s = Some (- RT_ERROR, s)) \<and>
    (1 < n \<longrightarrow> rt_device_close ops d s = Some (RT_EOK, dev_upd d (\<lambda>v. v\<lparr>dv_ref_count := dv_ref_count v - 1\<rparr>) s)) \<and>
    (n = 255 \<longrightarrow> (\<forall>oflag r s'. rt_device_open ops d oflag s = Some (r, s') \<longrightarrow> \<not> opened ops d s r))"
proof -
  have i: "rt_object_get_type (ODevice d) s = Class_Device" "unat (dv_ref_count (devices s d)) = n"
    "0 < n \<longrightarrow> dv_open_flag (devices s d) AND OFLAG_OPEN \<noteq> 0"
    using dev_run_inv[OF assms] by (simp_all add: dev_inv_def)
  let ?c = "dv_ref_count (devices s d)"
  have "unat ?c < 2 ^ LENGTH(8)" by (rule unsigned_less)
  then have "n \<le> 255" using i(2) by simp
  moreover have "rt_device_close ops d s = Some (- RT_ERROR, s)" if "n = 0"
  proof -
    have "?c = 0" using i(2) that by (simp add: unat_eq_0)
    then show ?thesis using i(1) by (simp add: rt_device_close_def is_device_def)
  qed
  moreover have "rt_device_close ops d s = Some (RT_EOK, dev_upd d (\<lambda>v. v\<lparr>dv_ref_count := dv_ref_count v - 1\<rparr>) s)" if "1 < n"
  proof -
    have "?c \<noteq> 0" "?c \<noteq> 1" using i(2) that by auto
    then show ?thesis using i(1) by (simp add: rt_device_close_def is_device_def Let_def)
  qed
  moreover have "\<not> opened ops d s r" if "n = 255" "rt_device_open ops d oflag s = Some (r, s')" for oflag r s'
  proof -
    have "?c = 255" using i(2) that(1) by (simp add: word_unat_eq_iff)
    then have "?c + 1 = 0" by simp
    then show ?thesis using open_step[OF i(1) assms(3) that(2)] by auto
  qed
  ultimately show ?thesis using i(2,3) by blast
qed

text \<open>A driver without \<open>init\<close> whose \<open>close\<close> stores into the user data of thread 1.\<close>

definition sample_ops :: "nat \<Rightarrow> rt_device_ops" where
  "sample_ops d = \<lparr>op_init = None, op_open = None,
     op_close = Some (\<lambda>s. Some (RT_EOK, thr_upd 1 (th_user_data_update (\<lambda>u. u + 1)) s)),
     op_read = None, op_write = None, op_control = None\<rparr>"

theorem device_references_counted_witness:
  "\<exists>s s'. dev_run sample_ops 8 sample 2 s \<and>
     rt_device_close sample_ops 8 s = Some (RT_EOK, s') \<and> dv_ref_count (devices s' 8) = 1"
proof -
  have ty: "rt_object_get_type (ODevice 8) sample = 9" by (simp add: rt_object_get_type_def sample_def sample_type_def)
  have i: "dev_inv 8 0 sample" using ty by (simp add: dev_inv_def sample_def)
  have drv: "driver_ok (sample_ops 8) 8"
    by (auto simp: driver_ok_def sample_ops_def dev_kept_def rt_object_get_type_def thr_upd_def)
  define s1 where "s1 = dev_upd 8 (\<lambda>v. v\<lparr>dv_open_flag := 8, dv_ref_count := 1\<rparr>) (activate 8 sample)"
  define s2 where "s2 = dev_upd 8 (\<lambda>v. v\<lparr>dv_open_flag := 8, dv_ref_count := 2\<rparr>) s1"
  have dv: "devices sample 8 = \<lparr>dv_type = 0, dv_flag = 0, dv_open_flag = 0, dv_ref_count = 0, dv_rx_indicate = 0,
    dv_tx_complete = 0\<rparr>" by (simp add: sample_def)
  note eval = rt_device_open_def is_device_def device_open_call_def sample_ops_def activate_def dev_upd_def
    rt_object_get_type_def Let_def
  have o1: "rt_device_open sample_ops 8 0 sample = Some (RT_EOK, s1)"
    using ty dv by (simp add: eval s1_def)
  have d1: "devices s1 8 = \<lparr>dv_type = 0, dv_flag = 16, dv_open_flag = 8, dv_ref_count = 1, dv_rx_indicate = 0,
    dv_tx_complete = 0\<rparr>" "rt_object_get_type (ODevice 8) s1 = 9"
    using dv ty by (simp_all add: s1_def activate_def)
  have o2: "rt_device_open sample_ops 8 0 s1 = Some (RT_EOK, s2)"
    using d1 by (simp add: eval s2_def)
  have "dev_run sample_ops 8 sample 1 s1" using dev_run.opens[OF dev_run.start o1] by (simp add: opened_def)
  then have run: "dev_run sample_ops 8 sample 2 s2" using dev_run.opens[OF _ o2, of _ 1] by (simp add: opened_def numeral_2_eq_2)
  from device_references_counted[OF run i drv] run show ?thesis by (auto simp: s2_def)
qed

text \<open>The life of a device from its creation on.\<close>

inductive dev_life :: "nat \<Rightarrow> kstate \<Rightarrow> bool" for d where
  created: "rt_device_create ty attach s = Some (Some d, s') \<Longrightarrow> dev_life d s'"
| registered: "\<lbrakk>dev_life d s; rt_device_register (Some e) name flags s = Some (r, s')\<rbrakk> \<Longrightarrow> dev_life d s'"
| unregistered: "\<lbrakk>dev_life d s; rt_device_unregister e s = Some (r, s')\<rbrakk> \<Longrightarrow> dev_life d s'"
| other: "\<lbrakk>dev_life d s; obj_type (objs s' (ODevice d)) = obj_type (objs s (ODevice d))\<rbrakk> \<Longrightarrow> dev_life d s'"

lemma schedule_objs:
  assumes "rt_schedule s = Some s'"
  shows "objs s' = objs s"
proof -
  have ins: "objs s2 = objs s1" if "rt_schedule_insert_thread t s1 = Some s2" for t s1 s2
    using that by (auto simp: rt_schedule_insert_thread_def list_put_def rt_list_insert_before_def Let_def
        bind_eq_Some_conv split: if_splits)
  have rem: "objs s2 = objs s1" if "rt_schedule_remove_thread t s1 = Some s2" for t s1 s2
    using that by (auto simp: rt_schedule_remove_thread_def rt_list_remove_def Let_def bind_eq_Some_conv
        split: if_splits option.splits)
  show ?thesis using assms unfolding rt_schedule_def switch_thread_def
    by (auto simp: bind_eq_Some_conv Let_def split: if_splits dest!: ins rem)
qed

lemma exit_critical_objs: "rt_exit_critical s = Some s' \<Longrightarrow> objs s' = objs s"
  by (auto simp: rt_exit_critical_def Let_def split: if_splits dest: schedule_objs)

lemma dev_life_type: "dev_life d s \<Longrightarrow> obj_type (objs s (ODevice d)) = 0 \<or> obj_type (objs s (ODevice d)) = 0x89"
proof (induction rule: dev_life.induct)
  case (created ty attach s s')
  then show ?case by (auto simp: rt_device_create_def Let_def bind_eq_Some_conv split: if_splits)
next
  case (registered s e name flags r s')
  from registered.hyps(2) obtain f s1 where f: "rt_device_find name s = Some (f, s1)"
    and rest: "(if f \<noteq> None then Some (- RT_ERROR, s1)
          else do {
            s2 \<leftarrow> rt_object_init (ODevice e) Class_Device name s1;
            Some (RT_EOK, dev_upd e (\<lambda>v. v\<lparr>dv_flag := flags, dv_ref_count := 0, dv_open_flag := 0\<rparr>) s2) }) = Some (r, s')"
    by (auto simp: rt_device_register_def bind_eq_Some_conv)
  have o1: "objs s1 = objs s" using f
    by (auto simp: rt_device_find_def Let_def bind_eq_Some_conv rt_enter_critical_def split: if_splits dest: exit_critical_objs)
  show ?case
  proof (cases "f = None")
    case True
    then obtain s2 where "rt_object_init (ODevice e) Class_Device name s1 = Some s2" "objs s' = objs s2"
      using rest by (auto simp: bind_eq_Some_conv)
    then show ?thesis using registered.IH o1
      by (auto simp: rt_object_init_def Let_def bind_eq_Some_conv container_put_def rt_enter_critical_def
          split: if_splits dest!: exit_critical_objs)
  qed (use rest o1 registered.IH in simp)
next
  case (unregistered s e r s')
  then show ?case
    by (auto simp: rt_device_unregister_def rt_object_detach_def container_remove_def bind_eq_Some_conv split: if_splits)
qed simp

text \<open>C35: a device can never be destroyed. \<open>rt_device_register\<close> makes a created device a static object, for which
  \<open>rt_device_destroy\<close> fails its assertion, and before it is registered, or after it has been unregistered, it
  fails the one on the class: from the creation of a device on, whatever is registered, unregistered and
  opened, the call stops in \<open>rt_assert_handler\<close>.\<close>

theorem device_destroy_fails:
  assumes "dev_life d s"
  shows "rt_device_destroy d s = None"
  using dev_life_type[OF assms] by (auto simp: rt_device_destroy_def is_device_def rt_object_get_type_def rt_object_is_systemobject_def)

lemma demo_malloc_68: "\<exists>h. rt_malloc 0 68 heap_demo = Some (0x2000000C, h)"
  unfolding heap_demo_eq
  apply (simp add: rt_malloc_def RT_ALIGN_def)
  apply (subst malloc_search.simps)
  apply (simp add: demo_step)
  apply (subst lfree_search.simps, simp)
  apply (subst lfree_search.simps, simp)
  done

theorem device_destroy_fails_witness:
  "\<exists>s'. rt_device_create 2 0 (sample\<lparr>kheap := heap_demo\<rparr>) = Some (Some 0x2000000C, s') \<and>
     rt_device_destroy 0x2000000C s' = None"
proof -
  have n: "interrupt_nest sample = 0" by (simp add: sample_simps)
  obtain s' where s': "rt_device_create 2 0 (sample\<lparr>kheap := heap_demo\<rparr>) = Some (Some 0x2000000C, s')"
    using demo_malloc_68 n by (auto simp: rt_device_create_def RT_ALIGN_def Let_def)
  then show ?thesis using device_destroy_fails[OF dev_life.created[OF s']] by blast
qed

lemma strncpy_strncmp: "rt_strncpy n name = Some nm \<Longrightarrow> rt_strncmp n nm name = Some 0"
proof (induction n name arbitrary: nm rule: rt_strncpy.induct)
  case (3 n c src)
  then show ?case by (cases "c = 0") auto
qed auto

lemma find_ok:
  assumes inv: "kinv s" and z: "lock_nest s = 0" and r: "find_named name (objs s) (containers s Class_Device) = Some r"
  shows "\<exists>s'. rt_device_find name s = Some (r, s') \<and> kinv s' \<and> lock_nest s' = 0 \<and> objs s' = objs s \<and> containers s' = containers s"
proof -
  let ?s = "rt_enter_critical s"
  have k: "kinv ?s" "lock_nest ?s = 1" using inv z by (simp_all add: rt_enter_critical_def)
  from exit_critical_ok[OF k] obtain s' where s': "rt_exit_critical ?s = Some s'" "kinv s'" "lock_nest s' = 0"
    "reclaim_frame (?s\<lparr>lock_nest := 0\<rparr>) s'" by blast
  have "objs s' = objs s" using exit_critical_objs[OF s'(1)] by (simp add: rt_enter_critical_def)
  moreover have "containers s' = containers s" using s'(4) by (simp add: reclaim_frame_def rt_enter_critical_def)
  moreover have "rt_device_find name s = Some (r, s')"
    using r s'(1) kinvD(4)[OF inv]
    by (auto simp: rt_device_find_def rt_object_get_information_def rt_object_container_def rt_thread_self_def rt_enter_critical_def)
  ultimately show ?thesis using s'(2,3) by blast
qed

text \<open>C14: registering a device whose name is not taken succeeds and marks it unopened with the given flags; from then
  on the name finds this device, and no device can be registered under it again.\<close>

theorem device_register_find:
  assumes "kinv s" and "lock_nest s = 0" and "ODevice d \<notin> set (containers s Class_Device)"
    and "find_named name (objs s) (containers s Class_Device) = Some None" and "rt_strncpy 8 name = Some nm"
  shows "\<exists>s'. rt_device_register (Some d) name flags s = Some (RT_EOK, s') \<and> kinv s' \<and>
    dv_flag (devices s' d) = flags \<and> dv_ref_count (devices s' d) = 0 \<and> dv_open_flag (devices s' d) = 0 \<and>
    (\<exists>s2. rt_device_find name s' = Some (Some (ODevice d), s2)) \<and>
    (\<forall>e fl. \<exists>s2. rt_device_register (Some e) name fl s' = Some (- RT_ERROR, s2))"
proof -
  from find_ok[OF assms(1,2,4)] obtain s1 where s1: "rt_device_find name s = Some (None, s1)" "kinv s1" "lock_nest s1 = 0"
    "objs s1 = objs s" "containers s1 = containers s" by blast
  let ?s = "rt_enter_critical s1"
  have k: "kinv ?s" "lock_nest ?s = 1" using s1(2,3) by (simp_all add: rt_enter_critical_def)
  from exit_critical_ok[OF k] obtain s2 where s2: "rt_exit_critical ?s = Some s2" "kinv s2" "lock_nest s2 = 0"
    "reclaim_frame (?s\<lparr>lock_nest := 0\<rparr>) s2" by blast
  have c2: "containers s2 = containers s" using s2(4) s1(5) by (simp add: reclaim_frame_def rt_enter_critical_def)
  define s3 where "s3 = container_put Class_Device (ODevice d)
    (obj_upd (ODevice d) (\<lambda>ob. ob\<lparr>obj_type := Class_Device OR Class_Static, obj_name := nm\<rparr>) s2)"
  define s' where "s' = dev_upd d (\<lambda>v. v\<lparr>dv_flag := flags, dv_ref_count := 0, dv_open_flag := 0\<rparr>) s3"
  have "rt_object_init (ODevice d) Class_Device name s1 = Some s3"
    using s2(1) assms(3,5) s1(5)
    by (simp add: rt_object_init_def rt_object_get_information_def rt_object_container_def rt_enter_critical_def s3_def)
  then have reg: "rt_device_register (Some d) name flags s = Some (RT_EOK, s')"
    using s1(1) by (simp add: rt_device_register_def s'_def)
  have "kinv s3" using kinv_obj_upd[OF s2(2)] by (simp add: s3_def container_put_def)
  then have k': "kinv s'" using same_core_kinv[of s3 s'] by (simp add: s'_def dev_upd_def same_core_def)
  have l': "lock_nest s' = 0" using s2(3) by (simp add: s'_def s3_def container_put_def dev_upd_def)
  have "find_named name (objs s') (containers s' Class_Device) = Some (Some (ODevice d))"
    using strncpy_strncmp[OF assms(5)] by (simp add: s'_def s3_def container_put_def dev_upd_def)
  note found = find_ok[OF k' l' this]
  have "\<exists>s2. rt_device_register (Some e) name fl s' = Some (- RT_ERROR, s2)" for e fl
    using found by (auto simp: rt_device_register_def)
  then show ?thesis using reg k' found by (auto simp: s'_def)
qed

theorem device_register_find_witness:
  "\<exists>s' s2. rt_device_register (Some 8) [0x75, 0x61, 0x72, 0x74, 0x31, 0] 0x103 sample = Some (RT_EOK, s') \<and>
     rt_device_find [0x75, 0x61, 0x72, 0x74, 0x31, 0] s' = Some (Some (ODevice 8), s2)"
proof -
  let ?name = "[0x75, 0x61, 0x72, 0x74, 0x31, 0] :: u8 list"
  have eight: "Suc (Suc (Suc (Suc (Suc (Suc (Suc (Suc (0)))))))) = 8" by simp
  have "rt_strncpy (Suc (Suc (Suc (Suc (Suc (Suc (Suc (Suc (0))))))))) ?name = Some [0x75, 0x61, 0x72, 0x74, 0x31, 0, 0, 0]" by simp
  then have nm: "rt_strncpy 8 ?name = Some [0x75, 0x61, 0x72, 0x74, 0x31, 0, 0, 0]" unfolding eight .
  have "lock_nest sample = 0" "ODevice 8 \<notin> set (containers sample 9)"
    "find_named ?name (objs sample) (containers sample 9) = Some None" by (simp_all add: sample_def)
  from device_register_find[OF sample_kinv this nm, where flags = "0x103"] show ?thesis by blast
qed

end
