(* ===== verification/Completion.thy ===== *)
theory Completion
  imports Waiting
begin

text \<open>
  Completions (\<open>components/drivers/src/completion.c\<close>): a flag on which one thread can wait. The waiting
  thread is linked into \<open>DriverQ (Suspended_list c)\<close>. Suspending the thread at the end of the list, arming its
  timer and scheduling are the steps of \<open>block_thread\<close> for a FIFO list. \<open>rt_completion_wait\<close> is split at
  \<open>rt_schedule\<close> like the blocking calls of \<open>ipc.c\<close>.
\<close>

section \<open>Operations\<close>

abbreviation (input) RT_COMPLETED :: u32 where "RT_COMPLETED \<equiv> 1"
abbreviation (input) RT_UNCOMPLETED :: u32 where "RT_UNCOMPLETED \<equiv> 0"

definition set_completion :: "nat \<Rightarrow> u32 \<Rightarrow> kstate \<Rightarrow> kstate" where
  "set_completion c v s = s\<lparr>completions := (completions s)(c := v)\<rparr>"

definition rt_completion_init :: "nat \<Rightarrow> kstate \<Rightarrow> kstate option" where
  "rt_completion_init c s = rt_ipc_object_init (DriverQ (Suspended_list c)) (set_completion c RT_UNCOMPLETED s)"

definition rt_completion_wait :: "nat \<Rightarrow> 32 word \<Rightarrow> kstate \<Rightarrow> (rt_err outcome \<times> kstate) option" where
  "rt_completion_wait c timeout s =
     (if completions s c \<noteq> RT_COMPLETED
      then do {
        rt_assert (rt_list_isempty (DriverQ (Suspended_list c)) s);
        if timeout = 0 then Some (Done (- RT_ETIMEOUT), s)
        else do {
          t \<leftarrow> rt_thread_self s;
          RT_DEBUG_NOT_IN_INTERRUPT s;
          s1 \<leftarrow> block_thread (DriverQ (Suspended_list c)) t 0 timeout (set_error t RT_EOK s);
          Some (Blocked, s1) } }
      else Some (Done RT_EOK, set_completion c RT_UNCOMPLETED s))"

definition rt_completion_wait_woken :: "nat \<Rightarrow> nat \<Rightarrow> kstate \<Rightarrow> rt_err \<times> kstate" where
  "rt_completion_wait_woken c t s = (th_error (threads s t), set_completion c RT_UNCOMPLETED s)"

definition rt_completion_done :: "nat \<Rightarrow> kstate \<Rightarrow> kstate option" where
  "rt_completion_done c s =
     (if completions s c = RT_COMPLETED then Some s
      else do {
        let s1 = set_completion c RT_COMPLETED s;
        if \<not> rt_list_isempty (DriverQ (Suspended_list c)) s1
        then do {
          s2 \<leftarrow> rt_ipc_list_resume (DriverQ (Suspended_list c)) s1;
          rt_schedule s2 }
        else Some s1 })"

section \<open>Behaviour\<close>

abbreviation comp_waiters :: "nat \<Rightarrow> kstate \<Rightarrow> nat list" where
  "comp_waiters c s \<equiv> lists s (DriverQ (Suspended_list c))"

lemma core_frame_driver:
  assumes "core_frame s s'"
  shows "completions s' = completions s" "dqueues s' = dqueues s" "devices s' = devices s"
proof -
  from assms have e: "s' = s\<lparr>threads := threads s', lists := lists s', tlink := tlink s', ready_group := ready_group s',
            cur := cur s', cur_priority := cur_priority s', timers := timers s',
            timer_list := timer_list s', objs := objs s', random_nr := random_nr s'\<rparr>" by (simp add: core_frame_def)
  show "completions s' = completions s" "dqueues s' = dqueues s" "devices s' = devices s" by (subst e, simp)+
qed

lemma set_completion_simps [simp]:
  "completions (set_completion c v s) = (completions s)(c := v)" "lists (set_completion c v s) = lists s"
  "threads (set_completion c v s) = threads s" "stat_of (set_completion c v s) t = stat_of s t"
  "kinv (set_completion c v s) = kinv s"
proof -
  show "kinv (set_completion c v s) = kinv s" by (rule same_core_kinv) (simp add: same_core_def set_completion_def)
qed (simp_all add: set_completion_def stat_of_def)

text \<open>At most one thread waits, and only while the flag is not set.\<close>

definition comp_ok :: "nat \<Rightarrow> kstate \<Rightarrow> bool" where
  "comp_ok c s \<longleftrightarrow> length (comp_waiters c s) \<le> 1 \<and> (comp_waiters c s \<noteq> [] \<longrightarrow> completions s c \<noteq> RT_COMPLETED)"

lemma wait_blocks:
  assumes inv: "kinv s" and u: "completions s c \<noteq> RT_COMPLETED" and e: "comp_waiters c s = []"
    and t: "running s t" and time: "time \<noteq> 0" "0 < sint time \<longrightarrow> time \<noteq> 0x7fffffff"
  shows "\<exists>s'. rt_completion_wait c time s = Some (Blocked, s') \<and>
    blocked_in (DriverQ (Suspended_list c)) t 0 time (set_error t RT_EOK s) s'"
proof -
  let ?s = "set_error t RT_EOK s"
  have r: "kinv ?s" "cur ?s = Some t" "stat_of ?s t = RT_THREAD_RUNNING"
    using inv t running_error[of t RT_EOK s t] by (simp_all add: running_def)
  from block_thread_ok[OF r, of "DriverQ (Suspended_list c)" 0 time] time(2) obtain s' where
    "block_thread (DriverQ (Suspended_list c)) t 0 time ?s = Some s'"
    "blocked_in (DriverQ (Suspended_list c)) t 0 time ?s s'" by auto
  with u e time(1) t show ?thesis
    by (simp add: rt_completion_wait_def rt_list_isempty_def rt_thread_self_def running_def RT_DEBUG_NOT_IN_INTERRUPT_def)
qed

lemma done_step:
  assumes inv: "kinv s" and ok: "comp_ok c s"
  shows "\<exists>s'. rt_completion_done c s = Some s' \<and> kinv s' \<and> comp_waiters c s' = [] \<and> completions s' c = RT_COMPLETED \<and>
    (\<forall>u. stat_of s' u = RT_THREAD_SUSPEND \<longleftrightarrow> stat_of s u = RT_THREAD_SUSPEND \<and> u \<notin> set (comp_waiters c s)) \<and>
    (\<forall>u. th_error (threads s' u) = th_error (threads s u))"
proof (cases "completions s c = RT_COMPLETED")
  case True
  then show ?thesis using inv ok by (auto simp: rt_completion_done_def comp_ok_def)
next
  case False
  let ?s = "set_completion c RT_COMPLETED s" and ?h = "DriverQ (Suspended_list c)"
  show ?thesis
  proof (cases "comp_waiters c s")
    case Nil
    then show ?thesis using inv False by (simp add: rt_completion_done_def rt_list_isempty_def Let_def)
  next
    case (Cons t ts)
    have nil: "ts = []" using ok Cons by (simp add: comp_ok_def)
    have k: "kinv ?s" "lists ?s ?h = t # ts" using inv Cons by simp_all
    from wl.wake_sched[OF k(1) _ k(2)] obtain s1 s' where s': "rt_ipc_list_resume ?h ?s = Some s1" "rt_schedule s1 = Some s'"
      "kinv s'" "wait_frame ?s s'" "comp_waiters c s' = ts" "\<And>u. stat_of s' u = 2 \<longleftrightarrow> stat_of ?s u = 2 \<and> u \<noteq> t"
      "\<And>u. th_error (threads s' u) = (if u = t then th_error (threads ?s t) else th_error (threads ?s u))" by auto
    have "rt_completion_done c s = Some s'"
      using False Cons s'(1,2) by (simp add: rt_completion_done_def rt_list_isempty_def Let_def)
    moreover have "completions s' c = 1" using core_frame_driver(1)[OF wait_frameD(1)[OF s'(4)]] by simp
    ultimately show ?thesis using s'(3,5-7) nil Cons by (intro exI[of _ s']) simp
  qed
qed

text \<open>A history of one completion.\<close>

inductive comp_run :: "nat \<Rightarrow> kstate \<Rightarrow> kstate \<Rightarrow> bool" for c s0 where
  start: "comp_run c s0 s0"
| wait: "\<lbrakk>comp_run c s0 s; running s t; 0 < sint time \<longrightarrow> time \<noteq> 0x7fffffff;
    rt_completion_wait c time s = Some (r, s')\<rbrakk> \<Longrightarrow> comp_run c s0 s'"
| woken: "\<lbrakk>comp_run c s0 s; rt_completion_wait_woken c t s = (r, s')\<rbrakk> \<Longrightarrow> comp_run c s0 s'"
| signal: "\<lbrakk>comp_run c s0 s; rt_completion_done c s = Some s'\<rbrakk> \<Longrightarrow> comp_run c s0 s'"
| other: "\<lbrakk>comp_run c s0 s; kinv s'; completions s' c = completions s c;
    comp_waiters c s' = comp_waiters c s \<or> comp_waiters c s' = []\<rbrakk> \<Longrightarrow> comp_run c s0 s'"

lemma comp_run_ok:
  assumes "comp_run c s0 s" "kinv s0" "comp_ok c s0"
  shows "kinv s \<and> comp_ok c s"
  using assms
proof induction
  case (wait s t time r s')
  then have i: "kinv s" "comp_ok c s" by auto
  show ?case
  proof (cases "completions s c = RT_COMPLETED")
    case True
    then show ?thesis using wait.hyps(4) i by (auto simp: rt_completion_wait_def comp_ok_def)
  next
    case False
    then have e: "comp_waiters c s = []"
      using wait.hyps(4) by (auto simp: rt_completion_wait_def rt_list_isempty_def split: if_splits)
    show ?thesis
    proof (cases "time = 0")
      case True
      then show ?thesis using wait.hyps(4) i False e by (auto simp: rt_completion_wait_def rt_list_isempty_def)
    next
      case nz: False
      from wait_blocks[OF i(1) False e wait.hyps(2) nz wait.hyps(3)] wait.hyps(4)
      have b: "blocked_in (DriverQ (Suspended_list c)) t 0 time (set_error t RT_EOK s) s'" by auto
      note d = blocked_inD[OF b]
      have "comp_waiters c s' = [t]" using b e by (simp add: blocked_in_def blocked_at_def wait_insert_def)
      moreover have "completions s' c = completions s c" using core_frame_driver(1)[OF d(2)] by (simp add: set_error_def thr_upd_def)
      ultimately show ?thesis using d(1) False by (simp add: comp_ok_def)
    qed
  qed
next
  case (woken s t r s')
  then show ?case by (auto simp: rt_completion_wait_woken_def comp_ok_def)
next
  case (signal s s')
  then show ?case using done_step[of s c] by (auto simp: comp_ok_def)
qed (auto simp: comp_ok_def)

section \<open>Properties\<close>

text \<open>C13: no wake-up of a completion is missed. Over every history of waits, wake-ups, signals and timeouts at most one thread waits
  for a completion, and none while its flag is set; a signal always returns, leaves the flag set and
  no thread waiting, and wakes exactly the thread that waited.\<close>

theorem completion_no_missed_wakeup:
  assumes "comp_run c s0 s" and "kinv s0" and "comp_ok c s0"
  shows "length (comp_waiters c s) \<le> 1 \<and> (comp_waiters c s \<noteq> [] \<longrightarrow> completions s c \<noteq> RT_COMPLETED) \<and>
    (\<exists>s'. rt_completion_done c s = Some s' \<and> kinv s' \<and> comp_waiters c s' = [] \<and> completions s' c = RT_COMPLETED \<and>
      (\<forall>u. stat_of s' u = RT_THREAD_SUSPEND \<longleftrightarrow> stat_of s u = RT_THREAD_SUSPEND \<and> u \<notin> set (comp_waiters c s)))"
proof -
  from comp_run_ok[OF assms] have i: "kinv s" "comp_ok c s" by auto
  then show ?thesis using done_step[OF i] by (auto simp: comp_ok_def)
qed

theorem completion_no_missed_wakeup_witness:
  "\<exists>s s'. comp_run 6 sample s \<and> comp_waiters 6 s = [1] \<and> rt_completion_done 6 s = Some s' \<and>
     comp_waiters 6 s' = [] \<and> stat_of s' 1 \<noteq> RT_THREAD_SUSPEND"
proof -
  have ok: "comp_ok 6 sample" "comp_waiters 6 sample = []" "completions sample 6 \<noteq> 1" by (simp_all add: comp_ok_def sample_def)
  have r: "running sample 1" by (simp add: running_def sample_simps sample_stat)
  from wait_blocks[OF sample_kinv ok(3,2) r, of 10] obtain s where s: "rt_completion_wait 6 10 sample = Some (Blocked, s)"
    "blocked_in (DriverQ (Suspended_list 6)) 1 0 10 (set_error 1 RT_EOK sample) s" by auto
  have run: "comp_run 6 sample s" using comp_run.wait[OF comp_run.start r _ s(1)] by simp
  have w: "comp_waiters 6 s = [1]" using s(2) ok(2) by (simp add: blocked_in_def blocked_at_def wait_insert_def)
  from completion_no_missed_wakeup[OF run sample_kinv ok(1)] w run show ?thesis by auto
qed

text \<open>C34: a signal can be lost. When the timeout of the waiting thread expires and the completion is signalled
  before that thread runs again, the thread returns \<open>-RT_ETIMEOUT\<close> and clears the flag: the signal has
  reached nobody, and the next wait blocks.\<close>

theorem completion_lost_after_timeout:
  assumes "kinv s" and "comp_waiters c s = [t]" and "completions s c \<noteq> RT_COMPLETED"
    and "ThreadTimer t \<notin> set (timer_list s)"
  shows "\<exists>s1 s2 s3. rt_thread_timeout t s = Some s1 \<and> rt_completion_done c s1 = Some s2 \<and>
    rt_completion_wait_woken c t s2 = (- RT_ETIMEOUT, s3) \<and> completions s3 c \<noteq> RT_COMPLETED \<and> comp_waiters c s3 = []"
proof -
  have st: "stat_of s t = RT_THREAD_SUSPEND"
    using waiting_suspended[OF assms(1), of "DriverQ (Suspended_list c)" t] assms(2) by simp
  from rt_thread_timeout_ok[OF assms(1) st assms(4)] obtain s1 where s1: "rt_thread_timeout t s = Some s1" "kinv s1"
    "core_frame s s1" "th_error (threads s1 t) = - RT_ETIMEOUT"
    "\<And>x. lists s1 (DriverQ x) = removeAll t (lists s (DriverQ x))" by blast
  have e: "comp_waiters c s1 = []" using s1(5) assms(2) by simp
  then have "comp_ok c s1" by (simp add: comp_ok_def)
  from done_step[OF s1(2) this] obtain s2 where "rt_completion_done c s1 = Some s2" "comp_waiters c s2 = []"
    "\<And>u. th_error (threads s2 u) = th_error (threads s1 u)" by blast
  then show ?thesis using s1(1,4) by (simp add: rt_completion_wait_woken_def)
qed

theorem completion_lost_after_timeout_witness:
  "\<exists>s1 s2 s3. rt_thread_timeout 2 (sample_wait (DriverQ (Suspended_list 6))) = Some s1 \<and> rt_completion_done 6 s1 = Some s2 \<and>
     rt_completion_wait_woken 6 2 s2 = (- RT_ETIMEOUT, s3) \<and> completions s3 6 \<noteq> RT_COMPLETED"
proof -
  let ?s = "sample_wait (DriverQ (Suspended_list 6))"
  have "kinv ?s" by (rule sample_wait_kinv) simp
  moreover have "comp_waiters 6 ?s = [2]" "completions ?s 6 \<noteq> 1" "ThreadTimer 2 \<notin> set (timer_list ?s)"
    by (simp_all add: sample_wait_simps) (simp add: sample_wait_def sample_sleep_def sample_def)
  ultimately show ?thesis using completion_lost_after_timeout[of ?s 6 2] by blast
qed

end
