(* ===== verification/Ipc_mailbox.thy ===== *)
theory Ipc_mailbox
  imports Waiting Cyclic
begin

text \<open>
  Mailboxes (\<open>rt_mb_\<close> functions of \<open>src/ipc.c\<close>): a circular buffer of words with a list of waiting
  receivers and a list of waiting senders. \<open>mb_send_try\<close> and \<open>mb_recv_try\<close> are one round of the
  waiting loop; a round that blocks is resumed by the \<open>_woken\<close> function, with the waiting time and the
  tick at which the wait began (the code's \<open>tick_delta\<close>).
\<close>

definition mb_upd :: "nat \<Rightarrow> (rt_mailbox \<Rightarrow> rt_mailbox) \<Rightarrow> kstate \<Rightarrow> kstate" where
  "mb_upd x f s = s\<lparr>mailboxes := (mailboxes s)(x := f (mailboxes s x))\<rparr>"

definition rt_mb_init :: "nat \<Rightarrow> u8 list \<Rightarrow> u32 \<Rightarrow> u32 list \<Rightarrow> u32 \<Rightarrow> u8 \<Rightarrow> kstate \<Rightarrow> (rt_err \<times> kstate) option" where
  "rt_mb_init x name addr msgpool sz flag s = do {
     s1 \<leftarrow> rt_object_init (OMailBox x) Class_MailBox name s;
     s2 \<leftarrow> rt_ipc_object_init (WaitQ (OMailBox x)) (set_flag (OMailBox x) flag s1);
     let s3 = mb_upd x (\<lambda>m. m\<lparr>mb_pool_addr := addr, mb_msg_pool := msgpool, mb_size := ucast sz,
                              mb_entry := 0, mb_in_offset := 0, mb_out_offset := 0\<rparr>) s2;
     s4 \<leftarrow> rt_ipc_object_init (SenderQ x) s3;
     Some (RT_EOK, s4) }"

definition rt_mb_detach :: "nat \<Rightarrow> kstate \<Rightarrow> (rt_err \<times> kstate) option" where
  "rt_mb_detach x s = do {
     of_class (OMailBox x) Class_MailBox s;
     rt_assert (rt_object_is_systemobject (OMailBox x) s);
     s1 \<leftarrow> rt_ipc_list_resume_all (WaitQ (OMailBox x)) s;
     s2 \<leftarrow> rt_ipc_list_resume_all (SenderQ x) s1;
     Some (RT_EOK, rt_object_detach (OMailBox x) s2) }"

definition heap_word :: "small_mem \<Rightarrow> u32 \<Rightarrow> u32" where
  "heap_word h a = (let b = (\<lambda>i. ucast (bytes h (a - heap_ptr h + i)) :: u32) in
     b 0 OR push_bit 8 (b 1) OR push_bit 16 (b 2) OR push_bit 24 (b 3))"

definition rt_mb_create :: "u8 list \<Rightarrow> u32 \<Rightarrow> u8 \<Rightarrow> kstate \<Rightarrow> (nat option \<times> kstate) option" where
  "rt_mb_create name sz flag s = do {
     RT_DEBUG_NOT_IN_INTERRUPT s;
     (r, s1) \<leftarrow> rt_object_allocate OMailBox Class_MailBox name s;
     case r of None \<Rightarrow> Some (None, s1)
     | Some x \<Rightarrow> do {
         s2 \<leftarrow> rt_ipc_object_init (WaitQ (OMailBox x)) (set_flag (OMailBox x) flag s1);
         let s3 = mb_upd x (mb_size_update (\<lambda>_. ucast sz)) s2;
         let n = mb_size (mailboxes s3 x);
         (p, h) \<leftarrow> rt_malloc (interrupt_nest s3) (ucast n * 4) (kheap s3);
         let s4 = s3\<lparr>kheap := h\<rparr>;
         if p = 0 then do { s5 \<leftarrow> rt_object_delete (OMailBox x) x s4; Some (None, s5) }
         else do {
           let pool = map (\<lambda>i. heap_word h (p + 4 * of_nat i)) [0..<unat n];
           let s5 = mb_upd x (\<lambda>m. m\<lparr>mb_pool_addr := p, mb_msg_pool := pool, mb_entry := 0,
                                    mb_in_offset := 0, mb_out_offset := 0\<rparr>) s4;
           s6 \<leftarrow> rt_ipc_object_init (SenderQ x) s5;
           Some (Some x, s6) } } }"

definition rt_mb_delete :: "nat \<Rightarrow> kstate \<Rightarrow> (rt_err \<times> kstate) option" where
  "rt_mb_delete x s = do {
     RT_DEBUG_NOT_IN_INTERRUPT s;
     of_class (OMailBox x) Class_MailBox s;
     rt_assert (\<not> rt_object_is_systemobject (OMailBox x) s);
     s1 \<leftarrow> rt_ipc_list_resume_all (WaitQ (OMailBox x)) s;
     s2 \<leftarrow> rt_ipc_list_resume_all (SenderQ x) s1;
     h \<leftarrow> rt_free (interrupt_nest s2) (mb_pool_addr (mailboxes s2 x)) (kheap s2);
     s3 \<leftarrow> rt_object_delete (OMailBox x) x (s2\<lparr>kheap := h\<rparr>);
     Some (RT_EOK, s3) }"

text \<open>Storing and fetching a mail in the circular buffer.\<close>

definition mb_put :: "u32 \<Rightarrow> rt_mailbox \<Rightarrow> rt_mailbox option" where
  "mb_put value m = do {
     pool \<leftarrow> put_byte (mb_msg_pool m) (unat (mb_in_offset m)) value;
     let i = mb_in_offset m + 1;
     Some (m\<lparr>mb_msg_pool := pool, mb_in_offset := (if i \<ge> mb_size m then 0 else i),
             mb_entry := mb_entry m + 1\<rparr>) }"

definition mb_get :: "rt_mailbox \<Rightarrow> (u32 \<times> rt_mailbox) option" where
  "mb_get m = do {
     value \<leftarrow> get_byte (mb_msg_pool m) (unat (mb_out_offset m));
     let i = mb_out_offset m + 1;
     Some (value, m\<lparr>mb_out_offset := (if i \<ge> mb_size m then 0 else i), mb_entry := mb_entry m - 1\<rparr>) }"

definition mb_send_try :: "nat \<Rightarrow> u32 \<Rightarrow> 32 word \<Rightarrow> kstate \<Rightarrow> (rt_err outcome \<times> kstate) option" where
  "mb_send_try x value timeout s =
     (if mb_entry (mailboxes s x) = mb_size (mailboxes s x)
      then do {
        t \<leftarrow> rt_thread_self s;
        let s1 = set_error t RT_EOK s;
        if timeout = 0 then Some (Done (- RT_EFULL), s1)
        else do {
          RT_DEBUG_IN_THREAD_CONTEXT s1;
          s2 \<leftarrow> block_thread (SenderQ x) t (flag_of (OMailBox x) s1) timeout s1;
          Some (Blocked, s2) } }
      else do {
        m \<leftarrow> mb_put value (mailboxes s x);
        let s1 = mb_upd x (\<lambda>_. m) s;
        if \<not> rt_list_isempty (WaitQ (OMailBox x)) s1
        then do {
          s2 \<leftarrow> rt_ipc_list_resume (WaitQ (OMailBox x)) s1;
          s3 \<leftarrow> rt_schedule s2;
          Some (Done RT_EOK, s3) }
        else Some (Done RT_EOK, s1) })"

definition rt_mb_send_wait :: "nat \<Rightarrow> u32 \<Rightarrow> 32 word \<Rightarrow> kstate \<Rightarrow> (rt_err outcome \<times> kstate) option" where
  "rt_mb_send_wait x value timeout s = do {
     of_class (OMailBox x) Class_MailBox s;
     if mb_entry (mailboxes s x) = mb_size (mailboxes s x) \<and> timeout = 0
     then Some (Done (- RT_EFULL), s)
     else mb_send_try x value timeout s }"

definition rt_mb_send_woken ::
    "nat \<Rightarrow> u32 \<Rightarrow> 32 word \<Rightarrow> u32 \<Rightarrow> nat \<Rightarrow> kstate \<Rightarrow> (rt_err outcome \<times> kstate) option" where
  "rt_mb_send_woken x value timeout tick_delta t s =
     (if th_error (threads s t) \<noteq> RT_EOK then Some (Done (th_error (threads s t)), s)
      else mb_send_try x value (time_left timeout tick_delta (rt_tick_get s)) s)"

definition rt_mb_send :: "nat \<Rightarrow> u32 \<Rightarrow> kstate \<Rightarrow> (rt_err outcome \<times> kstate) option" where
  "rt_mb_send x value s = rt_mb_send_wait x value 0 s"

text \<open>The value is the error code and what is stored through \<open>value\<close>.\<close>

definition mb_recv_try :: "nat \<Rightarrow> 32 word \<Rightarrow> kstate \<Rightarrow> ((rt_err \<times> u32 option) outcome \<times> kstate) option" where
  "mb_recv_try x timeout s =
     (if mb_entry (mailboxes s x) = 0
      then do {
        t \<leftarrow> rt_thread_self s;
        let s1 = set_error t RT_EOK s;
        if timeout = 0 then Some (Done (- RT_ETIMEOUT, None), set_error t (- RT_ETIMEOUT) s1)
        else do {
          RT_DEBUG_IN_THREAD_CONTEXT s1;
          s2 \<leftarrow> block_thread (WaitQ (OMailBox x)) t (flag_of (OMailBox x) s1) timeout s1;
          Some (Blocked, s2) } }
      else do {
        (value, m) \<leftarrow> mb_get (mailboxes s x);
        let s1 = mb_upd x (\<lambda>_. m) s;
        if \<not> rt_list_isempty (SenderQ x) s1
        then do {
          s2 \<leftarrow> rt_ipc_list_resume (SenderQ x) s1;
          s3 \<leftarrow> rt_schedule s2;
          Some (Done (RT_EOK, Some value), s3) }
        else Some (Done (RT_EOK, Some value), s1) })"

definition rt_mb_recv :: "nat \<Rightarrow> 32 word \<Rightarrow> kstate \<Rightarrow> ((rt_err \<times> u32 option) outcome \<times> kstate) option" where
  "rt_mb_recv x timeout s = do {
     of_class (OMailBox x) Class_MailBox s;
     if mb_entry (mailboxes s x) = 0 \<and> timeout = 0
     then Some (Done (- RT_ETIMEOUT, None), s)
     else mb_recv_try x timeout s }"

definition rt_mb_recv_woken ::
    "nat \<Rightarrow> 32 word \<Rightarrow> u32 \<Rightarrow> nat \<Rightarrow> kstate \<Rightarrow> ((rt_err \<times> u32 option) outcome \<times> kstate) option" where
  "rt_mb_recv_woken x timeout tick_delta t s =
     (if th_error (threads s t) \<noteq> RT_EOK then Some (Done (th_error (threads s t), None), s)
      else mb_recv_try x (time_left timeout tick_delta (rt_tick_get s)) s)"

definition rt_mb_control :: "nat \<Rightarrow> nat \<Rightarrow> kstate \<Rightarrow> (rt_err \<times> kstate) option" where
  "rt_mb_control x cmd s = do {
     of_class (OMailBox x) Class_MailBox s;
     if cmd = 1
     then do {
       s1 \<leftarrow> rt_ipc_list_resume_all (WaitQ (OMailBox x)) s;
       s2 \<leftarrow> rt_ipc_list_resume_all (SenderQ x) s1;
       s3 \<leftarrow> rt_schedule (mb_upd x (\<lambda>m. m\<lparr>mb_entry := 0, mb_in_offset := 0, mb_out_offset := 0\<rparr>) s2);
       Some (RT_EOK, s3) }
     else Some (- RT_ERROR, s) }"

section \<open>The circular buffer\<close>

definition mb_inv :: "rt_mailbox \<Rightarrow> bool" where
  "mb_inv m \<longleftrightarrow> mb_out_offset m < mb_size m \<and> mb_entry m \<le> mb_size m \<and>
     unat (mb_in_offset m) = (unat (mb_out_offset m) + unat (mb_entry m)) mod unat (mb_size m) \<and>
     unat (mb_size m) \<le> length (mb_msg_pool m)"

definition mb_contents :: "rt_mailbox \<Rightarrow> u32 list" where
  "mb_contents m = cyc (mb_msg_pool m) (unat (mb_size m)) (unat (mb_out_offset m)) (unat (mb_entry m))"

definition mb_capacity :: "rt_mailbox \<Rightarrow> nat" where
  "mb_capacity m = unat (mb_size m)"

lemma length_mb_contents [simp]: "length (mb_contents m) = unat (mb_entry m)"
  by (simp add: mb_contents_def)

lemma mb_invD:
  assumes "mb_inv m"
  shows "unat (mb_out_offset m) < unat (mb_size m)" "unat (mb_entry m) \<le> unat (mb_size m)"
    "unat (mb_in_offset m) = (unat (mb_out_offset m) + unat (mb_entry m)) mod unat (mb_size m)"
    "unat (mb_size m) \<le> length (mb_msg_pool m)" "unat (mb_in_offset m) < unat (mb_size m)"
  using assms by (auto simp: mb_inv_def word_less_nat_alt word_le_nat_alt)

text \<open>Advancing an offset.\<close>

lemma unat_add_1:
  assumes "unat (x :: 'a::len word) + 1 < 2 ^ LENGTH('a)"
  shows "unat (x + 1) = unat x + 1"
  using assms by (simp add: unat_word_ariths)

lemma next_offset:
  fixes i n :: u16
  assumes "unat i < unat n"
  shows "unat (if i + 1 \<ge> n then 0 else i + 1) = (unat i + 1) mod unat n"
proof -
  have n: "unat n < 65536" using unsigned_less[of n] by simp
  with assms have e: "unat (i + 1) = unat i + 1" by (intro unat_add_1) simp
  show ?thesis
  proof (cases "unat i + 1 = unat n")
    case True
    then have "i + 1 \<ge> n" using e by (simp add: word_le_nat_alt)
    with True show ?thesis by simp
  next
    case False
    then have "\<not> i + 1 \<ge> n" "unat i + 1 < unat n" using e assms by (simp_all add: word_le_nat_alt)
    with e show ?thesis by simp
  qed
qed

lemma mb_put_room:
  assumes inv: "mb_inv m" and room: "unat (mb_entry m) < unat (mb_size m)"
  shows "\<exists>m'. mb_put v m = Some m' \<and> mb_inv m' \<and> mb_contents m' = mb_contents m @ [v] \<and>
    mb_size m' = mb_size m \<and> mb_entry m' = mb_entry m + 1"
proof -
  note i = mb_invD[OF inv]
  let ?n = "unat (mb_size m)" and ?w = "unat (mb_in_offset m)"
  let ?m = "m\<lparr>mb_msg_pool := (mb_msg_pool m)[?w := v],
     mb_in_offset := (if mb_in_offset m + 1 \<ge> mb_size m then 0 else mb_in_offset m + 1), mb_entry := mb_entry m + 1\<rparr>"
  have run: "mb_put v m = Some ?m" using i(4,5) by (simp add: mb_put_def put_byte_def)
  have "unat (mb_size m) < 65536" using unsigned_less[of "mb_size m"] by simp
  then have e: "unat (mb_entry m + 1) = unat (mb_entry m) + 1" using room by (intro unat_add_1) simp
  have "unat (mb_in_offset ?m) = (?w + 1) mod ?n" using next_offset[OF i(5)] by simp
  also have "\<dots> = (unat (mb_out_offset m) + (unat (mb_entry m) + 1)) mod ?n"
    unfolding i(3) by (simp add: mod_simps add.assoc)
  finally have "unat (mb_in_offset ?m) = (unat (mb_out_offset m) + (unat (mb_entry m) + 1)) mod ?n" .
  then have inv': "mb_inv ?m"
    using i(1,4) room e unfolding mb_inv_def word_less_nat_alt word_le_nat_alt by simp
  have "cyc_written ?n (mb_msg_pool m) ?w 1 [v] ((mb_msg_pool m)[?w := v])"
    by (rule cyc_written_update[OF i(5,4)])
  then have "cyc ((mb_msg_pool m)[?w := v]) ?n (unat (mb_out_offset m)) (unat (mb_entry m) + 1) =
     mb_contents m @ take 1 [v]"
    unfolding mb_contents_def i(3) by (rule cyc_append) (use room in simp_all)
  then have "mb_contents ?m = mb_contents m @ [v]" unfolding mb_contents_def by (simp add: e)
  with run inv' show ?thesis by (intro exI[of _ ?m]) simp
qed

lemma mb_get_mail:
  assumes inv: "mb_inv m" and c: "mb_contents m = v # vs"
  shows "\<exists>m'. mb_get m = Some (v, m') \<and> mb_inv m' \<and> mb_contents m' = vs \<and> mb_size m' = mb_size m \<and>
    mb_entry m' = mb_entry m - 1"
proof -
  note i = mb_invD[OF inv]
  let ?n = "unat (mb_size m)" and ?r = "unat (mb_out_offset m)"
  let ?m = "m\<lparr>mb_out_offset := (if mb_out_offset m + 1 \<ge> mb_size m then 0 else mb_out_offset m + 1),
     mb_entry := mb_entry m - 1\<rparr>"
  have len: "unat (mb_entry m) = Suc (length vs)" using c length_mb_contents[of m] by simp
  then have "mb_entry m \<noteq> 0" by auto
  then have e: "unat (mb_entry m - 1) = length vs" using len unat_minus_one by fastforce
  have "mb_contents m ! 0 = mb_msg_pool m ! (?r mod ?n)" unfolding mb_contents_def using len by simp
  then have "v = mb_msg_pool m ! ?r" using c i(1) by simp
  then have run: "mb_get m = Some (v, ?m)" using i(1,4) by (simp add: mb_get_def get_byte_def)
  have o: "unat (mb_out_offset ?m) = (?r + 1) mod ?n" using next_offset[OF i(1)] by simp
  have "unat (mb_in_offset m) = ((?r + 1) mod ?n + length vs) mod ?n"
    unfolding i(3) len by (simp add: mod_simps)
  then have inv': "mb_inv ?m"
    using i o e len unfolding mb_inv_def word_less_nat_alt word_le_nat_alt by simp
  have "cyc (mb_msg_pool m) ?n ((?r + 1) mod ?n) (unat (mb_entry m) - 1) = drop 1 (mb_contents m)"
    unfolding mb_contents_def by (rule cyc_drop)
  then have "mb_contents ?m = vs" unfolding mb_contents_def using o e c len by (simp add: mb_contents_def)
  with run inv' show ?thesis by (intro exI[of _ ?m]) simp
qed

text \<open>Adding and taking with the checks of the senders and receivers.\<close>

definition mb_enq :: "u32 \<Rightarrow> rt_mailbox \<Rightarrow> rt_mailbox option" where
  "mb_enq v m = (if mb_entry m = mb_size m then None else mb_put v m)"

definition mb_deq :: "rt_mailbox \<Rightarrow> (u32 \<times> rt_mailbox) option" where
  "mb_deq m = (if mb_entry m = 0 then None else mb_get m)"

lemma mb_full_iff: "mb_inv m \<Longrightarrow> mb_entry m = mb_size m \<longleftrightarrow> \<not> unat (mb_entry m) < unat (mb_size m)"
  using mb_invD(2)[of m] by (auto simp: word_unat_eq_iff)

interpretation mbq: bounded_queue mb_inv mb_contents mb_capacity mb_enq mb_deq
proof unfold_locales
  fix q x assume a: "mb_inv q" "length (mb_contents q) < mb_capacity q"
  then show "\<exists>q'. mb_enq x q = Some q' \<and> mb_inv q' \<and> mb_contents q' = mb_contents q @ [x] \<and>
      mb_capacity q' = mb_capacity q"
    using mb_put_room[of q x] mb_full_iff[of q] by (auto simp: mb_enq_def mb_capacity_def)
next
  fix q x assume "mb_inv q" "length (mb_contents q) = mb_capacity q"
  then show "mb_enq x q = None" by (simp add: mb_enq_def mb_capacity_def word_unat_eq_iff)
next
  fix q x xs assume a: "mb_inv q" "mb_contents q = x # xs"
  then have "mb_entry q \<noteq> 0" using length_mb_contents[of q] by auto
  with mb_get_mail[OF a] show "\<exists>q'. mb_deq q = Some (x, q') \<and> mb_inv q' \<and> mb_contents q' = xs \<and>
      mb_capacity q' = mb_capacity q"
    by (auto simp: mb_deq_def mb_capacity_def)
next
  fix q assume "mb_inv q" "mb_contents q = []"
  then show "mb_deq q = None" using length_mb_contents[of q] by (simp add: mb_deq_def unat_eq_zero)
next
  fix q assume "mb_inv q"
  then show "length (mb_contents q) \<le> mb_capacity q" using mb_invD(2) by (simp add: mb_capacity_def)
qed

section \<open>Sending and receiving\<close>

abbreviation mb_receivers :: "nat \<Rightarrow> kstate \<Rightarrow> nat list" where
  "mb_receivers x s \<equiv> lists s (WaitQ (OMailBox x))"

abbreviation mb_senders :: "nat \<Rightarrow> kstate \<Rightarrow> nat list" where
  "mb_senders x s \<equiv> lists s (SenderQ x)"

definition mb_ok :: "nat \<Rightarrow> kstate \<Rightarrow> bool" where
  "mb_ok x s \<longleftrightarrow> rt_object_get_type (OMailBox x) s = Class_MailBox \<and> mb_inv (mailboxes s x)"

abbreviation mails :: "nat \<Rightarrow> kstate \<Rightarrow> u32 list" where
  "mails x s \<equiv> mb_contents (mailboxes s x)"

lemma mb_upd_simps [simp]:
  "mailboxes (mb_upd x f s) = (mailboxes s)(x := f (mailboxes s x))" "kinv (mb_upd x f s) = kinv s"
  "lists (mb_upd x f s) = lists s" "threads (mb_upd x f s) = threads s"
  "stat_of (mb_upd x f s) t = stat_of s t" "rt_object_get_type z (mb_upd x f s) = rt_object_get_type z s"
  by (simp_all add: mb_upd_def stat_of_def rt_object_get_type_def)

lemma mb_ok_frame:
  assumes "core_frame s s'"
  shows "mb_ok x s' = mb_ok x s" "mails x s' = mails x s" "mailboxes s' = mailboxes s"
  using core_frameD(8,20)[OF assms] by (simp_all add: mb_ok_def)

lemma mb_error_simps [simp]: "mb_ok x (set_error t e s) = mb_ok x s"
  by (simp add: mb_ok_def)

lemma mails_full: "mb_ok x s \<Longrightarrow> mb_entry (mailboxes s x) = mb_size (mailboxes s x) \<longleftrightarrow>
    length (mails x s) = mb_capacity (mailboxes s x)"
  by (simp add: mb_capacity_def word_unat_eq_iff)

lemma mails_empty: "mb_entry (mailboxes s x) = 0 \<longleftrightarrow> mails x s = []"
  by (metis length_0_conv length_mb_contents unat_eq_zero)

lemma send_room:
  assumes inv: "kinv s" and ok: "mb_ok x s" and room: "mb_entry (mailboxes s x) \<noteq> mb_size (mailboxes s x)"
  shows "\<exists>s'. mb_send_try x v time s = Some (Done RT_EOK, s') \<and> kinv s' \<and> mb_ok x s' \<and> mails x s' = mails x s @ [v] \<and>
    mb_receivers x s' = tl (mb_receivers x s) \<and> mb_senders x s' = mb_senders x s \<and>
    (\<forall>u. stat_of s' u = RT_THREAD_SUSPEND \<longleftrightarrow>
       stat_of s u = RT_THREAD_SUSPEND \<and> u \<notin> set (take 1 (mb_receivers x s)))"
proof -
  have i: "mb_inv (mailboxes s x)" using ok by (simp add: mb_ok_def)
  from mb_put_room[OF i, of v] mb_full_iff[OF i] room obtain m where m: "mb_put v (mailboxes s x) = Some m"
    "mb_inv m" "mb_contents m = mails x s @ [v]" by auto
  let ?s = "mb_upd x (\<lambda>_. m) s"
  have k: "kinv ?s" using inv by simp
  from wake_if_any[OF k, of "WaitQ (OMailBox x)" "Done RT_EOK"] obtain s' where s':
    "(if \<not> rt_list_isempty (WaitQ (OMailBox x)) ?s
       then do { s2 \<leftarrow> rt_ipc_list_resume (WaitQ (OMailBox x)) ?s; s3 \<leftarrow> rt_schedule s2; Some (Done RT_EOK, s3) }
       else Some (Done RT_EOK, ?s)) = Some (Done RT_EOK, s')"
    "kinv s'" "wait_frame ?s s'" "mb_receivers x s' = tl (mb_receivers x ?s)"
    "\<And>k. is_wait k \<and> k \<noteq> WaitQ (OMailBox x) \<Longrightarrow> lists s' k = lists ?s k"
    "\<And>u. stat_of s' u = 2 \<longleftrightarrow> stat_of ?s u = 2 \<and> u \<notin> set (take 1 (mb_receivers x ?s))" by auto
  have "mb_send_try x v time s = Some (Done RT_EOK, s')"
    using room m(1) s'(1) unfolding mb_send_try_def Let_def by simp
  moreover have "mb_ok x ?s" "mails x ?s = mails x s @ [v]" using ok m(2,3) by (simp_all add: mb_ok_def)
  ultimately show ?thesis
    using s'(2,4-6) mb_ok_frame(1,2)[OF wait_frameD(1)[OF s'(3)], of x] by (intro exI[of _ s']) simp
qed

lemma recv_mail:
  assumes inv: "kinv s" and ok: "mb_ok x s" and c: "mails x s = v # vs"
  shows "\<exists>s'. mb_recv_try x time s = Some (Done (RT_EOK, Some v), s') \<and> kinv s' \<and> mb_ok x s' \<and> mails x s' = vs \<and>
    mb_senders x s' = tl (mb_senders x s) \<and> mb_receivers x s' = mb_receivers x s \<and>
    (\<forall>u. stat_of s' u = RT_THREAD_SUSPEND \<longleftrightarrow>
       stat_of s u = RT_THREAD_SUSPEND \<and> u \<notin> set (take 1 (mb_senders x s)))"
proof -
  have i: "mb_inv (mailboxes s x)" using ok by (simp add: mb_ok_def)
  from mb_get_mail[OF i c] obtain m where m: "mb_get (mailboxes s x) = Some (v, m)"
    "mb_inv m" "mb_contents m = vs" by auto
  have ne: "mb_entry (mailboxes s x) \<noteq> 0" using mails_empty[of s x] c by simp
  let ?s = "mb_upd x (\<lambda>_. m) s"
  have k: "kinv ?s" using inv by simp
  from wake_if_any[OF k, of "SenderQ x" "Done (RT_EOK, Some v)"] obtain s' where s':
    "(if \<not> rt_list_isempty (SenderQ x) ?s
       then do { s2 \<leftarrow> rt_ipc_list_resume (SenderQ x) ?s; s3 \<leftarrow> rt_schedule s2; Some (Done (RT_EOK, Some v), s3) }
       else Some (Done (RT_EOK, Some v), ?s)) = Some (Done (RT_EOK, Some v), s')"
    "kinv s'" "wait_frame ?s s'" "mb_senders x s' = tl (mb_senders x ?s)"
    "\<And>k. is_wait k \<and> k \<noteq> SenderQ x \<Longrightarrow> lists s' k = lists ?s k"
    "\<And>u. stat_of s' u = 2 \<longleftrightarrow> stat_of ?s u = 2 \<and> u \<notin> set (take 1 (mb_senders x ?s))" by auto
  have "mb_recv_try x time s = Some (Done (RT_EOK, Some v), s')"
    using ne m(1) s'(1) unfolding mb_recv_try_def Let_def by simp
  moreover have "mb_ok x ?s" "mails x ?s = vs" using ok m(2,3) by (simp_all add: mb_ok_def)
  ultimately show ?thesis
    using s'(2,4-6) mb_ok_frame(1,2)[OF wait_frameD(1)[OF s'(3)], of x] by (intro exI[of _ s']) simp
qed

lemma send_full:
  assumes inv: "kinv s" and full: "mb_entry (mailboxes s x) = mb_size (mailboxes s x)"
    and t: "time \<noteq> 0" "running s t" "wait_args (OMailBox x) time s"
  shows "\<exists>s'. mb_send_try x v time s = Some (Blocked, s') \<and>
    blocked_in (SenderQ x) t (flag_of (OMailBox x) s) time (set_error t RT_EOK s) s'"
proof -
  let ?s = "set_error t RT_EOK s"
  have r: "running ?s t" using t(2) by simp
  from block_thread_running[of ?s t "SenderQ x" "OMailBox x" time] inv t(2,3) obtain s' where
    "block_thread (SenderQ x) t (flag_of (OMailBox x) s) time ?s = Some s'"
    "blocked_in (SenderQ x) t (flag_of (OMailBox x) s) time ?s s'" by auto
  with full t(1) running_checks[OF t(2)] running_checks[OF r] show ?thesis by (simp add: mb_send_try_def)
qed

lemma recv_empty:
  assumes inv: "kinv s" and e: "mb_entry (mailboxes s x) = 0"
    and t: "time \<noteq> 0" "running s t" "wait_args (OMailBox x) time s"
  shows "\<exists>s'. mb_recv_try x time s = Some (Blocked, s') \<and>
    blocked_in (WaitQ (OMailBox x)) t (flag_of (OMailBox x) s) time (set_error t RT_EOK s) s'"
proof -
  let ?s = "set_error t RT_EOK s"
  have r: "running ?s t" using t(2) by simp
  from block_thread_running[of ?s t "WaitQ (OMailBox x)" "OMailBox x" time] inv t(2,3) obtain s' where
    "block_thread (WaitQ (OMailBox x)) t (flag_of (OMailBox x) s) time ?s = Some s'"
    "blocked_in (WaitQ (OMailBox x)) t (flag_of (OMailBox x) s) time ?s s'" by auto
  with e t(1) running_checks[OF t(2)] running_checks[OF r] show ?thesis by (simp add: mb_recv_try_def)
qed

definition sent_mails :: "rt_err outcome \<Rightarrow> u32 \<Rightarrow> u32 list" where
  "sent_mails r v = (if r = Done RT_EOK then [v] else [])"

fun received_mails :: "(rt_err \<times> u32 option) outcome \<Rightarrow> u32 list" where
  "received_mails (Done (e, Some v)) = [v]"
| "received_mails (Done (e, None)) = []"
| "received_mails Blocked = []"

lemma send_try_step:
  assumes inv: "kinv s" and ok: "mb_ok x s" and t: "running s t" "wait_args (OMailBox x) time s"
    and run: "mb_send_try x v time s = Some (r, s')"
  shows "kinv s' \<and> mb_ok x s' \<and> mails x s' = mails x s @ sent_mails r v"
proof (cases "mb_entry (mailboxes s x) = mb_size (mailboxes s x)")
  case False
  from send_room[OF inv ok False, of v time] run show ?thesis by (auto simp: sent_mails_def)
next
  case full: True
  show ?thesis
  proof (cases "time = 0")
    case True
    then have "r = Done (- RT_EFULL)" "s' = set_error t RT_EOK s"
      using run full running_checks[OF t(1)] by (simp_all add: mb_send_try_def)
    then show ?thesis using inv ok by (simp add: sent_mails_def)
  next
    case False
    from send_full[OF inv full False t, of v] run have r: "r = Blocked"
      "blocked_in (SenderQ x) t (flag_of (OMailBox x) s) time (set_error t RT_EOK s) s'" by auto
    note b = blocked_inD[OF r(2)]
    show ?thesis using b(1) r(1) ok mb_ok_frame(1,2)[OF b(2), of x] by (simp add: sent_mails_def)
  qed
qed

lemma recv_try_step:
  assumes inv: "kinv s" and ok: "mb_ok x s" and t: "running s t" "wait_args (OMailBox x) time s"
    and run: "mb_recv_try x time s = Some (r, s')"
  shows "kinv s' \<and> mb_ok x s' \<and> mails x s = received_mails r @ mails x s'"
proof (cases "mails x s")
  case (Cons v vs)
  from recv_mail[OF inv ok Cons, of time] run Cons show ?thesis by auto
next
  case Nil
  then have e: "mb_entry (mailboxes s x) = 0" by (simp add: mails_empty)
  show ?thesis
  proof (cases "time = 0")
    case True
    then have "r = Done (- RT_ETIMEOUT, None)" "s' = set_error t (- RT_ETIMEOUT) (set_error t RT_EOK s)"
      using run e running_checks[OF t(1)] by (simp_all add: mb_recv_try_def)
    then show ?thesis using inv ok by simp
  next
    case False
    from recv_empty[OF inv e False t] run have r: "r = Blocked"
      "blocked_in (WaitQ (OMailBox x)) t (flag_of (OMailBox x) s) time (set_error t RT_EOK s) s'" by auto
    note b = blocked_inD[OF r(2)]
    show ?thesis using b(1) r(1) ok mb_ok_frame(1,2)[OF b(2), of x] by simp
  qed
qed

lemma send_wait_step:
  assumes "kinv s" "mb_ok x s" "running s t" "wait_args (OMailBox x) time s"
    and "rt_mb_send_wait x v time s = Some (r, s')"
  shows "kinv s' \<and> mb_ok x s' \<and> mails x s' = mails x s @ sent_mails r v"
  using send_try_step[OF assms(1-4)] assms(1,2,5)
  by (auto simp: rt_mb_send_wait_def of_class_def mb_ok_def sent_mails_def split: if_splits)

lemma send_woken_step:
  assumes "kinv s" "mb_ok x s" "running s t" "wait_args (OMailBox x) (time_left time start (rt_tick_get s)) s"
    and "rt_mb_send_woken x v time start t s = Some (r, s')"
  shows "kinv s' \<and> mb_ok x s' \<and> mails x s' = mails x s @ sent_mails r v"
  using send_try_step[OF assms(1-4)] assms(1,2,5)
  by (auto simp: rt_mb_send_woken_def sent_mails_def split: if_splits)

lemma recv_step:
  assumes "kinv s" "mb_ok x s" "running s t" "wait_args (OMailBox x) time s"
    and "rt_mb_recv x time s = Some (r, s')"
  shows "kinv s' \<and> mb_ok x s' \<and> mails x s = received_mails r @ mails x s'"
  using recv_try_step[OF assms(1-4)] assms(1,2,5)
  by (auto simp: rt_mb_recv_def of_class_def mb_ok_def split: if_splits)

lemma recv_woken_step:
  assumes "kinv s" "mb_ok x s" "running s t" "wait_args (OMailBox x) (time_left time start (rt_tick_get s)) s"
    and "rt_mb_recv_woken x time start t s = Some (r, s')"
  shows "kinv s' \<and> mb_ok x s' \<and> mails x s = received_mails r @ mails x s'"
  using recv_try_step[OF assms(1-4)] assms(1,2,5)
  by (auto simp: rt_mb_recv_woken_def split: if_splits)

text \<open>A history of one mailbox: the mails whose send call returned \<open>RT_EOK\<close> and the mails that receive
  calls delivered, in order. Between the calls anything may happen that leaves the mailbox alone. A call
  that blocked continues with its \<open>_woken\<close> part when its thread runs again.\<close>

inductive mb_run :: "nat \<Rightarrow> kstate \<Rightarrow> u32 list \<Rightarrow> u32 list \<Rightarrow> kstate \<Rightarrow> bool" for x :: nat and s0 :: kstate where
  start: "mb_run x s0 [] [] s0"
| send: "\<lbrakk>mb_run x s0 i o' s; running s t; wait_args (OMailBox x) time s;
    rt_mb_send_wait x v time s = Some (r, s')\<rbrakk> \<Longrightarrow> mb_run x s0 (i @ sent_mails r v) o' s'"
| send_woken: "\<lbrakk>mb_run x s0 i o' s; running s t; wait_args (OMailBox x) (time_left time began (rt_tick_get s)) s;
    rt_mb_send_woken x v time began t s = Some (r, s')\<rbrakk> \<Longrightarrow> mb_run x s0 (i @ sent_mails r v) o' s'"
| recv: "\<lbrakk>mb_run x s0 i o' s; running s t; wait_args (OMailBox x) time s;
    rt_mb_recv x time s = Some (q, s')\<rbrakk> \<Longrightarrow> mb_run x s0 i (o' @ received_mails q) s'"
| recv_woken: "\<lbrakk>mb_run x s0 i o' s; running s t; wait_args (OMailBox x) (time_left time began (rt_tick_get s)) s;
    rt_mb_recv_woken x time began t s = Some (q, s')\<rbrakk> \<Longrightarrow> mb_run x s0 i (o' @ received_mails q) s'"
| other: "\<lbrakk>mb_run x s0 i o' s; kinv s'; mailboxes s' x = mailboxes s x;
    rt_object_get_type (OMailBox x) s' = rt_object_get_type (OMailBox x) s\<rbrakk> \<Longrightarrow> mb_run x s0 i o' s'"

lemma mb_run_fifo:
  assumes "mb_run x s0 i o' s" "kinv s0" "mb_ok x s0"
  shows "kinv s \<and> mb_ok x s \<and> mails x s0 @ i = o' @ mails x s"
  using assms
proof induction
  case (send i o' s t time v r s')
  then show ?case using send_wait_step[of s x t time v r s'] by simp
next
  case (send_woken i o' s t time began v r s')
  then show ?case using send_woken_step[of s x t time began v r s'] by simp
next
  case (recv i o' s t time q s')
  then show ?case using recv_step[of s x t time q s'] by simp
next
  case (recv_woken i o' s t time began q s')
  then show ?case using recv_woken_step[of s x t time began q s'] by simp
next
  case (other i o' s s')
  then show ?case by (simp add: mb_ok_def)
qed simp

section \<open>Properties\<close>

text \<open>Filling an empty mailbox with up to its capacity of mails and taking them out again yields the
  same mails in the same order, wherever the offsets of the circular buffer stand.\<close>

theorem mailbox_buffer_fifo:
  assumes "mb_inv m" and "mb_contents m = []" and "length vs \<le> unat (mb_size m)"
  shows "\<exists>m1 m2. enq_all mb_enq vs m = Some m1 \<and> deq_n mb_deq (length vs) m1 = Some (vs, m2) \<and>
    mb_inv m2 \<and> mb_contents m2 = []"
  using mbq.fifo[OF assms(1,2)] assms(3) by (simp add: mb_capacity_def)

theorem mailbox_buffer_fifo_witness:
  "\<exists>m1 m2. enq_all mb_enq [7, 8] \<lparr>mb_pool_addr = 0, mb_msg_pool = [0, 0], mb_size = 2, mb_entry = 0,
      mb_in_offset = 1, mb_out_offset = 1\<rparr> = Some m1 \<and> deq_n mb_deq (length [7 :: u32, 8]) m1 = Some ([7, 8], m2)"
proof -
  let ?m = "\<lparr>mb_pool_addr = 0, mb_msg_pool = [0, 0], mb_size = 2, mb_entry = 0, mb_in_offset = 1, mb_out_offset = 1\<rparr>"
  have "mb_inv ?m" "mb_contents ?m = []" "length [7 :: u32, 8] \<le> unat (mb_size ?m)"
    by (simp_all add: mb_inv_def mb_contents_def)
  then show ?thesis using mailbox_buffer_fifo[of ?m "[7, 8]"] by blast
qed

text \<open>\<open>rt_mb_send_wait\<close> on every branch: with room the mail goes to the end of the mailbox and the
  first waiting receiver is woken; a full mailbox is \<open>-RT_EFULL\<close> without a timeout and otherwise blocks
  the thread in the list of senders.\<close>

theorem mb_send_behaviour:
  assumes "kinv s" and "mb_ok x s" and "running s t" and "wait_args (OMailBox x) time s"
  shows "\<exists>r s'. rt_mb_send_wait x v time s = Some (r, s') \<and> kinv s' \<and> mb_ok x s' \<and>
    (if mb_entry (mailboxes s x) \<noteq> mb_size (mailboxes s x)
     then r = Done RT_EOK \<and> mails x s' = mails x s @ [v] \<and>
       lists s' (WaitQ (OMailBox x)) = tl (lists s (WaitQ (OMailBox x))) \<and>
       (\<forall>u. stat_of s' u = RT_THREAD_SUSPEND \<longleftrightarrow>
          stat_of s u = RT_THREAD_SUSPEND \<and> u \<notin> set (take 1 (lists s (WaitQ (OMailBox x)))))
     else if time = 0 then r = Done (- RT_EFULL) \<and> s' = s
     else r = Blocked \<and> blocked_in (SenderQ x) t (flag_of (OMailBox x) s) time (set_error t RT_EOK s) s')"
proof -
  have ty: "rt_object_get_type (OMailBox x) s = 5" using assms(2) by (simp add: mb_ok_def)
  consider "mb_entry (mailboxes s x) \<noteq> mb_size (mailboxes s x)"
    | "mb_entry (mailboxes s x) = mb_size (mailboxes s x)" "time = 0"
    | "mb_entry (mailboxes s x) = mb_size (mailboxes s x)" "time \<noteq> 0" by blast
  then show ?thesis
  proof cases
    case 1
    with send_room[OF assms(1,2) 1, of v time] ty show ?thesis
      by (auto simp: rt_mb_send_wait_def of_class_def)
  next
    case 2
    with ty assms(1,2) show ?thesis by (simp add: rt_mb_send_wait_def of_class_def)
  next
    case 3
    from send_full[OF assms(1) 3 assms(3,4), of v] obtain s' where s': "mb_send_try x v time s = Some (Blocked, s')"
      "blocked_in (SenderQ x) t (flag_of (OMailBox x) s) time (set_error t RT_EOK s) s'" by blast
    moreover have "rt_mb_send_wait x v time s = Some (Blocked, s')"
      using 3 ty s'(1) by (simp add: rt_mb_send_wait_def of_class_def)
    moreover have "mb_ok x s'" using mb_ok_frame(1)[OF blocked_inD(2)[OF s'(2)]] assms(2) by simp
    ultimately show ?thesis using 3 blocked_inD(1) by auto
  qed
qed

theorem mb_send_behaviour_witness:
  "\<exists>s'. rt_mb_send_wait 4 77 0 (sample_wait (WaitQ (OMailBox 4))) = Some (Done RT_EOK, s') \<and>
     mails 4 s' = [77] \<and> stat_of s' 2 \<noteq> RT_THREAD_SUSPEND"
proof -
  let ?s = "sample_wait (WaitQ (OMailBox 4))"
  have m: "mailboxes ?s 4 = \<lparr>mb_pool_addr = 0, mb_msg_pool = [0, 0], mb_size = 2, mb_entry = 0,
      mb_in_offset = 0, mb_out_offset = 0\<rparr>" "lists ?s (WaitQ (OMailBox 4)) = [2]"
    by (simp_all add: sample_wait_simps) (simp add: sample_def)
  have "kinv ?s" by (rule sample_wait_kinv) simp
  moreover have "mb_ok 4 ?s" using sample_type_ok(4) m by (simp add: mb_ok_def mb_inv_def)
  moreover have "running ?s 1" by (simp add: running_def sample_wait_simps sample_sleep_stat)
  moreover have "wait_args (OMailBox 4) 0 ?s" by (simp add: wait_args_def flag_of_def sample_wait_simps
        sample_sleep_def sample_def)
  ultimately show ?thesis using mb_send_behaviour[of ?s 4 1 0 77] m by (auto simp: mb_contents_def)
qed

text \<open>C3: no mail is lost, duplicated, invented or reordered: over every history of sends and receives,
  blocking calls and their wake-ups included, what was in the mailbox at first followed by all mails sent
  is what was received followed by what is in it now.\<close>

theorem mailbox_history_fifo:
  assumes "mb_run x s0 sent received s" and "kinv s0" and "mb_ok x s0"
  shows "mails x s0 @ sent = received @ mails x s"
  using mb_run_fifo[OF assms] by blast


theorem mailbox_history_fifo_witness:
  "\<exists>s. mb_run 4 sample [77] [77] s \<and> mails 4 sample @ [77] = [77] @ mails 4 s"
proof -
  have m: "mailboxes sample 4 = \<lparr>mb_pool_addr = 0, mb_msg_pool = [0, 0], mb_size = 2, mb_entry = 0,
      mb_in_offset = 0, mb_out_offset = 0\<rparr>" "rt_object_get_type (OMailBox 4) sample = 5"
    "mb_receivers 4 sample = []" "mb_senders 4 sample = []"
    by (simp_all add: sample_def rt_object_get_type_def sample_type_def)
  then have ok: "mb_ok 4 sample" and e: "mails 4 sample = []" by (simp_all add: mb_ok_def mb_inv_def mb_contents_def)
  have r: "running sample 1" "wait_args (OMailBox 4) 0 sample"
    by (simp_all add: running_def sample_simps sample_stat wait_args_def sample_type_ok)
  from send_room[OF sample_kinv ok, of 77 0] m e obtain s1 where s1: "mb_send_try 4 77 0 sample = Some (Done RT_EOK, s1)"
    "kinv s1" "mb_ok 4 s1" "mails 4 s1 = [77]" by auto
  have "\<not> (2 :: u16) \<le> 1" by (simp add: word_le_nat_alt)
  then have eq: "s1 = mb_upd 4 (\<lambda>m. m\<lparr>mb_msg_pool := [77, 0], mb_in_offset := 1, mb_entry := 1\<rparr>) sample"
    using s1(1) m(1,3) by (auto simp: mb_send_try_def mb_put_def put_byte_def rt_list_isempty_def Let_def mb_upd_def)
  have "rt_mb_send_wait 4 77 0 sample = Some (Done RT_EOK, s1)"
    using s1(1) m by (simp add: rt_mb_send_wait_def of_class_def)
  from mb_run.send[OF mb_run.start r this] have run1: "mb_run 4 sample [77] [] s1" by (simp add: sent_mails_def)
  from recv_mail[OF s1(2,3), of 77 "[]" 0] s1(4) obtain s2 where s2: "mb_recv_try 4 0 s1 = Some (Done (RT_EOK, Some 77), s2)"
    by auto
  have "rt_mb_recv 4 0 s1 = Some (Done (RT_EOK, Some 77), s2)"
    using s2 s1(3,4) mails_empty[of s1 4] by (simp add: rt_mb_recv_def of_class_def mb_ok_def)
  moreover have "running s1 1" "wait_args (OMailBox 4) 0 s1"
    using r unfolding eq by (simp_all add: running_def mb_upd_def stat_of_def wait_args_def flag_of_def)
  ultimately have "mb_run 4 sample [77] ([] @ received_mails (Done (RT_EOK, Some 77))) s2"
    using mb_run.recv[OF run1] by blast
  then have "mb_run 4 sample [77] [77] s2" by simp
  with mailbox_history_fifo[OF this sample_kinv ok] show ?thesis by blast
qed

end
