(* ===== verification/Dataqueue.thy ===== *)
theory Dataqueue
  imports Completion Ipc_mailbox
begin

text \<open>
  Data queues (\<open>components/drivers/src/dataqueue.c\<close>): a circular buffer of pointers with their sizes, with
  lists of threads waiting to push and to pop. The 16-bit positions count all pushes and pops; they are
  reduced modulo the size when the buffer is accessed, and compared as C compares them, in \<open>int\<close>.
  The event callback is application code, the parameter \<open>notify\<close>; 0 is \<open>RT_NULL\<close>. Blocking has the steps of
  \<open>block_thread\<close> for a FIFO list, and the blocking calls are split at \<open>rt_schedule\<close>. \<open>None\<close> is an access outside
  the buffer or a division by 0, besides the cases of the kernel.
\<close>

section \<open>Operations\<close>

abbreviation (input) EVENT_POP :: u32 where "EVENT_POP \<equiv> 1"
abbreviation (input) EVENT_PUSH :: u32 where "EVENT_PUSH \<equiv> 2"
abbreviation (input) EVENT_LWM :: u32 where "EVENT_LWM \<equiv> 3"

type_synonym dq_notify = "nat \<Rightarrow> nat \<Rightarrow> u32 \<Rightarrow> kstate \<Rightarrow> kstate option"

definition dq_upd :: "nat \<Rightarrow> (rt_data_queue \<Rightarrow> rt_data_queue) \<Rightarrow> kstate \<Rightarrow> kstate" where
  "dq_upd x f s = s\<lparr>dqueues := (dqueues s)(x := f (dqueues s x))\<rparr>"

definition rt_data_queue_init :: "nat \<Rightarrow> u16 \<Rightarrow> u16 \<Rightarrow> nat \<Rightarrow> kstate \<Rightarrow> (rt_err \<times> kstate) option" where
  "rt_data_queue_init x sz lwm evt_notify s = do {
     let s1 = dq_upd x (\<lambda>q. q\<lparr>dq_evt_notify := evt_notify, dq_size := sz, dq_lwm := lwm, dq_get_index := 0,
                              dq_put_index := 0\<rparr>) s;
     s2 \<leftarrow> rt_ipc_object_init (DriverQ (Suspended_push_list x)) s1;
     s3 \<leftarrow> rt_ipc_object_init (DriverQ (Suspended_pop_list x)) s2;
     (p, h) \<leftarrow> rt_malloc (interrupt_nest s3) (8 * ucast sz) (kheap s3);
     let items = map (\<lambda>i. (heap_word h (p + 8 * of_nat i), heap_word h (p + 8 * of_nat i + 4))) [0..<unat sz];
     let s4 = dq_upd x (\<lambda>q. q\<lparr>dq_addr := p, dq_queue := if p = 0 then [] else items\<rparr>) (s3\<lparr>kheap := h\<rparr>);
     Some (if p = 0 then - RT_ENOMEM else RT_EOK, s4) }"

definition dq_len :: "rt_data_queue \<Rightarrow> int" where
  "dq_len q = uint (dq_put_index q) - uint (dq_get_index q)"

definition dq_notified :: "dq_notify \<Rightarrow> nat \<Rightarrow> u32 \<Rightarrow> kstate \<Rightarrow> kstate option" where
  "dq_notified notify x event s =
     (if dq_evt_notify (dqueues s x) \<noteq> 0 then notify (dq_evt_notify (dqueues s x)) x event s else Some s)"

definition dq_slot :: "u16 \<Rightarrow> rt_data_queue \<Rightarrow> nat option" where
  "dq_slot i q = (if dq_size q = 0 \<or> length (dq_queue q) \<le> unat i mod unat (dq_size q) then None
                  else Some (unat i mod unat (dq_size q)))"

definition dq_put :: "u32 \<times> u32 \<Rightarrow> rt_data_queue \<Rightarrow> rt_data_queue option" where
  "dq_put item q = do {
     i \<leftarrow> dq_slot (dq_put_index q) q;
     Some (q\<lparr>dq_queue := (dq_queue q)[i := item], dq_put_index := dq_put_index q + 1\<rparr>) }"

definition dq_get :: "rt_data_queue \<Rightarrow> ((u32 \<times> u32) \<times> rt_data_queue) option" where
  "dq_get q = do {
     i \<leftarrow> dq_slot (dq_get_index q) q;
     Some (dq_queue q ! i, q\<lparr>dq_get_index := dq_get_index q + 1\<rparr>) }"

definition rt_data_queue_push ::
    "dq_notify \<Rightarrow> nat \<Rightarrow> u32 \<times> u32 \<Rightarrow> 32 word \<Rightarrow> kstate \<Rightarrow> (rt_err outcome \<times> kstate) option" where
  "rt_data_queue_push notify x item timeout s =
     (if dq_len (dqueues s x) = uint (dq_size (dqueues s x))
      then if timeout = 0 then Some (Done (- RT_ETIMEOUT), s)
      else do {
        RT_DEBUG_NOT_IN_INTERRUPT s;
        t \<leftarrow> rt_thread_self s;
        s1 \<leftarrow> block_thread (DriverQ (Suspended_push_list x)) t 0 timeout (set_error t RT_EOK s);
        Some (Blocked, s1) }
      else do {
        q \<leftarrow> dq_put item (dqueues s x);
        let s1 = dq_upd x (\<lambda>_. q) s;
        if \<not> rt_list_isempty (DriverQ (Suspended_pop_list x)) s1
        then do {
          s2 \<leftarrow> rt_ipc_list_resume (DriverQ (Suspended_pop_list x)) s1;
          s3 \<leftarrow> rt_schedule s2;
          Some (Done RT_EOK, s3) }
        else do {
          s2 \<leftarrow> dq_notified notify x EVENT_PUSH s1;
          Some (Done RT_EOK, s2) } })"

text \<open>A woken thread tests the queue again, with the same timeout.\<close>

definition rt_data_queue_push_woken ::
    "dq_notify \<Rightarrow> nat \<Rightarrow> u32 \<times> u32 \<Rightarrow> 32 word \<Rightarrow> nat \<Rightarrow> kstate \<Rightarrow> (rt_err outcome \<times> kstate) option" where
  "rt_data_queue_push_woken notify x item timeout t s =
     (if th_error (threads s t) \<noteq> RT_EOK then Some (Done (th_error (threads s t)), s)
      else rt_data_queue_push notify x item timeout s)"

definition rt_data_queue_pop ::
    "dq_notify \<Rightarrow> nat \<Rightarrow> 32 word \<Rightarrow> kstate \<Rightarrow> ((rt_err \<times> (u32 \<times> u32) option) outcome \<times> kstate) option" where
  "rt_data_queue_pop notify x timeout s =
     (if dq_get_index (dqueues s x) = dq_put_index (dqueues s x)
      then if timeout = 0 then Some (Done (- RT_ETIMEOUT, None), s)
      else do {
        RT_DEBUG_NOT_IN_INTERRUPT s;
        t \<leftarrow> rt_thread_self s;
        s1 \<leftarrow> block_thread (DriverQ (Suspended_pop_list x)) t 0 timeout (set_error t RT_EOK s);
        Some (Blocked, s1) }
      else do {
        (item, q) \<leftarrow> dq_get (dqueues s x);
        let s1 = dq_upd x (\<lambda>_. q) s;
        if dq_len q \<le> uint (dq_lwm q)
        then do {
          s3 \<leftarrow> (if \<not> rt_list_isempty (DriverQ (Suspended_push_list x)) s1
                 then do {
                   s2 \<leftarrow> rt_ipc_list_resume (DriverQ (Suspended_push_list x)) s1;
                   rt_schedule s2 }
                 else Some s1);
          s4 \<leftarrow> dq_notified notify x EVENT_LWM s3;
          Some (Done (RT_EOK, Some item), s4) }
        else do {
          s2 \<leftarrow> dq_notified notify x EVENT_POP s1;
          Some (Done (RT_EOK, Some item), s2) } })"

definition rt_data_queue_pop_woken ::
    "dq_notify \<Rightarrow> nat \<Rightarrow> 32 word \<Rightarrow> nat \<Rightarrow> kstate \<Rightarrow> ((rt_err \<times> (u32 \<times> u32) option) outcome \<times> kstate) option" where
  "rt_data_queue_pop_woken notify x timeout t s =
     (if th_error (threads s t) \<noteq> RT_EOK then Some (Done (th_error (threads s t), None), s)
      else rt_data_queue_pop notify x timeout s)"

definition rt_data_queue_peak :: "nat \<Rightarrow> kstate \<Rightarrow> (rt_err \<times> (u32 \<times> u32) option) option" where
  "rt_data_queue_peak x s =
     (if dq_get_index (dqueues s x) = dq_put_index (dqueues s x) then Some (- RT_EEMPTY, None)
      else do {
        i \<leftarrow> dq_slot (dq_get_index (dqueues s x)) (dqueues s x);
        Some (RT_EOK, Some (dq_queue (dqueues s x) ! i)) })"

text \<open>Both loops have the steps of \<open>rt_ipc_list_resume_all\<close>.\<close>

definition rt_data_queue_reset :: "nat \<Rightarrow> kstate \<Rightarrow> kstate option" where
  "rt_data_queue_reset x s = do {
     s1 \<leftarrow> rt_ipc_list_resume_all (DriverQ (Suspended_pop_list x)) (rt_enter_critical s);
     s2 \<leftarrow> rt_ipc_list_resume_all (DriverQ (Suspended_push_list x)) s1;
     s3 \<leftarrow> rt_exit_critical s2;
     rt_schedule s3 }"

section \<open>Contents\<close>

text \<open>As long as the push counter has not wrapped, the queue holds the items between the two counters.\<close>

definition dq_ok :: "rt_data_queue \<Rightarrow> bool" where
  "dq_ok q \<longleftrightarrow> 0 < dq_size q \<and> length (dq_queue q) = unat (dq_size q) \<and> dq_get_index q \<le> dq_put_index q \<and>
     unat (dq_put_index q) - unat (dq_get_index q) \<le> unat (dq_size q)"

definition dq_contents :: "rt_data_queue \<Rightarrow> (u32 \<times> u32) list" where
  "dq_contents q = map (\<lambda>i. dq_queue q ! (i mod unat (dq_size q))) [unat (dq_get_index q)..<unat (dq_put_index q)]"

lemma dq_okD:
  assumes "dq_ok q"
  shows "0 < unat (dq_size q)" "length (dq_queue q) = unat (dq_size q)" "unat (dq_get_index q) \<le> unat (dq_put_index q)"
    "dq_size q \<noteq> 0" "dq_slot i q = Some (unat i mod unat (dq_size q))"
    "length (dq_contents q) = unat (dq_put_index q) - unat (dq_get_index q)" "length (dq_contents q) \<le> unat (dq_size q)"
proof -
  show z: "0 < unat (dq_size q)" "dq_size q \<noteq> 0" using assms by (auto simp: dq_ok_def unat_gt_0)
  show l: "length (dq_queue q) = unat (dq_size q)" using assms by (simp add: dq_ok_def)
  show "unat (dq_get_index q) \<le> unat (dq_put_index q)" using assms by (simp add: dq_ok_def word_le_nat_alt)
  have "unat i mod unat (dq_size q) < unat (dq_size q)" by (rule mod_less_divisor[OF z(1)])
  then have "\<not> length (dq_queue q) \<le> unat i mod unat (dq_size q)" unfolding l by simp
  then show "dq_slot i q = Some (unat i mod unat (dq_size q))" using z(2) unfolding dq_slot_def by simp
  show "length (dq_contents q) = unat (dq_put_index q) - unat (dq_get_index q)" by (simp add: dq_contents_def)
  then show "length (dq_contents q) \<le> unat (dq_size q)" using assms by (simp add: dq_ok_def)
qed

lemma dq_full_iff:
  assumes "dq_ok q"
  shows "dq_len q = uint (dq_size q) \<longleftrightarrow> length (dq_contents q) = unat (dq_size q)"
  using dq_okD(3,6)[OF assms] unfolding dq_len_def uint_nat by linarith

lemma mod_apart:
  fixes i p n :: nat
  assumes "i < p" "p - i < n"
  shows "i mod n \<noteq> p mod n"
proof
  assume "i mod n = p mod n"
  then have "n dvd p - i" using assms(1) mod_eq_dvd_iff_nat[of i p n] by simp
  then show False using assms by (auto dest: dvd_imp_le)
qed

lemma dq_put_ok:
  assumes ok: "dq_ok q" and room: "length (dq_contents q) < unat (dq_size q)" and small: "unat (dq_put_index q) < 65535"
  shows "\<exists>q'. dq_put item q = Some q' \<and> dq_ok q' \<and> dq_contents q' = dq_contents q @ [item] \<and>
    unat (dq_put_index q') = unat (dq_put_index q) + 1 \<and> dq_get_index q' = dq_get_index q"
proof -
  note d = dq_okD[OF ok]
  let ?n = "unat (dq_size q)" and ?p = "unat (dq_put_index q)" and ?g = "unat (dq_get_index q)"
  define q' where "q' = q\<lparr>dq_queue := (dq_queue q)[?p mod ?n := item], dq_put_index := dq_put_index q + 1\<rparr>"
  have p: "unat (dq_put_index q + 1) = ?p + 1" using small by (simp add: unat_word_ariths)
  have run: "dq_put item q = Some q'" using d(5) by (simp add: dq_put_def q'_def)
  have f: "dq_size q' = dq_size q" "dq_get_index q' = dq_get_index q" "dq_put_index q' = dq_put_index q + 1"
    "dq_queue q' = (dq_queue q)[?p mod ?n := item]" by (simp_all add: q'_def)
  have old: "dq_queue q' ! (i mod ?n) = dq_queue q ! (i mod ?n)" if "i \<in> set [?g..<?p]" for i
  proof -
    have "i mod ?n \<noteq> ?p mod ?n" using that room d(6) by (intro mod_apart) auto
    then show ?thesis by (simp add: f(4))
  qed
  have "dq_contents q' = map (\<lambda>i. dq_queue q' ! (i mod ?n)) [?g..<?p] @ [dq_queue q' ! (?p mod ?n)]"
    using d(3) p by (simp add: dq_contents_def f(1-3))
  also have "dq_queue q' ! (?p mod ?n) = item" using d(1,2) by (simp add: f(4))
  also have "map (\<lambda>i. dq_queue q' ! (i mod ?n)) [?g..<?p] = dq_contents q"
    unfolding dq_contents_def by (rule map_cong[OF refl old])
  finally have "dq_contents q' = dq_contents q @ [item]" .
  moreover have "dq_ok q'" using ok room d(3,6) p by (simp add: dq_ok_def f word_le_nat_alt)
  ultimately show ?thesis using run p f(2,3) by simp
qed

lemma dq_get_ok:
  assumes ok: "dq_ok q" and c: "dq_contents q = v # vs"
  shows "\<exists>q'. dq_get q = Some (v, q') \<and> dq_ok q' \<and> dq_contents q' = vs \<and> dq_put_index q' = dq_put_index q \<and> dq_size q' = dq_size q"
proof -
  note d = dq_okD[OF ok]
  let ?n = "unat (dq_size q)" and ?p = "unat (dq_put_index q)" and ?g = "unat (dq_get_index q)"
  have lt: "?g < ?p" using c d(3,6) by simp
  define q' where "q' = q\<lparr>dq_get_index := dq_get_index q + 1\<rparr>"
  have g: "unat (dq_get_index q + 1) = ?g + 1"
  proof -
    have "?p < 2 ^ LENGTH(16)" by (rule unsigned_less)
    then show ?thesis using lt by (simp add: unat_word_ariths)
  qed
  have split: "dq_contents q = dq_queue q ! (?g mod ?n) # map (\<lambda>i. dq_queue q ! (i mod ?n)) [?g + 1..<?p]"
    using lt by (simp add: dq_contents_def upt_conv_Cons)
  then have "dq_get q = Some (v, q')" using c d(5) by (simp add: dq_get_def q'_def)
  moreover have "dq_contents q' = vs" using split c g by (simp add: dq_contents_def q'_def)
  moreover have "dq_ok q'" using ok lt g by (simp add: dq_ok_def q'_def word_le_nat_alt, linarith)
  ultimately show ?thesis by (auto simp: q'_def)
qed

lemma dq_empty_iff:
  assumes "dq_ok q"
  shows "dq_get_index q = dq_put_index q \<longleftrightarrow> dq_contents q = []"
  using dq_okD(3,6)[OF assms] by (auto simp: word_unat_eq_iff dq_contents_def)

section \<open>Histories\<close>

text \<open>What is needed of the callback: it keeps the kernel's invariant and leaves the queue alone.\<close>

definition notify_ok :: "dq_notify \<Rightarrow> nat \<Rightarrow> bool" where
  "notify_ok notify x \<longleftrightarrow>
     (\<forall>f e s s'. kinv s \<longrightarrow> notify f x e s = Some s' \<longrightarrow> kinv s' \<and> dqueues s' x = dqueues s x)"

lemma dq_upd_simps [simp]:
  "dqueues (dq_upd x f s) = (dqueues s)(x := f (dqueues s x))" "lists (dq_upd x f s) = lists s"
  "threads (dq_upd x f s) = threads s" "stat_of (dq_upd x f s) t = stat_of s t" "kinv (dq_upd x f s) = kinv s"
proof -
  show "kinv (dq_upd x f s) = kinv s" by (rule same_core_kinv) (simp add: same_core_def dq_upd_def)
qed (simp_all add: dq_upd_def stat_of_def)

lemma notified_ok:
  assumes "notify_ok notify x" "kinv s" "dq_notified notify x e s = Some s'"
  shows "kinv s'" "dqueues s' x = dqueues s x"
  using assms by (auto simp: dq_notified_def notify_ok_def split: if_splits)

lemma block_queue:
  assumes inv: "kinv s" and t: "running s t" and time: "0 < sint time \<longrightarrow> time \<noteq> 0x7fffffff"
  shows "\<exists>s'. block_thread (DriverQ l) t 0 time (set_error t RT_EOK s) = Some s' \<and> kinv s' \<and> dqueues s' = dqueues s"
proof -
  let ?s = "set_error t RT_EOK s"
  have r: "kinv ?s" "cur ?s = Some t" "stat_of ?s t = RT_THREAD_RUNNING"
    using inv t running_error[of t RT_EOK s t] by (simp_all add: running_def)
  from block_thread_ok[OF r, of "DriverQ l" 0 time] time obtain s' where
    "block_thread (DriverQ l) t 0 time ?s = Some s'" "blocked_in (DriverQ l) t 0 time ?s s'" by auto
  then show ?thesis using blocked_inD(1)[of "DriverQ l" t 0 time ?s s'] core_frame_driver(2)[of ?s s']
      blocked_inD(2)[of "DriverQ l" t 0 time ?s s'] by (simp add: set_error_def thr_upd_def)
qed

text \<open>Waking the first thread of a list of a queue.\<close>

lemma wake_queue:
  assumes "kinv s" "lists s (DriverQ l) \<noteq> []"
  shows "\<exists>s2 s3. rt_ipc_list_resume (DriverQ l) s = Some s2 \<and> rt_schedule s2 = Some s3 \<and> kinv s3 \<and> dqueues s3 = dqueues s"
proof -
  obtain t ts where c: "lists s (DriverQ l) = t # ts" using assms(2) by (cases "lists s (DriverQ l)") auto
  have w: "is_wait (DriverQ l)" by simp
  from wl.wake_sched[OF assms(1) w c] obtain s2 s3 where
    "rt_ipc_list_resume (DriverQ l) s = Some s2" "rt_schedule s2 = Some s3" "kinv s3" "wait_frame s s3" by blast
  then show ?thesis using core_frame_driver(2)[OF wait_frameD(1)] by blast
qed

definition pushed :: "rt_err outcome \<Rightarrow> 'a \<Rightarrow> 'a list" where
  "pushed r v = (if r = Done RT_EOK then [v] else [])"

definition popped :: "(rt_err \<times> 'a option) outcome \<Rightarrow> 'a list" where
  "popped r = (case r of Done (e, Some v) \<Rightarrow> [v] | _ \<Rightarrow> [])"

lemma push_step:
  assumes inv: "kinv s" and ok: "dq_ok (dqueues s x)" and n: "notify_ok notify x"
    and t: "running s t" "0 < sint time \<longrightarrow> time \<noteq> 0x7fffffff" and small: "pushed r item \<noteq> [] \<Longrightarrow> unat (dq_put_index (dqueues s x)) < 65535"
    and run: "rt_data_queue_push notify x item time s = Some (r, s')"
  shows "kinv s' \<and> dq_ok (dqueues s' x) \<and> dq_contents (dqueues s' x) = dq_contents (dqueues s x) @ pushed r item \<and>
    unat (dq_put_index (dqueues s' x)) = unat (dq_put_index (dqueues s x)) + length (pushed r item)"
proof (cases "dq_len (dqueues s x) = uint (dq_size (dqueues s x))")
  case True
  show ?thesis
  proof (cases "time = 0")
    case z: True
    then show ?thesis using run True inv ok by (auto simp: rt_data_queue_push_def pushed_def)
  next
    case False
    from block_queue[OF inv t, of "Suspended_push_list x"] obtain s1 where
      "block_thread (DriverQ (Suspended_push_list x)) t 0 time (set_error t RT_EOK s) = Some s1" "kinv s1" "dqueues s1 = dqueues s"
      by blast
    then show ?thesis using run True False t(1) ok
      by (simp add: rt_data_queue_push_def RT_DEBUG_NOT_IN_INTERRUPT_def rt_thread_self_def running_def pushed_def)
  qed
next
  case False
  have room: "length (dq_contents (dqueues s x)) < unat (dq_size (dqueues s x))"
    using False dq_full_iff[OF ok] dq_okD(7)[OF ok] by simp
  have "r = Done RT_EOK" using run False by (auto simp: rt_data_queue_push_def Let_def bind_eq_Some_conv split: if_splits)
  then have "unat (dq_put_index (dqueues s x)) < 65535" using small by (simp add: pushed_def)
  from dq_put_ok[OF ok room this, of item] obtain q where q: "dq_put item (dqueues s x) = Some q" "dq_ok q"
    "dq_contents q = dq_contents (dqueues s x) @ [item]" "unat (dq_put_index q) = unat (dq_put_index (dqueues s x)) + 1" by blast
  let ?s = "dq_upd x (\<lambda>_. q) s" and ?h = "DriverQ (Suspended_pop_list x)"
  have k: "kinv ?s" using inv by simp
  have "r = Done RT_EOK \<and> kinv s' \<and> dqueues s' x = q"
  proof (cases "lists s ?h = []")
    case True
    then obtain s2 where "dq_notified notify x EVENT_PUSH ?s = Some s2" "r = Done RT_EOK" "s' = s2"
      using run False q(1) by (auto simp: rt_data_queue_push_def rt_list_isempty_def Let_def bind_eq_Some_conv)
    then show ?thesis using notified_ok[OF n k] by simp
  next
    case ne: False
    from wake_queue[OF k, of "Suspended_pop_list x"] ne obtain s2 s3 where
      "rt_ipc_list_resume ?h ?s = Some s2" "rt_schedule s2 = Some s3" "kinv s3" "dqueues s3 = dqueues ?s" by auto
    then show ?thesis using run False q(1) ne by (simp add: rt_data_queue_push_def rt_list_isempty_def Let_def)
  qed
  with q(2-4) show ?thesis by (simp add: pushed_def)
qed

lemma pop_step:
  assumes inv: "kinv s" and ok: "dq_ok (dqueues s x)" and n: "notify_ok notify x"
    and t: "running s t" "0 < sint time \<longrightarrow> time \<noteq> 0x7fffffff"
    and run: "rt_data_queue_pop notify x time s = Some (r, s')"
  shows "kinv s' \<and> dq_ok (dqueues s' x) \<and> dq_contents (dqueues s x) = popped r @ dq_contents (dqueues s' x) \<and>
    dq_put_index (dqueues s' x) = dq_put_index (dqueues s x)"
proof (cases "dq_contents (dqueues s x)")
  case Nil
  then have e: "dq_get_index (dqueues s x) = dq_put_index (dqueues s x)" using dq_empty_iff[OF ok] by simp
  show ?thesis
  proof (cases "time = 0")
    case z: True
    then show ?thesis using run e inv ok by (auto simp: rt_data_queue_pop_def popped_def)
  next
    case False
    from block_queue[OF inv t, of "Suspended_pop_list x"] obtain s1 where
      "block_thread (DriverQ (Suspended_pop_list x)) t 0 time (set_error t RT_EOK s) = Some s1" "kinv s1" "dqueues s1 = dqueues s"
      by blast
    then show ?thesis using run e False t(1) ok
      by (simp add: rt_data_queue_pop_def RT_DEBUG_NOT_IN_INTERRUPT_def rt_thread_self_def running_def popped_def)
  qed
next
  case (Cons v vs)
  then have ne: "dq_get_index (dqueues s x) \<noteq> dq_put_index (dqueues s x)" using dq_empty_iff[OF ok] by simp
  from dq_get_ok[OF ok Cons] obtain q where q: "dq_get (dqueues s x) = Some (v, q)" "dq_ok q" "dq_contents q = vs"
    "dq_put_index q = dq_put_index (dqueues s x)" by blast
  let ?s = "dq_upd x (\<lambda>_. q) s" and ?h = "DriverQ (Suspended_push_list x)"
  have k: "kinv ?s" using inv by simp
  have "r = Done (RT_EOK, Some v) \<and> kinv s' \<and> dqueues s' x = q"
  proof (cases "dq_len q \<le> uint (dq_lwm q)")
    case True
    define woken where "woken = (if \<not> rt_list_isempty ?h ?s
                 then do { s2 \<leftarrow> rt_ipc_list_resume ?h ?s; rt_schedule s2 } else Some ?s)"
    have "\<exists>s3. woken = Some s3 \<and> kinv s3 \<and> dqueues s3 = dqueues ?s"
      using wake_queue[OF k, of "Suspended_push_list x"] k by (auto simp: woken_def rt_list_isempty_def)
    then obtain s3 where s3: "woken = Some s3" "kinv s3" "dqueues s3 = dqueues ?s" by blast
    obtain s4 where "dq_notified notify x EVENT_LWM s3 = Some s4" "r = Done (RT_EOK, Some v)" "s' = s4"
      using run ne q(1) True s3(1) unfolding woken_def by (auto simp: rt_data_queue_pop_def Let_def bind_eq_Some_conv split: if_splits)
    then show ?thesis using notified_ok[OF n s3(2)] s3(3) by simp
  next
    case False
    then obtain s2 where "dq_notified notify x EVENT_POP ?s = Some s2" "r = Done (RT_EOK, Some v)" "s' = s2"
      using run ne q(1) by (auto simp: rt_data_queue_pop_def Let_def bind_eq_Some_conv)
    then show ?thesis using notified_ok[OF n k] by simp
  qed
  with q(2-4) Cons show ?thesis by (simp add: popped_def)
qed

text \<open>A history of one queue: the items of the pushes that succeeded, and the items popped.\<close>

inductive dq_run :: "dq_notify \<Rightarrow> nat \<Rightarrow> kstate \<Rightarrow> (u32 \<times> u32) list \<Rightarrow> (u32 \<times> u32) list \<Rightarrow> kstate \<Rightarrow> bool"
  for notify x s0 where
  start: "dq_run notify x s0 [] [] s0"
| push: "\<lbrakk>dq_run notify x s0 i o' s; running s t; 0 < sint time \<longrightarrow> time \<noteq> 0x7fffffff;
    rt_data_queue_push notify x item time s = Some (r, s')\<rbrakk> \<Longrightarrow> dq_run notify x s0 (i @ pushed r item) o' s'"
| push_woken: "\<lbrakk>dq_run notify x s0 i o' s; running s t; 0 < sint time \<longrightarrow> time \<noteq> 0x7fffffff;
    rt_data_queue_push_woken notify x item time t s = Some (r, s')\<rbrakk> \<Longrightarrow> dq_run notify x s0 (i @ pushed r item) o' s'"
| pop: "\<lbrakk>dq_run notify x s0 i o' s; running s t; 0 < sint time \<longrightarrow> time \<noteq> 0x7fffffff;
    rt_data_queue_pop notify x time s = Some (p, s')\<rbrakk> \<Longrightarrow> dq_run notify x s0 i (o' @ popped p) s'"
| pop_woken: "\<lbrakk>dq_run notify x s0 i o' s; running s t; 0 < sint time \<longrightarrow> time \<noteq> 0x7fffffff;
    rt_data_queue_pop_woken notify x time t s = Some (p, s')\<rbrakk> \<Longrightarrow> dq_run notify x s0 i (o' @ popped p) s'"
| other: "\<lbrakk>dq_run notify x s0 i o' s; kinv s'; dqueues s' x = dqueues s x\<rbrakk> \<Longrightarrow> dq_run notify x s0 i o' s'"

lemma dq_run_fifo:
  assumes "dq_run notify x s0 i o' s" "kinv s0" "dq_ok (dqueues s0 x)" "dq_put_index (dqueues s0 x) = 0"
    "notify_ok notify x" "length i \<le> 65535"
  shows "kinv s \<and> dq_ok (dqueues s x) \<and> i = o' @ dq_contents (dqueues s x) \<and>
    unat (dq_put_index (dqueues s x)) = length i"
  using assms
proof induction
  case start
  then show ?case using dq_okD(3)[of "dqueues s0 x"] by (simp add: dq_contents_def)
next
  case (push i o' s t time item r s')
  then have ih: "kinv s" "dq_ok (dqueues s x)" "i = o' @ dq_contents (dqueues s x)" "unat (dq_put_index (dqueues s x)) = length i"
    by auto
  have "unat (dq_put_index (dqueues s x)) < 65535" if "pushed r item \<noteq> []"
    using that push.prems(5) ih(4) by (simp add: pushed_def split: if_splits)
  from push_step[OF ih(1,2) push.prems(4) push.hyps(2,3) this push.hyps(4)] ih(3,4) show ?case by auto
next
  case (push_woken i o' s t time item r s')
  then have ih: "kinv s" "dq_ok (dqueues s x)" "i = o' @ dq_contents (dqueues s x)" "unat (dq_put_index (dqueues s x)) = length i"
    by auto
  have small: "unat (dq_put_index (dqueues s x)) < 65535" if "pushed r item \<noteq> []"
    using that push_woken.prems(5) ih(4) by (simp add: pushed_def split: if_splits)
  show ?case
  proof (cases "th_error (threads s t) = RT_EOK")
    case True
    then have "rt_data_queue_push notify x item time s = Some (r, s')"
      using push_woken.hyps(4) by (simp add: rt_data_queue_push_woken_def)
    from push_step[OF ih(1,2) push_woken.prems(4) push_woken.hyps(2,3) small this] ih(3,4) show ?thesis by auto
  qed (use push_woken.hyps(4) ih in \<open>auto simp: rt_data_queue_push_woken_def pushed_def\<close>)
next
  case (pop i o' s t time p s')
  then have ih: "kinv s" "dq_ok (dqueues s x)" "i = o' @ dq_contents (dqueues s x)" "unat (dq_put_index (dqueues s x)) = length i"
    by auto
  from pop_step[OF ih(1,2) pop.prems(4) pop.hyps(2,3,4)] ih(3,4) show ?case by auto
next
  case (pop_woken i o' s t time p s')
  then have ih: "kinv s" "dq_ok (dqueues s x)" "i = o' @ dq_contents (dqueues s x)" "unat (dq_put_index (dqueues s x)) = length i"
    by auto
  show ?case
  proof (cases "th_error (threads s t) = RT_EOK")
    case True
    then have "rt_data_queue_pop notify x time s = Some (p, s')"
      using pop_woken.hyps(4) by (simp add: rt_data_queue_pop_woken_def)
    from pop_step[OF ih(1,2) pop_woken.prems(4) pop_woken.hyps(2,3) this] ih(3,4) show ?thesis by auto
  qed (use pop_woken.hyps(4) ih in \<open>auto simp: rt_data_queue_pop_woken_def popped_def\<close>)
qed auto

section \<open>Properties\<close>

text \<open>C12: data queues are bounded FIFO buffers, for their first 65535 pushes: over every history of pushes and pops of
  any threads, blocking ones included, the items popped are the items pushed, in order, and the rest is in
  the queue, never more than its size.\<close>

theorem data_queue_fifo:
  assumes "dq_run notify x s0 i o' s" and "kinv s0" and "dq_ok (dqueues s0 x)" and "dq_put_index (dqueues s0 x) = 0"
    and "notify_ok notify x" and "length i \<le> 65535"
  shows "i = o' @ dq_contents (dqueues s x) \<and> length i - length o' \<le> unat (dq_size (dqueues s x)) \<and>
    (dq_contents (dqueues s x) = [] \<longrightarrow> rt_data_queue_peak x s = Some (- RT_EEMPTY, None)) \<and>
    (\<forall>v vs. dq_contents (dqueues s x) = v # vs \<longrightarrow> rt_data_queue_peak x s = Some (RT_EOK, Some v))"
proof -
  from dq_run_fifo[OF assms] have f: "dq_ok (dqueues s x)" "i = o' @ dq_contents (dqueues s x)" by auto
  have "rt_data_queue_peak x s = Some (- RT_EEMPTY, None)" if "dq_contents (dqueues s x) = []"
    using that dq_empty_iff[OF f(1)] by (simp add: rt_data_queue_peak_def)
  moreover have "rt_data_queue_peak x s = Some (RT_EOK, Some v)" if c: "dq_contents (dqueues s x) = v # vs" for v vs
    using c dq_empty_iff[OF f(1)] dq_get_ok[OF f(1) c] by (auto simp: rt_data_queue_peak_def dq_get_def bind_eq_Some_conv)
  ultimately show ?thesis using f dq_okD(7)[OF f(1)] by auto
qed

definition no_notify :: dq_notify where
  "no_notify f x e s = Some s"

lemma no_notify_ok: "notify_ok no_notify x"
  by (simp add: notify_ok_def no_notify_def)

text \<open>The sample state with queue 4 in state \<open>q\<close>: nobody waits, and no callback is set.\<close>

definition dq_state :: "rt_data_queue \<Rightarrow> kstate" where
  "dq_state q = dq_upd 4 (\<lambda>_. q) sample"

lemma dq_state_simps [simp]:
  "dqueues (dq_state q) 4 = q" "lists (dq_state q) (DriverQ l) = []" "dq_upd 4 (\<lambda>_. q') (dq_state q) = dq_state q'"
  "running (dq_state q) 1" "dq_state (dqueues sample 4) = sample"
  by (simp_all add: dq_state_def dq_upd_def running_def stat_of_def sample_simps sample_thread_def)

lemma push_state:
  assumes "dq_run no_notify 4 sample i o' (dq_state q)" "dq_len q \<noteq> uint (dq_size q)" "dq_put v q = Some q'"
    and "dq_evt_notify q' = 0"
  shows "dq_run no_notify 4 sample (i @ [v]) o' (dq_state q')"
proof -
  have "rt_data_queue_push no_notify 4 v 0 (dq_state q) = Some (Done RT_EOK, dq_state q')"
    using assms(2-4) by (simp add: rt_data_queue_push_def rt_list_isempty_def dq_notified_def)
  from dq_run.push[OF assms(1) dq_state_simps(4) _ this] show ?thesis by (simp add: pushed_def)
qed

lemma pop_state:
  assumes "dq_run no_notify 4 sample i o' (dq_state q)" "dq_get_index q \<noteq> dq_put_index q" "dq_get q = Some (v, q')"
    and "dq_evt_notify q' = 0"
  shows "dq_run no_notify 4 sample i (o' @ [v]) (dq_state q')"
proof -
  have "rt_data_queue_pop no_notify 4 0 (dq_state q) = Some (Done (RT_EOK, Some v), dq_state q')"
    using assms(2-4) by (simp add: rt_data_queue_pop_def rt_list_isempty_def dq_notified_def Let_def)
  from dq_run.pop[OF assms(1) dq_state_simps(4) _ this] show ?thesis by (simp add: popped_def)
qed

abbreviation dq_at :: "u16 \<Rightarrow> u16 \<Rightarrow> (u32 \<times> u32) list \<Rightarrow> rt_data_queue" where
  "dq_at g p l \<equiv> \<lparr>dq_size = 2, dq_lwm = 1, dq_get_index = g, dq_put_index = p, dq_addr = 0, dq_queue = l, dq_evt_notify = 0\<rparr>"

lemma dq_start: "dq_run no_notify 4 sample [] [] (dq_state (dq_at 0 0 [(0, 0), (0, 0)]))"
proof -
  have "dqueues sample 4 = dq_at 0 0 [(0, 0), (0, 0)]" by (simp add: sample_def)
  then show ?thesis using dq_run.start[of no_notify 4 sample] dq_state_simps(5) by metis
qed

theorem data_queue_fifo_witness:
  "\<exists>s. dq_run no_notify 4 sample [(1, 2), (3, 4)] [(1, 2)] s \<and> rt_data_queue_peak 4 s = Some (RT_EOK, Some (3, 4))"
proof -
  have a: "dq_run no_notify 4 sample [(1, 2)] [] (dq_state (dq_at 0 1 [(1, 2), (0, 0)]))"
    using push_state[OF dq_start, of "(1, 2)"] by (simp add: dq_len_def dq_put_def dq_slot_def)
  have b: "dq_run no_notify 4 sample [(1, 2), (3, 4)] [] (dq_state (dq_at 0 2 [(1, 2), (3, 4)]))"
    using push_state[OF a, of "(3, 4)"] by (simp add: dq_len_def dq_put_def dq_slot_def)
  let ?s = "dq_state (dq_at 1 2 [(1, 2), (3, 4)])"
  have c: "dq_run no_notify 4 sample [(1, 2), (3, 4)] [(1, 2)] ?s"
    using pop_state[OF b, of "(1, 2)"] by (simp add: dq_get_def dq_slot_def)
  have "dq_ok (dqueues sample 4)" "dq_put_index (dqueues sample 4) = 0" by (simp_all add: dq_ok_def sample_def)
  from data_queue_fifo[OF c sample_kinv this no_notify_ok] have "dq_contents (dqueues ?s 4) = [(3, 4)] \<and>
    (\<forall>v vs. dq_contents (dqueues ?s 4) = v # vs \<longrightarrow> rt_data_queue_peak 4 ?s = Some (RT_EOK, Some v))" by simp
  then show ?thesis using c by blast
qed

lemma dq_rounds:
  assumes "k \<le> 65535"
  shows "\<exists>l. length l = 2 \<and> dq_run no_notify 4 sample (replicate k (0, 0)) (replicate k (0, 0)) (dq_state (dq_at (of_nat k) (of_nat k) l))"
  using assms
proof (induction k)
  case 0
  then show ?case using dq_start by (intro exI[of _ "[(0, 0), (0, 0)]"]) simp
next
  case (Suc k)
  then obtain l where l: "length l = 2" "dq_run no_notify 4 sample (replicate k (0, 0)) (replicate k (0, 0)) (dq_state (dq_at (of_nat k) (of_nat k) l))"
    by auto
  let ?i = "unat (of_nat k :: u16) mod 2" and ?z = "(0, 0) :: u32 \<times> u32"
  let ?l = "l[?i := ?z]" and ?p = "of_nat k + 1 :: u16"
  have lt: "?i < 2" by simp
  have ne: "(of_nat k :: u16) \<noteq> ?p" by simp
  have a: "dq_run no_notify 4 sample (replicate k ?z @ [?z]) (replicate k ?z) (dq_state (dq_at (of_nat k) ?p ?l))"
    using push_state[OF l(2), of ?z "dq_at (of_nat k) ?p ?l"] l(1) lt by (simp add: dq_len_def dq_put_def dq_slot_def not_le)
  have "dq_get (dq_at (of_nat k) ?p ?l) = Some (?z, dq_at ?p ?p ?l)"
    using l(1) lt by (simp add: dq_get_def dq_slot_def not_le)
  from pop_state[OF a _ this] ne have "dq_run no_notify 4 sample (replicate (Suc k) ?z) (replicate (Suc k) ?z) (dq_state (dq_at ?p ?p ?l))"
    by (simp add: replicate_append_same)
  then show ?case using l(1) by (intro exI[of _ ?l]) (simp add: add.commute)
qed

text \<open>C33: the 65536th push wraps the 16-bit counter, and the test for a full queue, made in \<open>int\<close>, fails from then on: on a
  queue of two places three pushes succeed, the third overwrites the first, and the pops deliver the last
  item twice and the first never.\<close>

theorem data_queue_wrap_loses_item:
  "\<exists>s. dq_run no_notify 4 sample (replicate 65535 (0, 0) @ [(1, 4), (2, 4), (3, 4)])
        (replicate 65535 (0, 0) @ [(3, 4), (2, 4), (3, 4)]) s"
proof -
  let ?z = "replicate 65535 (0, 0) :: (u32 \<times> u32) list"
  obtain l where l: "length l = 2" "dq_run no_notify 4 sample ?z ?z (dq_state (dq_at 65535 65535 l))"
    using dq_rounds[of 65535] by auto
  then obtain u v where l2: "l = [u, v]" by (cases l; cases "tl l") auto
  note run = l(2)[unfolded l2]
  have a: "dq_run no_notify 4 sample (?z @ [(1, 4)]) ?z (dq_state (dq_at 65535 0 [u, (1, 4)]))"
    by (rule push_state[OF run]) (simp_all add: dq_len_def dq_put_def dq_slot_def)
  have b: "dq_run no_notify 4 sample ((?z @ [(1, 4)]) @ [(2, 4)]) ?z (dq_state (dq_at 65535 1 [(2, 4), (1, 4)]))"
    by (rule push_state[OF a]) (simp_all add: dq_len_def dq_put_def dq_slot_def)
  have c: "dq_run no_notify 4 sample (((?z @ [(1, 4)]) @ [(2, 4)]) @ [(3, 4)]) ?z (dq_state (dq_at 65535 2 [(2, 4), (3, 4)]))"
    by (rule push_state[OF b]) (simp_all add: dq_len_def dq_put_def dq_slot_def)
  have d: "dq_run no_notify 4 sample (((?z @ [(1, 4)]) @ [(2, 4)]) @ [(3, 4)]) (?z @ [(3, 4)]) (dq_state (dq_at 0 2 [(2, 4), (3, 4)]))"
    by (rule pop_state[OF c]) (simp_all add: dq_get_def dq_slot_def)
  have e: "dq_run no_notify 4 sample (((?z @ [(1, 4)]) @ [(2, 4)]) @ [(3, 4)]) ((?z @ [(3, 4)]) @ [(2, 4)]) (dq_state (dq_at 1 2 [(2, 4), (3, 4)]))"
    by (rule pop_state[OF d]) (simp_all add: dq_get_def dq_slot_def)
  have "dq_run no_notify 4 sample (((?z @ [(1, 4)]) @ [(2, 4)]) @ [(3, 4)]) (((?z @ [(3, 4)]) @ [(2, 4)]) @ [(3, 4)]) (dq_state (dq_at 2 2 [(2, 4), (3, 4)]))"
    by (rule pop_state[OF e]) (simp_all add: dq_get_def dq_slot_def)
  then show ?thesis by auto
qed

end
