(* ===== verification/Serial.thy ===== *)
theory Serial
  imports Device Dataqueue
begin

text \<open>
  Serial devices (\<open>components/drivers/serial/serial.c\<close>, built with \<open>RT_SERIAL_USING_DMA\<close>, without the POSIX
  layer): a device in front of a port, with a receive FIFO that the interrupt fills. The functions of the
  port are the parameter \<open>uo\<close>, with the device as their first argument; \<open>cb\<close> are the callbacks, named by
  numbers, and \<open>notify\<close> the callbacks of data queues. The buffers of callers are in \<open>ram\<close>. A call that has
  to wait in \<open>rt_completion_wait\<close> or \<open>rt_data_queue_push\<close> is split there, as everywhere. A structure of
  another kind than the code takes it for is \<open>None\<close>.
\<close>

section \<open>Data\<close>

record rt_uart_ops =
  uo_configure :: "(nat \<Rightarrow> serial_configure \<Rightarrow> kstate \<Rightarrow> (rt_err \<times> kstate) option) option"
  uo_control :: "nat \<Rightarrow> nat \<Rightarrow> u32 \<Rightarrow> kstate \<Rightarrow> (rt_err \<times> kstate) option"
  uo_putc :: "nat \<Rightarrow> u8 \<Rightarrow> kstate \<Rightarrow> (int \<times> kstate) option"
  uo_getc :: "nat \<Rightarrow> kstate \<Rightarrow> (int \<times> kstate) option"
  uo_dma_transmit :: "(nat \<Rightarrow> u32 \<Rightarrow> u32 \<Rightarrow> nat \<Rightarrow> kstate \<Rightarrow> kstate option) option"

record serial_callbacks =
  cb_rx_indicate :: "nat \<Rightarrow> nat \<Rightarrow> u32 \<Rightarrow> kstate \<Rightarrow> kstate option"
  cb_tx_complete :: "nat \<Rightarrow> nat \<Rightarrow> u32 \<Rightarrow> kstate \<Rightarrow> kstate option"

abbreviation (input) FLAG_SUSPENDED :: u16 where "FLAG_SUSPENDED \<equiv> 0x020"
abbreviation (input) FLAG_STREAM :: u16 where "FLAG_STREAM \<equiv> 0x040"
abbreviation (input) FLAG_INT_RX :: u16 where "FLAG_INT_RX \<equiv> 0x100"
abbreviation (input) FLAG_DMA_RX :: u16 where "FLAG_DMA_RX \<equiv> 0x200"
abbreviation (input) FLAG_INT_TX :: u16 where "FLAG_INT_TX \<equiv> 0x400"
abbreviation (input) FLAG_DMA_TX :: u16 where "FLAG_DMA_TX \<equiv> 0x800"
abbreviation (input) CTRL_RESUME :: nat where "CTRL_RESUME \<equiv> 1"
abbreviation (input) CTRL_SUSPEND :: nat where "CTRL_SUSPEND \<equiv> 2"
abbreviation (input) CTRL_CONFIG :: nat where "CTRL_CONFIG \<equiv> 3"
abbreviation (input) CTRL_SET_INT :: nat where "CTRL_SET_INT \<equiv> 0x10"
abbreviation (input) CTRL_CLR_INT :: nat where "CTRL_CLR_INT \<equiv> 0x11"
abbreviation (input) RT_SERIAL_DMA_RX :: nat where "RT_SERIAL_DMA_RX \<equiv> 1"
abbreviation (input) RT_SERIAL_DMA_TX :: nat where "RT_SERIAL_DMA_TX \<equiv> 2"

definition ser_upd :: "nat \<Rightarrow> (rt_serial_device \<Rightarrow> rt_serial_device) \<Rightarrow> kstate \<Rightarrow> kstate" where
  "ser_upd d f s = s\<lparr>serials := (serials s)(d := f (serials s d))\<rparr>"

abbreviation bufsz :: "nat \<Rightarrow> kstate \<Rightarrow> u16" where
  "bufsz d s \<equiv> sc_bufsz (sr_config (serials s d))"

abbreviation open_flag :: "nat \<Rightarrow> kstate \<Rightarrow> u16" where
  "open_flag d s \<equiv> dv_open_flag (devices s d)"

abbreviation has_flag :: "u16 \<Rightarrow> u16 \<Rightarrow> bool" where
  "has_flag v f \<equiv> v AND f \<noteq> 0"

definition set_open_flag :: "nat \<Rightarrow> u16 \<Rightarrow> kstate \<Rightarrow> kstate" where
  "set_open_flag d f = dev_upd d (\<lambda>v. v\<lparr>dv_open_flag := dv_open_flag v OR f\<rparr>)"

definition clear_open_flag :: "nat \<Rightarrow> u16 \<Rightarrow> kstate \<Rightarrow> kstate" where
  "clear_open_flag d f = dev_upd d (\<lambda>v. v\<lparr>dv_open_flag := dv_open_flag v AND NOT f\<rparr>)"

text \<open>The FIFO of a device that receives by interrupt, or by DMA into a buffer.\<close>

definition rx_fifo_of :: "nat \<Rightarrow> kstate \<Rightarrow> (u32 \<times> rt_serial_rx_fifo) option" where
  "rx_fifo_of d s = (case sr_rx (serials s d) of Rx_fifo p q \<Rightarrow> Some (p, q) | _ \<Rightarrow> None)"

definition set_rx :: "nat \<Rightarrow> serial_rx \<Rightarrow> kstate \<Rightarrow> kstate" where
  "set_rx d r = ser_upd d (sr_rx_update (\<lambda>_. r))"

definition set_tx :: "nat \<Rightarrow> serial_tx \<Rightarrow> kstate \<Rightarrow> kstate" where
  "set_tx d r = ser_upd d (sr_tx_update (\<lambda>_. r))"

fun ram_load :: "u32 \<Rightarrow> nat \<Rightarrow> kstate \<Rightarrow> u8 list" where
  "ram_load a 0 s = []"
| "ram_load a (Suc n) s = ram s a # ram_load (a + 1) n s"

fun ram_store :: "u32 \<Rightarrow> u8 list \<Rightarrow> kstate \<Rightarrow> kstate" where
  "ram_store a [] s = s"
| "ram_store a (b # bs) s = ram_store (a + 1) bs (s\<lparr>ram := (ram s)(a := b)\<rparr>)"

section \<open>Polling\<close>

fun serial_poll_rx :: "rt_uart_ops \<Rightarrow> nat \<Rightarrow> nat \<Rightarrow> kstate \<Rightarrow> (u8 list \<times> kstate) option" where
  "serial_poll_rx uo d 0 s = Some ([], s)"
| "serial_poll_rx uo d (Suc n) s = do {
     (ch, s1) \<leftarrow> uo_getc uo d s;
     if ch = - 1 then Some ([], s1)
     else if ch = 10 then Some ([word_of_int ch], s1)
     else do {
       (bs, s2) \<leftarrow> serial_poll_rx uo d n s1;
       Some (word_of_int ch # bs, s2) } }"

fun serial_poll_tx :: "rt_uart_ops \<Rightarrow> nat \<Rightarrow> u8 list \<Rightarrow> kstate \<Rightarrow> kstate option" where
  "serial_poll_tx uo d [] s = Some s"
| "serial_poll_tx uo d (b # bs) s = do {
     s1 \<leftarrow> (if b = 10 \<and> has_flag (open_flag d s) FLAG_STREAM
            then map_option snd (uo_putc uo d 13 s) else Some s);
     (_, s2) \<leftarrow> uo_putc uo d b s1;
     serial_poll_tx uo d bs s2 }"

section \<open>The receive FIFO\<close>

definition rx_fifo_init :: "u16 \<Rightarrow> rt_serial_rx_fifo" where
  "rx_fifo_init n = \<lparr>rx_buffer = replicate (unat n) 0, rx_put_index = 0, rx_get_index = 0, rx_is_full = False\<rparr>"

definition rx_no_data :: "rt_serial_rx_fifo \<Rightarrow> bool" where
  "rx_no_data q \<longleftrightarrow> rx_get_index q = rx_put_index q \<and> \<not> rx_is_full q"

text \<open>The next index after \<open>i\<close>.\<close>

definition rx_next :: "u16 \<Rightarrow> u16 \<Rightarrow> u16" where
  "rx_next n i = (if i + 1 \<ge> n then 0 else i + 1)"

definition rx_fifo_get :: "u16 \<Rightarrow> rt_serial_rx_fifo \<Rightarrow> (u8 \<times> rt_serial_rx_fifo) option" where
  "rx_fifo_get n q =
     (if length (rx_buffer q) \<le> unat (rx_get_index q) then None
      else Some (rx_buffer q ! unat (rx_get_index q),
        q\<lparr>rx_get_index := rx_next n (rx_get_index q), rx_is_full := False\<rparr>))"

definition rx_fifo_put :: "u16 \<Rightarrow> u8 \<Rightarrow> rt_serial_rx_fifo \<Rightarrow> rt_serial_rx_fifo option" where
  "rx_fifo_put n ch q =
     (if length (rx_buffer q) \<le> unat (rx_put_index q) then None
      else do {
        let q1 = q\<lparr>rx_buffer := (rx_buffer q)[unat (rx_put_index q) := ch], rx_put_index := rx_next n (rx_put_index q)\<rparr>;
        Some (if rx_put_index q1 = rx_get_index q1
              then q1\<lparr>rx_get_index := rx_next n (rx_get_index q1), rx_is_full := True\<rparr> else q1) })"

text \<open>One pass of the loop of \<open>_serial_int_rx\<close>, a critical section: the byte read, if there is one.\<close>

definition serial_int_rx_pass :: "nat \<Rightarrow> kstate \<Rightarrow> (u8 option \<times> kstate) option" where
  "serial_int_rx_pass d s = do {
     (p, q) \<leftarrow> rx_fifo_of d s;
     if rx_no_data q then Some (None, s)
     else do {
       (ch, q1) \<leftarrow> rx_fifo_get (bufsz d s) q;
       Some (Some ch, set_rx d (Rx_fifo p q1) s) } }"

fun serial_int_rx :: "nat \<Rightarrow> nat \<Rightarrow> kstate \<Rightarrow> (u8 list \<times> kstate) option" where
  "serial_int_rx d 0 s = Some ([], s)"
| "serial_int_rx d (Suc n) s = do {
     (r, s1) \<leftarrow> serial_int_rx_pass d s;
     (case r of None \<Rightarrow> Some ([], s1)
      | Some ch \<Rightarrow> do { (bs, s2) \<leftarrow> serial_int_rx d n s1; Some (ch # bs, s2) }) }"

definition rx_fifo_len :: "u16 \<Rightarrow> rt_serial_rx_fifo \<Rightarrow> int" where
  "rx_fifo_len n q =
     (if rx_put_index q = rx_get_index q then (if \<not> rx_is_full q then 0 else uint n)
      else if rx_put_index q > rx_get_index q then uint (rx_put_index q) - uint (rx_get_index q)
      else uint n - (uint (rx_get_index q) - uint (rx_put_index q)))"

section \<open>Reception by DMA\<close>

text \<open>Indices are added in \<open>int\<close> and stored in 16 bits; \<open>len\<close> is a \<open>rt_size_t\<close>. The remainder is only taken of
  indices that have reached \<open>bufsz\<close>.\<close>

definition dma_update_get_index :: "u16 \<Rightarrow> u32 \<Rightarrow> rt_serial_rx_fifo \<Rightarrow> rt_serial_rx_fifo option" where
  "dma_update_get_index n len q = do {
     rt_assert (uint len \<le> rx_fifo_len n q);
     let g = rx_get_index q + ucast len;
     Some (q\<lparr>rx_is_full := rx_is_full q \<and> len = 0, rx_get_index := if g \<ge> n then g mod n else g\<rparr>) }"

definition dma_update_put_index :: "u16 \<Rightarrow> u32 \<Rightarrow> rt_serial_rx_fifo \<Rightarrow> rt_serial_rx_fifo" where
  "dma_update_put_index n len q =
     (let p = rx_put_index q + ucast len; g = rx_get_index q;
          q1 = (if g \<le> rx_put_index q
                then if p \<ge> n
                     then q\<lparr>rx_put_index := p mod n, rx_is_full := rx_is_full q \<or> p mod n \<ge> g\<rparr>
                     else q\<lparr>rx_put_index := p\<rparr>
                else if p \<ge> g
                then q\<lparr>rx_put_index := if p \<ge> n then p mod n else p, rx_is_full := True\<rparr>
                else q\<lparr>rx_put_index := p\<rparr>);
          q2 = (if rx_is_full q1 then q1\<lparr>rx_get_index := rx_put_index q1\<rparr> else q1)
      in if rx_get_index q2 \<ge> n then q2\<lparr>rx_get_index := 0\<rparr> else q2)"

text \<open>\<open>_serial_dma_rx\<close>: a transfer into the caller's memory when there is no buffer, otherwise a copy from the
  FIFO. The result is the number of bytes.\<close>

definition serial_dma_rx :: "rt_uart_ops \<Rightarrow> nat \<Rightarrow> u32 \<Rightarrow> u32 \<Rightarrow> kstate \<Rightarrow> (u32 \<times> kstate) option" where
  "serial_dma_rx uo d data len s = do {
     rt_assert (data \<noteq> 0);
     if bufsz d s = 0
     then (case sr_rx (serials s d) of
         Rx_dma p active \<Rightarrow>
           if active then Some (0, rt_set_errno (- RT_EBUSY) s)
           else do {
             transmit \<leftarrow> uo_dma_transmit uo;
             s1 \<leftarrow> transmit d data len RT_SERIAL_DMA_RX (set_rx d (Rx_dma p True) s);
             Some (len, s1) }
       | _ \<Rightarrow> None)
     else do {
       (p, q) \<leftarrow> rx_fifo_of d s;
       let n = bufsz d s;
       let have = rx_fifo_len n q;
       let recv_len = (if sint len < have then len else word_of_int have);
       let g = rx_get_index q;
       bs \<leftarrow> (if ucast g + recv_len < ucast n
              then memcpy (replicate (unat recv_len) 0) 0 (rx_buffer q) (uint g) (uint recv_len)
              else do {
                part \<leftarrow> memcpy (replicate (unat recv_len) 0) 0 (rx_buffer q) (uint g) (uint n - uint g);
                memcpy part (uint n - uint g) (rx_buffer q) 0 (uint recv_len + uint g - uint n) });
       q1 \<leftarrow> dma_update_get_index n recv_len q;
       Some (recv_len, ram_store data bs (set_rx d (Rx_fifo p q1) s)) } }"

section \<open>Transmission by interrupt and by DMA\<close>

text \<open>\<open>n\<close> bytes from address \<open>a\<close> on; what is still to be sent comes back with the result, for the rest of the
  call after a wait.\<close>

partial_function (option) serial_int_tx ::
    "rt_uart_ops \<Rightarrow> nat \<Rightarrow> u32 \<Rightarrow> nat \<Rightarrow> kstate \<Rightarrow> ((u32 \<times> nat \<times> unit outcome) \<times> kstate) option" where
  "serial_int_tx uo d a n s =
     (case sr_tx (serials s d) of
        Tx_fifo p \<Rightarrow>
          if n = 0 then Some ((a, 0, Done ()), s)
          else do {
            (r, s1) \<leftarrow> uo_putc uo d (ram s a) s;
            if r = - 1
            then do {
              (w, s2) \<leftarrow> rt_completion_wait (unat p) (- 1) s1;
              (case w of Done _ \<Rightarrow> serial_int_tx uo d a n s2 | Blocked \<Rightarrow> Some ((a, n, Blocked), s2)) }
            else serial_int_tx uo d (a + 1) (n - 1) s1 }
      | _ \<Rightarrow> None)"

definition serial_int_tx_woken ::
    "rt_uart_ops \<Rightarrow> nat \<Rightarrow> nat \<Rightarrow> u32 \<Rightarrow> nat \<Rightarrow> kstate \<Rightarrow> ((u32 \<times> nat \<times> unit outcome) \<times> kstate) option" where
  "serial_int_tx_woken uo d t a n s =
     (case sr_tx (serials s d) of
        Tx_fifo p \<Rightarrow> serial_int_tx uo d a n (snd (rt_completion_wait_woken (unat p) t s))
      | _ \<Rightarrow> None)"

text \<open>The address of the data queue in a \<open>struct rt_serial_tx_dma\<close>.\<close>

definition tx_queue :: "u32 \<Rightarrow> nat" where
  "tx_queue p = unat (p + 4)"

text \<open>\<open>_serial_dma_tx\<close> after \<open>rt_data_queue_push\<close> has returned \<open>r\<close>.\<close>

definition serial_dma_tx_pushed ::
    "rt_uart_ops \<Rightarrow> nat \<Rightarrow> u32 \<Rightarrow> u32 \<Rightarrow> rt_err outcome \<Rightarrow> kstate \<Rightarrow> (u32 outcome \<times> kstate) option" where
  "serial_dma_tx_pushed uo d data len r s =
     (case r of Blocked \<Rightarrow> Some (Blocked, s)
      | Done e \<Rightarrow>
        if e \<noteq> RT_EOK then Some (Done 0, rt_set_errno e s)
        else (case sr_tx (serials s d) of
            Tx_dma p active \<Rightarrow>
              if active then Some (Done len, s)
              else do {
                transmit \<leftarrow> uo_dma_transmit uo;
                s1 \<leftarrow> transmit d data len RT_SERIAL_DMA_TX (set_tx d (Tx_dma p True) s);
                Some (Done len, s1) }
          | _ \<Rightarrow> None))"

definition serial_dma_tx ::
    "rt_uart_ops \<Rightarrow> dq_notify \<Rightarrow> nat \<Rightarrow> u32 \<Rightarrow> u32 \<Rightarrow> kstate \<Rightarrow> (u32 outcome \<times> kstate) option" where
  "serial_dma_tx uo notify d data len s =
     (case sr_tx (serials s d) of
        Tx_dma p active \<Rightarrow> do {
          (r, s1) \<leftarrow> rt_data_queue_push notify (tx_queue p) (data, len) (- 1) s;
          serial_dma_tx_pushed uo d data len r s1 }
      | _ \<Rightarrow> None)"

definition serial_dma_tx_woken ::
    "rt_uart_ops \<Rightarrow> dq_notify \<Rightarrow> nat \<Rightarrow> nat \<Rightarrow> u32 \<Rightarrow> u32 \<Rightarrow> kstate \<Rightarrow> (u32 outcome \<times> kstate) option" where
  "serial_dma_tx_woken uo notify d t data len s =
     (case sr_tx (serials s d) of
        Tx_dma p active \<Rightarrow> do {
          (r, s1) \<leftarrow> rt_data_queue_push_woken notify (tx_queue p) (data, len) (- 1) t s;
          serial_dma_tx_pushed uo d data len r s1 }
      | _ \<Rightarrow> None)"

section \<open>The device interface\<close>

definition rt_serial_init :: "rt_uart_ops \<Rightarrow> nat \<Rightarrow> kstate \<Rightarrow> (rt_err \<times> kstate) option" where
  "rt_serial_init uo d s = do {
     let s1 = set_tx d No_tx (set_rx d No_rx s);
     (case uo_configure uo of None \<Rightarrow> Some (RT_EOK, s1)
      | Some configure \<Rightarrow> configure d (sr_config (serials s1 d)) s1) }"

text \<open>\<open>rt_malloc\<close> with the assertion that follows it.\<close>

definition serial_alloc :: "u32 \<Rightarrow> kstate \<Rightarrow> (u32 \<times> kstate) option" where
  "serial_alloc sz s = do {
     (p, h) \<leftarrow> rt_malloc (interrupt_nest s) sz (kheap s);
     rt_assert (p \<noteq> 0);
     Some (p, s\<lparr>kheap := h\<rparr>) }"

definition serial_free :: "u32 \<Rightarrow> kstate \<Rightarrow> kstate option" where
  "serial_free p s = map_option (\<lambda>h. s\<lparr>kheap := h\<rparr>) (rt_free (interrupt_nest s) p (kheap s))"

abbreviation (input) control_of :: "rt_uart_ops \<Rightarrow> nat \<Rightarrow> nat \<Rightarrow> u16 \<Rightarrow> kstate \<Rightarrow> kstate option" where
  "control_of uo d cmd arg s \<equiv> map_option snd (uo_control uo d cmd (ucast arg) s)"

text \<open>The two halves of \<open>rt_serial_open\<close> that set up the receiving and the sending side.\<close>

definition serial_open_rx :: "rt_uart_ops \<Rightarrow> nat \<Rightarrow> u16 \<Rightarrow> kstate \<Rightarrow> kstate option" where
  "serial_open_rx uo d oflag s =
     (if sr_rx (serials s d) = No_rx
      then if has_flag oflag FLAG_INT_RX
        then do {
          (p, s1) \<leftarrow> serial_alloc (12 + ucast (bufsz d s)) s;
          let s2 = set_open_flag d FLAG_INT_RX (set_rx d (Rx_fifo p (rx_fifo_init (bufsz d s))) s1);
          control_of uo d CTRL_SET_INT FLAG_INT_RX s2 }
        else if has_flag oflag FLAG_DMA_RX
        then if bufsz d s = 0
          then do {
            (p, s1) \<leftarrow> serial_alloc 4 s;
            Some (set_open_flag d FLAG_DMA_RX (set_rx d (Rx_dma p False) s1)) }
          else do {
            (p, s1) \<leftarrow> serial_alloc (12 + ucast (bufsz d s)) s;
            s2 \<leftarrow> control_of uo d CTRL_CONFIG FLAG_DMA_RX (set_rx d (Rx_fifo p (rx_fifo_init (bufsz d s))) s1);
            Some (set_open_flag d FLAG_DMA_RX s2) }
        else Some (set_rx d No_rx s)
      else Some (if has_flag oflag FLAG_INT_RX then set_open_flag d FLAG_INT_RX s
                 else if has_flag oflag FLAG_DMA_RX then set_open_flag d FLAG_DMA_RX s else s))"

definition serial_open_tx :: "rt_uart_ops \<Rightarrow> nat \<Rightarrow> u16 \<Rightarrow> kstate \<Rightarrow> kstate option" where
  "serial_open_tx uo d oflag s =
     (if sr_tx (serials s d) = No_tx
      then if has_flag oflag FLAG_INT_TX
        then do {
          (p, s1) \<leftarrow> serial_alloc 12 s;
          s2 \<leftarrow> rt_completion_init (unat p) s1;
          control_of uo d CTRL_SET_INT FLAG_INT_TX (set_open_flag d FLAG_INT_TX (set_tx d (Tx_fifo p) s2)) }
        else if has_flag oflag FLAG_DMA_TX
        then do {
          (p, s1) \<leftarrow> serial_alloc 40 s;
          (_, s2) \<leftarrow> rt_data_queue_init (tx_queue p) 8 4 0 s1;
          control_of uo d CTRL_CONFIG FLAG_DMA_TX (set_open_flag d FLAG_DMA_TX (set_tx d (Tx_dma p False) s2)) }
        else Some (set_tx d No_tx s)
      else Some (if has_flag oflag FLAG_INT_TX then set_open_flag d FLAG_INT_TX s
                 else if has_flag oflag FLAG_DMA_TX then set_open_flag d FLAG_DMA_TX s else s))"

definition rt_serial_open :: "rt_uart_ops \<Rightarrow> nat \<Rightarrow> u16 \<Rightarrow> kstate \<Rightarrow> (rt_err \<times> kstate) option" where
  "rt_serial_open uo d oflag s =
     (let flag = dv_flag (devices s d) in
      if has_flag oflag FLAG_DMA_RX \<and> \<not> has_flag flag FLAG_DMA_RX \<or> has_flag oflag FLAG_DMA_TX \<and> \<not> has_flag flag FLAG_DMA_TX \<or>
         has_flag oflag FLAG_INT_RX \<and> \<not> has_flag flag FLAG_INT_RX \<or> has_flag oflag FLAG_INT_TX \<and> \<not> has_flag flag FLAG_INT_TX
      then Some (- RT_EIO, s)
      else do {
        let stream = (if has_flag oflag FLAG_STREAM \<or> has_flag (open_flag d s) FLAG_STREAM then FLAG_STREAM else 0);
        let s1 = dev_upd d (\<lambda>v. v\<lparr>dv_open_flag := oflag AND 0xff\<rparr>) s;
        s2 \<leftarrow> serial_open_rx uo d oflag s1;
        s3 \<leftarrow> serial_open_tx uo d oflag s2;
        Some (RT_EOK, set_open_flag d stream s3) })"

text \<open>What \<open>rt_serial_close\<close> frees is the address alone, whatever the structure there is.\<close>

fun rx_addr :: "serial_rx \<Rightarrow> u32 option" where
  "rx_addr No_rx = None"
| "rx_addr (Rx_fifo p q) = Some p"
| "rx_addr (Rx_dma p active) = Some p"

fun tx_addr :: "serial_tx \<Rightarrow> u32 option" where
  "tx_addr No_tx = None"
| "tx_addr (Tx_fifo p) = Some p"
| "tx_addr (Tx_dma p active) = Some p"

definition serial_close_rx :: "rt_uart_ops \<Rightarrow> nat \<Rightarrow> kstate \<Rightarrow> kstate option" where
  "serial_close_rx uo d s =
     (if has_flag (open_flag d s) FLAG_INT_RX
      then do {
        p \<leftarrow> rx_addr (sr_rx (serials s d));
        s1 \<leftarrow> serial_free p s;
        control_of uo d CTRL_CLR_INT FLAG_INT_RX (clear_open_flag d FLAG_INT_RX (set_rx d No_rx s1)) }
      else if has_flag (open_flag d s) FLAG_DMA_RX
      then do {
        p \<leftarrow> rx_addr (sr_rx (serials s d));
        s1 \<leftarrow> serial_free p s;
        s2 \<leftarrow> control_of uo d CTRL_CLR_INT FLAG_DMA_RX s1;
        Some (clear_open_flag d FLAG_DMA_RX (set_rx d No_rx s2)) }
      else Some s)"

definition serial_close_tx :: "rt_uart_ops \<Rightarrow> nat \<Rightarrow> kstate \<Rightarrow> kstate option" where
  "serial_close_tx uo d s =
     (if has_flag (open_flag d s) FLAG_INT_TX
      then do {
        p \<leftarrow> tx_addr (sr_tx (serials s d));
        s1 \<leftarrow> serial_free p s;
        control_of uo d CTRL_CLR_INT FLAG_INT_TX (clear_open_flag d FLAG_INT_TX (set_tx d No_tx s1)) }
      else if has_flag (open_flag d s) FLAG_DMA_TX
      then do {
        p \<leftarrow> tx_addr (sr_tx (serials s d));
        s1 \<leftarrow> serial_free p s;
        Some (clear_open_flag d FLAG_DMA_TX (set_tx d No_tx s1)) }
      else Some s)"

definition rt_serial_close :: "rt_uart_ops \<Rightarrow> nat \<Rightarrow> kstate \<Rightarrow> (rt_err \<times> kstate) option" where
  "rt_serial_close uo d s =
     (if 1 < dv_ref_count (devices s d) then Some (RT_EOK, s)
      else do {
        s1 \<leftarrow> serial_close_rx uo d s;
        s2 \<leftarrow> serial_close_tx uo d s1;
        Some (RT_EOK, s2) })"

definition rt_serial_read :: "rt_uart_ops \<Rightarrow> nat \<Rightarrow> u32 \<Rightarrow> u32 \<Rightarrow> u32 \<Rightarrow> kstate \<Rightarrow> (u32 \<times> kstate) option" where
  "rt_serial_read uo d pos buffer sz s =
     (if sz = 0 then Some (0, s)
      else if has_flag (open_flag d s) FLAG_INT_RX
      then do {
        (bs, s1) \<leftarrow> serial_int_rx d (unat sz) s;
        Some (of_nat (length bs), ram_store buffer bs s1) }
      else if has_flag (open_flag d s) FLAG_DMA_RX then serial_dma_rx uo d buffer sz s
      else do {
        (bs, s1) \<leftarrow> serial_poll_rx uo d (unat sz) s;
        Some (of_nat (length bs), ram_store buffer bs s1) })"

definition rt_serial_write ::
    "rt_uart_ops \<Rightarrow> dq_notify \<Rightarrow> nat \<Rightarrow> u32 \<Rightarrow> u32 \<Rightarrow> u32 \<Rightarrow> kstate \<Rightarrow> (u32 outcome \<times> kstate) option" where
  "rt_serial_write uo notify d pos buffer sz s =
     (if sz = 0 then Some (Done 0, s)
      else if has_flag (open_flag d s) FLAG_INT_TX
      then do {
        ((a, n, r), s1) \<leftarrow> serial_int_tx uo d buffer (unat sz) s;
        Some (case r of Done _ \<Rightarrow> Done (sz - of_nat n) | Blocked \<Rightarrow> Blocked, s1) }
      else if has_flag (open_flag d s) FLAG_DMA_TX then serial_dma_tx uo notify d buffer sz s
      else do {
        s1 \<leftarrow> serial_poll_tx uo d (ram_load buffer (unat sz) s) s;
        Some (Done sz, s1) })"

text \<open>A \<open>struct serial_configure\<close> in memory: the rate, and a word of bit fields from the lowest bit on.\<close>

definition ram_word :: "u32 \<Rightarrow> kstate \<Rightarrow> u32" where
  "ram_word a s = ucast (ram s a) OR push_bit 8 (ucast (ram s (a + 1))) OR push_bit 16 (ucast (ram s (a + 2))) OR
     push_bit 24 (ucast (ram s (a + 3)))"

definition load_config :: "u32 \<Rightarrow> kstate \<Rightarrow> serial_configure" where
  "load_config a s = (let w = ram_word (a + 4) s in
     \<lparr>sc_baud_rate = ram_word a s, sc_data_bits = ucast w, sc_stop_bits = ucast (drop_bit 4 w),
      sc_parity = ucast (drop_bit 6 w), sc_bit_order = ucast (drop_bit 8 w), sc_invert = ucast (drop_bit 9 w),
      sc_bufsz = ucast (drop_bit 10 w), sc_reserved = ucast (drop_bit 26 w)\<rparr>)"

definition rt_serial_control :: "rt_uart_ops \<Rightarrow> nat \<Rightarrow> nat \<Rightarrow> u32 \<Rightarrow> kstate \<Rightarrow> (rt_err \<times> kstate) option" where
  "rt_serial_control uo d cmd args s =
     (if cmd = CTRL_SUSPEND then Some (RT_EOK, dev_upd d (\<lambda>v. v\<lparr>dv_flag := dv_flag v OR FLAG_SUSPENDED\<rparr>) s)
      else if cmd = CTRL_RESUME then Some (RT_EOK, dev_upd d (\<lambda>v. v\<lparr>dv_flag := dv_flag v AND NOT FLAG_SUSPENDED\<rparr>) s)
      else if cmd = CTRL_CONFIG
      then if args = 0 then Some (RT_EOK, s)
        else (let config = load_config args s in
          if sc_bufsz config \<noteq> bufsz d s \<and> dv_ref_count (devices s d) \<noteq> 0 then Some (RT_EBUSY, s)
          else (let s1 = ser_upd d (sr_config_update (\<lambda>_. config)) s in
            if dv_ref_count (devices s1 d) \<noteq> 0
            then do {
              configure \<leftarrow> uo_configure uo;
              (_, s2) \<leftarrow> configure d config s1;
              Some (RT_EOK, s2) }
            else Some (RT_EOK, s1)))
      else uo_control uo d cmd args s)"

definition serial_ops :: "rt_uart_ops \<Rightarrow> dq_notify \<Rightarrow> nat \<Rightarrow> rt_device_ops" where
  "serial_ops uo notify d =
     \<lparr>op_init = Some (rt_serial_init uo d), op_open = Some (rt_serial_open uo d),
      op_close = Some (rt_serial_close uo d), op_read = Some (rt_serial_read uo d),
      op_write = Some (rt_serial_write uo notify d), op_control = Some (rt_serial_control uo d)\<rparr>"

text \<open>The pointers to the functions above are those that \<open>serial_ops\<close> gives the device.\<close>

definition rt_hw_serial_register :: "nat \<Rightarrow> u8 list \<Rightarrow> u32 \<Rightarrow> kstate \<Rightarrow> (rt_err \<times> kstate) option" where
  "rt_hw_serial_register d name flag s =
     rt_device_register (Some d) name (ucast flag)
       (dev_upd d (\<lambda>v. v\<lparr>dv_type := 0, dv_rx_indicate := 0, dv_tx_complete := 0\<rparr>) s)"

section \<open>The interrupt\<close>

text \<open>The loop of \<open>RT_SERIAL_EVENT_RX_IND\<close>: bytes of the port into the FIFO until the port has none.\<close>

partial_function (option) serial_isr_rx :: "rt_uart_ops \<Rightarrow> nat \<Rightarrow> kstate \<Rightarrow> kstate option" where
  "serial_isr_rx uo d s = do {
     (ch, s1) \<leftarrow> uo_getc uo d s;
     if ch = - 1 then Some s1
     else do {
       (p, q) \<leftarrow> rx_fifo_of d s1;
       q1 \<leftarrow> rx_fifo_put (bufsz d s1) (word_of_int ch) q;
       serial_isr_rx uo d (set_rx d (Rx_fifo p q1) s1) } }"

definition indicate_rx :: "serial_callbacks \<Rightarrow> nat \<Rightarrow> u32 \<Rightarrow> kstate \<Rightarrow> kstate option" where
  "indicate_rx cb d len s =
     (let f = dv_rx_indicate (devices s d) in if f \<noteq> 0 then cb_rx_indicate cb f d len s else Some s)"

definition serial_isr_rx_ind :: "rt_uart_ops \<Rightarrow> serial_callbacks \<Rightarrow> nat \<Rightarrow> kstate \<Rightarrow> kstate option" where
  "serial_isr_rx_ind uo cb d s = do {
     _ \<leftarrow> rx_fifo_of d s;
     s1 \<leftarrow> serial_isr_rx uo d s;
     (p, q) \<leftarrow> rx_fifo_of d s1;
     let rx_length = (if rx_put_index q \<ge> rx_get_index q then uint (rx_put_index q) - uint (rx_get_index q)
                      else uint (bufsz d s1) - (uint (rx_get_index q) - uint (rx_put_index q)));
     if rx_length \<noteq> 0 then indicate_rx cb d (word_of_int rx_length) s1 else Some s1 }"

text \<open>\<open>last_data_ptr\<close> is not initialised when the queue is empty; the callback then gets an unknown pointer.\<close>

definition serial_isr_tx_dma :: "rt_uart_ops \<Rightarrow> serial_callbacks \<Rightarrow> dq_notify \<Rightarrow> nat \<Rightarrow> kstate \<Rightarrow> kstate option" where
  "serial_isr_tx_dma uo cb notify d s =
     (case sr_tx (serials s d) of
        Tx_dma p _ \<Rightarrow> do {
          (r, s1) \<leftarrow> rt_data_queue_pop notify (tx_queue p) 0 s;
          last \<leftarrow> (case r of Done (_, i) \<Rightarrow> Some (map_option fst i) | Blocked \<Rightarrow> None);
          (e, i) \<leftarrow> rt_data_queue_peak (tx_queue p) s1;
          s2 \<leftarrow> (if e = RT_EOK
                 then do {
                   transmit \<leftarrow> uo_dma_transmit uo;
                   (data, len) \<leftarrow> i;
                   transmit d data len RT_SERIAL_DMA_TX (set_tx d (Tx_dma p True) s1) }
                 else Some (set_tx d (Tx_dma p False) s1));
          (let f = dv_tx_complete (devices s2 d) in
           if f \<noteq> 0 then do { ptr \<leftarrow> last; cb_tx_complete cb f d ptr s2 } else Some s2) }
      | _ \<Rightarrow> None)"

definition serial_isr_rx_dma :: "serial_callbacks \<Rightarrow> nat \<Rightarrow> u32 \<Rightarrow> kstate \<Rightarrow> kstate option" where
  "serial_isr_rx_dma cb d len s =
     (if bufsz d s = 0
      then (case sr_rx (serials s d) of
          Rx_dma p _ \<Rightarrow> do {
            rt_assert (dv_rx_indicate (devices s d) \<noteq> 0);
            s1 \<leftarrow> indicate_rx cb d len s;
            Some (set_rx d (Rx_dma p False) s1) }
        | _ \<Rightarrow> None)
      else do {
        (p, q) \<leftarrow> rx_fifo_of d s;
        let q1 = dma_update_put_index (bufsz d s) len q;
        indicate_rx cb d (word_of_int (rx_fifo_len (bufsz d s) q1)) (set_rx d (Rx_fifo p q1) s) })"

text \<open>The low byte of \<open>event\<close> is the event, the rest the length of a DMA transfer.\<close>

definition rt_hw_serial_isr ::
    "rt_uart_ops \<Rightarrow> serial_callbacks \<Rightarrow> dq_notify \<Rightarrow> nat \<Rightarrow> u32 \<Rightarrow> kstate \<Rightarrow> kstate option" where
  "rt_hw_serial_isr uo cb notify d event s =
     (let e = event AND 0xff in
      if e = 1 then serial_isr_rx_ind uo cb d s
      else if e = 2
      then (case sr_tx (serials s d) of Tx_fifo p \<Rightarrow> rt_completion_done (unat p) s | _ \<Rightarrow> None)
      else if e = 4 then serial_isr_tx_dma uo cb notify d s
      else if e = 3 then serial_isr_rx_dma cb d (signed_drop_bit 8 (event AND NOT 0xff)) s
      else Some s)"

end
