(* ===== verification/Serial_fifo.thy ===== *)
theory Serial_fifo
  imports Serial Cyclic
begin

text \<open>
  What the receive FIFO of a serial device holds: the bytes between its indices, the oldest first. The
  interrupt keeps the last \<open>bufsz - 1\<close> bytes received, reception by DMA the last \<open>bufsz\<close>.
\<close>

section \<open>Contents\<close>

definition fifo_ok :: "u16 \<Rightarrow> rt_serial_rx_fifo \<Rightarrow> bool" where
  "fifo_ok n q \<longleftrightarrow> length (rx_buffer q) = unat n \<and> rx_put_index q < n \<and> rx_get_index q < n"

definition rx_contents :: "u16 \<Rightarrow> rt_serial_rx_fifo \<Rightarrow> u8 list" where
  "rx_contents n q = cyc (rx_buffer q) (unat n) (unat (rx_get_index q)) (nat (rx_fifo_len n q))"

definition keep_last :: "nat \<Rightarrow> 'a list \<Rightarrow> 'a list" where
  "keep_last k xs = drop (length xs - k) xs"

text \<open>The flag is only looked at when the indices are equal, which reception by interrupt avoids.\<close>

definition int_ok :: "u16 \<Rightarrow> rt_serial_rx_fifo \<Rightarrow> bool" where
  "int_ok n q \<longleftrightarrow> fifo_ok n q \<and> 2 \<le> unat n \<and> (rx_get_index q = rx_put_index q \<longrightarrow> \<not> rx_is_full q)"

definition dma_ok :: "u16 \<Rightarrow> rt_serial_rx_fifo \<Rightarrow> bool" where
  "dma_ok n q \<longleftrightarrow> fifo_ok n q \<and> unat n \<le> 32768 \<and> (rx_is_full q \<longrightarrow> rx_get_index q = rx_put_index q)"

lemma keep_last_all [simp]: "length xs \<le> k \<Longrightarrow> keep_last k xs = xs"
  by (simp add: keep_last_def)

lemma keep_last_append: "keep_last k (keep_last k xs @ ys) = keep_last k (xs @ ys)"
  by (cases "length xs \<le> k") (simp_all add: keep_last_def add.commute)

lemma length_keep_last [simp]: "length (keep_last k xs) = min k (length xs)"
  by (simp add: keep_last_def)

lemma unat_lt: "unat (x :: u16) < unat n \<longleftrightarrow> x < n"
  by (simp add: word_less_nat_alt)

lemma fifo_len:
  assumes "fifo_ok n q"
  shows "nat (rx_fifo_len n q) = (if rx_put_index q = rx_get_index q then (if rx_is_full q then unat n else 0)
    else if rx_get_index q < rx_put_index q then unat (rx_put_index q) - unat (rx_get_index q)
    else unat n + unat (rx_put_index q) - unat (rx_get_index q))"
    "0 \<le> rx_fifo_len n q" "nat (rx_fifo_len n q) \<le> unat n"
proof -
  let ?p = "unat (rx_put_index q)" and ?g = "unat (rx_get_index q)" and ?n = "unat n"
  have lt: "?p < ?n" "?g < ?n" using assms by (simp_all add: fifo_ok_def unat_lt)
  have eq: "rx_put_index q = rx_get_index q \<longleftrightarrow> ?p = ?g" "rx_get_index q < rx_put_index q \<longleftrightarrow> ?g < ?p"
    by (simp_all add: word_unat_eq_iff word_less_nat_alt)
  have u: "uint (rx_put_index q) = int ?p" "uint (rx_get_index q) = int ?g" "uint n = int ?n" by simp_all
  have l: "rx_fifo_len n q = (if ?p = ?g then (if \<not> rx_is_full q then 0 else int ?n)
    else if ?g < ?p then int ?p - int ?g else int ?n - (int ?g - int ?p))"
    unfolding rx_fifo_len_def u eq by simp
  show "nat (rx_fifo_len n q) = (if rx_put_index q = rx_get_index q then (if rx_is_full q then ?n else 0)
    else if rx_get_index q < rx_put_index q then ?p - ?g else ?n + ?p - ?g)"
    unfolding l eq using lt by (simp only: split: if_splits) linarith
  show "0 \<le> rx_fifo_len n q" unfolding l using lt by (simp only: split: if_splits) linarith
  show "nat (rx_fifo_len n q) \<le> ?n" unfolding l using lt by (simp only: split: if_splits) linarith
qed

lemma rx_next_mod: "i < n \<Longrightarrow> unat (rx_next n i) = (unat i + 1) mod unat n \<and> rx_next n i < n"
proof -
  assume i: "i < n"
  then have lt: "unat i < unat n" "unat n < 2 ^ 16" using unsigned_less[of n, where 'a = nat] by (simp_all add: unat_lt)
  then have s: "unat (i + 1) = unat i + 1" by (simp add: unat_word_ariths)
  show ?thesis
  proof (cases "i + 1 \<ge> n")
    case True
    then have "unat i + 1 = unat n" using lt s by (simp add: word_le_nat_alt)
    moreover have "0 < n" using i by (metis word_gt_0 word_not_simps(1))
    ultimately show ?thesis using True by (simp add: rx_next_def)
  next
    case False
    then have "unat i + 1 < unat n" using s by (simp add: not_le word_less_nat_alt)
    then show ?thesis using False s by (simp add: rx_next_def not_le)
  qed
qed

section \<open>Reception by interrupt\<close>

lemma int_len:
  assumes "int_ok n q"
  shows "unat (rx_put_index q) = (unat (rx_get_index q) + nat (rx_fifo_len n q)) mod unat n"
    "nat (rx_fifo_len n q) < unat n"
proof -
  let ?p = "unat (rx_put_index q)" and ?g = "unat (rx_get_index q)" and ?n = "unat n" and ?l = "nat (rx_fifo_len n q)"
  have ok: "fifo_ok n q" "2 \<le> ?n" using assms by (simp_all add: int_ok_def)
  have lt: "?p < ?n" "?g < ?n" using ok by (simp_all add: fifo_ok_def unat_lt)
  have l: "?l = (if ?p = ?g then 0 else if ?g < ?p then ?p - ?g else ?n + ?p - ?g)"
    using assms fifo_len(1)[OF ok(1)] by (auto simp: int_ok_def word_unat_eq_iff word_less_nat_alt)
  show "?l < ?n" unfolding l using lt by (simp only: split: if_splits) linarith
  have "?g + ?l = ?p \<or> ?g + ?l = ?p + ?n" unfolding l using lt by (simp only: split: if_splits) linarith
  then show "?p = (?g + ?l) mod ?n" using lt by auto
qed

lemma int_len_eq:
  assumes "int_ok n q" "k < unat n" "unat (rx_put_index q) = (unat (rx_get_index q) + k) mod unat n"
  shows "nat (rx_fifo_len n q) = k"
proof -
  let ?g = "unat (rx_get_index q)" and ?l = "nat (rx_fifo_len n q)"
  show ?thesis using mod_add_cancel[of ?g ?l "unat n" k] int_len[OF assms(1)] assms(2,3) by simp
qed

lemma int_put:
  assumes ok: "int_ok n q"
  shows "\<exists>q'. rx_fifo_put n ch q = Some q' \<and> int_ok n q' \<and>
    rx_contents n q' = keep_last (unat n - 1) (rx_contents n q @ [ch])"
proof -
  let ?n = "unat n" and ?p = "rx_put_index q" and ?g = "rx_get_index q" and ?l = "nat (rx_fifo_len n q)"
  have f: "length (rx_buffer q) = ?n" "?p < n" "?g < n" "2 \<le> ?n" "rx_get_index q = rx_put_index q \<longrightarrow> \<not> rx_is_full q"
    using ok by (simp_all add: int_ok_def fifo_ok_def)
  note l = int_len[OF ok]
  have np: "unat (rx_next n ?p) = (unat ?p + 1) mod ?n" "rx_next n ?p < n" using rx_next_mod[OF f(2)] by auto
  have ng: "unat (rx_next n ?g) = (unat ?g + 1) mod ?n" "rx_next n ?g < n" using rx_next_mod[OF f(3)] by auto
  let ?buf = "(rx_buffer q)[unat ?p := ch]"
  have w: "cyc_written ?n (rx_buffer q) ((unat ?g + ?l) mod ?n) 1 [ch] ?buf"
    unfolding l(1)[symmetric] using f(1,2) by (intro cyc_written_update) (simp_all add: unat_lt)
  have app: "cyc ?buf ?n (unat ?g) (?l + 1) = rx_contents n q @ [ch]"
    using cyc_append[OF w, of] l(2) f(4) by (simp add: rx_contents_def)
  show ?thesis
  proof (cases "rx_next n ?p = ?g")
    case False
    let ?q = "q\<lparr>rx_buffer := ?buf, rx_put_index := rx_next n ?p\<rparr>"
    have r: "rx_fifo_put n ch q = Some ?q" using False f(1,2) by (simp add: rx_fifo_put_def unat_lt not_le)
    have ok': "int_ok n ?q" using False f np by (simp add: int_ok_def fifo_ok_def)
    have p': "unat (rx_next n ?p) = (unat ?g + (?l + 1)) mod ?n" unfolding np(1) l(1) by (simp add: mod_simps)
    have "?l + 1 \<noteq> ?n"
    proof
      assume "?l + 1 = ?n"
      then have "unat (rx_next n ?p) = unat ?g" using p' f(3) by (simp add: unat_lt)
      then show False using False by (simp add: word_unat_eq_iff)
    qed
    then have room: "?l + 1 < ?n" using l(2) by simp
    have "nat (rx_fifo_len n ?q) = ?l + 1" by (rule int_len_eq[OF ok' room]) (use p' in simp)
    then have "rx_contents n ?q = rx_contents n q @ [ch]" using app by (simp add: rx_contents_def)
    moreover have "length (rx_contents n q) = ?l" by (simp add: rx_contents_def)
    ultimately have "rx_contents n ?q = keep_last (?n - 1) (rx_contents n q @ [ch])" using room by simp
    with r ok' show ?thesis by blast
  next
    case True
    let ?q = "q\<lparr>rx_buffer := ?buf, rx_put_index := rx_next n ?p, rx_get_index := rx_next n ?g, rx_is_full := True\<rparr>"
    have r: "rx_fifo_put n ch q = Some ?q" using True f(1,2) by (simp add: rx_fifo_put_def unat_lt not_le)
    have ne: "rx_next n ?g \<noteq> ?g"
    proof
      assume "rx_next n ?g = ?g"
      then have "(unat ?g + 1) mod ?n = (unat ?g + 0) mod ?n" using ng(1) f(3) by (simp add: unat_lt)
      then have "1 = (0 :: nat)" using f(4) by (intro mod_add_cancel[of "unat ?g" 1 ?n 0]) simp_all
      then show False by simp
    qed
    have ok': "int_ok n ?q" using True f np ng ne by (simp add: int_ok_def fifo_ok_def)
    have full: "?l + 1 = ?n"
    proof -
      have "unat ?g = (unat ?g + (?l + 1)) mod ?n" using True np(1) l(1) by (metis add.assoc mod_add_left_eq)
      then have "(unat ?g + (?l + 1)) mod ?n = (unat ?g + 0) mod ?n" using f(3) by (simp add: unat_lt)
      moreover have "?l + 1 < ?n \<Longrightarrow> 0 < ?n" by simp
      ultimately have "\<not> ?l + 1 < ?n" using mod_add_cancel[of "unat ?g" "?l + 1" ?n 0] by auto
      then show ?thesis using l(2) by simp
    qed
    have "((unat ?g + 1) mod ?n + (?n - 1)) mod ?n = (unat ?g + ?n) mod ?n"
      unfolding mod_add_left_eq using f(4) by simp
    also have "\<dots> = unat ?g" using f(3) by (simp add: unat_lt)
    finally have "unat (rx_put_index ?q) = (unat (rx_get_index ?q) + (?n - 1)) mod ?n" using ng(1) True by simp
    then have "nat (rx_fifo_len n ?q) = ?n - 1" using f(4) by (intro int_len_eq[OF ok']) simp_all
    then have "rx_contents n ?q = cyc ?buf ?n ((unat ?g + 1) mod ?n) (?n - 1)" using ng(1) by (simp add: rx_contents_def)
    also have "\<dots> = drop 1 (rx_contents n q @ [ch])" using cyc_drop[of ?buf ?n "unat ?g" 1 ?n] app full by simp
    also have "\<dots> = keep_last (?n - 1) (rx_contents n q @ [ch])"
    proof -
      have "length (rx_contents n q) = ?l" by (simp add: rx_contents_def)
      then have "length (rx_contents n q @ [ch]) - (?n - 1) = 1" using full f(4) by simp
      then show ?thesis by (simp only: keep_last_def)
    qed
    finally show ?thesis using r ok' by blast
  qed
qed

lemma int_get:
  assumes ok: "int_ok n q"
  shows "rx_no_data q \<longleftrightarrow> rx_contents n q = []"
    "rx_contents n q = x # xs \<Longrightarrow> \<exists>q'. rx_fifo_get n q = Some (x, q') \<and> int_ok n q' \<and> rx_contents n q' = xs"
proof -
  let ?n = "unat n" and ?p = "rx_put_index q" and ?g = "rx_get_index q" and ?l = "nat (rx_fifo_len n q)"
  have f: "length (rx_buffer q) = ?n" "?p < n" "?g < n" "2 \<le> ?n" "rx_get_index q = rx_put_index q \<longrightarrow> \<not> rx_is_full q"
    using ok by (simp_all add: int_ok_def fifo_ok_def)
  note l = int_len[OF ok]
  have len: "length (rx_contents n q) = ?l" by (simp add: rx_contents_def)
  have "?l = 0 \<longleftrightarrow> ?g = ?p"
  proof
    assume "?l = 0"
    then have "unat ?p = unat ?g" using l(1) f(3) by (simp add: unat_lt)
    then show "?g = ?p" by (simp add: word_unat_eq_iff)
  next
    assume "?g = ?p"
    then show "?l = 0" using f(5) fifo_len(1)[of n q] ok by (simp add: int_ok_def)
  qed
  then show "rx_no_data q \<longleftrightarrow> rx_contents n q = []" using len f(5) by (auto simp: rx_no_data_def)
  assume c: "rx_contents n q = x # xs"
  then have pos: "0 < ?l" using len by (metis length_greater_0_conv list.distinct(1))
  have ng: "unat (rx_next n ?g) = (unat ?g + 1) mod ?n" "rx_next n ?g < n" using rx_next_mod[OF f(3)] by auto
  let ?q = "q\<lparr>rx_get_index := rx_next n ?g, rx_is_full := False\<rparr>"
  have h: "x = rx_buffer q ! unat ?g" "xs = cyc (rx_buffer q) ?n ((unat ?g + 1) mod ?n) (?l - 1)"
    using c cyc_Cons[OF pos, of "rx_buffer q" ?n "unat ?g"] f(3) by (simp_all add: rx_contents_def unat_lt)
  have "rx_fifo_get n q = Some (x, ?q)" using f(1,3) h(1) by (simp add: rx_fifo_get_def unat_lt not_le)
  moreover have ok': "int_ok n ?q" using f ng by (simp add: int_ok_def fifo_ok_def)
  moreover have "rx_contents n ?q = xs"
  proof -
    have "unat ?p = (unat (rx_next n ?g) + (?l - 1)) mod ?n" 
    proof -
      have "unat ?g + ?l = (unat ?g + 1) + (?l - 1)" using pos by linarith
      then show ?thesis unfolding ng(1) l(1) by (metis mod_add_left_eq)
    qed
    then have "nat (rx_fifo_len n ?q) = ?l - 1" using l(2) by (intro int_len_eq[OF ok']) simp_all
    then show ?thesis using h(2) ng(1) by (simp add: rx_contents_def)
  qed
  ultimately show "\<exists>q'. rx_fifo_get n q = Some (x, q') \<and> int_ok n q' \<and> rx_contents n q' = xs" by blast
qed

lemma int_init: "2 \<le> unat n \<Longrightarrow> int_ok n (rx_fifo_init n) \<and> rx_contents n (rx_fifo_init n) = []"
proof -
  assume n: "2 \<le> unat n"
  then have "0 < n" by (simp add: word_less_nat_alt)
  then show ?thesis using n by (simp add: int_ok_def fifo_ok_def rx_fifo_init_def rx_contents_def rx_fifo_len_def)
qed

end
