(* ===== verification/Usart.thy ===== *)
theory Usart
  imports Serial
begin

text \<open>
  The port behind the serial devices (\<open>libraries/HAL_Drivers/drv_usart.c\<close>, without reception by DMA, for which
  no port is configured). The registers are the record \<open>stm32_uart\<close> of the port with the number of the device:
  the data register and the flag \<open>RXNE\<close> are the bytes still to be received, sending waits until the byte is out,
  and \<open>HAL_UART_Init\<close>, which only fails without a handle, stores its settings.
\<close>

section \<open>The functions of the port\<close>

definition uart_upd :: "nat \<Rightarrow> (stm32_uart \<Rightarrow> stm32_uart) \<Rightarrow> kstate \<Rightarrow> kstate" where
  "uart_upd d f s = s\<lparr>uarts := (uarts s)(d := f (uarts s d))\<rparr>"

abbreviation (input) UART_WORDLENGTH_8B :: nat where "UART_WORDLENGTH_8B \<equiv> 0"
abbreviation (input) UART_WORDLENGTH_9B :: nat where "UART_WORDLENGTH_9B \<equiv> 0x1000"
abbreviation (input) UART_STOPBITS_1 :: nat where "UART_STOPBITS_1 \<equiv> 0"
abbreviation (input) UART_STOPBITS_2 :: nat where "UART_STOPBITS_2 \<equiv> 0x2000"
abbreviation (input) UART_PARITY_NONE :: nat where "UART_PARITY_NONE \<equiv> 0"
abbreviation (input) UART_PARITY_ODD :: nat where "UART_PARITY_ODD \<equiv> 0x600"
abbreviation (input) UART_PARITY_EVEN :: nat where "UART_PARITY_EVEN \<equiv> 0x400"

definition stm32_configure :: "nat \<Rightarrow> serial_configure \<Rightarrow> kstate \<Rightarrow> (rt_err \<times> kstate) option" where
  "stm32_configure d cfg s =
     (let word_length = (if sc_data_bits cfg = 9 then UART_WORDLENGTH_9B else UART_WORDLENGTH_8B);
          stop_bits = (if sc_stop_bits cfg = 1 then UART_STOPBITS_2 else UART_STOPBITS_1);
          parity = (if sc_parity cfg = 1 then UART_PARITY_ODD
                    else if sc_parity cfg = 2 then UART_PARITY_EVEN else UART_PARITY_NONE)
      in Some (RT_EOK, uart_upd d (ua_init_update (\<lambda>_. (sc_baud_rate cfg, word_length, stop_bits, parity))) s))"

text \<open>The argument says which interrupt is meant; it is not looked at.\<close>

definition stm32_control :: "nat \<Rightarrow> nat \<Rightarrow> u32 \<Rightarrow> kstate \<Rightarrow> (rt_err \<times> kstate) option" where
  "stm32_control d cmd arg s =
     Some (RT_EOK, if cmd = CTRL_CLR_INT then uart_upd d (ua_rxne_int_update (\<lambda>_. False)) s
       else if cmd = CTRL_SET_INT then uart_upd d (ua_rxne_int_update (\<lambda>_. True)) s else s)"

definition stm32_putc :: "nat \<Rightarrow> u8 \<Rightarrow> kstate \<Rightarrow> (int \<times> kstate) option" where
  "stm32_putc d c s = Some (1, uart_upd d (\<lambda>u. u\<lparr>ua_sent := ua_sent u @ [c]\<rparr>) s)"

definition stm32_getc :: "nat \<Rightarrow> kstate \<Rightarrow> (int \<times> kstate) option" where
  "stm32_getc d s =
     (case ua_received (uarts s d) of [] \<Rightarrow> Some (- 1, s)
      | b # bs \<Rightarrow> Some (uint b, uart_upd d (ua_received_update (\<lambda>_. bs)) s))"

definition stm32_uart_ops :: rt_uart_ops where
  "stm32_uart_ops = \<lparr>uo_configure = Some stm32_configure, uo_control = stm32_control, uo_putc = stm32_putc,
     uo_getc = stm32_getc, uo_dma_transmit = None\<rparr>"

section \<open>The interrupt and the registration\<close>

text \<open>When the receive interrupt is not enabled the flag is cleared, and the byte in the data register lost.\<close>

definition uart_isr :: "serial_callbacks \<Rightarrow> dq_notify \<Rightarrow> nat \<Rightarrow> kstate \<Rightarrow> kstate option" where
  "uart_isr cb notify d s =
     (if ua_received (uarts s d) \<noteq> [] \<and> ua_rxne_int (uarts s d)
      then rt_hw_serial_isr stm32_uart_ops cb notify d 1 s
      else Some (uart_upd d (\<lambda>u. u\<lparr>ua_received := tl (ua_received u)\<rparr>) s))"

definition USART1_IRQHandler :: "serial_callbacks \<Rightarrow> dq_notify \<Rightarrow> nat \<Rightarrow> kstate \<Rightarrow> kstate option" where
  "USART1_IRQHandler cb notify d s = do {
     s1 \<leftarrow> uart_isr cb notify d (rt_interrupt_enter s);
     Some (rt_interrupt_leave s1) }"

definition RT_SERIAL_CONFIG_DEFAULT :: serial_configure where
  "RT_SERIAL_CONFIG_DEFAULT = \<lparr>sc_baud_rate = 115200, sc_data_bits = 8, sc_stop_bits = 0, sc_parity = 0, sc_bit_order = 0,
     sc_invert = 0, sc_bufsz = 64, sc_reserved = 0\<rparr>"

text \<open>One port is configured, with device \<open>d\<close> and the name \<open>uart1\<close>.\<close>

definition rt_hw_usart_init :: "nat \<Rightarrow> kstate \<Rightarrow> (rt_err \<times> kstate) option" where
  "rt_hw_usart_init d s = do {
     (result, s1) \<leftarrow> rt_hw_serial_register d (map of_char ''uart1'' @ [0]) (3 OR 0x100)
       (ser_upd d (sr_config_update (\<lambda>_. RT_SERIAL_CONFIG_DEFAULT)) s);
     rt_assert (result = RT_EOK);
     Some (result, s1) }"

end
