(* ===== verification/Serial_dev.thy ===== *)
theory Serial_dev
  imports Serial_fifo Usart "HOL-Library.Sublist"
begin

text \<open>
  Serial devices as a whole: they keep the contract of \<open>device.c\<close> (\<open>driver_ok\<close>), what the receive interrupt
  and readers do to the bytes received, and what a second open without \<open>RT_DEVICE_FLAG_INT_RX\<close> does. The
  receiving side of a port is the locale \<open>receiving_port\<close>, which \<open>drv_usart.c\<close> provides.
\<close>

section \<open>The contract with the device layer\<close>

definition port_ok :: "rt_uart_ops \<Rightarrow> nat \<Rightarrow> bool" where
  "port_ok uo d \<longleftrightarrow>
     (\<forall>f c s r s'. uo_configure uo = Some f \<longrightarrow> f d c s = Some (r, s') \<longrightarrow> dev_frame d s s') \<and>
     (\<forall>cmd arg s r s'. uo_control uo d cmd arg s = Some (r, s') \<longrightarrow> dev_frame d s s')"

lemma dev_kept_refl [simp]: "dev_kept d s s"
  by (simp add: dev_kept_def)

lemma dev_kept_trans: "\<lbrakk>dev_kept d a b; dev_kept d b c\<rbrakk> \<Longrightarrow> dev_kept d a c"
  by (simp add: dev_kept_def)

lemma set_rx_frame [simp]: "dev_frame d s (set_rx e r t) = dev_frame d s t" "dev_kept d s (set_rx e r t) = dev_kept d s t"
  "dev_kept d (set_rx e r t) s = dev_kept d t s"
  by (simp_all add: set_rx_def ser_upd_def dev_frame_def dev_kept_def rt_object_get_type_def)

lemma set_tx_frame [simp]: "dev_frame d s (set_tx e r t) = dev_frame d s t" "dev_kept d s (set_tx e r t) = dev_kept d s t"
  "dev_kept d (set_tx e r t) s = dev_kept d t s"
  by (simp_all add: set_tx_def ser_upd_def dev_frame_def dev_kept_def rt_object_get_type_def)

lemma flag_kept [simp]: "dev_kept d s (set_open_flag e f t) = dev_kept d s t" "dev_kept d s (clear_open_flag e f t) = dev_kept d s t"
  "dev_kept d (set_open_flag e f t) s = dev_kept d t s" "dev_kept d (clear_open_flag e f t) s = dev_kept d t s"
  by (simp_all add: set_open_flag_def clear_open_flag_def dev_kept_def)

lemma control_kept: "port_ok uo d \<Longrightarrow> uo_control uo d cmd arg s = Some (r, s') \<Longrightarrow> dev_kept d s s'"
  using dev_frame_kept unfolding port_ok_def by blast

lemma alloc_kept: "serial_alloc sz s = Some (p, s') \<Longrightarrow> dev_kept d s s'"
  by (auto simp: serial_alloc_def bind_eq_Some_conv dev_kept_def rt_object_get_type_def split: if_splits)

lemma free_kept: "serial_free p s = Some s' \<Longrightarrow> dev_kept d s s'"
  by (auto simp: serial_free_def dev_kept_def rt_object_get_type_def)

lemma ipc_init_kept: "rt_ipc_object_init h s = Some s' \<Longrightarrow> dev_kept d s s'"
  by (auto simp: rt_ipc_object_init_def dev_kept_def rt_object_get_type_def split: if_splits)

lemma kept_same: "\<lbrakk>devices s' = devices s; objs s' = objs s\<rbrakk> \<Longrightarrow> dev_kept d s s'"
  by (simp add: dev_kept_def rt_object_get_type_def)

lemma completion_init_kept:
  assumes "rt_completion_init c s = Some s'"
  shows "dev_kept d s s'"
proof -
  have "dev_kept d s (set_completion c RT_UNCOMPLETED s)" by (rule kept_same) (simp_all add: set_completion_def)
  with ipc_init_kept assms show ?thesis unfolding rt_completion_init_def by (blast intro: dev_kept_trans)
qed

lemma data_queue_init_kept:
  assumes "rt_data_queue_init x sz lwm n s = Some (r, s')"
  shows "dev_kept d s s'"
proof -
  define s1 where "s1 = dq_upd x (\<lambda>q. q\<lparr>dq_evt_notify := n, dq_size := sz, dq_lwm := lwm, dq_get_index := 0, dq_put_index := 0\<rparr>) s"
  obtain s2 s3 f h where i: "rt_ipc_object_init (DriverQ (Suspended_push_list x)) s1 = Some s2"
    "rt_ipc_object_init (DriverQ (Suspended_pop_list x)) s2 = Some s3" "s' = dq_upd x f (s3\<lparr>kheap := h\<rparr>)"
    using assms unfolding rt_data_queue_init_def s1_def[symmetric] Let_def by (auto simp: bind_eq_Some_conv)
  have "dev_kept d s s1" "dev_kept d s3 s'" by (rule kept_same; simp add: s1_def i(3) dq_upd_def)+
  with ipc_init_kept[OF i(1)] ipc_init_kept[OF i(2)] show ?thesis by (blast intro: dev_kept_trans)
qed

lemma open_rx_kept:
  assumes "port_ok uo d" "serial_open_rx uo d oflag s = Some s'"
  shows "dev_kept d s s'"
  using assms(2) unfolding serial_open_rx_def Let_def
  by (auto simp: bind_eq_Some_conv split: if_splits
      dest!: alloc_kept[where d = d] control_kept[OF assms(1)] elim!: dev_kept_trans)

lemma open_tx_kept:
  assumes "port_ok uo d" "serial_open_tx uo d oflag s = Some s'"
  shows "dev_kept d s s'"
  using assms(2) unfolding serial_open_tx_def Let_def
  by (auto simp: bind_eq_Some_conv split: if_splits
      dest!: alloc_kept[where d = d] control_kept[OF assms(1)] completion_init_kept[where d = d] data_queue_init_kept[where d = d]
      elim!: dev_kept_trans)

lemma serial_open_kept:
  assumes "port_ok uo d" "rt_serial_open uo d oflag s = Some (r, s')"
  shows "dev_kept d s s' \<and> (r \<noteq> RT_EOK \<longrightarrow> s' = s)"
proof -
  have "dev_kept d s (dev_upd d (\<lambda>v. v\<lparr>dv_open_flag := oflag AND 0xff\<rparr>) s)" by (simp add: dev_kept_def)
  then show ?thesis using assms(2) unfolding rt_serial_open_def Let_def
    by (auto simp: bind_eq_Some_conv split: if_splits
        dest!: open_rx_kept[OF assms(1)] open_tx_kept[OF assms(1)] elim!: dev_kept_trans)
qed

lemma serial_close_kept:
  assumes "port_ok uo d" "rt_serial_close uo d s = Some (r, s')"
  shows "dev_kept d s s'"
proof -
  have rx: "dev_kept d a b" if "serial_close_rx uo d a = Some b" for a b
    using that unfolding serial_close_rx_def
    by (auto simp: bind_eq_Some_conv split: if_splits
        dest!: free_kept[where d = d] control_kept[OF assms(1)] elim!: dev_kept_trans)
  have tx: "dev_kept d a b" if "serial_close_tx uo d a = Some b" for a b
    using that unfolding serial_close_tx_def
    by (auto simp: bind_eq_Some_conv split: if_splits
        dest!: free_kept[where d = d] control_kept[OF assms(1)] elim!: dev_kept_trans)
  show ?thesis using assms(2) unfolding rt_serial_close_def
    by (auto simp: bind_eq_Some_conv split: if_splits dest!: rx tx elim!: dev_kept_trans)
qed

text \<open>So the reference counting of \<open>device.c\<close> holds for serial devices.\<close>

lemma serial_driver_ok:
  assumes "port_ok uo d"
  shows "driver_ok (serial_ops uo notify d) d"
proof -
  have "dev_frame d s s'" if "rt_serial_init uo d s = Some (r, s')" for s r s'
  proof (cases "uo_configure uo")
    case (Some f)
    then have "dev_frame d (set_tx d No_tx (set_rx d No_rx s)) s'"
      using that assms unfolding rt_serial_init_def port_ok_def Let_def by auto
    then show ?thesis using dev_frame_trans[of d s "set_tx d No_tx (set_rx d No_rx s)"] by simp
  qed (use that in \<open>auto simp: rt_serial_init_def\<close>)
  then show ?thesis
    using serial_open_kept[OF assms] serial_close_kept[OF assms] unfolding driver_ok_def
    by (simp add: serial_ops_def) (metis dev_frame_refl)
qed

lemma uart_upd_frame [simp]: "dev_frame d s (uart_upd e f t) = dev_frame d s t"
  by (simp add: uart_upd_def dev_frame_def rt_object_get_type_def)

lemma stm32_port_ok: "port_ok stm32_uart_ops d"
  by (auto simp: port_ok_def stm32_uart_ops_def stm32_configure_def stm32_control_def Let_def split: if_splits)

lemma uart1_driver_ok: "driver_ok (serial_ops stm32_uart_ops notify d) d"
  by (rule serial_driver_ok[OF stm32_port_ok])

section \<open>The receiving side of a port\<close>

text \<open>What the loop of the receive interrupt relies on: \<open>getc\<close> yields the bytes received in order, then \<open>-1\<close>, and
  leaves the serial device alone, and \<open>received\<close> does not depend on the FIFO.\<close>

locale receiving_port =
  fixes uo :: rt_uart_ops and received :: "nat \<Rightarrow> kstate \<Rightarrow> u8 list"
  assumes getc_none: "received d s = [] \<Longrightarrow> uo_getc uo d s = Some (- 1, s)"
    and getc_byte: "received d s = b # bs \<Longrightarrow>
      \<exists>s'. uo_getc uo d s = Some (uint b, s') \<and> received d s' = bs \<and> serials s' = serials s \<and> devices s' = devices s"
    and received_set_rx: "received d (set_rx d r s) = received d s"
begin

text \<open>The interrupt empties the port into the FIFO, of which the last \<open>bufsz - 1\<close> bytes remain.\<close>

lemma isr_rx_all:
  assumes "rx_fifo_of d s = Some (p, q)" "int_ok (bufsz d s) q"
  shows "\<exists>s' q'. serial_isr_rx uo d s = Some s' \<and> rx_fifo_of d s' = Some (p, q') \<and> bufsz d s' = bufsz d s \<and>
    int_ok (bufsz d s) q' \<and> received d s' = [] \<and> devices s' = devices s \<and>
    rx_contents (bufsz d s) q' = keep_last (unat (bufsz d s) - 1) (rx_contents (bufsz d s) q @ received d s)"
  using assms
proof (induction "received d s" arbitrary: s q)
  case Nil
  have "length (rx_contents (bufsz d s) q) \<le> unat (bufsz d s) - 1"
    using int_len(2)[OF Nil.prems(2)] by (simp add: rx_contents_def)
  then show ?case using Nil getc_none[of d s] by (subst serial_isr_rx.simps) simp
next
  case (Cons b bs)
  let ?n = "bufsz d s"
  obtain s1 where s1: "uo_getc uo d s = Some (uint b, s1)" "received d s1 = bs" "serials s1 = serials s" "devices s1 = devices s"
    using getc_byte[of d s b bs] Cons.hyps(2) by auto
  have f1: "rx_fifo_of d s1 = Some (p, q)" "bufsz d s1 = ?n" using Cons.prems(1) s1(3) by (simp_all add: rx_fifo_of_def)
  obtain q1 where q1: "rx_fifo_put ?n b q = Some q1" "int_ok ?n q1"
    "rx_contents ?n q1 = keep_last (unat ?n - 1) (rx_contents ?n q @ [b])" using int_put[OF Cons.prems(2)] by blast
  let ?s2 = "set_rx d (Rx_fifo p q1) s1"
  have s2: "rx_fifo_of d ?s2 = Some (p, q1)" "bufsz d ?s2 = ?n" "received d ?s2 = bs" "devices ?s2 = devices s"
    using f1(2) s1(2,4) received_set_rx by (simp_all add: rx_fifo_of_def set_rx_def ser_upd_def)
  have step: "serial_isr_rx uo d s = serial_isr_rx uo d ?s2"
  proof -
    have "uint b \<noteq> - 1" using uint_ge_0[of b] by linarith
    then show ?thesis using s1(1) f1 q1(1) by (subst serial_isr_rx.simps) simp
  qed
  from Cons.hyps(1)[OF s2(3)[symmetric] s2(1)] q1(2) obtain s' q' where r: "serial_isr_rx uo d ?s2 = Some s'"
    "rx_fifo_of d s' = Some (p, q')" "bufsz d s' = ?n" "int_ok ?n q'" "received d s' = []" "devices s' = devices s"
    "rx_contents ?n q' = keep_last (unat ?n - 1) (rx_contents ?n q1 @ bs)" using s2(2-4) by auto
  have "rx_contents ?n q' = keep_last (unat ?n - 1) (rx_contents ?n q @ received d s)"
    unfolding r(7) q1(3) keep_last_append Cons.hyps(2)[symmetric] by simp
  then show ?case using step r(1-6) by auto
qed

end

interpretation stm32: receiving_port stm32_uart_ops "\<lambda>d s. ua_received (uarts s d)"
  by unfold_locales
    (auto simp: stm32_uart_ops_def stm32_getc_def uart_upd_def set_rx_def ser_upd_def)

section \<open>Histories of the input\<close>

text \<open>A byte arrives at the port.\<close>

definition byte_arrives :: "nat \<Rightarrow> u8 \<Rightarrow> kstate \<Rightarrow> kstate" where
  "byte_arrives d b = uart_upd d (\<lambda>u. u\<lparr>ua_received := ua_received u @ [b]\<rparr>)"

text \<open>A device opened for reception by interrupt: \<open>rx\<close> are the bytes that arrived, \<open>out\<close> those that readers got, and
  \<open>ok\<close> says that every interrupt found room for all bytes. A step of a reader is one critical section of
  \<open>_serial_int_rx\<close>. Other steps leave the FIFO, its size and the port alone.\<close>

inductive serial_run :: "nat \<Rightarrow> kstate \<Rightarrow> u8 list \<Rightarrow> u8 list \<Rightarrow> bool \<Rightarrow> kstate \<Rightarrow> bool" for d s0 where
  start: "serial_run d s0 [] [] True s0"
| arrives: "serial_run d s0 rx out ok s \<Longrightarrow> serial_run d s0 (rx @ [b]) out ok (byte_arrives d b s)"
| irq: "\<lbrakk>serial_run d s0 rx out ok s; rx_fifo_of d s = Some (p, q); serial_isr_rx stm32_uart_ops d s = Some s'\<rbrakk> \<Longrightarrow>
    serial_run d s0 rx out
      (ok \<and> length (rx_contents (bufsz d s) q) + length (ua_received (uarts s d)) < unat (bufsz d s)) s'"
| reads: "\<lbrakk>serial_run d s0 rx out ok s; serial_int_rx_pass d s = Some (r, s')\<rbrakk> \<Longrightarrow>
    serial_run d s0 rx (out @ (case r of None \<Rightarrow> [] | Some b \<Rightarrow> [b])) ok s'"
| other: "\<lbrakk>serial_run d s0 rx out ok s; serials s' d = serials s d; uarts s' d = uarts s d\<rbrakk> \<Longrightarrow> serial_run d s0 rx out ok s'"

definition input_inv :: "nat \<Rightarrow> u8 list \<Rightarrow> u8 list \<Rightarrow> bool \<Rightarrow> kstate \<Rightarrow> bool" where
  "input_inv d rx out ok s \<longleftrightarrow> (\<exists>p q. rx_fifo_of d s = Some (p, q) \<and> int_ok (bufsz d s) q \<and>
     subseq (out @ rx_contents (bufsz d s) q @ ua_received (uarts s d)) rx \<and>
     (ok \<longrightarrow> out @ rx_contents (bufsz d s) q @ ua_received (uarts s d) = rx))"

lemma input_inv_irq:
  assumes "input_inv d rx out ok s" "rx_fifo_of d s = Some (p, q)" "serial_isr_rx stm32_uart_ops d s = Some s'"
  shows "input_inv d rx out (ok \<and> length (rx_contents (bufsz d s) q) + length (ua_received (uarts s d)) < unat (bufsz d s)) s'"
proof -
  let ?n = "unat (bufsz d s)" and ?c = "rx_contents (bufsz d s) q" and ?r = "ua_received (uarts s d)"
  have i: "int_ok (bufsz d s) q" "subseq (out @ ?c @ ?r) rx" "ok \<longrightarrow> out @ ?c @ ?r = rx"
    using assms(1,2) by (auto simp: input_inv_def)
  from stm32.isr_rx_all[OF assms(2) i(1)] assms(3) obtain q' where q: "rx_fifo_of d s' = Some (p, q')"
    "bufsz d s' = bufsz d s" "int_ok (bufsz d s) q'" "ua_received (uarts s' d) = []"
    "rx_contents (bufsz d s) q' = keep_last (?n - 1) (?c @ ?r)" by auto
  have "subseq (out @ keep_last (?n - 1) (?c @ ?r)) (out @ ?c @ ?r)"
    unfolding keep_last_def by (intro list_emb_append_mono subseq_order.refl suffix_imp_subseq suffix_drop)
  then have "subseq (out @ keep_last (?n - 1) (?c @ ?r)) rx" using i(2) subseq_order.trans by blast
  then show ?thesis using q i(3) unfolding input_inv_def by auto
qed

lemma input_inv_reads:
  assumes "input_inv d rx out ok s" "serial_int_rx_pass d s = Some (r, s')"
  shows "input_inv d rx (out @ (case r of None \<Rightarrow> [] | Some b \<Rightarrow> [b])) ok s'"
proof -
  obtain p q where f: "rx_fifo_of d s = Some (p, q)" "int_ok (bufsz d s) q" using assms(1) by (auto simp: input_inv_def)
  show ?thesis
  proof (cases "rx_contents (bufsz d s) q")
    case Nil
    then have "r = None" "s' = s" using assms(2) f int_get(1)[OF f(2)] by (simp_all add: serial_int_rx_pass_def)
    then show ?thesis using assms(1) by simp
  next
    case (Cons x xs)
    obtain q' where q': "rx_fifo_get (bufsz d s) q = Some (x, q')" "int_ok (bufsz d s) q'" "rx_contents (bufsz d s) q' = xs"
      using int_get(2)[OF f(2) Cons] by blast
    then have r: "r = Some x" "s' = set_rx d (Rx_fifo p q') s"
      using assms(2) f int_get(1)[OF f(2)] Cons by (simp_all add: serial_int_rx_pass_def)
    have "rx_fifo_of d s' = Some (p, q')" "bufsz d s' = bufsz d s" "uarts s' = uarts s"
      by (simp_all add: r(2) rx_fifo_of_def set_rx_def ser_upd_def)
    then show ?thesis using assms(1) f(1) q'(2,3) r(1) Cons by (auto simp: input_inv_def)
  qed
qed

text \<open>Bytes received by interrupt. In a device with a FIFO of at least two bytes, over every history of arriving
  bytes, interrupts and reads: readers get bytes that arrived, in order, each at most once; what they have
  read, what is in the FIFO and what is still in the port is a subsequence of all bytes that arrived; and it is
  all of them, as long as no interrupt found more bytes than the FIFO, which holds \<open>bufsz - 1\<close>, had room for.\<close>

theorem serial_input_fifo:
  assumes "serial_run d s0 rx out ok s" "rx_fifo_of d s0 = Some (p, rx_fifo_init (bufsz d s0))" "2 \<le> unat (bufsz d s0)"
    and "ua_received (uarts s0 d) = []"
  shows "\<exists>p q. rx_fifo_of d s = Some (p, q) \<and>
    subseq (out @ rx_contents (bufsz d s) q @ ua_received (uarts s d)) rx \<and>
    (ok \<longrightarrow> out @ rx_contents (bufsz d s) q @ ua_received (uarts s d) = rx)"
proof -
  have "input_inv d rx out ok s" using assms(1)
  proof induction
    case start
    then show ?case using assms(2-4) int_init[OF assms(3)] by (simp add: input_inv_def)
  next
    case (arrives rx out ok s b)
    then obtain p q where i: "rx_fifo_of d s = Some (p, q)" "int_ok (bufsz d s) q"
      "subseq (out @ rx_contents (bufsz d s) q @ ua_received (uarts s d)) rx"
      "ok \<longrightarrow> out @ rx_contents (bufsz d s) q @ ua_received (uarts s d) = rx" by (auto simp: input_inv_def)
    have "rx_fifo_of d (byte_arrives d b s) = Some (p, q)" "bufsz d (byte_arrives d b s) = bufsz d s"
      "ua_received (uarts (byte_arrives d b s) d) = ua_received (uarts s d) @ [b]"
      using i(1) by (simp_all add: byte_arrives_def uart_upd_def rx_fifo_of_def)
    then show ?case using i(2,4) list_emb_append_mono[OF i(3) subseq_order.refl, of "[b]"]
      by (auto simp: input_inv_def)
  next
    case (irq rx out ok s p q s')
    then show ?case using input_inv_irq by blast
  next
    case (reads rx out ok s r s')
    then show ?case using input_inv_reads by blast
  next
    case (other rx out ok s s')
    then show ?case by (simp add: input_inv_def rx_fifo_of_def)
  qed
  then show ?thesis by (auto simp: input_inv_def)
qed

section \<open>A second open\<close>

text \<open>A second open of a device that receives by interrupt, with flags that do not ask for it again: the device stays
  set up for reception by interrupt, with its FIFO and the interrupt of the port enabled, but the flag is gone. A
  reader then polls the port, and the last close does not give the FIFO back.\<close>

theorem serial_reopen_deaf:
  assumes "sr_rx (serials s d) = Rx_fifo p q" "sr_tx (serials s d) = No_tx"
    and "\<not> has_flag oflag FLAG_INT_RX" "\<not> has_flag oflag FLAG_DMA_RX" "\<not> has_flag oflag FLAG_INT_TX" "\<not> has_flag oflag FLAG_DMA_TX"
  shows "\<exists>s'. rt_serial_open uo d oflag s = Some (RT_EOK, s') \<and> sr_rx (serials s' d) = Rx_fifo p q \<and>
    uarts s' = uarts s \<and> kheap s' = kheap s \<and>
    (0 < sz \<longrightarrow> rt_serial_read uo d pos buf sz s' =
       map_option (\<lambda>(bs, s2). (of_nat (length bs), ram_store buf bs s2)) (serial_poll_rx uo d (unat sz) s')) \<and>
    (dv_ref_count (devices s' d) \<le> 1 \<longrightarrow> rt_serial_close uo d s' = Some (RT_EOK, s'))"
proof -
  define st where "st = (if has_flag oflag FLAG_STREAM \<or> has_flag (open_flag d s) FLAG_STREAM then FLAG_STREAM else 0)"
  define s' where "s' = set_open_flag d st (set_tx d No_tx (dev_upd d (\<lambda>v. v\<lparr>dv_open_flag := oflag AND 0xff\<rparr>) s))"
  have run: "rt_serial_open uo d oflag s = Some (RT_EOK, s')"
    using assms by (simp add: rt_serial_open_def serial_open_rx_def serial_open_tx_def s'_def st_def Let_def dev_upd_def)
  have fl: "open_flag d s' = oflag AND 0xff OR st" by (simp add: s'_def set_open_flag_def dev_upd_def set_tx_def ser_upd_def)
  have bits: "(oflag AND 0xff OR st) AND f = 0" if "f = FLAG_INT_RX \<or> f = FLAG_DMA_RX \<or> f = FLAG_INT_TX \<or> f = FLAG_DMA_TX" for f
  proof -
    have "(oflag AND 0xff) AND f = 0" using that by (auto simp: and.assoc)
    moreover have "st AND f = 0" using that by (auto simp: st_def)
    ultimately show ?thesis by (simp add: bit.conj_disj_distrib2)
  qed
  have keep: "sr_rx (serials s' d) = Rx_fifo p q" "uarts s' = uarts s" "kheap s' = kheap s"
    using assms(1) by (simp_all add: s'_def set_open_flag_def dev_upd_def set_tx_def ser_upd_def)
  have "rt_serial_read uo d pos buf sz s' =
       map_option (\<lambda>(bs, s2). (of_nat (length bs), ram_store buf bs s2)) (serial_poll_rx uo d (unat sz) s')" if "0 < sz"
    using that bits fl by (auto simp: rt_serial_read_def map_option_case split: option.splits)
  moreover have "rt_serial_close uo d s' = Some (RT_EOK, s')" if "dv_ref_count (devices s' d) \<le> 1"
    using that bits fl by (simp add: rt_serial_close_def serial_close_rx_def serial_close_tx_def)
  ultimately show ?thesis using run keep by blast
qed

end
