(* ===== verification/Ipc_sem.thy ===== *)
theory Ipc_sem
  imports Waiting
begin

text \<open>
  Semaphores (\<open>rt_sem_\<close> functions of \<open>src/ipc.c\<close>). The value is the 16-bit field of the code; the
  waiting threads are in the list \<open>WaitQ (OSemaphore x)\<close>.
\<close>

section \<open>Operations\<close>

definition rt_sem_init :: "nat \<Rightarrow> u8 list \<Rightarrow> u32 \<Rightarrow> u8 \<Rightarrow> kstate \<Rightarrow> (rt_err \<times> kstate) option" where
  "rt_sem_init x name value flag s = do {
     rt_assert (value < 0x10000);
     s1 \<leftarrow> rt_object_init (OSemaphore x) Class_Semaphore name s;
     s2 \<leftarrow> rt_ipc_object_init (WaitQ (OSemaphore x)) s1;
     let s3 = s2\<lparr>sems := (sems s2)(x := ucast value)\<rparr>;
     Some (RT_EOK, set_flag (OSemaphore x) flag s3) }"

definition rt_sem_detach :: "nat \<Rightarrow> kstate \<Rightarrow> (rt_err \<times> kstate) option" where
  "rt_sem_detach x s = do {
     of_class (OSemaphore x) Class_Semaphore s;
     rt_assert (rt_object_is_systemobject (OSemaphore x) s);
     s1 \<leftarrow> rt_ipc_list_resume_all (WaitQ (OSemaphore x)) s;
     Some (RT_EOK, rt_object_detach (OSemaphore x) s1) }"

definition rt_sem_create :: "u8 list \<Rightarrow> u32 \<Rightarrow> u8 \<Rightarrow> kstate \<Rightarrow> (nat option \<times> kstate) option" where
  "rt_sem_create name value flag s = do {
     RT_DEBUG_NOT_IN_INTERRUPT s;
     rt_assert (value < 0x10000);
     (r, s1) \<leftarrow> rt_object_allocate OSemaphore Class_Semaphore name s;
     case r of None \<Rightarrow> Some (None, s1)
     | Some x \<Rightarrow> do {
         s2 \<leftarrow> rt_ipc_object_init (WaitQ (OSemaphore x)) s1;
         let s3 = s2\<lparr>sems := (sems s2)(x := ucast value)\<rparr>;
         Some (Some x, set_flag (OSemaphore x) flag s3) } }"

definition rt_sem_delete :: "nat \<Rightarrow> kstate \<Rightarrow> (rt_err \<times> kstate) option" where
  "rt_sem_delete x s = do {
     RT_DEBUG_NOT_IN_INTERRUPT s;
     of_class (OSemaphore x) Class_Semaphore s;
     rt_assert (\<not> rt_object_is_systemobject (OSemaphore x) s);
     s1 \<leftarrow> rt_ipc_list_resume_all (WaitQ (OSemaphore x)) s;
     s2 \<leftarrow> rt_object_delete (OSemaphore x) x s1;
     Some (RT_EOK, s2) }"

definition rt_sem_take :: "nat \<Rightarrow> 32 word \<Rightarrow> kstate \<Rightarrow> (rt_err outcome \<times> kstate) option" where
  "rt_sem_take x time s = do {
     of_class (OSemaphore x) Class_Semaphore s;
     if 0 < sems s x then Some (Done RT_EOK, s\<lparr>sems := (sems s)(x := sems s x - 1)\<rparr>)
     else if time = 0 then Some (Done (- RT_ETIMEOUT), s)
     else do {
       RT_DEBUG_IN_THREAD_CONTEXT s;
       t \<leftarrow> rt_thread_self s;
       s1 \<leftarrow> block_thread (WaitQ (OSemaphore x)) t (flag_of (OSemaphore x) s) time (set_error t RT_EOK s);
       Some (Blocked, s1) } }"

definition rt_sem_take_woken :: "nat \<Rightarrow> kstate \<Rightarrow> rt_err \<times> kstate" where
  "rt_sem_take_woken t s =
     (if th_error (threads s t) \<noteq> RT_EOK then th_error (threads s t) else RT_EOK, s)"

definition rt_sem_trytake :: "nat \<Rightarrow> kstate \<Rightarrow> (rt_err outcome \<times> kstate) option" where
  "rt_sem_trytake x s = rt_sem_take x 0 s"

definition rt_sem_release :: "nat \<Rightarrow> kstate \<Rightarrow> (rt_err \<times> kstate) option" where
  "rt_sem_release x s = do {
     of_class (OSemaphore x) Class_Semaphore s;
     if \<not> rt_list_isempty (WaitQ (OSemaphore x)) s
     then do {
       s1 \<leftarrow> rt_ipc_list_resume (WaitQ (OSemaphore x)) s;
       s2 \<leftarrow> rt_schedule s1;
       Some (RT_EOK, s2) }
     else Some (RT_EOK, s\<lparr>sems := (sems s)(x := sems s x + 1)\<rparr>) }"

definition rt_sem_control :: "nat \<Rightarrow> nat \<Rightarrow> u32 \<Rightarrow> kstate \<Rightarrow> (rt_err \<times> kstate) option" where
  "rt_sem_control x cmd arg s = do {
     of_class (OSemaphore x) Class_Semaphore s;
     if cmd = 1
     then do {
       s1 \<leftarrow> rt_ipc_list_resume_all (WaitQ (OSemaphore x)) s;
       s2 \<leftarrow> rt_schedule (s1\<lparr>sems := (sems s1)(x := ucast arg)\<rparr>);
       Some (RT_EOK, s2) }
     else Some (- RT_ERROR, s) }"

section \<open>Behaviour\<close>

text \<open>What a state has to satisfy for the semaphore \<open>x\<close> to be used: it is one, and threads wait for it
  only while its value is 0.\<close>

abbreviation sem_waiters :: "nat \<Rightarrow> kstate \<Rightarrow> nat list" where
  "sem_waiters x s \<equiv> lists s (WaitQ (OSemaphore x))"

definition sem_ok :: "nat \<Rightarrow> kstate \<Rightarrow> bool" where
  "sem_ok x s \<longleftrightarrow> rt_object_get_type (OSemaphore x) s = Class_Semaphore \<and>
     (sem_waiters x s \<noteq> [] \<longrightarrow> sems s x = 0)"

lemma sem_wake:
  assumes inv: "kinv s" and ty: "rt_object_get_type (OSemaphore x) s = Class_Semaphore"
    and w: "sem_waiters x s = t # ts"
  shows "\<exists>s'. rt_sem_release x s = Some (RT_EOK, s') \<and> kinv s' \<and> wait_frame s s' \<and> sem_waiters x s' = ts \<and>
    (\<forall>k. is_wait k \<and> k \<noteq> WaitQ (OSemaphore x) \<longrightarrow> lists s' k = lists s k) \<and>
    (\<forall>u. stat_of s' u = RT_THREAD_SUSPEND \<longleftrightarrow> stat_of s u = RT_THREAD_SUSPEND \<and> u \<noteq> t) \<and>
    (\<forall>u. th_error (threads s' u) = th_error (threads s u))"
proof -
  from wl.wake_sched[OF inv _ w] obtain s1 s' where s:
    "rt_ipc_list_resume (WaitQ (OSemaphore x)) s = Some s1" "rt_schedule s1 = Some s'" "kinv s'" "wait_frame s s'"
    "sem_waiters x s' = ts" "\<And>k. is_wait k \<and> k \<noteq> WaitQ (OSemaphore x) \<Longrightarrow> lists s' k = lists s k"
    "\<And>u. stat_of s' u = 2 \<longleftrightarrow> stat_of s u = 2 \<and> u \<noteq> t"
    "\<And>u. th_error (threads s' u) = (if u = t then th_error (threads s t) else th_error (threads s u))" by auto
  have "rt_sem_release x s = Some (RT_EOK, s')"
    using ty w s(1,2) by (simp add: rt_sem_release_def of_class_def rt_list_isempty_def)
  with s(3-8) show ?thesis by auto
qed

lemma sem_signal:
  assumes "rt_object_get_type (OSemaphore x) s = Class_Semaphore" "sem_waiters x s = []"
  shows "rt_sem_release x s = Some (RT_EOK, s\<lparr>sems := (sems s)(x := sems s x + 1)\<rparr>)"
  using assms by (simp add: rt_sem_release_def of_class_def rt_list_isempty_def)

lemma sem_block:
  assumes inv: "kinv s" and ty: "rt_object_get_type (OSemaphore x) s = Class_Semaphore" and z: "sems s x = 0"
    and t: "time \<noteq> 0" "running s t" "wait_args (OSemaphore x) time s"
  shows "\<exists>s'. rt_sem_take x time s = Some (Blocked, s') \<and>
    blocked_in (WaitQ (OSemaphore x)) t (flag_of (OSemaphore x) s) time (set_error t RT_EOK s) s'"
proof -
  let ?s = "set_error t RT_EOK s"
  from block_thread_running[of ?s t "WaitQ (OSemaphore x)" "OSemaphore x" time] inv t(2,3) obtain s' where
    "block_thread (WaitQ (OSemaphore x)) t (flag_of (OSemaphore x) s) time ?s = Some s'"
    "blocked_in (WaitQ (OSemaphore x)) t (flag_of (OSemaphore x) s) time ?s s'" by auto
  with ty z t(1) running_checks[OF t(2)] show ?thesis by (simp add: rt_sem_take_def of_class_def)
qed

text \<open>A history of one semaphore: calls of running threads, the rest of a call that had blocked, timeouts of
  waiting threads and, in between, anything that leaves the semaphore alone. \<open>P\<close> are the threads inside
  \<open>rt_sem_take\<close>; a thread is in one call at a time. The counters are the numbers of calls of \<open>rt_sem_take\<close>
  that have returned \<open>RT_EOK\<close>, and of releases.\<close>

abbreviation (input) sem_queue :: "nat \<Rightarrow> lhead" where
  "sem_queue x \<equiv> WaitQ (OSemaphore x)"

inductive sem_run :: "nat \<Rightarrow> kstate \<Rightarrow> nat set \<Rightarrow> nat \<Rightarrow> nat \<Rightarrow> kstate \<Rightarrow> bool" for x :: nat and s0 :: kstate where
  start: "sem_run x s0 {} 0 0 s0"
| take: "\<lbrakk>sem_run x s0 P a r s; running s t; t \<notin> P; wait_args (OSemaphore x) time s;
    rt_sem_take x time s = Some (res, s')\<rbrakk> \<Longrightarrow>
    sem_run x s0 (if res = Blocked then insert t P else P) (if res = Done RT_EOK then a + 1 else a) r s'"
| woken: "\<lbrakk>sem_run x s0 P a r s; running s t; t \<in> P; rt_sem_take_woken t s = (e, s')\<rbrakk> \<Longrightarrow>
    sem_run x s0 (P - {t}) (if e = RT_EOK then a + 1 else a) r s'"
| release: "\<lbrakk>sem_run x s0 P a r s; rt_sem_release x s = Some (e, s')\<rbrakk> \<Longrightarrow> sem_run x s0 P a (r + 1) s'"
| timeout: "\<lbrakk>sem_run x s0 P a r s; t \<in> set (sem_waiters x s); ThreadTimer t \<notin> set (timer_list s);
    rt_thread_timeout t s = Some s'\<rbrakk> \<Longrightarrow> sem_run x s0 P a r s'"
| other: "\<lbrakk>sem_run x s0 P a r s; kinv s'; sems s' x = sems s x;
    rt_object_get_type (OSemaphore x) s' = rt_object_get_type (OSemaphore x) s;
    bystander (sem_queue x) P s s'\<rbrakk> \<Longrightarrow> sem_run x s0 P a r s'"

definition sem_inv :: "nat \<Rightarrow> nat set \<Rightarrow> kstate \<Rightarrow> bool" where
  "sem_inv x P s \<longleftrightarrow> kinv s \<and> sem_ok x s \<and> in_calls (sem_queue x) P s"

abbreviation sem_units :: "nat \<Rightarrow> nat set \<Rightarrow> nat \<Rightarrow> kstate \<Rightarrow> nat" where
  "sem_units x P a s \<equiv> unat (sems s x) + a + card (granted (sem_queue x) P s)"

lemma sem_take_step:
  assumes i: "sem_inv x P s" and t: "running s t" "t \<notin> P" "wait_args (OSemaphore x) time s"
    and run: "rt_sem_take x time s = Some (res, s')"
  shows "sem_inv x (if res = Blocked then insert t P else P) s' \<and>
    sem_units x (if res = Blocked then insert t P else P) (if res = Done RT_EOK then a + 1 else a) s' = sem_units x P a s"
proof -
  have inv: "kinv s" and ok: "sem_ok x s" and c: "in_calls (sem_queue x) P s" using i by (simp_all add: sem_inv_def)
  have ty: "rt_object_get_type (OSemaphore x) s = 2" using ok by (simp add: sem_ok_def)
  consider "0 < sems s x" | "sems s x = 0" "time = 0" | "sems s x = 0" "time \<noteq> 0"
    using word_neq_0_conv by blast
  then show ?thesis
  proof cases
    case 1
    then have r: "res = Done RT_EOK" "s' = s\<lparr>sems := (sems s)(x := sems s x - 1)\<rparr>"
      using run ty by (auto simp: rt_sem_take_def of_class_def)
    have w: "sem_waiters x s = []" using ok 1 by (auto simp: sem_ok_def)
    have "bystander (sem_queue x) P s s'" by (rule bystander_same) (simp_all add: r(2))
    note b = bystander_calls[OF c this]
    have "sem_ok x s'" "kinv s'" using inv w ty by (simp_all add: r(2) sem_ok_def rt_object_get_type_def)
    moreover have "unat (sems s x - 1) + 1 = unat (sems s x)"
      using 1 unat_minus_one[of "sems s x"] by (simp add: word_neq_0_conv unat_gt_0)
    ultimately show ?thesis using r b by (simp add: sem_inv_def)
  next
    case 2
    then have "res = Done (- RT_ETIMEOUT)" "s' = s" using run ty by (simp_all add: rt_sem_take_def of_class_def)
    then show ?thesis using i by simp
  next
    case 3
    from sem_block[OF inv ty 3(1,2) t(1,3)] run have r: "res = Blocked"
      "blocked_in (sem_queue x) t (flag_of (OSemaphore x) s) time (set_error t RT_EOK s) s'" by auto
    note b = blocked_inD[OF r(2)]
    have v: "sems s' x = 0" using core_frameD(5)[OF b(2)] 3 by simp
    have "rt_object_get_type (OSemaphore x) s' = 2" using core_frameD(20)[OF b(2)] ty by simp
    then have "sem_ok x s'" using v by (simp add: sem_ok_def)
    moreover have "set (sem_waiters x s') = insert t (set (sem_waiters x s))" using b(4) by simp
    then have "in_calls (sem_queue x) (insert t P) s'"
      "granted (sem_queue x) (insert t P) s' = granted (sem_queue x) P s"
      using calls_block[OF c t(2), of s'] b(7) by (simp_all add: set_error_def)
    ultimately show ?thesis using b(1) r(1) 3(1) v by (simp add: sem_inv_def)
  qed
qed

lemma sem_release_step:
  assumes i: "sem_inv x P s" and run: "rt_sem_release x s = Some (e, s')"
    and fits: "sem_waiters x s = [] \<Longrightarrow> unat (sems s x) + 1 < 65536"
  shows "sem_inv x P s' \<and> sem_units x P a s' = sem_units x P a s + 1"
proof -
  have inv: "kinv s" and ok: "sem_ok x s" and c: "in_calls (sem_queue x) P s" using i by (simp_all add: sem_inv_def)
  have ty: "rt_object_get_type (OSemaphore x) s = 2" using ok by (simp add: sem_ok_def)
  show ?thesis
  proof (cases "sem_waiters x s")
    case Nil
    then have s': "s' = s\<lparr>sems := (sems s)(x := sems s x + 1)\<rparr>" using sem_signal[OF ty Nil] run by simp
    have "bystander (sem_queue x) P s s'" by (rule bystander_same) (simp_all add: s')
    note b = bystander_calls[OF c this]
    have "unat (sems s x + 1) = unat (sems s x) + 1" using fits[OF Nil] by (simp add: unat_word_ariths)
    then show ?thesis using b inv ty Nil by (simp add: s' sem_inv_def sem_ok_def rt_object_get_type_def)
  next
    case (Cons t ts)
    from sem_wake[OF inv ty Cons] run have s': "kinv s'" "wait_frame s s'" "sem_waiters x s' = ts"
      "\<And>u. th_error (threads s' u) = th_error (threads s u)" by auto
    note f = core_frameD[OF wait_frameD(1)[OF s'(2)]]
    have "t \<notin> set ts" using lists_distinct[OF inv, of "sem_queue x"] Cons by simp
    note w = calls_wake[OF c Cons this s'(3,4)]
    have "finite (granted (sem_queue x) P s)" using c by (simp add: in_calls_def granted_def)
    then have "card (granted (sem_queue x) P s') = card (granted (sem_queue x) P s) + 1" using w(2,3) by simp
    moreover have "sem_ok x s'" using ok Cons s'(3) f(5,20) by (simp add: sem_ok_def)
    ultimately show ?thesis using s'(1) w(1) f(5) by (simp add: sem_inv_def)
  qed
qed

lemma sem_run_units:
  assumes "sem_run x s0 P a r s" "kinv s0" "sem_ok x s0" "sem_waiters x s0 = []" "unat (sems s0 x) + r < 65536"
  shows "sem_inv x P s \<and> sem_units x P a s = unat (sems s0 x) + r"
  using assms
proof induction
  case start
  then show ?case by (simp add: sem_inv_def in_calls_def granted_def)
next
  case (take P a r s t time res s')
  then have ih: "sem_inv x P s" "sem_units x P a s = unat (sems s0 x) + r" by auto
  from sem_take_step[OF ih(1) take.hyps(2-5), of a] ih(2) show ?case by metis
next
  case (woken P a r s t e s')
  then have ih: "sem_inv x P s" "sem_units x P a s = unat (sems s0 x) + r" by auto
  then have c: "kinv s" "in_calls (sem_queue x) P s" by (simp_all add: sem_inv_def)
  have r: "s' = s" "e = th_error (threads s t)" using woken.hyps(4) by (auto simp: rt_sem_take_woken_def)
  note w = calls_return[OF c(2) woken.hyps(3) running_not_waiting[OF c(1) _ woken.hyps(2), of "sem_queue x", simplified]]
  have "sem_units x (P - {t}) (if e = RT_EOK then a + 1 else a) s = sem_units x P a s"
  proof (cases "e = RT_EOK")
    case True
    then have g: "t \<in> granted (sem_queue x) P s" using w(3) r(2) by simp
    then have "card (granted (sem_queue x) P s) = Suc (card (granted (sem_queue x) P s - {t}))"
      using card.remove[OF w(4)] by blast
    then show ?thesis using True w(2) by simp
  next
    case False
    then have "granted (sem_queue x) P s - {t} = granted (sem_queue x) P s" using w(3) r(2) by auto
    then show ?thesis using False w(2) by simp
  qed
  then show ?case using ih w(1) r(1) by (simp add: sem_inv_def)
next
  case (release P a r s e s')
  then have ih: "sem_inv x P s" "sem_units x P a s = unat (sems s0 x) + r" by auto
  then have "unat (sems s x) + 1 < 65536" using release.prems(4) by linarith
  from sem_release_step[OF ih(1) release.hyps(2) this] ih(2) show ?case by simp
next
  case (timeout P a r s t s')
  then have ih: "sem_inv x P s" "sem_units x P a s = unat (sems s0 x) + r" by auto
  then have c: "kinv s" "sem_ok x s" "in_calls (sem_queue x) P s" by (simp_all add: sem_inv_def)
  note b = timeout_bystander[OF c(1) is_wait_simps(1) timeout.hyps(2-4)]
  note f = core_frameD[OF b(2)] and st = b(3)[of P]
  have "sem_waiters x s' \<noteq> [] \<Longrightarrow> sem_waiters x s \<noteq> []" using st by (auto simp: bystander_def)
  then have "sem_ok x s'" using c(2) f(5,20) by (auto simp: sem_ok_def)
  then show ?case using bystander_calls[OF c(3) st] b(1) f(5) ih(2) by (simp add: sem_inv_def)
next
  case (other P a r s s')
  then have ih: "sem_inv x P s" "sem_units x P a s = unat (sems s0 x) + r" by auto
  then have c: "sem_ok x s" "in_calls (sem_queue x) P s" by (simp_all add: sem_inv_def)
  have "sem_waiters x s' \<noteq> [] \<Longrightarrow> sem_waiters x s \<noteq> []" using other.hyps(5) by (auto simp: bystander_def)
  then have "sem_ok x s'" using c(1) other.hyps(3,4) by (auto simp: sem_ok_def)
  then show ?case using bystander_calls[OF c(2) other.hyps(5)] other.hyps(2,3) ih(2) by (simp add: sem_inv_def)
qed

section \<open>Timers that release semaphores\<close>

text \<open>A timer whose timeout function is \<open>rt_sem_release\<close> with the semaphore as its parameter: the use
  of timers to wake a thread periodically.\<close>

definition release_on_timeout :: "nat \<Rightarrow> nat \<Rightarrow> kstate \<Rightarrow> kstate option" where
  "release_on_timeout f x s = map_option snd (rt_sem_release x s)"

interpretation rel: timeout_functions release_on_timeout "\<lambda>f x ty. ty (OSemaphore x) = Class_Semaphore"
proof
  fix s and f x :: nat
  assume a: "kinv s" "rt_object_get_type (OSemaphore x) s = Class_Semaphore"
  show "\<exists>s'. release_on_timeout f x s = Some s' \<and> calm s s'"
  proof (cases "sem_waiters x s")
    case Nil
    have "calm s (s\<lparr>sems := v\<rparr>)" for v
      using a(1) by (auto simp: calm_def timer_flag_def rt_object_get_type_def intro!: exI[of _ "\<lambda>_. True"])
    with sem_signal[OF a(2) Nil] show ?thesis by (simp add: release_on_timeout_def)
  next
    case (Cons t ts)
    from sem_wake[OF a Cons] obtain s' where "rt_sem_release x s = Some (RT_EOK, s')" "kinv s'" "wait_frame s s'"
      by blast
    then show ?thesis using wait_frame_calm by (auto simp: release_on_timeout_def)
  qed
qed

section \<open>Properties\<close>

text \<open>\<open>rt_sem_release\<close> hands its unit to exactly one party: with threads waiting it wakes the first
  of them and leaves the value, otherwise it increments the 16-bit value; it keeps the kernel's
  invariant, and no other thread or wait list is affected.\<close>

theorem sem_release_behaviour:
  assumes "kinv s" and "rt_object_get_type (OSemaphore x) s = Class_Semaphore"
  shows "\<exists>s'. rt_sem_release x s = Some (RT_EOK, s') \<and> kinv s' \<and>
    (case lists s (WaitQ (OSemaphore x)) of
       [] \<Rightarrow> s' = s\<lparr>sems := (sems s)(x := sems s x + 1)\<rparr>
     | t # ts \<Rightarrow> sems s' = sems s \<and> lists s' (WaitQ (OSemaphore x)) = ts \<and>
         (\<forall>y. y \<noteq> OSemaphore x \<longrightarrow> lists s' (WaitQ y) = lists s (WaitQ y)) \<and>
         (\<forall>u. stat_of s' u = RT_THREAD_SUSPEND \<longleftrightarrow> stat_of s u = RT_THREAD_SUSPEND \<and> u \<noteq> t))"
proof (cases "sem_waiters x s")
  case Nil
  then show ?thesis using sem_signal[OF assms(2) Nil] assms(1) by simp
next
  case (Cons t ts)
  from sem_wake[OF assms Cons] obtain s' where "rt_sem_release x s = Some (RT_EOK, s')" "kinv s'" "wait_frame s s'"
    "sem_waiters x s' = ts" "\<And>k. is_wait k \<and> k \<noteq> WaitQ (OSemaphore x) \<Longrightarrow> lists s' k = lists s k"
    "\<And>u. stat_of s' u = 2 \<longleftrightarrow> stat_of s u = 2 \<and> u \<noteq> t" by blast
  then show ?thesis using Cons core_frameD(5)[OF wait_frameD(1), of s s'] by auto
qed

theorem sem_release_behaviour_witness:
  "\<exists>s'. rt_sem_release 5 (sample_wait (WaitQ (OSemaphore 5))) = Some (RT_EOK, s') \<and> sems s' 5 = 0 \<and>
     stat_of s' 2 \<noteq> RT_THREAD_SUSPEND"
proof -
  let ?s = "sample_wait (WaitQ (OSemaphore 5))"
  have "kinv ?s" by (rule sample_wait_kinv) simp
  moreover have "lists ?s (WaitQ (OSemaphore 5)) = [2]" "sems ?s 5 = 0"
    by (simp_all add: sample_wait_simps) (simp add: sample_def)
  ultimately show ?thesis using sem_release_behaviour[of ?s 5] sample_type_ok(1) by auto
qed

text \<open>Every branch of \<open>rt_sem_take\<close>: a positive value is decremented at once; a zero value with a
  zero timeout is \<open>-RT_ETIMEOUT\<close> and changes nothing; otherwise the calling thread is suspended in the
  semaphore's list, at the end or behind the threads of the same or a higher priority, with its timer
  armed exactly for a limited wait, and another thread runs.\<close>

theorem sem_take_behaviour:
  assumes "kinv s" and "rt_object_get_type (OSemaphore x) s = Class_Semaphore"
    and "running s t" and "wait_args (OSemaphore x) time s"
  shows "\<exists>r s'. rt_sem_take x time s = Some (r, s') \<and> kinv s' \<and>
    (if 0 < sems s x then r = Done RT_EOK \<and> s' = s\<lparr>sems := (sems s)(x := sems s x - 1)\<rparr>
     else if time = 0 then r = Done (- RT_ETIMEOUT) \<and> s' = s
     else r = Blocked \<and> blocked_in (WaitQ (OSemaphore x)) t (flag_of (OSemaphore x) s) time
                          (set_error t RT_EOK s) s')"
proof (cases "sems s x = 0 \<and> time \<noteq> 0")
  case True
  with sem_block[OF assms(1,2) _ _ assms(3,4)] blocked_inD(1) show ?thesis by fastforce
next
  case False
  then show ?thesis using assms(1,2) word_neq_0_conv[of "sems s x"]
    by (auto simp: rt_sem_take_def of_class_def)
qed

theorem sem_take_behaviour_witness:
  "\<exists>s'. rt_sem_take 5 10 sample = Some (Blocked, s') \<and> lists s' (WaitQ (OSemaphore 5)) = [1] \<and>
     ThreadTimer 1 \<in> set (timer_list s') \<and> cur s' \<noteq> Some 1"
proof -
  have "running sample 1" by (simp add: running_def sample_simps sample_stat)
  moreover have "wait_args (OSemaphore 5) 10 sample" by (simp add: wait_args_def sample_type_ok)
  moreover have "rt_object_get_type (OSemaphore 5) sample = 2" "sems sample 5 = 0"
    by (simp_all add: sample_def rt_object_get_type_def sample_type_def)
  ultimately obtain s' where s': "rt_sem_take 5 10 sample = Some (Blocked, s')"
    "blocked_in (WaitQ (OSemaphore 5)) 1 0 10 (set_error 1 RT_EOK sample) s'"
    using sem_take_behaviour[of sample 5 1 10] sample_kinv by (auto simp: sample_type_ok)
  have "\<exists>p. lists sample (ReadyQ p) \<noteq> []" by (auto simp: sample_simps intro!: exI[of _ 10])
  with s' show ?thesis by (auto simp: blocked_in_def blocked_at_def sample_simps wait_insert_def)
qed

text \<open>C7: units of a semaphore are conserved over every history of takes, releases, wake-ups and timeouts, as long
  as the initial value plus the releases fit the 16 bits of the value: the value, plus the calls of
  \<open>rt_sem_take\<close> that have returned \<open>RT_EOK\<close>, plus the threads that were woken by a release and have not yet
  returned, is the initial value plus the number of releases. So no unit is lost or granted twice; and threads
  wait only while the value is 0.\<close>

theorem sem_units_conserved:
  assumes "sem_run x s0 P a r s" and "kinv s0" and "sem_ok x s0" and "lists s0 (WaitQ (OSemaphore x)) = []"
    and "unat (sems s0 x) + r < 65536"
  shows "unat (sems s x) + a + card (granted (WaitQ (OSemaphore x)) P s) = unat (sems s0 x) + r \<and>
    (lists s (WaitQ (OSemaphore x)) \<noteq> [] \<longrightarrow> sems s x = 0)"
  using sem_run_units[OF assms] by (simp add: sem_inv_def sem_ok_def)

text \<open>Thread 1 waits for semaphore 5 and is woken by a release, which leaves the value 0.\<close>

theorem sem_units_conserved_witness:
  "\<exists>s. sem_run 5 sample {1} 0 1 s \<and> sems s 5 = 0 \<and> card (granted (WaitQ (OSemaphore 5)) {1} s) = 1"
proof -
  have ty: "rt_object_get_type (OSemaphore 5) sample = 2" and v: "sems sample 5 = 0" and w: "sem_waiters 5 sample = []"
    by (simp_all add: sample_def rt_object_get_type_def sample_type_def)
  have ok: "sem_ok 5 sample" using ty v by (simp add: sem_ok_def)
  have r: "running sample 1" by (simp add: running_def sample_simps sample_stat)
  have wa: "wait_args (OSemaphore 5) 10 sample" by (simp add: wait_args_def sample_type_ok)
  from sem_block[OF sample_kinv ty v _ r wa] obtain s1 where s1: "rt_sem_take 5 10 sample = Some (Blocked, s1)"
    "blocked_in (sem_queue 5) 1 (flag_of (OSemaphore 5) sample) 10 (set_error 1 RT_EOK sample) s1" by auto
  have run1: "sem_run 5 sample {1} 0 0 s1" using sem_run.take[OF sem_run.start r _ wa s1(1)] by simp
  note b = blocked_inD[OF s1(2)]
  have ty1: "rt_object_get_type (OSemaphore 5) s1 = 2" and w1: "sem_waiters 5 s1 = [1]" and v1: "sems s1 5 = 0"
    using core_frameD(5,20)[OF b(2)] b(4) ty v w by (simp_all add: wait_insert_def)
  from sem_wake[OF b(1) ty1 w1] obtain s2 where s2: "rt_sem_release 5 s1 = Some (RT_EOK, s2)" "wait_frame s1 s2" by blast
  have v2: "sems s2 5 = 0" using core_frameD(5)[OF wait_frameD(1)[OF s2(2)]] v1 by simp
  have run2: "sem_run 5 sample {1} 0 1 s2" using sem_run.release[OF run1 s2(1)] by simp
  from sem_units_conserved[OF run2 sample_kinv ok w] v v2 run2 show ?thesis by auto
qed

text \<open>C18: the clock interrupt returns with the kernel's invariant when timers that release semaphores
  expire, periodic ones included: all due timers run once, no timer is overdue afterwards, and the
  loop of \<open>rt_timer_check\<close> ends also though releasing may stop the timers of woken threads.\<close>

theorem tick_with_release_timers:
  assumes "kinv s" and "timers_future s" and "periodic_ok s"
    and "\<forall>x \<in> set (timer_list s). \<forall>f p. tm_func (timers s x) = User_timeout f p \<longrightarrow>
      rt_object_get_type (OSemaphore p) s = Class_Semaphore"
  shows "\<exists>s'. rt_tick_increase release_on_timeout s = Some s' \<and> kinv s' \<and> tick s' = tick s + 1 \<and>
    timers_future s' \<and> periodic_ok s'"
  using rel.tick_increase_ends[OF assms] by blast

text \<open>A periodic timer due at the next tick that releases semaphore 5, on which thread 2 waits.\<close>

definition sample_timer :: kstate where
  "sample_timer = (sample_wait (WaitQ (OSemaphore 5)))\<lparr>timer_list := [UserTimer 9],
     timers := (timers sample_sleep)(UserTimer 9 := \<lparr>tm_func = User_timeout 1 5, tm_init_tick = 10,
                                                   tm_timeout_tick = 101\<rparr>),
     objs := (objs sample_sleep)(OTimer (UserTimer 9) := \<lparr>obj_name = replicate 8 0, obj_type = 0x8a, obj_flag = 3\<rparr>)\<rparr>"

lemma sample_timer_kinv: "kinv sample_timer"
proof -
  let ?s = "sample_wait (WaitQ (OSemaphore 5))"
  have k: "kinv ?s" by (rule sample_wait_kinv) simp
  have sm: "same_sched ?s sample_timer" by (simp add: same_sched_def sample_timer_def)
  have ty: "typed_ok sample_timer t = typed_ok ?s t" for t
    by (simp add: typed_ok_def rt_object_get_type_def timer_flag_def sample_timer_def sample_wait_def)
  have "timers_ok sample_timer"
    by (simp add: timers_ok_def sample_timer_def timer_entry_ok_def rt_object_get_type_def timer_flag_def)
  then show ?thesis
    unfolding kinv_def same_schedD(5,8,9)[OF sm] ty using kinvD[OF k] by blast
qed

theorem tick_with_release_timers_witness:
  "\<exists>s'. rt_tick_increase release_on_timeout sample_timer = Some s' \<and> tick s' = 101 \<and> timers_future s'"
proof -
  have r: "timer_list sample_timer = [UserTimer 9]" "tick sample_timer = 100"
    "rem sample_timer (UserTimer 9) = 1" "tm_init_tick (timers sample_timer (UserTimer 9)) = 10"
    "tm_func (timers sample_timer (UserTimer 9)) = User_timeout 1 5"
    "rt_object_get_type (OSemaphore 5) sample_timer = 2"
    by (simp_all add: sample_timer_def rem_def sample_wait_simps rt_object_get_type_def sample_sleep_def
        sample_def sample_type_def)
  then have "timers_future sample_timer" "periodic_ok sample_timer"
    by (simp_all add: timers_future_def timers_sorted_def periodic_ok_def)
  then show ?thesis using tick_with_release_timers[OF sample_timer_kinv] r by auto
qed

end
