(* ===== verification/Priority.thy ===== *)
theory Priority
  imports Waiting
begin

text \<open>
  Changing the priority of a thread (\<open>RT_THREAD_CTRL_CHANGE_PRIORITY\<close> of \<open>src/thread.c\<close>), on which the
  priority inheritance of mutexes is built: a ready thread moves to the end of the ready list of its new
  priority, any other thread only gets the new priority and mask.
\<close>

definition with_prio :: "nat \<Rightarrow> u8 \<Rightarrow> kstate \<Rightarrow> kstate" where
  "with_prio t p = thr_upd t (\<lambda>th. th\<lparr>th_current_priority := p, th_number_mask := pbit (unat p)\<rparr>)"

lemma with_prio_simps [simp]:
  "lists (with_prio t p s) = lists s" "tlink (with_prio t p s) = tlink s" "cur (with_prio t p s) = cur s"
  "ready_group (with_prio t p s) = ready_group s" "objs (with_prio t p s) = objs s"
  "timers (with_prio t p s) = timers s" "timer_list (with_prio t p s) = timer_list s"
  "mutexes (with_prio t p s) = mutexes s" "interrupt_nest (with_prio t p s) = interrupt_nest s"
  "lock_nest (with_prio t p s) = lock_nest s" "tick (with_prio t p s) = tick s"
  "stat_of (with_prio t p s) u = stat_of s u"
  "u \<noteq> t \<Longrightarrow> threads (with_prio t p s) u = threads s u"
  "th_error (threads (with_prio t p s) u) = th_error (threads s u)"
  "th_current_priority (threads (with_prio t p s) t) = p"
  "prio_of (with_prio t p s) u = (if u = t then unat p else prio_of s u)"
  by (simp_all add: with_prio_def stat_of_def prio_of_def)

lemma with_prio_runnable:
  assumes "runnable_ok s t" "p < 32"
  shows "runnable_ok (with_prio t p s) t"
  using assms by (simp add: runnable_ok_def with_prio_def prio_of_def stack_check_def Let_def word_less_nat_alt)

lemma with_prio_other:
  assumes "u \<noteq> t"
  shows "thr_ok (with_prio t p s) u = thr_ok s u"
  by (rule thr_ok_cong) (use assms in simp_all)

text \<open>What changing a priority keeps.\<close>

definition prio_changed :: "nat \<Rightarrow> u8 \<Rightarrow> kstate \<Rightarrow> kstate \<Rightarrow> bool" where
  "prio_changed t p s s' \<longleftrightarrow> kinv s' \<and> th_current_priority (threads s' t) = p \<and>
     (\<forall>u. u \<noteq> t \<longrightarrow> threads s' u = threads s u) \<and> (\<forall>u. th_error (threads s' u) = th_error (threads s u)) \<and>
     (\<forall>h. is_wait h \<longrightarrow> lists s' h = lists s h) \<and> (\<forall>u. stat_of s' u = stat_of s u) \<and> cur s' = cur s \<and>
     objs s' = objs s \<and> mutexes s' = mutexes s \<and> interrupt_nest s' = interrupt_nest s \<and>
     lock_nest s' = lock_nest s \<and> tick s' = tick s"

lemma kinv_from:
  assumes "kinv s" "sched_inv s'" "cur s' = cur s" "objs s' = objs s" "timers s' = timers s"
    "timer_list s' = timer_list s" "\<And>u. stat_of s' u = stat_of s u"
  shows "kinv s'"
proof -
  note k = kinvD[OF assms(1)]
  have "timers_ok s'"
    by (rule timers_ok_cong[OF k(2)]) (use assms(4-7) timers_ok_stat[OF k(2)] in auto)
  moreover have "typed_ok s' u = typed_ok s u" "started s' u = started s u" for u
    using assms(4,5,7) by (simp_all add: typed_ok_def rt_object_get_type_def timer_flag_def started_def)
  ultimately show ?thesis using assms(2,3) k(3,4) by (simp add: kinv_def)
qed

lemma change_priority_waiting:
  assumes inv: "kinv s" and st: "stat_of s t \<noteq> RT_THREAD_READY" and p: "p < 32"
  shows "change_priority t p s = Some (with_prio t p s)" "prio_changed t p s (with_prio t p s)"
proof -
  note ok = sched_okD[OF kinvD(1)[OF inv]]
  show "change_priority t p s = Some (with_prio t p s)"
    using st p by (simp add: change_priority_def prio_mask_def with_prio_def Let_def)
  have "thr_ok (with_prio t p s) u" for u
  proof (cases "u = t")
    case True
    have "tlink s t \<noteq> Some (ReadyQ q)" for q using thr_okD(1)[OF ok(3), of t q] st by auto
    then have "place_ok (with_prio t p s) t = place_ok s t"
      by (auto simp: place_ok_def split: option.splits lhead.splits)
    with True ok(3)[of t] with_prio_runnable[OF _ p] show ?thesis by (auto simp: thr_ok_def)
  qed (use ok(3) with_prio_other in auto)
  then have "sched_inv (with_prio t p s)"
    using ok(1,2) links_group_cong[of "with_prio t p s" s] by (simp add: sched_ok_def)
  then have "kinv (with_prio t p s)" by (rule kinv_from[OF inv]) simp_all
  then show "prio_changed t p s (with_prio t p s)" by (simp add: prio_changed_def)
qed

lemma change_priority_ready:
  assumes inv: "kinv s" and st: "stat_of s t = RT_THREAD_READY" and p: "p < 32"
  shows "\<exists>s'. change_priority t p s = Some s' \<and> prio_changed t p s s' \<and>
    (\<forall>q. lists s' (ReadyQ q) = removeAll t (lists s (ReadyQ q)) @ (if q = unat p then [t] else []))"
proof -
  note ok = sched_okD[OF kinvD(1)[OF inv]]
  have tl: "tlink s t = Some (ReadyQ (prio_of s t))" and r: "runnable_ok s t"
    using thr_okD(2)[OF ok(3) st] by auto
  have c: "cur s \<noteq> Some t" using thr_okD(1)[OF ok(3) tl] by auto
  have only: "removeAll t (lists s h) = lists s h" if "is_wait h" for h
    using that tl links_okD(1)[OF ok(1), of t h] by (cases h) (auto simp: removeAll_id)
  have r2: "tlink s t = Some (ReadyQ q) \<Longrightarrow> q = prio_of s t" for q using tl by simp
  from rt_schedule_remove_thread_eq[OF ok(1,2) r r2] obtain g where
    g: "rt_schedule_remove_thread t s = Some (unlinked t g s)" "links_ok (unlinked t g s)" "group_ok (unlinked t g s)"
    by blast
  let ?s1 = "with_prio t p (unlinked t g s)"
  have lg: "links_ok ?s1" "group_ok ?s1" using g(2,3) links_group_cong[of ?s1 "unlinked t g s"] by simp_all
  have r1: "runnable_ok ?s1 t" by (rule with_prio_runnable) (use r p in simp_all)
  have f1: "tlink ?s1 t = None" "cur ?s1 \<noteq> Some t" "prio_of ?s1 t = unat p" using c by simp_all
  from rt_schedule_insert_thread_eq[OF lg r1 f1(1,2)] obtain g2 where g2:
    "rt_schedule_insert_thread t ?s1 = Some (linked (ReadyQ (unat p)) (lists ?s1 (ReadyQ (unat p))) t [] g2 (set_stat t 1 ?s1))"
    "links_ok (linked (ReadyQ (unat p)) (lists ?s1 (ReadyQ (unat p))) t [] g2 (set_stat t 1 ?s1))"
    "group_ok (linked (ReadyQ (unat p)) (lists ?s1 (ReadyQ (unat p))) t [] g2 (set_stat t 1 ?s1))"
    unfolding Let_def f1(3) by blast
  let ?s = "linked (ReadyQ (unat p)) (lists ?s1 (ReadyQ (unat p))) t [] g2 (set_stat t 1 ?s1)"
  have run: "change_priority t p s = Some ?s"
    using st p g(1) g2(1) by (simp add: change_priority_def prio_mask_def with_prio_def Let_def)
  have oth: "threads ?s u = threads s u" if "u \<noteq> t" for u using that by (simp add: set_stat_def)
  have st': "stat_of ?s u = stat_of s u" for u
  proof (cases "u = t")
    case True
    have "stat_of ?s t = stat_of (set_stat t 1 ?s1) t" by (simp add: stat_of_def)
    then show ?thesis using True st by simp
  next
    case False
    then show ?thesis by (rule stat_of_cong[OF oth])
  qed
  have "thr_ok ?s u" for u
  proof (cases "u = t")
    case True
    then show ?thesis using c r1 by (simp add: thr_ok_def place_ok_def)
  next
    case False
    have "thr_ok ?s u = thr_ok s u" by (rule thr_ok_cong) (use False oth in simp_all)
    with ok(3) show ?thesis by simp
  qed
  then have "sched_inv ?s" using g2(2,3) by (simp add: sched_ok_def)
  then have "kinv ?s" by (rule kinv_from[OF inv]) (use st' in simp_all)
  moreover have "th_error (threads ?s u) = th_error (threads s u)" for u by (simp add: set_stat_def)
  moreover have "lists ?s h = lists s h" if "is_wait h" for h using only[OF that] that by (cases h) auto
  moreover have "th_current_priority (threads ?s t) = p" by (simp add: set_stat_def)
  moreover have "mutexes ?s = mutexes s" "interrupt_nest ?s = interrupt_nest s" "lock_nest ?s = lock_nest s" "tick ?s = tick s"
    "objs ?s = objs s" "cur ?s = cur s"
    by (simp_all add: set_stat_def linked_def unlinked_def)
  ultimately have "prio_changed t p s ?s" using oth st' by (simp add: prio_changed_def)
  moreover have "lists ?s (ReadyQ q) = removeAll t (lists s (ReadyQ q)) @ (if q = unat p then [t] else [])" for q
    by simp
  ultimately show ?thesis using run by blast
qed

lemma set_priority_ok:
  assumes inv: "kinv s" and ty: "rt_object_get_type (OThread t) s = Class_Thread" and p: "p < 32"
  shows "\<exists>s'. rt_thread_control t 2 p s = Some (RT_EOK, s') \<and> prio_changed t p s s'"
proof -
  have "\<exists>s'. change_priority t p s = Some s' \<and> prio_changed t p s s'"
    using change_priority_waiting[OF inv _ p] change_priority_ready[OF inv _ p] by blast
  then show ?thesis using ty by (auto simp: rt_thread_control_def)
qed

end
