(* ===== verification/Ipc_mutex.thy ===== *)
theory Ipc_mutex
  imports Priority
begin

text \<open>
  Mutexes (\<open>rt_mutex_\<close> functions of \<open>src/ipc.c\<close>): recursive, owned by a thread, with priority
  inheritance. \<open>mutex_try\<close> is the part of \<open>rt_mutex_take\<close> from the label \<open>__again\<close>.
\<close>

definition mu_upd :: "nat \<Rightarrow> (rt_mutex \<Rightarrow> rt_mutex) \<Rightarrow> kstate \<Rightarrow> kstate" where
  "mu_upd x f s = s\<lparr>mutexes := (mutexes s)(x := f (mutexes s x))\<rparr>"

definition mutex_free :: rt_mutex where
  "mutex_free = \<lparr>mu_value = 1, mu_original_priority = 0xff, mu_hold = 0, mu_owner = None\<rparr>"

definition rt_mutex_init :: "nat \<Rightarrow> u8 list \<Rightarrow> u8 \<Rightarrow> kstate \<Rightarrow> (rt_err \<times> kstate) option" where
  "rt_mutex_init x name flag s = do {
     s1 \<leftarrow> rt_object_init (OMutex x) Class_Mutex name s;
     s2 \<leftarrow> rt_ipc_object_init (WaitQ (OMutex x)) s1;
     Some (RT_EOK, set_flag (OMutex x) flag (mu_upd x (\<lambda>_. mutex_free) s2)) }"

definition rt_mutex_detach :: "nat \<Rightarrow> kstate \<Rightarrow> (rt_err \<times> kstate) option" where
  "rt_mutex_detach x s = do {
     of_class (OMutex x) Class_Mutex s;
     rt_assert (rt_object_is_systemobject (OMutex x) s);
     s1 \<leftarrow> rt_ipc_list_resume_all (WaitQ (OMutex x)) s;
     Some (RT_EOK, rt_object_detach (OMutex x) s1) }"

definition rt_mutex_create :: "u8 list \<Rightarrow> u8 \<Rightarrow> kstate \<Rightarrow> (nat option \<times> kstate) option" where
  "rt_mutex_create name flag s = do {
     RT_DEBUG_NOT_IN_INTERRUPT s;
     (r, s1) \<leftarrow> rt_object_allocate OMutex Class_Mutex name s;
     case r of None \<Rightarrow> Some (None, s1)
     | Some x \<Rightarrow> do {
         s2 \<leftarrow> rt_ipc_object_init (WaitQ (OMutex x)) s1;
         Some (Some x, set_flag (OMutex x) flag (mu_upd x (\<lambda>_. mutex_free) s2)) } }"

definition rt_mutex_delete :: "nat \<Rightarrow> kstate \<Rightarrow> (rt_err \<times> kstate) option" where
  "rt_mutex_delete x s = do {
     RT_DEBUG_NOT_IN_INTERRUPT s;
     of_class (OMutex x) Class_Mutex s;
     rt_assert (\<not> rt_object_is_systemobject (OMutex x) s);
     s1 \<leftarrow> rt_ipc_list_resume_all (WaitQ (OMutex x)) s;
     s2 \<leftarrow> rt_object_delete (OMutex x) x s1;
     Some (RT_EOK, s2) }"

definition mutex_try :: "nat \<Rightarrow> 32 word \<Rightarrow> nat \<Rightarrow> kstate \<Rightarrow> (rt_err outcome \<times> kstate) option" where
  "mutex_try x time t s =
     (let mu = mutexes s x in
      if 0 < mu_value mu
      then Some (Done RT_EOK, mu_upd x (\<lambda>m. m\<lparr>mu_value := mu_value m - 1, mu_owner := Some t,
               mu_original_priority := th_current_priority (threads s t), mu_hold := mu_hold m + 1\<rparr>) s)
      else if time = 0 then Some (Done (- RT_ETIMEOUT), set_error t (- RT_ETIMEOUT) s)
      else do {
        ow \<leftarrow> mu_owner mu;
        s1 \<leftarrow> (if prio_of s t < prio_of s ow
               then do { (_, a) \<leftarrow> rt_thread_control ow 2 (th_current_priority (threads s t)) s; Some a }
               else Some s);
        s2 \<leftarrow> block_thread (WaitQ (OMutex x)) t (flag_of (OMutex x) s1) time s1;
        Some (Blocked, s2) })"

definition rt_mutex_take :: "nat \<Rightarrow> 32 word \<Rightarrow> kstate \<Rightarrow> (rt_err outcome \<times> kstate) option" where
  "rt_mutex_take x time s = do {
     RT_DEBUG_IN_THREAD_CONTEXT s;
     of_class (OMutex x) Class_Mutex s;
     t \<leftarrow> rt_thread_self s;
     let s1 = set_error t RT_EOK s;
     if mu_owner (mutexes s1 x) = Some t
     then Some (Done RT_EOK, mu_upd x (\<lambda>m. m\<lparr>mu_hold := mu_hold m + 1\<rparr>) s1)
     else mutex_try x time t s1 }"

definition rt_mutex_take_woken :: "nat \<Rightarrow> 32 word \<Rightarrow> nat \<Rightarrow> kstate \<Rightarrow> (rt_err outcome \<times> kstate) option" where
  "rt_mutex_take_woken x time t s =
     (let e = th_error (threads s t) in
      if e \<noteq> RT_EOK
      then (if e = - RT_EINTR then mutex_try x time t s else Some (Done e, s))
      else Some (Done RT_EOK, s))"

text \<open>The three steps of the last \<open>rt_mutex_release\<close>: the owner gets its original priority back, then
  the first waiting thread becomes the owner, or the mutex is free.\<close>

definition mutex_restore :: "nat \<Rightarrow> nat \<Rightarrow> kstate \<Rightarrow> kstate option" where
  "mutex_restore x t s =
     (if mu_original_priority (mutexes s x) \<noteq> th_current_priority (threads s t)
      then do { (_, a) \<leftarrow> rt_thread_control t 2 (mu_original_priority (mutexes s x)) s; Some a }
      else Some s)"

definition mutex_pass :: "nat \<Rightarrow> kstate \<Rightarrow> (rt_err \<times> kstate) option" where
  "mutex_pass x s =
     (case lists s (WaitQ (OMutex x)) of
        w # _ \<Rightarrow> do {
          s1 \<leftarrow> rt_ipc_list_resume (WaitQ (OMutex x))
            (mu_upd x (\<lambda>m. m\<lparr>mu_owner := Some w, mu_original_priority := th_current_priority (threads s w),
                              mu_hold := mu_hold m + 1\<rparr>) s);
          s2 \<leftarrow> rt_schedule s1;
          Some (RT_EOK, s2) }
      | [] \<Rightarrow> Some (RT_EOK, mu_upd x (\<lambda>m. m\<lparr>mu_value := mu_value m + 1, mu_owner := None,
                                            mu_original_priority := 0xff\<rparr>) s))"

definition rt_mutex_release :: "nat \<Rightarrow> kstate \<Rightarrow> (rt_err \<times> kstate) option" where
  "rt_mutex_release x s = do {
     of_class (OMutex x) Class_Mutex s;
     RT_DEBUG_IN_THREAD_CONTEXT s;
     t \<leftarrow> rt_thread_self s;
     if mu_owner (mutexes s x) \<noteq> Some t then Some (- RT_ERROR, set_error t (- RT_ERROR) s)
     else do {
       let s1 = mu_upd x (\<lambda>m. m\<lparr>mu_hold := mu_hold m - 1\<rparr>) s;
       if mu_hold (mutexes s1 x) = 0
       then do { s2 \<leftarrow> mutex_restore x t s1; mutex_pass x s2 }
       else Some (RT_EOK, s1) } }"

definition rt_mutex_control :: "nat \<Rightarrow> nat \<Rightarrow> kstate \<Rightarrow> (rt_err \<times> kstate) option" where
  "rt_mutex_control x cmd s = do {
     of_class (OMutex x) Class_Mutex s;
     Some (- RT_ERROR, s) }"

section \<open>Invariant\<close>

abbreviation mutex_waiters :: "nat \<Rightarrow> kstate \<Rightarrow> nat list" where
  "mutex_waiters x s \<equiv> lists s (WaitQ (OMutex x))"

text \<open>A mutex without owner is free and nobody waits for it; an owner is a thread, with the
  priority it had when it took the mutex as the one to return to.\<close>

definition mutex_ok :: "nat \<Rightarrow> kstate \<Rightarrow> bool" where
  "mutex_ok x s \<longleftrightarrow> rt_object_get_type (OMutex x) s = Class_Mutex \<and>
     (case mu_owner (mutexes s x) of
        None \<Rightarrow> mu_value (mutexes s x) = 1 \<and> mu_hold (mutexes s x) = 0 \<and> mutex_waiters x s = []
      | Some ow \<Rightarrow> mu_value (mutexes s x) = 0 \<and> mu_hold (mutexes s x) \<noteq> 0 \<and> rt_object_get_type (OThread ow) s = Class_Thread \<and>
          mu_original_priority (mutexes s x) < 32 \<and> ow \<notin> set (mutex_waiters x s))"

lemma mutex_okD:
  assumes "mutex_ok x s"
  shows "rt_object_get_type (OMutex x) s = Class_Mutex"
    "mu_owner (mutexes s x) = None \<Longrightarrow> mu_value (mutexes s x) = 1 \<and> mu_hold (mutexes s x) = 0 \<and> mutex_waiters x s = []"
    "mu_owner (mutexes s x) = Some ow \<Longrightarrow> mu_value (mutexes s x) = 0 \<and> mu_hold (mutexes s x) \<noteq> 0 \<and> rt_object_get_type (OThread ow) s = Class_Thread \<and>
       mu_original_priority (mutexes s x) < 32 \<and> ow \<notin> set (mutex_waiters x s)"
  using assms by (auto simp: mutex_ok_def split: option.splits)

lemma mu_upd_simps [simp]:
  "mutexes (mu_upd x f s) = (mutexes s)(x := f (mutexes s x))" "kinv (mu_upd x f s) = kinv s"
  "lists (mu_upd x f s) = lists s" "threads (mu_upd x f s) = threads s" "cur (mu_upd x f s) = cur s"
  "stat_of (mu_upd x f s) t = stat_of s t" "rt_object_get_type z (mu_upd x f s) = rt_object_get_type z s"
  "started (mu_upd x f s) t = started s t" "prio_of (mu_upd x f s) t = prio_of s t"
  "running (mu_upd x f s) t = running s t" "interrupt_nest (mu_upd x f s) = interrupt_nest s"
  by (simp_all add: mu_upd_def stat_of_def rt_object_get_type_def started_def prio_of_def running_def)

section \<open>Taking\<close>

text \<open>The priority a mutex lends: the owner gets the priority of the caller when that is more urgent.\<close>

lemma prio_changed_refl: "kinv s \<Longrightarrow> prio_changed t (th_current_priority (threads s t)) s s"
  by (simp add: prio_changed_def)

lemma prio_changedD:
  assumes "prio_changed t p s s'"
  shows "kinv s'" "prio_of s' t = unat p" "u \<noteq> t \<Longrightarrow> threads s' u = threads s u"
    "u \<noteq> t \<Longrightarrow> prio_of s' u = prio_of s u" "th_error (threads s' u) = th_error (threads s u)"
    "is_wait h \<Longrightarrow> lists s' h = lists s h" "stat_of s' u = stat_of s u" "started s' u = started s u"
    "mutexes s' = mutexes s" "rt_object_get_type z s' = rt_object_get_type z s" "flag_of z s' = flag_of z s"
    "running s' u = running s u" "wait_args z time s' = wait_args z time s" "tick s' = tick s"
  using assms by (simp_all add: prio_changed_def prio_of_def started_def rt_object_get_type_def flag_of_def
      running_def wait_args_def)

lemma maybe_set_priority:
  assumes "kinv s" "c \<Longrightarrow> rt_object_get_type (OThread t) s = Class_Thread \<and> p < 32"
  shows "\<exists>s'. (if c then do { (_, a) \<leftarrow> rt_thread_control t 2 p s; Some a } else Some s) = Some s' \<and>
    prio_changed t (if c then p else th_current_priority (threads s t)) s s'"
  using set_priority_ok[OF assms(1), of t p] assms(2) prio_changed_refl[OF assms(1)] by (cases c) auto

lemma mutex_error [simp]: "mutex_ok x (set_error t e s) = mutex_ok x s"
  "th_current_priority (threads (set_error t e s) u) = th_current_priority (threads s u)"
  by (simp_all add: mutex_ok_def set_error_def rt_object_get_type_def split: option.split)

lemma mutex_again:
  assumes "rt_object_get_type (OMutex x) s = Class_Mutex" "running s t" "mu_owner (mutexes s x) = Some t"
  shows "rt_mutex_take x time s =
    Some (Done RT_EOK, mu_upd x (\<lambda>m. m\<lparr>mu_hold := mu_hold m + 1\<rparr>) (set_error t RT_EOK s))"
  using assms running_checks[OF assms(2)] by (simp add: rt_mutex_take_def of_class_def)

lemma mutex_take_free:
  assumes "mutex_ok x s" "running s t" "mu_owner (mutexes s x) = None"
  shows "rt_mutex_take x time s =
    Some (Done RT_EOK, mu_upd x (\<lambda>_. \<lparr>mu_value = 0, mu_original_priority = th_current_priority (threads s t),
                                      mu_hold = 1, mu_owner = Some t\<rparr>) (set_error t RT_EOK s))"
proof -
  note d = mutex_okD(1,2)[OF assms(1)]
  obtain op where "mutexes s x = \<lparr>mu_value = 1, mu_original_priority = op, mu_hold = 0, mu_owner = None\<rparr>"
    using d(2)[OF assms(3)] assms(3) by (cases "mutexes s x") simp
  then show ?thesis
    using d(1) running_checks[OF assms(2)]
    by (simp add: rt_mutex_take_def of_class_def mutex_try_def mu_upd_def Let_def)
qed

lemma mutex_poll:
  assumes "mutex_ok x s" "running s t" "mu_owner (mutexes s x) = Some ow" "ow \<noteq> t"
  shows "rt_mutex_take x 0 s = Some (Done (- RT_ETIMEOUT), set_error t (- RT_ETIMEOUT) s)"
proof -
  note d = mutex_okD(1)[OF assms(1)] mutex_okD(3)[OF assms(1,3)]
  have "set_error t (- RT_ETIMEOUT) (set_error t RT_EOK s) = set_error t (- RT_ETIMEOUT) s"
    by (simp add: set_error_def thr_upd_def)
  then show ?thesis
    using d assms(3,4) running_checks[OF assms(2)]
    by (simp add: rt_mutex_take_def of_class_def mutex_try_def)
qed

text \<open>The blocked caller, and the owner with the lent priority.\<close>

definition lends :: "nat \<Rightarrow> nat \<Rightarrow> kstate \<Rightarrow> kstate \<Rightarrow> bool" where
  "lends ow t s s1 \<longleftrightarrow> prio_changed ow (if prio_of s t < prio_of s ow then th_current_priority (threads s t)
                                          else th_current_priority (threads s ow)) s s1"

lemma lendsD:
  assumes "lends ow t s s1"
  shows "prio_of s1 ow = min (prio_of s t) (prio_of s ow)" "u \<noteq> ow \<Longrightarrow> prio_of s1 u = prio_of s u"
  using prio_changedD(2,4)[OF assms[unfolded lends_def]] by (auto simp: prio_of_def)

lemma started_prio:
  assumes "kinv s" "started s t"
  shows "prio_of s t < 32" "th_current_priority (threads s t) < 32"
proof -
  have "runnable_ok s t"
    using sched_okD(3)[OF kinvD(1)[OF assms(1)], of t] assms(2) by (auto simp: thr_ok_def started_def)
  then show "prio_of s t < 32" by (simp add: runnable_ok_def Let_def)
  then show "th_current_priority (threads s t) < 32" by (simp add: prio_of_def word_less_nat_alt)
qed

lemma mutex_try_block:
  assumes inv: "kinv s" and ok: "mutex_ok x s" and ow: "mu_owner (mutexes s x) = Some ow" "ow \<noteq> t"
    and t: "time \<noteq> 0" "running s t" "wait_args (OMutex x) time s"
  shows "\<exists>s1 s'. mutex_try x time t s = Some (Blocked, s') \<and> lends ow t s s1 \<and>
    blocked_in (WaitQ (OMutex x)) t (flag_of (OMutex x) s) time s1 s'"
proof -
  note d = mutex_okD(3)[OF ok ow(1)]
  have st: "started s t" using t(2) by (simp add: started_def running_def)
  let ?p = "th_current_priority (threads s t)"
  from maybe_set_priority[OF inv, of "prio_of s t < prio_of s ow" ow ?p] d started_prio(2)[OF inv st]
  obtain s1 where s1: "(if prio_of s t < prio_of s ow
      then do { (_, a) \<leftarrow> rt_thread_control ow 2 ?p s; Some a } else Some s) = Some s1"
    "prio_changed ow (if prio_of s t < prio_of s ow then ?p else th_current_priority (threads s ow)) s s1" by blast
  note c = prio_changedD[OF s1(2)]
  from block_thread_running[of s1 t "WaitQ (OMutex x)" "OMutex x" time] c(1,11,12,13) t obtain s' where s':
    "block_thread (WaitQ (OMutex x)) t (flag_of (OMutex x) s) time s1 = Some s'"
    "blocked_in (WaitQ (OMutex x)) t (flag_of (OMutex x) s) time s1 s'" by auto
  have "mutex_try x time t s = Some (Blocked, s')"
    unfolding mutex_try_def Let_def using d t(1) ow(1) s1(1) s'(1) c(11) by simp
  with s1(2) s'(2) show ?thesis unfolding lends_def by blast
qed

lemma mutex_block:
  assumes inv: "kinv s" and ok: "mutex_ok x s" and ow: "mu_owner (mutexes s x) = Some ow" "ow \<noteq> t"
    and t: "time \<noteq> 0" "running s t" "wait_args (OMutex x) time s"
  shows "\<exists>s1 s'. rt_mutex_take x time s = Some (Blocked, s') \<and> lends ow t (set_error t RT_EOK s) s1 \<and>
    blocked_in (WaitQ (OMutex x)) t (flag_of (OMutex x) s) time s1 s'"
proof -
  let ?s = "set_error t RT_EOK s"
  from mutex_try_block[of ?s x ow t time] assms obtain s1 s' where
    "mutex_try x time t ?s = Some (Blocked, s')" "lends ow t ?s s1"
    "blocked_in (WaitQ (OMutex x)) t (flag_of (OMutex x) s) time s1 s'" by auto
  moreover have "rt_mutex_take x time s = mutex_try x time t ?s"
    using mutex_okD(1)[OF ok] running_checks[OF t(2)] ow by (simp add: rt_mutex_take_def of_class_def)
  ultimately show ?thesis by auto
qed

lemma mutex_block_keeps:
  assumes "mutex_ok x s" "mu_owner (mutexes s x) = Some ow" "ow \<noteq> t" "lends ow t s s1"
    and b: "blocked_in (WaitQ (OMutex x)) t flag time s1 s'" and run: "running s t"
  shows "kinv s'" "mutex_ok x s'" "mutexes s' = mutexes s"
    "mutex_waiters x s' = wait_insert flag s1 t (mutex_waiters x s)"
    "prio_of s' ow = min (prio_of s t) (prio_of s ow)" "prio_of s' t = prio_of s t"
proof -
  note d = mutex_okD(1)[OF assms(1)] mutex_okD(3)[OF assms(1,2)]
  note c = prio_changedD[OF assms(4)[unfolded lends_def]]
  note b' = blocked_inD[OF b]
  note f = core_frameD[OF b'(2)]
  show "kinv s'" by (rule b'(1))
  show mu: "mutexes s' = mutexes s" using f(6) c(9) by simp
  show wt: "mutex_waiters x s' = wait_insert flag s1 t (mutex_waiters x s)" using b'(4) c(6) by simp
  show "prio_of s' ow = min (prio_of s t) (prio_of s ow)" "prio_of s' t = prio_of s t"
    using f(13) lendsD[OF assms(4)] assms(3) by simp_all
  have "rt_object_get_type z s' = rt_object_get_type z s" for z using f(20) c(10) by simp
  with d wt mu assms(2,3) show "mutex_ok x s'" by (simp add: mutex_ok_def)
qed

section \<open>Releasing\<close>

lemma mutex_not_owner:
  assumes "rt_object_get_type (OMutex x) s = Class_Mutex" "running s t" "mu_owner (mutexes s x) \<noteq> Some t"
  shows "rt_mutex_release x s = Some (- RT_ERROR, set_error t (- RT_ERROR) s)"
  using assms running_checks[OF assms(2)] by (simp add: rt_mutex_release_def of_class_def)

lemma mutex_nested:
  assumes "rt_object_get_type (OMutex x) s = Class_Mutex" "running s t" "mu_owner (mutexes s x) = Some t"
    "mu_hold (mutexes s x) \<noteq> 1"
  shows "rt_mutex_release x s = Some (RT_EOK, mu_upd x (\<lambda>m. m\<lparr>mu_hold := mu_hold m - 1\<rparr>) s)"
  using assms running_checks[OF assms(2)] by (simp add: rt_mutex_release_def of_class_def)

lemma restore_ok:
  assumes "kinv s" "rt_object_get_type (OThread t) s = Class_Thread" "mu_original_priority (mutexes s x) < 32"
  shows "\<exists>s'. mutex_restore x t s = Some s' \<and> prio_changed t (mu_original_priority (mutexes s x)) s s'"
proof -
  let ?o = "mu_original_priority (mutexes s x)"
  from maybe_set_priority[OF assms(1), of "?o \<noteq> th_current_priority (threads s t)" t ?o] assms(2,3)
  show ?thesis unfolding mutex_restore_def by (auto split: if_splits)
qed

lemma pass_free:
  assumes "mutex_waiters x s = []"
  shows "mutex_pass x s = Some (RT_EOK, mu_upd x (\<lambda>m. m\<lparr>mu_value := mu_value m + 1, mu_owner := None,
                                            mu_original_priority := 0xff\<rparr>) s)"
  using assms by (simp add: mutex_pass_def)

lemma pass_next:
  assumes inv: "kinv s" and w: "mutex_waiters x s = w # ws"
  shows "\<exists>s'. mutex_pass x s = Some (RT_EOK, s') \<and> kinv s' \<and> mutex_waiters x s' = ws \<and>
    mutexes s' = (mutexes s)(x := (mutexes s x)\<lparr>mu_owner := Some w,
      mu_original_priority := th_current_priority (threads s w), mu_hold := mu_hold (mutexes s x) + 1\<rparr>) \<and>
    (\<forall>k. is_wait k \<and> k \<noteq> WaitQ (OMutex x) \<longrightarrow> lists s' k = lists s k) \<and>
    (\<forall>u. stat_of s' u = RT_THREAD_SUSPEND \<longleftrightarrow> stat_of s u = RT_THREAD_SUSPEND \<and> u \<noteq> w) \<and>
    (\<forall>u. th_error (threads s' u) = th_error (threads s u)) \<and> (\<forall>u. prio_of s' u = prio_of s u) \<and>
    (\<forall>z. rt_object_get_type z s' = rt_object_get_type z s)"
proof -
  let ?s = "mu_upd x (\<lambda>m. m\<lparr>mu_owner := Some w, mu_original_priority := th_current_priority (threads s w),
                              mu_hold := mu_hold m + 1\<rparr>) s"
  have k: "kinv ?s" "mutex_waiters x ?s = w # ws" using inv w by simp_all
  from wl.wake_sched[OF k(1) _ k(2)] obtain s1 s' where s:
    "rt_ipc_list_resume (WaitQ (OMutex x)) ?s = Some s1" "rt_schedule s1 = Some s'" "kinv s'" "wait_frame ?s s'"
    "mutex_waiters x s' = ws" "\<And>k. is_wait k \<and> k \<noteq> WaitQ (OMutex x) \<Longrightarrow> lists s' k = lists s k"
    "\<And>u. stat_of s' u = 2 \<longleftrightarrow> stat_of s u = 2 \<and> u \<noteq> w"
    "\<And>u. th_error (threads s' u) = (if u = w then th_error (threads s w) else th_error (threads s u))" by auto
  note f = core_frameD[OF wait_frameD(1)[OF s(4)]]
  have "mutex_pass x s = Some (RT_EOK, s')" using w s(1,2) by (simp add: mutex_pass_def)
  then show ?thesis using s(3,5-8) f(6,13,20) by (intro exI[of _ s']) simp
qed

lemma release_last:
  assumes ok: "mutex_ok x s" and t: "running s t" "mu_owner (mutexes s x) = Some t"
    and one: "mu_hold (mutexes s x) = 1"
  shows "rt_mutex_release x s =
    Option.bind (mutex_restore x t (mu_upd x (\<lambda>m. m\<lparr>mu_hold := 0\<rparr>) s)) (mutex_pass x)"
proof -
  have "mu_upd x (\<lambda>m. m\<lparr>mu_hold := mu_hold m - 1\<rparr>) s = mu_upd x (\<lambda>m. m\<lparr>mu_hold := 0\<rparr>) s"
    using one by (simp add: mu_upd_def)
  then show ?thesis
    unfolding rt_mutex_release_def Let_def using mutex_okD(1)[OF ok] running_checks[OF t(1)] t(2)
    by (simp add: of_class_def)
qed

text \<open>The outcome of the last release by the owner \<open>t\<close>: \<open>t\<close> has its original priority back, and the first
  waiting thread owns the mutex and is awake, or the mutex is free.\<close>

definition passed_on :: "nat \<Rightarrow> nat \<Rightarrow> kstate \<Rightarrow> kstate \<Rightarrow> bool" where
  "passed_on x t s s' \<longleftrightarrow> prio_of s' t = unat (mu_original_priority (mutexes s x)) \<and>
     (\<forall>u. u \<noteq> t \<longrightarrow> prio_of s' u = prio_of s u) \<and> (\<forall>u. th_error (threads s' u) = th_error (threads s u)) \<and>
     (case lists s (WaitQ (OMutex x)) of
        [] \<Rightarrow> mutexes s' x = mutex_free \<and> lists s' (WaitQ (OMutex x)) = []
      | w # ws \<Rightarrow> mutexes s' x = \<lparr>mu_value = 0, mu_original_priority = th_current_priority (threads s w), mu_hold = 1,
                                  mu_owner = Some w\<rparr> \<and>
          lists s' (WaitQ (OMutex x)) = ws \<and>
          (\<forall>u. stat_of s' u = RT_THREAD_SUSPEND \<longleftrightarrow> stat_of s u = RT_THREAD_SUSPEND \<and> u \<noteq> w))"

lemma mutex_last:
  assumes inv: "kinv s" and ok: "mutex_ok x s" and t: "running s t" "mu_owner (mutexes s x) = Some t"
    and one: "mu_hold (mutexes s x) = 1"
  shows "\<exists>s'. rt_mutex_release x s = Some (RT_EOK, s') \<and> kinv s' \<and> mutex_ok x s' \<and> passed_on x t s s'"
proof -
  note d = mutex_okD(1)[OF ok] mutex_okD(3)[OF ok t(2)]
  let ?s1 = "mu_upd x (\<lambda>m. m\<lparr>mu_hold := 0\<rparr>) s"
  from restore_ok[of ?s1 t x] inv d obtain s2 where s2: "mutex_restore x t ?s1 = Some s2"
    "prio_changed t (mu_original_priority (mutexes s x)) ?s1 s2" by auto
  note c = prio_changedD[OF s2(2)]
  have mu: "mutexes s2 x = (mutexes s x)\<lparr>mu_hold := 0\<rparr>" using c(9) by simp
  note run = release_last[OF ok t one] s2(1)
  show ?thesis
  proof (cases "mutex_waiters x s")
    case Nil
    then have w: "mutex_waiters x s2 = []" using c(6) by simp
    let ?s = "mu_upd x (\<lambda>m. m\<lparr>mu_value := mu_value m + 1, mu_owner := None, mu_original_priority := 0xff\<rparr>) s2"
    have m: "mutexes ?s x = mutex_free" using mu d by (simp add: mutex_free_def)
    have "kinv ?s" using c(1) by simp
    moreover have "mutex_ok x ?s" unfolding mutex_ok_def m using w c(10) d by (simp add: mutex_free_def)
    moreover have "passed_on x t s ?s" unfolding passed_on_def m using Nil w c(2,4,5) by simp
    ultimately show ?thesis using run pass_free[OF w] by auto
  next
    case (Cons w ws)
    then have w: "mutex_waiters x s2 = w # ws" using c(6) by simp
    have wt: "w \<noteq> t" using d Cons by auto
    then have pw: "th_current_priority (threads s2 w) = th_current_priority (threads s w)" using c(3) by simp
    have st: "stat_of s w = 2" using waiting_suspended[OF inv, of "WaitQ (OMutex x)" w] Cons by simp
    have w3: "th_current_priority (threads s w) < 32" "rt_object_get_type (OThread w) s = 1"
      using started_prio(2)[OF inv, of w] kinvD(3)[OF inv, of w] st by (simp_all add: started_def typed_ok_def)
    have dis: "w \<notin> set ws" using lists_distinct[OF inv, of "WaitQ (OMutex x)"] Cons by simp
    from pass_next[OF c(1) w] obtain s' where s': "mutex_pass x s2 = Some (RT_EOK, s')" "kinv s'"
      "mutex_waiters x s' = ws"
      "mutexes s' = (mutexes s2)(x := (mutexes s2 x)\<lparr>mu_owner := Some w,
      mu_original_priority := th_current_priority (threads s2 w), mu_hold := mu_hold (mutexes s2 x) + 1\<rparr>)"
      "\<And>u. stat_of s' u = 2 \<longleftrightarrow> stat_of s2 u = 2 \<and> u \<noteq> w" "\<And>u. prio_of s' u = prio_of s2 u"
      "\<And>z. rt_object_get_type z s' = rt_object_get_type z s2"
      "\<And>u. th_error (threads s' u) = th_error (threads s2 u)" by blast
    have m: "mutexes s' x = \<lparr>mu_value = 0, mu_original_priority = th_current_priority (threads s w), mu_hold = 1,
                             mu_owner = Some w\<rparr>" using s'(4) mu pw d by simp
    have "mutex_ok x s'" unfolding mutex_ok_def m using s'(3,7) c(10) d w3 dis by simp
    moreover have "passed_on x t s s'" unfolding passed_on_def m Cons using s'(3,5,6,8) c(2,4,5,7) by simp
    ultimately show ?thesis using run s'(1,2) by auto
  qed
qed

section \<open>Histories\<close>

lemma mutex_ok_hold:
  assumes "mutex_ok x s" "mu_owner (mutexes s x) = Some t" "h \<noteq> 0"
  shows "mutex_ok x (mu_upd x (mu_hold_update (\<lambda>_. h)) s)"
  using mutex_okD(1)[OF assms(1)] mutex_okD(3)[OF assms(1,2)] assms(2,3) by (simp add: mutex_ok_def)

text \<open>What a take or a release does to the errors and the wait list.\<close>

definition take_waits :: "nat \<Rightarrow> nat \<Rightarrow> rt_err outcome \<Rightarrow> kstate \<Rightarrow> kstate \<Rightarrow> bool" where
  "take_waits x t res s s' \<longleftrightarrow> (\<forall>u. u \<noteq> t \<longrightarrow> th_error (threads s' u) = th_error (threads s u)) \<and>
     (if res = Blocked then th_error (threads s' t) = RT_EOK \<and> set (mutex_waiters x s') = insert t (set (mutex_waiters x s))
      else mutex_waiters x s' = mutex_waiters x s)"

lemma mutex_take_step:
  assumes inv: "kinv s" and ok: "mutex_ok x s" and t: "running s t" "wait_args (OMutex x) time s"
    and run: "rt_mutex_take x time s = Some (res, s')"
    and room: "\<lbrakk>mu_owner (mutexes s x) = Some t; res = Done RT_EOK\<rbrakk> \<Longrightarrow> mu_hold (mutexes s x) + 1 \<noteq> 0"
  shows "kinv s' \<and> mutex_ok x s' \<and> take_waits x t res s s' \<and>
    (if mu_owner (mutexes s x) = None then res = Done RT_EOK \<and> mu_owner (mutexes s' x) = Some t \<and> mu_hold (mutexes s' x) = 1
     else if mu_owner (mutexes s x) = Some t then res = Done RT_EOK \<and>
       mutexes s' x = (mutexes s x)\<lparr>mu_hold := mu_hold (mutexes s x) + 1\<rparr>
     else res \<noteq> Done RT_EOK \<and> mutexes s' x = mutexes s x)"
proof -
  have ty: "rt_object_get_type (OThread t) s = 1"
    using kinvD(3)[OF inv, of t] t(1) by (simp add: running_def started_def typed_ok_def)
  have pr: "th_current_priority (threads s t) < 32"
    using started_prio(2)[OF inv, of t] t(1) by (simp add: running_def started_def)
  note d = mutex_okD[OF ok]
  have er: "th_error (threads (set_error t e s) u) = (if u = t then e else th_error (threads s u))" for e u
    by (simp add: set_error_def)
  consider "mu_owner (mutexes s x) = None" | "mu_owner (mutexes s x) = Some t"
    | ow where "mu_owner (mutexes s x) = Some ow" "ow \<noteq> t" "time = 0"
    | ow where "mu_owner (mutexes s x) = Some ow" "ow \<noteq> t" "time \<noteq> 0" by (cases "mu_owner (mutexes s x)") auto
  then show ?thesis
  proof cases
    case 1
    have "res = Done RT_EOK" "s' = mu_upd x (\<lambda>_. \<lparr>mu_value = 0, mu_original_priority = th_current_priority (threads s t),
        mu_hold = 1, mu_owner = Some t\<rparr>) (set_error t RT_EOK s)"
      using mutex_take_free[OF ok t(1) 1, of time] run by auto
    then show ?thesis using inv 1 ty pr d(1) d(2)[OF 1] er by (simp add: mutex_ok_def take_waits_def)
  next
    case 2
    have e: "mu_upd x (\<lambda>m. m\<lparr>mu_hold := mu_hold m + 1\<rparr>) s0 = mu_upd x (mu_hold_update (\<lambda>_. mu_hold (mutexes s x) + 1)) s0"
      if "mutexes s0 = mutexes s" for s0 using that by (simp add: mu_upd_def)
    have r: "res = Done RT_EOK" "s' = mu_upd x (mu_hold_update (\<lambda>_. mu_hold (mutexes s x) + 1)) (set_error t RT_EOK s)"
      using mutex_again[OF d(1) t(1) 2, of time] run by (simp_all add: e)
    then show ?thesis using inv 2 mutex_ok_hold[of x "set_error t RT_EOK s" t] ok room[OF 2 r(1)] er
      by (simp add: take_waits_def)
  next
    case 3
    then have "res = Done (- RT_ETIMEOUT)" "s' = set_error t (- RT_ETIMEOUT) s"
      using mutex_poll[OF ok t(1) 3(1,2)] run by auto
    then show ?thesis using inv ok 3 er by (simp add: take_waits_def)
  next
    case 4
    from mutex_block[OF inv ok 4 t] run obtain s1 where b: "res = Blocked" "lends ow t (set_error t RT_EOK s) s1"
      "blocked_in (WaitQ (OMutex x)) t (flag_of (OMutex x) s) time s1 s'" by auto
    have "th_error (threads s' u) = (if u = t then RT_EOK else th_error (threads s u))" for u
      using blocked_inD(7)[OF b(3), of u] prio_changedD(5)[OF b(2)[unfolded lends_def], of u] er by simp
    moreover from mutex_block_keeps[OF _ _ 4(2) b(2,3)] ok 4(1,2) t(1)
    have "kinv s'" "mutex_ok x s'" "mutexes s' x = mutexes s x" "set (mutex_waiters x s') = insert t (set (mutex_waiters x s))"
      by simp_all
    ultimately show ?thesis using b(1) 4(1,2) by (simp add: take_waits_def)
  qed
qed

lemma mutex_release_step:
  assumes inv: "kinv s" and ok: "mutex_ok x s" and t: "running s t" and run: "rt_mutex_release x s = Some (e, s')"
  shows "kinv s' \<and> mutex_ok x s' \<and>
    (if mu_owner (mutexes s x) \<noteq> Some t then e = - RT_ERROR \<and> s' = set_error t (- RT_ERROR) s
     else if mu_hold (mutexes s x) = 1 then e = RT_EOK \<and> passed_on x t s s'
     else e = RT_EOK \<and> s' = mu_upd x (mu_hold_update (\<lambda>_. mu_hold (mutexes s x) - 1)) s)"
proof -
  note d = mutex_okD[OF ok]
  consider "mu_owner (mutexes s x) \<noteq> Some t" | "mu_owner (mutexes s x) = Some t" "mu_hold (mutexes s x) = 1"
    | "mu_owner (mutexes s x) = Some t" "mu_hold (mutexes s x) \<noteq> 1" by blast
  then show ?thesis
  proof cases
    case 1
    then show ?thesis using mutex_not_owner[OF d(1) t 1] run inv ok by auto
  next
    case 2
    then show ?thesis using mutex_last[OF inv ok t 2] run by auto
  next
    case 3
    have eq: "mu_upd x (\<lambda>m. m\<lparr>mu_hold := mu_hold m - 1\<rparr>) s = mu_upd x (mu_hold_update (\<lambda>_. mu_hold (mutexes s x) - 1)) s"
      by (simp add: mu_upd_def)
    have "mu_hold (mutexes s x) - 1 \<noteq> 0" using 3(2) by simp
    then show ?thesis using mutex_nested[OF d(1) t 3] run inv 3 mutex_ok_hold[OF ok 3(1)] unfolding eq by auto
  qed
qed

text \<open>A history of one mutex: calls of running threads, the rest of a take that had blocked, timeouts of
  waiting threads, and anything that leaves the mutex alone in between. \<open>P\<close> are the threads inside
  \<open>rt_mutex_take\<close>; \<open>held t\<close> is the number of takes of \<open>t\<close> that have returned \<open>RT_EOK\<close> less its successful
  releases, and \<open>peak\<close> the largest nesting so far.\<close>

abbreviation (input) mutex_queue :: "nat \<Rightarrow> lhead" where
  "mutex_queue x \<equiv> WaitQ (OMutex x)"

abbreviation taken :: "rt_err outcome \<Rightarrow> nat \<Rightarrow> (nat \<Rightarrow> nat) \<Rightarrow> (nat \<Rightarrow> nat)" where
  "taken res t held \<equiv> (if res = Done RT_EOK then held(t := held t + 1) else held)"

inductive mutex_run :: "nat \<Rightarrow> kstate \<Rightarrow> nat set \<Rightarrow> (nat \<Rightarrow> nat) \<Rightarrow> nat \<Rightarrow> kstate \<Rightarrow> bool" for x :: nat and s0 :: kstate where
  start: "mutex_run x s0 {} (\<lambda>_. 0) 0 s0"
| take: "\<lbrakk>mutex_run x s0 P held peak s; running s t; t \<notin> P; wait_args (OMutex x) time s;
    rt_mutex_take x time s = Some (res, s')\<rbrakk> \<Longrightarrow>
    mutex_run x s0 (if res = Blocked then insert t P else P) (taken res t held) (max peak (taken res t held t)) s'"
| woken: "\<lbrakk>mutex_run x s0 P held peak s; running s t; t \<in> P; wait_args (OMutex x) time s;
    rt_mutex_take_woken x time t s = Some (res, s')\<rbrakk> \<Longrightarrow>
    mutex_run x s0 (if res = Blocked then P else P - {t}) (taken res t held) (max peak (taken res t held t)) s'"
| release: "\<lbrakk>mutex_run x s0 P held peak s; running s t; t \<notin> P; rt_mutex_release x s = Some (e, s')\<rbrakk> \<Longrightarrow>
    mutex_run x s0 P (if e = RT_EOK then held(t := held t - 1) else held) peak s'"
| timeout: "\<lbrakk>mutex_run x s0 P held peak s; t \<in> set (mutex_waiters x s); ThreadTimer t \<notin> set (timer_list s);
    rt_thread_timeout t s = Some s'\<rbrakk> \<Longrightarrow> mutex_run x s0 P held peak s'"
| other: "\<lbrakk>mutex_run x s0 P held peak s; kinv s'; mutexes s' x = mutexes s x;
    \<And>z. rt_object_get_type z s' = rt_object_get_type z s; bystander (mutex_queue x) P s s'\<rbrakk> \<Longrightarrow>
    mutex_run x s0 P held peak s'"

text \<open>An owner that has been given the mutex by a release, and has not returned from its take, holds it once.\<close>

definition holds_as :: "(nat \<Rightarrow> nat) \<Rightarrow> nat set \<Rightarrow> rt_mutex \<Rightarrow> bool" where
  "holds_as held g m \<longleftrightarrow> (case mu_owner m of None \<Rightarrow> held = (\<lambda>_. 0) \<and> g = {}
     | Some t \<Rightarrow> (if t \<in> g then held = (\<lambda>_. 0) \<and> mu_hold m = 1 \<and> g = {t}
                 else held = (\<lambda>_. 0)(t := unat (mu_hold m)) \<and> g = {}))"

definition mutex_inv :: "nat \<Rightarrow> nat set \<Rightarrow> (nat \<Rightarrow> nat) \<Rightarrow> kstate \<Rightarrow> bool" where
  "mutex_inv x P held s \<longleftrightarrow> kinv s \<and> mutex_ok x s \<and> in_calls (mutex_queue x) P s \<and>
     holds_as held (granted (mutex_queue x) P s) (mutexes s x)"

lemma mutex_invD:
  assumes "mutex_inv x P held s"
  shows "kinv s" "mutex_ok x s" "in_calls (mutex_queue x) P s" "holds_as held (granted (mutex_queue x) P s) (mutexes s x)"
  using assms by (simp_all add: mutex_inv_def)

lemma granted_sub: "granted h P s \<subseteq> P"
  by (auto simp: granted_def)

lemma mutex_take_inv:
  assumes i: "mutex_inv x P held s" and t: "running s t" "t \<notin> P" "wait_args (OMutex x) time s"
    and run: "rt_mutex_take x time s = Some (res, s')" and peak: "taken res t held t \<le> 255"
  shows "mutex_inv x (if res = Blocked then insert t P else P) (taken res t held) s'"
proof -
  note c = mutex_invD[OF i]
  have ng: "t \<notin> granted (mutex_queue x) P s" using granted_sub t(2) by blast
  have h: "unat (mu_hold (mutexes s x)) = held t" if "mu_owner (mutexes s x) = Some t"
    using c(4) ng that by (simp add: holds_as_def)
  have room: "mu_hold (mutexes s x) + 1 \<noteq> 0 \<and> unat (mu_hold (mutexes s x) + 1) = held t + 1"
    if "mu_owner (mutexes s x) = Some t" "res = Done RT_EOK"
  proof -
    have "unat (mu_hold (mutexes s x)) + 1 < 256" using h[OF that(1)] peak that(2) by simp
    then have "unat (mu_hold (mutexes s x) + 1) = held t + 1" using h[OF that(1)] by (simp add: unat_word_ariths)
    then show ?thesis by (metis add_is_0 one_neq_zero unat_0)
  qed
  from mutex_take_step[OF c(1,2) t(1,3) run] room have st: "kinv s'" "mutex_ok x s'" "take_waits x t res s s'"
    "if mu_owner (mutexes s x) = None then res = Done RT_EOK \<and> mu_owner (mutexes s' x) = Some t \<and> mu_hold (mutexes s' x) = 1
     else if mu_owner (mutexes s x) = Some t then res = Done RT_EOK \<and>
       mutexes s' x = (mutexes s x)\<lparr>mu_hold := mu_hold (mutexes s x) + 1\<rparr>
     else res \<noteq> Done RT_EOK \<and> mutexes s' x = mutexes s x" by blast+
  have calls: "in_calls (mutex_queue x) (if res = Blocked then insert t P else P) s' \<and>
    granted (mutex_queue x) (if res = Blocked then insert t P else P) s' = granted (mutex_queue x) P s"
  proof (cases "res = Blocked")
    case True
    then show ?thesis using st(3) calls_block[OF c(3) t(2), of s'] by (simp add: take_waits_def)
  next
    case False
    then have "bystander (mutex_queue x) P s s'"
      using st(3) t(2) by (intro bystander_same) (auto simp: take_waits_def)
    then show ?thesis using False bystander_calls[OF c(3)] by simp
  qed
  have "holds_as (taken res t held) (granted (mutex_queue x) P s) (mutexes s' x)"
    using st(4) c(4) ng room by (cases "mu_owner (mutexes s x)") (auto simp: holds_as_def split: if_splits)
  then show ?thesis using st(1,2) calls by (simp add: mutex_inv_def)
qed

lemma mutex_release_inv:
  assumes i: "mutex_inv x P held s" and t: "running s t" "t \<notin> P" and run: "rt_mutex_release x s = Some (e, s')"
  shows "mutex_inv x P (if e = RT_EOK then held(t := held t - 1) else held) s'"
proof -
  note c = mutex_invD[OF i]
  have ng: "t \<notin> granted (mutex_queue x) P s" using granted_sub t(2) by blast
  from mutex_release_step[OF c(1,2) t(1) run] have st: "kinv s'" "mutex_ok x s'"
    "if mu_owner (mutexes s x) \<noteq> Some t then e = - RT_ERROR \<and> s' = set_error t (- RT_ERROR) s
     else if mu_hold (mutexes s x) = 1 then e = RT_EOK \<and> passed_on x t s s'
     else e = RT_EOK \<and> s' = mu_upd x (mu_hold_update (\<lambda>_. mu_hold (mutexes s x) - 1)) s" by blast+
  consider "mu_owner (mutexes s x) \<noteq> Some t" | "mu_owner (mutexes s x) = Some t" "mu_hold (mutexes s x) \<noteq> 1"
    | "mu_owner (mutexes s x) = Some t" "mu_hold (mutexes s x) = 1" by blast
  then show ?thesis
  proof cases
    case 1
    then have r: "e = - RT_ERROR" "s' = set_error t (- RT_ERROR) s" using st(3) by simp_all
    have "bystander (mutex_queue x) P s s'" using t(2) r(2) by (intro bystander_same) (auto simp: set_error_def)
    note b = bystander_calls[OF c(3) this]
    then show ?thesis using st(1,2) r c(4) by (simp add: mutex_inv_def)
  next
    case 2
    then have r: "e = RT_EOK" "s' = mu_upd x (mu_hold_update (\<lambda>_. mu_hold (mutexes s x) - 1)) s" using st(3) by simp_all
    have "bystander (mutex_queue x) P s s'" by (rule bystander_same) (simp_all add: r(2))
    note b = bystander_calls[OF c(3) this]
    have "mu_hold (mutexes s x) \<noteq> 0" using mutex_okD(3)[OF c(2) 2(1)] by simp
    then have "unat (mu_hold (mutexes s x) - 1) = unat (mu_hold (mutexes s x)) - 1" by (rule unat_minus_one)
    then have "holds_as (held(t := held t - 1)) (granted (mutex_queue x) P s) (mutexes s' x)"
      using c(4) 2(1) ng r(2) by (simp add: holds_as_def)
    then show ?thesis using st(1,2) b r(1) by (simp add: mutex_inv_def)
  next
    case 3
    then have p: "e = RT_EOK" "passed_on x t s s'" using st(3) by simp_all
    have er: "th_error (threads s' u) = th_error (threads s u)" for u using p(2) by (simp add: passed_on_def)
    have h: "held = (\<lambda>_. 0)(t := 1)" "granted (mutex_queue x) P s = {}" using c(4) 3 ng by (simp_all add: holds_as_def)
    then have zero: "held(t := held t - 1) = (\<lambda>_. 0)" by (simp add: fun_eq_iff)
    show ?thesis
    proof (cases "mutex_waiters x s")
      case Nil
      then have m: "mutexes s' x = mutex_free" "mutex_waiters x s' = []" using p(2) by (simp_all add: passed_on_def)
      have "bystander (mutex_queue x) P s s'" by (rule bystander_same) (simp_all add: m(2) Nil er)
      note b = bystander_calls[OF c(3) this]
      have "holds_as (\<lambda>_. 0) (granted (mutex_queue x) P s') (mutexes s' x)" using b(2) h(2) m(1) by (simp add: holds_as_def mutex_free_def)
      then show ?thesis using st(1,2) b(1) p(1) zero by (simp add: mutex_inv_def)
    next
      case (Cons w ws)
      then have m: "mu_owner (mutexes s' x) = Some w" "mu_hold (mutexes s' x) = 1" "mutex_waiters x s' = ws"
        using p(2) by (simp_all add: passed_on_def)
      have "w \<notin> set ws" using lists_distinct[OF c(1), of "mutex_queue x"] Cons by simp
      note b = calls_wake[OF c(3) Cons this m(3) er]
      have "holds_as (\<lambda>_. 0) (granted (mutex_queue x) P s') (mutexes s' x)" using b(2) h(2) m by (simp add: holds_as_def)
      then show ?thesis using st(1,2) b(1) p(1) zero by (simp add: mutex_inv_def)
    qed
  qed
qed

lemma mutex_woken_inv:
  assumes i: "mutex_inv x P held s" and t: "running s t" "t \<in> P" and run: "rt_mutex_take_woken x time t s = Some (res, s')"
  shows "mutex_inv x (if res = Blocked then P else P - {t}) (taken res t held) s'"
proof -
  note c = mutex_invD[OF i]
  have nw: "t \<notin> set (mutex_waiters x s)" by (rule running_not_waiting[OF c(1) _ t(1)]) simp
  note w = calls_return[OF c(3) t(2) nw]
  have "th_error (threads s t) \<noteq> - RT_EINTR" using c(3) t(2) by (simp add: in_calls_def)
  then have r: "res = Done (th_error (threads s t))" "s' = s" using run by (auto simp: rt_mutex_take_woken_def Let_def split: if_splits)
  have "holds_as (taken res t held) (granted (mutex_queue x) P s - {t}) (mutexes s x)"
  proof (cases "th_error (threads s t) = RT_EOK")
    case True
    then have "t \<in> granted (mutex_queue x) P s" using w(3) by simp
    then show ?thesis using c(4) True r(1)
      by (cases "mu_owner (mutexes s x)") (auto simp: holds_as_def split: if_splits)
  next
    case False
    then have "granted (mutex_queue x) P s - {t} = granted (mutex_queue x) P s" using w(3) by auto
    then show ?thesis using c(4) False r(1) by simp
  qed
  then show ?thesis using c(1,2) w(1,2) r by (simp add: mutex_inv_def)
qed

lemma mutex_run_inv:
  assumes "mutex_run x s0 P held peak s" "kinv s0" "mutex_ok x s0" "mu_owner (mutexes s0 x) = None" "peak \<le> 255"
  shows "mutex_inv x P held s"
  using assms
proof induction
  case start
  then show ?case using mutex_okD(2)[OF start(2,3)] by (simp add: mutex_inv_def in_calls_def granted_def holds_as_def)
next
  case (take P held peak s t time res s')
  then show ?case using mutex_take_inv[of x P held s t time res s'] by simp
next
  case (woken P held peak s t time res s')
  then show ?case using mutex_woken_inv[of x P held s t time res s'] by simp
next
  case (release P held peak s t e s')
  then show ?case using mutex_release_inv[of x P held s t e s'] by simp
next
  case (timeout P held peak s t s')
  then have i: "mutex_inv x P held s" by simp
  note c = mutex_invD[OF i]
  note b = timeout_bystander[OF c(1) is_wait_simps(1) timeout.hyps(2-4)]
  have st: "bystander (mutex_queue x) P s s'" by (rule b(3))
  note f = core_frameD[OF b(2)] and bc = bystander_calls[OF c(3) st]
  have "set (mutex_waiters x s') \<subseteq> set (mutex_waiters x s)" using st by (simp add: bystander_def)
  then have "mutex_ok x s'" using c(2) f(6,20) by (auto simp: mutex_ok_def split: option.splits)
  then show ?case using b(1) bc c(4) f(6) by (simp add: mutex_inv_def)
next
  case (other P held peak s s')
  then have i: "mutex_inv x P held s" by simp
  note c = mutex_invD[OF i] and bc = bystander_calls[OF mutex_invD(3)[OF i] other.hyps(5)]
  have "set (mutex_waiters x s') \<subseteq> set (mutex_waiters x s)" using other.hyps(5) by (simp add: bystander_def)
  then have "mutex_ok x s'" using c(2) other.hyps(3,4) by (auto simp: mutex_ok_def split: option.splits)
  then show ?case using other.hyps(2,3) bc c(4) by (simp add: mutex_inv_def)
qed

section \<open>Properties\<close>

text \<open>C6: a mutex excludes, as long as no thread nests more than 255 takes, the range of the 8-bit hold counter:
  over every history of takes, releases, wake-ups and timeouts within that bound at most one thread is between
  a successful take and its release, that thread is the owner the mutex records, and the hold counter is the
  number of its takes not yet released; threads wait only while the mutex has an owner. A thread that was given
  the mutex by a release, and has not yet returned from its take, is the owner, and no other holds it.\<close>

theorem mutex_excludes:
  assumes "mutex_run x s0 P held peak s" and "kinv s0" and "mutex_ok x s0" and "mu_owner (mutexes s0 x) = None"
    and "peak \<le> 255"
  shows "(\<forall>t. 0 < held t \<longrightarrow> mu_owner (mutexes s x) = Some t \<and> unat (mu_hold (mutexes s x)) = held t) \<and>
    (\<forall>t u. 0 < held t \<and> 0 < held u \<longrightarrow> t = u) \<and>
    (\<forall>t \<in> granted (WaitQ (OMutex x)) P s. mu_owner (mutexes s x) = Some t \<and> held = (\<lambda>_. 0)) \<and>
    (lists s (WaitQ (OMutex x)) \<noteq> [] \<longrightarrow> mu_owner (mutexes s x) \<noteq> None)"
proof -
  note i = mutex_invD[OF mutex_run_inv[OF assms]]
  show ?thesis
  proof (cases "mu_owner (mutexes s x)")
    case None
    then show ?thesis using i(4) mutex_okD(2)[OF i(2) None] by (simp add: holds_as_def)
  next
    case (Some t)
    then show ?thesis using i(4) by (auto simp: holds_as_def split: if_splits)
  qed
qed

text \<open>Thread 1 takes mutex 4 of the sample state.\<close>

lemma sample_mutex_take:
  "rt_mutex_take 4 0 sample = Some (Done RT_EOK, mu_upd 4 (\<lambda>_. \<lparr>mu_value = 0, mu_original_priority = 10,
     mu_hold = 1, mu_owner = Some 1\<rparr>) (set_error 1 RT_EOK sample))"
  "mutex_ok 4 sample" "mu_owner (mutexes sample 4) = None" "running sample 1" "wait_args (OMutex 4) 0 sample"
proof -
  show ok: "mutex_ok 4 sample" by (simp add: mutex_ok_def sample_def rt_object_get_type_def sample_type_def)
  show ow: "mu_owner (mutexes sample 4) = None" by (simp add: sample_def)
  show r: "running sample 1" by (simp add: running_def sample_simps sample_stat)
  show "wait_args (OMutex 4) 0 sample" by (simp add: wait_args_def sample_type_ok)
  have "th_current_priority (threads sample 1) = 10" by (simp add: sample_simps sample_thread_def)
  with mutex_take_free[OF ok r ow, of 0] show "rt_mutex_take 4 0 sample = Some (Done RT_EOK,
     mu_upd 4 (\<lambda>_. \<lparr>mu_value = 0, mu_original_priority = 10, mu_hold = 1, mu_owner = Some 1\<rparr>)
       (set_error 1 RT_EOK sample))" by simp
qed

theorem mutex_excludes_witness:
  "\<exists>s held. mutex_run 4 sample {} held 1 s \<and> held 1 = 1 \<and> mu_owner (mutexes s 4) = Some 1 \<and> unat (mu_hold (mutexes s 4)) = 1"
proof -
  note m = sample_mutex_take
  obtain s where s: "rt_mutex_take 4 0 sample = Some (Done RT_EOK, s)" using m(1) by blast
  have run: "mutex_run 4 sample {} ((\<lambda>_. 0)(1 := 1)) 1 s"
    using mutex_run.take[OF mutex_run.start m(4) _ m(5) s] by simp
  have "mu_owner (mutexes s 4) = Some 1" "unat (mu_hold (mutexes s 4)) = 1"
    using conjunct1[OF mutex_excludes[OF run sample_kinv m(2,3)], THEN spec, of 1] by simp_all
  with run show ?thesis by (intro exI[of _ s] exI[of _ "(\<lambda>_. 0)(1 := 1)"]) simp
qed

text \<open>C17: every branch of \<open>rt_mutex_take\<close>. A free mutex is taken; the owner only counts; another thread
  is refused with \<open>-RT_ETIMEOUT\<close> when it does not want to wait, and otherwise waits in the list of the
  mutex while the owner's priority is raised to its own when that is more urgent, and no other priority
  changes: the owner is never less urgent than the thread it blocks.\<close>

theorem mutex_take_behaviour:
  assumes "kinv s" and "mutex_ok x s" and "running s t" and "wait_args (OMutex x) time s"
  shows "\<exists>r s'. rt_mutex_take x time s = Some (r, s') \<and> kinv s' \<and>
    (case mu_owner (mutexes s x) of
       None \<Rightarrow> r = Done RT_EOK \<and> mutexes s' x = \<lparr>mu_value = 0,
         mu_original_priority = th_current_priority (threads s t), mu_hold = 1, mu_owner = Some t\<rparr>
     | Some ow \<Rightarrow>
         if ow = t then r = Done RT_EOK \<and> mutexes s' x = (mutexes s x)\<lparr>mu_hold := mu_hold (mutexes s x) + 1\<rparr>
         else if time = 0 then r = Done (- RT_ETIMEOUT) \<and> s' = set_error t (- RT_ETIMEOUT) s
         else r = Blocked \<and> mutexes s' = mutexes s \<and> mutex_ok x s' \<and> stat_of s' t = RT_THREAD_SUSPEND \<and>
           set (lists s' (WaitQ (OMutex x))) = insert t (set (lists s (WaitQ (OMutex x)))) \<and>
           prio_of s' ow = min (prio_of s t) (prio_of s ow) \<and> (\<forall>u. u \<noteq> ow \<longrightarrow> prio_of s' u = prio_of s u))"
proof -
  note d = mutex_okD[OF assms(2)]
  consider "mu_owner (mutexes s x) = None" | "mu_owner (mutexes s x) = Some t"
    | ow where "mu_owner (mutexes s x) = Some ow" "ow \<noteq> t" "time = 0"
    | ow where "mu_owner (mutexes s x) = Some ow" "ow \<noteq> t" "time \<noteq> 0" by (cases "mu_owner (mutexes s x)") auto
  then show ?thesis
  proof cases
    case 4
    from mutex_block[OF assms(1,2) 4 assms(3,4)] obtain s1 s' where b: "rt_mutex_take x time s = Some (Blocked, s')"
      "lends ow t (set_error t RT_EOK s) s1" "blocked_in (WaitQ (OMutex x)) t (flag_of (OMutex x) s) time s1 s'" by auto
    note k = mutex_block_keeps[OF _ _ 4(2) b(2,3)] and f = core_frameD(13)[OF blocked_inD(2)[OF b(3)]]
    have "prio_of s' u = prio_of s u" if "u \<noteq> ow" for u using f[of u] lendsD(2)[OF b(2) that] by simp
    with k b(1) blocked_inD(3)[OF b(3)] 4 assms(2,3) show ?thesis by simp
  next
    case 3
    then show ?thesis using mutex_poll[OF assms(2,3) 3(1,2)] assms(1) by simp
  qed (use mutex_take_free[OF assms(2,3)] mutex_again[OF d(1) assms(3)] assms(1) in simp_all)
qed

text \<open>Thread 1, of priority 10, meets mutex 4 owned by thread 3, of priority 20.\<close>

definition sample_owned :: kstate where
  "sample_owned = mu_upd 4 (\<lambda>_. \<lparr>mu_value = 0, mu_original_priority = 20, mu_hold = 1, mu_owner = Some 3\<rparr>) sample"

lemma sample_owned_ok: "kinv sample_owned" "mutex_ok 4 sample_owned" "running sample_owned 1"
  "wait_args (OMutex 4) time sample_owned = (0 < sint time \<longrightarrow> time \<noteq> 0x7fffffff)"
  "mu_owner (mutexes sample_owned 4) = Some 3" "prio_of sample_owned 1 = 10" "prio_of sample_owned 3 = 20"
proof -
  show "kinv sample_owned" using sample_kinv by (simp add: sample_owned_def)
  show "mutex_ok 4 sample_owned"
    by (simp add: mutex_ok_def sample_owned_def) (simp add: sample_def rt_object_get_type_def sample_type_def)
  show "running sample_owned 1" using sample_mutex_take(4) by (simp add: sample_owned_def)
  show "wait_args (OMutex 4) time sample_owned = (0 < sint time \<longrightarrow> time \<noteq> 0x7fffffff)"
    by (simp add: wait_args_def sample_owned_def flag_of_def mu_upd_def) (simp add: sample_def)
  show "mu_owner (mutexes sample_owned 4) = Some 3" "prio_of sample_owned 1 = 10" "prio_of sample_owned 3 = 20"
    by (simp_all add: sample_owned_def prio_of_def sample_simps sample_thread_def)
qed

theorem mutex_take_behaviour_witness:
  "\<exists>s'. rt_mutex_take 4 10 sample_owned = Some (Blocked, s') \<and> prio_of s' 3 = 10 \<and> stat_of s' 1 = RT_THREAD_SUSPEND"
  using mutex_take_behaviour[OF sample_owned_ok(1-3), of 10] sample_owned_ok(4-7) by auto

text \<open>Every branch of \<open>rt_mutex_release\<close>. A thread that does not own the mutex gets \<open>-RT_ERROR\<close>; a
  nested release only counts down; the last one gives the owner its original priority back and either
  hands the mutex to the first waiting thread, which is woken, or frees it.\<close>

theorem mutex_release_behaviour:
  assumes "kinv s" and "mutex_ok x s" and "running s t"
  shows "\<exists>e s'. rt_mutex_release x s = Some (e, s') \<and> kinv s' \<and> mutex_ok x s' \<and>
    (if mu_owner (mutexes s x) \<noteq> Some t then e = - RT_ERROR \<and> s' = set_error t (- RT_ERROR) s
     else if mu_hold (mutexes s x) = 1 then e = RT_EOK \<and> passed_on x t s s'
     else e = RT_EOK \<and> s' = mu_upd x (\<lambda>m. m\<lparr>mu_hold := mu_hold m - 1\<rparr>) s)"
proof -
  note d = mutex_okD[OF assms(2)]
  have "\<exists>e s'. rt_mutex_release x s = Some (e, s') \<and>
    (if mu_owner (mutexes s x) \<noteq> Some t then e = - RT_ERROR \<and> s' = set_error t (- RT_ERROR) s
     else if mu_hold (mutexes s x) = 1 then e = RT_EOK \<and> passed_on x t s s'
     else e = RT_EOK \<and> s' = mu_upd x (\<lambda>m. m\<lparr>mu_hold := mu_hold m - 1\<rparr>) s)"
    using mutex_not_owner[OF d(1) assms(3)] mutex_last[OF assms] mutex_nested[OF d(1) assms(3)] by auto
  then obtain e s' where r: "rt_mutex_release x s = Some (e, s')"
    "if mu_owner (mutexes s x) \<noteq> Some t then e = - RT_ERROR \<and> s' = set_error t (- RT_ERROR) s
     else if mu_hold (mutexes s x) = 1 then e = RT_EOK \<and> passed_on x t s s'
     else e = RT_EOK \<and> s' = mu_upd x (\<lambda>m. m\<lparr>mu_hold := mu_hold m - 1\<rparr>) s" by blast
  from mutex_release_step[OF assms r(1)] r show ?thesis by blast
qed

theorem mutex_release_behaviour_witness:
  "\<exists>s'. rt_mutex_release 4 sample_owned = Some (- RT_ERROR, s') \<and> mutex_ok 4 s'"
  using mutex_release_behaviour[OF sample_owned_ok(1-3)] sample_owned_ok(5) by auto

text \<open>Repeated takes by the owner.\<close>

primrec take_again :: "nat \<Rightarrow> nat \<Rightarrow> kstate \<Rightarrow> kstate option" where
  "take_again 0 x s = Some s"
| "take_again (Suc n) x s =
    (case rt_mutex_take x 0 s of Some (Done e, s') \<Rightarrow> if e = RT_EOK then take_again n x s' else None | _ \<Rightarrow> None)"

lemma take_again_hold:
  assumes "rt_object_get_type (OMutex x) s = Class_Mutex" "running s t" "mu_owner (mutexes s x) = Some t" "kinv s"
  shows "\<exists>s'. take_again n x s = Some s' \<and> 
    mutexes s' x = (mutexes s x)\<lparr>mu_hold := mu_hold (mutexes s x) + of_nat n\<rparr> \<and>
    rt_object_get_type (OMutex x) s' = Class_Mutex \<and> running s' t \<and> kinv s' \<and> lists s' = lists s \<and>
    (\<forall>z. rt_object_get_type z s' = rt_object_get_type z s)"
  using assms
proof (induction n arbitrary: s)
  case 0
  have "(mutexes s x)\<lparr>mu_hold := mu_hold (mutexes s x)\<rparr> = mutexes s x" by simp
  with 0 show ?case by simp
next
  case (Suc n)
  let ?s = "mu_upd x (\<lambda>m. m\<lparr>mu_hold := mu_hold m + 1\<rparr>) (set_error t RT_EOK s)"
  from Suc.IH[of ?s] Suc.prems mutex_again[OF Suc.prems(1-3), of 0] show ?case by (simp add: add.assoc)
qed

text \<open>C36: the 8-bit hold counter bounds the nesting: after any number \<open>n\<close> of takes by the owner all of which
  succeed, it has only grown by \<open>n\<close> modulo 256, so that after 256 nested takes a single release passes the
  mutex on although the owner has 256 takes left to release.\<close>

theorem mutex_hold_wraps:
  assumes "kinv s" and "mutex_ok x s" and "running s t" and "mu_owner (mutexes s x) = Some t"
    and "mu_hold (mutexes s x) = 1"
  shows "\<exists>s1 s2. take_again 256 x s = Some s1 \<and> mu_owner (mutexes s1 x) = Some t \<and>
    rt_mutex_release x s1 = Some (RT_EOK, s2) \<and> mu_owner (mutexes s2 x) \<noteq> Some t"
proof -
  have h: "of_nat 256 = (0 :: 8 word)" by simp
  note d = mutex_okD[OF assms(2)]
  from take_again_hold[OF d(1) assms(3,4,1), of 256] h obtain s1 where s1: "take_again 256 x s = Some s1"
    "mutexes s1 x = mutexes s x" "running s1 t" "kinv s1" "lists s1 = lists s"
    "\<And>z. rt_object_get_type z s1 = rt_object_get_type z s" by auto
  have ok: "mutex_ok x s1" using assms(2) s1(2,5,6) by (simp add: mutex_ok_def split: option.splits)
  from mutex_last[OF s1(4) ok s1(3)] s1(2) assms(4,5) obtain s2 where
    s2: "rt_mutex_release x s1 = Some (RT_EOK, s2)" "passed_on x t s1 s2" by auto
  have "t \<notin> set (mutex_waiters x s1)" using mutex_okD(3)[OF ok, of t] s1(2) assms(4) by simp
  then have "mu_owner (mutexes s2 x) \<noteq> Some t"
    using s2(2) by (cases "mutex_waiters x s1") (auto simp: passed_on_def mutex_free_def)
  with s1 s2 assms(4) show ?thesis by (intro exI[of _ s1] exI[of _ s2]) simp
qed

theorem mutex_hold_wraps_witness:
  "\<exists>s0 s1 s2. rt_mutex_take 4 0 sample = Some (Done RT_EOK, s0) \<and> take_again 256 4 s0 = Some s1 \<and>
     rt_mutex_release 4 s1 = Some (RT_EOK, s2) \<and> mu_owner (mutexes s2 4) \<noteq> Some 1"
proof -
  let ?s = "mu_upd 4 (\<lambda>_. \<lparr>mu_value = 0, mu_original_priority = 10, mu_hold = 1, mu_owner = Some 1\<rparr>)
    (set_error 1 RT_EOK sample)"
  have "mutex_ok 4 ?s"
    using sample_mutex_take(2,3)
    by (simp add: mutex_ok_def) (simp add: sample_def rt_object_get_type_def sample_type_def)
  with mutex_hold_wraps[of ?s 4 1] sample_kinv sample_mutex_take(1,4) show ?thesis by auto
qed

end
