(* ===== verification/Ipc_event.thy ===== *)
theory Ipc_event
  imports Waiting
begin

text \<open>
  Events (\<open>rt_event_\<close> functions of \<open>src/ipc.c\<close>): a set of 32 flags; a thread waits for all (AND) or
  any (OR) of its flags and may clear them when it receives them.
\<close>

abbreviation (input) EVENT_AND :: u8 where "EVENT_AND \<equiv> 1"
abbreviation (input) EVENT_OR :: u8 where "EVENT_OR \<equiv> 2"
abbreviation (input) EVENT_CLEAR :: u8 where "EVENT_CLEAR \<equiv> 4"

definition ev_set :: "nat \<Rightarrow> u32 \<Rightarrow> kstate \<Rightarrow> kstate" where
  "ev_set x v s = s\<lparr>events := (events s)(x := v)\<rparr>"

definition rt_event_init :: "nat \<Rightarrow> u8 list \<Rightarrow> u8 \<Rightarrow> kstate \<Rightarrow> (rt_err \<times> kstate) option" where
  "rt_event_init x name flag s = do {
     s1 \<leftarrow> rt_object_init (OEvent x) Class_Event name s;
     s2 \<leftarrow> rt_ipc_object_init (WaitQ (OEvent x)) (set_flag (OEvent x) flag s1);
     Some (RT_EOK, ev_set x 0 s2) }"

definition rt_event_detach :: "nat \<Rightarrow> kstate \<Rightarrow> (rt_err \<times> kstate) option" where
  "rt_event_detach x s = do {
     of_class (OEvent x) Class_Event s;
     rt_assert (rt_object_is_systemobject (OEvent x) s);
     s1 \<leftarrow> rt_ipc_list_resume_all (WaitQ (OEvent x)) s;
     Some (RT_EOK, rt_object_detach (OEvent x) s1) }"

definition rt_event_create :: "u8 list \<Rightarrow> u8 \<Rightarrow> kstate \<Rightarrow> (nat option \<times> kstate) option" where
  "rt_event_create name flag s = do {
     RT_DEBUG_NOT_IN_INTERRUPT s;
     (r, s1) \<leftarrow> rt_object_allocate OEvent Class_Event name s;
     case r of None \<Rightarrow> Some (None, s1)
     | Some x \<Rightarrow> do {
         s2 \<leftarrow> rt_ipc_object_init (WaitQ (OEvent x)) (set_flag (OEvent x) flag s1);
         Some (Some x, ev_set x 0 s2) } }"

definition rt_event_delete :: "nat \<Rightarrow> kstate \<Rightarrow> (rt_err \<times> kstate) option" where
  "rt_event_delete x s = do {
     of_class (OEvent x) Class_Event s;
     rt_assert (\<not> rt_object_is_systemobject (OEvent x) s);
     RT_DEBUG_NOT_IN_INTERRUPT s;
     s1 \<leftarrow> rt_ipc_list_resume_all (WaitQ (OEvent x)) s;
     s2 \<leftarrow> rt_object_delete (OEvent x) x s1;
     Some (RT_EOK, s2) }"

text \<open>The loop of \<open>rt_event_send\<close> over the waiting threads. The next node is read before a thread is
  resumed, so that the loop visits the threads that waited when it began, in order.\<close>

fun event_scan :: "nat \<Rightarrow> nat list \<Rightarrow> bool \<Rightarrow> kstate \<Rightarrow> (bool \<times> kstate) option" where
  "event_scan x [] need_schedule s = Some (need_schedule, s)"
| "event_scan x (t # ts) need_schedule s =
     (let th = threads s t;
          (ok, s1) =
            (if th_event_info th AND EVENT_AND \<noteq> 0
             then (th_event_set th AND events s x = th_event_set th, s)
             else if th_event_info th AND EVENT_OR \<noteq> 0
             then (if th_event_set th AND events s x \<noteq> 0
                   then (True, thr_upd t (th_event_set_update (\<lambda>w. w AND events s x)) s)
                   else (False, s))
             else (False, s))
      in if ok
         then do {
           let s2 = (if th_event_info th AND EVENT_CLEAR \<noteq> 0
                     then ev_set x (events s1 x AND NOT (th_event_set (threads s1 t))) s1 else s1);
           (_, s3) \<leftarrow> rt_thread_resume t s2;
           event_scan x ts True s3 }
         else event_scan x ts need_schedule s1)"

definition rt_event_send :: "nat \<Rightarrow> u32 \<Rightarrow> kstate \<Rightarrow> (rt_err \<times> kstate) option" where
  "rt_event_send x evs s = do {
     of_class (OEvent x) Class_Event s;
     if evs = 0 then Some (- RT_ERROR, s)
     else do {
       let s1 = ev_set x (events s x OR evs) s;
       (need_schedule, s2) \<leftarrow> event_scan x (lists s1 (WaitQ (OEvent x))) False s1;
       s3 \<leftarrow> (if need_schedule then rt_schedule s2 else Some s2);
       Some (RT_EOK, s3) } }"

text \<open>The value is the error code and what is stored through \<open>recved\<close>.\<close>

definition rt_event_recv ::
    "nat \<Rightarrow> u32 \<Rightarrow> u8 \<Rightarrow> 32 word \<Rightarrow> kstate \<Rightarrow> ((rt_err \<times> u32 option) outcome \<times> kstate) option" where
  "rt_event_recv x evs option timeout s = do {
     RT_DEBUG_IN_THREAD_CONTEXT s;
     of_class (OEvent x) Class_Event s;
     if evs = 0 then Some (Done (- RT_ERROR, None), s)
     else do {
       t \<leftarrow> rt_thread_self s;
       let s1 = set_error t RT_EOK s;
       rt_assert (option AND EVENT_AND \<noteq> 0 \<or> option AND EVENT_OR \<noteq> 0);
       let ok = (if option AND EVENT_AND \<noteq> 0 then events s1 x AND evs = evs
                 else events s1 x AND evs \<noteq> 0);
       if ok
       then (let s2 = (if option AND EVENT_CLEAR \<noteq> 0 then ev_set x (events s1 x AND NOT evs) s1 else s1)
             in Some (Done (th_error (threads s2 t), Some (events s1 x AND evs)), s2))
       else if timeout = 0
       then Some (Done (- RT_ETIMEOUT, None), set_error t (- RT_ETIMEOUT) s1)
       else do {
         let s2 = thr_upd t (\<lambda>th. th\<lparr>th_event_set := evs, th_event_info := option\<rparr>) s1;
         s3 \<leftarrow> block_thread (WaitQ (OEvent x)) t (flag_of (OEvent x) s2) timeout s2;
         Some (Blocked, s3) } } }"

definition rt_event_recv_woken :: "nat \<Rightarrow> kstate \<Rightarrow> (rt_err \<times> u32 option) \<times> kstate" where
  "rt_event_recv_woken t s =
     (if th_error (threads s t) \<noteq> RT_EOK then (th_error (threads s t), None)
      else (th_error (threads s t), Some (th_event_set (threads s t))), s)"

definition rt_event_control :: "nat \<Rightarrow> nat \<Rightarrow> kstate \<Rightarrow> (rt_err \<times> kstate) option" where
  "rt_event_control x cmd s = do {
     of_class (OEvent x) Class_Event s;
     if cmd = 1
     then do {
       s1 \<leftarrow> rt_ipc_list_resume_all (WaitQ (OEvent x)) s;
       s2 \<leftarrow> rt_schedule (ev_set x 0 s1);
       Some (RT_EOK, s2) }
     else Some (- RT_ERROR, s) }"

section \<open>Delivery\<close>

abbreviation ev_waiters :: "nat \<Rightarrow> kstate \<Rightarrow> nat list" where
  "ev_waiters x s \<equiv> lists s (WaitQ (OEvent x))"

text \<open>When a thread that waits for the flags \<open>w\<close> with option \<open>opt\<close> is served by the flags \<open>e\<close>, and which
  flags remain.\<close>

definition ev_match :: "u8 \<Rightarrow> u32 \<Rightarrow> u32 \<Rightarrow> bool" where
  "ev_match opt w e \<longleftrightarrow> (if opt AND EVENT_AND \<noteq> 0 then w AND e = w else opt AND EVENT_OR \<noteq> 0 \<and> w AND e \<noteq> 0)"

definition ev_left :: "u8 \<Rightarrow> u32 \<Rightarrow> u32 \<Rightarrow> u32" where
  "ev_left opt w e = (if opt AND EVENT_CLEAR \<noteq> 0 then e AND NOT w else e)"

definition wants :: "kstate \<Rightarrow> nat \<Rightarrow> u8 \<times> u32" where
  "wants s t = (th_event_info (threads s t), th_event_set (threads s t))"

definition unserved :: "kstate \<Rightarrow> u32 \<Rightarrow> nat \<Rightarrow> bool" where
  "unserved s e t \<longleftrightarrow> \<not> ev_match (fst (wants s t)) (snd (wants s t)) e"

text \<open>The specification of sending: the waiting threads are served in list order, each with the flags its
  predecessors left; the result is the threads served with the flags they receive, and the flags left.\<close>

fun deliver :: "(nat \<Rightarrow> u8 \<times> u32) \<Rightarrow> nat list \<Rightarrow> u32 \<Rightarrow> (nat \<times> u32) list \<times> u32" where
  "deliver f [] e = ([], e)"
| "deliver f (t # ts) e =
     (if ev_match (fst (f t)) (snd (f t)) e
      then (let (ws, e') = deliver f ts (ev_left (fst (f t)) (snd (f t)) e) in ((t, snd (f t) AND e) # ws, e'))
      else deliver f ts e)"

lemma deliver_cong: "(\<And>t. t \<in> set ts \<Longrightarrow> f t = g t) \<Longrightarrow> deliver f ts e = deliver g ts e"
  by (induction ts arbitrary: e) auto

lemma deliver_subset: "deliver f ts e = (ws, e') \<Longrightarrow> fst ` set ws \<subseteq> set ts"
proof (induction ts arbitrary: e ws e')
  case (Cons t ts)
  obtain ws1 e1 where d: "deliver f ts (ev_left (fst (f t)) (snd (f t)) e) = (ws1, e1)" by (metis surj_pair)
  show ?case
  proof (cases "ev_match (fst (f t)) (snd (f t)) e")
    case True
    then have "ws = (t, snd (f t) AND e) # ws1" using Cons.prems d by simp
    with Cons.IH[OF d] show ?thesis by auto
  next
    case False
    then have "deliver f ts e = (ws, e')" using Cons.prems by simp
    from Cons.IH[OF this] show ?thesis by auto
  qed
qed simp

text \<open>Flags are only taken away, so a thread that was not served is not served by what is left either.\<close>

lemma ev_left_sub: "ev_left opt w e AND e = ev_left opt w e"
proof -
  have "(e AND NOT w) AND e = e AND NOT w" by (rule bit_word_eqI) (auto simp: bit_simps)
  then show ?thesis by (simp add: ev_left_def)
qed

lemma ev_match_mono:
  assumes "ev_match opt w e'" "e' AND e = e'"
  shows "ev_match opt w e"
proof -
  have "bit e n" if "bit e' n" for n using assms(2) that by (metis bit_and_iff)
  then have "w AND e' = w \<Longrightarrow> w AND e = w" and "w AND e = 0 \<Longrightarrow> w AND e' = 0"
    by (auto simp: bit_eq_iff bit_simps)
  with assms(1) show ?thesis by (auto simp: ev_match_def split: if_splits)
qed

lemma and_trans: "a AND b = a \<Longrightarrow> b AND c = b \<Longrightarrow> (a :: u32) AND c = a"
  by (metis and.assoc)

lemma deliver_left_sub: "deliver f ts e = (ws, e') \<Longrightarrow> e' AND e = e'"
proof (induction ts arbitrary: e ws e')
  case (Cons t ts)
  obtain ws1 e1 where d: "deliver f ts (ev_left (fst (f t)) (snd (f t)) e) = (ws1, e1)" by (metis surj_pair)
  show ?case
  proof (cases "ev_match (fst (f t)) (snd (f t)) e")
    case True
    then have "e' = e1" using Cons.prems d by simp
    with Cons.IH[OF d] and_trans[OF _ ev_left_sub] show ?thesis by blast
  next
    case False
    then have "deliver f ts e = (ws, e')" using Cons.prems by simp
    from Cons.IH[OF this] show ?thesis by simp
  qed
qed simp

lemma deliver_unserved:
  assumes "deliver f ts e = (ws, e')" "t \<in> set ts" "t \<notin> fst ` set ws"
  shows "\<not> ev_match (fst (f t)) (snd (f t)) e'"
  using assms
proof (induction ts arbitrary: e ws e')
  case (Cons u ts)
  obtain ws1 e1 where d: "deliver f ts (ev_left (fst (f u)) (snd (f u)) e) = (ws1, e1)" by (metis surj_pair)
  show ?case
  proof (cases "ev_match (fst (f u)) (snd (f u)) e")
    case True
    then have "ws = (u, snd (f u) AND e) # ws1" "e' = e1" using Cons.prems(1) d by simp_all
    with Cons.IH[OF d] Cons.prems(2,3) show ?thesis by auto
  next
    case False
    then have d2: "deliver f ts e = (ws, e')" using Cons.prems(1) by simp
    show ?thesis
    proof (cases "t = u")
      case True
      with False ev_match_mono[OF _ deliver_left_sub[OF d2]] show ?thesis by blast
    qed (use Cons.IH[OF d2] Cons.prems(2,3) in auto)
  qed
qed simp

section \<open>The loop over the waiting threads\<close>

lemma ev_set_simps [simp]:
  "events (ev_set x v s) = (events s)(x := v)" "kinv (ev_set x v s) = kinv s" "lists (ev_set x v s) = lists s"
  "threads (ev_set x v s) = threads s" "stat_of (ev_set x v s) t = stat_of s t"
  "rt_object_get_type z (ev_set x v s) = rt_object_get_type z s" "lock_nest (ev_set x v s) = lock_nest s"
  "objs (ev_set x v s) = objs s"
  by (simp_all add: ev_set_def stat_of_def rt_object_get_type_def)

text \<open>Serving one thread.\<close>

lemma serve_ok:
  assumes inv: "kinv s" and t: "t \<in> set (ev_waiters x s)"
  shows "\<exists>s'. rt_thread_resume t (ev_set x e (thr_upd t (th_event_set_update g) s)) = Some (RT_EOK, s') \<and> kinv s' \<and>
    events s' = (events s)(x := e) \<and> ev_waiters x s' = removeAll t (ev_waiters x s) \<and>
    th_event_set (threads s' t) = g (th_event_set (threads s t)) \<and>
    (\<forall>u. u \<noteq> t \<longrightarrow> threads s' u = threads s u) \<and> stat_of s' t \<noteq> RT_THREAD_SUSPEND \<and>
    th_error (threads s' t) = th_error (threads s t) \<and>
    (\<forall>z. rt_object_get_type z s' = rt_object_get_type z s)"
proof -
  let ?s = "ev_set x e (thr_upd t (th_event_set_update g) s)"
  have k: "kinv ?s" using inv by simp
  have "stat_of ?s t = 2" using waiting_suspended[OF inv, of "WaitQ (OEvent x)" t] t by (simp add: stat_of_def)
  from rt_thread_resume_ok[OF k this] obtain s' where s': "rt_thread_resume t ?s = Some (RT_EOK, s')"
    "thr_step t ?s s'" "stat_of s' t = (if cur ?s = Some t then 3 else 1)"
    "lists s' = (\<lambda>h. removeAll t (lists ?s h) @ (if cur ?s \<noteq> Some t \<and> h = ReadyQ (prio_of ?s t) then [t] else []))"
    by blast
  have st: "kinv s'" "core_frame ?s s'" "\<And>u. u \<noteq> t \<Longrightarrow> threads s' u = threads ?s u"
    "th_error (threads s' t) = th_error (threads ?s t)"
    using s'(2) by (simp_all add: thr_step_def)
  note f = core_frameD[OF st(2)]
  have "events s' = (events s)(x := e)" using f(7) by simp
  moreover have "th_event_set (threads s' t) = g (th_event_set (threads s t))" using f(14)[of t] by simp
  moreover have "rt_object_get_type z s' = rt_object_get_type z s" for z
    using f(20)[of z] by (simp add: rt_object_get_type_def)
  moreover have "stat_of s' t \<noteq> 2" using s'(3) by simp
  moreover have "ev_waiters x s' = removeAll t (ev_waiters x s)" using s'(4) by simp
  ultimately show ?thesis using s'(1) st by (intro exI[of _ s']) auto
qed

lemma ev_set_same: "ev_set x (events s x) s = s"
  by (simp add: ev_set_def)

lemma scan_step:
  "event_scan x (t # ts) b s =
     (let (opt, w) = wants s t; e = events s x in
      if ev_match opt w e
      then do {
        (_, s') \<leftarrow> rt_thread_resume t (ev_set x (ev_left opt w e) (thr_upd t (th_event_set_update (\<lambda>w. w AND e)) s));
        event_scan x ts True s' }
      else event_scan x ts b s)"
proof -
  let ?th = "threads s t"
  let ?w = "th_event_set ?th" and ?o = "th_event_info ?th" and ?e = "events s x"
  have same: "thr_upd t (th_event_set_update (\<lambda>w. w AND ?e)) s = s" if "?w AND ?e = ?w"
  proof -
    have "th_event_set_update (\<lambda>w. w AND ?e) ?th = ?th" using that by (cases ?th) simp
    then show ?thesis by (simp add: thr_upd_def)
  qed
  have cl: "?e AND (NOT ?w OR NOT ?e) = ?e AND NOT ?w"
    by (rule bit_word_eqI) (auto simp: bit_simps)
  have ev: "events (thr_upd t g s) x = ?e" for g by simp
  show ?thesis
  proof (cases "ev_match ?o ?w ?e")
    case False
    then show ?thesis by (auto simp: ev_match_def wants_def Let_def)
  next
    case True
    then show ?thesis
    proof (cases "?o AND 1 = 0")
      case conj: False
      with True have "?w AND ?e = ?w" by (simp add: ev_match_def)
      with conj True same show ?thesis
        by (simp add: wants_def Let_def ev_left_def ev_set_same)
    next
      case disj: True
      with True have "?o AND 2 \<noteq> 0" "?w AND ?e \<noteq> 0" by (simp_all add: ev_match_def)
      with disj True show ?thesis
        using ev_set_same[of x "thr_upd t (th_event_set_update (\<lambda>w. w AND ?e)) s"]
        by (simp add: wants_def Let_def ev_left_def cl)
    qed
  qed
qed

lemma event_scan_ok:
  assumes "kinv s" "set ts \<subseteq> set (ev_waiters x s)" "distinct ts"
    and "deliver (wants s) ts (events s x) = (ws, e)"
  shows "\<exists>s'. event_scan x ts b s = Some (b \<or> ws \<noteq> [], s') \<and> kinv s' \<and> events s' = (events s)(x := e) \<and>
    ev_waiters x s' = filter (\<lambda>t. t \<notin> fst ` set ws) (ev_waiters x s) \<and>
    (\<forall>t got. (t, got) \<in> set ws \<longrightarrow> th_event_set (threads s' t) = got \<and> stat_of s' t \<noteq> RT_THREAD_SUSPEND) \<and>
    (\<forall>u. u \<notin> fst ` set ws \<longrightarrow> threads s' u = threads s u) \<and>
    (\<forall>u. th_error (threads s' u) = th_error (threads s u)) \<and>
    (\<forall>z. rt_object_get_type z s' = rt_object_get_type z s)"
  using assms
proof (induction ts arbitrary: s ws e b)
  case Nil
  then show ?case by (auto simp: fun_upd_idem)
next
  case (Cons t ts)
  let ?o = "fst (wants s t)" and ?w = "snd (wants s t)" and ?e = "events s x"
  show ?case
  proof (cases "ev_match ?o ?w ?e")
    case False
    then have d: "deliver (wants s) ts ?e = (ws, e)" using Cons.prems(4) by simp
    have "event_scan x (t # ts) b s = event_scan x ts b s"
      using False unfolding scan_step by (simp add: case_prod_beta Let_def)
    with Cons.IH[OF Cons.prems(1) _ _ d, of b] Cons.prems(2,3) show ?thesis by simp
  next
    case True
    obtain ws1 e1 where d0: "deliver (wants s) ts (ev_left ?o ?w ?e) = (ws1, e1)" by (metis surj_pair)
    then have ws: "ws = (t, ?w AND ?e) # ws1" and d: "deliver (wants s) ts (ev_left ?o ?w ?e) = (ws1, e)"
      using Cons.prems(4) True by simp_all
    from serve_ok[OF Cons.prems(1), of t x "ev_left ?o ?w ?e" "\<lambda>w. w AND ?e"] Cons.prems(2) obtain s1 where s1:
      "rt_thread_resume t (ev_set x (ev_left ?o ?w ?e) (thr_upd t (th_event_set_update (\<lambda>w. w AND ?e)) s)) = Some (RT_EOK, s1)"
      "kinv s1" "events s1 = (events s)(x := ev_left ?o ?w ?e)" "ev_waiters x s1 = removeAll t (ev_waiters x s)"
      "th_event_set (threads s1 t) = ?w AND ?e" "\<And>u. u \<noteq> t \<Longrightarrow> threads s1 u = threads s u" "stat_of s1 t \<noteq> 2"
      "th_error (threads s1 t) = th_error (threads s t)" "\<And>z. rt_object_get_type z s1 = rt_object_get_type z s"
      by (auto simp: wants_def)
    have run: "event_scan x (t # ts) b s = event_scan x ts True s1"
      using True s1(1) unfolding scan_step by (simp add: case_prod_beta Let_def)
    have tn: "t \<notin> set ts" using Cons.prems(3) by simp
    have sub: "set ts \<subseteq> set (ev_waiters x s1)" using s1(4) Cons.prems(2) tn by auto
    have "wants s1 u = wants s u" if "u \<in> set ts" for u
      using s1(6)[of u] that tn by (cases "u = t") (simp_all add: wants_def)
    then have "deliver (wants s1) ts e2 = deliver (wants s) ts e2" for e2 by (rule deliver_cong)
    then have d1: "deliver (wants s1) ts (events s1 x) = (ws1, e)" using d s1(3) by simp
    from Cons.IH[OF s1(2) sub _ d1, of True] Cons.prems(3) obtain s' where s':
      "event_scan x ts True s1 = Some (True, s')" "kinv s'" "events s' = (events s1)(x := e)"
      "ev_waiters x s' = filter (\<lambda>t. t \<notin> fst ` set ws1) (ev_waiters x s1)"
      "\<And>u got. (u, got) \<in> set ws1 \<Longrightarrow> th_event_set (threads s' u) = got \<and> stat_of s' u \<noteq> 2"
      "\<And>u. u \<notin> fst ` set ws1 \<Longrightarrow> threads s' u = threads s1 u"
      "\<And>u. th_error (threads s' u) = th_error (threads s1 u)" "\<And>z. rt_object_get_type z s' = rt_object_get_type z s1"
      by (auto simp del: fun_upd_apply)
    have tw: "t \<notin> fst ` set ws1" using deliver_subset[OF d] tn by blast
    have c1: "th_event_set (threads s' u) = got \<and> stat_of s' u \<noteq> 2" if "(u, got) \<in> set ws" for u got
    proof (cases "u = t")
      case True
      with that tw have "got = ?w AND ?e" by (force simp: ws)
      with True s1(5,7) s'(6)[OF tw] stat_of_cong[OF s'(6)[OF tw]] show ?thesis by simp
    next
      case False
      with that have "(u, got) \<in> set ws1" by (simp add: ws)
      then show ?thesis by (rule s'(5))
    qed
    have c2: "ev_waiters x s' = filter (\<lambda>t. t \<notin> fst ` set ws) (ev_waiters x s)"
      unfolding s'(4) s1(4) ws by (simp add: removeAll_filter_not_eq) (rule filter_cong, auto)
    have c3: "th_error (threads s' u) = th_error (threads s u)" for u
      using s'(7)[of u] s1(6)[of u] s1(8) by (cases "u = t") simp_all
    have c4: "threads s' u = threads s u" if "u \<notin> fst ` set ws" for u
      using that s'(6)[of u] s1(6)[of u] by (auto simp: ws)
    have c5: "events s' = (events s)(x := e)" using s'(3) s1(3) by simp
    have c6: "rt_object_get_type z s' = rt_object_get_type z s" for z using s'(8)[of z] s1(9)[of z] by simp
    have "event_scan x (t # ts) b s = Some (b \<or> ws \<noteq> [], s')" using run s'(1) by (simp add: ws)
    with s'(2) c1 c2 c3 c4 c5 c6 show ?thesis by blast
  qed
qed

lemma event_send_ok:
  assumes inv: "kinv s" and ty: "rt_object_get_type (OEvent x) s = Class_Event" and nz: "evs \<noteq> 0"
    and d: "deliver (wants s) (ev_waiters x s) (events s x OR evs) = (ws, e)"
  shows "\<exists>s'. rt_event_send x evs s = Some (RT_EOK, s') \<and> kinv s' \<and> events s' = (events s)(x := e) \<and>
    ev_waiters x s' = filter (\<lambda>t. t \<notin> fst ` set ws) (ev_waiters x s) \<and>
    (\<forall>t got. (t, got) \<in> set ws \<longrightarrow> th_event_set (threads s' t) = got \<and> stat_of s' t \<noteq> RT_THREAD_SUSPEND) \<and>
    (\<forall>u. u \<notin> fst ` set ws \<longrightarrow> wants s' u = wants s u) \<and>
    rt_object_get_type (OEvent x) s' = Class_Event"
proof -
  let ?s = "ev_set x (events s x OR evs) s"
  have w: "wants ?s = wants s" by (auto simp: wants_def)
  have e1: "events ?s x = events s x OR evs" by simp
  have k1: "kinv ?s" and l1: "ev_waiters x ?s = ev_waiters x s" using inv by simp_all
  have ds: "distinct (ev_waiters x s)" by (rule lists_distinct[OF inv])
  from event_scan_ok[OF k1 _ ds, of x ws e False] d obtain s1 where s1:
    "event_scan x (ev_waiters x s) False ?s = Some (ws \<noteq> [], s1)" "kinv s1" "events s1 = (events s)(x := e)"
    "ev_waiters x s1 = filter (\<lambda>t. t \<notin> fst ` set ws) (ev_waiters x s)"
    "\<And>u got. (u, got) \<in> set ws \<Longrightarrow> th_event_set (threads s1 u) = got \<and> stat_of s1 u \<noteq> 2"
    "\<And>u. u \<notin> fst ` set ws \<Longrightarrow> threads s1 u = threads s u"
    "\<And>z. rt_object_get_type z s1 = rt_object_get_type z s"
    unfolding w e1 l1 by auto
  have "\<exists>s'. (if ws \<noteq> [] then rt_schedule s1 else Some s1) = Some s' \<and> kinv s' \<and> core_frame s1 s' \<and>
      ev_waiters x s' = ev_waiters x s1 \<and> (\<forall>u. (stat_of s' u = 2) = (stat_of s1 u = 2))"
    using schedule_waiters[OF s1(2)] wait_frameD(1) s1(2) by (cases "ws = []") fastforce+
  then obtain s' where s': "(if ws \<noteq> [] then rt_schedule s1 else Some s1) = Some s'" "kinv s'" "core_frame s1 s'"
    "ev_waiters x s' = ev_waiters x s1" "\<And>u. (stat_of s' u = 2) = (stat_of s1 u = 2)" by blast
  note f = core_frameD[OF s'(3)]
  have "rt_event_send x evs s = Some (RT_EOK, s')"
    using ty nz s1(1) s'(1) by (simp add: rt_event_send_def of_class_def)
  moreover have "wants s' u = wants s u" if "u \<notin> fst ` set ws" for u
    using s1(6)[OF that] f(14,15)[of u] by (simp add: wants_def)
  ultimately show ?thesis using s'(2,4,5) s1(3-5,7) f(7,14,20) ty by (intro exI[of _ s']) (auto simp del: fun_upd_apply)
qed

section \<open>Receiving\<close>

definition recv_args :: "u32 \<Rightarrow> u8 \<Rightarrow> bool" where
  "recv_args evs opt \<longleftrightarrow> evs \<noteq> 0 \<and> (opt AND EVENT_AND \<noteq> 0 \<or> opt AND EVENT_OR \<noteq> 0)"

lemma wants_ev_set [simp]: "wants (ev_set x e s) u = wants s u"
  by (simp add: wants_def)

lemma wants_error [simp]: "wants (set_error t e s) u = wants s u"
  by (simp add: wants_def set_error_def)

lemma event_recv_ok:
  assumes inv: "kinv s" and ty: "rt_object_get_type (OEvent x) s = Class_Event"
    and t: "running s t" "wait_args (OEvent x) time s" and a: "recv_args evs opt"
  shows "\<exists>r s'. rt_event_recv x evs opt time s = Some (r, s') \<and> kinv s' \<and>
    rt_object_get_type (OEvent x) s' = Class_Event \<and>
    (\<forall>u. u \<noteq> t \<longrightarrow> wants s' u = wants s u) \<and>
    (if ev_match opt evs (events s x)
     then r = Done (RT_EOK, Some (events s x AND evs)) \<and> events s' = (events s)(x := ev_left opt evs (events s x)) \<and>
       lists s' = lists s \<and> wants s' t = wants s t
     else events s' = events s \<and>
       (if time = 0 then r = Done (- RT_ETIMEOUT, None) \<and> lists s' = lists s \<and> wants s' t = wants s t
        else r = Blocked \<and> wants s' t = (opt, evs) \<and> stat_of s' t = RT_THREAD_SUSPEND \<and>
          ev_waiters x s' = wait_insert (flag_of (OEvent x) s) s t (ev_waiters x s)))"
proof -
  let ?s1 = "set_error t RT_EOK s"
  let ?s2 = "thr_upd t (\<lambda>th. th\<lparr>th_event_set := evs, th_event_info := opt\<rparr>) ?s1"
  note ch = running_checks[OF t(1)]
  have ra: "rt_assert (opt AND 1 \<noteq> 0 \<or> opt AND 2 \<noteq> 0) = Some ()" using a by (simp add: recv_args_def)
  have pre: "rt_event_recv x evs opt time s =
     (if ev_match opt evs (events s x)
      then (let s2 = (if opt AND EVENT_CLEAR \<noteq> 0 then ev_set x (events s x AND NOT evs) ?s1 else ?s1)
             in Some (Done (th_error (threads s2 t), Some (events s x AND evs)), s2))
      else if time = 0 then Some (Done (- RT_ETIMEOUT, None), set_error t (- RT_ETIMEOUT) ?s1)
      else do { s3 \<leftarrow> block_thread (WaitQ (OEvent x)) t (flag_of (OEvent x) ?s2) time ?s2; Some (Blocked, s3) })"
    using a ch ty ra
    by (simp add: rt_event_recv_def of_class_def ev_match_def and.commute[of evs] recv_args_def Let_def)
  show ?thesis
  proof (cases "ev_match opt evs (events s x)")
    case True
    let ?s = "if opt AND EVENT_CLEAR \<noteq> 0 then ev_set x (events s x AND NOT evs) ?s1 else ?s1"
    have "rt_event_recv x evs opt time s = Some (Done (RT_EOK, Some (events s x AND evs)), ?s)"
      unfolding pre using True by (simp add: Let_def)
    moreover have "events ?s = (events s)(x := ev_left opt evs (events s x))"
      by (auto simp: ev_left_def fun_upd_idem)
    moreover have "kinv ?s" "lists ?s = lists s" "wants ?s u = wants s u" "rt_object_get_type (OEvent x) ?s = 4" for u
      using inv ty by simp_all
    ultimately show ?thesis using True by simp
  next
    case False
    show ?thesis
    proof (cases "time = 0")
      case True
      let ?s = "set_error t (- RT_ETIMEOUT) ?s1"
      have "rt_event_recv x evs opt time s = Some (Done (- RT_ETIMEOUT, None), ?s)"
        unfolding pre using False True by simp
      moreover have "kinv ?s" "lists ?s = lists s" "wants ?s u = wants s u" "rt_object_get_type (OEvent x) ?s = 4"
        "events ?s = events s" for u
        using inv ty by simp_all
      ultimately show ?thesis using False True by simp
    next
      case nz: False
      have k2: "kinv ?s2" using inv by simp
      have fl: "flag_of (OEvent x) ?s2 = flag_of (OEvent x) s" by (simp add: flag_of_def)
      have r2: "running ?s2 t" "wait_args (OEvent x) time ?s2"
        using t unfolding running_def wait_args_def fl by (simp_all add: stat_of_def set_error_def)
      from block_thread_running[OF k2 r2(1) _ r2(2), of "WaitQ (OEvent x)"] obtain s' where s':
        "block_thread (WaitQ (OEvent x)) t (flag_of (OEvent x) s) time ?s2 = Some s'"
        "blocked_in (WaitQ (OEvent x)) t (flag_of (OEvent x) s) time ?s2 s'" unfolding fl by auto
      note b = blocked_inD[OF s'(2)]
      note f = core_frameD[OF b(2)]
      have "rt_event_recv x evs opt time s = Some (Blocked, s')"
        unfolding pre fl using False nz s'(1) by simp
      moreover have "events s' = events s" using f(7) by simp
      moreover have "wants s' u = wants ?s2 u" for u using f(14,15)[of u] by (simp add: wants_def)
      then have "wants s' t = (opt, evs)" "u \<noteq> t \<Longrightarrow> wants s' u = wants s u" for u
        by (simp_all add: wants_def)
      moreover have "rt_object_get_type (OEvent x) s' = 4"
        using f(20)[of "OEvent x"] ty by (simp add: rt_object_get_type_def)
      moreover have "ev_waiters x s' = wait_insert (flag_of (OEvent x) s) s t (ev_waiters x s)"
        using b(4) wait_insert_cong[of ?s2 s] by (simp add: prio_of_def set_error_def)
      ultimately show ?thesis using False nz b(1,3) by simp
    qed
  qed
qed

text \<open>A history of one event object.\<close>

inductive ev_run :: "nat \<Rightarrow> kstate \<Rightarrow> kstate \<Rightarrow> bool" for x :: nat and s0 :: kstate where
  start: "ev_run x s0 s0"
| send: "\<lbrakk>ev_run x s0 s; evs \<noteq> 0; rt_event_send x evs s = Some (e, s')\<rbrakk> \<Longrightarrow> ev_run x s0 s'"
| recv: "\<lbrakk>ev_run x s0 s; running s t; wait_args (OEvent x) time s; recv_args evs opt;
    rt_event_recv x evs opt time s = Some (r, s')\<rbrakk> \<Longrightarrow> ev_run x s0 s'"
| other: "\<lbrakk>ev_run x s0 s; kinv s'; events s' x = events s x; set (ev_waiters x s') \<subseteq> set (ev_waiters x s);
    \<forall>t \<in> set (ev_waiters x s'). wants s' t = wants s t;
    rt_object_get_type (OEvent x) s' = rt_object_get_type (OEvent x) s\<rbrakk> \<Longrightarrow> ev_run x s0 s'"

text \<open>No waiting thread could be served by the flags that are set.\<close>

definition ev_ok :: "nat \<Rightarrow> kstate \<Rightarrow> bool" where
  "ev_ok x s \<longleftrightarrow> kinv s \<and> rt_object_get_type (OEvent x) s = Class_Event \<and>
     (\<forall>t \<in> set (ev_waiters x s). unserved s (events s x) t)"

lemma ev_ok_send:
  assumes ok: "ev_ok x s" and nz: "evs \<noteq> 0" and run: "rt_event_send x evs s = Some (e, s')"
  shows "ev_ok x s'"
proof -
  obtain ws e1 where d: "deliver (wants s) (ev_waiters x s) (events s x OR evs) = (ws, e1)" by (metis surj_pair)
  from event_send_ok[OF _ _ nz d] ok run have s': "kinv s'" "events s' x = e1"
    "ev_waiters x s' = filter (\<lambda>t. t \<notin> fst ` set ws) (ev_waiters x s)"
    "\<And>u. u \<notin> fst ` set ws \<Longrightarrow> wants s' u = wants s u" "rt_object_get_type (OEvent x) s' = 4"
    by (auto simp: ev_ok_def)
  have "unserved s' (events s' x) t" if "t \<in> set (ev_waiters x s')" for t
    using that s'(2,4) deliver_unserved[OF d, of t] unfolding s'(3) by (simp add: unserved_def)
  with s'(1,5) show ?thesis by (simp add: ev_ok_def)
qed

lemma unserved_left:
  assumes "unserved s e t"
  shows "unserved s (ev_left opt w e) t"
  using assms ev_match_mono[OF _ ev_left_sub] by (auto simp: unserved_def)

lemma ev_ok_recv:
  assumes ok: "ev_ok x s" and t: "running s t" "wait_args (OEvent x) time s" and a: "recv_args evs opt"
    and run: "rt_event_recv x evs opt time s = Some (r, s')"
  shows "ev_ok x s'"
proof -
  have k: "kinv s" "rt_object_get_type (OEvent x) s = 4" using ok by (simp_all add: ev_ok_def)
  have nt: "t \<notin> set (ev_waiters x s)"
    using waiting_suspended[OF k(1), of "WaitQ (OEvent x)" t] t(1) by (auto simp: running_def)
  from event_recv_ok[OF k t a] run have s': "kinv s'" "rt_object_get_type (OEvent x) s' = 4"
    "\<And>u. u \<noteq> t \<Longrightarrow> wants s' u = wants s u"
    "if ev_match opt evs (events s x)
     then events s' x = ev_left opt evs (events s x) \<and> ev_waiters x s' = ev_waiters x s
     else events s' x = events s x \<and> (ev_waiters x s' = ev_waiters x s \<or>
       wants s' t = (opt, evs) \<and> set (ev_waiters x s') = insert t (set (ev_waiters x s)))"
    by (auto split: if_splits)
  have "unserved s' (events s' x) u" if "u \<in> set (ev_waiters x s')" for u
  proof (cases "u = t")
    case True
    with that nt s'(4) show ?thesis by (auto simp: unserved_def split: if_splits)
  next
    case False
    then have u: "u \<in> set (ev_waiters x s)" using that s'(4) by (auto split: if_splits)
    then have un: "unserved s (events s x) u" using ok by (simp add: ev_ok_def)
    have "unserved s (events s' x) u"
      using s'(4) un unserved_left[OF un] by (auto split: if_splits)
    then show ?thesis using s'(3)[OF False] by (simp add: unserved_def)
  qed
  with s'(1,2) show ?thesis by (simp add: ev_ok_def)
qed

lemma ev_run_ok:
  assumes "ev_run x s0 s" "ev_ok x s0"
  shows "ev_ok x s"
  using assms
proof induction
  case (send s evs e s')
  then show ?case using ev_ok_send by blast
next
  case (recv s t time evs opt r s')
  then show ?case using ev_ok_recv by blast
next
  case (other s s')
  then show ?case by (auto simp: ev_ok_def unserved_def)
qed

section \<open>Properties\<close>

text \<open>C31: \<open>rt_event_send\<close> implements the specification \<open>deliver\<close>: the waiting threads are served in list
  order, each if the flags left by its predecessors satisfy its AND or OR condition; a served thread gets
  the intersection with its flags and takes them away when it asked to clear; exactly the served threads
  leave the list.\<close>

theorem event_send_delivers:
  assumes "kinv s" and "rt_object_get_type (OEvent x) s = Class_Event" and "evs \<noteq> 0"
  shows "\<exists>s'. rt_event_send x evs s = Some (RT_EOK, s') \<and> kinv s' \<and>
    (let (ws, e) = deliver (wants s) (lists s (WaitQ (OEvent x))) (events s x OR evs) in
      events s' = (events s)(x := e) \<and>
      lists s' (WaitQ (OEvent x)) = filter (\<lambda>t. t \<notin> fst ` set ws) (lists s (WaitQ (OEvent x))) \<and>
      (\<forall>t got. (t, got) \<in> set ws \<longrightarrow> th_event_set (threads s' t) = got \<and> stat_of s' t \<noteq> RT_THREAD_SUSPEND))"
proof -
  obtain ws e where d: "deliver (wants s) (ev_waiters x s) (events s x OR evs) = (ws, e)" by (metis surj_pair)
  from event_send_ok[OF assms d] show ?thesis unfolding d by auto
qed

theorem event_send_delivers_witness:
  "\<exists>s'. rt_event_send 7 6 (thr_upd 2 (\<lambda>th. th\<lparr>th_event_set := 2, th_event_info := 5\<rparr>)
      (sample_wait (WaitQ (OEvent 7)))) = Some (RT_EOK, s') \<and> events s' 7 = 4 \<and>
    stat_of s' 2 \<noteq> RT_THREAD_SUSPEND \<and> th_event_set (threads s' 2) = 2"
proof -
  let ?w = "sample_wait (WaitQ (OEvent 7))"
  let ?s = "thr_upd 2 (\<lambda>th. th\<lparr>th_event_set := 2, th_event_info := 5\<rparr>) ?w"
  have "kinv ?s" using sample_wait_kinv[of "WaitQ (OEvent 7)"] by simp
  moreover have "rt_object_get_type (OEvent 7) ?s = 4" using sample_type_ok(3) by (simp add: rt_object_get_type_def)
  moreover have "lists ?s (WaitQ (OEvent 7)) = [2]" "events ?s 7 = 0"
    by (simp_all add: sample_wait_simps) (simp add: sample_def)
  moreover have "wants ?s 2 = (5, 2)" by (simp add: wants_def)
  moreover have "ev_match 5 2 6" "ev_left 5 2 6 = 4" by (simp_all add: ev_match_def ev_left_def)
  ultimately show ?thesis using event_send_delivers[of ?s 7 6] by auto
qed

text \<open>Every branch of \<open>rt_event_recv\<close>: satisfied flags are returned at once, and taken away when the
  thread asked to clear them; otherwise \<open>-RT_ETIMEOUT\<close> without a timeout, and else the thread waits with
  its flags and option recorded.\<close>

theorem event_recv_behaviour:
  assumes "kinv s" and "rt_object_get_type (OEvent x) s = Class_Event"
    and "running s t" and "wait_args (OEvent x) time s" and "recv_args evs opt"
  shows "\<exists>r s'. rt_event_recv x evs opt time s = Some (r, s') \<and> kinv s' \<and>
    (if ev_match opt evs (events s x)
     then r = Done (RT_EOK, Some (events s x AND evs)) \<and>
       events s' = (events s)(x := ev_left opt evs (events s x)) \<and> lists s' = lists s
     else events s' = events s \<and>
       (if time = 0 then r = Done (- RT_ETIMEOUT, None) \<and> lists s' = lists s
        else r = Blocked \<and> wants s' t = (opt, evs) \<and> stat_of s' t = RT_THREAD_SUSPEND \<and>
          lists s' (WaitQ (OEvent x)) = wait_insert (flag_of (OEvent x) s) s t (lists s (WaitQ (OEvent x)))))"
  using event_recv_ok[OF assms] by (auto split: if_splits)

theorem event_recv_behaviour_witness:
  "\<exists>s'. rt_event_recv 7 6 1 5 sample = Some (Blocked, s') \<and> lists s' (WaitQ (OEvent 7)) = [1]"
proof -
  have "rt_object_get_type (OEvent 7) sample = 4" "events sample 7 = 0" "lists sample (WaitQ (OEvent 7)) = []"
    by (simp_all add: sample_def rt_object_get_type_def sample_type_def)
  moreover have "running sample 1" "wait_args (OEvent 7) 5 sample"
    by (simp_all add: running_def sample_simps sample_stat wait_args_def sample_type_ok)
  ultimately show ?thesis
    using event_recv_behaviour[of sample 7 1 5 6 1] sample_kinv
    by (auto simp: recv_args_def ev_match_def wait_insert_def sample_type_ok)
qed

text \<open>C16: no wake-up is missed: over every history of sends and receives, no thread stays in the list of an
  event while the flags that are set satisfy its condition.\<close>

theorem event_no_missed_wakeup:
  assumes "ev_run x s0 s" and "ev_ok x s0" and "t \<in> set (lists s (WaitQ (OEvent x)))"
  shows "\<not> ev_match (th_event_info (threads s t)) (th_event_set (threads s t)) (events s x)"
  using ev_run_ok[OF assms(1,2)] assms(3) by (auto simp: ev_ok_def unserved_def wants_def)

theorem event_no_missed_wakeup_witness:
  "\<exists>s. ev_run 7 sample s \<and> lists s (WaitQ (OEvent 7)) = [1] \<and>
     \<not> ev_match (th_event_info (threads s 1)) (th_event_set (threads s 1)) (events s 7)"
proof -
  have a: "rt_object_get_type (OEvent 7) sample = 4" "events sample 7 = 0" "lists sample (WaitQ (OEvent 7)) = []"
    by (simp_all add: sample_def rt_object_get_type_def sample_type_def)
  have t: "running sample 1" "wait_args (OEvent 7) 5 sample" and r: "recv_args 6 1"
    by (simp_all add: running_def sample_simps sample_stat wait_args_def sample_type_ok recv_args_def)
  have ok: "ev_ok 7 sample" using a sample_kinv by (simp add: ev_ok_def)
  from event_recv_ok[OF sample_kinv a(1) t r] obtain q s where s: "rt_event_recv 7 6 1 5 sample = Some (q, s)"
    "lists s (WaitQ (OEvent 7)) = [1]" using a by (auto simp: ev_match_def wait_insert_def sample_type_ok)
  from ev_run.recv[OF ev_run.start t r s(1)] have run: "ev_run 7 sample s" .
  from event_no_missed_wakeup[OF run ok, of 1] run s(2) show ?thesis by auto
qed

end
