(* ===== verification/Chains.thy ===== *)
theory Chains
  imports Prelude
begin

text \<open>
  Singly linked lists in memory, as the message queues and the memory pools keep them: a function from
  addresses to the pointers stored there, a first address, and \<open>RT_NULL\<close> at the end.
\<close>

text \<open>The slots reached from an address through the links, ending at \<open>RT_NULL\<close>.\<close>

fun chain :: "(u32 \<Rightarrow> u32) \<Rightarrow> u32 \<Rightarrow> u32 list \<Rightarrow> bool" where
  "chain nx a [] \<longleftrightarrow> a = 0"
| "chain nx a (x # xs) \<longleftrightarrow> a = x \<and> x \<noteq> 0 \<and> chain nx (nx x) xs"

fun walk :: "nat \<Rightarrow> (u32 \<Rightarrow> u32) \<Rightarrow> u32 \<Rightarrow> u32 list" where
  "walk 0 nx a = []"
| "walk (Suc n) nx a = a # walk n nx (nx a)"

lemma length_walk [simp]: "length (walk n nx a) = n"
  by (induction n arbitrary: a) auto

lemma chain_walk: "chain nx a xs \<Longrightarrow> walk (length xs) nx a = xs"
  by (induction xs arbitrary: a) auto

lemma chain_upd [simp]: "x \<notin> set xs \<Longrightarrow> chain (nx(x := v)) a xs = chain nx a xs"
  by (induction xs arbitrary: a) auto

lemma chain_nonnull: "chain nx a xs \<Longrightarrow> 0 \<notin> set xs"
  by (induction xs arbitrary: a) auto

lemma chain_head: "chain nx a xs \<Longrightarrow> a = (if xs = [] then 0 else hd xs)"
  by (cases xs) auto

lemma last_Cons_self: "a \<notin> set ms \<Longrightarrow> (last (a # ms) = a) = (ms = [])"
  by (metis last.simps last_in_set)

lemma chain_snoc:
  assumes "chain nx a xs" "xs \<noteq> []" "distinct xs" "x \<notin> set xs" "x \<noteq> 0" "nx x = 0"
  shows "chain (nx(last xs := x)) a (xs @ [x])"
  using assms
proof (induction xs arbitrary: a)
  case (Cons y ys)
  show ?case
  proof (cases "ys = []")
    case True
    with Cons.prems show ?thesis by auto
  next
    case False
    with Cons.prems have "y \<noteq> last ys" by auto
    with Cons False show ?thesis by auto
  qed
qed simp

text \<open>The addresses of equally spaced slots in a piece of memory that does not wrap around.\<close>

definition slot_at :: "u32 \<Rightarrow> u32 \<Rightarrow> nat \<Rightarrow> u32" where
  "slot_at start step i = start + of_nat i * step"

lemma unat_slot_at:
  assumes "unat start + n * unat step \<le> 2 ^ 32" "i < n" "step \<noteq> 0"
  shows "unat (slot_at start step i) = unat start + i * unat step"
proof -
  have "i * unat step + unat step \<le> n * unat step" using assms(2) by (metis add.commute mult_Suc mult_le_mono1 Suc_leI)
  moreover have "0 < unat step" using assms(3) by (simp add: unat_gt_0)
  ultimately have b: "unat start + i * unat step < 2 ^ 32" using assms(1) by linarith
  have "slot_at start step i = of_nat (unat start + i * unat step)" by (simp add: slot_at_def)
  then show ?thesis using unat_of_nat_small[of "unat start + i * unat step", where 'a=32] b by simp
qed

lemma slots_at_ok:
  assumes "unat start + n * unat step \<le> 2 ^ 32" "step \<noteq> 0"
  shows "distinct (map (slot_at start step) [0..<n])" "start \<noteq> 0 \<Longrightarrow> 0 \<notin> slot_at start step ` {0..<n}"
proof -
  note u = unat_slot_at[OF assms(1) _ assms(2)]
  have "inj_on (slot_at start step) {0..<n}"
  proof (rule inj_onI)
    fix i j assume a: "i \<in> {0..<n}" "j \<in> {0..<n}" "slot_at start step i = slot_at start step j"
    then have l: "i < n" "j < n" by simp_all
    have "i * unat step = j * unat step" using u[OF l(1)] u[OF l(2)] unfolding a(3) by linarith
    moreover have "unat step \<noteq> 0" using assms(2) by (simp add: unat_eq_zero)
    ultimately show "i = j" by (metis mult_cancel2)
  qed
  then show "distinct (map (slot_at start step) [0..<n])" by (simp add: distinct_map)
  assume s: "start \<noteq> 0"
  have "slot_at start step i \<noteq> 0" if "i < n" for i
  proof
    assume "slot_at start step i = 0"
    then show False using u[OF that] s by (simp add: unat_eq_zero)
  qed
  then show "0 \<notin> slot_at start step ` {0..<n}" by force
qed

lemma slots_apart:
  assumes "unat start + n * unat step \<le> 2 ^ 32" "step \<noteq> 0" "b \<in> slot_at start step ` {0..<n}"
    "c \<in> slot_at start step ` {0..<n}" "b \<noteq> c"
  shows "unat b + unat step \<le> unat c \<or> unat c + unat step \<le> unat b"
proof -
  obtain i j where ij: "b = slot_at start step i" "i < n" "c = slot_at start step j" "j < n" using assms(3,4) by auto
  note u = unat_slot_at[OF assms(1) _ assms(2)]
  have "Suc i * unat step \<le> j * unat step \<or> Suc j * unat step \<le> i * unat step"
  proof (cases "i < j")
    case True
    then show ?thesis by (intro disjI1 mult_le_mono1) simp
  next
    case False
    moreover have "i \<noteq> j" using ij(1,3) assms(5) by auto
    ultimately show ?thesis by (intro disjI2 mult_le_mono1) simp
  qed
  with u[OF ij(2)] u[OF ij(4)] ij(1,3) show ?thesis by auto
qed

text \<open>Slots that each point to the next, the last one to \<open>RT_NULL\<close>.\<close>

lemma chain_slots:
  assumes "\<And>i. i + 1 < n \<Longrightarrow> nx (slot_at start step i) = slot_at start step (i + 1)"
    and "nx (slot_at start step (n - 1)) = 0" "0 < n" "0 \<notin> slot_at start step ` {0..<n}"
  shows "chain nx start (map (slot_at start step) [0..<n])"
proof -
  have "k \<le> n \<Longrightarrow> k \<noteq> 0 \<Longrightarrow> chain nx (slot_at start step (n - k)) (map (slot_at start step) [n - k..<n])" for k
  proof (induction k)
    case (Suc k)
    have u: "[n - Suc k..<n] = (n - Suc k) # [n - k..<n]" using Suc.prems by (simp add: upt_conv_Cons Suc_diff_Suc)
    have nz: "slot_at start step (n - Suc k) \<noteq> 0" using assms(4) Suc.prems by force
    show ?case
    proof (cases "k = 0")
      case True
      with assms(2) nz u show ?thesis by simp
    next
      case False
      have "nx (slot_at start step (n - Suc k)) = slot_at start step (n - k)"
        using assms(1)[of "n - Suc k"] False Suc.prems by (simp add: Suc_diff_Suc)
      with Suc.IH False Suc.prems nz u show ?thesis by simp
    qed
  qed simp
  from this[of n] assms(3) show ?thesis by (simp add: slot_at_def)
qed

end
