(* ===== verification/Ipc_mq.thy ===== *)
theory Ipc_mq
  imports Waiting Chains "HOL-Library.Sublist"
begin

text \<open>
  Message queues (\<open>rt_mq_\<close> functions of \<open>src/ipc.c\<close>): messages of a fixed maximal size in the slots of a
  pool, linked through their headers into the queue (head, tail) or the free list. A message is the
  address of its header, 0 is \<open>RT_NULL\<close>; \<open>mq_next\<close> holds the link of each header and \<open>mq_data\<close> the bytes
  behind it. Sending and receiving have two critical sections with the copy between them, modelled as
  separate stages.
\<close>

definition mqu :: "nat \<Rightarrow> (rt_messagequeue \<Rightarrow> rt_messagequeue) \<Rightarrow> kstate \<Rightarrow> kstate" where
  "mqu x f s = s\<lparr>mqueues := (mqueues s)(x := f (mqueues s x))\<rparr>"

definition set_next :: "u32 \<Rightarrow> u32 \<Rightarrow> rt_messagequeue \<Rightarrow> rt_messagequeue" where
  "set_next a v q = q\<lparr>mq_next := (mq_next q)(a := v)\<rparr>"

text \<open>The address of slot \<open>i\<close>, and the loop that puts the first \<open>n\<close> slots on the free list.\<close>

definition mq_slot :: "rt_messagequeue \<Rightarrow> nat \<Rightarrow> u32" where
  "mq_slot q i = mq_msg_pool q + of_nat i * (ucast (mq_msg_size q) + 4)"

fun mq_link_free :: "nat \<Rightarrow> rt_messagequeue \<Rightarrow> rt_messagequeue" where
  "mq_link_free 0 q = q"
| "mq_link_free (Suc n) q =
     (let q1 = mq_link_free n q; head = mq_slot q1 n in
      (set_next head (mq_free q1) q1)\<lparr>mq_free := head\<rparr>)"

definition rt_mq_init ::
    "nat \<Rightarrow> u8 list \<Rightarrow> u32 \<Rightarrow> (u32 \<Rightarrow> u8 list) \<Rightarrow> u32 \<Rightarrow> u32 \<Rightarrow> u8 \<Rightarrow> kstate \<Rightarrow> (rt_err \<times> kstate) option" where
  "rt_mq_init x name msgpool data msg_size pool_size flag s = do {
     s1 \<leftarrow> rt_object_init (OMessageQueue x) Class_MessageQueue name s;
     s2 \<leftarrow> rt_ipc_object_init (WaitQ (OMessageQueue x)) (set_flag (OMessageQueue x) flag s1);
     let ms = (ucast (RT_ALIGN msg_size) :: u16);
     let q = (mqueues s2 x)\<lparr>mq_msg_pool := msgpool, mq_msg_size := ms,
               mq_max_msgs := ucast (pool_size div (ucast ms + 4)), mq_head := 0, mq_tail := 0,
               mq_free := 0, mq_data := data\<rparr>;
     let q1 = mq_link_free (unat (mq_max_msgs q)) q;
     Some (RT_EOK, mqu x (\<lambda>_. q1\<lparr>mq_entry := 0\<rparr>) s2) }"

definition rt_mq_detach :: "nat \<Rightarrow> kstate \<Rightarrow> (rt_err \<times> kstate) option" where
  "rt_mq_detach x s = do {
     of_class (OMessageQueue x) Class_MessageQueue s;
     rt_assert (rt_object_is_systemobject (OMessageQueue x) s);
     s1 \<leftarrow> rt_ipc_list_resume_all (WaitQ (OMessageQueue x)) s;
     Some (RT_EOK, rt_object_detach (OMessageQueue x) s1) }"

definition rt_mq_delete :: "nat \<Rightarrow> kstate \<Rightarrow> (rt_err \<times> kstate) option" where
  "rt_mq_delete x s = do {
     RT_DEBUG_NOT_IN_INTERRUPT s;
     of_class (OMessageQueue x) Class_MessageQueue s;
     rt_assert (\<not> rt_object_is_systemobject (OMessageQueue x) s);
     s1 \<leftarrow> rt_ipc_list_resume_all (WaitQ (OMessageQueue x)) s;
     h \<leftarrow> rt_free (interrupt_nest s1) (mq_msg_pool (mqueues s1 x)) (kheap s1);
     s2 \<leftarrow> rt_object_delete (OMessageQueue x) x (s1\<lparr>kheap := h\<rparr>);
     Some (RT_EOK, s2) }"

definition rt_mq_create :: "u8 list \<Rightarrow> u32 \<Rightarrow> u32 \<Rightarrow> u8 \<Rightarrow> kstate \<Rightarrow> (nat option \<times> kstate) option" where
  "rt_mq_create name msg_size max_msgs flag s = do {
     RT_DEBUG_NOT_IN_INTERRUPT s;
     (r, s1) \<leftarrow> rt_object_allocate OMessageQueue Class_MessageQueue name s;
     case r of None \<Rightarrow> Some (None, s1)
     | Some x \<Rightarrow> do {
         s2 \<leftarrow> rt_ipc_object_init (WaitQ (OMessageQueue x)) (set_flag (OMessageQueue x) flag s1);
         let ms = (ucast (RT_ALIGN msg_size) :: u16);
         let n = (ucast max_msgs :: u16);
         (p, h) \<leftarrow> rt_malloc (interrupt_nest s2) ((ucast ms + 4) * ucast n) (kheap s2);
         let s3 = mqu x (\<lambda>q. q\<lparr>mq_msg_size := ms, mq_max_msgs := n, mq_msg_pool := p\<rparr>) (s2\<lparr>kheap := h\<rparr>);
         if p = 0 then do { (_, s4) \<leftarrow> rt_mq_delete x s3; Some (None, s4) }
         else do {
           let q = (mqueues s3 x)\<lparr>mq_head := 0, mq_tail := 0, mq_free := 0,
                     mq_data := (\<lambda>a. map (\<lambda>i. bytes h (a + 4 + of_nat i - heap_ptr h)) [0..<unat ms])\<rparr>;
           let q1 = mq_link_free (unat n) q;
           Some (Some x, mqu x (\<lambda>_. q1\<lparr>mq_entry := 0\<rparr>) s3) } } }"

section \<open>Stages of sending and receiving\<close>

text \<open>Taking a slot from the free list; \<open>None\<close> when the queue is full.\<close>

definition mq_take_free :: "rt_messagequeue \<Rightarrow> (u32 \<times> rt_messagequeue) option" where
  "mq_take_free q =
     (if mq_free q = 0 then None else Some (mq_free q, q\<lparr>mq_free := mq_next q (mq_free q)\<rparr>))"

definition mq_copy_in :: "u32 \<Rightarrow> u8 list \<Rightarrow> u32 \<Rightarrow> rt_messagequeue \<Rightarrow> rt_messagequeue option" where
  "mq_copy_in msg buffer sz q = do {
     d \<leftarrow> memcpy (mq_data q msg) 0 buffer 0 (uint sz);
     Some (q\<lparr>mq_data := (mq_data q)(msg := d)\<rparr>) }"

definition mq_link_tail :: "u32 \<Rightarrow> rt_messagequeue \<Rightarrow> rt_messagequeue" where
  "mq_link_tail msg q =
     (let q1 = (if mq_tail q \<noteq> 0 then set_next (mq_tail q) msg q else q);
          q2 = q1\<lparr>mq_tail := msg\<rparr>;
          q3 = (if mq_head q2 = 0 then q2\<lparr>mq_head := msg\<rparr> else q2)
      in q3\<lparr>mq_entry := mq_entry q3 + 1\<rparr>)"

definition mq_link_head :: "u32 \<Rightarrow> rt_messagequeue \<Rightarrow> rt_messagequeue" where
  "mq_link_head msg q =
     (let q1 = set_next msg (mq_head q) q;
          q2 = q1\<lparr>mq_head := msg\<rparr>;
          q3 = (if mq_tail q2 = 0 then q2\<lparr>mq_tail := msg\<rparr> else q2)
      in q3\<lparr>mq_entry := mq_entry q3 + 1\<rparr>)"

definition mq_unlink_head :: "rt_messagequeue \<Rightarrow> u32 \<times> rt_messagequeue" where
  "mq_unlink_head q =
     (let msg = mq_head q;
          q1 = q\<lparr>mq_head := mq_next q msg\<rparr>;
          q2 = (if mq_tail q1 = msg then q1\<lparr>mq_tail := 0\<rparr> else q1)
      in (msg, q2\<lparr>mq_entry := mq_entry q2 - 1\<rparr>))"

definition mq_put_free :: "u32 \<Rightarrow> rt_messagequeue \<Rightarrow> rt_messagequeue" where
  "mq_put_free msg q = (set_next msg (mq_free q) q)\<lparr>mq_free := msg\<rparr>"

text \<open>The last critical section of both send functions: wake a receiver.\<close>

definition mq_wake :: "nat \<Rightarrow> kstate \<Rightarrow> (rt_err \<times> kstate) option" where
  "mq_wake x s =
     (if \<not> rt_list_isempty (WaitQ (OMessageQueue x)) s
      then do {
        s1 \<leftarrow> rt_ipc_list_resume (WaitQ (OMessageQueue x)) s;
        s2 \<leftarrow> rt_schedule s1;
        Some (RT_EOK, s2) }
      else Some (RT_EOK, s))"

section \<open>Operations\<close>

definition rt_mq_send :: "nat \<Rightarrow> u8 list \<Rightarrow> u32 \<Rightarrow> kstate \<Rightarrow> (rt_err \<times> kstate) option" where
  "rt_mq_send x buffer sz s = do {
     of_class (OMessageQueue x) Class_MessageQueue s;
     rt_assert (sz \<noteq> 0);
     if sz > ucast (mq_msg_size (mqueues s x)) then Some (- RT_ERROR, s)
     else case mq_take_free (mqueues s x) of
       None \<Rightarrow> Some (- RT_EFULL, s)
     | Some (msg, q) \<Rightarrow> do {
         q1 \<leftarrow> mq_copy_in msg buffer sz (set_next msg 0 q);
         mq_wake x (mqu x (\<lambda>_. mq_link_tail msg q1) s) } }"

definition rt_mq_urgent :: "nat \<Rightarrow> u8 list \<Rightarrow> u32 \<Rightarrow> kstate \<Rightarrow> (rt_err \<times> kstate) option" where
  "rt_mq_urgent x buffer sz s = do {
     of_class (OMessageQueue x) Class_MessageQueue s;
     rt_assert (sz \<noteq> 0);
     if sz > ucast (mq_msg_size (mqueues s x)) then Some (- RT_ERROR, s)
     else case mq_take_free (mqueues s x) of
       None \<Rightarrow> Some (- RT_EFULL, s)
     | Some (msg, q) \<Rightarrow> do {
         q1 \<leftarrow> mq_copy_in msg buffer sz q;
         mq_wake x (mqu x (\<lambda>_. mq_link_head msg q1) s) } }"

text \<open>The value is the error code and the caller's buffer. One round of the waiting loop and what
  follows it; the buffer keeps its bytes when no message is received.\<close>

definition mq_recv_try :: "nat \<Rightarrow> u8 list \<Rightarrow> u32 \<Rightarrow> 32 word \<Rightarrow> kstate \<Rightarrow>
    ((rt_err \<times> u8 list) outcome \<times> kstate) option" where
  "mq_recv_try x buffer sz timeout s =
     (if mq_entry (mqueues s x) = 0
      then do {
        RT_DEBUG_IN_THREAD_CONTEXT s;
        t \<leftarrow> rt_thread_self s;
        let s1 = set_error t RT_EOK s;
        if timeout = 0 then Some (Done (- RT_ETIMEOUT, buffer), set_error t (- RT_ETIMEOUT) s1)
        else do {
          s2 \<leftarrow> block_thread (WaitQ (OMessageQueue x)) t (flag_of (OMessageQueue x) s1) timeout s1;
          Some (Blocked, s2) } }
      else do {
        rt_assert (mq_head (mqueues s x) \<noteq> 0);
        let (msg, q) = mq_unlink_head (mqueues s x);
        let ms = (ucast (mq_msg_size q) :: u32);
        b \<leftarrow> memcpy buffer 0 (mq_data q msg) 0 (uint (if sz > ms then ms else sz));
        Some (Done (RT_EOK, b), mqu x (\<lambda>_. mq_put_free msg q) s) })"

definition rt_mq_recv :: "nat \<Rightarrow> u8 list \<Rightarrow> u32 \<Rightarrow> 32 word \<Rightarrow> kstate \<Rightarrow>
    ((rt_err \<times> u8 list) outcome \<times> kstate) option" where
  "rt_mq_recv x buffer sz timeout s = do {
     of_class (OMessageQueue x) Class_MessageQueue s;
     rt_assert (sz \<noteq> 0);
     if mq_entry (mqueues s x) = 0 \<and> timeout = 0
     then Some (Done (- RT_ETIMEOUT, buffer), s)
     else mq_recv_try x buffer sz timeout s }"

definition rt_mq_recv_woken :: "nat \<Rightarrow> u8 list \<Rightarrow> u32 \<Rightarrow> 32 word \<Rightarrow> u32 \<Rightarrow> nat \<Rightarrow> kstate \<Rightarrow>
    ((rt_err \<times> u8 list) outcome \<times> kstate) option" where
  "rt_mq_recv_woken x buffer sz timeout tick_delta t s =
     (if th_error (threads s t) \<noteq> RT_EOK then Some (Done (th_error (threads s t), buffer), s)
      else mq_recv_try x buffer sz (time_left timeout tick_delta (rt_tick_get s)) s)"

text \<open>The loop of the reset that returns all queued messages to the free list.\<close>

partial_function (option) mq_flush :: "rt_messagequeue \<Rightarrow> rt_messagequeue option" where
  "mq_flush q =
     (if mq_head q \<noteq> 0
      then (let msg = mq_head q;
                q1 = q\<lparr>mq_head := mq_next q msg\<rparr>;
                q2 = (if mq_tail q1 = msg then q1\<lparr>mq_tail := 0\<rparr> else q1)
            in mq_flush (mq_put_free msg q2))
      else Some q)"

definition rt_mq_control :: "nat \<Rightarrow> nat \<Rightarrow> kstate \<Rightarrow> (rt_err \<times> kstate) option" where
  "rt_mq_control x cmd s = do {
     of_class (OMessageQueue x) Class_MessageQueue s;
     if cmd = 1
     then do {
       s1 \<leftarrow> rt_ipc_list_resume_all (WaitQ (OMessageQueue x)) s;
       q \<leftarrow> mq_flush (mqueues s1 x);
       s2 \<leftarrow> rt_schedule (mqu x (\<lambda>_. q\<lparr>mq_entry := 0\<rparr>) s1);
       Some (RT_EOK, s2) }
     else Some (- RT_ERROR, s) }"

section \<open>Well-formed queues\<close>

text \<open>Messages, free slots, and slots that a sender or receiver holds between its critical sections.\<close>

definition mq_chains :: "rt_messagequeue \<Rightarrow> u32 list \<Rightarrow> u32 list \<Rightarrow> u32 list \<Rightarrow> bool" where
  "mq_chains q ms fs held \<longleftrightarrow> chain (mq_next q) (mq_head q) ms \<and> chain (mq_next q) (mq_free q) fs \<and>
     distinct (ms @ fs @ held) \<and> 0 \<notin> set held \<and> mq_tail q = (if ms = [] then 0 else last ms) \<and>
     length ms + length fs + length held = unat (mq_max_msgs q) \<and>
     (\<forall>a \<in> set (ms @ fs @ held). length (mq_data q a) = unat (mq_msg_size q))"

definition mq_rep :: "rt_messagequeue \<Rightarrow> u32 list \<Rightarrow> u32 list \<Rightarrow> u32 list \<Rightarrow> bool" where
  "mq_rep q ms fs held \<longleftrightarrow> mq_chains q ms fs held \<and> unat (mq_entry q) = length ms"

lemma set_next_simps [simp]:
  "mq_next (set_next a v q) = (mq_next q)(a := v)" "mq_head (set_next a v q) = mq_head q"
  "mq_tail (set_next a v q) = mq_tail q" "mq_free (set_next a v q) = mq_free q"
  "mq_entry (set_next a v q) = mq_entry q" "mq_data (set_next a v q) = mq_data q"
  "mq_max_msgs (set_next a v q) = mq_max_msgs q" "mq_msg_size (set_next a v q) = mq_msg_size q"
  by (simp_all add: set_next_def)

lemma held_next: "mq_rep q ms fs held \<Longrightarrow> a \<in> set held \<Longrightarrow> mq_rep (set_next a v q) ms fs held"
  by (subgoal_tac "a \<notin> set ms \<and> a \<notin> set fs") (auto simp: mq_rep_def mq_chains_def)

lemma take_free_slot:
  assumes "mq_rep q ms (f # fs) held"
  shows "\<exists>q'. mq_take_free q = Some (f, q') \<and> mq_rep q' ms fs (f # held) \<and> mq_data q' = mq_data q \<and>
    mq_msg_size q' = mq_msg_size q"
  using assms by (auto simp: mq_take_free_def mq_rep_def mq_chains_def)

lemma take_free_full: "mq_rep q ms [] held \<Longrightarrow> mq_take_free q = None"
  by (auto simp: mq_take_free_def mq_rep_def mq_chains_def)

lemma copy_in_slot:
  assumes rep: "mq_rep q ms fs held" and a: "a \<in> set held"
    and sz: "unat sz \<le> unat (mq_msg_size q)" "unat sz \<le> length buffer"
  shows "\<exists>q'. mq_copy_in a buffer sz q = Some q' \<and> mq_rep q' ms fs held \<and>
    mq_data q' = (mq_data q)(a := take (unat sz) buffer @ drop (unat sz) (mq_data q a)) \<and>
    mq_next q' = mq_next q \<and> mq_msg_size q' = mq_msg_size q"
proof -
  have l: "length (mq_data q a) = unat (mq_msg_size q)" using rep a by (simp add: mq_rep_def mq_chains_def)
  have u: "uint sz = int (unat sz)" by simp
  have "memcpy (mq_data q a) 0 buffer 0 (uint sz) = Some (take (unat sz) buffer @ drop (unat sz) (mq_data q a))"
    unfolding u using memcpy_nat[of "mq_data q a" 0 buffer 0 "unat sz"] sz l by simp
  then show ?thesis
    using rep sz l by (auto simp: mq_copy_in_def mq_rep_def mq_chains_def)
qed

lemma entry_room:
  assumes "mq_chains q ms fs (a # held)" "unat (mq_entry q) = length ms"
  shows "unat (mq_entry q + 1) = Suc (length ms)"
proof -
  have "unat (mq_max_msgs q) < 65536" using unsigned_less[of "mq_max_msgs q"] by simp
  moreover have "length ms < unat (mq_max_msgs q)" using assms(1) by (simp add: mq_chains_def)
  ultimately show ?thesis using assms(2) by (simp add: unat_word_ariths)
qed

lemma link_tail_slot:
  assumes rep: "mq_rep q ms fs (a # held)" and z: "mq_next q a = 0"
  shows "mq_rep (mq_link_tail a q) (ms @ [a]) fs held" "mq_data (mq_link_tail a q) = mq_data q"
    "mq_msg_size (mq_link_tail a q) = mq_msg_size q"
proof -
  from rep have c: "mq_chains q ms fs (a # held)" and e: "unat (mq_entry q) = length ms" by (simp_all add: mq_rep_def)
  note en = entry_room[OF c e]
  from c have ne: "ms \<noteq> [] \<Longrightarrow> last ms \<noteq> 0 \<and> mq_head q \<noteq> 0"
    using chain_nonnull[of "mq_next q" "mq_head q" ms] chain_head[of "mq_next q" "mq_head q" ms]
    by (auto simp: mq_chains_def) (metis last_in_set, metis hd_in_set)
  show "mq_rep (mq_link_tail a q) (ms @ [a]) fs held"
  proof (cases "ms = []")
    case True
    then show ?thesis using c z en by (auto simp: mq_rep_def mq_chains_def mq_link_tail_def Let_def)
  next
    case False
    with ne c have t: "mq_tail q = last ms" "last ms \<noteq> 0" "mq_head q \<noteq> 0" by (auto simp: mq_chains_def)
    have "chain ((mq_next q)(last ms := a)) (mq_head q) (ms @ [a])"
      using c z False by (intro chain_snoc) (auto simp: mq_chains_def)
    moreover have "last ms \<notin> set fs" using c last_in_set[OF False] by (auto simp: mq_chains_def)
    ultimately show ?thesis
      using c en t False by (auto simp: mq_rep_def mq_chains_def mq_link_tail_def Let_def)
  qed
  show "mq_data (mq_link_tail a q) = mq_data q" "mq_msg_size (mq_link_tail a q) = mq_msg_size q"
    by (simp_all add: mq_link_tail_def Let_def)
qed

lemma link_head_slot:
  assumes rep: "mq_rep q ms fs (a # held)"
  shows "mq_rep (mq_link_head a q) (a # ms) fs held" "mq_data (mq_link_head a q) = mq_data q"
    "mq_msg_size (mq_link_head a q) = mq_msg_size q"
proof -
  from rep have c: "mq_chains q ms fs (a # held)" and e: "unat (mq_entry q) = length ms" by (simp_all add: mq_rep_def)
  note en = entry_room[OF c e]
  have "ms \<noteq> [] \<Longrightarrow> last ms \<noteq> 0"
    using c chain_nonnull[of "mq_next q" "mq_head q" ms] by (auto simp: mq_chains_def) (metis last_in_set)
  then show "mq_rep (mq_link_head a q) (a # ms) fs held"
    using c en by (auto simp: mq_rep_def mq_chains_def mq_link_head_def Let_def)
  show "mq_data (mq_link_head a q) = mq_data q" "mq_msg_size (mq_link_head a q) = mq_msg_size q"
    by (simp_all add: mq_link_head_def Let_def)
qed

lemma unlink_head_slot:
  assumes rep: "mq_rep q (a # ms) fs held"
  shows "\<exists>q'. mq_unlink_head q = (a, q') \<and> mq_rep q' ms fs (a # held) \<and> mq_data q' = mq_data q \<and>
    mq_msg_size q' = mq_msg_size q"
proof -
  from rep have c: "mq_chains q (a # ms) fs held" and e: "unat (mq_entry q) = Suc (length ms)"
    by (simp_all add: mq_rep_def)
  have "mq_entry q \<noteq> 0" using e by auto
  then have "unat (mq_entry q - 1) = length ms" using e unat_minus_one by fastforce
  moreover have "(last (a # ms) = a) = (ms = [])" using c last_Cons_self[of a ms] by (simp add: mq_chains_def)
  ultimately show ?thesis
    using c by (auto simp: mq_rep_def mq_chains_def mq_unlink_head_def Let_def)
qed

lemma put_free_slot:
  assumes "mq_rep q ms fs (a # held)"
  shows "mq_rep (mq_put_free a q) ms (a # fs) held" "mq_data (mq_put_free a q) = mq_data q"
    "mq_msg_size (mq_put_free a q) = mq_msg_size q"
  using assms by (auto simp: mq_rep_def mq_chains_def mq_put_free_def)

lemma flush_ends:
  assumes "mq_chains q ms fs held"
  shows "\<exists>q'. mq_flush q = Some q' \<and> mq_chains q' [] (rev ms @ fs) held \<and> mq_data q' = mq_data q"
  using assms
proof (induction ms arbitrary: q fs)
  case Nil
  then show ?case by (subst mq_flush.simps) (auto simp: mq_chains_def)
next
  case (Cons a ms)
  let ?q1 = "q\<lparr>mq_head := mq_next q a\<rparr>"
  let ?q2 = "if mq_tail ?q1 = a then ?q1\<lparr>mq_tail := 0\<rparr> else ?q1"
  have h: "mq_head q = a" "a \<noteq> 0" using Cons.prems by (simp_all add: mq_chains_def)
  have "(last (a # ms) = a) = (ms = [])" using Cons.prems last_Cons_self[of a ms] by (simp add: mq_chains_def)
  then have "mq_chains (mq_put_free a ?q2) ms (a # fs) held"
    using Cons.prems by (auto simp: mq_chains_def mq_put_free_def)
  from Cons.IH[OF this] obtain q' where "mq_flush (mq_put_free a ?q2) = Some q'"
    "mq_chains q' [] (rev ms @ a # fs) held" "mq_data q' = mq_data (mq_put_free a ?q2)" by auto
  moreover have "mq_flush q = mq_flush (mq_put_free a ?q2)" using h by (subst mq_flush.simps) (simp add: Let_def)
  moreover have "mq_data (mq_put_free a ?q2) = mq_data q" by (simp add: mq_put_free_def)
  ultimately show ?case by auto
qed

section \<open>Initialisation\<close>

lemma link_free_frame:
  "mq_head (mq_link_free n q) = mq_head q \<and> mq_tail (mq_link_free n q) = mq_tail q \<and>
   mq_data (mq_link_free n q) = mq_data q \<and> mq_max_msgs (mq_link_free n q) = mq_max_msgs q \<and>
   mq_msg_size (mq_link_free n q) = mq_msg_size q \<and> mq_msg_pool (mq_link_free n q) = mq_msg_pool q \<and>
   mq_entry (mq_link_free n q) = mq_entry q"
  by (induction n) (simp_all add: Let_def set_next_def)

lemma slot_link_free [simp]: "mq_slot (mq_link_free n q) i = mq_slot q i"
  by (simp add: mq_slot_def link_free_frame)

lemma unat_ucast16: "unat (ucast (m :: u16) :: u32) = unat m"
proof -
  have "unat m < 65536" using unsigned_less[of m] by simp
  then show ?thesis by (simp add: unsigned_ucast_eq take_bit_nat_eq_self)
qed

definition mq_slots :: "rt_messagequeue \<Rightarrow> nat \<Rightarrow> u32 list" where
  "mq_slots q n = rev (map (mq_slot q) [0..<n])"

lemma slots_ok:
  assumes "unat (mq_msg_pool q) + n * (unat (mq_msg_size q) + 4) \<le> 2 ^ 32" "mq_msg_pool q \<noteq> 0"
  shows "distinct (mq_slots q n)" "0 \<notin> set (mq_slots q n)"
proof -
  let ?step = "ucast (mq_msg_size q) + 4 :: u32"
  have e: "mq_slot q = slot_at (mq_msg_pool q) ?step" by (simp add: fun_eq_iff mq_slot_def slot_at_def)
  have st: "unat ?step = unat (mq_msg_size q) + 4"
  proof -
    have "unat (mq_msg_size q) < 65536" using unsigned_less[of "mq_msg_size q", where 'a=nat] by simp
    then show ?thesis by (simp add: unat_word_ariths unat_ucast16)
  qed
  then have "?step \<noteq> 0" by (metis add_is_0 unat_0 zero_neq_numeral)
  with slots_at_ok[of "mq_msg_pool q" n ?step] assms show "distinct (mq_slots q n)" "0 \<notin> set (mq_slots q n)"
    unfolding st by (auto simp: mq_slots_def e)
qed

lemma link_free_chain:
  assumes "distinct (mq_slots q n)" "0 \<notin> set (mq_slots q n)" "mq_free q = 0"
  shows "chain (mq_next (mq_link_free n q)) (mq_free (mq_link_free n q)) (mq_slots q n)"
  using assms
proof (induction n)
  case (Suc n)
  have s: "mq_slots q (Suc n) = mq_slot q n # mq_slots q n" by (simp add: mq_slots_def)
  with Suc have "chain (mq_next (mq_link_free n q)) (mq_free (mq_link_free n q)) (mq_slots q n)"
    "mq_slot q n \<notin> set (mq_slots q n)" "mq_slot q n \<noteq> 0" by auto
  then show ?case by (simp add: Let_def s flip: fun_upd_def)
qed (simp add: mq_slots_def)

lemma mq_init_rep:
  assumes "unat (mq_msg_pool q) + unat (mq_max_msgs q) * (unat (mq_msg_size q) + 4) \<le> 2 ^ 32"
    and "mq_msg_pool q \<noteq> 0" "mq_head q = 0" "mq_tail q = 0" "mq_free q = 0"
    and "\<forall>a. length (mq_data q a) = unat (mq_msg_size q)"
  shows "mq_rep ((mq_link_free (unat (mq_max_msgs q)) q)\<lparr>mq_entry := 0\<rparr>) [] (mq_slots q (unat (mq_max_msgs q))) []"
proof -
  note ok = slots_ok[OF assms(1,2)]
  have "length (mq_slots q n) = n" for n by (simp add: mq_slots_def)
  with link_free_chain[OF ok assms(5)] ok(1) assms(3-6) show ?thesis
    by (simp add: mq_rep_def mq_chains_def link_free_frame)
qed

section \<open>Sending and receiving\<close>

abbreviation mq_receivers :: "nat \<Rightarrow> kstate \<Rightarrow> nat list" where
  "mq_receivers x s \<equiv> lists s (WaitQ (OMessageQueue x))"

text \<open>The contents of the queued messages, oldest first.\<close>

definition mq_messages :: "rt_messagequeue \<Rightarrow> u8 list list" where
  "mq_messages q = map (mq_data q) (walk (unat (mq_entry q)) (mq_next q) (mq_head q))"

abbreviation messages :: "nat \<Rightarrow> kstate \<Rightarrow> u8 list list" where
  "messages x s \<equiv> mq_messages (mqueues s x)"

definition mq_inv :: "rt_messagequeue \<Rightarrow> bool" where
  "mq_inv q \<longleftrightarrow> (\<exists>ms fs. mq_rep q ms fs [])"

definition mq_ok :: "nat \<Rightarrow> kstate \<Rightarrow> bool" where
  "mq_ok x s \<longleftrightarrow> rt_object_get_type (OMessageQueue x) s = Class_MessageQueue \<and> mq_inv (mqueues s x)"

lemma rep_messages: "mq_rep q ms fs held \<Longrightarrow> mq_messages q = map (mq_data q) ms"
  by (metis chain_walk mq_chains_def mq_messages_def mq_rep_def)

lemma rep_length: "mq_rep q ms fs [] \<Longrightarrow> length ms + length fs = unat (mq_max_msgs q)"
  by (simp add: mq_rep_def mq_chains_def)

lemma messages_length: "length (messages x s) = unat (mq_entry (mqueues s x))"
  by (simp add: mq_messages_def)

lemma messages_empty: "mq_entry (mqueues s x) = 0 \<longleftrightarrow> messages x s = []"
  by (metis length_0_conv messages_length unat_eq_zero)

lemma message_size:
  assumes "mq_ok x s" "d \<in> set (messages x s)"
  shows "length d = unat (mq_msg_size (mqueues s x))"
  using assms rep_messages by (fastforce simp: mq_ok_def mq_inv_def mq_rep_def mq_chains_def)

lemma mqu_simps [simp]:
  "mqueues (mqu x f s) = (mqueues s)(x := f (mqueues s x))" "kinv (mqu x f s) = kinv s"
  "lists (mqu x f s) = lists s" "threads (mqu x f s) = threads s"
  "stat_of (mqu x f s) t = stat_of s t" "rt_object_get_type z (mqu x f s) = rt_object_get_type z s"
  by (simp_all add: mqu_def stat_of_def rt_object_get_type_def)

lemma mq_ok_frame:
  assumes "core_frame s s'"
  shows "mq_ok x s' = mq_ok x s" "messages x s' = messages x s" "mqueues s' = mqueues s"
  using core_frameD(9,20)[OF assms] by (simp_all add: mq_ok_def)

lemma mq_error_simps [simp]: "mq_ok x (set_error t e s) = mq_ok x s"
  by (simp add: mq_ok_def)

lemma mq_wake_ok:
  assumes "kinv s"
  shows "\<exists>s'. mq_wake x s = Some (RT_EOK, s') \<and> kinv s' \<and> wait_frame s s' \<and>
    mq_receivers x s' = tl (mq_receivers x s) \<and>
    (\<forall>u. stat_of s' u = RT_THREAD_SUSPEND \<longleftrightarrow>
       stat_of s u = RT_THREAD_SUSPEND \<and> u \<notin> set (take 1 (mq_receivers x s)))"
  using wake_if_any[OF assms, of "WaitQ (OMessageQueue x)" RT_EOK] unfolding mq_wake_def by auto

lemma u16_size: "ucast (m :: u16) < (sz :: u32) \<longleftrightarrow> \<not> unat sz \<le> unat m"
  by (simp only: word_less_nat_alt unat_ucast16 not_le)

lemma not_full_slot:
  assumes "mq_rep q ms fs []" "mq_entry q \<noteq> mq_max_msgs q"
  obtains f fs' where "fs = f # fs'"
  using assms rep_length[OF assms(1)] by (cases fs) (auto simp: mq_rep_def word_unat_eq_iff)

definition sent_ok :: "nat \<Rightarrow> u8 list \<Rightarrow> u32 \<Rightarrow> kstate \<Rightarrow> bool" where
  "sent_ok x buffer sz s \<longleftrightarrow> sz \<noteq> 0 \<and> unat sz \<le> unat (mq_msg_size (mqueues s x)) \<and> unat sz \<le> length buffer \<and>
     mq_entry (mqueues s x) \<noteq> mq_max_msgs (mqueues s x)"

text \<open>Both send functions fill a slot they hold, link it and wake a receiver.\<close>

lemma fill_held:
  assumes rep: "mq_rep q ms fs [f]" and sz: "unat sz \<le> unat (mq_msg_size q)" "unat sz \<le> length buffer"
  shows "\<exists>q'. mq_copy_in f buffer sz q = Some q' \<and> mq_rep q' ms fs [f] \<and> mq_next q' = mq_next q \<and>
    map (mq_data q') ms = mq_messages q \<and> take (unat sz) (mq_data q' f) = take (unat sz) buffer"
proof -
  from copy_in_slot[OF rep, of f sz buffer] sz obtain q' where q': "mq_copy_in f buffer sz q = Some q'"
    "mq_rep q' ms fs [f]" "mq_next q' = mq_next q"
    "mq_data q' = (mq_data q)(f := take (unat sz) buffer @ drop (unat sz) (mq_data q f))" by auto
  have "f \<notin> set ms" using rep by (simp add: mq_rep_def mq_chains_def)
  then have "map (mq_data q') ms = mq_messages q" using rep_messages[OF rep] q'(4) by simp
  moreover have "take (unat sz) (mq_data q' f) = take (unat sz) buffer" using q'(4) sz by simp
  ultimately show ?thesis using q'(1-3) by blast
qed

lemma finish_send:
  assumes inv: "kinv s" and ok: "mq_ok x s" and rep: "mq_rep q ms fs []"
  shows "\<exists>s'. mq_wake x (mqu x (\<lambda>_. q) s) = Some (RT_EOK, s') \<and> kinv s' \<and> mq_ok x s' \<and>
    messages x s' = map (mq_data q) ms \<and> mq_receivers x s' = tl (mq_receivers x s) \<and>
    (\<forall>u. stat_of s' u = RT_THREAD_SUSPEND \<longleftrightarrow>
       stat_of s u = RT_THREAD_SUSPEND \<and> u \<notin> set (take 1 (mq_receivers x s)))"
proof -
  from mq_wake_ok[of "mqu x (\<lambda>_. q) s" x] inv obtain s' where s': "mq_wake x (mqu x (\<lambda>_. q) s) = Some (RT_EOK, s')"
    "kinv s'" "wait_frame (mqu x (\<lambda>_. q) s) s'" "mq_receivers x s' = tl (mq_receivers x s)"
    "\<And>u. stat_of s' u = 2 \<longleftrightarrow> stat_of s u = 2 \<and> u \<notin> set (take 1 (mq_receivers x s))" by auto
  moreover have "mq_ok x (mqu x (\<lambda>_. q) s)" using ok rep by (auto simp: mq_ok_def mq_inv_def)
  ultimately show ?thesis
    using rep_messages[OF rep] mq_ok_frame(1,2)[OF wait_frameD(1)[OF s'(3)], of x] by auto
qed

lemma mq_send_room:
  assumes inv: "kinv s" and ok: "mq_ok x s" and a: "sent_ok x buffer sz s"
  shows "\<exists>s' d. rt_mq_send x buffer sz s = Some (RT_EOK, s') \<and> kinv s' \<and> mq_ok x s' \<and>
    messages x s' = messages x s @ [d] \<and> take (unat sz) d = take (unat sz) buffer \<and>
    mq_receivers x s' = tl (mq_receivers x s) \<and>
    (\<forall>u. stat_of s' u = RT_THREAD_SUSPEND \<longleftrightarrow>
       stat_of s u = RT_THREAD_SUSPEND \<and> u \<notin> set (take 1 (mq_receivers x s)))"
proof -
  let ?q = "mqueues s x"
  from ok obtain ms fs where rep: "mq_rep ?q ms fs []" by (auto simp: mq_ok_def mq_inv_def)
  from not_full_slot[OF rep] a obtain f fs' where fs: "fs = f # fs'" by (auto simp: sent_ok_def)
  from take_free_slot[OF rep[unfolded fs]] obtain q1 where q1: "mq_take_free ?q = Some (f, q1)" "mq_rep q1 ms fs' [f]"
    "mq_data q1 = mq_data ?q" "mq_msg_size q1 = mq_msg_size ?q" by blast
  have r0: "mq_rep (set_next f 0 q1) ms fs' [f]" using held_next[OF q1(2), of f 0] by simp
  from fill_held[OF r0, of sz buffer] a q1(4) obtain q2 where q2: "mq_copy_in f buffer sz (set_next f 0 q1) = Some q2"
    "mq_rep q2 ms fs' [f]" "mq_next q2 f = 0" "map (mq_data q2) ms = mq_messages (set_next f 0 q1)"
    "take (unat sz) (mq_data q2 f) = take (unat sz) buffer" by (auto simp: sent_ok_def)
  have m: "map (mq_data q2) ms = messages x s"
    using q2(4) rep_messages[OF r0] rep_messages[OF rep] q1(3) by simp
  note l = link_tail_slot[OF q2(2,3)]
  from finish_send[OF inv ok l(1)] l(2) m obtain s' where s': "mq_wake x (mqu x (\<lambda>_. mq_link_tail f q2) s) = Some (RT_EOK, s')"
    "kinv s'" "mq_ok x s'" "messages x s' = messages x s @ [mq_data q2 f]" "mq_receivers x s' = tl (mq_receivers x s)"
    "\<And>u. stat_of s' u = 2 \<longleftrightarrow> stat_of s u = 2 \<and> u \<notin> set (take 1 (mq_receivers x s))" by auto
  have "rt_mq_send x buffer sz s = Some (RT_EOK, s')"
    using ok a q1(1) q2(1) s'(1) by (simp add: rt_mq_send_def of_class_def mq_ok_def sent_ok_def u16_size)
  with s'(2-6) q2(5) show ?thesis by blast
qed

lemma mq_urgent_room:
  assumes inv: "kinv s" and ok: "mq_ok x s" and a: "sent_ok x buffer sz s"
  shows "\<exists>s' d. rt_mq_urgent x buffer sz s = Some (RT_EOK, s') \<and> kinv s' \<and> mq_ok x s' \<and>
    messages x s' = d # messages x s \<and> take (unat sz) d = take (unat sz) buffer \<and>
    mq_receivers x s' = tl (mq_receivers x s) \<and>
    (\<forall>u. stat_of s' u = RT_THREAD_SUSPEND \<longleftrightarrow>
       stat_of s u = RT_THREAD_SUSPEND \<and> u \<notin> set (take 1 (mq_receivers x s)))"
proof -
  let ?q = "mqueues s x"
  from ok obtain ms fs where rep: "mq_rep ?q ms fs []" by (auto simp: mq_ok_def mq_inv_def)
  from not_full_slot[OF rep] a obtain f fs' where fs: "fs = f # fs'" by (auto simp: sent_ok_def)
  from take_free_slot[OF rep[unfolded fs]] obtain q1 where q1: "mq_take_free ?q = Some (f, q1)" "mq_rep q1 ms fs' [f]"
    "mq_data q1 = mq_data ?q" "mq_msg_size q1 = mq_msg_size ?q" by blast
  from fill_held[OF q1(2), of sz buffer] a q1(4) obtain q2 where q2: "mq_copy_in f buffer sz q1 = Some q2"
    "mq_rep q2 ms fs' [f]" "map (mq_data q2) ms = mq_messages q1"
    "take (unat sz) (mq_data q2 f) = take (unat sz) buffer" by (auto simp: sent_ok_def)
  have m: "map (mq_data q2) ms = messages x s"
    using q2(3) rep_messages[OF q1(2)] rep_messages[OF rep] q1(3) by simp
  note l = link_head_slot[OF q2(2)]
  from finish_send[OF inv ok l(1)] l(2) m obtain s' where s': "mq_wake x (mqu x (\<lambda>_. mq_link_head f q2) s) = Some (RT_EOK, s')"
    "kinv s'" "mq_ok x s'" "messages x s' = mq_data q2 f # messages x s" "mq_receivers x s' = tl (mq_receivers x s)"
    "\<And>u. stat_of s' u = 2 \<longleftrightarrow> stat_of s u = 2 \<and> u \<notin> set (take 1 (mq_receivers x s))" by auto
  have "rt_mq_urgent x buffer sz s = Some (RT_EOK, s')"
    using ok a q1(1) q2(1) s'(1) by (simp add: rt_mq_urgent_def of_class_def mq_ok_def sent_ok_def u16_size)
  with s'(2-6) q2(4) show ?thesis by blast
qed

lemma mq_recv_message:
  assumes inv: "kinv s" and ok: "mq_ok x s" and m: "messages x s = d # ds"
    and b: "min (unat sz) (length d) \<le> length buffer"
  shows "\<exists>s'. mq_recv_try x buffer sz time s =
      Some (Done (RT_EOK, take (min (unat sz) (length d)) d @ drop (min (unat sz) (length d)) buffer), s') \<and>
    kinv s' \<and> mq_ok x s' \<and> messages x s' = ds \<and> s' = mqu x (\<lambda>_. mqueues s' x) s"
proof -
  let ?q = "mqueues s x"
  from ok obtain ms0 fs where rep0: "mq_rep ?q ms0 fs []" by (auto simp: mq_ok_def mq_inv_def)
  from rep_messages[OF rep0] m obtain a ms where ms: "ms0 = a # ms" "mq_data ?q a = d" "map (mq_data ?q) ms = ds" by auto
  note rep = rep0[unfolded ms(1)]
  from unlink_head_slot[OF rep] obtain q1 where q1: "mq_unlink_head ?q = (a, q1)" "mq_rep q1 ms fs [a]"
    "mq_data q1 = mq_data ?q" "mq_msg_size q1 = mq_msg_size ?q" by blast
  note pf = put_free_slot[OF q1(2)]
  let ?s = "mqu x (\<lambda>_. mq_put_free a q1) s"
  have len: "length d = unat (mq_msg_size ?q)" using message_size[OF ok, of d] m by simp
  have ne: "mq_entry ?q \<noteq> 0" "mq_head ?q \<noteq> 0"
    using messages_empty[of s x] m rep by (auto simp: mq_rep_def mq_chains_def)
  have "unat (if sz > ucast (mq_msg_size ?q) then ucast (mq_msg_size ?q) else sz) = min (unat sz) (length d)"
    unfolding len u16_size if_distrib[of unat] unat_ucast16 by (simp add: min_def)
  then have k: "uint (if sz > ucast (mq_msg_size ?q) then ucast (mq_msg_size ?q) else sz) = int (min (unat sz) (length d))"
    by (metis uint_nat)
  have "memcpy buffer 0 d 0 (uint (if sz > ucast (mq_msg_size ?q) then ucast (mq_msg_size ?q) else sz)) =
      Some (take (min (unat sz) (length d)) d @ drop (min (unat sz) (length d)) buffer)"
    unfolding k using memcpy_nat[of buffer 0 d 0 "min (unat sz) (length d)"] b by simp
  then have "mq_recv_try x buffer sz time s =
      Some (Done (RT_EOK, take (min (unat sz) (length d)) d @ drop (min (unat sz) (length d)) buffer), ?s)"
    using ne q1(1,3,4) ms(2) unfolding mq_recv_try_def Let_def by (simp split del: if_split cong: if_cong)
  moreover have "mq_ok x ?s" using ok pf(1) by (auto simp: mq_ok_def mq_inv_def)
  moreover have "messages x ?s = ds" using rep_messages[OF pf(1)] pf(2) q1(3) ms(3) by simp
  ultimately show ?thesis using inv by (intro exI[of _ ?s]) (simp add: mqu_def)
qed

lemma mq_recv_empty:
  assumes inv: "kinv s" and e: "messages x s = []"
    and t: "time \<noteq> 0" "running s t" "wait_args (OMessageQueue x) time s"
  shows "\<exists>s'. mq_recv_try x buffer sz time s = Some (Blocked, s') \<and>
    blocked_in (WaitQ (OMessageQueue x)) t (flag_of (OMessageQueue x) s) time (set_error t RT_EOK s) s'"
proof -
  let ?s = "set_error t RT_EOK s"
  have r: "running ?s t" using t(2) by simp
  from block_thread_running[of ?s t "WaitQ (OMessageQueue x)" "OMessageQueue x" time] inv t(2,3) obtain s' where
    "block_thread (WaitQ (OMessageQueue x)) t (flag_of (OMessageQueue x) s) time ?s = Some s'"
    "blocked_in (WaitQ (OMessageQueue x)) t (flag_of (OMessageQueue x) s) time ?s s'" by auto
  with e messages_empty[of s x] t(1) running_checks[OF t(2)] show ?thesis by (simp add: mq_recv_try_def)
qed

lemma full_no_free:
  assumes "mq_ok x s" "mq_entry (mqueues s x) = mq_max_msgs (mqueues s x)"
  shows "mq_take_free (mqueues s x) = None"
proof -
  from assms(1) obtain ms fs where rep: "mq_rep (mqueues s x) ms fs []" by (auto simp: mq_ok_def mq_inv_def)
  then have "fs = []" using rep_length[OF rep] assms(2) by (simp add: mq_rep_def)
  with rep take_free_full show ?thesis by blast
qed

lemma mq_refused:
  assumes "mq_ok x s" "sz \<noteq> 0"
  shows "\<not> unat sz \<le> unat (mq_msg_size (mqueues s x)) \<Longrightarrow>
      rt_mq_send x buffer sz s = Some (- RT_ERROR, s) \<and> rt_mq_urgent x buffer sz s = Some (- RT_ERROR, s)"
    "\<lbrakk>unat sz \<le> unat (mq_msg_size (mqueues s x)); mq_entry (mqueues s x) = mq_max_msgs (mqueues s x)\<rbrakk> \<Longrightarrow>
      rt_mq_send x buffer sz s = Some (- RT_EFULL, s) \<and> rt_mq_urgent x buffer sz s = Some (- RT_EFULL, s)"
  using assms full_no_free[OF assms(1)]
  by (simp_all add: rt_mq_send_def rt_mq_urgent_def of_class_def mq_ok_def u16_size)

lemma mq_reset:
  assumes inv: "kinv s" and ok: "mq_ok x s"
  shows "\<exists>s'. rt_mq_control x 1 s = Some (RT_EOK, s') \<and> kinv s' \<and> mq_ok x s' \<and> messages x s' = [] \<and>
    mq_receivers x s' = [] \<and>
    (\<forall>u \<in> set (mq_receivers x s). stat_of s' u \<noteq> RT_THREAD_SUSPEND \<and> th_error (threads s' u) = - RT_ERROR)"
proof -
  let ?h = "WaitQ (OMessageQueue x)"
  from wa.wake_all_ends[OF inv, of ?h] obtain s1 where s1: "rt_ipc_list_resume_all ?h s = Some s1" "kinv s1"
    "wait_frame s s1" "lists s1 ?h = []"
    "\<And>u. stat_of s1 u = 2 \<longleftrightarrow> stat_of s u = 2 \<and> u \<notin> set (lists s ?h)"
    "\<And>u. th_error (threads s1 u) = (if u \<in> set (lists s ?h) then - RT_ERROR else th_error (threads s u))" by auto
  note f1 = mq_ok_frame(1,2)[OF wait_frameD(1)[OF s1(3)], of x]
  from ok f1(1) obtain ms fs where "mq_rep (mqueues s1 x) ms fs []" by (auto simp: mq_ok_def mq_inv_def)
  then have "mq_chains (mqueues s1 x) ms fs []" by (simp add: mq_rep_def)
  from flush_ends[OF this] obtain q where q: "mq_flush (mqueues s1 x) = Some q" "mq_chains q [] (rev ms @ fs) []" by blast
  let ?q = "q\<lparr>mq_entry := 0\<rparr>"
  have rep: "mq_rep ?q [] (rev ms @ fs) []" using q(2) by (simp add: mq_rep_def mq_chains_def)
  let ?s = "mqu x (\<lambda>_. ?q) s1"
  from schedule_waiters[of ?s] s1(2) obtain s' where s': "rt_schedule ?s = Some s'" "kinv s'" "wait_frame ?s s'"
    "\<And>k. is_wait k \<Longrightarrow> lists s' k = lists s1 k"
    "\<And>u. (stat_of s' u = 2) = (stat_of s1 u = 2) \<and> th_error (threads s' u) = th_error (threads s1 u)" by auto
  have "rt_object_get_type (OMessageQueue x) s = 6" using ok by (simp add: mq_ok_def)
  then have run: "rt_mq_control x 1 s = Some (RT_EOK, s')"
    using s1(1) q(1) s'(1) by (simp add: rt_mq_control_def of_class_def)
  have ok2: "mq_ok x ?s" using ok f1(1) rep by (auto simp: mq_ok_def mq_inv_def)
  have "messages x ?s = []" using rep_messages[OF rep] by simp
  with ok2 run s'(2,4,5) s1(4-6) mq_ok_frame(1,2)[OF wait_frameD(1)[OF s'(3)], of x] show ?thesis
    by (intro exI[of _ s']) simp
qed

section \<open>Histories\<close>

datatype mq_event = Sent "u8 list" | Urgent "u8 list" | Received "u8 list" | Reset

text \<open>The abstract queue: a list of payloads. A receiver gets the bytes of the oldest message, as many as
  it asked for; a payload shorter than the message size is followed by bytes of earlier messages.\<close>

fun replay :: "u8 list list \<Rightarrow> mq_event list \<Rightarrow> u8 list list option" where
  "replay ps [] = Some ps"
| "replay ps (Sent p # es) = replay (ps @ [p]) es"
| "replay ps (Urgent p # es) = replay (p # ps) es"
| "replay ps (Received b # es) =
     (case ps of [] \<Rightarrow> None | p # qs \<Rightarrow> if prefix p b \<or> prefix b p then replay qs es else None)"
| "replay ps (Reset # es) = replay [] es"

lemma replay_append: "replay ps (es @ fs) = Option.bind (replay ps es) (\<lambda>qs. replay qs fs)"
  by (induction ps es rule: replay.induct) (auto split: list.splits)

definition send_events :: "(u8 list \<Rightarrow> mq_event) \<Rightarrow> u8 list \<Rightarrow> u32 \<Rightarrow> rt_err \<Rightarrow> mq_event list" where
  "send_events f buffer sz e = (if e = RT_EOK then [f (take (unat sz) buffer)] else [])"

fun recv_events :: "nat \<Rightarrow> (rt_err \<times> u8 list) outcome \<Rightarrow> mq_event list" where
  "recv_events k (Done (e, b)) = (if e = RT_EOK then [Received (take k b)] else [])"
| "recv_events k Blocked = []"

definition recv_len :: "nat \<Rightarrow> u32 \<Rightarrow> kstate \<Rightarrow> nat" where
  "recv_len x sz s = min (unat sz) (unat (mq_msg_size (mqueues s x)))"

inductive mq_run :: "nat \<Rightarrow> kstate \<Rightarrow> mq_event list \<Rightarrow> kstate \<Rightarrow> bool" for x :: nat and s0 :: kstate where
  start: "mq_run x s0 [] s0"
| send: "\<lbrakk>mq_run x s0 es s; unat sz \<le> length buffer; rt_mq_send x buffer sz s = Some (e, s')\<rbrakk> \<Longrightarrow>
    mq_run x s0 (es @ send_events Sent buffer sz e) s'"
| urgent: "\<lbrakk>mq_run x s0 es s; unat sz \<le> length buffer; rt_mq_urgent x buffer sz s = Some (e, s')\<rbrakk> \<Longrightarrow>
    mq_run x s0 (es @ send_events Urgent buffer sz e) s'"
| recv: "\<lbrakk>mq_run x s0 es s; running s t; wait_args (OMessageQueue x) time s; unat sz \<le> length buffer;
    rt_mq_recv x buffer sz time s = Some (r, s')\<rbrakk> \<Longrightarrow>
    mq_run x s0 (es @ recv_events (recv_len x sz s) r) s'"
| recv_woken: "\<lbrakk>mq_run x s0 es s; running s t; unat sz \<le> length buffer;
    wait_args (OMessageQueue x) (time_left time began (rt_tick_get s)) s;
    rt_mq_recv_woken x buffer sz time began t s = Some (r, s')\<rbrakk> \<Longrightarrow>
    mq_run x s0 (es @ recv_events (recv_len x sz s) r) s'"
| reset: "\<lbrakk>mq_run x s0 es s; rt_mq_control x 1 s = Some (e, s')\<rbrakk> \<Longrightarrow> mq_run x s0 (es @ [Reset]) s'"
| other: "\<lbrakk>mq_run x s0 es s; kinv s'; mqueues s' x = mqueues s x;
    rt_object_get_type (OMessageQueue x) s' = rt_object_get_type (OMessageQueue x) s\<rbrakk> \<Longrightarrow> mq_run x s0 es s'"

text \<open>The simulation relation: each payload is the beginning of its message.\<close>

definition simulates :: "nat \<Rightarrow> u8 list list \<Rightarrow> kstate \<Rightarrow> bool" where
  "simulates x ps s \<longleftrightarrow> kinv s \<and> mq_ok x s \<and> list_all2 prefix ps (messages x s)"

lemma simulates_send:
  assumes sim: "simulates x ps s" and len: "unat sz \<le> length buffer"
    and run: "rt_mq_send x buffer sz s = Some (e, s')"
  shows "\<exists>qs. replay ps (send_events Sent buffer sz e) = Some qs \<and> simulates x qs s'"
proof -
  have k: "kinv s" "mq_ok x s" "list_all2 prefix ps (messages x s)" using sim by (simp_all add: simulates_def)
  have nz: "sz \<noteq> 0" using run k(2) by (auto simp: rt_mq_send_def of_class_def mq_ok_def)
  show ?thesis
  proof (cases "sent_ok x buffer sz s")
    case True
    from mq_send_room[OF k(1,2) True] run obtain d where d: "e = RT_EOK" "kinv s'" "mq_ok x s'"
      "messages x s' = messages x s @ [d]" "take (unat sz) d = take (unat sz) buffer" by auto
    have "prefix (take (unat sz) buffer) d" using take_is_prefix[of "unat sz" d] d(5) by simp
    with d k(3) show ?thesis by (simp add: simulates_def send_events_def list_all2_appendI)
  next
    case False
    then have "e \<noteq> RT_EOK \<and> s' = s"
      using mq_refused[OF k(2) nz, of buffer] run nz len by (fastforce simp: sent_ok_def)
    then show ?thesis using sim by (simp add: send_events_def)
  qed
qed

lemma simulates_urgent:
  assumes sim: "simulates x ps s" and len: "unat sz \<le> length buffer"
    and run: "rt_mq_urgent x buffer sz s = Some (e, s')"
  shows "\<exists>qs. replay ps (send_events Urgent buffer sz e) = Some qs \<and> simulates x qs s'"
proof -
  have k: "kinv s" "mq_ok x s" "list_all2 prefix ps (messages x s)" using sim by (simp_all add: simulates_def)
  have nz: "sz \<noteq> 0" using run k(2) by (auto simp: rt_mq_urgent_def of_class_def mq_ok_def)
  show ?thesis
  proof (cases "sent_ok x buffer sz s")
    case True
    from mq_urgent_room[OF k(1,2) True] run obtain d where d: "e = RT_EOK" "kinv s'" "mq_ok x s'"
      "messages x s' = d # messages x s" "take (unat sz) d = take (unat sz) buffer" by auto
    have "prefix (take (unat sz) buffer) d" using take_is_prefix[of "unat sz" d] d(5) by simp
    with d k(3) show ?thesis by (simp add: simulates_def send_events_def)
  next
    case False
    then have "e \<noteq> RT_EOK \<and> s' = s"
      using mq_refused[OF k(2) nz, of buffer] run nz len by (fastforce simp: sent_ok_def)
    then show ?thesis using sim by (simp add: send_events_def)
  qed
qed

lemma simulates_recv_try:
  assumes sim: "simulates x ps s" and t: "running s t" "wait_args (OMessageQueue x) time s"
    and len: "unat sz \<le> length buffer" and run: "mq_recv_try x buffer sz time s = Some (r, s')"
  shows "\<exists>qs. replay ps (recv_events (recv_len x sz s) r) = Some qs \<and> simulates x qs s'"
proof -
  have k: "kinv s" "mq_ok x s" "list_all2 prefix ps (messages x s)" using sim by (simp_all add: simulates_def)
  show ?thesis
  proof (cases "messages x s")
    case (Cons d ds)
    then obtain p qs where ps: "ps = p # qs" "prefix p d" "list_all2 prefix qs ds"
      using k(3) by (auto simp: list_all2_Cons2)
    have l: "length d = unat (mq_msg_size (mqueues s x))" using message_size[OF k(2)] Cons by simp
    from mq_recv_message[OF k(1,2) Cons, of sz buffer time] run len obtain b where b: "r = Done (RT_EOK, b)"
      "b = take (min (unat sz) (length d)) d @ drop (min (unat sz) (length d)) buffer"
      "kinv s'" "mq_ok x s'" "messages x s' = ds" by auto
    have "take (recv_len x sz s) b = take (recv_len x sz s) d" using b(2) l by (simp add: recv_len_def)
    then have "prefix (take (recv_len x sz s) b) d" by (metis take_is_prefix)
    then have "prefix p (take (recv_len x sz s) b) \<or> prefix (take (recv_len x sz s) b) p"
      using ps(2) prefix_same_cases by blast
    with b ps show ?thesis by (simp add: simulates_def)
  next
    case Nil
    then have e: "mq_entry (mqueues s x) = 0" by (simp add: messages_empty)
    show ?thesis
    proof (cases "time = 0")
      case True
      then have "r = Done (- RT_ETIMEOUT, buffer)" "s' = set_error t (- RT_ETIMEOUT) (set_error t RT_EOK s)"
        using run e running_checks[OF t(1)] by (simp_all add: mq_recv_try_def)
      then show ?thesis using k by (simp add: simulates_def)
    next
      case False
      from mq_recv_empty[OF k(1) Nil False t, of buffer sz] run have r: "r = Blocked"
        "blocked_in (WaitQ (OMessageQueue x)) t (flag_of (OMessageQueue x) s) time (set_error t RT_EOK s) s'" by auto
      note b = blocked_inD[OF r(2)]
      show ?thesis using b(1) r(1) k(2,3) mq_ok_frame(1,2)[OF b(2), of x] by (simp add: simulates_def)
    qed
  qed
qed

lemma simulates_recv:
  assumes sim: "simulates x ps s" and t: "running s t" "wait_args (OMessageQueue x) time s"
    and len: "unat sz \<le> length buffer" and run: "rt_mq_recv x buffer sz time s = Some (r, s')"
  shows "\<exists>qs. replay ps (recv_events (recv_len x sz s) r) = Some qs \<and> simulates x qs s'"
proof (cases "mq_entry (mqueues s x) = 0 \<and> time = 0")
  case True
  then have "r = Done (- RT_ETIMEOUT, buffer)" "s' = s"
    using run sim by (auto simp: rt_mq_recv_def of_class_def simulates_def mq_ok_def rt_assert_def split: if_splits)
  with sim show ?thesis by simp
next
  case False
  then have "mq_recv_try x buffer sz time s = Some (r, s')"
    using run sim by (auto simp: rt_mq_recv_def of_class_def simulates_def mq_ok_def rt_assert_def split: if_splits)
  with simulates_recv_try[OF sim t len] show ?thesis by blast
qed

lemma simulates_recv_woken:
  assumes sim: "simulates x ps s" and t: "running s t" "wait_args (OMessageQueue x) (time_left time began (rt_tick_get s)) s"
    and len: "unat sz \<le> length buffer" and run: "rt_mq_recv_woken x buffer sz time began t s = Some (r, s')"
  shows "\<exists>qs. replay ps (recv_events (recv_len x sz s) r) = Some qs \<and> simulates x qs s'"
  using simulates_recv_try[OF sim t len] run sim
  by (cases "th_error (threads s t) = RT_EOK") (auto simp: rt_mq_recv_woken_def)

lemma mq_run_simulates:
  assumes "mq_run x s0 es s" "simulates x ps s0"
  shows "\<exists>qs. replay ps es = Some qs \<and> simulates x qs s"
  using assms
proof induction
  case (send es s sz buffer e s')
  then show ?case using simulates_send[of x _ s sz buffer e s'] by (auto simp: replay_append)
next
  case (urgent es s sz buffer e s')
  then show ?case using simulates_urgent[of x _ s sz buffer e s'] by (auto simp: replay_append)
next
  case (recv es s t time sz buffer r s')
  then show ?case using simulates_recv[of x _ s t time sz buffer r s'] by (auto simp: replay_append)
next
  case (recv_woken es s t sz buffer time began r s')
  then show ?case using simulates_recv_woken[of x _ s t time began sz buffer r s'] by (auto simp: replay_append)
next
  case (reset es s e s')
  then obtain qs where "replay ps es = Some qs" "simulates x qs s" by auto
  moreover from this mq_reset[of s x] reset.hyps(2) have "simulates x [] s'" by (auto simp: simulates_def)
  ultimately show ?case by (simp add: replay_append)
next
  case (other es s s')
  then show ?case by (auto simp: simulates_def mq_ok_def)
qed simp

lemma mq_init_inv:
  assumes run: "rt_mq_init x name pool data msg_size pool_size flag s = Some (e, s')"
    and pool: "pool \<noteq> 0" "unat pool + unat pool_size \<le> 2 ^ 32"
    and data: "\<forall>a. length (data a) = unat (ucast (RT_ALIGN msg_size) :: u16)"
  shows "e = RT_EOK \<and> mq_inv (mqueues s' x) \<and> messages x s' = [] \<and>
    unat (mq_max_msgs (mqueues s' x)) * (unat (mq_msg_size (mqueues s' x)) + 4) \<le> unat pool_size"
proof -
  define ms where "ms = (ucast (RT_ALIGN msg_size) :: u16)"
  define n where "n = (ucast (pool_size div (ucast ms + 4)) :: u16)"
  have w: "unat (ucast ms + 4 :: u32) = unat ms + 4"
  proof -
    have "unat ms < 65536" using unsigned_less[of ms] by simp
    then show ?thesis using unat_ucast16[of ms] by (simp add: unat_word_ariths unsigned_ucast_eq)
  qed
  have "unat n \<le> unat (pool_size div (ucast ms + 4))" by (simp add: n_def unsigned_ucast_eq)
  also have "\<dots> = unat pool_size div (unat ms + 4)" by (simp add: unat_div w)
  finally have nb: "unat n * (unat ms + 4) \<le> unat pool_size"
    using div_times_less_eq_dividend[of "unat pool_size" "unat ms + 4"] by (meson le_trans mult_le_mono1)
  from run obtain s1 s2 where s2: "rt_object_init (OMessageQueue x) Class_MessageQueue name s = Some s1"
    "rt_ipc_object_init (WaitQ (OMessageQueue x)) (set_flag (OMessageQueue x) flag s1) = Some s2" and e: "e = RT_EOK"
    and s': "s' = mqu x (\<lambda>_. (mq_link_free (unat n) ((mqueues s2 x)\<lparr>mq_msg_pool := pool, mq_msg_size := ms,
               mq_max_msgs := n, mq_head := 0, mq_tail := 0, mq_free := 0, mq_data := data\<rparr>))\<lparr>mq_entry := 0\<rparr>) s2"
    by (auto simp: rt_mq_init_def Let_def ms_def n_def bind_eq_Some_conv)
  let ?q = "(mqueues s2 x)\<lparr>mq_msg_pool := pool, mq_msg_size := ms,
               mq_max_msgs := n, mq_head := 0, mq_tail := 0, mq_free := 0, mq_data := data\<rparr>"
  have "mq_rep ((mq_link_free (unat n) ?q)\<lparr>mq_entry := 0\<rparr>) [] (mq_slots ?q (unat n)) []"
    using mq_init_rep[of ?q] pool nb data by (simp add: ms_def)
  with rep_messages[OF this] e nb show ?thesis
    unfolding s' mq_inv_def by (auto simp: link_free_frame)
qed

section \<open>Sample queue\<close>

text \<open>A queue of two slots of four bytes in a pool at \<open>0x20000000\<close>.\<close>

definition sample_mq :: rt_messagequeue where
  "sample_mq = (let q = \<lparr>mq_msg_pool = 0x20000000, mq_msg_size = 4, mq_max_msgs = 2, mq_entry = 0, mq_head = 0,
      mq_tail = 0, mq_free = 0, mq_next = (\<lambda>_. 0), mq_data = (\<lambda>_. [0, 0, 0, 0])\<rparr>
    in (mq_link_free (unat (mq_max_msgs q)) q)\<lparr>mq_entry := 0\<rparr>)"

definition sample_queue :: kstate where
  "sample_queue = mqu 6 (\<lambda>_. sample_mq) sample"

lemma sample_mq_rep: "\<exists>fs. mq_rep sample_mq [] fs []"
proof -
  let ?q = "\<lparr>mq_msg_pool = 0x20000000, mq_msg_size = 4, mq_max_msgs = 2, mq_entry = 0, mq_head = 0,
      mq_tail = 0, mq_free = 0, mq_next = (\<lambda>_. 0), mq_data = (\<lambda>_. [0, 0, 0, 0])\<rparr>"
  have "mq_rep ((mq_link_free (unat (mq_max_msgs ?q)) ?q)\<lparr>mq_entry := 0\<rparr>) [] (mq_slots ?q (unat (mq_max_msgs ?q))) []"
    by (rule mq_init_rep) simp_all
  then show ?thesis unfolding sample_mq_def Let_def by blast
qed

lemma sample_mq_size: "mq_msg_size sample_mq = 4" "mq_max_msgs sample_mq = 2" "mq_entry sample_mq = 0"
  by (simp_all add: sample_mq_def Let_def link_free_frame)

lemma sample_queue_ok: "kinv sample_queue" "mq_ok 6 sample_queue" "messages 6 sample_queue = []"
  "simulates 6 [] sample_queue" "running sample_queue 1" "wait_args (OMessageQueue 6) 0 sample_queue"
proof -
  show k: "kinv sample_queue" using sample_kinv by (simp add: sample_queue_def)
  from sample_mq_rep obtain fs where rep: "mq_rep sample_mq [] fs []" by blast
  have "rt_object_get_type (OMessageQueue 6) sample = 6" by (simp add: rt_object_get_type_def sample_def sample_type_def)
  then show ok: "mq_ok 6 sample_queue" using rep by (auto simp: mq_ok_def mq_inv_def sample_queue_def)
  show m: "messages 6 sample_queue = []" using rep_messages[OF rep] by (simp add: sample_queue_def)
  show "simulates 6 [] sample_queue" using k ok m by (simp add: simulates_def)
  show "running sample_queue 1" "wait_args (OMessageQueue 6) 0 sample_queue"
    by (simp_all add: running_def sample_queue_def mqu_def stat_of_def wait_args_def flag_of_def)
      (simp_all add: sample_def sample_thread_def)
qed

section \<open>Properties\<close>

text \<open>\<open>rt_mq_init\<close> divides the pool into as many slots as fit and leaves an empty, well-formed queue:
  all slots are distinct, inside the pool and on the free list.\<close>

theorem mq_init_well_formed:
  assumes "rt_mq_init x name pool data msg_size pool_size flag s = Some (e, s')"
    and "pool \<noteq> 0" and "unat pool + unat pool_size \<le> 2 ^ 32"
    and "\<forall>a. length (data a) = unat (ucast (RT_ALIGN msg_size) :: u16)"
  shows "e = RT_EOK \<and> mq_inv (mqueues s' x) \<and> messages x s' = [] \<and>
    unat (mq_max_msgs (mqueues s' x)) * (unat (mq_msg_size (mqueues s' x)) + 4) \<le> unat pool_size"
  by (rule mq_init_inv[OF assms])

theorem mq_init_well_formed_witness:
  "\<exists>s'. rt_mq_init 6 [113, 0] 0x20000000 (\<lambda>_. [0, 0, 0, 0]) 3 16 0 sample = Some (RT_EOK, s') \<and>
     mq_inv (mqueues s' 6)"
proof -
  have c: "OMessageQueue 6 \<notin> set (containers sample 6)" "lists sample (WaitQ (OMessageQueue 6)) = []"
    by (simp_all add: sample_def)
  have nm: "rt_strncpy 8 [113, 0] = Some [113, 0, 0, 0, 0, 0, 0, 0]" by (simp add: eval_nat_numeral)
  have info: "rt_object_get_information 6 \<noteq> None"
    by (simp add: rt_object_get_information_def rt_object_container_def)
  from object_init_ok[OF sample_kinv _ c(1) info nm] obtain s1 where
    "rt_object_init (OMessageQueue 6) 6 [113, 0] sample = Some s1" "lists s1 (WaitQ (OMessageQueue 6)) = []"
    using c(2) by (auto simp: sample_simps)
  then obtain e s' where r: "rt_mq_init 6 [113, 0] 0x20000000 (\<lambda>_. [0, 0, 0, 0]) 3 16 0 sample = Some (e, s')"
    by (simp add: rt_mq_init_def rt_ipc_object_init_def set_flag_def Let_def)
  have al: "RT_ALIGN (3 :: u32) = 4" by (simp add: RT_ALIGN_def)
  from mq_init_well_formed[OF r] r al show ?thesis by simp
qed

text \<open>\<open>rt_mq_send\<close> on every branch: a message longer than the slots is \<open>-RT_ERROR\<close>, a full queue is
  \<open>-RT_EFULL\<close>, both without any effect; otherwise the message goes to the end of the queue and the first
  waiting receiver is woken.\<close>

theorem mq_send_behaviour:
  assumes "kinv s" and "mq_ok x s" and "sz \<noteq> 0" and "unat sz \<le> length buffer"
  shows "\<exists>e s'. rt_mq_send x buffer sz s = Some (e, s') \<and> kinv s' \<and> mq_ok x s' \<and>
    (if unat (mq_msg_size (mqueues s x)) < unat sz then e = - RT_ERROR \<and> s' = s
     else if mq_entry (mqueues s x) = mq_max_msgs (mqueues s x) then e = - RT_EFULL \<and> s' = s
     else e = RT_EOK \<and> lists s' (WaitQ (OMessageQueue x)) = tl (lists s (WaitQ (OMessageQueue x))) \<and>
       (\<exists>d. messages x s' = messages x s @ [d] \<and> take (unat sz) d = take (unat sz) buffer))"
proof -
  consider "unat (mq_msg_size (mqueues s x)) < unat sz"
    | "unat sz \<le> unat (mq_msg_size (mqueues s x))" "mq_entry (mqueues s x) = mq_max_msgs (mqueues s x)"
    | "sent_ok x buffer sz s" using assms(3,4) by (fastforce simp: sent_ok_def)
  then show ?thesis
  proof cases
    case 3
    from mq_send_room[OF assms(1,2) 3] 3 show ?thesis by (auto simp: sent_ok_def)
  qed (use mq_refused[OF assms(2,3), of buffer] assms(1,2) in auto)
qed

theorem mq_send_behaviour_witness:
  "\<exists>s' d. rt_mq_send 6 [1, 2, 3] 3 sample_queue = Some (RT_EOK, s') \<and> messages 6 s' = [d] \<and> take 3 d = [1, 2, 3]"
  using mq_send_behaviour[OF sample_queue_ok(1,2), of 3 "[1, 2, 3]"] sample_queue_ok(3)
  by (auto simp: sample_queue_def sample_mq_size)

text \<open>Resetting a queue wakes all waiting receivers with \<open>-RT_ERROR\<close>, returns every queued message to
  the free list, and leaves a well-formed empty queue; the loop over the messages ends.\<close>

theorem mq_reset_behaviour:
  assumes "kinv s" and "mq_ok x s"
  shows "\<exists>s'. rt_mq_control x 1 s = Some (RT_EOK, s') \<and> kinv s' \<and> mq_ok x s' \<and> messages x s' = [] \<and>
    lists s' (WaitQ (OMessageQueue x)) = [] \<and>
    (\<forall>u \<in> set (lists s (WaitQ (OMessageQueue x))).
       stat_of s' u \<noteq> RT_THREAD_SUSPEND \<and> th_error (threads s' u) = - RT_ERROR)"
  by (rule mq_reset[OF assms])

theorem mq_reset_behaviour_witness:
  "\<exists>s'. rt_mq_control 6 1 sample_queue = Some (RT_EOK, s') \<and> messages 6 s' = []"
  using mq_reset_behaviour[OF sample_queue_ok(1,2)] by blast

text \<open>C2: the message queue refines an abstract queue of payloads: over every history of sends, urgent
  sends, receives (blocking ones and their wake-ups included) and resets, what the receivers get is what
  the abstract queue delivers, in its order, and the queue in memory holds the rest.\<close>

theorem message_queue_refines:
  assumes "mq_run x s0 es s" and "simulates x ps s0"
  shows "\<exists>qs. replay ps es = Some qs \<and> simulates x qs s"
  by (rule mq_run_simulates[OF assms])

theorem message_queue_refines_witness:
  "\<exists>s. mq_run 6 sample_queue [Sent [1]] s \<and> replay [] [Sent [1]] = Some [[1]] \<and> simulates 6 [[1]] s"
proof -
  have a: "sent_ok 6 [1] 1 sample_queue" by (simp add: sent_ok_def sample_queue_def sample_mq_size)
  from mq_send_room[OF sample_queue_ok(1,2) a] obtain s1 where s1: "rt_mq_send 6 [1] 1 sample_queue = Some (RT_EOK, s1)"
    by auto
  have run: "mq_run 6 sample_queue [Sent [1]] s1"
    using mq_run.send[OF mq_run.start _ s1] by (simp add: send_events_def)
  from message_queue_refines[OF run sample_queue_ok(4)] run show ?thesis by auto
qed

end
