(* ===== verification/Mempool.thy ===== *)
theory Mempool
  imports Waiting Chains
begin

text \<open>
  Memory pools (\<open>src/mempool.c\<close>): blocks of one size, each behind a pointer word that links the free
  blocks and holds the pool of a block in use. The pointer words are \<open>mp_links\<close> of the kernel state, by
  address; the address of the control block of pool \<open>x\<close> is \<open>x\<close> itself. Waiting threads are in the list
  \<open>WaitQ (OMemPool x)\<close>, the last one first, and counted in \<open>mp_suspend_thread_count\<close>. A call that
  waits is split at \<open>rt_schedule\<close> as the other blocking calls are.
\<close>

section \<open>Operations\<close>

definition mp_upd :: "nat \<Rightarrow> (rt_mempool \<Rightarrow> rt_mempool) \<Rightarrow> kstate \<Rightarrow> kstate" where
  "mp_upd x f s = s\<lparr>mempools := (mempools s)(x := f (mempools s x))\<rparr>"

text \<open>The loop that links the blocks, each to the next, and the \<open>RT_NULL\<close> written afterwards to the block
  before the end: with no block at all that is the word one block before the pool.\<close>

primrec link_blocks :: "nat \<Rightarrow> u32 \<Rightarrow> u32 \<Rightarrow> (u32 \<Rightarrow> u32) \<Rightarrow> u32 \<Rightarrow> u32" where
  "link_blocks 0 start step l = l"
| "link_blocks (Suc k) start step l =
     (link_blocks k start step l)(start + of_nat k * step := start + (of_nat k + 1) * step)"

definition mp_format :: "nat \<Rightarrow> kstate \<Rightarrow> kstate" where
  "mp_format x s =
     (let m = mempools s x; step = mp_block_size m + 4; n = mp_block_total_count m;
          l = link_blocks (unat n) (mp_start_address m) step (mp_links s)
      in mp_upd x (mp_block_list_update (\<lambda>_. mp_start_address m))
           (s\<lparr>mp_links := l(mp_start_address m + (n - 1) * step := 0)\<rparr>))"

definition rt_mp_init :: "nat \<Rightarrow> u8 list \<Rightarrow> u32 \<Rightarrow> u32 \<Rightarrow> u32 \<Rightarrow> kstate \<Rightarrow> (rt_err \<times> kstate) option" where
  "rt_mp_init x name start sz block_size s = do {
     s1 \<leftarrow> rt_object_init (OMemPool x) Class_MemPool name s;
     let psize = (RT_ALIGN_DOWN sz :: u32);
     let bsize = (RT_ALIGN block_size :: u32);
     rt_assert (bsize + 4 \<noteq> 0);
     let n = psize div (bsize + 4);
     s2 \<leftarrow> rt_ipc_object_init (WaitQ (OMemPool x)) s1;
     Some (RT_EOK, mp_format x (mp_upd x (\<lambda>m. m\<lparr>mp_start_address := start, mp_size := psize,
       mp_block_size := bsize, mp_block_total_count := n, mp_block_free_count := n,
       mp_suspend_thread_count := 0\<rparr>) s2)) }"

text \<open>The loop of \<open>rt_mp_detach\<close> and \<open>rt_mp_delete\<close> that wakes the waiting threads with \<open>-RT_ERROR\<close>, and
  one round of it.\<close>

definition mp_wake :: "nat \<Rightarrow> kstate \<Rightarrow> kstate option" where
  "mp_wake x s =
     (case lists s (WaitQ (OMemPool x)) of [] \<Rightarrow> None
      | t # _ \<Rightarrow> do {
          (_, s1) \<leftarrow> rt_thread_resume t (set_error t (- RT_ERROR) s);
          Some (mp_upd x (\<lambda>m. m\<lparr>mp_suspend_thread_count := mp_suspend_thread_count m - 1\<rparr>) s1) })"

partial_function (option) mp_wake_all :: "nat \<Rightarrow> kstate \<Rightarrow> kstate option" where
  "mp_wake_all x s =
     (case lists s (WaitQ (OMemPool x)) of [] \<Rightarrow> Some s
      | t # _ \<Rightarrow> do { s1 \<leftarrow> mp_wake x s; mp_wake_all x s1 })"

definition rt_mp_detach :: "nat \<Rightarrow> kstate \<Rightarrow> (rt_err \<times> kstate) option" where
  "rt_mp_detach x s = do {
     of_class (OMemPool x) Class_MemPool s;
     rt_assert (rt_object_is_systemobject (OMemPool x) s);
     s1 \<leftarrow> mp_wake_all x s;
     Some (RT_EOK, rt_object_detach (OMemPool x) s1) }"

definition rt_mp_create :: "u8 list \<Rightarrow> u32 \<Rightarrow> u32 \<Rightarrow> kstate \<Rightarrow> (nat option \<times> kstate) option" where
  "rt_mp_create name block_count block_size s = do {
     RT_DEBUG_NOT_IN_INTERRUPT s;
     (r, s1) \<leftarrow> rt_object_allocate OMemPool Class_MemPool name s;
     case r of None \<Rightarrow> Some (None, s1)
     | Some x \<Rightarrow> do {
         let bsize = (RT_ALIGN block_size :: u32);
         let s2 = mp_upd x (\<lambda>m. m\<lparr>mp_block_size := bsize, mp_size := (bsize + 4) * block_count\<rparr>) s1;
         (p, h) \<leftarrow> rt_malloc (interrupt_nest s2) ((bsize + 4) * block_count) (kheap s2);
         let s3 = mp_upd x (\<lambda>m. m\<lparr>mp_start_address := p\<rparr>) (s2\<lparr>kheap := h\<rparr>);
         if p = 0
         then do { s4 \<leftarrow> rt_object_delete (OMemPool x) x s3; Some (None, s4) }
         else do {
           s4 \<leftarrow> rt_ipc_object_init (WaitQ (OMemPool x)) s3;
           Some (Some x, mp_format x (mp_upd x (\<lambda>m. m\<lparr>mp_block_total_count := block_count,
             mp_block_free_count := block_count, mp_suspend_thread_count := 0\<rparr>) s4)) } } }"

definition rt_mp_delete :: "nat \<Rightarrow> kstate \<Rightarrow> (rt_err \<times> kstate) option" where
  "rt_mp_delete x s = do {
     RT_DEBUG_NOT_IN_INTERRUPT s;
     of_class (OMemPool x) Class_MemPool s;
     rt_assert (\<not> rt_object_is_systemobject (OMemPool x) s);
     s1 \<leftarrow> mp_wake_all x s;
     h \<leftarrow> rt_free (interrupt_nest s1) (mp_start_address (mempools s1 x)) (kheap s1);
     s2 \<leftarrow> rt_object_delete (OMemPool x) x (s1\<lparr>kheap := h\<rparr>);
     Some (RT_EOK, s2) }"

text \<open>The end of \<open>rt_mp_alloc\<close>: unlink the first free block and write the pool's address into it.\<close>

definition mp_take :: "nat \<Rightarrow> kstate \<Rightarrow> (u32 \<times> kstate) option" where
  "mp_take x s = do {
     let m = mempools s x;
     let b = mp_block_list m;
     rt_assert (b \<noteq> 0);
     Some (b + 4, (mp_upd x (\<lambda>m. m\<lparr>mp_block_free_count := mp_block_free_count m - 1,
                                   mp_block_list := mp_links s b\<rparr>) s)
                  \<lparr>mp_links := (mp_links s)(b := of_nat x)\<rparr>) }"

text \<open>The loop of \<open>rt_mp_alloc\<close> from its test; \<open>self\<close> is the thread the call was made by. The result is
  the address of the block or \<open>RT_NULL\<close>.\<close>

definition mp_alloc_try :: "nat \<Rightarrow> 32 word \<Rightarrow> nat option \<Rightarrow> kstate \<Rightarrow> (u32 outcome \<times> kstate) option" where
  "mp_alloc_try x time self s =
     (if mp_block_free_count (mempools s x) = 0
      then if time = 0 then Some (Done 0, rt_set_errno (- RT_ETIMEOUT) s)
      else do {
        RT_DEBUG_NOT_IN_INTERRUPT s;
        t \<leftarrow> self;
        (_, s1) \<leftarrow> rt_thread_suspend t (set_error t RT_EOK s);
        s2 \<leftarrow> rt_list_insert_after (WaitQ (OMemPool x)) t s1;
        let s3 = mp_upd x (\<lambda>m. m\<lparr>mp_suspend_thread_count := mp_suspend_thread_count m + 1\<rparr>) s2;
        s4 \<leftarrow> (if 0 < sint time then timer_arm (ThreadTimer t) time s3 else Some s3);
        s5 \<leftarrow> rt_schedule s4;
        Some (Blocked, s5) }
      else do { (p, s1) \<leftarrow> mp_take x s; Some (Done p, s1) })"

definition rt_mp_alloc :: "nat \<Rightarrow> 32 word \<Rightarrow> kstate \<Rightarrow> (u32 outcome \<times> kstate) option" where
  "rt_mp_alloc x time s = mp_alloc_try x time (rt_thread_self s) s"

text \<open>The thread \<open>t\<close> that waited since the tick \<open>before\<close> runs again.\<close>

definition rt_mp_alloc_woken :: "nat \<Rightarrow> 32 word \<Rightarrow> u32 \<Rightarrow> nat \<Rightarrow> kstate \<Rightarrow> (u32 outcome \<times> kstate) option" where
  "rt_mp_alloc_woken x time before t s =
     (if th_error (threads s t) \<noteq> RT_EOK then Some (Done 0, s)
      else mp_alloc_try x (time_left time before (tick s)) (Some t) s)"

text \<open>A waiting thread is woken when the count says that there is one; its control block is taken from
  the list without another test, so that an empty list then yields no thread (\<open>None\<close>).\<close>

definition rt_mp_free :: "u32 \<Rightarrow> kstate \<Rightarrow> kstate option" where
  "rt_mp_free block s = do {
     let b = block - 4;
     let x = unat (mp_links s b);
     let m = mempools s x;
     let s1 = (mp_upd x (\<lambda>m. m\<lparr>mp_block_free_count := mp_block_free_count m + 1, mp_block_list := b\<rparr>) s)
                \<lparr>mp_links := (mp_links s)(b := mp_block_list m)\<rparr>;
     if 0 < mp_suspend_thread_count m
     then (case lists s1 (WaitQ (OMemPool x)) of [] \<Rightarrow> None
           | t # _ \<Rightarrow> do {
               (_, s2) \<leftarrow> rt_thread_resume t (set_error t RT_EOK s1);
               rt_schedule (mp_upd x (\<lambda>m. m\<lparr>mp_suspend_thread_count := mp_suspend_thread_count m - 1\<rparr>) s2) })
     else Some s1 }"

section \<open>Well-formed pools\<close>

lemma mp_upd_simps [simp]:
  "mempools (mp_upd x f s) = (mempools s)(x := f (mempools s x))" "kinv (mp_upd x f s) = kinv s"
  "lists (mp_upd x f s) = lists s" "threads (mp_upd x f s) = threads s" "mp_links (mp_upd x f s) = mp_links s"
  "stat_of (mp_upd x f s) t = stat_of s t" "prio_of (mp_upd x f s) t = prio_of s t" "cur (mp_upd x f s) = cur s"
  "rt_object_get_type z (mp_upd x f s) = rt_object_get_type z s" "tick (mp_upd x f s) = tick s"
  "lock_nest (mp_upd x f s) = lock_nest s" "interrupt_nest (mp_upd x f s) = interrupt_nest s"
  "timers (mp_upd x f s) = timers s" "timer_list (mp_upd x f s) = timer_list s"
  by (simp_all add: mp_upd_def stat_of_def prio_of_def rt_object_get_type_def)

definition mp_slots :: "rt_mempool \<Rightarrow> u32 list" where
  "mp_slots m = map (slot_at (mp_start_address m) (mp_block_size m + 4)) [0..<unat (mp_block_total_count m)]"

lemma mp_slots_upd [simp]:
  "mp_slots (mp_block_free_count_update f m) = mp_slots m" "mp_slots (mp_block_list_update g m) = mp_slots m"
  "mp_slots (mp_suspend_thread_count_update h m) = mp_slots m"
  by (simp_all add: mp_slots_def)

text \<open>The blocks lie in a piece of memory that neither starts at \<open>RT_NULL\<close> nor wraps around.\<close>

definition mp_area_ok :: "rt_mempool \<Rightarrow> bool" where
  "mp_area_ok m \<longleftrightarrow> mp_start_address m \<noteq> 0 \<and> unat (mp_block_size m) + 4 < 2 ^ 32 \<and>
     unat (mp_start_address m) + unat (mp_block_total_count m) * (unat (mp_block_size m) + 4) < 2 ^ 32"

lemma mp_area_upd [simp]:
  "mp_area_ok (mp_block_free_count_update f m) = mp_area_ok m" "mp_area_ok (mp_block_list_update g m) = mp_area_ok m"
  "mp_area_ok (mp_suspend_thread_count_update h m) = mp_area_ok m"
  by (simp_all add: mp_area_ok_def)

lemma mp_areaD:
  assumes "mp_area_ok m"
  shows "unat (mp_block_size m + 4) = unat (mp_block_size m) + 4" "mp_block_size m + 4 \<noteq> 0"
    "unat (mp_start_address m) + unat (mp_block_total_count m) * unat (mp_block_size m + 4) \<le> 2 ^ 32"
    "distinct (mp_slots m)" "0 \<notin> set (mp_slots m)"
    "b \<in> set (mp_slots m) \<Longrightarrow> unat (mp_start_address m) \<le> unat b \<and> unat b + unat (mp_block_size m) + 4 \<le>
      unat (mp_start_address m) + unat (mp_block_total_count m) * (unat (mp_block_size m) + 4)"
    "b \<in> set (mp_slots m) \<Longrightarrow> unat (b + 4) = unat b + 4"
    "\<lbrakk>b \<in> set (mp_slots m); c \<in> set (mp_slots m); b \<noteq> c\<rbrakk> \<Longrightarrow>
      unat b + 4 + unat (mp_block_size m) \<le> unat c \<or> unat c + 4 + unat (mp_block_size m) \<le> unat b"
proof -
  show st: "unat (mp_block_size m + 4) = unat (mp_block_size m) + 4"
    using assms by (simp add: mp_area_ok_def unat_word_ariths)
  then show nz: "mp_block_size m + 4 \<noteq> 0" by (metis add_is_0 unat_0 zero_neq_numeral)
  show fit: "unat (mp_start_address m) + unat (mp_block_total_count m) * unat (mp_block_size m + 4) \<le> 2 ^ 32"
    unfolding st using assms by (simp add: mp_area_ok_def)
  show "distinct (mp_slots m)" "0 \<notin> set (mp_slots m)"
    using slots_at_ok[OF fit nz] assms by (simp_all add: mp_slots_def mp_area_ok_def)
  show in_area: "unat (mp_start_address m) \<le> unat b \<and> unat b + unat (mp_block_size m) + 4 \<le>
      unat (mp_start_address m) + unat (mp_block_total_count m) * (unat (mp_block_size m) + 4)"
    if "b \<in> set (mp_slots m)" for b
  proof -
    from that obtain i where i: "i < unat (mp_block_total_count m)" "b = slot_at (mp_start_address m) (mp_block_size m + 4) i"
      by (auto simp: mp_slots_def)
    have "Suc i * (unat (mp_block_size m) + 4) \<le> unat (mp_block_total_count m) * (unat (mp_block_size m) + 4)"
      using i(1) by (intro mult_le_mono1) simp
    then show ?thesis using unat_slot_at[OF fit i(1) nz] i(2) st by simp
  qed
  show "unat (b + 4) = unat b + 4" if "b \<in> set (mp_slots m)"
    using in_area[OF that] assms by (simp add: mp_area_ok_def unat_word_ariths)
  show "\<lbrakk>b \<in> set (mp_slots m); c \<in> set (mp_slots m); b \<noteq> c\<rbrakk> \<Longrightarrow>
      unat b + 4 + unat (mp_block_size m) \<le> unat c \<or> unat c + 4 + unat (mp_block_size m) \<le> unat b"
    using slots_apart[OF fit nz, of b c] st by (auto simp: mp_slots_def)
qed

text \<open>The free blocks \<open>fs\<close> in the order in which they will be handed out, and the blocks \<open>us\<close> in use:
  together the blocks of the pool, without overlap.\<close>

definition mp_rep :: "nat \<Rightarrow> kstate \<Rightarrow> u32 list \<Rightarrow> u32 set \<Rightarrow> bool" where
  "mp_rep x s fs us \<longleftrightarrow>
     chain (mp_links s) (mp_block_list (mempools s x)) fs \<and> distinct fs \<and>
     unat (mp_block_free_count (mempools s x)) = length fs \<and>
     set fs \<inter> us = {} \<and> set fs \<union> us = set (mp_slots (mempools s x)) \<and>
     mp_area_ok (mempools s x) \<and> (\<forall>b \<in> us. mp_links s b = of_nat x) \<and> x < 2 ^ 32"

definition mp_counted :: "nat \<Rightarrow> kstate \<Rightarrow> bool" where
  "mp_counted x s \<longleftrightarrow> unat (mp_suspend_thread_count (mempools s x)) = length (lists s (WaitQ (OMemPool x)))"

lemma mp_rep_count:
  assumes "mp_rep x s fs us"
  shows "length fs + card us = unat (mp_block_total_count (mempools s x))" "finite us"
proof -
  have s: "set fs \<inter> us = {}" "set fs \<union> us = set (mp_slots (mempools s x))" "distinct fs"
    "distinct (mp_slots (mempools s x))" using assms mp_areaD(4) by (simp_all add: mp_rep_def)
  show fin: "finite us" using s(2) by (metis finite_Un finite_set)
  have "card (set fs \<union> us) = card (set fs) + card us" using s(1) fin by (intro card_Un_disjoint) simp_all
  moreover have "card (set (mp_slots (mempools s x))) = unat (mp_block_total_count (mempools s x))"
    unfolding distinct_card[OF s(4)] by (simp add: mp_slots_def)
  ultimately show "length fs + card us = unat (mp_block_total_count (mempools s x))"
    using s(2) distinct_card[OF s(3)] by simp
qed

lemma mp_rep_cong:
  assumes "mempools s' x = mempools s x" "\<And>b. b \<in> set (mp_slots (mempools s x)) \<Longrightarrow> mp_links s' b = mp_links s b"
    "mp_rep x s fs us"
  shows "mp_rep x s' fs us"
proof -
  have "chain (mp_links s') a xs = chain (mp_links s) a xs" if "set xs \<subseteq> set (mp_slots (mempools s x))" for a xs
    using that assms(2) by (induction xs arbitrary: a) auto
  moreover have "set fs \<subseteq> set (mp_slots (mempools s x))" "us \<subseteq> set (mp_slots (mempools s x))"
    using assms(3) by (auto simp: mp_rep_def)
  ultimately show ?thesis using assms unfolding mp_rep_def by (simp add: subset_iff)
qed

section \<open>Initialisation\<close>

lemma link_blocks_slots:
  assumes "distinct (map (slot_at start step) [0..<n])"
  shows "i < n \<Longrightarrow> link_blocks n start step l (slot_at start step i) = slot_at start step (i + 1)"
    "a \<notin> slot_at start step ` {0..<n} \<Longrightarrow> link_blocks n start step l a = l a"
proof -
  have e: "start + of_nat k * step = slot_at start step k" "start + (of_nat k + 1) * step = slot_at start step (Suc k)" for k
    by (simp_all add: slot_at_def add.commute)
  have "(\<forall>i<n. link_blocks n start step l (slot_at start step i) = slot_at start step (i + 1)) \<and>
      (\<forall>a. a \<notin> slot_at start step ` {0..<n} \<longrightarrow> link_blocks n start step l a = l a)"
    using assms
  proof (induction n)
    case (Suc n)
    have d: "distinct (map (slot_at start step) [0..<n])" "slot_at start step n \<notin> slot_at start step ` {0..<n}"
      using Suc.prems by simp_all
    note ih = Suc.IH[OF d(1)]
    have r: "link_blocks (Suc n) start step l = (link_blocks n start step l)(slot_at start step n := slot_at start step (Suc n))"
      by (simp add: e)
    have "link_blocks (Suc n) start step l (slot_at start step i) = slot_at start step (i + 1)" if "i < Suc n" for i
    proof (cases "i = n")
      case True
      then show ?thesis unfolding r by simp
    next
      case False
      then have "i < n" using that by simp
      have "slot_at start step i \<noteq> slot_at start step n"
      proof
        assume "slot_at start step i = slot_at start step n"
        moreover have "slot_at start step i \<in> slot_at start step ` {0..<n}" using \<open>i < n\<close> by (intro imageI) simp
        ultimately show False using d(2) by simp
      qed
      then show ?thesis unfolding r using ih \<open>i < n\<close> by simp
    qed
    moreover have "link_blocks (Suc n) start step l a = l a" if "a \<notin> slot_at start step ` {0..<Suc n}" for a
    proof -
      have "a \<noteq> slot_at start step n" "a \<notin> slot_at start step ` {0..<n}" using that by (auto simp: image_iff)
      then show ?thesis unfolding r using ih by simp
    qed
    ultimately show ?case by blast
  qed simp
  then show "i < n \<Longrightarrow> link_blocks n start step l (slot_at start step i) = slot_at start step (i + 1)"
    "a \<notin> slot_at start step ` {0..<n} \<Longrightarrow> link_blocks n start step l a = l a" by blast+
qed

lemma mp_format_rep:
  assumes m: "m = mempools s x" and n: "0 < mp_block_total_count m" "mp_block_free_count m = mp_block_total_count m"
    and area: "mp_area_ok m" and x: "x < 2 ^ 32"
  shows "mp_rep x (mp_format x s) (mp_slots m) {} \<and> mempools (mp_format x s) x = m\<lparr>mp_block_list := mp_start_address m\<rparr>"
proof -
  let ?a = "mp_start_address m" and ?step = "mp_block_size m + 4" and ?n = "unat (mp_block_total_count m)"
  have start: "?a \<noteq> 0" using area by (simp add: mp_area_ok_def)
  note d = slots_at_ok[OF mp_areaD(3,2)[OF area]]
  note l = link_blocks_slots[OF d(1)]
  let ?nx = "(link_blocks ?n ?a ?step (mp_links s))(?a + (mp_block_total_count m - 1) * ?step := 0)"
  have n0: "0 < ?n" using n(1) by (simp add: unat_gt_0)
  have "of_nat (?n - 1) = mp_block_total_count m - 1"
  proof -
    have "of_nat (unat (mp_block_total_count m - 1)) = mp_block_total_count m - 1" by simp
    moreover have "mp_block_total_count m \<noteq> 0" using n(1) by auto
    ultimately show ?thesis using unat_minus_one[of "mp_block_total_count m"] by simp
  qed
  then have last: "?a + (mp_block_total_count m - 1) * ?step = slot_at ?a ?step (?n - 1)"
    by (simp add: slot_at_def)
  have mem: "slot_at ?a ?step i \<noteq> slot_at ?a ?step (?n - 1)" if "i + 1 < ?n" for i
    using nth_eq_iff_index_eq[OF d(1), of i "?n - 1"] that by simp
  have "chain ?nx ?a (map (slot_at ?a ?step) [0..<?n])"
  proof (rule chain_slots[OF _ _ n0 d(2)[OF start]])
    fix i assume i: "i + 1 < ?n"
    show "?nx (slot_at ?a ?step i) = slot_at ?a ?step (i + 1)" using l(1)[of i] mem[OF i] i last by simp
  next
    show "?nx (slot_at ?a ?step (?n - 1)) = 0" using last by simp
  qed
  moreover have "mempools (mp_format x s) x = m\<lparr>mp_block_list := ?a\<rparr>" "mp_links (mp_format x s) = ?nx"
    by (simp_all add: mp_format_def Let_def m)
  moreover have "mp_slots (m\<lparr>mp_block_list := ?a\<rparr>) = mp_slots m" by (simp add: mp_slots_def)
  ultimately show ?thesis using d(1) n(2) x area by (simp add: mp_rep_def mp_slots_def)
qed

section \<open>Allocating and freeing\<close>

lemma mp_take_ok:
  assumes "mp_rep x s (b # fs) us"
  shows "\<exists>s'. mp_take x s = Some (b + 4, s') \<and> mp_rep x s' fs (insert b us) \<and>
    s' = (mp_upd x (\<lambda>m. m\<lparr>mp_block_free_count := mp_block_free_count m - 1, mp_block_list := mp_links s b\<rparr>) s)
           \<lparr>mp_links := (mp_links s)(b := of_nat x)\<rparr>"
proof -
  have r: "chain (mp_links s) (mp_block_list (mempools s x)) (b # fs)" "distinct (b # fs)"
    "unat (mp_block_free_count (mempools s x)) = length (b # fs)" "set (b # fs) \<inter> us = {}"
    "set (b # fs) \<union> us = set (mp_slots (mempools s x))" "mp_area_ok (mempools s x)"
    "0 \<notin> set (mp_slots (mempools s x))" "\<forall>b \<in> us. mp_links s b = of_nat x" "x < 2 ^ 32"
    using assms mp_areaD(5) by (simp_all add: mp_rep_def)
  have b: "mp_block_list (mempools s x) = b" "b \<noteq> 0" "chain (mp_links s) (mp_links s b) fs" "b \<notin> set fs"
    using r(1,2) by simp_all
  let ?s = "(mp_upd x (\<lambda>m. m\<lparr>mp_block_free_count := mp_block_free_count m - 1, mp_block_list := mp_links s b\<rparr>) s)
           \<lparr>mp_links := (mp_links s)(b := of_nat x)\<rparr>"
  have "mp_take x s = Some (b + 4, ?s)" using b by (simp add: mp_take_def)
  moreover have m: "mempools ?s x = (mempools s x)\<lparr>mp_block_free_count := mp_block_free_count (mempools s x) - 1,
      mp_block_list := mp_links s b\<rparr>" by simp
  have "mp_block_free_count (mempools s x) \<noteq> 0" using r(3) by auto
  then have "unat (mp_block_free_count (mempools s x) - 1) = length fs"
    using unat_minus_one[of "mp_block_free_count (mempools s x)"] r(3) by simp
  moreover have "chain (mp_links ?s) (mp_links s b) fs" using b(3,4) by (simp flip: fun_upd_def)
  ultimately show ?thesis
    using r(2,4,5,6,7,8,9) b(4) unfolding mp_rep_def m by (intro exI[of _ ?s]) auto
qed

lemma mp_rep_Nil:
  assumes "mp_rep x s fs us"
  shows "mp_block_free_count (mempools s x) = 0 \<longleftrightarrow> fs = []"
proof -
  have "unat (mp_block_free_count (mempools s x)) = length fs" using assms by (simp add: mp_rep_def)
  then show ?thesis using unat_eq_zero[of "mp_block_free_count (mempools s x)"] by auto
qed

text \<open>Waiting: the thread goes to the front of the list.\<close>

lemma wait_frame_pools:
  assumes "wait_frame s s'"
  shows "wait_frame (s\<lparr>mempools := m\<rparr>) (s'\<lparr>mempools := m\<rparr>)"
proof -
  have c: "core_frame s s'" using wait_frameD(1)[OF assms] .
  then have "s' = s\<lparr>threads := threads s', lists := lists s', tlink := tlink s', ready_group := ready_group s',
            cur := cur s', cur_priority := cur_priority s', timers := timers s',
            timer_list := timer_list s', objs := objs s', random_nr := random_nr s'\<rparr>"
    unfolding core_frame_def by blast
  then have "s'\<lparr>mempools := m\<rparr> = (s\<lparr>mempools := m\<rparr>)\<lparr>threads := threads s', lists := lists s', tlink := tlink s',
            ready_group := ready_group s', cur := cur s', cur_priority := cur_priority s', timers := timers s',
            timer_list := timer_list s', objs := objs s', random_nr := random_nr s'\<rparr>"
    by (cases s; cases s') simp
  then have "core_frame (s\<lparr>mempools := m\<rparr>) (s'\<lparr>mempools := m\<rparr>)"
    using c unfolding core_frame_def by (simp add: timer_flag_def)
  then show ?thesis using assms unfolding wait_frame_def by (simp add: timer_flag_def)
qed

lemma wait_frame_mp:
  assumes "wait_frame s s'"
  shows "wait_frame (mp_upd x f s) (mp_upd x f s')"
  using wait_frame_pools[OF assms] core_frameD(10)[OF wait_frameD(1)[OF assms]] by (simp add: mp_upd_def)

lemma linked_in_mp:
  assumes "linked_in h t ws s s'"
  shows "linked_in h t ws (mp_upd x f s) (mp_upd x f s')"
  using assms wait_frame_mp unfolding linked_in_def by simp

abbreviation mp_waiters :: "nat \<Rightarrow> kstate \<Rightarrow> nat list" where
  "mp_waiters x s \<equiv> lists s (WaitQ (OMemPool x))"

abbreviation (input) mp_one_more :: "nat \<Rightarrow> kstate \<Rightarrow> kstate" where
  "mp_one_more x \<equiv> mp_upd x (\<lambda>m. m\<lparr>mp_suspend_thread_count := mp_suspend_thread_count m + 1\<rparr>)"

lemma mp_block:
  assumes inv: "kinv s" and z: "mp_block_free_count (mempools s x) = 0" and t: "time \<noteq> 0" "running s t"
    and time: "0 < sint time \<longrightarrow> time \<noteq> 0x7fffffff"
  shows "\<exists>s'. mp_alloc_try x time (Some t) s = Some (Blocked, s') \<and>
    blocked_at (WaitQ (OMemPool x)) t (t # mp_waiters x s) time (mp_one_more x (set_error t RT_EOK s)) s'"
proof -
  let ?h = "WaitQ (OMemPool x)" and ?s = "set_error t RT_EOK s"
  have c: "cur ?s = Some t" "stat_of ?s t = 3" "kinv ?s" and e: "lists ?s ?h = [] @ mp_waiters x s"
    using t(2) inv by (simp_all add: running_def)
  from suspend_link_ok[OF c(3,1,2) _ e] obtain s1 s2 where s1: "rt_thread_suspend t ?s = Some (RT_EOK, s1)"
    "lists s1 = lists ?s" "list_put ?h [] t (mp_waiters x s) s1 = Some s2" "linked_in ?h t (t # mp_waiters x s) ?s s2"
    by auto
  have l: "rt_list_insert_after ?h t s1 = Some s2" using s1(2,3) by (simp add: rt_list_insert_after_def)
  have c': "kinv (mp_one_more x ?s)" "cur (mp_one_more x ?s) = Some t" "stat_of (mp_one_more x ?s) t = 3"
    using c by simp_all
  from arm_and_schedule[OF c' _ time linked_in_mp[OF s1(4)]] obtain s3 s' where
    "(if 0 < sint time then timer_arm (ThreadTimer t) time (mp_one_more x s2) else Some (mp_one_more x s2)) = Some s3"
    "rt_schedule s3 = Some s'" "blocked_at ?h t (t # mp_waiters x s) time (mp_one_more x ?s) s'" by auto
  moreover have "RT_DEBUG_NOT_IN_INTERRUPT s = Some ()" using running_checks[OF t(2)] by simp
  ultimately show ?thesis
    using z t(1) s1(1) l unfolding mp_alloc_try_def by (intro exI[of _ s']) simp
qed

text \<open>Freeing: the block becomes the first free one, and the first waiting thread is woken.\<close>

definition mp_put :: "nat \<Rightarrow> u32 \<Rightarrow> kstate \<Rightarrow> kstate" where
  "mp_put x b s =
     (mp_upd x (\<lambda>m. m\<lparr>mp_block_free_count := mp_block_free_count m + 1, mp_block_list := b\<rparr>) s)
       \<lparr>mp_links := (mp_links s)(b := mp_block_list (mempools s x))\<rparr>"

lemma mp_put_rep:
  assumes "mp_rep x s fs us" "b \<in> us"
  shows "mp_rep x (mp_put x b s) (b # fs) (us - {b})" "unat (mp_links s b) = x" "(b + 4) - 4 = b"
proof -
  have r: "chain (mp_links s) (mp_block_list (mempools s x)) fs" "distinct fs"
    "unat (mp_block_free_count (mempools s x)) = length fs" "set fs \<inter> us = {}"
    "set fs \<union> us = set (mp_slots (mempools s x))" "mp_area_ok (mempools s x)"
    "0 \<notin> set (mp_slots (mempools s x))" "\<forall>b \<in> us. mp_links s b = of_nat x" "x < 2 ^ 32"
    using assms(1) mp_areaD(5) by (simp_all add: mp_rep_def)
  have b: "b \<noteq> 0" "b \<notin> set fs" using r(4,5,7) assms(2) by auto
  show "unat (mp_links s b) = x" using r(8,9) assms(2) unat_of_nat_small[of x, where 'a=32] by simp
  show "(b + 4) - 4 = b" by simp
  have m: "mempools (mp_put x b s) x = (mempools s x)\<lparr>mp_block_free_count := mp_block_free_count (mempools s x) + 1,
      mp_block_list := b\<rparr>" and l: "mp_links (mp_put x b s) = (mp_links s)(b := mp_block_list (mempools s x))"
    by (simp_all add: mp_put_def)
  have "0 < card us" using mp_rep_count(2)[OF assms(1)] assms(2) by (auto simp: card_gt_0_iff)
  then have "length fs < unat (mp_block_total_count (mempools s x))" using mp_rep_count(1)[OF assms(1)] by simp
  then have "unat (mp_block_free_count (mempools s x)) + 1 < 2 ^ 32"
    using r(3) unsigned_less[of "mp_block_total_count (mempools s x)", where 'a=nat] by simp
  then have "unat (mp_block_free_count (mempools s x) + 1) = length fs + 1"
    using r(3) by (simp add: unat_word_ariths)
  then show "mp_rep x (mp_put x b s) (b # fs) (us - {b})"
    using r(1,2,4-9) b assms(2) unfolding mp_rep_def m l by (auto simp flip: fun_upd_def)
qed

lemma mp_free_quiet:
  assumes "mp_rep x s fs us" "b \<in> us" "mp_suspend_thread_count (mempools s x) = 0"
  shows "rt_mp_free (b + 4) s = Some (mp_put x b s)"
  using mp_put_rep(2)[OF assms(1,2)] assms(3) by (simp add: rt_mp_free_def mp_put_def Let_def)

abbreviation (input) mp_one_less :: "nat \<Rightarrow> kstate \<Rightarrow> kstate" where
  "mp_one_less x \<equiv> mp_upd x (\<lambda>m. m\<lparr>mp_suspend_thread_count := mp_suspend_thread_count m - 1\<rparr>)"

lemma mp_put_simps [simp]:
  "kinv (mp_put x b s) = kinv s" "lists (mp_put x b s) = lists s" "threads (mp_put x b s) = threads s"
  "stat_of (mp_put x b s) t = stat_of s t"
  by (simp_all add: mp_put_def stat_of_def)

lemma mp_free_wakes:
  assumes inv: "kinv s" and rep: "mp_rep x s fs us" "b \<in> us" and n: "mp_suspend_thread_count (mempools s x) \<noteq> 0"
    and w: "mp_waiters x s = t # ts"
  shows "\<exists>s'. rt_mp_free (b + 4) s = Some s' \<and> kinv s' \<and> mp_waiters x s' = ts \<and>
    mempools s' = mempools (mp_one_less x (mp_put x b s)) \<and> mp_links s' = mp_links (mp_put x b s) \<and>
    (\<forall>k. is_wait k \<and> k \<noteq> WaitQ (OMemPool x) \<longrightarrow> lists s' k = lists s k) \<and>
    (\<forall>u. stat_of s' u = RT_THREAD_SUSPEND \<longleftrightarrow> stat_of s u = RT_THREAD_SUSPEND \<and> u \<noteq> t) \<and>
    th_error (threads s' t) = RT_EOK"
proof -
  let ?h = "WaitQ (OMemPool x)"
  let ?s = "set_error t RT_EOK (mp_put x b s)"
  have k: "kinv ?s" "lists ?s ?h = t # ts" using inv w by simp_all
  from resume_first[OF k(1) _ k(2)] obtain s1 where s1: "rt_thread_resume t ?s = Some (RT_EOK, s1)" "thr_step t ?s s1"
    "lists s1 ?h = ts" "\<And>k. is_wait k \<and> k \<noteq> ?h \<Longrightarrow> lists s1 k = lists s k"
    "\<And>u. stat_of s1 u = 2 \<longleftrightarrow> stat_of s u = 2 \<and> u \<noteq> t" "\<And>u. th_error (threads s1 u) = th_error (threads ?s u)"
    by auto
  have f1: "mempools s1 = mempools ?s" "mp_links s1 = mp_links ?s"
    using core_frameD(10,11)[OF wait_frameD(1)[OF thr_step_frame[OF s1(2)]]] by simp_all
  have k1: "kinv (mp_one_less x s1)" using s1(2) by (simp add: thr_step_def)
  from schedule_waiters[OF k1] obtain s' where s': "rt_schedule (mp_one_less x s1) = Some s'" "kinv s'"
    "wait_frame (mp_one_less x s1) s'" "\<And>k. is_wait k \<Longrightarrow> lists s' k = lists s1 k"
    "\<And>u. (stat_of s' u = 2) = (stat_of s1 u = 2) \<and> th_error (threads s' u) = th_error (threads s1 u)" by auto
  note f2 = core_frameD(10,11)[OF wait_frameD(1)[OF s'(3)]]
  have w1: "mp_waiters x (mp_put x b s) = t # ts" using w by simp
  have "0 < mp_suspend_thread_count (mempools s x)" using n by (simp add: word_neq_0_conv)
  then have "rt_mp_free (b + 4) s = Some s'"
    using mp_put_rep(2)[OF rep] w1 s1(1) s'(1) unfolding rt_mp_free_def mp_put_def by (simp add: Let_def)
  moreover have "mempools s' = mempools (mp_one_less x (mp_put x b s))" "mp_links s' = mp_links (mp_put x b s)"
    using f1 f2 by simp_all
  moreover have "th_error (threads s' t) = RT_EOK" using s'(5)[of t] s1(6)[of t] by (simp add: set_error_def)
  ultimately show ?thesis using s'(2,4,5) s1(3-5) by (intro exI[of _ s']) simp
qed

section \<open>Waking all threads\<close>

text \<open>As \<open>wait_frame\<close>, up to the pool's control block.\<close>

definition mp_frame :: "kstate \<Rightarrow> kstate \<Rightarrow> bool" where
  "mp_frame s s' \<longleftrightarrow> wait_frame (s\<lparr>mempools := mempools s'\<rparr>) s' \<and> (\<forall>x. mp_slots (mempools s' x) = mp_slots (mempools s x) \<and>
     mp_block_list (mempools s' x) = mp_block_list (mempools s x) \<and>
     mp_block_free_count (mempools s' x) = mp_block_free_count (mempools s x))"


lemma mp_frame_refl: "mp_frame s s"
  by (simp add: mp_frame_def)

lemma mp_frame_trans:
  assumes "mp_frame a b" "mp_frame b c"
  shows "mp_frame a c"
proof -
  have "wait_frame (a\<lparr>mempools := mempools c\<rparr>) (b\<lparr>mempools := mempools c\<rparr>)"
    using wait_frame_pools[of "a\<lparr>mempools := mempools b\<rparr>" b "mempools c"] assms(1) by (simp add: mp_frame_def)
  then have "wait_frame (a\<lparr>mempools := mempools c\<rparr>) c"
    using wait_frame_trans assms(2) unfolding mp_frame_def by blast
  then show ?thesis using assms by (simp add: mp_frame_def)
qed

lemma wait_mp_frame:
  assumes "wait_frame s s'"
  shows "mp_frame s s'"
proof -
  have m: "mempools s' = mempools s" using core_frameD(10)[OF wait_frameD(1)[OF assms]] .
  then have "s\<lparr>mempools := mempools s'\<rparr> = s" by simp
  then show ?thesis using assms m by (simp add: mp_frame_def)
qed

lemma one_less_frame: "mp_frame s (mp_one_less x s)"
proof -
  have "s\<lparr>mempools := mempools (mp_one_less x s)\<rparr> = mp_one_less x s" by (simp add: mp_upd_def)
  then show ?thesis by (simp add: mp_frame_def)
qed

lemma mp_wake_ok:
  assumes inv: "kinv s" and w: "mp_waiters x s = t # ts"
  shows "\<exists>s'. mp_wake x s = Some s' \<and> kinv s' \<and> mp_frame s s' \<and> mp_waiters x s' = ts \<and>
    (\<forall>k. True \<and> k \<noteq> x \<longrightarrow> mp_waiters k s' = mp_waiters k s) \<and>
    (\<forall>u. stat_of s' u = RT_THREAD_SUSPEND \<longleftrightarrow> stat_of s u = RT_THREAD_SUSPEND \<and> u \<noteq> t) \<and>
    (\<forall>u. th_error (threads s' u) = (if u = t then - RT_ERROR else th_error (threads s u)))"
proof -
  let ?s = "set_error t (- RT_ERROR) s"
  have k: "kinv ?s" "mp_waiters x ?s = t # ts" using inv w by simp_all
  from resume_first[OF k(1) _ k(2)] obtain s1 where s1: "rt_thread_resume t ?s = Some (RT_EOK, s1)" "thr_step t ?s s1"
    "mp_waiters x s1 = ts" "\<And>k. is_wait k \<and> k \<noteq> WaitQ (OMemPool x) \<Longrightarrow> lists s1 k = lists s k"
    "\<And>u. stat_of s1 u = 2 \<longleftrightarrow> stat_of s u = 2 \<and> u \<noteq> t" "\<And>u. th_error (threads s1 u) = th_error (threads ?s u)"
    by auto
  have "mp_wake x s = Some (mp_one_less x s1)" using w s1(1) by (simp add: mp_wake_def)
  moreover have "kinv s1" using s1(2) by (simp add: thr_step_def)
  moreover have "mp_frame s (mp_one_less x s1)"
    by (rule mp_frame_trans[OF wait_mp_frame[OF wait_frame_trans[OF error_frame thr_step_frame[OF s1(2)]]] one_less_frame])
  ultimately show ?thesis using s1(3-6) by (intro exI[of _ "mp_one_less x s1"]) simp
qed

interpretation wm: wait_lists_all kinv "\<lambda>_. True" mp_waiters "\<lambda>s t. stat_of s t = RT_THREAD_SUSPEND"
  "\<lambda>s t. th_error (threads s t)" mp_frame mp_wake rt_schedule "\<lambda>_. - RT_ERROR" mp_wake_all
proof
  fix s x and t :: nat and ts
  assume "kinv s" "mp_waiters x s = t # ts"
  then show "\<exists>s'. mp_wake x s = Some s' \<and> kinv s' \<and> mp_frame s s' \<and> mp_waiters x s' = ts \<and>
    (\<forall>k. True \<and> k \<noteq> x \<longrightarrow> mp_waiters k s' = mp_waiters k s) \<and>
    (\<forall>u. (stat_of s' u = 2) = (stat_of s u = 2 \<and> u \<noteq> t)) \<and>
    (\<forall>u. th_error (threads s' u) = (if u = t then - RT_ERROR else th_error (threads s u)))" by (rule mp_wake_ok)
next
  fix s assume "kinv s"
  from schedule_waiters[OF this] wait_mp_frame show "\<exists>s'. rt_schedule s = Some s' \<and> kinv s' \<and> mp_frame s s' \<and>
    (\<forall>k. True \<longrightarrow> mp_waiters k s' = mp_waiters k s) \<and>
    (\<forall>u. (stat_of s' u = 2) = (stat_of s u = 2) \<and> th_error (threads s' u) = th_error (threads s u))" by fastforce
next
  fix s x assume "mp_waiters x s = []"
  then show "mp_wake_all x s = Some s" by (subst mp_wake_all.simps) simp
next
  fix s x and t :: nat and ts assume "mp_waiters x s = t # ts"
  then show "mp_wake_all x s = Option.bind (mp_wake x s) (mp_wake_all x)" by (subst mp_wake_all.simps) simp
qed (use mp_frame_refl mp_frame_trans waiting_suspended lists_distinct is_wait_simps in blast)+

section \<open>Histories\<close>

definition mp_wait_ok :: "32 word \<Rightarrow> bool" where
  "mp_wait_ok time \<longleftrightarrow> (0 < sint time \<longrightarrow> time \<noteq> 0x7fffffff)"

lemma mp_alloc_step:
  assumes inv: "kinv s" and rep: "mp_rep x s fs us"
    and t: "running s t" "mp_wait_ok time" and run: "mp_alloc_try x time (Some t) s = Some (r, s')"
  shows "kinv s' \<and>
    (case fs of b # fs' \<Rightarrow> r = Done (b + 4) \<and> mp_rep x s' fs' (insert b us)
     | [] \<Rightarrow> (r = Done 0 \<or> r = Blocked) \<and> mp_rep x s' [] us)"
proof (cases fs)
  case (Cons b fs')
  from mp_take_ok[OF rep[unfolded Cons]] obtain s1 where s1: "mp_take x s = Some (b + 4, s1)" "mp_rep x s1 fs' (insert b us)"
    "s1 = (mp_upd x (\<lambda>m. m\<lparr>mp_block_free_count := mp_block_free_count m - 1, mp_block_list := mp_links s b\<rparr>) s)
           \<lparr>mp_links := (mp_links s)(b := of_nat x)\<rparr>" by blast
  have "mp_block_free_count (mempools s x) \<noteq> 0" using mp_rep_Nil[OF rep] Cons by simp
  then have "r = Done (b + 4)" "s' = s1" using run s1(1) by (simp_all add: mp_alloc_try_def)
  moreover have "kinv s1" using inv unfolding s1(3) by simp
  ultimately show ?thesis using s1(2) Cons by simp
next
  case Nil
  then have z: "mp_block_free_count (mempools s x) = 0" using mp_rep_Nil[OF rep] by simp
  show ?thesis
  proof (cases "time = 0")
    case True
    have "cur s = Some t" "interrupt_nest s = 0" using t(1) by (simp_all add: running_def)
    then have "r = Done 0" "s' = set_error t (- RT_ETIMEOUT) s"
      using run z True by (simp_all add: mp_alloc_try_def rt_set_errno_def)
    moreover have "mp_rep x (set_error t (- RT_ETIMEOUT) s) [] us"
      using rep unfolding Nil by (rule mp_rep_cong[rotated 2]) simp_all
    ultimately show ?thesis using inv Nil by simp
  next
    case False
    from mp_block[OF inv z False t(1)] t(2) run have b: "r = Blocked"
      "blocked_at (WaitQ (OMemPool x)) t (t # mp_waiters x s) time (mp_one_more x (set_error t RT_EOK s)) s'"
      by (auto simp: mp_wait_ok_def)
    note d = blocked_atD[OF b(2)]
    have m: "mempools s' x = (mempools s x)\<lparr>mp_suspend_thread_count := mp_suspend_thread_count (mempools s x) + 1\<rparr>"
      and l: "mp_links s' = mp_links s" using core_frameD(10,11)[OF d(2)] by simp_all
    have "mp_rep x s' [] us" using rep unfolding Nil mp_rep_def m l by simp
    then show ?thesis using d(1) b(1) Nil by simp
  qed
qed

lemma mp_free_step:
  assumes inv: "kinv s" and rep: "mp_rep x s fs us" "b \<in> us" and n: "mp_counted x s"
  shows "\<exists>s'. rt_mp_free (b + 4) s = Some s' \<and> kinv s' \<and> mp_counted x s' \<and> mp_rep x s' (b # fs) (us - {b}) \<and>
    mp_waiters x s' = tl (mp_waiters x s) \<and>
    (\<forall>u. stat_of s' u = RT_THREAD_SUSPEND \<longleftrightarrow> stat_of s u = RT_THREAD_SUSPEND \<and> u \<notin> set (take 1 (mp_waiters x s)))"
proof (cases "mp_waiters x s")
  case Nil
  then have z: "mp_suspend_thread_count (mempools s x) = 0" using n by (simp add: mp_counted_def unat_eq_zero)
  have "mp_counted x (mp_put x b s)" using n Nil by (simp add: mp_counted_def mp_put_def)
  then show ?thesis using mp_free_quiet[OF rep z] mp_put_rep(1)[OF rep] inv Nil by simp
next
  case (Cons t ts)
  have c: "unat (mp_suspend_thread_count (mempools s x)) = Suc (length ts)" using n Cons by (simp add: mp_counted_def)
  then have nz: "mp_suspend_thread_count (mempools s x) \<noteq> 0" by auto
  from mp_free_wakes[OF inv rep nz Cons] obtain s' where s': "rt_mp_free (b + 4) s = Some s'" "kinv s'"
    "mp_waiters x s' = ts" "mempools s' = mempools (mp_one_less x (mp_put x b s))" "mp_links s' = mp_links (mp_put x b s)"
    "\<And>u. stat_of s' u = 2 \<longleftrightarrow> stat_of s u = 2 \<and> u \<noteq> t" by blast
  have m: "mempools s' x = (mempools (mp_put x b s) x)\<lparr>mp_suspend_thread_count :=
      mp_suspend_thread_count (mempools s x) - 1\<rparr>" using s'(4) by (simp add: mp_put_def)
  have "mp_rep x s' (b # fs) (us - {b})" using mp_put_rep(1)[OF rep] unfolding mp_rep_def m s'(5) by simp
  moreover have "mp_counted x s'"
    using unat_minus_one[OF nz] c s'(3) by (simp add: mp_counted_def m)
  ultimately show ?thesis using s'(1-3,6) Cons by (intro exI[of _ s']) simp
qed

text \<open>A free that returns: the block is free again, whether or not the counter of waiting threads was right.\<close>

lemma mp_free_rep:
  assumes inv: "kinv s" and rep: "mp_rep x s fs us" "b \<in> us" and run: "rt_mp_free (b + 4) s = Some s'"
  shows "kinv s' \<and> mp_rep x s' (b # fs) (us - {b})"
proof (cases "mp_suspend_thread_count (mempools s x) = 0")
  case True
  then show ?thesis using mp_free_quiet[OF rep True] mp_put_rep(1)[OF rep] inv run by simp
next
  case False
  show ?thesis
  proof (cases "mp_waiters x s")
    case Nil
    have "0 < mp_suspend_thread_count (mempools s x)" using False by (simp add: word_neq_0_conv)
    then have "rt_mp_free (b + 4) s = None"
      using mp_put_rep(2)[OF rep] Nil unfolding rt_mp_free_def by (simp add: Let_def)
    then show ?thesis using run by simp
  next
    case (Cons t ts)
    from mp_free_wakes[OF inv rep False Cons] run have s': "kinv s'"
      "mempools s' = mempools (mp_one_less x (mp_put x b s))" "mp_links s' = mp_links (mp_put x b s)" by auto
    have m: "mempools s' x = (mempools (mp_put x b s) x)\<lparr>mp_suspend_thread_count :=
        mp_suspend_thread_count (mempools s x) - 1\<rparr>" using s'(2) by (simp add: mp_put_def)
    then show ?thesis using mp_put_rep(1)[OF rep] s'(1) unfolding mp_rep_def m s'(3) by simp
  qed
qed

text \<open>A history of pool \<open>x\<close>: allocations by running threads and by threads woken in the pool's list, frees
  of blocks in use, and steps that leave the pool and its words alone, timeouts of waiting threads among
  them. \<open>us\<close> are the blocks in use. A free that goes wrong, as \<open>mp_timeout_breaks_free\<close> shows it, ends the
  history.\<close>

inductive mp_run :: "nat \<Rightarrow> kstate \<Rightarrow> u32 set \<Rightarrow> u32 set \<Rightarrow> kstate \<Rightarrow> bool" for x :: nat and s0 :: kstate and us0 :: "u32 set" where
  start: "mp_run x s0 us0 us0 s0"
| alloc: "\<lbrakk>mp_run x s0 us0 us s; running s t; mp_wait_ok time; rt_mp_alloc x time s = Some (r, s')\<rbrakk> \<Longrightarrow>
    mp_run x s0 us0 (case r of Done p \<Rightarrow> if p = 0 then us else insert (p - 4) us | Blocked \<Rightarrow> us) s'"
| woken: "\<lbrakk>mp_run x s0 us0 us s; running s t; mp_wait_ok (time_left time before (tick s));
    rt_mp_alloc_woken x time before t s = Some (r, s')\<rbrakk> \<Longrightarrow>
    mp_run x s0 us0 (case r of Done p \<Rightarrow> if p = 0 then us else insert (p - 4) us | Blocked \<Rightarrow> us) s'"
| free: "\<lbrakk>mp_run x s0 us0 us s; b \<in> us; rt_mp_free (b + 4) s = Some s'\<rbrakk> \<Longrightarrow> mp_run x s0 us0 (us - {b}) s'"
| timeout: "\<lbrakk>mp_run x s0 us0 us s; stat_of s t = RT_THREAD_SUSPEND; ThreadTimer t \<notin> set (timer_list s);
    rt_thread_timeout t s = Some s'\<rbrakk> \<Longrightarrow> mp_run x s0 us0 us s'"
| other: "\<lbrakk>mp_run x s0 us0 us s; kinv s'; mempools s' x = mempools s x;
    \<And>b. b \<in> set (mp_slots (mempools s x)) \<Longrightarrow> mp_links s' b = mp_links s b\<rbrakk> \<Longrightarrow> mp_run x s0 us0 us s'"

definition mp_good :: "nat \<Rightarrow> u32 set \<Rightarrow> kstate \<Rightarrow> bool" where
  "mp_good x us s \<longleftrightarrow> kinv s \<and> (\<exists>fs. mp_rep x s fs us)"

lemma mp_alloc_good:
  assumes "mp_good x us s" "running s t" "mp_wait_ok time" "mp_alloc_try x time (Some t) s = Some (r, s')"
  shows "mp_good x (case r of Done p \<Rightarrow> if p = 0 then us else insert (p - 4) us | Blocked \<Rightarrow> us) s'"
    "r = Done p \<Longrightarrow> p \<noteq> 0 \<Longrightarrow> p - 4 \<in> set (mp_slots (mempools s x)) \<and> p - 4 \<notin> us"
proof -
  from assms(1) obtain fs where g: "kinv s" "mp_rep x s fs us" by (auto simp: mp_good_def)
  note st = mp_alloc_step[OF g assms(2-4)]
  have "mp_good x (case r of Done p \<Rightarrow> if p = 0 then us else insert (p - 4) us | Blocked \<Rightarrow> us) s' \<and>
    (\<forall>p. r = Done p \<longrightarrow> p \<noteq> 0 \<longrightarrow> p - 4 \<in> set (mp_slots (mempools s x)) \<and> p - 4 \<notin> us)"
  proof (cases fs)
    case Nil
    then show ?thesis using st by (auto simp: mp_good_def)
  next
    case (Cons b fs')
    then have b: "b \<in> set (mp_slots (mempools s x))" "b \<notin> us" "mp_area_ok (mempools s x)"
      using g(2) by (auto simp: mp_rep_def)
    have "b + 4 \<noteq> 0" using mp_areaD(7)[OF b(3,1)] by (metis add_is_0 unat_0 zero_neq_numeral)
    then show ?thesis using st Cons b(1,2) by (auto simp: mp_good_def)
  qed
  then show "mp_good x (case r of Done p \<Rightarrow> if p = 0 then us else insert (p - 4) us | Blocked \<Rightarrow> us) s'"
    "r = Done p \<Longrightarrow> p \<noteq> 0 \<Longrightarrow> p - 4 \<in> set (mp_slots (mempools s x)) \<and> p - 4 \<notin> us" by blast+
qed

lemma mp_run_good:
  assumes "mp_run x s0 us0 us s" "mp_good x us0 s0"
  shows "mp_good x us s"
  using assms
proof induction
  case (alloc us s t time r s')
  have "mp_alloc_try x time (Some t) s = Some (r, s')"
    using alloc.hyps(2,4) by (simp add: rt_mp_alloc_def running_def rt_thread_self_def)
  with mp_alloc_good(1) alloc show ?case by blast
next
  case (woken us s t time before r s')
  then have g: "mp_good x us s" by blast
  show ?case
  proof (cases "th_error (threads s t) = RT_EOK")
    case True
    then have "mp_alloc_try x (time_left time before (tick s)) (Some t) s = Some (r, s')"
      using woken.hyps(4) by (simp add: rt_mp_alloc_woken_def)
    with mp_alloc_good(1) woken.hyps(2,3) g show ?thesis by blast
  next
    case False
    then show ?thesis using woken.hyps(4) g by (auto simp: rt_mp_alloc_woken_def)
  qed
next
  case (free us s b s')
  then obtain fs where "kinv s" "mp_rep x s fs us" by (auto simp: mp_good_def)
  from mp_free_rep[OF this free.hyps(2,3)] show ?case by (auto simp: mp_good_def)
next
  case (timeout us s t s')
  then obtain fs where g: "kinv s" "mp_rep x s fs us" by (auto simp: mp_good_def)
  from rt_thread_timeout_ok[OF g(1) timeout.hyps(2,3)] timeout.hyps(4) have s': "kinv s'" "core_frame s s'" by auto
  have "mp_rep x s' fs us" by (rule mp_rep_cong[OF _ _ g(2)]) (simp_all add: core_frameD(10,11)[OF s'(2)])
  then show ?case using s'(1) by (auto simp: mp_good_def)
next
  case (other us s s')
  then obtain fs where "mp_rep x s fs us" by (auto simp: mp_good_def)
  then have "mp_rep x s' fs us" using mp_rep_cong[OF other.hyps(3,4)] by blast
  then show ?case using other.hyps by (auto simp: mp_good_def)
qed

section \<open>Sample pools\<close>

text \<open>Pool 7 with two blocks of 12 bytes: free, and in use with thread 2 waiting.\<close>

definition sample_pool :: kstate where
  "sample_pool = sample\<lparr>mempools := (mempools sample)(7 := \<lparr>mp_start_address = 0x20001000, mp_size = 32,
       mp_block_size = 12, mp_block_list = 0x20001000, mp_block_total_count = 2, mp_block_free_count = 2,
       mp_suspend_thread_count = 0\<rparr>),
     mp_links := (\<lambda>_. 0)(0x20001000 := 0x20001010)\<rparr>"

definition sample_used :: kstate where
  "sample_used = (sample_wait (WaitQ (OMemPool 7)))\<lparr>mempools := (mempools sample)(7 :=
       \<lparr>mp_start_address = 0x20001000, mp_size = 32, mp_block_size = 12, mp_block_list = 0,
        mp_block_total_count = 2, mp_block_free_count = 0, mp_suspend_thread_count = 1\<rparr>),
     mp_links := (\<lambda>_. 0)(0x20001000 := 7, 0x20001010 := 7)\<rparr>"

lemma sample_pool_ok:
  "mp_rep 7 sample_pool [0x20001000, 0x20001010] {}" "mp_counted 7 sample_pool" "kinv sample_pool"
  "running sample_pool 1" "mp_wait_ok 0"
proof -
  have "mp_slots (mempools sample_pool 7) = [0x20001000, 0x20001010]"
    by (simp add: mp_slots_def sample_pool_def slot_at_def upt_rec)
  then show "mp_rep 7 sample_pool [0x20001000, 0x20001010] {}"
    by (simp add: mp_rep_def) (simp add: sample_pool_def mp_area_ok_def)
  show "mp_counted 7 sample_pool" by (simp add: mp_counted_def sample_pool_def sample_def)
  show "kinv sample_pool" using sample_kinv by (simp add: sample_pool_def)
  show "running sample_pool 1"
    by (simp add: running_def sample_pool_def stat_of_def) (simp add: sample_def sample_thread_def)
  show "mp_wait_ok 0" by (simp add: mp_wait_ok_def sample_pool_def sample_def)
qed

lemma sample_used_ok:
  "mp_rep 7 sample_used [] {0x20001000, 0x20001010}" "mp_counted 7 sample_used" "kinv sample_used"
  "lists sample_used (WaitQ (OMemPool 7)) = [2]" "mp_suspend_thread_count (mempools sample_used 7) = 1"
  "timer_list sample_used = []"
proof -
  have "mp_slots (mempools sample_used 7) = [0x20001000, 0x20001010]"
    by (simp add: mp_slots_def sample_used_def slot_at_def upt_rec)
  then show "mp_rep 7 sample_used [] {0x20001000, 0x20001010}"
    by (simp add: mp_rep_def) (simp add: sample_used_def mp_area_ok_def)
  show w: "lists sample_used (WaitQ (OMemPool 7)) = [2]" by (simp add: sample_used_def sample_wait_simps)
  show n: "mp_suspend_thread_count (mempools sample_used 7) = 1" by (simp add: sample_used_def)
  show "mp_counted 7 sample_used" using w n by (simp add: mp_counted_def)
  show "kinv sample_used" using sample_wait_kinv[of "WaitQ (OMemPool 7)"] by (simp add: sample_used_def)
  show "timer_list sample_used = []" by (simp add: sample_used_def sample_wait_simps)
qed

section \<open>Properties\<close>

text \<open>C8: over every history of a memory pool, timeouts of waiting threads included, each block is in use at most
  once: a block that an allocation returns is one of the pool's, is not in use, and does not overlap any
  block in use; free and used blocks always add up to all blocks. A free that does not return, which a
  timeout can cause, ends the history.\<close>

theorem mp_blocks_exclusive:
  assumes "mp_run x s0 us0 us s" and "kinv s0" and "mp_rep x s0 fs0 us0"
    and "running s t" and "mp_wait_ok time" and "rt_mp_alloc x time s = Some (Done p, s')" and "p \<noteq> 0"
  shows "p - 4 \<in> set (mp_slots (mempools s x)) \<and> p - 4 \<notin> us \<and>
    (\<forall>b \<in> us. unat (p - 4) + 4 + unat (mp_block_size (mempools s x)) \<le> unat b \<or>
              unat b + 4 + unat (mp_block_size (mempools s x)) \<le> unat (p - 4)) \<and>
    unat (mp_block_free_count (mempools s x)) + card us = unat (mp_block_total_count (mempools s x))"
proof -
  have g: "mp_good x us s" using mp_run_good[OF assms(1)] assms(2,3) by (auto simp: mp_good_def)
  then obtain fs where fs: "mp_rep x s fs us" by (auto simp: mp_good_def)
  have "mp_alloc_try x time (Some t) s = Some (Done p, s')"
    using assms(4,6) by (simp add: rt_mp_alloc_def running_def rt_thread_self_def)
  from mp_alloc_good(2)[OF g assms(4,5) this] assms(7)
  have p: "p - 4 \<in> set (mp_slots (mempools s x))" "p - 4 \<notin> us" by auto
  have a: "mp_area_ok (mempools s x)" and us: "us \<subseteq> set (mp_slots (mempools s x))"
    and f: "unat (mp_block_free_count (mempools s x)) = length fs" using fs by (auto simp: mp_rep_def)
  have "unat (p - 4) + 4 + unat (mp_block_size (mempools s x)) \<le> unat b \<or>
      unat b + 4 + unat (mp_block_size (mempools s x)) \<le> unat (p - 4)" if "b \<in> us" for b
    using mp_areaD(8)[OF a p(1), of b] us p(2) that by auto
  then show ?thesis using p f mp_rep_count(1)[OF fs] by auto
qed

theorem mp_blocks_exclusive_witness:
  "\<exists>s1 s2. rt_mp_alloc 7 0 sample_pool = Some (Done 0x20001004, s1) \<and>
     rt_mp_alloc 7 0 s1 = Some (Done 0x20001014, s2) \<and> (0x20001010 :: u32) \<notin> {0x20001000}"
proof -
  note o = sample_pool_ok
  have e: "rt_mp_alloc 7 time s = mp_alloc_try 7 time (Some 1) s" if "running s 1" for time s
    using that by (simp add: rt_mp_alloc_def running_def rt_thread_self_def)
  have "mp_block_free_count (mempools sample_pool 7) \<noteq> 0" by (simp add: sample_pool_def)
  then obtain s1 where s1: "rt_mp_alloc 7 0 sample_pool = Some (Done 0x20001004, s1)"
    "s1 = (mp_upd 7 (\<lambda>m. m\<lparr>mp_block_free_count := mp_block_free_count m - 1,
            mp_block_list := mp_links sample_pool 0x20001000\<rparr>) sample_pool)\<lparr>mp_links := (mp_links sample_pool)(0x20001000 := 7)\<rparr>"
    using mp_take_ok[OF o(1)] by (auto simp: e[OF o(4)] mp_alloc_try_def)
  have r: "running s1 1" "mp_wait_ok 0" "mp_block_free_count (mempools s1 7) = 1"
    using o(4,5) unfolding s1(2) by (simp_all add: running_def mp_wait_ok_def stat_of_def mp_upd_def)
      (simp add: sample_pool_def)
  have "mp_block_list (mempools s1 7) = 0x20001010" unfolding s1(2) by (simp add: sample_pool_def)
  with r(3) obtain s2 where s2: "rt_mp_alloc 7 0 s1 = Some (Done 0x20001014, s2)"
    by (simp add: e[OF r(1)] mp_alloc_try_def mp_take_def)
  have run: "mp_run 7 sample_pool {} {0x20001000} s1"
    using mp_run.alloc[OF mp_run.start o(4,5) s1(1)] by simp
  from mp_blocks_exclusive[OF run o(3,1) r(1,2) s2] s1(1) s2 show ?thesis by simp
qed

text \<open>\<open>rt_mp_init\<close> on memory that holds at least one block and does not wrap around links all blocks:
  the pool is well-formed, all blocks are free, and they lie inside the memory given.\<close>

theorem mp_init_well_formed:
  assumes "rt_mp_init x name start sz block_size s = Some (e, s')" and "start \<noteq> 0" and "x < 2 ^ 32"
    and "unat start + unat sz < 2 ^ 32" and "unat (RT_ALIGN block_size :: u32) + 4 \<le> unat (RT_ALIGN_DOWN sz)"
  shows "e = RT_EOK \<and> mp_rep x s' (mp_slots (mempools s' x)) {} \<and>
    mp_block_size (mempools s' x) = RT_ALIGN block_size \<and>
    (\<forall>b \<in> set (mp_slots (mempools s' x)). unat start \<le> unat b \<and>
       unat b + 4 + unat (RT_ALIGN block_size :: u32) \<le> unat start + unat sz)"
proof -
  let ?bs = "RT_ALIGN block_size :: u32" and ?ps = "RT_ALIGN_DOWN sz :: u32"
  let ?n = "?ps div (?bs + 4)"
  let ?g = "\<lambda>m. m\<lparr>mp_start_address := start, mp_size := ?ps, mp_block_size := ?bs, mp_block_total_count := ?n,
    mp_block_free_count := ?n, mp_suspend_thread_count := 0\<rparr>"
  from assms(1) obtain s1 where s1: "e = RT_EOK" "s' = mp_format x (mp_upd x ?g s1)"
    by (auto simp: rt_mp_init_def rt_ipc_object_init_def Let_def split: bind_splits if_splits)
  let ?S = "mp_upd x ?g s1"
  define m where "m = mempools ?S x"
  have f: "mp_start_address m = start" "mp_block_size m = ?bs" "mp_block_total_count m = ?n"
    "mp_block_free_count m = ?n" by (simp_all add: m_def)
  have ps: "unat ?ps \<le> unat sz" by (simp add: unat_RT_ALIGN_DOWN)
  have "unat ?bs + 4 < 2 ^ 32" using assms(5) unsigned_less[of ?ps, where 'a=nat] by simp
  then have st: "unat (?bs + 4) = unat ?bs + 4" by (simp add: unat_word_ariths)
  have n: "unat ?n = unat ?ps div (unat ?bs + 4)" by (simp add: unat_div st)
  have nb: "unat ?n * (unat ?bs + 4) \<le> unat ?ps" unfolding n by (rule div_times_less_eq_dividend)
  have n0: "0 < unat ?n" unfolding n using assms(5) by (simp add: div_greater_zero_iff)
  have area: "mp_area_ok m" unfolding mp_area_ok_def f
    using assms(2,4) nb ps \<open>unat ?bs + 4 < 2 ^ 32\<close> by auto
  have "0 < mp_block_total_count m" using n0 f(3) by (simp add: word_less_nat_alt)
  from mp_format_rep[OF m_def this _ area assms(3)] f
  have r: "mp_rep x s' (mp_slots m) {}" "mempools s' x = m\<lparr>mp_block_list := start\<rparr>" by (simp_all add: s1(2))
  have sl: "mp_slots (mempools s' x) = mp_slots m" "mp_block_size (mempools s' x) = ?bs" using r(2) f(2) by simp_all
  have "unat start \<le> unat b \<and> unat b + 4 + unat ?bs \<le> unat start + unat sz" if "b \<in> set (mp_slots m)" for b
    using mp_areaD(6)[OF area that] nb ps unfolding f by auto
  then show ?thesis using s1(1) r(1) unfolding sl by simp
qed

theorem mp_init_well_formed_witness:
  "\<exists>s'. rt_mp_init 6 [109, 0] 0x20000000 40 10 sample = Some (RT_EOK, s') \<and>
     mp_rep 6 s' (mp_slots (mempools s' 6)) {} \<and> mp_block_size (mempools s' 6) = 12"
proof -
  have al: "RT_ALIGN (10 :: u32) = 12" "RT_ALIGN_DOWN (40 :: u32) = 40" by (simp_all add: RT_ALIGN_def RT_ALIGN_DOWN_def)
  have c: "OMemPool 6 \<notin> set (containers sample 8)" by (simp add: sample_def)
  have nm: "rt_strncpy 8 [109, 0] = Some [109, 0, 0, 0, 0, 0, 0, 0]" by (simp add: eval_nat_numeral)
  have info: "rt_object_get_information 8 \<noteq> None"
    by (simp add: rt_object_get_information_def rt_object_container_def)
  from object_init_ok[OF sample_kinv _ c info nm] obtain s1 where
    "rt_object_init (OMemPool 6) 8 [109, 0] sample = Some s1" "lists s1 (WaitQ (OMemPool 6)) = []"
    by (auto simp: sample_simps)
  then obtain s' where r: "rt_mp_init 6 [109, 0] 0x20000000 40 10 sample = Some (RT_EOK, s')"
    by (simp add: rt_mp_init_def rt_ipc_object_init_def Let_def al)
  from mp_init_well_formed[OF r] r al show ?thesis by simp
qed

text \<open>every branch of \<open>rt_mp_alloc\<close>: the first free block leaves the free list; on an empty pool a call
  that does not wait is \<open>RT_NULL\<close> with \<open>-RT_ETIMEOUT\<close>, and one that waits suspends the caller at the front of
  the pool's list: the last thread to wait is the first to be served.\<close>

theorem mp_alloc_behaviour:
  assumes "kinv s" and "mp_rep x s fs us" and "running s t" and "mp_wait_ok time"
  shows "\<exists>r s'. rt_mp_alloc x time s = Some (r, s') \<and> kinv s' \<and>
    (case fs of b # fs' \<Rightarrow> r = Done (b + 4) \<and> mp_rep x s' fs' (insert b us)
     | [] \<Rightarrow> mp_rep x s' [] us \<and>
        (if time = 0 then r = Done 0 \<and> s' = set_error t (- RT_ETIMEOUT) s
         else r = Blocked \<and> lists s' (WaitQ (OMemPool x)) = t # lists s (WaitQ (OMemPool x)) \<and>
           stat_of s' t = RT_THREAD_SUSPEND))"
proof -
  have c: "rt_mp_alloc x time s = mp_alloc_try x time (Some t) s"
    using assms(3) by (simp add: rt_mp_alloc_def running_def rt_thread_self_def)
  show ?thesis
  proof (cases fs)
    case (Cons b fs')
    from mp_take_ok[OF assms(2)[unfolded Cons]] obtain s1 where s1: "mp_take x s = Some (b + 4, s1)"
      "mp_rep x s1 fs' (insert b us)"
      "s1 = (mp_upd x (\<lambda>m. m\<lparr>mp_block_free_count := mp_block_free_count m - 1, mp_block_list := mp_links s b\<rparr>) s)
             \<lparr>mp_links := (mp_links s)(b := of_nat x)\<rparr>" by blast
    have "mp_block_free_count (mempools s x) \<noteq> 0" using mp_rep_Nil[OF assms(2)] Cons by simp
    then have "rt_mp_alloc x time s = Some (Done (b + 4), s1)" using s1(1) by (simp add: c mp_alloc_try_def)
    moreover have "kinv s1" unfolding s1(3) using assms(1) by simp
    ultimately show ?thesis using s1(2) Cons by simp
  next
    case Nil
    then have z: "mp_block_free_count (mempools s x) = 0" using mp_rep_Nil[OF assms(2)] by simp
    show ?thesis
    proof (cases "time = 0")
      case True
      have "rt_mp_alloc x time s = Some (Done 0, set_error t (- RT_ETIMEOUT) s)"
        unfolding c using assms(3) z True by (simp add: mp_alloc_try_def rt_set_errno_def running_def)
      moreover have "mp_rep x (set_error t (- RT_ETIMEOUT) s) [] us"
        using assms(2) unfolding Nil by (rule mp_rep_cong[rotated 2]) simp_all
      ultimately show ?thesis using assms(1) Nil True by simp
    next
      case False
      from mp_block[OF assms(1) z False assms(3)] assms(4) obtain s' where s': "rt_mp_alloc x time s = Some (Blocked, s')"
        "blocked_at (WaitQ (OMemPool x)) t (t # mp_waiters x s) time (mp_one_more x (set_error t RT_EOK s)) s'"
        by (auto simp: c mp_wait_ok_def)
      note d = blocked_atD[OF s'(2)]
      have "mempools s' x = (mempools s x)\<lparr>mp_suspend_thread_count := mp_suspend_thread_count (mempools s x) + 1\<rparr>"
        "mp_links s' = mp_links s" using core_frameD(10,11)[OF d(2)] by simp_all
      then have "mp_rep x s' [] us" using assms(2) unfolding Nil mp_rep_def by simp
      then show ?thesis using s'(1) d(1,3,4) Nil False by simp
    qed
  qed
qed

theorem mp_alloc_behaviour_witness:
  "\<exists>s'. rt_mp_alloc 7 0 sample_pool = Some (Done 0x20001004, s') \<and> mp_rep 7 s' [0x20001010] {0x20001000}"
  using mp_alloc_behaviour[OF sample_pool_ok(3,1,4,5)] by auto

text \<open>\<open>rt_mp_free\<close> makes the block the next to be handed out and wakes the first waiting thread.\<close>

theorem mp_free_behaviour:
  assumes "kinv s" and "mp_rep x s fs us" and "b \<in> us" and "mp_counted x s"
  shows "\<exists>s'. rt_mp_free (b + 4) s = Some s' \<and> kinv s' \<and> mp_counted x s' \<and> mp_rep x s' (b # fs) (us - {b}) \<and>
    lists s' (WaitQ (OMemPool x)) = tl (lists s (WaitQ (OMemPool x))) \<and>
    (\<forall>u. stat_of s' u = RT_THREAD_SUSPEND \<longleftrightarrow>
       stat_of s u = RT_THREAD_SUSPEND \<and> u \<notin> set (take 1 (lists s (WaitQ (OMemPool x)))))"
  by (rule mp_free_step[OF assms])

theorem mp_free_behaviour_witness:
  "\<exists>s'. rt_mp_free 0x20001004 sample_used = Some s' \<and> stat_of s' 2 \<noteq> RT_THREAD_SUSPEND \<and>
     mp_rep 7 s' [0x20001000] {0x20001010}"
proof -
  have "{0x20001000, 0x20001010} - {0x20001000} = {0x20001010 :: u32}" by auto
  with mp_free_behaviour[OF sample_used_ok(3,1) _ sample_used_ok(2), of "0x20001000"] sample_used_ok(4)
  show ?thesis by auto
qed

text \<open>\<open>rt_mp_detach\<close> ends: it wakes all waiting threads with \<open>-RT_ERROR\<close>, which then do not try again.\<close>

theorem mp_detach_behaviour:
  assumes "kinv s" and "rt_object_get_type (OMemPool x) s = Class_MemPool"
    and "rt_object_is_systemobject (OMemPool x) s"
  shows "\<exists>s'. rt_mp_detach x s = Some (RT_EOK, s') \<and> lists s' (WaitQ (OMemPool x)) = [] \<and>
    (\<forall>u \<in> set (lists s (WaitQ (OMemPool x))). stat_of s' u \<noteq> RT_THREAD_SUSPEND \<and>
       (\<forall>time before. rt_mp_alloc_woken x time before u s' = Some (Done 0, s')))"
proof -
  from wm.wake_all_ends[OF assms(1), of x] obtain s1 where s1: "mp_wake_all x s = Some s1" "mp_waiters x s1 = []"
    "\<And>u. stat_of s1 u = 2 \<longleftrightarrow> stat_of s u = 2 \<and> u \<notin> set (mp_waiters x s)"
    "\<And>u. th_error (threads s1 u) = (if u \<in> set (mp_waiters x s) then - RT_ERROR else th_error (threads s u))" by blast
  let ?s = "rt_object_detach (OMemPool x) s1"
  have run: "rt_mp_detach x s = Some (RT_EOK, ?s)" using assms(2,3) s1(1) by (simp add: rt_mp_detach_def of_class_def)
  have t: "lists ?s = lists s1" "threads ?s = threads s1" by (simp_all add: rt_object_detach_def container_remove_def)
  then have "stat_of ?s u = stat_of s1 u" for u by (simp add: stat_of_def)
  then have "stat_of ?s u \<noteq> 2 \<and> (\<forall>time before. rt_mp_alloc_woken x time before u ?s = Some (Done 0, ?s))"
    if "u \<in> set (mp_waiters x s)" for u
    using s1(3)[of u] s1(4)[of u] t that by (simp add: rt_mp_alloc_woken_def)
  then show ?thesis using run t s1(2) by (intro exI[of _ ?s]) simp
qed

theorem mp_detach_behaviour_witness:
  "\<exists>s'. rt_mp_detach 7 (obj_upd (OMemPool 7) (\<lambda>ob. ob\<lparr>obj_type := 0x88\<rparr>) sample_used) = Some (RT_EOK, s') \<and>
     stat_of s' 2 \<noteq> RT_THREAD_SUSPEND \<and> rt_mp_alloc_woken 7 5 100 2 s' = Some (Done 0, s')"
proof -
  let ?s = "obj_upd (OMemPool 7) (\<lambda>ob. ob\<lparr>obj_type := 0x88\<rparr>) sample_used"
  have "kinv ?s" using kinv_obj_upd[OF sample_used_ok(3)] by simp
  moreover have "rt_object_get_type (OMemPool 7) ?s = 8" "rt_object_is_systemobject (OMemPool 7) ?s"
    by (simp_all add: rt_object_get_type_def rt_object_is_systemobject_def)
  moreover have "lists ?s (WaitQ (OMemPool 7)) = [2]" using sample_used_ok(4) by simp
  ultimately show ?thesis using mp_detach_behaviour[of ?s 7] by auto
qed

text \<open>C32: a wait that times out stays counted: when the only waiting thread has timed out, freeing a block
  takes a thread from the empty list and goes wrong.\<close>

theorem mp_timeout_breaks_free:
  assumes "kinv s" and "mp_rep x s fs us" and "b \<in> us" and "mp_counted x s"
    and "lists s (WaitQ (OMemPool x)) = [t]" and "ThreadTimer t \<notin> set (timer_list s)"
  shows "\<exists>s'. rt_thread_timeout t s = Some s' \<and> kinv s' \<and> lists s' (WaitQ (OMemPool x)) = [] \<and>
    mp_rep x s' fs us \<and> \<not> mp_counted x s' \<and> rt_mp_free (b + 4) s' = None"
proof -
  have st: "stat_of s t = 2" using waiting_suspended[OF assms(1), of "WaitQ (OMemPool x)" t] assms(5) by simp
  from rt_thread_timeout_ok[OF assms(1) st assms(6)] assms(5) obtain s' where s': "rt_thread_timeout t s = Some s'"
    "kinv s'" "core_frame s s'" "mp_waiters x s' = []" by auto
  note f = core_frameD(10,11)[OF s'(3)]
  have n: "unat (mp_suspend_thread_count (mempools s x)) = 1" using assms(4,5) by (simp add: mp_counted_def)
  have rep: "mp_rep x s' fs us" by (rule mp_rep_cong[OF _ _ assms(2)]) (simp_all add: f)
  have "0 < mp_suspend_thread_count (mempools s' x)" using n f(1) by (simp add: word_less_nat_alt)
  then have "rt_mp_free (b + 4) s' = None"
    using mp_put_rep(2)[OF rep assms(3)] s'(4) unfolding rt_mp_free_def by (simp add: Let_def)
  moreover have "\<not> mp_counted x s'" using n s'(4) f(1) by (simp add: mp_counted_def)
  ultimately show ?thesis using s' rep by blast
qed

theorem mp_timeout_breaks_free_witness:
  "\<exists>s'. rt_thread_timeout 2 sample_used = Some s' \<and> rt_mp_free 0x20001004 s' = None"
  using mp_timeout_breaks_free[OF sample_used_ok(3,1) _ sample_used_ok(2,4), of "0x20001000"] sample_used_ok(6) by auto

end
