(* ===== verification/Boot_text.thy ===== *)
theory Boot_text
  imports Prelude "HOL-Library.Signed_Division"
begin

text \<open>
  The text helpers of the boot loader: \<open>TP79_BOOT/Src/app/my_string.c\<close>, the C library functions the boot
  loader calls on its message buffers, and the checksum \<open>calcrc\<close> of \<open>drv/poc.c\<close>. Plain \<open>char\<close> is unsigned,
  as the project's compiler options say. A read outside a buffer is \<open>None\<close>.
\<close>

section \<open>C strings\<close>

definition ascii :: "string \<Rightarrow> u8 list" where
  "ascii s = map of_char s"

definition crlf :: "u8 list" where
  "crlf = [13, 10]"

fun strlen :: "u8 list \<Rightarrow> nat option" where
  "strlen [] = None"
| "strlen (c # cs) = (if c = 0 then Some 0 else map_option Suc (strlen cs))"

text \<open>\<open>memcmp(p + i, q, n) == 0\<close>.\<close>

definition mem_equal :: "u8 list \<Rightarrow> nat \<Rightarrow> u8 list \<Rightarrow> nat \<Rightarrow> bool option" where
  "mem_equal p i q n =
     (if i + n \<le> length p \<and> n \<le> length q then Some (take n (drop i p) = take n q) else None)"

definition toupper :: "u8 \<Rightarrow> u8" where
  "toupper c = (if 97 \<le> c \<and> c \<le> 122 then c - 32 else c)"

section \<open>Hexadecimal text\<close>

definition hex_nibble :: "u8 \<Rightarrow> u8" where
  "hex_nibble c = (let b = toupper c in if b > 0x39 then b - 0x37 else b - 0x30)"

text \<open>The bytes written to \<open>pout\<close>; the length is a \<open>uint16_t\<close> below 65535, where the loop counter would wrap.\<close>

fun str_to_hex :: "u8 list \<Rightarrow> nat \<Rightarrow> u8 list option" where
  "str_to_hex string n =
     (if n = 0 then Some []
      else case string of
        highByte # lowByte # rest \<Rightarrow>
          map_option ((#) (push_bit 4 (hex_nibble highByte) OR hex_nibble lowByte)) (str_to_hex rest (n - 2))
      | _ \<Rightarrow> None)"

declare str_to_hex.simps [simp del]

lemma str_to_hex_0 [simp]: "str_to_hex s 0 = Some []"
  by (simp add: str_to_hex.simps)

lemma str_to_hex_Cons [simp]:
  "str_to_hex (a # b # s) (Suc (Suc n)) =
     map_option ((#) (push_bit 4 (hex_nibble a) OR hex_nibble b)) (str_to_hex s n)"
  by (subst str_to_hex.simps) simp

definition hex_char :: "u8 \<Rightarrow> u8" where
  "hex_char n = (let d = 48 + n in if d > 57 then d + 7 else d)"

fun hex_to_str :: "u8 list \<Rightarrow> nat \<Rightarrow> u8 list option" where
  "hex_to_str pbSrc 0 = Some [0]"
| "hex_to_str [] (Suc nLen) = None"
| "hex_to_str (b # pbSrc) (Suc nLen) =
     map_option (\<lambda>r. hex_char (b div 16) # hex_char (b mod 16) # r) (hex_to_str pbSrc nLen)"

lemma str_to_hex_length: "str_to_hex s n = Some r \<Longrightarrow> length r = (n + 1) div 2"
proof (induction s n arbitrary: r rule: str_to_hex.induct)
  case (1 s n)
  show ?case
  proof (cases "n = 0")
    case False
    with "1.prems" obtain a b t q where s: "s = a # b # t" and q: "str_to_hex t (n - 2) = Some q"
      "r = (push_bit 4 (hex_nibble a) OR hex_nibble b) # q"
      by (subst (asm) str_to_hex.simps) (auto split: list.splits)
    from "1.IH"[OF False s refl q(1)] q(2) False show ?thesis by (cases n) auto
  qed (use "1.prems" in simp)
qed

lemma nibbles: "(b :: u8) = push_bit 4 (b div 16) OR (b mod 16)"
proof -
  have e: "b div 16 = drop_bit 4 b" "b mod 16 = take_bit 4 b" by (simp_all add: drop_bit_eq_div take_bit_eq_mod)
  show ?thesis unfolding e by (rule bit_word_eqI) (auto simp: bit_simps)
qed

lemma nibble_char:
  assumes "n < 16"
  shows "hex_nibble (hex_char n) = n"
proof -
  have "unat n < 16" using assms by (simp add: word_less_nat_alt)
  moreover have "n = word_of_nat (unat n)" by simp
  ultimately obtain k where k: "n = word_of_nat k" "k < 16" by blast
  then have "k = 0 \<or> k = 1 \<or> k = 2 \<or> k = 3 \<or> k = 4 \<or> k = 5 \<or> k = 6 \<or> k = 7 \<or> k = 8 \<or> k = 9 \<or>
      k = 10 \<or> k = 11 \<or> k = 12 \<or> k = 13 \<or> k = 14 \<or> k = 15" by presburger
  then show ?thesis unfolding k(1)
    by (elim disjE) (simp_all add: hex_nibble_def hex_char_def toupper_def)
qed

lemma hex_round:
  assumes "n \<le> length src"
  shows "\<exists>t. hex_to_str src n = Some t \<and> str_to_hex t (2 * n) = Some (take n src) \<and> length t = 2 * n + 1"
  using assms
proof (induction src n rule: hex_to_str.induct)
  case (3 b src n)
  then obtain t where "hex_to_str src n = Some t" "str_to_hex t (2 * n) = Some (take n src)" "length t = 2 * n + 1"
    by auto
  moreover have "b div 16 < 16" "b mod 16 < 16"
    using unsigned_less[of b, where 'a=nat] by (simp_all add: word_less_nat_alt unat_div unat_mod)
  ultimately show ?case using nibbles[of b] by (simp add: nibble_char flip: take_Suc_Cons)
qed auto

section \<open>Decimal text and weekdays\<close>

text \<open>The number of digits less one; \<open>num\<close> is a \<open>uint16_t\<close> that wraps at 100000.\<close>

function decstr_len :: "nat \<Rightarrow> u16 \<Rightarrow> u16 \<Rightarrow> nat" where
  "decstr_len i num dec =
     (if i < 5 then (if dec < num * 10 then i else decstr_len (i + 1) (num * 10) dec) else i)"
  by pat_completeness auto
termination by (relation "measure (\<lambda>(i, _, _). 5 - i)") auto

declare decstr_len.simps [simp del]

definition uint16_to_unicode_decstr :: "u16 \<Rightarrow> u8 list option" where
  "uint16_to_unicode_decstr dec =
     (let i = decstr_len 0 1 dec;
          lit = ascii ''3000300030003000'' @ [0];
          digit = (\<lambda>v. ucast (v + 48) :: u8)
      in if (i + 1) * 4 \<le> length lit
         then let str_uni = take ((i + 1) * 4) lit in
           Some (if i = 0 then str_uni[1 := digit (dec mod 10)]
                 else if i = 1 then str_uni[5 := digit (dec mod 10), 1 := digit (dec div 10)]
                 else if i = 2 then str_uni[9 := digit (dec mod 10), 5 := digit (dec div 10), 1 := digit (dec div 100)]
                 else if i = 3 then str_uni[13 := digit (dec mod 10), 9 := digit (dec div 10),
                                            5 := digit (dec div 100), 1 := digit (dec div 1000)]
                 else str_uni)
         else None)"

text \<open>For three digits the middle one is \<open>dec/10 + '0'\<close>, which is no digit.\<close>

lemma decstr_three_digits: "uint16_to_unicode_decstr 123 = Some (ascii ''3100'' @ ascii ''3<00'' @ ascii ''3300'')"
  by (simp add: uint16_to_unicode_decstr_def decstr_len.simps ascii_def Let_def)

definition get_weekday :: "int \<Rightarrow> int \<Rightarrow> int \<Rightarrow> int" where
  "get_weekday y m d =
     (let (m, y) = (if m = 1 \<or> m = 2 then (m + 12, y - 1) else (m, y))
      in (d + 2 * m + 3 * (m + 1) sdiv 5 + y + y sdiv 4 - y sdiv 100 + y sdiv 400) smod 7)"

definition leap :: "int \<Rightarrow> bool" where
  "leap y \<longleftrightarrow> 4 dvd y \<and> (100 dvd y \<longrightarrow> 400 dvd y)"

definition month_days :: "int \<Rightarrow> int \<Rightarrow> int" where
  "month_days y m = (if m = 2 then (if leap y then 29 else 28) else if m \<in> {4, 6, 9, 11} then 30 else 31)"

definition next_day :: "int \<times> int \<times> int \<Rightarrow> int \<times> int \<times> int" where
  "next_day = (\<lambda>(y, m, d). if d < month_days y m then (y, m, d + 1)
     else if m < 12 then (y, m + 1, 1) else (y + 1, 1, 1))"

definition valid_date :: "int \<times> int \<times> int \<Rightarrow> bool" where
  "valid_date = (\<lambda>(y, m, d). 1 \<le> y \<and> 1 \<le> m \<and> m \<le> 12 \<and> 1 \<le> d \<and> d \<le> month_days y m)"

section \<open>The checksum\<close>

definition crc_bit :: "u16 \<Rightarrow> u16" where
  "crc_bit crc = (if crc AND 0x8000 \<noteq> 0 then push_bit 1 crc XOR 0x1021 else push_bit 1 crc)"

definition crc_byte :: "u8 \<Rightarrow> u16 \<Rightarrow> u16" where
  "crc_byte c crc = (crc_bit ^^ 8) (crc XOR push_bit 8 (ucast c))"

definition calcrc :: "u8 list \<Rightarrow> nat \<Rightarrow> u16 option" where
  "calcrc ptr count = (if count \<le> length ptr then Some (fold crc_byte (take count ptr) 0) else None)"


lemma crc_bit_cases: "crc_bit x = push_bit 1 x XOR (if bit x 15 then 0x1021 else 0)"
proof -
  have "(0x8000 :: u16) = push_bit 15 1" by simp
  then have "bit x 15 \<longleftrightarrow> x AND 0x8000 \<noteq> 0" using bit_iff_and_push_bit_not_eq_0[of x 15] by metis
  then show ?thesis by (simp only: crc_bit_def xor.right_neutral if_distrib[of "\<lambda>y. push_bit 1 x XOR y"])
qed

lemma xor_inj: "a XOR c = b XOR c \<Longrightarrow> a = (b :: 'a::len word)"
proof -
  assume "a XOR c = b XOR c"
  then have "(a XOR c) XOR c = (b XOR c) XOR c" by simp
  then show ?thesis by (simp add: xor.assoc)
qed

lemma crc_xor: "crc_bit (x XOR y) = crc_bit x XOR crc_bit y"
proof -
  have "(if bit (x XOR y) 15 then 0x1021 else 0) = (if bit x 15 then 0x1021 else 0) XOR (if bit y 15 then 0x1021 else (0 :: u16))"
    by (simp add: bit_xor_iff)
  then show ?thesis by (simp only: crc_bit_cases push_bit_xor ac_simps)
qed

lemma push_bit_1_inj:
  assumes "push_bit 1 x = push_bit 1 y" "bit x 15 = bit y 15"
  shows "x = (y :: u16)"
proof (rule bit_word_eqI)
  fix n assume n: "n < LENGTH(16)"
  have b: "bit (push_bit 1 z) (Suc n) \<longleftrightarrow> bit z n" if "Suc n < 16" for z :: u16
    unfolding bit_push_bit_iff using that by simp
  show "bit x n = bit y n"
  proof (cases "n = 15")
    case False
    then have "Suc n < 16" using n by simp
    then show ?thesis using b assms(1) by metis
  qed (use assms(2) in simp)
qed

lemma crc_bit_inj:
  assumes "crc_bit x = crc_bit y"
  shows "x = y"
proof -
  have "\<not> bit (push_bit 1 v) 0" for v :: u16 unfolding bit_push_bit_iff by simp
  then have "bit (crc_bit v) 0 = bit v 15" for v unfolding crc_bit_cases bit_xor_iff by simp
  then have top: "bit x 15 = bit y 15" using assms by metis
  with assms have "push_bit 1 x = push_bit 1 y" unfolding crc_bit_cases by (rule_tac xor_inj) simp
  then show ?thesis using top by (rule push_bit_1_inj)
qed

lemma crc_bits_inj: "(crc_bit ^^ n) x = (crc_bit ^^ n) y \<Longrightarrow> x = y"
  by (induction n) (auto dest: crc_bit_inj)

lemma crc_bits_xor: "(crc_bit ^^ n) (x XOR y) = (crc_bit ^^ n) x XOR (crc_bit ^^ n) y"
  by (induction n) (simp_all add: crc_xor)

lemma crc_byte_inj: "crc_byte c x = crc_byte c y \<Longrightarrow> x = y"
  unfolding crc_byte_def by (drule crc_bits_inj) (rule xor_inj)

lemma crc_fold_inj: "fold crc_byte cs x = fold crc_byte cs y \<Longrightarrow> x = y"
  by (induction cs arbitrary: x y) (auto dest: crc_byte_inj)

lemma crc_byte_inj_byte:
  assumes "crc_byte c x = crc_byte d x"
  shows "c = d"
proof -
  have "push_bit 8 (ucast c) = (push_bit 8 (ucast d) :: u16)"
    using assms unfolding crc_byte_def by (auto dest!: crc_bits_inj simp: xor.commute[of x] intro: xor_inj)
  then have b: "bit (push_bit 8 (ucast c) :: u16) (8 + n) = bit (push_bit 8 (ucast d) :: u16) (8 + n)" for n by simp
  show ?thesis
  proof (rule bit_word_eqI)
    fix n assume "n < LENGTH(8)"
    then show "bit c n = bit d n" using b[of n] unfolding bit_push_bit_iff by (simp add: bit_ucast_iff)
  qed
qed

section \<open>Weekdays\<close>

lemma next_div:
  assumes "0 \<le> y" "0 < n"
  shows "(y + 1) div n = y div n + (if n dvd y + 1 then 1 else (0 :: int))"
proof -
  obtain k l where k: "y = int k" "n = int l" using assms by (metis nonneg_int_cases less_imp_le)
  have e: "y + 1 = int (Suc k)" by (simp add: k)
  have "int (Suc k div l) = int (k div l) + (if Suc k mod l = 0 then 1 else 0)" by (simp add: div_Suc)
  then show ?thesis unfolding e unfolding k by (simp only: zdiv_int[symmetric] int_dvd_int_iff mod_eq_0_iff_dvd)
qed

lemma leap_step:
  assumes "0 \<le> y"
  shows "(y + 1) div 4 - (y + 1) div 100 + (y + 1) div 400 =
     y div 4 - y div 100 + y div 400 + (if leap (y + 1) then 1 else (0 :: int))"
proof -
  have "400 dvd y + 1 \<Longrightarrow> 100 dvd y + 1" using dvd_trans[of 100 400 "y + 1"] by simp
  moreover have "100 dvd y + 1 \<Longrightarrow> 4 dvd y + 1" using dvd_trans[of 4 100 "y + 1"] by simp
  ultimately show ?thesis using next_div[OF assms, of 4] next_div[OF assms, of 100] next_div[OF assms, of 400]
    unfolding leap_def by (cases "400 dvd y + 1"; cases "100 dvd y + 1"; cases "4 dvd y + 1") simp_all
qed

definition day_number :: "int \<Rightarrow> int \<Rightarrow> int \<Rightarrow> int" where
  "day_number y m d = d + 2 * m + 3 * (m + 1) div 5 + (y + y div 4 - y div 100 + y div 400)"

lemma weekday_pos:
  assumes "1 \<le> y" "1 \<le> m" "1 \<le> d"
  shows "get_weekday y m d = (if m \<le> 2 then day_number (y - 1) (m + 12) d else day_number y m d) mod 7"
proof -
  have sd: "a sdiv b = a div b" if "0 \<le> a" "0 < b" for a b :: int
    using that by (cases "a = 0") (simp_all add: signed_divide_int_eq_divide_int)
  have sm: "a smod b = a mod b" if "0 \<le> a" "0 < b" for a b :: int
    using that by (cases "a = 0") (simp_all add: signed_modulo_int_eq_modulo_int)
  have "0 \<le> day_number y m d" if "0 \<le> y" "1 \<le> m" "1 \<le> d" for y m d
  proof -
    have "y div 100 \<le> y" using zdiv_mono2[of y 1 100] that(1) by simp
    moreover have "0 \<le> y div 4" "0 \<le> y div 400" "0 \<le> 3 * (m + 1) div 5" using that by simp_all
    ultimately show ?thesis using that by (simp add: day_number_def)
  qed
  then have mod7: "day_number y m d smod 7 = day_number y m d mod 7" if "0 \<le> y" "1 \<le> m" "1 \<le> d" for y m d
    using that sm by simp
  have E: "d + 2 * m + 3 * (m + 1) sdiv 5 + y + y sdiv 4 - y sdiv 100 + y sdiv 400 = day_number y m d"
    if "0 \<le> y" "1 \<le> m" for y m d using that by (simp add: day_number_def sd)
  show ?thesis
  proof (cases "m \<le> 2")
    case True
    then have c: "m = 1 \<or> m = 2" using assms(2) by linarith
    have "get_weekday y m d = day_number (y - 1) (m + 12) d smod 7"
      using E[of "y - 1" "m + 12" d] assms(1,2) by (simp only: get_weekday_def Let_def prod.case if_P[OF c])
    then show ?thesis using True assms mod7 by simp
  next
    case False
    then have c: "\<not> (m = 1 \<or> m = 2)" by linarith
    have "get_weekday y m d = day_number y m d smod 7"
      using E[of y m d] assms(1,2) by (simp only: get_weekday_def Let_def prod.case if_not_P[OF c])
    then show ?thesis using False assms mod7 by simp
  qed
qed

lemma day_number_Suc: "day_number y m (d + 1) = day_number y m d + 1"
  by (simp add: day_number_def)

lemma day_number_year:
  "0 \<le> y \<Longrightarrow> day_number (y + 1) m d = day_number y m d + 1 + (if leap (y + 1) then 1 else 0)"
  using leap_step[of y] by (simp add: day_number_def)

lemma weekday_next_day:
  assumes "valid_date (y, m, d)" "next_day (y, m, d) = (y', m', d')"
  shows "get_weekday y' m' d' = (get_weekday y m d + 1) mod 7"
proof (cases "d < month_days y m")
  case True
  with assms have "y' = y" "m' = m" "d' = d + 1" "1 \<le> y" "1 \<le> m" "1 \<le> d" by (auto simp: next_day_def valid_date_def)
  then show ?thesis by (simp add: weekday_pos day_number_Suc mod_simps)
next
  case False
  then have v: "1 \<le> y" "1 \<le> m" "m \<le> 12" "d = month_days y m" "1 \<le> d" using assms(1) by (auto simp: valid_date_def)
  have m: "m = 1 \<or> m = 2 \<or> m = 3 \<or> m = 4 \<or> m = 5 \<or> m = 6 \<or> m = 7 \<or> m = 8 \<or> m = 9 \<or> m = 10 \<or> m = 11 \<or> m = 12"
    using v(2,3) by presburger
  have n: "y' = (if m < 12 then y else y + 1)" "m' = (if m < 12 then m + 1 else 1)" "d' = 1"
    using assms(2) False by (auto simp: next_day_def split: if_splits)
  define A where "A = (\<lambda>y :: int. y + y div 4 - y div 100 + y div 400)"
  have A: "day_number y m d = d + 2 * m + 3 * (m + 1) div 5 + A y" for y m d by (simp add: day_number_def A_def)
  have L: "A y = A (y - 1) + (if leap y then 2 else 1)"
    using leap_step[of "y - 1"] v(1) by (cases "leap y") (simp_all add: A_def)
  have feb: "get_weekday y 3 1 = (get_weekday y 2 (month_days y 2) + 1) mod 7"
  proof (cases "leap y")
    case True
    with v(1) L show ?thesis by (simp add: weekday_pos month_days_def A mod_simps mod_eq_dvd_iff)
  next
    case False
    with v(1) L show ?thesis by (simp add: weekday_pos month_days_def A mod_simps mod_eq_dvd_iff)
  qed
  have dec: "get_weekday (y + 1) 1 1 = (get_weekday y 12 31 + 1) mod 7"
    using v(1) by (simp add: weekday_pos A mod_simps mod_eq_dvd_iff)
  have rest: "get_weekday y (m + 1) 1 = (get_weekday y m (month_days y m) + 1) mod 7" if "m \<noteq> 2" "m \<noteq> 12"
    using m that v(1)
    by (elim disjE) (simp_all add: weekday_pos month_days_def A mod_simps mod_eq_dvd_iff)
  show ?thesis
  proof (cases "m = 2 \<or> m = 12")
    case True
    then show ?thesis using feb dec n v(4) by (auto simp: month_days_def)
  next
    case False
    then show ?thesis using rest n v(3,4) by simp
  qed
qed

lemma next_valid: "valid_date x \<Longrightarrow> valid_date (next_day x)"
  by (auto simp: valid_date_def next_day_def month_days_def split: prod.splits)

lemma weekday_from_anchor:
  "(next_day ^^ n) (2000, 1, 1) = (y, m, d) \<Longrightarrow>
     valid_date (y, m, d) \<and> get_weekday y m d = (5 + int n) mod 7"
proof (induction n arbitrary: y m d)
  case 0
  then show ?case by (auto simp: valid_date_def month_days_def get_weekday_def)
next
  case (Suc n)
  obtain y0 m0 d0 where p: "(next_day ^^ n) (2000, 1, 1) = (y0, m0, d0)" by (metis prod_cases3)
  from Suc.IH[OF p] have ih: "valid_date (y0, m0, d0)" "get_weekday y0 m0 d0 = (5 + int n) mod 7" by simp_all
  have n: "next_day (y0, m0, d0) = (y, m, d)" using Suc.prems p by simp
  from weekday_next_day[OF ih(1) n] next_valid[OF ih(1)] n ih(2) show ?case by (simp add: mod_simps)
qed

text \<open>One wrong byte changes the checksum.\<close>

lemma calcrc_single_byte:
  assumes "i < n" "n \<le> length xs" "b \<noteq> xs ! i"
  shows "calcrc (xs[i := b]) n \<noteq> calcrc xs n"
proof
  assume "calcrc (xs[i := b]) n = calcrc xs n"
  then have e: "fold crc_byte ((take n xs)[i := b]) 0 = fold crc_byte (take n xs) 0"
    using assms(1,2) by (simp add: calcrc_def take_update_swap)
  define ys us vs c where "ys = take n xs" and "us = take i (take n xs)" and "vs = drop (Suc i) (take n xs)" and "c = xs ! i"
  have i: "i < length ys" "ys ! i = c" using assms(1,2) by (simp_all add: ys_def c_def)
  have "take n xs = us @ c # vs"
    using id_take_nth_drop[OF i(1)] i(2) by (simp add: ys_def us_def vs_def)
  moreover have "(take n xs)[i := b] = us @ b # vs"
    using upd_conv_take_nth_drop[OF i(1), of b] by (simp add: ys_def us_def vs_def)
  ultimately have "fold crc_byte vs (crc_byte b (fold crc_byte us 0)) = fold crc_byte vs (crc_byte c (fold crc_byte us 0))"
    using e by simp
  from crc_byte_inj_byte[OF crc_fold_inj[OF this]] assms(3) show False by (simp add: c_def)
qed

end
