(* ===== verification/Boot_flash.thy ===== *)
theory Boot_flash
  imports Prelude
begin

text \<open>
  The flash of the boot loader: \<open>TP79_BOOT/Src/drv/flash.c\<close> on the driver functions of
  \<open>Libraries/src/stm32f10x_flash.c\<close>.

  The flash controller is hardware and a parameter: \<open>hw_program a v\<close> programs the half word at \<open>a\<close>,
  \<open>hw_erase a\<close> erases the page of \<open>a\<close>, and both give the new contents and the status the controller
  reports when it is done (the driver waits for that; its time limit is not modelled). Error flags stay
  set until they are cleared, and a locked controller ignores commands. \<open>chip_ok\<close> collects what the
  reference manual promises of the controller; only the theorems that need it assume it.
\<close>

section \<open>The controller and its state\<close>

datatype FLASH_Status = FLASH_ERROR_PG | FLASH_ERROR_WRP | FLASH_COMPLETE

type_synonym mem = "u32 \<Rightarrow> u8"

record flash_hw =
  hw_program :: "u32 \<Rightarrow> u16 \<Rightarrow> mem \<Rightarrow> mem \<times> FLASH_Status"
  hw_erase :: "u32 \<Rightarrow> mem \<Rightarrow> mem \<times> FLASH_Status"

record flash =
  fl_mem :: mem
  fl_pgerr :: bool
  fl_wrprterr :: bool
  fl_locked :: bool

definition fl_result :: "mem \<times> FLASH_Status \<Rightarrow> flash \<Rightarrow> flash" where
  "fl_result r f = f\<lparr>fl_mem := fst r, fl_pgerr := fl_pgerr f \<or> snd r = FLASH_ERROR_PG,
     fl_wrprterr := fl_wrprterr f \<or> snd r = FLASH_ERROR_WRP\<rparr>"

definition write16 :: "flash_hw \<Rightarrow> u32 \<Rightarrow> u16 \<Rightarrow> flash \<Rightarrow> flash" where
  "write16 hw a v f = (if fl_locked f then f else fl_result (hw_program hw a v (fl_mem f)) f)"

definition start_erase :: "flash_hw \<Rightarrow> u32 \<Rightarrow> flash \<Rightarrow> flash" where
  "start_erase hw a f = (if fl_locked f then f else fl_result (hw_erase hw a (fl_mem f)) f)"

section \<open>The driver library\<close>

definition FLASH_GetBank1Status :: "flash \<Rightarrow> FLASH_Status" where
  "FLASH_GetBank1Status f =
     (if fl_pgerr f then FLASH_ERROR_PG else if fl_wrprterr f then FLASH_ERROR_WRP else FLASH_COMPLETE)"

definition FLASH_WaitForLastOperation :: "flash \<Rightarrow> FLASH_Status" where
  "FLASH_WaitForLastOperation f = FLASH_GetBank1Status f"

definition FLASH_Unlock :: "flash \<Rightarrow> flash" where
  "FLASH_Unlock f = f\<lparr>fl_locked := False\<rparr>"

definition FLASH_Lock :: "flash \<Rightarrow> flash" where
  "FLASH_Lock f = f\<lparr>fl_locked := True\<rparr>"

text \<open>All callers clear the flags \<open>BSY\<close>, \<open>EOP\<close> and \<open>PGERR\<close>, so that a write protection error stays set.\<close>

definition FLASH_ClearFlag :: "flash \<Rightarrow> flash" where
  "FLASH_ClearFlag f = f\<lparr>fl_pgerr := False\<rparr>"

definition FLASH_ErasePage :: "flash_hw \<Rightarrow> u32 \<Rightarrow> flash \<Rightarrow> flash" where
  "FLASH_ErasePage hw Page_Address f =
     (if FLASH_WaitForLastOperation f = FLASH_COMPLETE then start_erase hw Page_Address f else f)"

definition FLASH_ProgramWord :: "flash_hw \<Rightarrow> u32 \<Rightarrow> u32 \<Rightarrow> flash \<Rightarrow> flash" where
  "FLASH_ProgramWord hw Address Data f =
     (if FLASH_WaitForLastOperation f = FLASH_COMPLETE
      then let f1 = write16 hw Address (ucast Data) f
           in if FLASH_WaitForLastOperation f1 = FLASH_COMPLETE
              then write16 hw (Address + 2) (ucast (drop_bit 16 Data)) f1 else f1
      else f)"

section \<open>Reading\<close>

text \<open>A 32-bit load, and the four bytes of a \<open>uint32_t\<close> variable; the target is little endian.\<close>

definition bytes_le :: "u32 \<Rightarrow> u8 list" where
  "bytes_le w = [ucast w, ucast (drop_bit 8 w), ucast (drop_bit 16 w), ucast (drop_bit 24 w)]"

definition word_le :: "u8 \<Rightarrow> u8 \<Rightarrow> u8 \<Rightarrow> u8 \<Rightarrow> u32" where
  "word_le a b c d = ucast a + push_bit 8 (ucast b) + push_bit 16 (ucast c) + push_bit 24 (ucast d)"

definition load32 :: "mem \<Rightarrow> u32 \<Rightarrow> u32" where
  "load32 m a = word_le (m a) (m (a + 1)) (m (a + 2)) (m (a + 3))"

text \<open>The loop of \<open>Flash_Read\<close> takes the bytes of each word from the most significant one.\<close>

function Flash_Read :: "u32 \<Rightarrow> nat \<Rightarrow> mem \<Rightarrow> u8 list" where
  "Flash_Read Address Size m =
     (let Data32 = load32 m Address;
          word = map (\<lambda>i. ucast (drop_bit (8 * (3 - i)) Data32)) [0, 1, 2, 3]
      in if Size < 4 then take Size word else word @ Flash_Read (Address + 4) (Size - 4) m)"
  by pat_completeness auto
termination by (relation "measure (\<lambda>(_, n, _). n)") auto

declare Flash_Read.simps [simp del]

definition Flash_Read_for_download :: "u32 \<Rightarrow> nat \<Rightarrow> mem \<Rightarrow> u8 list" where
  "Flash_Read_for_download StartAddr Size m = map (\<lambda>i. m (StartAddr + word_of_nat i)) [0..<Size]"

section \<open>Erasing and writing\<close>

text \<open>The loop counter is a \<open>uint8_t\<close>: from 256 pages on the loop does not end.\<close>

definition Flash_Erase :: "flash_hw \<Rightarrow> u32 \<Rightarrow> nat \<Rightarrow> flash \<Rightarrow> flash option" where
  "Flash_Erase hw StartAddr Size f =
     (if Size div 0x800 < 256
      then Some (FLASH_Lock (fold (\<lambda>i. FLASH_ErasePage hw (StartAddr + word_of_nat i * 0x800))
                   [0..<Size div 0x800] (FLASH_ClearFlag (FLASH_Unlock f))))
      else None)"

fun write_words :: "flash_hw \<Rightarrow> u32 \<Rightarrow> u8 list \<Rightarrow> nat \<Rightarrow> flash \<Rightarrow> flash option" where
  "write_words hw a Data 0 f = Some f"
| "write_words hw a (b0 # b1 # b2 # b3 # Data) (Suc n) f =
     write_words hw (a + 4) Data n (FLASH_ProgramWord hw a (word_le b0 b1 b2 b3) f)"
| "write_words hw a _ (Suc n) f = None"

definition Flash_Write :: "flash_hw \<Rightarrow> u32 \<Rightarrow> u8 list \<Rightarrow> nat \<Rightarrow> flash \<Rightarrow> flash option" where
  "Flash_Write hw StartAddr Data Size f =
     map_option FLASH_Lock
       (write_words hw StartAddr Data ((Size + 3) div 4) (FLASH_ClearFlag (FLASH_Unlock f)))"

section \<open>Updating in place\<close>

abbreviation (input) FLASH_ADDR_RESERVE :: u32 where "FLASH_ADDR_RESERVE \<equiv> 0x0807D000"
abbreviation (input) FLASH_ADDR_BOOT_FLAG :: u32 where "FLASH_ADDR_BOOT_FLAG \<equiv> 0x0807D800"
abbreviation (input) FLASH_ADDR_USER_START :: u32 where "FLASH_ADDR_USER_START \<equiv> 0x0807E000"

text \<open>\<open>Data32\<close> after \<open>Flash_Read(a, &Data32, 4)\<close>.\<close>

definition read_word :: "mem \<Rightarrow> u32 \<Rightarrow> u32" where
  "read_word m a = (case Flash_Read a 4 m of [b0, b1, b2, b3] \<Rightarrow> word_le b0 b1 b2 b3 | _ \<Rightarrow> 0)"

definition save_word :: "flash_hw \<Rightarrow> u32 \<Rightarrow> nat \<Rightarrow> flash \<Rightarrow> flash" where
  "save_word hw page i f =
     FLASH_ProgramWord hw (FLASH_ADDR_RESERVE + word_of_nat i * 4)
       (read_word (fl_mem f) (page + word_of_nat i * 4)) f"

definition merge_word :: "flash_hw \<Rightarrow> u32 \<Rightarrow> u8 list \<Rightarrow> nat \<Rightarrow> nat \<Rightarrow> flash option \<Rightarrow> flash option" where
  "merge_word hw StartAddr Data Size k r = do {
     f \<leftarrow> r;
     let i = 4 * k;
     let off = unat StartAddr mod 0x800;
     let page = StartAddr div 0x800 * 0x800;
     Data32 \<leftarrow> (if off \<le> i \<and> i < off + Size
       then (let j = (i - off) div 4 * 4 in
             case take 4 (drop j Data) of [b0, b1, b2, b3] \<Rightarrow> Some (word_le b0 b1 b2 b3) | _ \<Rightarrow> None)
       else Some (read_word (fl_mem f) (FLASH_ADDR_RESERVE + word_of_nat i)));
     Some (FLASH_ProgramWord hw (page + word_of_nat i) Data32 f) }"

definition Flash_Updata :: "flash_hw \<Rightarrow> u32 \<Rightarrow> u8 list \<Rightarrow> u32 \<Rightarrow> flash \<Rightarrow> flash option" where
  "Flash_Updata hw StartAddr Data Size f =
     (let EndAddr = StartAddr + Size;
          PageStart = StartAddr div 0x800;
          PageEnd = (EndAddr - 1) div 0x800;
          f0 = FLASH_ClearFlag (FLASH_Unlock f);
          f1 = fold (\<lambda>_. FLASH_ErasePage hw FLASH_ADDR_RESERVE) [0..<unat (PageEnd - PageStart + 1)] f0
      in if PageEnd = PageStart
         then map_option FLASH_Lock
           (fold (merge_word hw StartAddr Data (unat Size)) [0..<0x200]
             (Some (FLASH_ErasePage hw StartAddr (fold (save_word hw (StartAddr div 0x800 * 0x800)) [0..<0x200] f1))))
         else Some (FLASH_Lock f1))"

section \<open>What the controller promises\<close>

text \<open>A command changes nothing outside the half word or page it names.\<close>

definition chip_local :: "flash_hw \<Rightarrow> bool" where
  "chip_local hw \<longleftrightarrow>
     (\<forall>a v m p. p \<noteq> a \<and> p \<noteq> a + 1 \<longrightarrow> fst (hw_program hw a v m) p = m p) \<and>
     (\<forall>a m p. p div 0x800 \<noteq> a div 0x800 \<longrightarrow> fst (hw_erase hw a m) p = m p)"

text \<open>
  No page is write protected, an erased half word takes the value programmed, and an erased page reads as
  ones.
\<close>

definition chip_ok :: "flash_hw \<Rightarrow> bool" where
  "chip_ok hw \<longleftrightarrow> chip_local hw \<and> (\<forall>a v m. snd (hw_program hw a v m) \<noteq> FLASH_ERROR_WRP) \<and>
     (\<forall>a v m. m a = 0xFF \<and> m (a + 1) = 0xFF \<longrightarrow>
        hw_program hw a v m = (m(a := ucast v, a + 1 := ucast (drop_bit 8 v)), FLASH_COMPLETE)) \<and>
     (\<forall>a m. hw_erase hw a m = ((\<lambda>p. if p div 0x800 = a div 0x800 then 0xFF else m p), FLASH_COMPLETE))"

text \<open>A chip that keeps these promises: programming a half word that is not erased fails unless it clears it.\<close>

definition nor_chip :: flash_hw where
  "nor_chip = \<lparr>
     hw_program = (\<lambda>a v m. if m a = 0xFF \<and> m (a + 1) = 0xFF \<or> v = 0
       then (m(a := ucast v, a + 1 := ucast (drop_bit 8 v)), FLASH_COMPLETE) else (m, FLASH_ERROR_PG)),
     hw_erase = (\<lambda>a m. ((\<lambda>p. if p div 0x800 = a div 0x800 then 0xFF else m p), FLASH_COMPLETE))\<rparr>"

lemma nor_chip_ok: "chip_ok nor_chip" "chip_local nor_chip"
  by (auto simp: chip_ok_def chip_local_def nor_chip_def)

section \<open>Words and bytes\<close>

lemma unat_word_le:
  "unat (word_le a b c d) = unat a + 256 * unat b + 65536 * unat c + 16777216 * unat d"
proof -
  have l: "unat x < 256" for x :: u8 using unsigned_less[of x, where 'a=nat] by simp
  have u: "unat (ucast x :: u32) = unat x" for x :: u8 by (simp add: unsigned_ucast_eq take_bit_nat_eq_self order.strict_trans[OF l])
  have p: "unat (push_bit 8 (ucast x :: u32)) = unat x * 2 ^ 8" "unat (push_bit 16 (ucast x :: u32)) = unat x * 2 ^ 16"
    "unat (push_bit 24 (ucast x :: u32)) = unat x * 2 ^ 24" for x :: u8
    using l[of x] by (simp_all add: push_bit_eq_mult unat_word_ariths u)
  have la: "unat a < 256" "unat b < 256" "unat c < 256" "unat d < 256" by (rule l)+
  have "unat a + unat b * 2 ^ 8 + unat c * 2 ^ 16 + unat d * 2 ^ 24 < 2 ^ 32" using la by simp
  then show ?thesis using la unfolding word_le_def
    by (simp add: unat_word_ariths p[simplified] u)
qed

lemma digits256:
  fixes a b c d :: nat
  assumes "a < 256" "b < 256" "c < 256" "d < 256"
  shows "(a + 256 * b + 65536 * c + 16777216 * d) mod 256 = a"
    "(a + 256 * b + 65536 * c + 16777216 * d) div 256 mod 256 = b"
    "(a + 256 * b + 65536 * c + 16777216 * d) div 65536 mod 256 = c"
    "(a + 256 * b + 65536 * c + 16777216 * d) div 16777216 mod 256 = d"
proof -
  have sm: "(p + q * 256) div 256 = q" "(p + q * 256) mod 256 = p" if "p < 256" for p q :: nat using that by simp_all
  define x where "x = c + d * 256"
  define y where "y = b + x * 256"
  have e: "a + 256 * b + 65536 * c + 16777216 * d = a + y * 256"
    "(65536 :: nat) = 256 * 256" "(16777216 :: nat) = 256 * (256 * 256)" by (simp_all add: x_def y_def)
  have "y div 256 = x" "y mod 256 = b" "x div 256 = d" "x mod 256 = c" using assms by (simp_all only: x_def y_def sm)
  then show "(a + 256 * b + 65536 * c + 16777216 * d) mod 256 = a"
    "(a + 256 * b + 65536 * c + 16777216 * d) div 256 mod 256 = b"
    "(a + 256 * b + 65536 * c + 16777216 * d) div 65536 mod 256 = c"
    "(a + 256 * b + 65536 * c + 16777216 * d) div 16777216 mod 256 = d"
    unfolding e(1) unfolding e(2,3) div_mult2_eq using assms by (simp_all only: sm mod_less)
qed

lemma word_le_bytes [simp]:
  "ucast (word_le a b c d) = a" "ucast (drop_bit 8 (word_le a b c d)) = b"
  "ucast (drop_bit 16 (word_le a b c d)) = c" "ucast (drop_bit 24 (word_le a b c d)) = d"
proof -
  have l: "unat x < 256" for x :: u8 using unsigned_less[of x, where 'a=nat] by simp
  have uc: "unat (ucast w :: u8) = unat w mod 256" for w :: u32 by (simp add: unsigned_ucast_eq take_bit_eq_mod)
  have dr: "unat (drop_bit 8 w) = unat w div 256" "unat (drop_bit 16 w) = unat w div 65536"
    "unat (drop_bit 24 w) = unat w div 16777216" for w :: u32
    by (simp_all add: drop_bit_eq_div unat_div)
  have la: "unat a < 256" "unat b < 256" "unat c < 256" "unat d < 256" by (rule l)+
  show "ucast (word_le a b c d) = a" "ucast (drop_bit 8 (word_le a b c d)) = b"
    "ucast (drop_bit 16 (word_le a b c d)) = c" "ucast (drop_bit 24 (word_le a b c d)) = d"
    unfolding word_unat_eq_iff uc dr unat_word_le using digits256[OF la] by simp_all
qed

lemma bytes_word_le [simp]: "bytes_le (word_le a b c d) = [a, b, c, d]"
  by (simp add: bytes_le_def)

text \<open>\<open>Flash_Read\<close> returns the bytes of each word in reverse.\<close>

fun rev4 :: "'a list \<Rightarrow> 'a list" where
  "rev4 (a # b # c # d # xs) = d # c # b # a # rev4 xs"
| "rev4 xs = xs"

lemma peek_4:
  "Flash_Read_for_download a (n + 4) m = m a # m (a + 1) # m (a + 2) # m (a + 3) # Flash_Read_for_download (a + 4) n m"
proof -
  have "[0..<n + 4] = [0..<4] @ map (\<lambda>i. i + 4) [0..<n]"
    using upt_add_eq_append[of 0 4 n] map_add_upt[of 4 n] by (simp add: add.commute)
  moreover have "[0..<4] = [0, 1, 2, 3 :: nat]" by (simp add: upt_rec)
  ultimately have "[0..<n + 4] = [0, 1, 2, 3] @ map (\<lambda>i. i + 4) [0..<n]" by simp
  then show ?thesis by (simp add: Flash_Read_for_download_def o_def ac_simps)
qed

lemma Flash_Read_rev4: "Flash_Read a (4 * k) m = rev4 (Flash_Read_for_download a (4 * k) m)"
proof (induction k arbitrary: a)
  case 0
  show ?case by (simp add: Flash_Read.simps Flash_Read_for_download_def)
next
  case (Suc k)
  have "Flash_Read a (4 * Suc k) m = m (a + 3) # m (a + 2) # m (a + 1) # m a # Flash_Read (a + 4) (4 * k) m"
    by (subst Flash_Read.simps) (simp add: load32_def)
  then show ?case using Suc.IH[of "a + 4"] peek_4[of a "4 * k" m] by (simp add: add.commute)
qed

lemma read_word_eq: "read_word m a = word_le (m (a + 3)) (m (a + 2)) (m (a + 1)) (m a)"
  using Flash_Read_rev4[of a 1 m] peek_4[of a 0 m] by (simp add: read_word_def Flash_Read_for_download_def)

section \<open>Programming\<close>

definition fl_ready :: "flash \<Rightarrow> bool" where
  "fl_ready f \<longleftrightarrow> \<not> fl_locked f \<and> \<not> fl_pgerr f \<and> \<not> fl_wrprterr f"

lemma unat_lt_4: "unat (x :: u32) < 4 \<longleftrightarrow> x = 0 \<or> x = 1 \<or> x = 2 \<or> x = 3"
proof -
  have "unat x < 4 \<longleftrightarrow> unat x = 0 \<or> unat x = 1 \<or> unat x = 2 \<or> unat x = 3" by linarith
  then show ?thesis by (auto simp: word_unat_eq_iff)
qed

lemma high_byte: "ucast (drop_bit 8 (ucast (drop_bit 16 d) :: u16)) = (ucast (drop_bit 24 (d :: u32)) :: u8)"
  by (rule bit_word_eqI) (simp add: bit_simps)

lemma low_byte: "ucast (drop_bit 8 (ucast d :: u16)) = (ucast (drop_bit 8 (d :: u32)) :: u8)"
  by (rule bit_word_eqI) (simp add: bit_simps)

lemma lowest_byte: "ucast (ucast d :: u16) = (ucast (d :: u32) :: u8)"
  by (rule bit_word_eqI) (simp add: bit_simps)

lemma program_erased:
  assumes "chip_ok hw" "fl_ready f" "\<And>p. unat (p - a) < 4 \<Longrightarrow> fl_mem f p = 0xFF"
  shows "FLASH_ProgramWord hw a d f =
    f\<lparr>fl_mem := (\<lambda>p. if unat (p - a) < 4 then bytes_le d ! unat (p - a) else fl_mem f p)\<rparr>"
proof -
  let ?m = "(fl_mem f)(a := ucast d, a + 1 := ucast (drop_bit 8 d))"
  have e: "fl_mem f a = 0xFF" "fl_mem f (a + 1) = 0xFF" "fl_mem f (a + 2) = 0xFF" "fl_mem f (a + 3) = 0xFF"
    using assms(3)[of a] assms(3)[of "a + 1"] assms(3)[of "a + 2"] assms(3)[of "a + 3"] by simp_all
  have p: "m a = 0xFF \<Longrightarrow> m (a + 1) = 0xFF \<Longrightarrow>
      hw_program hw a v m = (m(a := ucast v, a + 1 := ucast (drop_bit 8 v)), FLASH_COMPLETE)" for a v m
    using assms(1) by (simp add: chip_ok_def)
  have lo: "hw_program hw a (ucast d) (fl_mem f) = (?m, FLASH_COMPLETE)"
    using p[of "fl_mem f" a "ucast d"] e low_byte[of d] lowest_byte[of d] by simp
  have hi: "hw_program hw (a + 2) (ucast (drop_bit 16 d)) ?m =
      (?m(a + 2 := ucast (drop_bit 16 d), a + 2 + 1 := ucast (drop_bit 24 d)), FLASH_COMPLETE)"
    using p[of ?m "a + 2" "ucast (drop_bit 16 d)"] e high_byte[of d] lowest_byte[of "drop_bit 16 d"] by (simp add: add.assoc)
  have "FLASH_ProgramWord hw a d f = f\<lparr>fl_mem := ?m(a + 2 := ucast (drop_bit 16 d), a + 2 + 1 := ucast (drop_bit 24 d))\<rparr>"
    using assms(2) lo hi
    by (simp add: FLASH_ProgramWord_def write16_def fl_result_def fl_ready_def
        FLASH_WaitForLastOperation_def FLASH_GetBank1Status_def)
  also have "?m(a + 2 := ucast (drop_bit 16 d), a + 2 + 1 := ucast (drop_bit 24 d)) =
     (\<lambda>p. if unat (p - a) < 4 then bytes_le d ! unat (p - a) else fl_mem f p)"
  proof
    fix p
    have k: "p = a \<longleftrightarrow> p - a = 0" "p = a + 1 \<longleftrightarrow> p - a = 1" "p = a + 2 \<longleftrightarrow> p - a = 2" "p = a + 2 + 1 \<longleftrightarrow> p - a = 3"
      by (simp_all add: diff_eq_eq add.commute)
    have ne: "(0 :: u32) \<noteq> 1" "(0 :: u32) \<noteq> 2" "(0 :: u32) \<noteq> 3" "(1 :: u32) \<noteq> 2" "(1 :: u32) \<noteq> 3" "(2 :: u32) \<noteq> 3"
      "unat (0 :: u32) = 0" "unat (1 :: u32) = 1" "unat (2 :: u32) = 2" "unat (3 :: u32) = 3"
      by simp_all
    show "(?m(a + 2 := ucast (drop_bit 16 d), a + 2 + 1 := ucast (drop_bit 24 d))) p =
      (if unat (p - a) < 4 then bytes_le d ! unat (p - a) else fl_mem f p)"
      unfolding fun_upd_apply k unat_lt_4 bytes_le_def using ne
      by (cases "p - a = 0"; cases "p - a = 1"; cases "p - a = 2"; cases "p - a = 3")
        (simp_all add: eval_nat_numeral)
  qed
  finally show ?thesis .
qed

lemma unat_minus_4: "unat (x - 4 :: u32) = (if 4 \<le> unat x then unat x - 4 else unat x + 2 ^ 32 - 4)"
  by (simp add: unat_sub_if' word_le_nat_alt)

lemma write_words_erased:
  assumes "chip_ok hw" "fl_ready f" "4 * n \<le> length Data" "4 * n \<le> 2 ^ 32"
    and "\<And>p. unat (p - a) < 4 * n \<Longrightarrow> fl_mem f p = 0xFF"
  shows "write_words hw a Data n f =
    Some (f\<lparr>fl_mem := (\<lambda>p. if unat (p - a) < 4 * n then Data ! unat (p - a) else fl_mem f p)\<rparr>)"
  using assms(2-5)
proof (induction n arbitrary: a Data f)
  case 0
  then show ?case by simp
next
  case (Suc n)
  then obtain b0 b1 b2 b3 D where D: "Data = b0 # b1 # b2 # b3 # D"
    by (cases Data rule: rev4.cases) auto
  let ?m = "\<lambda>p. if unat (p - a) < 4 then bytes_le (word_le b0 b1 b2 b3) ! unat (p - a) else fl_mem f p"
  have w: "FLASH_ProgramWord hw a (word_le b0 b1 b2 b3) f = f\<lparr>fl_mem := ?m\<rparr>"
    by (rule program_erased) (use assms(1) Suc.prems in auto)
  have off: "unat (p - (a + 4)) = (if 4 \<le> unat (p - a) then unat (p - a) - 4 else unat (p - a) + 2 ^ 32 - 4)" for p
  proof -
    have e: "p - (a + 4) = (p - a) - 4" by (simp only: diff_diff_eq)
    show ?thesis unfolding e by (rule unat_minus_4)
  qed
  define g where "g = f\<lparr>fl_mem := ?m\<rparr>"
  have gm: "fl_mem g = ?m" by (simp add: g_def)
  have erased: "fl_mem g p = 0xFF" if "unat (p - (a + 4)) < 4 * n" for p
    using that off[of p] Suc.prems(3,4) by (auto simp: g_def split: if_splits)
  have "write_words hw (a + 4) D n g = Some (g\<lparr>fl_mem :=
      (\<lambda>p. if unat (p - (a + 4)) < 4 * n then D ! unat (p - (a + 4)) else fl_mem g p)\<rparr>)"
    by (rule Suc.IH[OF _ _ _ erased]) (use Suc.prems D in \<open>simp_all add: fl_ready_def g_def\<close>)
  then have "write_words hw (a + 4) D n g = Some (f\<lparr>fl_mem :=
      (\<lambda>p. if unat (p - (a + 4)) < 4 * n then D ! unat (p - (a + 4)) else ?m p)\<rparr>)"
    unfolding gm by (simp add: g_def)
  moreover have "(\<lambda>p. if unat (p - (a + 4)) < 4 * n then D ! unat (p - (a + 4)) else ?m p) =
      (\<lambda>p. if unat (p - a) < 4 * Suc n then Data ! unat (p - a) else fl_mem f p)"
  proof
    fix p
    show "(if unat (p - (a + 4)) < 4 * n then D ! unat (p - (a + 4)) else ?m p) =
      (if unat (p - a) < 4 * Suc n then Data ! unat (p - a) else fl_mem f p)"
    proof (cases "4 \<le> unat (p - a)")
      case True
      then have "Data ! unat (p - a) = D ! (unat (p - a) - 4)" unfolding D by (auto simp: nth_Cons' numeral_eq_Suc)
      then show ?thesis using True off[of p] by auto
    next
      case False
      then have "unat (p - (a + 4)) = unat (p - a) + 2 ^ 32 - 4" using off[of p] by simp
      then have "\<not> unat (p - (a + 4)) < 4 * n" using Suc.prems(3) by simp
      moreover have "Data ! unat (p - a) = [b0, b1, b2, b3] ! unat (p - a)"
        using False D nth_append[of "[b0, b1, b2, b3]" D "unat (p - a)"] by simp
      ultimately show ?thesis using False by simp
    qed
  qed
  ultimately have "write_words hw (a + 4) D n g = Some (f\<lparr>fl_mem :=
      (\<lambda>p. if unat (p - a) < 4 * Suc n then Data ! unat (p - a) else fl_mem f p)\<rparr>)" by (simp only:)
  then show ?case unfolding D write_words.simps w g_def[symmetric] .
qed

section \<open>Pages\<close>

lemma unat_off:
  assumes "m < 2 ^ 32"
  shows "unat (p - (a + word_of_nat m) :: u32) =
    (if m \<le> unat (p - a) then unat (p - a) - m else unat (p - a) + 2 ^ 32 - m)"
proof -
  have e: "p - (a + word_of_nat m) = (p - a) - word_of_nat m" by (simp only: diff_diff_eq)
  have "unat (word_of_nat m :: u32) = m" by (rule unat_of_nat_small) (use assms in simp)
  then show ?thesis unfolding e by (simp add: unat_sub_if' word_le_nat_alt)
qed

lemma unat_div_2048: "unat (p div 0x800 :: u32) = unat p div 2048"
  by (simp add: unat_div)

lemma page_iff:
  assumes "unat (base :: u32) mod 2048 = 0"
  shows "p div 0x800 = base div 0x800 \<longleftrightarrow> unat (p - base) < 2048"
proof -
  have b: "unat base < 2 ^ 32" "unat p < 2 ^ 32" using unsigned_less[of base, where 'a=nat] unsigned_less[of p, where 'a=nat] by simp_all
  obtain k where k: "unat base = 2048 * k" using assms by (metis mod_eq_0_iff_dvd dvd_def)
  have "p div 0x800 = base div 0x800 \<longleftrightarrow> unat p div 2048 = k"
    unfolding word_unat_eq_iff unat_div_2048 k by simp
  also have "\<dots> \<longleftrightarrow> 2048 * k \<le> unat p \<and> unat p < 2048 * k + 2048" by (auto simp: div_nat_eqI) linarith?
  also have "\<dots> \<longleftrightarrow> unat (p - base) < 2048"
    using b k by (auto simp: unat_sub_if' word_le_nat_alt)
  finally show ?thesis .
qed

lemma erase_ready:
  assumes "chip_ok hw" "fl_ready f"
  shows "FLASH_ErasePage hw a f = f\<lparr>fl_mem := (\<lambda>p. if p div 0x800 = a div 0x800 then 0xFF else fl_mem f p)\<rparr>"
  using assms by (simp add: FLASH_ErasePage_def start_erase_def fl_result_def fl_ready_def chip_ok_def
      FLASH_WaitForLastOperation_def FLASH_GetBank1Status_def)

section \<open>Updating in place, verified\<close>

definition flip4 :: "nat \<Rightarrow> nat" where
  "flip4 q = q div 4 * 4 + (3 - q mod 4)"

lemma flip4_simps:
  "flip4 (4 * n) = 4 * n + 3" "flip4 (4 * n + 1) = 4 * n + 2" "flip4 (4 * n + 2) = 4 * n + 1" "flip4 (4 * n + 3) = 4 * n"
proof -
  have e: "(4 * n + k) div 4 = n" "(4 * n + k) mod 4 = k" if "k < 4" for k :: nat using that by simp_all
  show "flip4 (4 * n) = 4 * n + 3" "flip4 (4 * n + 1) = 4 * n + 2" "flip4 (4 * n + 2) = 4 * n + 1" "flip4 (4 * n + 3) = 4 * n"
    using e[of 0] e[of 1] e[of 2] e[of 3] unfolding flip4_def by simp_all
qed

lemma lt_4: "k < (4 :: nat) \<longleftrightarrow> k = 0 \<or> k = 1 \<or> k = 2 \<or> k = 3"
  by linarith

text \<open>One programmed word at offset \<open>4 * n\<close> of a region, in terms of offsets.\<close>

lemma program_at:
  assumes "chip_ok hw" "fl_ready g" "4 * n + 4 \<le> 2 ^ 32"
    and "\<And>p. 4 * n \<le> unat (p - base) \<Longrightarrow> unat (p - base) < 4 * n + 4 \<Longrightarrow> fl_mem g p = 0xFF"
  shows "FLASH_ProgramWord hw (base + word_of_nat (4 * n)) d g =
    g\<lparr>fl_mem := (\<lambda>p. if 4 * n \<le> unat (p - base) \<and> unat (p - base) < 4 * n + 4
                     then bytes_le d ! (unat (p - base) - 4 * n) else fl_mem g p)\<rparr>"
proof -
  have o: "unat (p - (base + word_of_nat (4 * n))) < 4 \<longleftrightarrow> 4 * n \<le> unat (p - base) \<and> unat (p - base) < 4 * n + 4"
    "unat (p - (base + word_of_nat (4 * n))) < 4 \<Longrightarrow> unat (p - (base + word_of_nat (4 * n))) = unat (p - base) - 4 * n" for p
    using unat_off[of "4 * n" p base] assms(3) by (auto split: if_splits)
  have "fl_mem g p = 0xFF" if "unat (p - (base + word_of_nat (4 * n))) < 4" for p
    using assms(4)[of p] o that by simp
  from program_erased[OF assms(1,2) this, where d=d]
  have A: "FLASH_ProgramWord hw (base + word_of_nat (4 * n)) d g = g\<lparr>fl_mem :=
    (\<lambda>p. if unat (p - (base + word_of_nat (4 * n))) < 4 then bytes_le d ! unat (p - (base + word_of_nat (4 * n))) else fl_mem g p)\<rparr>" .
  have E: "(\<lambda>p. if unat (p - (base + word_of_nat (4 * n))) < 4 then bytes_le d ! unat (p - (base + word_of_nat (4 * n))) else fl_mem g p)
     = (\<lambda>p. if 4 * n \<le> unat (p - base) \<and> unat (p - base) < 4 * n + 4
                     then bytes_le d ! (unat (p - base) - 4 * n) else fl_mem g p)"
    by (rule ext) (simp only: o cong: if_cong)
  show ?thesis using A unfolding E .
qed

text \<open>Filling a region word by word.\<close>

lemma fill_step:
  assumes "chip_ok hw" "fl_ready f" "4 * n + 4 \<le> 2048"
    and g: "g = f\<lparr>fl_mem := (\<lambda>p. if unat (p - base) < 4 * n then v (unat (p - base)) else fl_mem f p)\<rparr>"
    and er: "\<And>p. unat (p - base) < 2048 \<Longrightarrow> fl_mem f p = 0xFF"
    and d: "bytes_le d = [v (4 * n), v (4 * n + 1), v (4 * n + 2), v (4 * n + 3)]"
  shows "FLASH_ProgramWord hw (base + word_of_nat (4 * n)) d g =
    f\<lparr>fl_mem := (\<lambda>p. if unat (p - base) < 4 * Suc n then v (unat (p - base)) else fl_mem f p)\<rparr>"
proof -
  have r: "fl_ready g" using assms(2) by (simp add: g fl_ready_def)
  have "fl_mem g p = 0xFF" if "4 * n \<le> unat (p - base)" "unat (p - base) < 4 * n + 4" for p
    using that er[of p] assms(3) by (simp add: g)
  from program_at[OF assms(1) r _ this, where d=d] assms(3)
  have A: "FLASH_ProgramWord hw (base + word_of_nat (4 * n)) d g =
    g\<lparr>fl_mem := (\<lambda>p. if 4 * n \<le> unat (p - base) \<and> unat (p - base) < 4 * n + 4
                     then bytes_le d ! (unat (p - base) - 4 * n) else fl_mem g p)\<rparr>" by simp
  have gm: "fl_mem g p = (if unat (p - base) < 4 * n then v (unat (p - base)) else fl_mem f p)" for p by (simp add: g)
  have c: "(if 4 * n \<le> q \<and> q < 4 * n + 4 then bytes_le d ! (q - 4 * n) else if q < 4 * n then v q else x) =
      (if q < 4 * Suc n then v q else x)" for q x
  proof (cases "4 * n \<le> q \<and> q < 4 * n + 4")
    case True
    then obtain k where k: "q = 4 * n + k" "k < 4" by (metis add_less_cancel_left le_Suc_ex)
    from k(2) show ?thesis unfolding k(1) d lt_4 by (elim disjE) simp_all
  qed auto
  have E: "(\<lambda>p. if 4 * n \<le> unat (p - base) \<and> unat (p - base) < 4 * n + 4
                     then bytes_le d ! (unat (p - base) - 4 * n) else fl_mem g p) =
    (\<lambda>p. if unat (p - base) < 4 * Suc n then v (unat (p - base)) else fl_mem f p)"
    unfolding gm c ..
  have "g\<lparr>fl_mem := X\<rparr> = f\<lparr>fl_mem := X\<rparr>" for X by (simp add: g)
  then show ?thesis using A unfolding E by simp
qed

lemma save_fold:
  assumes ch: "chip_ok hw" and fr: "fl_ready f" and B: "unat B mod 2048 = 0" "B div 0x800 \<noteq> FLASH_ADDR_RESERVE div 0x800"
    and er: "\<And>p. unat (p - FLASH_ADDR_RESERVE) < 2048 \<Longrightarrow> fl_mem f p = 0xFF" and n: "n \<le> 0x200"
  shows "fold (save_word hw B) [0..<n] f = f\<lparr>fl_mem := (\<lambda>p. if unat (p - FLASH_ADDR_RESERVE) < 4 * n
     then fl_mem f (B + word_of_nat (flip4 (unat (p - FLASH_ADDR_RESERVE)))) else fl_mem f p)\<rparr>"
  using n
proof (induction n)
  case (Suc n)
  let ?v = "\<lambda>q. fl_mem f (B + word_of_nat (flip4 q))"
  define g where "g = f\<lparr>fl_mem := (\<lambda>p. if unat (p - FLASH_ADDR_RESERVE) < 4 * n
     then ?v (unat (p - FLASH_ADDR_RESERVE)) else fl_mem f p)\<rparr>"
  have out: "fl_mem g (B + word_of_nat x) = fl_mem f (B + word_of_nat x)" if "x < 2048" for x
  proof -
    have "(B + word_of_nat x) div 0x800 = B div 0x800"
      using that by (simp add: page_iff[OF B(1)] unat_of_nat_small)
    then have "\<not> unat (B + word_of_nat x - FLASH_ADDR_RESERVE) < 2048"
      using B(2) page_iff[of FLASH_ADDR_RESERVE "B + word_of_nat x"] by simp
    then show ?thesis using Suc.prems by (simp add: g_def)
  qed
  have a: "word_of_nat n * 4 = (word_of_nat (4 * n) :: u32)" by simp
  have "read_word (fl_mem g) (B + word_of_nat n * 4) = word_le (?v (4 * n)) (?v (4 * n + 1)) (?v (4 * n + 2)) (?v (4 * n + 3))"
  proof -
    have e: "B + word_of_nat (4 * n) + 1 = B + word_of_nat (4 * n + 1)" "B + word_of_nat (4 * n) + 2 = B + word_of_nat (4 * n + 2)"
      "B + word_of_nat (4 * n) + 3 = B + word_of_nat (4 * n + 3)" by simp_all
    have "4 * n + 3 < 2048" using Suc.prems by simp
    then show ?thesis unfolding read_word_eq flip4_simps a e by (simp only: out)
  qed
  then have "FLASH_ProgramWord hw (FLASH_ADDR_RESERVE + word_of_nat (4 * n)) (read_word (fl_mem g) (B + word_of_nat n * 4)) g =
    f\<lparr>fl_mem := (\<lambda>p. if unat (p - FLASH_ADDR_RESERVE) < 4 * Suc n then ?v (unat (p - FLASH_ADDR_RESERVE)) else fl_mem f p)\<rparr>"
    using Suc.prems by (intro fill_step[OF ch fr _ g_def er]) simp_all
  then have "save_word hw B n g = f\<lparr>fl_mem := (\<lambda>p. if unat (p - FLASH_ADDR_RESERVE) < 4 * Suc n
     then ?v (unat (p - FLASH_ADDR_RESERVE)) else fl_mem f p)\<rparr>"
    unfolding save_word_def a .
  moreover have "fold (save_word hw B) [0..<n] f = g" using Suc by (simp add: g_def)
  ultimately show ?case by simp
qed simp

text \<open>What the updated page holds at offset \<open>q\<close>.\<close>

definition updated :: "mem \<Rightarrow> u32 \<Rightarrow> nat \<Rightarrow> nat \<Rightarrow> u8 list \<Rightarrow> nat \<Rightarrow> u8" where
  "updated m B off sz Data q = (if off \<le> q \<and> q < off + sz then Data ! (q - off) else m (B + word_of_nat q))"

lemma aligned_split: "off mod 4 = 0 \<Longrightarrow> off \<le> 4 * n \<or> 4 * n + 4 \<le> (off :: nat)"
  by presburger

lemma take_4_nth: "j + 4 \<le> length xs \<Longrightarrow> take 4 (drop j xs) = [xs ! j, xs ! (j + 1), xs ! (j + 2), xs ! (j + 3)]"
  by (auto simp: list_eq_iff_nth_eq lt_4 less_Suc_eq numeral_eq_Suc)

lemma merge_fold:
  fixes a :: u32
  assumes B_def: "B = a div 0x800 * 0x800" and off_def: "off = unat a mod 0x800" and ch: "chip_ok hw" and fr: "fl_ready f" and B: "unat B mod 2048 = 0" "B div 0x800 \<noteq> FLASH_ADDR_RESERVE div 0x800"
    and er: "\<And>p. unat (p - B) < 2048 \<Longrightarrow> fl_mem f p = 0xFF"
    and sv: "\<And>x. x < 2048 \<Longrightarrow> fl_mem f (FLASH_ADDR_RESERVE + word_of_nat x) = m (B + word_of_nat (flip4 x))"
    and al: "off mod 4 = 0" "sz mod 4 = 0" "off + sz \<le> 2048" "sz \<le> length Data" and n: "n \<le> 0x200"
  shows "fold (merge_word hw a Data sz) [0..<n] (Some f) = Some (f\<lparr>fl_mem := (\<lambda>p. if unat (p - B) < 4 * n
     then updated m B off sz Data (unat (p - B)) else fl_mem f p)\<rparr>)"
  using n
proof (induction n)
  case (Suc n)
  let ?v = "updated m B off sz Data"
  define g where "g = f\<lparr>fl_mem := (\<lambda>p. if unat (p - B) < 4 * n then ?v (unat (p - B)) else fl_mem f p)\<rparr>"
  have out: "fl_mem g (FLASH_ADDR_RESERVE + word_of_nat x) = m (B + word_of_nat (flip4 x))" if "x < 2048" for x
  proof -
    have "(FLASH_ADDR_RESERVE + word_of_nat x) div 0x800 = FLASH_ADDR_RESERVE div 0x800"
      using that page_iff[of FLASH_ADDR_RESERVE "FLASH_ADDR_RESERVE + word_of_nat x"] by (simp add: unat_of_nat_small)
    then have "\<not> unat (FLASH_ADDR_RESERVE + word_of_nat x - B) < 2048"
      using B(2) page_iff[OF B(1), of "FLASH_ADDR_RESERVE + word_of_nat x"] by simp
    then show ?thesis using Suc.prems sv[OF that] by (simp add: g_def)
  qed
  have n4: "4 * n + 4 \<le> 2048" using Suc.prems by simp
  have d: "\<exists>d. bytes_le d = [?v (4 * n), ?v (4 * n + 1), ?v (4 * n + 2), ?v (4 * n + 3)] \<and>
      merge_word hw a Data sz n (Some g) = Some (FLASH_ProgramWord hw (B + word_of_nat (4 * n)) d g)"
  proof (cases "off \<le> 4 * n \<and> 4 * n < off + sz")
    case True
    have "(off + sz) mod 4 = 0" using al(1,2) mod_add_eq[of off 4 sz] by simp
    with True have in4: "4 * n + 4 \<le> off + sz" using aligned_split[of "off + sz" n] by linarith
    have j: "(4 * n - off) div 4 * 4 = 4 * n - off" using al(1) True by (simp add: mod_eq_0_iff_dvd dvd_diff_nat)
    have "4 * n - off + 4 \<le> length Data" using in4 al(4) True by linarith
    note t = take_4_nth[OF this]
    have s: "4 * n - off + k = 4 * n + k - off" for k using True by simp
    have v: "?v (4 * n) = Data ! (4 * n - off)" "?v (4 * n + 1) = Data ! (4 * n - off + 1)"
      "?v (4 * n + 2) = Data ! (4 * n - off + 2)" "?v (4 * n + 3) = Data ! (4 * n - off + 3)"
      unfolding updated_def s using in4 True by simp_all
    show ?thesis unfolding v
      by (rule exI[of _ "word_le (Data ! (4 * n - off)) (Data ! (4 * n - off + 1)) (Data ! (4 * n - off + 2)) (Data ! (4 * n - off + 3))"])
        (use True j t in \<open>simp add: merge_word_def Let_def B_def off_def\<close>)
  next
    case False
    have v: "?v (4 * n + k) = m (B + word_of_nat (4 * n + k))" if "k < 4" for k
      using False al aligned_split[of off n] that unfolding updated_def by auto
    have e: "FLASH_ADDR_RESERVE + word_of_nat (4 * n) + 1 = FLASH_ADDR_RESERVE + word_of_nat (4 * n + 1)"
      "FLASH_ADDR_RESERVE + word_of_nat (4 * n) + 2 = FLASH_ADDR_RESERVE + word_of_nat (4 * n + 2)"
      "FLASH_ADDR_RESERVE + word_of_nat (4 * n) + 3 = FLASH_ADDR_RESERVE + word_of_nat (4 * n + 3)" by simp_all
    have l: "4 * n < 2048" "4 * n + 1 < 2048" "4 * n + 2 < 2048" "4 * n + 3 < 2048" using n4 by simp_all
    have "read_word (fl_mem g) (FLASH_ADDR_RESERVE + word_of_nat (4 * n)) = word_le (?v (4 * n)) (?v (4 * n + 1)) (?v (4 * n + 2)) (?v (4 * n + 3))"
      using v[of 0] v[of 1] v[of 2] v[of 3] unfolding read_word_eq e out[OF l(1)] out[OF l(2)] out[OF l(3)] out[OF l(4)] flip4_simps by simp
    moreover have "merge_word hw a Data sz n (Some g) = Some (FLASH_ProgramWord hw (B + word_of_nat (4 * n))
        (read_word (fl_mem g) (FLASH_ADDR_RESERVE + word_of_nat (4 * n))) g)"
      using False by (auto simp: merge_word_def Let_def B_def off_def)
    ultimately have "merge_word hw a Data sz n (Some g) = Some (FLASH_ProgramWord hw (B + word_of_nat (4 * n))
        (word_le (?v (4 * n)) (?v (4 * n + 1)) (?v (4 * n + 2)) (?v (4 * n + 3))) g)" by (simp only:)
    then show ?thesis by (intro exI conjI) (rule bytes_word_le)
  qed
  then obtain d where d: "bytes_le d = [?v (4 * n), ?v (4 * n + 1), ?v (4 * n + 2), ?v (4 * n + 3)]"
    "merge_word hw a Data sz n (Some g) = Some (FLASH_ProgramWord hw (B + word_of_nat (4 * n)) d g)" by blast
  have "fold (merge_word hw a Data sz) [0..<n] (Some f) = Some g" using Suc by (simp add: g_def)
  moreover have "FLASH_ProgramWord hw (B + word_of_nat (4 * n)) d g =
    f\<lparr>fl_mem := (\<lambda>p. if unat (p - B) < 4 * Suc n then ?v (unat (p - B)) else fl_mem f p)\<rparr>"
    by (rule fill_step[OF ch fr n4 g_def er d(1)])
  ultimately show ?case using d(2) by simp
qed simp

text \<open>An update inside one page that is not the reserve page: the data is written, the rest of the page is
  kept, and outside the page only the reserve page changes.\<close>

lemma Flash_Updata_page:
  fixes a sz :: u32
  assumes ch: "chip_ok hw" and wp: "\<not> fl_wrprterr f"
    and al: "unat a mod 4 = 0" "unat sz mod 4 = 0" "0 < unat sz" "unat a mod 2048 + unat sz \<le> 2048"
    and len: "unat sz \<le> length Data" and pg: "a div 0x800 \<noteq> FLASH_ADDR_RESERVE div 0x800"
  shows "\<exists>f'. Flash_Updata hw a Data sz f = Some f' \<and> \<not> fl_wrprterr f' \<and> \<not> fl_pgerr f' \<and> fl_locked f' \<and>
    (\<forall>p. p div 0x800 \<noteq> FLASH_ADDR_RESERVE div 0x800 \<longrightarrow>
       fl_mem f' p = (if unat (p - a) < unat sz then Data ! unat (p - a) else fl_mem f p))"
proof -
  let ?R = "FLASH_ADDR_RESERVE"
  define B where "B = a div 0x800 * 0x800"
  define off where "off = unat a mod 0x800"
  have la: "unat a < 2 ^ 32" using unsigned_less[of a, where 'a=nat] by simp
  have uB: "unat B = unat a div 2048 * 2048"
    using la by (simp add: B_def unat_word_ariths unat_div)
  have aB: "a = B + word_of_nat off"
    unfolding word_unat_eq_iff off_def using uB la by (simp add: unat_word_ariths unat_of_nat_small)
  have B0: "unat B mod 2048 = 0" unfolding uB by simp
  have Ba: "B div 0x800 = a div 0x800" unfolding word_unat_eq_iff unat_div_2048 uB by simp
  then have BR: "B div 0x800 \<noteq> ?R div 0x800" using pg by simp
  have o: "off mod 4 = 0" "off + unat sz \<le> 2048" using al(1,4) mod_mod_cancel[of 4 2048 "unat a"] by (simp_all add: off_def)
  have pe: "(a + sz - 1) div 0x800 = a div 0x800"
  proof -
    have "unat (sz - 1) = unat sz - 1" using al(3) by (simp add: unat_minus_one unat_gt_0)
    moreover have "unat a div 2048 < 2097152" by (rule less_mult_imp_div_less) (use la in simp)
    then have "unat a + (unat sz - 1) < 4294967296" using al(3,4) div_mult_mod_eq[of "unat a" 2048] by linarith
    ultimately have "unat (a + (sz - 1)) = unat a + (unat sz - 1)" by (simp add: unat_word_ariths)
    moreover have "(unat a + (unat sz - 1)) div 2048 = unat a div 2048" using al(3,4) div_mult_mod_eq[of "unat a" 2048]
      by (intro div_nat_eqI) (linarith, unfold mult_Suc_right, linarith)
    ultimately show ?thesis unfolding word_unat_eq_iff unat_div_2048 by (simp add: add_diff_eq)
  qed
  define f0 where "f0 = FLASH_ClearFlag (FLASH_Unlock f)"
  define f1 where "f1 = FLASH_ErasePage hw ?R f0"
  define f2 where "f2 = fold (save_word hw B) [0..<0x200] f1"
  define f3 where "f3 = FLASH_ErasePage hw a f2"
  have r0: "fl_ready f0" "fl_mem f0 = fl_mem f" using wp by (simp_all add: f0_def fl_ready_def FLASH_ClearFlag_def FLASH_Unlock_def)
  have e1: "f1 = f0\<lparr>fl_mem := (\<lambda>p. if p div 0x800 = ?R div 0x800 then 0xFF else fl_mem f p)\<rparr>"
    unfolding f1_def r0(2)[symmetric] by (rule erase_ready[OF ch r0(1)])
  have r1: "fl_ready f1" using r0(1) by (simp add: e1 fl_ready_def)
  have iR: "p div 0x800 = ?R div 0x800 \<longleftrightarrow> unat (p - ?R) < 2048" for p by (rule page_iff) simp
  have iB: "p div 0x800 = a div 0x800 \<longleftrightarrow> unat (p - B) < 2048" for p unfolding Ba[symmetric] by (rule page_iff[OF B0])
  have "fl_mem f1 p = 0xFF" if "unat (p - ?R) < 2048" for p using that iR[of p] by (simp add: e1)
  from save_fold[OF ch r1 B0 BR this, of "0x200"]
  have e2: "f2 = f1\<lparr>fl_mem := (\<lambda>p. if unat (p - ?R) < 2048 then fl_mem f1 (B + word_of_nat (flip4 (unat (p - ?R)))) else fl_mem f1 p)\<rparr>"
    by (simp add: f2_def)
  have r2: "fl_ready f2" using r1 by (simp add: e2 fl_ready_def)
  have e3: "f3 = f2\<lparr>fl_mem := (\<lambda>p. if p div 0x800 = a div 0x800 then 0xFF else fl_mem f2 p)\<rparr>"
    unfolding f3_def by (rule erase_ready[OF ch r2])
  have r3: "fl_ready f3" using r2 by (simp add: e3 fl_ready_def)
  have er3: "fl_mem f3 p = 0xFF" if "unat (p - B) < 2048" for p using that iB[of p] by (simp add: e3)
  have sv: "fl_mem f3 (?R + word_of_nat x) = fl_mem f (B + word_of_nat (flip4 x))" if x: "x < 2048" for x
  proof -
    have u: "unat (?R + word_of_nat x - ?R) = x" using x by (simp add: unat_of_nat_small)
    then have "(?R + word_of_nat x) div 0x800 = ?R div 0x800" using iR[of "?R + word_of_nat x"] x by simp
    then have "fl_mem f3 (?R + word_of_nat x) = fl_mem f2 (?R + word_of_nat x)" using pg by (simp add: e3)
    also have "\<dots> = fl_mem f1 (B + word_of_nat (flip4 x))" using u x by (simp add: e2)
    also have "x div 4 < 512" by (rule less_mult_imp_div_less) (use x in simp)
    then have "flip4 x < 2048" by (simp add: flip4_def)
    then have "(B + word_of_nat (flip4 x)) div 0x800 = a div 0x800"
      using iB[of "B + word_of_nat (flip4 x)"] by (simp add: unat_of_nat_small)
    then have "fl_mem f1 (B + word_of_nat (flip4 x)) = fl_mem f (B + word_of_nat (flip4 x))" using pg by (simp add: e1)
    finally show ?thesis .
  qed
  have "fold (merge_word hw a Data (unat sz)) [0..<0x200] (Some f3) = Some (f3\<lparr>fl_mem := (\<lambda>p. if unat (p - B) < 4 * 0x200
     then updated (fl_mem f) B off (unat sz) Data (unat (p - B)) else fl_mem f3 p)\<rparr>)"
    by (rule merge_fold[OF B_def off_def ch r3 B0 BR er3 sv o(1) al(2) o(2) len]) simp_all
  then have run: "Flash_Updata hw a Data sz f = Some (FLASH_Lock (f3\<lparr>fl_mem := (\<lambda>p. if unat (p - B) < 2048
     then updated (fl_mem f) B off (unat sz) Data (unat (p - B)) else fl_mem f3 p)\<rparr>))"
    unfolding Flash_Updata_def Let_def pe f3_def f2_def f1_def f0_def B_def by simp
  have "(if unat (p - B) < 2048 then updated (fl_mem f) B off (unat sz) Data (unat (p - B)) else fl_mem f3 p) =
      (if unat (p - a) < unat sz then Data ! unat (p - a) else fl_mem f p)" if p: "p div 0x800 \<noteq> ?R div 0x800" for p
  proof -
    have "off < 2 ^ 32" by (simp add: off_def)
    note q = unat_off[OF this, of p B, folded aB]
    have lsz: "unat (p - B) + 2 ^ 32 - off \<ge> unat sz" using o(2) by simp
    show ?thesis
    proof (cases "unat (p - B) < 2048")
      case True
      then show ?thesis using q lsz unfolding updated_def by (auto split: if_splits)
    next
      case False
      then have "fl_mem f3 p = fl_mem f p" using p iB[of p] iR[of p] by (simp add: e3 e2 e1)
      moreover have "\<not> unat (p - a) < unat sz" using q lsz False o(2) by (auto split: if_splits)
      ultimately show ?thesis using False by simp
    qed
  qed
  then show ?thesis using run r3 by (auto simp: FLASH_Lock_def fl_ready_def)
qed

section \<open>What an operation can reach\<close>

lemma program_local:
  assumes "chip_local hw" "4 \<le> unat (p - a)"
  shows "fl_mem (FLASH_ProgramWord hw a d f) p = fl_mem f p"
proof -
  have ne: "p \<noteq> a" "p \<noteq> a + 1" "p \<noteq> a + 2" "p \<noteq> a + 2 + 1"
    using assms(2) by (auto simp: add.assoc)
  have "fl_mem (write16 hw b v g) p = fl_mem g p" if "p \<noteq> b" "p \<noteq> b + 1" for b v g
    using assms(1) that by (simp add: write16_def fl_result_def chip_local_def)
  then show ?thesis using ne by (simp add: FLASH_ProgramWord_def Let_def)
qed

lemma erase_local:
  assumes "chip_local hw" "p div 0x800 \<noteq> a div 0x800"
  shows "fl_mem (FLASH_ErasePage hw a f) p = fl_mem f p"
  using assms by (simp add: FLASH_ErasePage_def start_erase_def fl_result_def chip_local_def)

lemma write_words_local:
  assumes "chip_local hw" "write_words hw a Data n f = Some f'" "4 * n \<le> unat (p - a)"
  shows "fl_mem f' p = fl_mem f p"
  using assms(2,3)
proof (induction n arbitrary: a Data f)
  case (Suc n)
  from Suc.prems(1) obtain b0 b1 b2 b3 D where D: "Data = b0 # b1 # b2 # b3 # D"
    by (cases Data rule: rev4.cases) auto
  have "unat (p - (a + 4)) = unat (p - a) - 4" using unat_off[of 4 p a] Suc.prems(2) by simp
  with Suc D have "fl_mem f' p = fl_mem (FLASH_ProgramWord hw a (word_le b0 b1 b2 b3) f) p" by simp
  then show ?case using program_local[OF assms(1), of p a] Suc.prems(2) by simp
qed simp

lemma Flash_Write_local:
  assumes "chip_local hw" "Flash_Write hw a Data n f = Some f'" "n mod 4 = 0" "n \<le> unat (p - a)"
  shows "fl_mem f' p = fl_mem f p"
proof -
  have n: "4 * ((n + 3) div 4) = n" using assms(3) by presburger
  from assms(2) obtain g where g: "write_words hw a Data ((n + 3) div 4) (FLASH_ClearFlag (FLASH_Unlock f)) = Some g"
    "f' = FLASH_Lock g" by (auto simp: Flash_Write_def)
  from write_words_local[OF assms(1) g(1), of p] n assms(4) show ?thesis
    by (simp add: g(2) FLASH_Lock_def FLASH_ClearFlag_def FLASH_Unlock_def)
qed

lemma Flash_Write_total: "n \<le> length Data \<Longrightarrow> n mod 4 = 0 \<Longrightarrow> \<exists>f'. Flash_Write hw a Data n f = Some f'"
proof -
  have w: "4 * k \<le> length D \<Longrightarrow> \<exists>f'. write_words hw a D k g = Some f'" for k a D g
  proof (induction k arbitrary: a D g)
    case (Suc k)
    then show ?case by (cases D rule: rev4.cases) auto
  qed simp
  assume "n \<le> length Data" "n mod 4 = 0"
  moreover then have "4 * ((n + 3) div 4) = n" by presburger
  ultimately show ?thesis using w[of "(n + 3) div 4" Data a] by (auto simp: Flash_Write_def)
qed

lemma fold_keeps:
  assumes "\<And>x g. x \<in> set xs \<Longrightarrow> P (h x g) = P g"
  shows "P (fold h xs g) = P g"
  using assms by (induction xs arbitrary: g) auto

lemma Flash_Erase_local:
  assumes "chip_local hw" "Flash_Erase hw a n f = Some f'" "unat a mod 2048 = 0" "n \<le> unat (p - a)"
    "unat a + n \<le> 2 ^ 32"
  shows "fl_mem f' p = fl_mem f p"
proof -
  let ?h = "\<lambda>i. FLASH_ErasePage hw (a + word_of_nat i * 0x800)"
  have "fl_mem (?h i g) p = fl_mem g p" if i: "i < n div 0x800" for i g
  proof -
    have i2: "i * 2048 + 2048 \<le> n" using i by (metis add.commute div_times_less_eq_dividend le_trans mult_Suc mult_le_mono1 Suc_leI)
    have w: "word_of_nat i * 0x800 = (word_of_nat (i * 2048) :: u32)" by simp
    have "unat (word_of_nat (i * 2048) :: u32) = i * 2048" using i2 assms(5) by (intro unat_of_nat_small) simp
    then have "unat (a + word_of_nat (i * 2048)) = unat a + i * 2048"
      using i2 assms(5) by (simp add: unat_word_ariths)
    then have "unat (a + word_of_nat (i * 2048)) mod 2048 = 0" using assms(3) by (simp add: mod_add_eq)
    moreover have "\<not> unat (p - (a + word_of_nat (i * 2048))) < 2048"
      using unat_off[of "i * 2048" p a] i2 assms(4,5) by simp
    ultimately have "p div 0x800 \<noteq> (a + word_of_nat (i * 2048)) div 0x800" 
      using page_iff[of "a + word_of_nat (i * 2048)" p] by (simp only: simp_thms)
    then show ?thesis unfolding w by (rule erase_local[OF assms(1)])
  qed
  then have "fl_mem (fold ?h [0..<n div 0x800] g) p = fl_mem g p" for g
    by (intro fold_keeps[where P="\<lambda>g. fl_mem g p"]) simp
  moreover have "f' = FLASH_Lock (fold ?h [0..<n div 0x800] (FLASH_ClearFlag (FLASH_Unlock f)))"
    using assms(2) by (simp add: Flash_Erase_def split: if_splits)
  ultimately show ?thesis by (simp add: FLASH_Lock_def FLASH_ClearFlag_def FLASH_Unlock_def)
qed

text \<open>An update across a page boundary writes nothing: only the reserve page is erased.\<close>

lemma Flash_Updata_across:
  assumes "chip_local hw" "(a + sz - 1) div 0x800 \<noteq> a div 0x800"
  shows "\<exists>f'. Flash_Updata hw a Data sz f = Some f' \<and>
    (\<forall>p. p div 0x800 \<noteq> FLASH_ADDR_RESERVE div 0x800 \<longrightarrow> fl_mem f' p = fl_mem f p)"
proof -
  have "fl_mem (fold (\<lambda>_. FLASH_ErasePage hw FLASH_ADDR_RESERVE) xs g) p = fl_mem g p"
    if "p div 0x800 \<noteq> FLASH_ADDR_RESERVE div 0x800" for p g and xs :: "nat list"
    using erase_local[OF assms(1) that] by (intro fold_keeps[where P="\<lambda>g. fl_mem g p"]) simp
  then show ?thesis using assms(2)
    by (simp add: Flash_Updata_def Let_def FLASH_Lock_def FLASH_ClearFlag_def FLASH_Unlock_def)
qed

lemma across_pages:
  fixes a sz :: u32
  assumes "0 < unat sz" "unat a + unat sz \<le> 2 ^ 32" "2048 < unat a mod 2048 + unat sz"
  shows "(a + sz - 1) div 0x800 \<noteq> a div 0x800"
proof -
  have "unat (a + sz - 1) = unat a + unat sz - 1"
  proof -
    have "unat (sz - 1) = unat sz - 1" using assms(1) by (intro unat_minus_one) auto
    then have "unat (a + (sz - 1)) = unat a + (unat sz - 1)" using assms(1,2) by (simp add: unat_word_ariths)
    then show ?thesis using assms(1) by (simp add: add_diff_eq)
  qed
  moreover have "unat a = unat a div 2048 * 2048 + unat a mod 2048" by simp
  ultimately have "unat a div 2048 * 2048 + 2048 \<le> unat (a + sz - 1)" using assms(3) by linarith
  then have "unat a div 2048 < unat (a + sz - 1) div 2048" by (simp add: less_eq_div_iff_mult_less_eq Suc_le_eq[symmetric])
  then show ?thesis unfolding word_unat_eq_iff unat_div_2048 by simp
qed

text \<open>C27: On a flash controller that keeps its promises, for a word-aligned address and a positive size that is
  a multiple of four, \<open>Flash_Updata\<close> returns, and outside the reserve page it changes exactly the bytes it was
  asked to change, the rest of their page being written back, if they lie in one page; of an update across a page
  boundary nothing is written, so that only the reserve page, which every call erases first, may change.
  (The loop stores whole words: for other sizes it also overwrites the rest of the last word.)\<close>

theorem flash_update_in_place:
  fixes a sz :: u32
  assumes ch: "chip_ok hw" and wp: "\<not> fl_wrprterr f"
    and al: "unat a mod 4 = 0" "unat sz mod 4 = 0" "0 < unat sz" "unat a + unat sz \<le> 2 ^ 32"
    and len: "unat sz \<le> length Data" and pg: "a div 0x800 \<noteq> FLASH_ADDR_RESERVE div 0x800"
  shows "\<exists>f'. Flash_Updata hw a Data sz f = Some f' \<and>
    (\<forall>p. p div 0x800 \<noteq> FLASH_ADDR_RESERVE div 0x800 \<longrightarrow>
       fl_mem f' p = (if unat a mod 2048 + unat sz \<le> 2048 \<and> unat (p - a) < unat sz
                      then Data ! unat (p - a) else fl_mem f p))"
proof (cases "unat a mod 2048 + unat sz \<le> 2048")
  case True
  from Flash_Updata_page[OF ch wp al(1-3) True len pg] True show ?thesis by auto
next
  case False
  have "chip_local hw" using ch by (simp add: chip_ok_def)
  from Flash_Updata_across[OF this across_pages[OF al(3,4)], of Data f] False show ?thesis by auto
qed

definition blank_flash :: flash where
  "blank_flash = \<lparr>fl_mem = (\<lambda>_. 0xFF), fl_pgerr = False, fl_wrprterr = False, fl_locked = True\<rparr>"

theorem flash_update_in_place_witness:
  "\<exists>f'. Flash_Updata nor_chip FLASH_ADDR_BOOT_FLAG [1, 2, 3, 4] 4 blank_flash = Some f' \<and>
    fl_mem f' (FLASH_ADDR_BOOT_FLAG + 1) = 2 \<and> fl_mem f' (FLASH_ADDR_BOOT_FLAG + 4) = 0xFF"
proof -
  obtain f' where f': "Flash_Updata nor_chip FLASH_ADDR_BOOT_FLAG [1, 2, 3, 4] 4 blank_flash = Some f'"
    "\<forall>p. p div 0x800 \<noteq> FLASH_ADDR_RESERVE div 0x800 \<longrightarrow>
       fl_mem f' p = (if unat (p - FLASH_ADDR_BOOT_FLAG) < 4 then [1, 2, 3, 4] ! unat (p - FLASH_ADDR_BOOT_FLAG) else 0xFF)"
    using flash_update_in_place[OF nor_chip_ok(1), of blank_flash FLASH_ADDR_BOOT_FLAG 4 "[1, 2, 3, 4]"]
    by (auto simp: blank_flash_def)
  from f'(2) have "fl_mem f' (FLASH_ADDR_BOOT_FLAG + 1) = 2" "fl_mem f' (FLASH_ADDR_BOOT_FLAG + 4) = 0xFF" by simp_all
  with f'(1) show ?thesis by blast
qed

end
