(* ===== verification/Boot_uart.thy ===== *)
theory Boot_uart
  imports Prelude
begin

text \<open>
  The serial line of the boot loader: the receive interrupt of \<open>usr/stm32f10x_it.c\<close>, which puts bytes into
  the ring buffer of \<open>drv/uart.c\<close>, and the second half of \<open>poc_task\<close> (\<open>drv/poc.c\<close>), which takes lines out
  of it. One pass of its loop is a step, so that interrupts can come between any two passes. The message
  of a line is its copy in \<open>buf_temp_deal\<close>, 1024 bytes with zeros behind the line. A copy outside a buffer
  is \<open>None\<close>.
\<close>

section \<open>State\<close>

datatype uart_status = UART_STATUS_NORMAL | UART_STATUS_RECVING | UART_STATUS_RECVED | UART_STATUS_SENDING

record device_uart =
  recv_buf :: "u8 list"
  write_p :: u16
  read_p :: u16
  uart_stat :: uart_status

text \<open>The static \<open>cmp_cnt\<close> of \<open>poc_task\<close> counts the bytes already seen of the current line.\<close>

record line_reader = device_uart +
  cmp_cnt :: u16

abbreviation (input) UART_RXBUF_LEN_MAX :: nat where "UART_RXBUF_LEN_MAX \<equiv> 2048"

definition uart2_config :: "'a device_uart_scheme \<Rightarrow> 'a device_uart_scheme" where
  "uart2_config u = u\<lparr>read_p := 0, write_p := 0, recv_buf := replicate UART_RXBUF_LEN_MAX 0,
     uart_stat := UART_STATUS_NORMAL\<rparr>"

section \<open>Operations\<close>

text \<open>\<open>b\<close> is the byte in the receive register; it is lost when the buffer is full.\<close>

definition USART2_IRQHandler :: "u8 \<Rightarrow> 'a device_uart_scheme \<Rightarrow> 'a device_uart_scheme option" where
  "USART2_IRQHandler b u = do {
     u1 \<leftarrow> (if (unat (write_p u) + 1) mod UART_RXBUF_LEN_MAX \<noteq> unat (read_p u)
            then do { buf \<leftarrow> put_byte (recv_buf u) (unat (write_p u)) b;
                      Some (u\<lparr>recv_buf := buf, write_p := write_p u + 1\<rparr>) }
            else Some u);
     Some (u1\<lparr>write_p := write_p u1 mod 2048, uart_stat := UART_STATUS_RECVING\<rparr>) }"

definition eol :: "u8 \<Rightarrow> bool" where
  "eol c \<longleftrightarrow> c = 13 \<or> c = 10"

definition copy_line :: "line_reader \<Rightarrow> u8 list option" where
  "copy_line u =
     (let r = unat (read_p u); c = unat (cmp_cnt u); buf = replicate 1024 0 in
      if r + c < UART_RXBUF_LEN_MAX then memcpy buf 0 (recv_buf u) (int r) (int c)
      else do {
        buf1 \<leftarrow> memcpy buf 0 (recv_buf u) (int r) (int ((UART_RXBUF_LEN_MAX - r) mod 1024));
        memcpy buf1 (int (UART_RXBUF_LEN_MAX - r)) (recv_buf u) 0
          (int ((r + c) mod UART_RXBUF_LEN_MAX mod (1024 - (UART_RXBUF_LEN_MAX - r) mod 1024))) })"

text \<open>One pass of the loop: the message found, whether the loop goes on, and the new state.\<close>

definition uart_line_step :: "line_reader \<Rightarrow> (u8 list option \<times> bool \<times> line_reader) option" where
  "uart_line_step u =
     (let r = unat (read_p u); w = unat (write_p u); c = unat (cmp_cnt u) in
      if read_p u = write_p u then Some (None, False, u)
      else do {
        b \<leftarrow> get_byte (recv_buf u) ((r + c) mod UART_RXBUF_LEN_MAX);
        if eol b then do {
          m \<leftarrow> (if c \<ge> 2 then map_option Some (copy_line u) else Some None);
          Some (m, True, u\<lparr>read_p := word_of_nat ((r + (c + 1)) mod UART_RXBUF_LEN_MAX), cmp_cnt := 0\<rparr>) }
        else if r < w \<and> c + 1 < w - r \<or> r > w \<and> c + 1 < UART_RXBUF_LEN_MAX - r + w
        then Some (None, True, u\<lparr>cmp_cnt := cmp_cnt u + 1\<rparr>)
        else Some (None, False, if c \<ge> 1024 then u\<lparr>write_p := 0, read_p := 0, cmp_cnt := 0\<rparr> else u) })"

section \<open>The bytes received and not yet read\<close>

definition avail :: "'a device_uart_scheme \<Rightarrow> nat" where
  "avail u = (unat (write_p u) + 2048 - unat (read_p u)) mod 2048"

definition pend :: "'a device_uart_scheme \<Rightarrow> u8 list" where
  "pend u = map (\<lambda>i. recv_buf u ! ((unat (read_p u) + i) mod 2048)) [0..<avail u]"

definition uart_ok :: "'a device_uart_scheme \<Rightarrow> bool" where
  "uart_ok u \<longleftrightarrow> length (recv_buf u) = 2048 \<and> unat (read_p u) < 2048 \<and> unat (write_p u) < 2048"

lemma length_pend [simp]: "length (pend u) = avail u"
  by (simp add: pend_def)

lemma avail_cases:
  assumes "uart_ok u"
  shows "avail u = (if unat (read_p u) \<le> unat (write_p u) then unat (write_p u) - unat (read_p u)
    else 2048 - unat (read_p u) + unat (write_p u))" "avail u < 2048"
    "avail u = 0 \<longleftrightarrow> read_p u = write_p u"
proof -
  show a: "avail u = (if unat (read_p u) \<le> unat (write_p u) then unat (write_p u) - unat (read_p u)
    else 2048 - unat (read_p u) + unat (write_p u))"
    using assms by (auto simp: avail_def uart_ok_def mod_if)
  show "avail u < 2048" by (simp add: avail_def)
  show "avail u = 0 \<longleftrightarrow> read_p u = write_p u"
    using assms unfolding a by (auto simp: uart_ok_def word_unat_eq_iff)
qed

lemma unat_mod_2048: "unat (x mod 2048 :: u16) = unat x mod 2048"
  by (simp add: unat_mod)

lemma stat_irrelevant [simp]:
  "pend (u\<lparr>uart_stat := x\<rparr>) = pend u" "uart_ok (u\<lparr>uart_stat := x\<rparr>) = uart_ok u" "avail (u\<lparr>uart_stat := x\<rparr>) = avail u"
  by (simp_all add: pend_def avail_def uart_ok_def)

text \<open>The interrupt appends a byte, unless the buffer is full.\<close>

lemma irq_ok:
  assumes "uart_ok u"
  shows "\<exists>u'. USART2_IRQHandler b u = Some u' \<and> uart_ok u' \<and> read_p u' = read_p u \<and>
    pend u' = (if avail u = 2047 then pend u else pend u @ [b])"
proof (cases "(unat (write_p u) + 1) mod 2048 = unat (read_p u)")
  case True
  then have "avail u = 2047" using assms by (auto simp: avail_def uart_ok_def mod_if split: if_splits)
  moreover have "write_p u mod 2048 = write_p u"
    using assms unfolding word_unat_eq_iff unat_mod_2048 by (simp add: uart_ok_def)
  moreover have "USART2_IRQHandler b u = Some (u\<lparr>write_p := write_p u mod 2048, uart_stat := UART_STATUS_RECVING\<rparr>)"
    unfolding USART2_IRQHandler_def True by simp
  ultimately have "USART2_IRQHandler b u = Some (u\<lparr>uart_stat := UART_STATUS_RECVING\<rparr>)" by simp
  then show ?thesis using assms \<open>avail u = 2047\<close> by simp
next
  case False
  let ?w = "unat (write_p u)" and ?r = "unat (read_p u)"
  define u' where "u' = u\<lparr>recv_buf := (recv_buf u)[?w := b], write_p := (write_p u + 1) mod 2048, uart_stat := UART_STATUS_RECVING\<rparr>"
  have r: "?w < 2048" "?r < 2048" "length (recv_buf u) = 2048" using assms by (simp_all add: uart_ok_def)
  have w: "unat ((write_p u + 1) mod 2048) = (?w + 1) mod 2048"
    unfolding unat_mod_2048 using r(1) by (simp add: unat_word_ariths)
  have run: "USART2_IRQHandler b u = Some u'"
    using False r by (simp add: USART2_IRQHandler_def put_byte_def u'_def)
  have ok: "uart_ok u'" using r by (simp add: uart_ok_def u'_def w)
  have av: "avail u' = avail u + 1" "avail u \<noteq> 2047"
    using False r by (auto simp: avail_def u'_def w mod_if split: if_splits)
  have pos: "(?r + i) mod 2048 = ?w \<longleftrightarrow> i = avail u" if "i \<le> avail u" for i
  proof -
    have "avail u < 2048" by (rule avail_cases(2)[OF assms])
    then have "(?r + i) mod 2048 = (if ?r + i < 2048 then ?r + i else ?r + i - 2048)" using that r by (simp add: mod_if)
    then show ?thesis using avail_cases(1)[OF assms] that r by (simp split: if_splits) linarith+
  qed
  have "pend u' = pend u @ [b]"
  proof (rule nth_equalityI)
    fix i assume "i < length (pend u')"
    then have i: "i \<le> avail u" using av by simp
    then have "pend u' ! i = (recv_buf u)[?w := b] ! ((?r + i) mod 2048)"
    proof -
      have "pend u' = map (\<lambda>i. (recv_buf u)[?w := b] ! ((?r + i) mod 2048)) [0..<avail u']" by (simp add: pend_def u'_def)
      then show ?thesis using i av(1) by (simp del: upt_Suc)
    qed
    also have "\<dots> = (pend u @ [b]) ! i"
    proof (cases "i = avail u")
      case True
      then show ?thesis using pos[OF i] r by (simp add: nth_append)
    next
      case False
      then have "(?r + i) mod 2048 \<noteq> ?w" "i < avail u" using pos[OF i] i by auto
      then show ?thesis by (simp add: nth_append pend_def)
    qed
    finally show "pend u' ! i = (pend u @ [b]) ! i" .
  qed (use av in simp)
  then show ?thesis using run ok av by (simp add: u'_def)
qed

text \<open>The copied line, for lines that fit into the message buffer.\<close>

lemma copy_line_ok:
  assumes "uart_ok u" "unat (cmp_cnt u) < 1024" "unat (cmp_cnt u) \<le> avail u"
  shows "copy_line u = Some (take (unat (cmp_cnt u)) (pend u) @ replicate (1024 - unat (cmp_cnt u)) 0)"
proof -
  let ?r = "unat (read_p u)" and ?c = "unat (cmp_cnt u)"
  have r: "?r < 2048" "length (recv_buf u) = 2048" using assms(1) by (simp_all add: uart_ok_def)
  show ?thesis
  proof (cases "?r + ?c < 2048")
    case True
    have "take ?c (drop ?r (recv_buf u)) = take ?c (pend u)"
      by (rule nth_equalityI) (use True r assms(3) in \<open>auto simp: pend_def\<close>)
    moreover have "copy_line u = memcpy (replicate 1024 0) (int 0) (recv_buf u) (int ?r) (int ?c)"
      unfolding copy_line_def Let_def using True by simp
    ultimately show ?thesis using True r assms(2) unfolding memcpy_nat by simp
  next
    case False
    define k where "k = 2048 - ?r"
    have k: "k \<le> ?c" "0 < k" "?r + k = 2048" using False r by (simp_all add: k_def)
    have i: "2048 - ?r = k" "k mod 1024 = k" using k assms(2) by (simp_all add: k_def)
    have j: "(?r + ?c) mod 2048 mod (1024 - k) = ?c - k"
    proof -
      have "?r + ?c = (?c - k) + 2048" using k by simp
      then have "(?r + ?c) mod 2048 = ?c - k" using assms(2) by simp
      moreover have "?c - k < 1024 - k" using k assms(2) by simp
      ultimately show ?thesis by simp
    qed
    have "copy_line u = do {
        buf1 \<leftarrow> memcpy (replicate 1024 0) (int 0) (recv_buf u) (int ?r) (int k);
        memcpy buf1 (int k) (recv_buf u) (int 0) (int (?c - k)) }"
      using False unfolding copy_line_def Let_def i j by simp
    also have "\<dots> = Some ((drop ?r (recv_buf u) @ take (?c - k) (recv_buf u)) @ replicate (1024 - ?c) 0)"
      using k r assms(2) unfolding memcpy_nat by (simp, arith)
    also have "drop ?r (recv_buf u) @ take (?c - k) (recv_buf u) = take ?c (pend u)"
    proof (rule nth_equalityI)
      fix n assume n: "n < length (drop ?r (recv_buf u) @ take (?c - k) (recv_buf u))"
      then have "n < ?c" using k r by auto
      moreover have "(?r + n) mod 2048 = (if n < k then ?r + n else n - k)" using n k r \<open>n < ?c\<close> assms(2) by (auto simp: mod_if)
      ultimately show "(drop ?r (recv_buf u) @ take (?c - k) (recv_buf u)) ! n = take ?c (pend u) ! n"
        using n k r assms(3) by (auto simp: nth_append pend_def k_def)
    qed (use k r assms(2,3) in \<open>simp add: k_def\<close>)
    finally show ?thesis .
  qed
qed

section \<open>Steps of the reader\<close>

definition line_ok :: "line_reader \<Rightarrow> bool" where
  "line_ok u \<longleftrightarrow> uart_ok u \<and> (unat (cmp_cnt u) = 0 \<or> unat (cmp_cnt u) < avail u) \<and>
     (\<forall>c \<in> set (take (unat (cmp_cnt u)) (pend u)). \<not> eol c)"

text \<open>A message: a line of at least two bytes, in its 1024 byte buffer.\<close>

definition message :: "u8 list \<Rightarrow> u8 list option" where
  "message l = (if 2 \<le> length l then Some (l @ replicate (1024 - length l) 0) else None)"

lemma word_cases_2048: "(r::nat) < 2048 \<Longrightarrow> unat (word_of_nat r :: u16) = r"
  by (rule unat_of_nat_small) simp

lemma step_eol:
  assumes "line_ok u" "avail u \<noteq> 0" "eol (pend u ! unat (cmp_cnt u))" "unat (cmp_cnt u) < 1024"
  shows "\<exists>u'. uart_line_step u = Some (message (take (unat (cmp_cnt u)) (pend u)), True, u') \<and>
    line_ok u' \<and> pend u' = drop (Suc (unat (cmp_cnt u))) (pend u)"
proof -
  let ?r = "unat (read_p u)" and ?c = "unat (cmp_cnt u)"
  have ok: "uart_ok u" and c: "?c < avail u" using assms(1,2) by (auto simp: line_ok_def)
  have r: "?r < 2048" "unat (write_p u) < 2048" "length (recv_buf u) = 2048" using ok by (simp_all add: uart_ok_def)
  have ne: "read_p u \<noteq> write_p u" using avail_cases(3)[OF ok] assms(2) by simp
  have b: "pend u ! ?c = recv_buf u ! ((?r + ?c) mod 2048)" using c by (simp add: pend_def)
  define u' where "u' = u\<lparr>read_p := word_of_nat ((?r + (?c + 1)) mod 2048), cmp_cnt := 0\<rparr>"
  have r': "unat (read_p u') = (?r + (?c + 1)) mod 2048" unfolding u'_def by (simp add: word_cases_2048)
  have "length (take ?c (pend u)) = ?c" using c by simp
  then have "uart_line_step u = Some (message (take ?c (pend u)), True, u')"
    using ne assms(3) b r copy_line_ok[OF ok assms(4) less_imp_le[OF c]]
    by (simp add: uart_line_step_def Let_def get_byte_def message_def u'_def)
  moreover have ok': "uart_ok u'" using r by (simp add: uart_ok_def r') (simp add: u'_def)
  moreover have "pend u' = drop (Suc ?c) (pend u)"
  proof (rule nth_equalityI)
    have av: "avail u' = avail u - Suc ?c"
    proof -
      let ?w = "unat (write_p u)"
      have c2: "?c < 2048" using c avail_cases(2)[OF ok] by simp
      have r2: "unat (read_p u') = (if ?r + ?c + 1 < 2048 then ?r + ?c + 1 else ?r + ?c + 1 - 2048)"
        unfolding r' using c2 r(1) by (simp add: mod_if)
      have w: "unat (write_p u') = ?w" by (simp add: u'_def)
      have a: "avail u = (if ?r \<le> ?w then ?w - ?r else 2048 - ?r + ?w)" by (rule avail_cases(1)[OF ok])
      have a': "avail u' = (if unat (read_p u') \<le> ?w then ?w - unat (read_p u') else 2048 - unat (read_p u') + ?w)"
        using avail_cases(1)[OF ok'] w by simp
      show ?thesis
      proof (cases "?r + ?c + 1 < 2048"; cases "?r \<le> ?w")
        assume h: "?r + ?c + 1 < 2048" "?r \<le> ?w"
        then have "?r + ?c + 1 \<le> ?w" using a c by simp
        then show ?thesis using a a' r2 c h by simp
      next
        assume h: "?r + ?c + 1 < 2048" "\<not> ?r \<le> ?w"
        then have "\<not> ?r + ?c + 1 \<le> ?w" by simp
        then show ?thesis using a a' r2 c h by simp
      next
        assume "\<not> ?r + ?c + 1 < 2048" "?r \<le> ?w"
        then show ?thesis using a c r(2) by simp
      next
        assume h: "\<not> ?r + ?c + 1 < 2048" "\<not> ?r \<le> ?w"
        then have x: "avail u = 2048 - ?r + ?w" "unat (read_p u') = ?r + ?c + 1 - 2048" using a r2 by simp_all
        then have "unat (read_p u') \<le> ?w" using c h r(1) by linarith
        then have "avail u' = ?w - unat (read_p u')" using a' by simp
        then show ?thesis using x c h r(1) by linarith
      qed
    qed
    then show "length (pend u') = length (drop (Suc ?c) (pend u))" by simp
    fix i assume "i < length (pend u')"
    then have i: "i < avail u - Suc ?c" using av by simp
    then have "pend u' ! i = recv_buf u ! (((?r + (?c + 1)) mod 2048 + i) mod 2048)"
      unfolding pend_def av using r' by (simp add: u'_def)
    also have "((?r + (?c + 1)) mod 2048 + i) mod 2048 = (?r + (Suc ?c + i)) mod 2048" by (simp add: mod_simps ac_simps)
    also have "recv_buf u ! ((?r + (Suc ?c + i)) mod 2048) = pend u ! (Suc ?c + i)"
      using i nth_upt[of 0 "Suc ?c + i" "avail u"] by (simp add: pend_def del: upt_Suc)
    finally show "pend u' ! i = drop (Suc ?c) (pend u) ! i" using i by simp
  qed
  ultimately show ?thesis by (auto simp: line_ok_def u'_def)
qed

lemma step_wait:
  assumes "line_ok u" "avail u \<noteq> 0" "\<not> eol (pend u ! unat (cmp_cnt u))"
  shows "if unat (cmp_cnt u) + 1 < avail u
    then \<exists>u'. uart_line_step u = Some (None, True, u') \<and> line_ok u' \<and> pend u' = pend u \<and>
      unat (cmp_cnt u') = unat (cmp_cnt u) + 1 \<and> read_p u' = read_p u
    else uart_line_step u = Some (None, False, if 1024 \<le> unat (cmp_cnt u)
      then u\<lparr>write_p := 0, read_p := 0, cmp_cnt := 0\<rparr> else u)"
proof -
  let ?r = "unat (read_p u)" and ?c = "unat (cmp_cnt u)"
  have ok: "uart_ok u" and c: "?c < avail u" using assms(1,2) by (auto simp: line_ok_def)
  have r: "?r < 2048" "unat (write_p u) < 2048" "length (recv_buf u) = 2048" using ok by (simp_all add: uart_ok_def)
  have ne: "read_p u \<noteq> write_p u" "?r \<noteq> unat (write_p u)" using avail_cases(3)[OF ok] assms(2) by (auto simp: word_unat_eq_iff)
  have b: "pend u ! ?c = recv_buf u ! ((?r + ?c) mod 2048)" using c by (simp add: pend_def)
  have cond: "(?r < unat (write_p u) \<and> ?c + 1 < unat (write_p u) - ?r \<or> ?r > unat (write_p u) \<and> ?c + 1 < 2048 - ?r + unat (write_p u))
     \<longleftrightarrow> ?c + 1 < avail u"
    using avail_cases(1)[OF ok] ne(2) by auto
  have st: "uart_line_step u = (if ?c + 1 < avail u then Some (None, True, u\<lparr>cmp_cnt := cmp_cnt u + 1\<rparr>)
      else Some (None, False, if 1024 \<le> ?c then u\<lparr>write_p := 0, read_p := 0, cmp_cnt := 0\<rparr> else u))"
    using ne(1) assms(3) b r unfolding uart_line_step_def Let_def cond by (simp add: get_byte_def)
  show ?thesis
  proof (cases "?c + 1 < avail u")
    case True
    define u' where "u' = u\<lparr>cmp_cnt := cmp_cnt u + 1\<rparr>"
    have inc: "unat (cmp_cnt u + 1) = ?c + 1" using c avail_cases(2)[OF ok] by (simp add: unat_word_ariths)
    moreover have p: "pend u' = pend u" "avail u' = avail u" "uart_ok u'" using ok by (simp_all add: u'_def pend_def avail_def uart_ok_def)
    moreover have "take (Suc ?c) (pend u) = take ?c (pend u) @ [pend u ! ?c]" using c by (intro take_Suc_conv_app_nth) simp
    ultimately have "line_ok u'" using assms(1,3) True by (auto simp: line_ok_def u'_def)
    then show ?thesis using st True p(1) inc by (simp add: u'_def)
  qed (use st in simp)
qed

section \<open>Lines\<close>

function lines :: "u8 list \<Rightarrow> u8 list list" where
  "lines xs = (case dropWhile (\<lambda>c. \<not> eol c) xs of [] \<Rightarrow> [] | _ # ys \<Rightarrow> takeWhile (\<lambda>c. \<not> eol c) xs # lines ys)"
  by pat_completeness auto
termination
proof (relation "measure length")
  fix xs ys :: "u8 list" and c
  assume "dropWhile (\<lambda>c. \<not> eol c) xs = c # ys"
  then show "(ys, xs) \<in> measure length" using length_dropWhile_le[of "\<lambda>c. \<not> eol c" xs] by simp
qed simp

declare lines.simps [simp del]

lemma lines_none: "\<forall>c \<in> set xs. \<not> eol c \<Longrightarrow> lines xs = []"
  by (subst lines.simps) (simp add: dropWhile_eq_Nil_conv[THEN iffD2])

lemma lines_line: "\<forall>c \<in> set l. \<not> eol c \<Longrightarrow> eol c \<Longrightarrow> lines (l @ c # ys) = l # lines ys"
  by (subst lines.simps) (simp add: dropWhile_append2 takeWhile_append2)

definition closed :: "u8 list \<Rightarrow> bool" where
  "closed xs \<longleftrightarrow> xs = [] \<or> eol (last xs)"

lemma lines_append: "closed xs \<Longrightarrow> lines (xs @ ys) = lines xs @ lines ys"
proof (induction xs rule: length_induct)
  case (1 xs)
  show ?case
  proof (cases "\<exists>c \<in> set xs. eol c")
    case True
    from split_list_first_prop[OF this] obtain l c r where xs: "xs = l @ c # r" "eol c" "\<forall>c \<in> set l. \<not> eol c" by auto
    then have "closed r" using "1.prems" by (auto simp: closed_def split: if_splits)
    moreover have "length r < length xs" using xs by simp
    ultimately have "lines (r @ ys) = lines r @ lines ys" using "1.IH" by blast
    then show ?thesis using xs lines_line[OF xs(3,2)] by simp
  next
    case False
    then have "xs = []" using "1.prems" last_in_set[of xs] unfolding closed_def by blast
    then show ?thesis by (simp add: lines_none)
  qed
qed

text \<open>No line is longer than 1023 bytes.\<close>

definition short :: "u8 list \<Rightarrow> bool" where
  "short rx \<longleftrightarrow> (\<forall>xs ys zs. rx = xs @ ys @ zs \<and> (\<forall>c \<in> set ys. \<not> eol c) \<longrightarrow> length ys < 1024)"

lemma shortD: "short (xs @ ys @ zs) \<Longrightarrow> \<forall>c \<in> set ys. \<not> eol c \<Longrightarrow> length ys < 1024"
  unfolding short_def by blast

lemma short_prefix: "short (xs @ zs) \<Longrightarrow> short xs"
  unfolding short_def by (metis append.assoc)

section \<open>Histories\<close>

text \<open>\<open>rx\<close> are the bytes that the receive interrupt accepted; it drops a byte when the buffer holds 2047.\<close>

inductive uart_run :: "line_reader \<Rightarrow> u8 list \<Rightarrow> u8 list list \<Rightarrow> line_reader \<Rightarrow> bool" for u0 :: line_reader where
  start: "uart_run u0 [] [] u0"
| irq: "\<lbrakk>uart_run u0 rx ms u; USART2_IRQHandler b u = Some u'\<rbrakk> \<Longrightarrow>
    uart_run u0 (if avail u = 2047 then rx else rx @ [b]) ms u'"
| pass: "\<lbrakk>uart_run u0 rx ms u; uart_line_step u = Some (m, go, u')\<rbrakk> \<Longrightarrow>
    uart_run u0 rx (ms @ (case m of None \<Rightarrow> [] | Some l \<Rightarrow> [l])) u'"

definition delivered :: "u8 list \<Rightarrow> u8 list list \<Rightarrow> line_reader \<Rightarrow> bool" where
  "delivered rx ms u \<longleftrightarrow> line_ok u \<and>
     (\<exists>d. rx = d @ pend u \<and> closed d \<and> ms = List.map_filter message (lines d))"

lemma irq_line_ok:
  assumes "line_ok u" "USART2_IRQHandler b u = Some u'"
  shows "line_ok u' \<and> pend u' = (if avail u = 2047 then pend u else pend u @ [b])"
proof -
  from assms(1) have ok: "uart_ok u" by (simp add: line_ok_def)
  from irq_ok[OF ok, of b] assms(2) have u': "uart_ok u'" "pend u' = (if avail u = 2047 then pend u else pend u @ [b])"
    by auto
  have "cmp_cnt u' = cmp_cnt u"
    using assms(2) by (auto simp: USART2_IRQHandler_def put_byte_def split: if_splits)
  moreover have "avail u' = length (pend u')" by simp
  then have "avail u' = (if avail u = 2047 then avail u else avail u + 1)" unfolding u'(2) by simp
  ultimately show ?thesis using assms(1) u' by (auto simp: line_ok_def)
qed

lemma step_cases:
  assumes "line_ok u" "short (d @ pend u)"
  obtains (empty) "avail u = 0" "uart_line_step u = Some (None, False, u)"
    | (line) l c r u' where "pend u = l @ c # r" "\<forall>c \<in> set l. \<not> eol c" "eol c" "line_ok u'" "pend u' = r"
        "uart_line_step u = Some (message l, True, u')"
    | (more) u' where "uart_line_step u = Some (None, True, u')" "line_ok u'" "pend u' = pend u"
        "unat (cmp_cnt u') = unat (cmp_cnt u) + 1"
    | (wait) "uart_line_step u = Some (None, False, u)" "\<forall>c \<in> set (pend u). \<not> eol c"
proof (cases "avail u = 0")
  case True
  then have "read_p u = write_p u" using avail_cases(3) assms(1) by (auto simp: line_ok_def)
  then show thesis using empty True by (simp add: uart_line_step_def)
next
  case False
  let ?c = "unat (cmp_cnt u)"
  have c: "?c < avail u" using assms(1) False by (auto simp: line_ok_def)
  have no: "\<forall>x \<in> set (take ?c (pend u)). \<not> eol x" using assms(1) by (simp add: line_ok_def)
  have sp: "pend u = take ?c (pend u) @ pend u ! ?c # drop (Suc ?c) (pend u)" using c by (simp add: id_take_nth_drop)
  have c1: "?c < 1024" using shortD[of d "take ?c (pend u)" "drop ?c (pend u)"] assms(2) no c by simp
  show thesis
  proof (cases "eol (pend u ! ?c)")
    case True
    from step_eol[OF assms(1) False True c1] show thesis using line[OF sp no True] by blast
  next
    case ne: False
    show thesis
    proof (cases "?c + 1 < avail u")
      case True
      with step_wait[OF assms(1) False ne] show thesis using more by auto
    next
      case False
      with step_wait[OF assms(1) \<open>avail u \<noteq> 0\<close> ne] c1 have "uart_line_step u = Some (None, False, u)" by simp
      moreover have "drop (Suc ?c) (pend u) = []" using False by simp
      then have "\<forall>c \<in> set (pend u). \<not> eol c" using no ne by (subst sp) auto
      ultimately show thesis using wait by blast
    qed
  qed
qed


lemma uart_run_delivered:
  assumes "uart_run u0 rx ms u" "line_ok u0" "pend u0 = []" "short rx"
  shows "delivered rx ms u"
  using assms
proof (induction rule: uart_run.induct)
  case start
  then show ?case by (auto simp: delivered_def closed_def lines_none List.map_filter_def)
next
  case (irq rx ms u b u')
  then have sh: "short rx" by (auto split: if_splits intro: short_prefix)
  from irq.IH[OF irq.prems(1,2) sh] obtain d where d: "line_ok u" "rx = d @ pend u" "closed d"
      "ms = List.map_filter message (lines d)" by (auto simp: delivered_def)
  from irq_line_ok[OF d(1) irq.hyps(2)] show ?case using d(2-4) by (auto simp: delivered_def)
next
  case (pass rx ms u m go u')
  from pass.IH[OF pass.prems] obtain d where d: "line_ok u" "rx = d @ pend u" "closed d"
      "ms = List.map_filter message (lines d)" by (auto simp: delivered_def)
  have sh: "short (d @ pend u)" using pass.prems(3) d(2) by simp
  from d(1) sh show ?case
  proof (cases rule: step_cases)
    case (line l c r v)
    then have "lines (d @ l @ [c]) = lines d @ [l]" using lines_append[OF d(3)] lines_line[of l c "[]"] by (simp add: lines_none)
    then have "ms @ (case m of None \<Rightarrow> [] | Some l \<Rightarrow> [l]) = List.map_filter message (lines (d @ l @ [c]))"
      using d(4) pass.hyps(2) line(6) by (auto simp: List.map_filter_def split: option.splits)
    moreover have "rx = (d @ l @ [c]) @ pend u'" "closed (d @ l @ [c])" "line_ok u'"
      using d(2) line pass.hyps(2) by (auto simp: closed_def)
    ultimately show ?thesis unfolding delivered_def by blast
  qed (use d pass.hyps(2) in \<open>auto simp: delivered_def\<close>)
qed

text \<open>The line after \<open>uart2_config\<close>, and bytes received into it.\<close>

definition uart_start :: line_reader where
  "uart_start = uart2_config \<lparr>recv_buf = [], write_p = 0, read_p = 0, uart_stat = UART_STATUS_NORMAL, cmp_cnt = 0\<rparr>"

lemma uart_start_ok: "line_ok uart_start" "pend uart_start = []"
  by (simp_all add: uart_start_def uart2_config_def line_ok_def uart_ok_def avail_def pend_def)

lemma receive_all:
  assumes "length bs \<le> 2047"
  shows "\<exists>u. uart_run uart_start bs [] u \<and> line_ok u \<and> pend u = bs \<and> read_p u = 0 \<and> cmp_cnt u = 0"
  using assms
proof (induction bs rule: rev_induct)
  case Nil
  have "read_p uart_start = 0" "cmp_cnt uart_start = 0" by (simp_all add: uart_start_def uart2_config_def)
  then show ?case using uart_run.start uart_start_ok by blast
next
  case (snoc b bs)
  then obtain u where u: "uart_run uart_start bs [] u" "line_ok u" "pend u = bs" "read_p u = 0" "cmp_cnt u = 0" by auto
  have ok: "uart_ok u" using u(2) by (simp add: line_ok_def)
  have "avail u \<noteq> 2047" using snoc.prems u(3) length_pend[of u] by simp
  with irq_ok[OF ok, of b] obtain u' where u': "USART2_IRQHandler b u = Some u'" "pend u' = bs @ [b]" "read_p u' = 0"
    using u(3,4) by auto
  moreover have "cmp_cnt u' = 0"
    using u'(1) u(5) by (auto simp: USART2_IRQHandler_def put_byte_def split: if_splits)
  moreover have "uart_run uart_start (bs @ [b]) [] u'"
    using uart_run.irq[OF u(1) u'(1)] \<open>avail u \<noteq> 2047\<close> by simp
  ultimately show ?case using irq_line_ok[OF u(2) u'(1)] by blast
qed

text \<open>Passes until the reader waits.\<close>

lemma passes:
  assumes "uart_run u0 rx ms u" "line_ok u" "short (pend u)"
  shows "\<exists>ms' u'. uart_run u0 rx ms' u' \<and> uart_line_step u' = Some (None, False, u')"
  using assms
proof (induction "avail u - unat (cmp_cnt u)" arbitrary: u ms rule: less_induct)
  case less
  have sh: "short ([] @ pend u)" using less.prems(3) by simp
  from less.prems(2) sh show ?case
  proof (cases rule: step_cases)
    case (line l c r u')
    have "avail u' = length r" using line(5) length_pend[of u'] by simp
    moreover have "avail u = length l + 1 + length r" using line(1) length_pend[of u] by simp
    moreover have "unat (cmp_cnt u) \<le> length l"
    proof (rule ccontr)
      assume "\<not> ?thesis"
      then have "c \<in> set (take (unat (cmp_cnt u)) (pend u))" using line(1) by (auto simp: take_Cons')
      then show False using less.prems(2) line(3) by (simp add: line_ok_def)
    qed
    ultimately have "avail u' - unat (cmp_cnt u') < avail u - unat (cmp_cnt u)" by linarith
    moreover have "short (pend u')"
      using less.prems(3) unfolding line(1,5) short_def by (metis append.assoc append_Cons append_Nil)
    ultimately show ?thesis using less.hyps[OF _ uart_run.pass[OF less.prems(1) line(6)] line(4)] by blast
  next
    case (more u')
    have "avail u' = avail u" using more(3) length_pend[of u'] length_pend[of u] by simp
    moreover from this have "unat (cmp_cnt u) < avail u" using more(2,4) by (auto simp: line_ok_def)
    ultimately have "avail u' - unat (cmp_cnt u') < avail u - unat (cmp_cnt u)" using more(4) by linarith
    moreover have "short (pend u')" using less.prems(3) more(3) by simp
    ultimately show ?thesis using less.hyps[OF _ uart_run.pass[OF less.prems(1) more(1)] more(2)] by blast
  qed (use less.prems in blast)+
qed

section \<open>What the reader delivers\<close>

text \<open>C22: Whatever the order of receive interrupts and passes of the reader, as long as no line has 1024 or
  more bytes, the messages handed on are exactly the lines of at least two bytes in the bytes that the receive
  interrupt accepted (it drops bytes while the buffer is full), in order and complete; the accepted bytes not
  yet read are still in the buffer; and when the reader waits, no complete line is left.\<close>

theorem uart_lines_delivered:
  assumes "uart_run u0 rx ms u" "line_ok u0" "pend u0 = []" "short rx"
  shows "(\<exists>d. rx = d @ pend u \<and> closed d \<and> ms = List.map_filter message (lines d)) \<and>
    (\<exists>m go u'. uart_line_step u = Some (m, go, u') \<and> (\<not> go \<longrightarrow> (\<forall>c \<in> set (pend u). \<not> eol c)))"
proof -
  from uart_run_delivered[OF assms] obtain d where d: "line_ok u" "rx = d @ pend u" "closed d"
    "ms = List.map_filter message (lines d)" by (auto simp: delivered_def)
  have sh: "short (d @ pend u)" using assms(4) d(2) by simp
  have "\<exists>m go u'. uart_line_step u = Some (m, go, u') \<and> (\<not> go \<longrightarrow> (\<forall>c \<in> set (pend u). \<not> eol c))"
    using d(1) sh by (cases rule: step_cases) (auto simp: pend_def)
  then show ?thesis using d by blast
qed

lemma short_small: "length rx < 1024 \<Longrightarrow> short rx"
  by (auto simp: short_def)

theorem uart_lines_delivered_witness:
  "\<exists>ms u. uart_run uart_start [79, 75, 13] ms u \<and> ms = [[79, 75] @ replicate 1022 0] \<and> pend u = []"
proof -
  obtain v where v: "uart_run uart_start [79, 75, 13] [] v" "line_ok v" "pend v = [79, 75, 13]"
    using receive_all[of "[79, 75, 13]"] by auto
  have sh: "short [79, 75, 13]" by (rule short_small) simp
  obtain ms u where r: "uart_run uart_start [79, 75, 13] ms u" "uart_line_step u = Some (None, False, u)"
    using passes[OF v(1,2)] v(3) sh by auto
  from uart_lines_delivered[OF r(1) uart_start_ok sh] obtain d where d: "[79, 75, 13] = d @ pend u" "closed d"
    "ms = List.map_filter message (lines d)" "\<forall>c \<in> set (pend u). \<not> eol c" using r(2) by auto
  have "pend u = []"
  proof (rule ccontr)
    assume "pend u \<noteq> []"
    then have "last (pend u) = last (d @ pend u)" "last (pend u) \<in> set (pend u)" by simp_all
    then show False using d(4) unfolding d(1)[symmetric] by (auto simp: eol_def)
  qed
  moreover have "lines [79, 75, 13] = [[79, 75]]"
    using lines_line[of "[79, 75]" 13 "[]"] by (simp add: eol_def lines_none)
  ultimately show ?thesis using r(1) d(1,3) by (auto simp: message_def List.map_filter_def)
qed

section \<open>Long lines\<close>

lemma count_passes:
  assumes "uart_run u0 rx ms u" "line_ok u" "cmp_cnt u = 0" "n < avail u" "\<forall>c \<in> set (take n (pend u)). \<not> eol c"
  shows "\<exists>u'. uart_run u0 rx ms u' \<and> line_ok u' \<and> pend u' = pend u \<and> read_p u' = read_p u \<and> unat (cmp_cnt u') = n"
  using assms(4,5)
proof (induction n)
  case 0
  then show ?case using assms(1-3) by auto
next
  case (Suc n)
  have "set (take n (pend u)) \<subseteq> set (take (Suc n) (pend u))" by (rule set_take_subset_set_take) simp
  with Suc obtain v where v: "uart_run u0 rx ms v" "line_ok v" "pend v = pend u" "read_p v = read_p u" "unat (cmp_cnt v) = n"
    by auto
  have av: "avail v = avail u" using v(3) length_pend[of v] length_pend[of u] by simp
  have "pend u ! n \<in> set (take (Suc n) (pend u))" using Suc.prems(1) by (simp add: take_Suc_conv_app_nth)
  then have "\<not> eol (pend v ! unat (cmp_cnt v))" using Suc.prems(2) v(3,5) by simp
  from step_wait[OF v(2) _ this] Suc.prems(1) av v(5) obtain u' where u': "uart_line_step v = Some (None, True, u')"
    "line_ok u'" "pend u' = pend v" "unat (cmp_cnt u') = n + 1" "read_p u' = read_p v" by auto
  from uart_run.pass[OF v(1) u'(1)] show ?case using u' v by auto
qed

text \<open>C28: A line of more than 1024 and at most 2046 bytes is not refused: the reader copies it into the 1024
  bytes of its message buffer and writes behind its end.\<close>

theorem long_line_overflows:
  assumes "1024 < length l" "length l < 2047" "\<forall>c \<in> set l. \<not> eol c"
  shows "\<exists>u. uart_run uart_start (l @ [13]) [] u \<and> uart_line_step u = None"
proof -
  obtain v where v: "uart_run uart_start (l @ [13]) [] v" "line_ok v" "pend v = l @ [13]" "read_p v = 0" "cmp_cnt v = 0"
    using receive_all[of "l @ [13]"] assms(2) by auto
  have av: "avail v = length l + 1" using v(3) length_pend[of v] by simp
  obtain u where u: "uart_run uart_start (l @ [13]) [] u" "line_ok u" "pend u = l @ [13]" "read_p u = 0"
    "unat (cmp_cnt u) = length l"
    using count_passes[OF v(1,2,5), of "length l"] av v(3,4) assms(3) by auto
  have ok: "uart_ok u" using u(2) by (simp add: line_ok_def)
  have au: "avail u = length l + 1" using u(3) length_pend[of u] by simp
  then have ne: "read_p u \<noteq> write_p u" using avail_cases(3)[OF ok] by simp
  have len: "length (recv_buf u) = 2048" using ok by (simp add: uart_ok_def)
  have "pend u ! length l = recv_buf u ! length l"
    using au assms(2) u(4) nth_upt[of 0 "length l" "avail u"] by (simp add: pend_def del: upt_Suc)
  then have b: "recv_buf u ! length l = 13" using u(3) by simp
  have "memcpy (replicate 1024 0) (int 0) (recv_buf u) (int 0) (int (length l)) = None"
    unfolding memcpy_nat using assms(1) by simp
  then have "copy_line u = None" using u(4,5) assms(2) by (simp add: copy_line_def Let_def)
  then have "uart_line_step u = None"
    using ne b len u(4,5) assms by (simp add: uart_line_step_def Let_def get_byte_def eol_def)
  then show ?thesis using u(1) by blast
qed

theorem long_line_overflows_witness:
  "\<exists>u. uart_run uart_start (replicate 1100 65 @ [13]) [] u \<and> uart_line_step u = None"
  by (rule long_line_overflows) (simp_all add: eol_def)

end
