(* ===== verification/Boot_poc.thy ===== *)
theory Boot_poc
  imports Boot_text Boot_flash Boot_uart
begin

text \<open>
  The upgrade protocol of the boot loader (\<open>drv/poc.c\<close>): the modem announces a firmware version, downloads
  it, and hands it over in packets of 256 bytes, which the boot loader checks, writes to the application
  area and reads back. \<open>poc_task\<close> is the state switch \<open>poc_control\<close> followed by passes of the line reader
  of \<open>Boot_uart\<close>. The bytes sent to the modem are collected in \<open>uart_sent\<close>.
\<close>

section \<open>State\<close>

datatype poc_device_status_t = POC_DEVICE_STATUS_STARTING | POC_DEVICE_STATUS_CHECKED_OK
  | POC_DEVICE_STATUS_ENTER_OK | POC_DEVICE_STATUS_SIM_OK | POC_DEVICE_STATUS_SIM_ERROR
  | POC_DEVICE_STATUS_LANDING | POC_DEVICE_STATUS_LAND_OUT | POC_DEVICE_STATUS_LAND_SUCCESSED
  | POC_DEVICE_STATUS_SHUTDOWN | POC_DEVICE_STATUS_SHUTDOWNING | POC_DEVICE_VER_UPGRADE
  | POC_DEVICE_VER_SAME | POC_DEVICE_VER_DWONLOAD | POC_DEVICE_VER_DWONLOAD_SUCCESS

record poc_device_t =
  poc_status :: poc_device_status_t
  down_status :: u8
  down_pack_cnt :: u16
  pack_sum :: u16
  server_soft_ver :: "u8 list"
  server_soft_id :: "u8 list"

record device_cfg_t =
  init_flag :: u32
  cfg_ver :: "u8 list"

text \<open>The last fields are static variables of \<open>poc_task\<close> and \<open>poc_uart_msg_deal\<close>.\<close>

record boot =
  device_uart2 :: line_reader
  uart_sent :: "u8 list"
  poc_device :: poc_device_t
  device_cfg :: device_cfg_t
  boot_flash :: flash
  SysTick_Cnt :: "64 word"
  resend_timer :: u32
  send_times :: u8
  pack_cnt :: u16
  old_send_cnt :: u16
  erase_flag :: u8

definition set_status :: "poc_device_status_t \<Rightarrow> boot \<Rightarrow> boot" where
  "set_status x s = s\<lparr>poc_device := (poc_device s)\<lparr>poc_status := x\<rparr>\<rparr>"

text \<open>The other files declare the 64-bit counter of \<open>stm32f10x_it.c\<close> as a \<open>uint32_t\<close>, and so read its low word.\<close>

definition tick_now :: "boot \<Rightarrow> u32" where
  "tick_now s = ucast (SysTick_Cnt s)"

definition SysTick_Handler :: "boot \<Rightarrow> boot" where
  "SysTick_Handler s = s\<lparr>SysTick_Cnt := SysTick_Cnt s + 1\<rparr>"

definition uart2_send_string :: "u8 list \<Rightarrow> boot \<Rightarrow> boot" where
  "uart2_send_string str s = s\<lparr>uart_sent := uart_sent s @ str\<rparr>"

section \<open>Commands\<close>

datatype poc_cmd_t = ATCMD_TEST | ATCMD_ATE0 | ATCMD_CPIN | ATCMD_POC_OPENING | ATCMD_POC_KEY_SOUND
  | ATCMD_POC_CCLK | ATCMD_POC_CSQ | ATCMD_POC_REFRESH_GROUP | ATCMD_POWER_OFF | ATCMD_POC_CREG
  | ATCMD_ATZADSET | ATCMD_POC_MEMBER_SIMPLE_MSG | ATCMD_POC_LAND | ATCMD_POC_LAND_OUT
  | ATCMD_POWER_RST | ATCMD_GET_MEID | ATCMD_QIOTRPT | ATCMD_POC_REFRESH_GPS | ATCMD_POC_PARA_GET

definition poc_cmds :: "(poc_cmd_t \<times> u8 list) list" where
  "poc_cmds = [
     (ATCMD_TEST, ascii ''AT'' @ crlf),
     (ATCMD_ATE0, ascii ''ATE0'' @ crlf),
     (ATCMD_CPIN, ascii ''AT+CPIN?'' @ crlf),
     (ATCMD_POC_OPENING, ascii ''AT+POC=000000010101'' @ crlf),
     (ATCMD_POC_CCLK, ascii ''AT+CCLK?'' @ crlf),
     (ATCMD_POC_CSQ, ascii ''AT+CSQ'' @ crlf),
     (ATCMD_POC_REFRESH_GROUP, ascii ''AT+POC=0D0000'' @ crlf),
     (ATCMD_POWER_OFF, ascii ''AT+QPOWD=0'' @ crlf),
     (ATCMD_POC_CREG, ascii ''AT+QNWINFO'' @ crlf),
     (ATCMD_ATZADSET, ascii ''AT+ZADSET=d'' @ crlf),
     (ATCMD_POC_MEMBER_SIMPLE_MSG, ascii ''AT+POC=10000020'' @ crlf),
     (ATCMD_POC_LAND, ascii ''AT+POC=030000'' @ crlf),
     (ATCMD_POC_LAND_OUT, ascii ''AT+POC=050000'' @ crlf),
     (ATCMD_POWER_RST, ascii ''AT+CFUN=1,1'' @ crlf),
     (ATCMD_GET_MEID, ascii ''AT^MEID'' @ crlf),
     (ATCMD_QIOTRPT, ascii ''AT+QIOTRPT=1,0'' @ crlf),
     (ATCMD_POC_REFRESH_GPS, ascii ''AT+QGPSGNMEA='' @ [34] @ ascii ''GGA'' @ [34] @ crlf),
     (ATCMD_POC_PARA_GET, ascii ''AT+POC=020000'' @ crlf)]"

definition poc_send_cmd :: "poc_cmd_t \<Rightarrow> boot \<Rightarrow> boot" where
  "poc_send_cmd poc_cmd s =
     fold (\<lambda>(cmd, str). if poc_cmd = cmd then uart2_send_string str else id) poc_cmds s"

definition poc_device_zero :: poc_device_t where
  "poc_device_zero = \<lparr>poc_status = POC_DEVICE_STATUS_STARTING, down_status = 0, down_pack_cnt = 0, pack_sum = 0,
     server_soft_ver = replicate 32 0, server_soft_id = replicate 4 0\<rparr>"

definition poc_init :: "boot \<Rightarrow> boot" where
  "poc_init s =
     (let s1 = s\<lparr>device_uart2 := uart2_config (device_uart2 s)\<rparr>;
          s2 = uart2_send_string (ascii ''AT+CFUN=1,1'' @ crlf) s1;
          s3 = uart2_send_string (ascii ''AT+CFUN=1,1'' @ crlf) s2
      in s3\<lparr>poc_device := poc_device_zero\<rparr>)"

section \<open>Messages from the modem\<close>

text \<open>A \<open>uint16_t\<close> filled byte by byte, and its bytes swapped.\<close>

definition u16_le :: "u8 list \<Rightarrow> u16" where
  "u16_le bs = ucast (bs ! 0) OR push_bit 8 (ucast (bs ! 1))"

definition swap16 :: "u16 \<Rightarrow> u16" where
  "swap16 x = (drop_bit 8 x AND 0x00ff) OR (push_bit 8 x AND 0xff00)"

definition msg_ok :: "boot \<Rightarrow> boot" where
  "msg_ok s =
     (if poc_status (poc_device s) = POC_DEVICE_STATUS_STARTING then set_status POC_DEVICE_STATUS_CHECKED_OK s
      else if poc_status (poc_device s) = POC_DEVICE_STATUS_SHUTDOWN then set_status POC_DEVICE_STATUS_SHUTDOWNING s
      else s)"

definition msg_land :: "u8 list \<Rightarrow> boot \<Rightarrow> boot option" where
  "msg_land ptr s = do {
     landed \<leftarrow> mem_equal ptr 7 (ascii ''02'') 2;
     if landed then Some (set_status POC_DEVICE_STATUS_LAND_SUCCESSED s)
     else do {
       landing \<leftarrow> mem_equal ptr 7 (ascii ''01'') 2;
       Some (if landing then set_status POC_DEVICE_STATUS_LANDING s else s) } }"

text \<open>\<open>strlen(ptr) - 14\<close> is computed in \<open>size_t\<close>. The version string must end within its array.\<close>

definition msg_version :: "u8 list \<Rightarrow> boot \<Rightarrow> boot option" where
  "msg_version ptr s = do {
     same_model \<leftarrow> mem_equal ptr 14 (cfg_ver (device_cfg s)) 12;
     if \<not> same_model then Some s
     else do {
       n \<leftarrow> strlen (cfg_ver (device_cfg s));
       same \<leftarrow> mem_equal ptr 14 (cfg_ver (device_cfg s)) n;
       if same
       then Some (set_status POC_DEVICE_VER_SAME
         (uart2_send_string (ascii ''AT+QPOWD=0'' @ crlf) (set_status POC_DEVICE_VER_DWONLOAD_SUCCESS s)))
       else do {
         len \<leftarrow> strlen ptr;
         ver \<leftarrow> memcpy (replicate 32 0) 0 ptr 14 (int (unat ((word_of_nat len - 14 :: u32) mod 32)));
         soft_id \<leftarrow> memcpy (server_soft_id (poc_device s)) 0 ptr 9 4;
         Some (s\<lparr>poc_device := (poc_device s)\<lparr>poc_status := POC_DEVICE_VER_DWONLOAD,
           server_soft_ver := take 18 ver @ replicate 14 0, server_soft_id := soft_id\<rparr>\<rparr>) } } }"

definition msg_downloading :: "boot \<Rightarrow> boot" where
  "msg_downloading s = s\<lparr>poc_device := (poc_device s)\<lparr>down_status := 1\<rparr>\<rparr>"

definition msg_downloaded :: "u8 list \<Rightarrow> boot \<Rightarrow> boot option" where
  "msg_downloaded ptr s = do {
     sum \<leftarrow> str_to_hex (drop 9 ptr) 4;
     Some (s\<lparr>poc_device := (poc_device s)\<lparr>poc_status := POC_DEVICE_VER_UPGRADE, pack_sum := swap16 (u16_le sum)\<rparr>\<rparr>) }"

abbreviation (input) START_ADDRESS :: u32 where "START_ADDRESS \<equiv> 0x08004000"

text \<open>The checksum, the number and the data of a packet.\<close>

definition parse_packet :: "u8 list \<Rightarrow> (u16 \<times> u16 \<times> u8 list) option" where
  "parse_packet ptr = do {
     crc \<leftarrow> str_to_hex (drop 536 ptr) 4;
     cnt1 \<leftarrow> str_to_hex (drop 14 ptr) 4;
     dat256 \<leftarrow> str_to_hex (drop 24 ptr) 512;
     Some (u16_le crc, swap16 (u16_le cnt1), dat256) }"

definition erase_app :: "flash_hw \<Rightarrow> boot \<Rightarrow> boot option" where
  "erase_app hw s =
     (if erase_flag s = 0
      then do { f \<leftarrow> Flash_Erase hw START_ADDRESS (390 * 1024) (boot_flash s);
                Some (s\<lparr>erase_flag := 1, boot_flash := f\<rparr>) }
      else Some s)"

definition store_packet :: "flash_hw \<Rightarrow> u8 list \<Rightarrow> boot \<Rightarrow> boot option" where
  "store_packet hw dat256 s = do {
     let addr = word_of_nat (unat (down_pack_cnt (poc_device s)) * 256) + START_ADDRESS;
     f \<leftarrow> Flash_Write hw addr dat256 256 (boot_flash s);
     let dat256_temp = Flash_Read_for_download addr 256 (fl_mem f);
     Some (s\<lparr>boot_flash := f, poc_device := (poc_device s)\<lparr>down_pack_cnt :=
       (if dat256_temp = dat256 then down_pack_cnt (poc_device s) + 1 else down_pack_cnt (poc_device s))\<rparr>\<rparr>) }"

definition msg_packet :: "flash_hw \<Rightarrow> u8 list \<Rightarrow> boot \<Rightarrow> boot option" where
  "msg_packet hw ptr s = do {
     len \<leftarrow> strlen ptr;
     if len < 540 then Some s
     else do {
       (crc, cnt2, dat256) \<leftarrow> parse_packet ptr;
       sum \<leftarrow> calcrc dat256 256;
       if crc = sum \<and> unat cnt2 = unat (down_pack_cnt (poc_device s)) + 1
       then do { s1 \<leftarrow> erase_app hw s; store_packet hw dat256 s1 }
       else Some s } }"

definition poc_uart_msg_deal :: "flash_hw \<Rightarrow> u8 list \<Rightarrow> boot \<Rightarrow> boot option" where
  "poc_uart_msg_deal hw ptr s = do {
     ok \<leftarrow> mem_equal ptr 0 (ascii ''OK'') 2;
     if ok then Some (msg_ok s) else do {
     land \<leftarrow> mem_equal ptr 0 (ascii ''+POC:82'') 7;
     if land then msg_land ptr s else do {
     ver \<leftarrow> mem_equal ptr 0 (ascii ''+POC:42'') 7;
     if ver then msg_version ptr s else do {
     downloading \<leftarrow> mem_equal ptr 0 (ascii ''+POC:4300'') 9;
     if downloading then Some (msg_downloading s) else do {
     downloaded \<leftarrow> mem_equal ptr 0 (ascii ''+POC:4302'') 9;
     if downloaded then msg_downloaded ptr s else do {
     packet \<leftarrow> mem_equal ptr 0 (ascii ''+POC:4303'') 9;
     if packet then msg_packet hw ptr s else Some s } } } } } }"

section \<open>The task\<close>

definition send_download :: "boot \<Rightarrow> boot option" where
  "send_download s = do {
     let cmd = ascii ''AT+POC=430000000000'' @ crlf;
     cmd1 \<leftarrow> memcpy cmd 15 (server_soft_id (poc_device s)) 0 4;
     cmd2 \<leftarrow> memcpy cmd1 19 crlf 0 2;
     Some (uart2_send_string cmd2 (s\<lparr>resend_timer := tick_now s, send_times := send_times s + 1\<rparr>)) }"

text \<open>The last byte of the array is the terminator of the literal; only 21 bytes are sent.\<close>

definition send_request :: "boot \<Rightarrow> boot option" where
  "send_request s = do {
     let cmd = ascii ''AT+POC=430000010001'' @ crlf @ [0];
     let n = down_pack_cnt (poc_device s) + 1;
     num \<leftarrow> hex_to_str [ucast (drop_bit 8 n AND 0x00ff), ucast (n AND 0x00ff)] 2;
     cmd1 \<leftarrow> memcpy cmd 15 num 0 5;
     cmd2 \<leftarrow> memcpy cmd1 19 crlf 0 2;
     Some (uart2_send_string (take 21 cmd2)
       (s\<lparr>old_send_cnt := down_pack_cnt (poc_device s), pack_cnt := n, resend_timer := tick_now s\<rparr>)) }"

definition poc_control :: "boot \<Rightarrow> boot option" where
  "poc_control s0 = do {
     let s = (if resend_timer s0 > tick_now s0 then s0\<lparr>resend_timer := tick_now s0\<rparr> else s0);
     let elapsed = tick_now s - resend_timer s;
     case poc_status (poc_device s) of
       POC_DEVICE_STATUS_STARTING \<Rightarrow>
         Some (if elapsed > 1000 then poc_send_cmd ATCMD_ATE0 (s\<lparr>resend_timer := tick_now s\<rparr>) else s)
     | POC_DEVICE_STATUS_CHECKED_OK \<Rightarrow>
         Some (if elapsed > 5000 then poc_send_cmd ATCMD_POC_OPENING (s\<lparr>resend_timer := tick_now s\<rparr>) else s)
     | POC_DEVICE_STATUS_LAND_SUCCESSED \<Rightarrow>
         (case server_soft_ver (poc_device s) of [] \<Rightarrow> None | c # _ \<Rightarrow>
           Some (if c = 0 \<and> elapsed > 2000
             then uart2_send_string (ascii ''AT+POC=420000'' @ crlf) (s\<lparr>resend_timer := tick_now s\<rparr>) else s))
     | POC_DEVICE_VER_DWONLOAD \<Rightarrow>
         (if down_pack_cnt (poc_device s) = 0 \<and> (elapsed > 5000 \<or> send_times s = 0) \<and> down_status (poc_device s) = 0
          then send_download s else Some s)
     | POC_DEVICE_VER_UPGRADE \<Rightarrow>
         (if down_pack_cnt (poc_device s) < pack_sum (poc_device s)
          then if elapsed > 2000 \<or> old_send_cnt s \<noteq> down_pack_cnt (poc_device s) then send_request s else Some s
          else Some (uart2_send_string (ascii ''AT+QPOWD=0'' @ crlf) (set_status POC_DEVICE_VER_DWONLOAD_SUCCESS s)))
     | _ \<Rightarrow> Some s }"

text \<open>One pass of the message loop: whether it goes on, and the state.\<close>

definition uart_pass :: "flash_hw \<Rightarrow> boot \<Rightarrow> (bool \<times> boot) option" where
  "uart_pass hw s = do {
     (m, go, u) \<leftarrow> uart_line_step (device_uart2 s);
     s1 \<leftarrow> (case m of None \<Rightarrow> Some s | Some ptr \<Rightarrow> poc_uart_msg_deal hw ptr s);
     Some (go, s1\<lparr>device_uart2 := u\<rparr>) }"

partial_function (option) uart_deal :: "flash_hw \<Rightarrow> boot \<Rightarrow> boot option" where
  "uart_deal hw s = Option.bind (uart_pass hw s) (\<lambda>(go, s1). if go then uart_deal hw s1 else Some s1)"

definition poc_task :: "flash_hw \<Rightarrow> boot \<Rightarrow> boot option" where
  "poc_task hw s = Option.bind (poc_control s) (uart_deal hw)"

end
