(* ===== verification/Boot_upgrade.thy ===== *)
theory Boot_upgrade
  imports Boot_poc
begin

text \<open>
  What the upgrade protocol guarantees, over every order of received bytes, clock ticks and steps of
  \<open>poc_task\<close>: the application area holds the accepted packets, all of them checked, and nothing else of the
  flash changes; valid packets in order are installed.
\<close>

section \<open>Histories\<close>

text \<open>\<open>boot_run hw s0 ms s\<close>: from \<open>s0\<close> to \<open>s\<close>, with \<open>ms\<close> the messages taken from the line.\<close>

inductive boot_run :: "flash_hw \<Rightarrow> boot \<Rightarrow> u8 list list \<Rightarrow> boot \<Rightarrow> bool" for hw :: flash_hw and s0 :: boot where
  start: "boot_run hw s0 [] s0"
| byte: "\<lbrakk>boot_run hw s0 ms s; USART2_IRQHandler b (device_uart2 s) = Some u\<rbrakk> \<Longrightarrow>
    boot_run hw s0 ms (s\<lparr>device_uart2 := u\<rparr>)"
| tick: "boot_run hw s0 ms s \<Longrightarrow> boot_run hw s0 ms (SysTick_Handler s)"
| control: "\<lbrakk>boot_run hw s0 ms s; poc_control s = Some s'\<rbrakk> \<Longrightarrow> boot_run hw s0 ms s'"
| pass: "\<lbrakk>boot_run hw s0 ms s; uart_line_step (device_uart2 s) = Some (m, go, u); uart_pass hw s = Some (go, s')\<rbrakk> \<Longrightarrow>
    boot_run hw s0 (ms @ (case m of None \<Rightarrow> [] | Some l \<Rightarrow> [l])) s'"

lemma boot_run_trans:
  assumes "boot_run hw s1 ms2 s2" "boot_run hw s0 ms1 s1"
  shows "boot_run hw s0 (ms1 @ ms2) s2"
  using assms
proof (induction rule: boot_run.induct)
  case (pass ms s m go u s')
  from boot_run.pass[OF pass.IH[OF pass.prems] pass.hyps(2,3)] show ?case by simp
qed (auto intro: boot_run.intros)

text \<open>A call of \<open>poc_task\<close> is such a history.\<close>

lemma uart_deal_run:
  assumes "uart_deal hw s = Some s'"
  shows "\<exists>ms. boot_run hw s ms s'"
proof (rule uart_deal.raw_induct[where P = "\<lambda>hw s s'. \<exists>ms. boot_run hw s ms s'", OF _ assms])
  fix g hw s s'
  assume IH: "\<And>hw s s'. g hw s = Some s' \<Longrightarrow> \<exists>ms. boot_run hw s ms s'"
    and "Option.bind (uart_pass hw s) (\<lambda>(go, s1). if go then g hw s1 else Some s1) = Some s'"
  then obtain go s1 where p: "uart_pass hw s = Some (go, s1)" "(if go then g hw s1 else Some s1) = Some s'"
    by (auto simp: bind_eq_Some_conv)
  then obtain m u where "uart_line_step (device_uart2 s) = Some (m, go, u)"
    by (auto simp: uart_pass_def bind_eq_Some_conv)
  from boot_run.pass[OF boot_run.start this p(1)] obtain ms where r: "boot_run hw s ms s1" by auto
  show "\<exists>ms. boot_run hw s ms s'"
  proof (cases go)
    case True
    then have "g hw s1 = Some s'" using p(2) by simp
    from IH[OF this] obtain ms2 where "boot_run hw s1 ms2 s'" by blast
    from boot_run_trans[OF this r] show ?thesis by blast
  qed (use p(2) r in auto)
qed

lemma poc_task_run:
  assumes "poc_task hw s = Some s'"
  shows "\<exists>ms. boot_run hw s ms s'"
proof -
  from assms obtain s1 where "poc_control s = Some s1" "uart_deal hw s1 = Some s'"
    by (auto simp: poc_task_def bind_eq_Some_conv)
  then show ?thesis using uart_deal_run boot_run_trans[OF _ boot_run.control[OF boot_run.start]] by blast
qed

section \<open>What a step may change\<close>

lemma send_fields [simp]:
  "boot_flash (uart2_send_string c s) = boot_flash s" "erase_flag (uart2_send_string c s) = erase_flag s"
  "poc_device (uart2_send_string c s) = poc_device s" "device_uart2 (uart2_send_string c s) = device_uart2 s"
  "device_cfg (uart2_send_string c s) = device_cfg s"
  by (simp_all add: uart2_send_string_def)

lemma send_cmd_fields [simp]:
  "boot_flash (poc_send_cmd c s) = boot_flash s" "erase_flag (poc_send_cmd c s) = erase_flag s"
  "poc_device (poc_send_cmd c s) = poc_device s" "device_uart2 (poc_send_cmd c s) = device_uart2 s"
  "device_cfg (poc_send_cmd c s) = device_cfg s"
  unfolding poc_send_cmd_def by (rule fold_keeps, auto)+

lemma set_status_fields [simp]:
  "boot_flash (set_status x s) = boot_flash s" "erase_flag (set_status x s) = erase_flag s"
  "poc_device (set_status x s) = (poc_device s)\<lparr>poc_status := x\<rparr>" "device_uart2 (set_status x s) = device_uart2 s"
  "device_cfg (set_status x s) = device_cfg s"
  by (simp_all add: set_status_def)

lemma send_download_fields:
  assumes "send_download s = Some s'"
  shows "boot_flash s' = boot_flash s" "erase_flag s' = erase_flag s" "poc_device s' = poc_device s"
    "device_uart2 s' = device_uart2 s" "device_cfg s' = device_cfg s"
  using assms by (auto simp: send_download_def bind_eq_Some_conv Let_def)

lemma send_request_fields:
  assumes "send_request s = Some s'"
  shows "boot_flash s' = boot_flash s" "erase_flag s' = erase_flag s" "poc_device s' = poc_device s"
    "device_uart2 s' = device_uart2 s" "device_cfg s' = device_cfg s"
  using assms by (auto simp: send_request_def bind_eq_Some_conv Let_def)

lemma control_keeps:
  assumes "poc_control s = Some s'"
  shows "boot_flash s' = boot_flash s" "erase_flag s' = erase_flag s" "device_uart2 s' = device_uart2 s"
    "device_cfg s' = device_cfg s"
    "poc_device s' = poc_device s \<or> poc_device s' = (poc_device s)\<lparr>poc_status := POC_DEVICE_VER_DWONLOAD_SUCCESS\<rparr> \<and>
       poc_status (poc_device s) = POC_DEVICE_VER_UPGRADE \<and> pack_sum (poc_device s) \<le> down_pack_cnt (poc_device s)"
proof -
  have n: "poc_device (if b then s\<lparr>resend_timer := x\<rparr> else s) = poc_device s"
    "boot_flash (if b then s\<lparr>resend_timer := x\<rparr> else s) = boot_flash s"
    "erase_flag (if b then s\<lparr>resend_timer := x\<rparr> else s) = erase_flag s"
    "device_uart2 (if b then s\<lparr>resend_timer := x\<rparr> else s) = device_uart2 s"
    "device_cfg (if b then s\<lparr>resend_timer := x\<rparr> else s) = device_cfg s" for b x by simp_all
  show "boot_flash s' = boot_flash s" "erase_flag s' = erase_flag s" "device_uart2 s' = device_uart2 s"
    "device_cfg s' = device_cfg s"
    "poc_device s' = poc_device s \<or> poc_device s' = (poc_device s)\<lparr>poc_status := POC_DEVICE_VER_DWONLOAD_SUCCESS\<rparr> \<and>
       poc_status (poc_device s) = POC_DEVICE_VER_UPGRADE \<and> pack_sum (poc_device s) \<le> down_pack_cnt (poc_device s)"
    using assms
    by (auto simp: poc_control_def Let_def n not_less send_download_fields send_request_fields
        split: poc_device_status_t.splits if_splits list.splits)
qed

text \<open>A packet that passes the checks of \<open>msg_packet\<close> for the position \<open>k\<close>.\<close>

definition carries :: "u8 list \<Rightarrow> nat \<Rightarrow> u8 list \<Rightarrow> bool" where
  "carries ptr k dat \<longleftrightarrow> mem_equal ptr 0 (ascii ''+POC:4303'') 9 = Some True \<and>
     (\<exists>crc n. parse_packet ptr = Some (crc, n, dat) \<and> calcrc dat 256 = Some crc \<and> unat n = k + 1)"

lemma parse_packet_length: "parse_packet ptr = Some (crc, n, dat) \<Longrightarrow> length dat = 256"
  by (auto simp: parse_packet_def bind_eq_Some_conv dest: str_to_hex_length)

lemma deal_cases:
  assumes "poc_uart_msg_deal hw ptr s = Some s'"
  obtains (other) "boot_flash s' = boot_flash s" "erase_flag s' = erase_flag s"
      "down_pack_cnt (poc_device s') = down_pack_cnt (poc_device s)"
      "poc_status (poc_device s') = POC_DEVICE_VER_DWONLOAD_SUCCESS \<Longrightarrow>
         poc_device s' = poc_device s \<or> poc_device s' = (poc_device s)\<lparr>down_status := 1\<rparr>"
    | (packet) dat s1 where "carries ptr (unat (down_pack_cnt (poc_device s))) dat"
      "erase_app hw s = Some s1" "store_packet hw dat s1 = Some s'"
proof -
  from assms consider "s' = msg_ok s" | "msg_land ptr s = Some s'" | "msg_version ptr s = Some s'"
    | "s' = msg_downloading s" | "msg_downloaded ptr s = Some s'" | "s' = s"
    | "mem_equal ptr 0 (ascii ''+POC:4303'') 9 = Some True" "msg_packet hw ptr s = Some s'"
    unfolding poc_uart_msg_deal_def by (auto simp: bind_eq_Some_conv split: if_splits)
  then show thesis
  proof cases
    case 7
    then consider "s' = s" | dat s1 where "carries ptr (unat (down_pack_cnt (poc_device s))) dat"
      "erase_app hw s = Some s1" "store_packet hw dat s1 = Some s'"
      unfolding msg_packet_def carries_def by (auto simp: bind_eq_Some_conv split: if_splits)
    then show thesis using other packet by cases auto
  qed (auto intro!: other simp: msg_ok_def msg_land_def msg_version_def msg_downloading_def msg_downloaded_def
      bind_eq_Some_conv split: if_splits)
qed

lemma pass_cases:
  assumes "uart_line_step (device_uart2 s) = Some (m, go, u)" "uart_pass hw s = Some (go, s')"
  obtains "m = None" "s' = s\<lparr>device_uart2 := u\<rparr>"
    | ptr s1 where "m = Some ptr" "poc_uart_msg_deal hw ptr s = Some s1" "s' = s1\<lparr>device_uart2 := u\<rparr>"
  using assms by (cases m) (auto simp: uart_pass_def bind_eq_Some_conv)

section \<open>The application area\<close>

definition packet_at :: "nat \<Rightarrow> u32" where
  "packet_at k = word_of_nat (k * 256) + START_ADDRESS"

lemma unat_packet_at: "k < 65536 \<Longrightarrow> unat (packet_at k) = 0x08004000 + 256 * k"
  unfolding packet_at_def by (simp add: unat_word_ariths unat_of_nat_small)

lemma unat_from:
  fixes p a :: u32
  shows "unat (p - a) = (if unat a \<le> unat p then unat p - unat a else unat p + 2 ^ 32 - unat a)"
  by (simp add: unat_sub_if' word_le_nat_alt)

lemma peek_nth: "i < n \<Longrightarrow> Flash_Read_for_download a n m ! i = m (a + word_of_nat i)"
  by (simp add: Flash_Read_for_download_def)

lemma peek_cong:
  assumes "\<And>i. i < n \<Longrightarrow> m (a + word_of_nat i) = m' (a + word_of_nat i)"
  shows "Flash_Read_for_download a n m = Flash_Read_for_download a n m'"
  using assms by (simp add: Flash_Read_for_download_def)

definition image_ok :: "u8 list list \<Rightarrow> boot \<Rightarrow> bool" where
  "image_ok ms s \<longleftrightarrow> (erase_flag s = 0 \<longrightarrow> down_pack_cnt (poc_device s) = 0) \<and>
     (\<forall>k < unat (down_pack_cnt (poc_device s)). \<exists>ptr \<in> set ms.
        carries ptr k (Flash_Read_for_download (packet_at k) 256 (fl_mem (boot_flash s))))"

lemma image_ok_mono:
  assumes "image_ok ms s" "set ms \<subseteq> set ms'" "boot_flash s' = boot_flash s" "erase_flag s' = erase_flag s"
    "down_pack_cnt (poc_device s') = down_pack_cnt (poc_device s)"
  shows "image_ok ms' s'"
  using assms unfolding image_ok_def by (metis subsetD)

lemma store_packet_cases:
  assumes "store_packet hw dat s = Some s'"
  obtains f where "Flash_Write hw (packet_at (unat (down_pack_cnt (poc_device s)))) dat 256 (boot_flash s) = Some f"
    "s' = s\<lparr>boot_flash := f, poc_device := (poc_device s)\<lparr>down_pack_cnt :=
       (if Flash_Read_for_download (packet_at (unat (down_pack_cnt (poc_device s)))) 256 (fl_mem f) = dat
        then down_pack_cnt (poc_device s) + 1 else down_pack_cnt (poc_device s))\<rparr>\<rparr>"
  using assms by (auto simp: store_packet_def packet_at_def bind_eq_Some_conv Let_def)

lemma erase_app_cases:
  assumes "erase_app hw s = Some s1"
  obtains "erase_flag s \<noteq> 0" "s1 = s"
    | f where "erase_flag s = 0" "Flash_Erase hw START_ADDRESS (390 * 1024) (boot_flash s) = Some f"
      "s1 = s\<lparr>erase_flag := 1, boot_flash := f\<rparr>"
  using assms by (auto simp: erase_app_def bind_eq_Some_conv split: if_splits)

text \<open>Writing the packet \<open>n\<close> keeps the packets before it.\<close>

lemma write_keeps_packet:
  assumes "chip_local hw" "Flash_Write hw (packet_at n) dat 256 f = Some f'" "k < n" "n < 65536"
  shows "Flash_Read_for_download (packet_at k) 256 (fl_mem f') = Flash_Read_for_download (packet_at k) 256 (fl_mem f)"
proof (rule peek_cong)
  fix i :: nat assume "i < 256"
  then have "unat (packet_at k + word_of_nat i) = 0x08004000 + 256 * k + i"
    using assms(3,4) unat_packet_at[of k] by (simp add: unat_word_ariths unat_of_nat_small)
  then have "256 \<le> unat (packet_at k + word_of_nat i - packet_at n)"
    using unat_packet_at[OF assms(4)] assms(3,4) \<open>i < 256\<close> unfolding unat_from by simp
  from Flash_Write_local[OF assms(1,2) _ this]
  show "fl_mem f' (packet_at k + word_of_nat i) = fl_mem f (packet_at k + word_of_nat i)" by simp
qed

lemma packet_keeps_image:
  assumes "chip_local hw" "image_ok ms s" "ptr \<in> set ms'" "set ms \<subseteq> set ms'"
    "carries ptr (unat (down_pack_cnt (poc_device s))) dat" "erase_app hw s = Some s1" "store_packet hw dat s1 = Some s'"
  shows "image_ok ms' s'"
proof -
  let ?n = "unat (down_pack_cnt (poc_device s))"
  from assms(6) have s1: "erase_flag s1 \<noteq> 0" "poc_device s1 = poc_device s" "image_ok ms s1"
    using assms(2) by (cases rule: erase_app_cases; simp add: image_ok_def)+
  from assms(7) obtain f where f: "Flash_Write hw (packet_at ?n) dat 256 (boot_flash s1) = Some f"
    "s' = s1\<lparr>boot_flash := f, poc_device := (poc_device s)\<lparr>down_pack_cnt :=
       (if Flash_Read_for_download (packet_at ?n) 256 (fl_mem f) = dat
        then down_pack_cnt (poc_device s) + 1 else down_pack_cnt (poc_device s))\<rparr>\<rparr>"
    by (rule store_packet_cases) (simp add: s1(2))
  from assms(5) obtain m :: u16 where m: "unat m = ?n + 1" by (auto simp: carries_def)
  then have n: "?n + 1 < 65536" using unsigned_less[of m, where 'a=nat] by simp
  then have inc: "unat (down_pack_cnt (poc_device s) + 1) = ?n + 1" by (simp add: unat_word_ariths)
  have old: "\<exists>ptr \<in> set ms'. carries ptr k (Flash_Read_for_download (packet_at k) 256 (fl_mem f))" if "k < ?n" for k
  proof -
    from s1(3) that obtain q where "q \<in> set ms" "carries q k (Flash_Read_for_download (packet_at k) 256 (fl_mem (boot_flash s1)))"
      unfolding image_ok_def s1(2) by blast
    then show ?thesis using write_keeps_packet[OF assms(1) f(1) that] n assms(4) by auto
  qed
  show ?thesis
  proof (cases "Flash_Read_for_download (packet_at ?n) 256 (fl_mem f) = dat")
    case True
    then have "\<exists>ptr \<in> set ms'. carries ptr k (Flash_Read_for_download (packet_at k) 256 (fl_mem f))" if "k < ?n + 1" for k
      using old[of k] that assms(3,5) by (cases "k = ?n") auto
    then show ?thesis using True s1(1) inc by (simp add: image_ok_def f(2))
  next
    case False
    then show ?thesis using old s1(1) by (simp add: image_ok_def f(2))
  qed
qed

lemma run_image:
  assumes "boot_run hw s0 ms s" "chip_local hw" "down_pack_cnt (poc_device s0) = 0"
  shows "image_ok ms s"
  using assms(1)
proof (induction rule: boot_run.induct)
  case start
  then show ?case by (simp add: image_ok_def assms(3))
next
  case (control ms s s')
  from control.IH show ?case by (rule image_ok_mono) (use control_keeps[OF control.hyps(2)] in auto)
next
  case (pass ms s m go u s')
  from pass.hyps(2,3) show ?case
  proof (cases rule: pass_cases)
    case 1
    from pass.IH show ?thesis by (rule image_ok_mono) (use 1 in auto)
  next
    case (2 ptr s1)
    from 2(2) have "image_ok (ms @ [ptr]) s1"
    proof (cases rule: deal_cases)
      case other
      from pass.IH show ?thesis by (rule image_ok_mono) (use other in auto)
    next
      case (packet dat s2)
      show ?thesis by (rule packet_keeps_image[OF assms(2) pass.IH _ _ packet]) auto
    qed
    then show ?thesis using 2 by (simp add: image_ok_def)
  qed
qed (auto intro: image_ok_mono simp: SysTick_Handler_def)

text \<open>A successful end: every packet announced is there.\<close>

definition success_ok :: "boot \<Rightarrow> bool" where
  "success_ok s \<longleftrightarrow> (poc_status (poc_device s) = POC_DEVICE_VER_DWONLOAD_SUCCESS \<longrightarrow>
     pack_sum (poc_device s) \<le> down_pack_cnt (poc_device s))"

lemma store_packet_count:
  assumes "carries ptr (unat (down_pack_cnt (poc_device s))) dat" "erase_app hw s = Some s1" "store_packet hw dat s1 = Some s'"
  shows "poc_device s' = poc_device s \<or>
    poc_device s' = (poc_device s)\<lparr>down_pack_cnt := down_pack_cnt (poc_device s) + 1\<rparr> \<and>
    unat (down_pack_cnt (poc_device s')) = unat (down_pack_cnt (poc_device s)) + 1"
proof -
  have s1: "poc_device s1 = poc_device s" using assms(2) by (cases rule: erase_app_cases) auto
  from assms(1) obtain m :: u16 where m: "unat m = unat (down_pack_cnt (poc_device s)) + 1" by (auto simp: carries_def)
  then have "unat (down_pack_cnt (poc_device s)) + 1 < 65536" using unsigned_less[of m, where 'a=nat] by simp
  then have "unat (down_pack_cnt (poc_device s) + 1) = unat (down_pack_cnt (poc_device s)) + 1" by (simp add: unat_word_ariths)
  with s1 show ?thesis by (cases rule: store_packet_cases[OF assms(3)]) auto
qed

lemma run_success:
  assumes "boot_run hw s0 ms s" "poc_status (poc_device s0) \<noteq> POC_DEVICE_VER_DWONLOAD_SUCCESS"
  shows "success_ok s"
  using assms(1)
proof (induction rule: boot_run.induct)
  case start
  then show ?case using assms(2) by (simp add: success_ok_def)
next
  case (control ms s s')
  with control_keeps(5)[OF control.hyps(2)] show ?case by (auto simp: success_ok_def)
next
  case (pass ms s m go u s')
  from pass.hyps(2,3) show ?case
  proof (cases rule: pass_cases)
    case (2 ptr s1)
    from 2(2) have "success_ok s1"
    proof (cases rule: deal_cases)
      case other
      then show ?thesis using pass.IH by (auto simp: success_ok_def)
    next
      case (packet dat s2)
      from store_packet_count[OF packet] pass.IH show ?thesis by (auto simp: success_ok_def word_le_nat_alt)
    qed
    then show ?thesis using 2 by (simp add: success_ok_def)
  qed (use pass.IH in \<open>simp add: success_ok_def\<close>)
qed (auto simp: success_ok_def SysTick_Handler_def)

section \<open>The rest of the flash\<close>

lemma erase_app_local:
  assumes "chip_local hw" "erase_app hw s = Some s1" "390 * 1024 \<le> unat (p - START_ADDRESS)"
  shows "fl_mem (boot_flash s1) p = fl_mem (boot_flash s) p"
  using assms(2)
proof (cases rule: erase_app_cases)
  case (2 f)
  from Flash_Erase_local[OF assms(1) 2(2) _ assms(3)] 2(3) show ?thesis by simp
qed simp

lemma store_packet_local:
  assumes "chip_local hw" "store_packet hw dat s = Some s'" "256 * (unat (down_pack_cnt (poc_device s)) + 1) \<le> unat (p - START_ADDRESS)"
    "unat (down_pack_cnt (poc_device s)) < 65536"
  shows "fl_mem (boot_flash s') p = fl_mem (boot_flash s) p"
  using assms(2)
proof (cases rule: store_packet_cases)
  case (1 f)
  have "256 \<le> unat (p - packet_at (unat (down_pack_cnt (poc_device s))))"
    using assms(3,4) unsigned_less[of p, where 'a=nat] unat_packet_at[OF assms(4)] unfolding unat_from by (simp split: if_splits) arith
  from Flash_Write_local[OF assms(1) 1(1) _ this] 1(2) show ?thesis by simp
qed

lemma run_outside:
  assumes "boot_run hw s0 ms s" "chip_local hw"
    and "max (390 * 1024) (256 * (unat (down_pack_cnt (poc_device s)) + 1)) \<le> unat (p - START_ADDRESS)"
  shows "fl_mem (boot_flash s) p = fl_mem (boot_flash s0) p"
  using assms(1,3)
proof (induction rule: boot_run.induct)
  case (control ms s s')
  from control_keeps(1,5)[OF control.hyps(2)] have "boot_flash s' = boot_flash s"
    "down_pack_cnt (poc_device s') = down_pack_cnt (poc_device s)" by auto
  then show ?case using control.IH control.prems by simp
next
  case (pass ms s m go u s')
  from pass.hyps(2,3) show ?case
  proof (cases rule: pass_cases)
    case 1
    then show ?thesis using pass.IH pass.prems by simp
  next
    case (2 ptr s1)
    from 2(2) show ?thesis
    proof (cases rule: deal_cases)
      case other
      then show ?thesis using pass.IH pass.prems 2(3) by simp
    next
      case (packet dat s2)
      have le: "unat (down_pack_cnt (poc_device s)) \<le> unat (down_pack_cnt (poc_device s1))"
        using store_packet_count[OF packet] by auto
      have s2: "poc_device s2 = poc_device s" using packet(2) by (cases rule: erase_app_cases) auto
      have "fl_mem (boot_flash s1) p = fl_mem (boot_flash s2) p"
        by (rule store_packet_local[OF assms(2) packet(3)])
          (use pass.prems 2(3) le s2 unsigned_less[of "down_pack_cnt (poc_device s)", where 'a=nat] in simp_all)
      moreover have "fl_mem (boot_flash s2) p = fl_mem (boot_flash s) p"
        by (rule erase_app_local[OF assms(2) packet(2)]) (use pass.prems in simp)
      ultimately show ?thesis using pass.IH pass.prems 2(3) le by simp
    qed
  qed
qed (auto simp: SysTick_Handler_def)

end
