(* ===== verification/Boot_install.thy ===== *)
theory Boot_install
  imports Boot_upgrade
begin

text \<open>
  Installing an image: the packets as the server sends them, and the proof that a correct flash controller
  holds the image after the boot loader has handled them in order. A packet with one wrong byte is refused.
\<close>

section \<open>Packets on the line\<close>

definition hex_text :: "u8 list \<Rightarrow> u8 list" where
  "hex_text bs = concat (map (\<lambda>b. [hex_char (b div 16), hex_char (b mod 16)]) bs)"

definition u16_bytes :: "u16 \<Rightarrow> u8 list" where
  "u16_bytes x = [ucast x, ucast (drop_bit 8 x)]"

text \<open>
  Packet \<open>k\<close>, counted from 0, in its message buffer. \<open>hdr\<close> and \<open>mid\<close> are the five and six characters of
  the format that the boot loader does not look at.
\<close>

definition packet_text :: "u8 list \<Rightarrow> u8 list \<Rightarrow> nat \<Rightarrow> u8 list \<Rightarrow> u16 \<Rightarrow> u8 list" where
  "packet_text hdr mid k dat crc =
     ascii ''+POC:4303'' @ hdr @ hex_text (rev (u16_bytes (word_of_nat (k + 1)))) @ mid @ hex_text dat @
     hex_text (u16_bytes crc)"

definition packet_line :: "u8 list \<Rightarrow> u8 list \<Rightarrow> nat \<Rightarrow> u8 list \<Rightarrow> u8 list" where
  "packet_line hdr mid k dat = packet_text hdr mid k dat (fold crc_byte dat 0)"

definition packet_buffer :: "u8 list \<Rightarrow> u8 list \<Rightarrow> nat \<Rightarrow> u8 list \<Rightarrow> u8 list" where
  "packet_buffer hdr mid k dat = packet_line hdr mid k dat @ replicate 484 0"

lemma length_u16_bytes [simp]: "length (u16_bytes x) = 2"
  by (simp add: u16_bytes_def)

lemma length_hex_text [simp]: "length (hex_text bs) = 2 * length bs"
  unfolding hex_text_def by (induction bs) auto

lemma str_to_hex_text: "str_to_hex (hex_text bs @ r) (2 * length bs) = Some bs"
proof (induction bs)
  case (Cons b bs)
  have "b div 16 < 16" "b mod 16 < 16"
    using unsigned_less[of b, where 'a=nat] by (simp_all add: word_less_nat_alt unat_div unat_mod)
  then show ?case using Cons nibbles[of b] by (simp add: hex_text_def nibble_char)
qed (simp add: hex_text_def)

lemma hex_char_printable:
  assumes "n < 16"
  shows "48 \<le> unat (hex_char n)"
proof -
  have "unat n < 16" using assms by (simp add: word_less_nat_alt)
  then show ?thesis by (simp add: hex_char_def Let_def word_less_nat_alt unat_word_ariths)
qed

lemma hex_text_printable: "c \<in> set (hex_text bs) \<Longrightarrow> 48 \<le> unat c"
proof -
  have "48 \<le> unat (hex_char (b div 16))" "48 \<le> unat (hex_char (b mod 16))" for b
    using unsigned_less[of b, where 'a=nat] by (intro hex_char_printable; simp add: word_less_nat_alt unat_div unat_mod)+
  then show "c \<in> set (hex_text bs) \<Longrightarrow> 48 \<le> unat c" by (auto simp: hex_text_def)
qed

lemma u16_le_bytes: "u16_le (u16_bytes x) = x"
  unfolding u16_le_def u16_bytes_def by (rule bit_word_eqI) (auto simp: bit_simps)

lemma swap16_rev: "swap16 (u16_le [b, a]) = u16_le [a, b]"
proof -
  have m: "(0x00ff :: u16) = mask 8" "(0xff00 :: u16) = push_bit 8 (mask 8)" by (simp_all add: mask_eq_exp_minus_1)
  have b: "bit (mask 8 :: u16) n \<longleftrightarrow> n < 8" for n by (auto simp only: bit_mask_iff) simp
  show ?thesis unfolding swap16_def u16_le_def m
    by (rule bit_word_eqI) (auto simp only: bit_or_iff bit_and_iff bit_push_bit_iff bit_drop_bit_eq o_def b bit_ucast_iff
      list.sel nth_Cons_0 nth_Cons_Suc One_nat_def, auto dest: bit_imp_le_length simp: bit_simps)
qed

lemma rev_bytes: "swap16 (u16_le (rev (u16_bytes x))) = x"
  using u16_le_bytes[of x] swap16_rev by (simp add: u16_bytes_def)

lemma ascii_length [simp]: "length (ascii s) = length s"
  by (simp add: ascii_def)

definition framing :: "u8 list \<Rightarrow> u8 list \<Rightarrow> bool" where
  "framing hdr mid \<longleftrightarrow> length hdr = 5 \<and> length mid = 6 \<and> (\<forall>c \<in> set (hdr @ mid). c \<noteq> 0 \<and> \<not> eol c)"

lemma parse_packet_text:
  assumes "length dat = 256" "framing hdr mid"
  shows "parse_packet (packet_text hdr mid k dat crc @ r) = Some (crc, word_of_nat (k + 1), dat)"
proof -
  let ?n = "u16_bytes (word_of_nat (k + 1))" and ?c = "u16_bytes crc"
  have "drop 14 (packet_text hdr mid k dat crc @ r) = hex_text (rev ?n) @ mid @ hex_text dat @ hex_text ?c @ r"
    "drop 24 (packet_text hdr mid k dat crc @ r) = hex_text dat @ hex_text ?c @ r"
    "drop 536 (packet_text hdr mid k dat crc @ r) = hex_text ?c @ r"
    using assms by (simp_all add: packet_text_def framing_def)
  then show ?thesis
    using str_to_hex_text[of "rev ?n"] str_to_hex_text[of dat] str_to_hex_text[of ?c] assms(1)
    by (simp add: parse_packet_def u16_le_bytes rev_bytes)
qed

lemma parse_packet_buffer:
  assumes "length dat = 256" "framing hdr mid"
  shows "parse_packet (packet_buffer hdr mid k dat) = Some (fold crc_byte dat 0, word_of_nat (k + 1), dat)"
  unfolding packet_buffer_def packet_line_def by (rule parse_packet_text[OF assms])

lemma strlen_append: "0 \<notin> set xs \<Longrightarrow> strlen (xs @ 0 # ys) = Some (length xs)"
  by (induction xs) auto

lemma packet_text_chars:
  assumes "framing hdr mid" "c \<in> set (packet_text hdr mid k dat crc)"
  shows "c \<noteq> 0 \<and> \<not> eol c"
proof -
  have "c \<noteq> 0 \<and> \<not> eol c" if "48 \<le> unat c" using that by (auto simp: eol_def)
  moreover have "\<forall>c \<in> set (ascii ''+POC:4303''). c \<noteq> 0 \<and> \<not> eol c" by (simp add: ascii_def eol_def)
  ultimately show ?thesis
    using assms hex_text_printable unfolding packet_text_def framing_def by auto
qed

lemma packet_text_ok:
  assumes "length dat = 256" "framing hdr mid"
  shows "length (packet_text hdr mid k dat crc) = 540" "strlen (packet_text hdr mid k dat crc @ replicate 484 0) = Some 540"
    "mem_equal (packet_text hdr mid k dat crc @ r) 0 (ascii ''+POC:4303'') 9 = Some True"
proof -
  show l: "length (packet_text hdr mid k dat crc) = 540"
    using assms by (simp add: packet_text_def framing_def u16_bytes_def)
  have "0 \<notin> set (packet_text hdr mid k dat crc)" using packet_text_chars[OF assms(2)] by blast
  from strlen_append[OF this, of "replicate 483 0"] l
  show "strlen (packet_text hdr mid k dat crc @ replicate 484 0) = Some 540" by (simp add: numeral_eq_Suc)
  show "mem_equal (packet_text hdr mid k dat crc @ r) 0 (ascii ''+POC:4303'') 9 = Some True"
    by (simp add: mem_equal_def packet_text_def)
qed

lemma packet_buffer_ok:
  assumes "length dat = 256" "framing hdr mid" "k < 65535"
  shows "length (packet_line hdr mid k dat) = 540" "strlen (packet_buffer hdr mid k dat) = Some 540"
    "carries (packet_buffer hdr mid k dat) k dat"
proof -
  show "length (packet_line hdr mid k dat) = 540" "strlen (packet_buffer hdr mid k dat) = Some 540"
    using packet_text_ok(1,2)[OF assms(1,2)] by (simp_all add: packet_buffer_def packet_line_def)
  have "unat (word_of_nat (k + 1) :: u16) = k + 1" by (rule unat_of_nat_small) (use assms(3) in simp)
  then show "carries (packet_buffer hdr mid k dat) k dat"
    using assms(1) parse_packet_buffer[OF assms(1,2), of k] packet_text_ok(3)[OF assms(1,2)]
    unfolding carries_def by (simp add: calcrc_def packet_buffer_def packet_line_def)
qed

section \<open>Installing\<close>

text \<open>Ready for packet \<open>n\<close>: the application area is about to be erased, or erased from that packet on.\<close>

definition install_ready :: "boot \<Rightarrow> bool" where
  "install_ready s \<longleftrightarrow> \<not> fl_wrprterr (boot_flash s) \<and>
     (erase_flag s \<noteq> 0 \<longrightarrow> (\<forall>p. 256 * unat (down_pack_cnt (poc_device s)) \<le> unat (p - START_ADDRESS) \<and>
        unat (p - START_ADDRESS) < 390 * 1024 \<longrightarrow> fl_mem (boot_flash s) p = 0xFF))"

lemma Flash_Write_erased:
  assumes "chip_ok hw" "\<not> fl_wrprterr f" "length Data = n" "n mod 4 = 0" "n \<le> 2 ^ 32"
    and "\<And>p. unat (p - a) < n \<Longrightarrow> fl_mem f p = 0xFF"
  shows "\<exists>f'. Flash_Write hw a Data n f = Some f' \<and> \<not> fl_wrprterr f' \<and>
    fl_mem f' = (\<lambda>p. if unat (p - a) < n then Data ! unat (p - a) else fl_mem f p)"
proof -
  have n: "4 * ((n + 3) div 4) = n" using assms(4) by (auto simp: mod_eq_0_iff_dvd elim!: dvdE)
  define g where "g = FLASH_ClearFlag (FLASH_Unlock f)"
  have g: "fl_ready g" "fl_mem g = fl_mem f" "fl_wrprterr g = fl_wrprterr f"
    using assms(2) by (simp_all add: g_def fl_ready_def FLASH_ClearFlag_def FLASH_Unlock_def)
  have "write_words hw a Data ((n + 3) div 4) g =
    Some (g\<lparr>fl_mem := (\<lambda>p. if unat (p - a) < 4 * ((n + 3) div 4) then Data ! unat (p - a) else fl_mem g p)\<rparr>)"
    by (rule write_words_erased[OF assms(1) g(1)]) (use assms(3,5,6) g(2) n in auto)
  then have "Flash_Write hw a Data n f =
    Some (FLASH_Lock (g\<lparr>fl_mem := (\<lambda>p. if unat (p - a) < n then Data ! unat (p - a) else fl_mem f p)\<rparr>))"
    unfolding n g(2) Flash_Write_def g_def[symmetric] by simp
  then show ?thesis using assms(2) g(3) by (simp add: FLASH_Lock_def)
qed

lemma Flash_Erase_clean:
  assumes "chip_ok hw" "\<not> fl_wrprterr f" "unat a mod 2048 = 0" "n div 2048 < 256" "unat a + n \<le> 2 ^ 32"
  shows "\<exists>f'. Flash_Erase hw a n f = Some f' \<and> \<not> fl_wrprterr f' \<and>
    (\<forall>p. unat (p - a) < n div 2048 * 2048 \<longrightarrow> fl_mem f' p = 0xFF)"
proof -
  let ?h = "\<lambda>i. FLASH_ErasePage hw (a + word_of_nat i * 0x800)"
  let ?g = "FLASH_ClearFlag (FLASH_Unlock f)"
  have "fl_ready (fold ?h [0..<k] ?g) \<and> (\<forall>p. unat (p - a) < k * 2048 \<longrightarrow> fl_mem (fold ?h [0..<k] ?g) p = 0xFF)"
    if "k \<le> n div 2048" for k
    using that
  proof (induction k)
    case 0
    then show ?case using assms(2) by (simp add: fl_ready_def FLASH_ClearFlag_def FLASH_Unlock_def)
  next
    case (Suc k)
    let ?f = "fold ?h [0..<k] ?g"
    from Suc have IH: "fl_ready ?f" "\<And>p. unat (p - a) < k * 2048 \<Longrightarrow> fl_mem ?f p = 0xFF" by auto
    have k: "k * 2048 + 2048 \<le> n" using Suc.prems by (metis add.commute mult_Suc div_times_less_eq_dividend mult_le_mono1 order_trans)
    have w: "a + word_of_nat k * 0x800 = a + word_of_nat (k * 2048)" by simp
    have "unat (a + word_of_nat (k * 2048)) = unat a + k * 2048"
      using k assms(5) by (simp add: unat_word_ariths unat_of_nat_small)
    then have al: "unat (a + word_of_nat (k * 2048)) mod 2048 = 0" using assms(3) by simp
    have "fl_mem (?h k ?f) p = 0xFF" if "unat (p - a) < Suc k * 2048" for p
    proof (cases "k * 2048 \<le> unat (p - a)")
      case True
      then have "unat (p - (a + word_of_nat (k * 2048))) < 2048"
        using that unat_off[of "k * 2048" p a] k assms(5) by simp
      then show ?thesis using erase_ready[OF assms(1) IH(1)] page_iff[OF al, of p] unfolding w by simp
    next
      case False
      then show ?thesis using erase_ready[OF assms(1) IH(1)] IH(2)[of p] by simp
    qed
    then show ?case using erase_ready[OF assms(1) IH(1)] IH(1) by (simp add: fl_ready_def)
  qed
  from this[of "n div 2048"] show ?thesis using assms(4)
    by (auto simp: Flash_Erase_def FLASH_Lock_def fl_ready_def)
qed

text \<open>One valid packet is stored, and those before it stay.\<close>

lemma erase_app_ready:
  assumes "chip_ok hw" "install_ready s"
    and z: "erase_flag s = 0 \<Longrightarrow> down_pack_cnt (poc_device s) = 0"
  shows "\<exists>s1. erase_app hw s = Some s1 \<and> poc_device s1 = poc_device s \<and> erase_flag s1 \<noteq> 0 \<and> install_ready s1 \<and>
    (erase_flag s \<noteq> 0 \<longrightarrow> s1 = s)"
proof (cases "erase_flag s = 0")
  case True
  obtain f' where "Flash_Erase hw START_ADDRESS (390 * 1024) (boot_flash s) = Some f'" "\<not> fl_wrprterr f'"
    "\<forall>p. unat (p - START_ADDRESS) < 390 * 1024 \<longrightarrow> fl_mem f' p = 0xFF"
    using Flash_Erase_clean[OF assms(1), of "boot_flash s" START_ADDRESS "390 * 1024"] assms(2)
    by (auto simp: install_ready_def)
  then show ?thesis using True by (simp add: erase_app_def install_ready_def)
qed (use assms in \<open>simp add: erase_app_def\<close>)

lemma install_packet:
  assumes ch: "chip_ok hw" and r: "install_ready s" and z: "erase_flag s = 0 \<Longrightarrow> down_pack_cnt (poc_device s) = 0"
    and k: "unat (down_pack_cnt (poc_device s)) = k" "k < 1560"
    and p: "length dat = 256" "framing hdr mid"
  shows "\<exists>s'. msg_packet hw (packet_buffer hdr mid k dat) s = Some s' \<and> install_ready s' \<and> erase_flag s' \<noteq> 0 \<and>
    unat (down_pack_cnt (poc_device s')) = k + 1 \<and>
    Flash_Read_for_download (packet_at k) 256 (fl_mem (boot_flash s')) = dat \<and>
    (\<forall>j < k. Flash_Read_for_download (packet_at j) 256 (fl_mem (boot_flash s')) =
             Flash_Read_for_download (packet_at j) 256 (fl_mem (boot_flash s)))"
proof -
  obtain s1 where s1: "erase_app hw s = Some s1" "poc_device s1 = poc_device s" "erase_flag s1 \<noteq> 0" "install_ready s1"
    "erase_flag s \<noteq> 0 \<longrightarrow> s1 = s"
    using erase_app_ready[OF ch r z] by blast
  have a: "unat (packet_at k) = 0x08004000 + 256 * k" by (rule unat_packet_at) (use k(2) in simp)
  have region: "256 * k \<le> unat (q - START_ADDRESS) \<and> unat (q - START_ADDRESS) < 256 * (k + 1)"
    if "unat (q - packet_at k) < 256" for q
    using that a k(2) unsigned_less[of q, where 'a=nat] unfolding unat_from[of q "packet_at k"] unat_from[of q START_ADDRESS]
    by (simp split: if_splits) linarith
  have er: "fl_mem (boot_flash s1) q = 0xFF" if "unat (q - packet_at k) < 256" for q
    using s1(3,4) region[OF that] k unfolding install_ready_def s1(2) by simp
  obtain f' where f: "Flash_Write hw (packet_at k) dat 256 (boot_flash s1) = Some f'" "\<not> fl_wrprterr f'"
    "fl_mem f' = (\<lambda>q. if unat (q - packet_at k) < 256 then dat ! unat (q - packet_at k) else fl_mem (boot_flash s1) q)"
    using Flash_Write_erased[OF ch _ p(1) _ _ er] s1(4) by (auto simp: install_ready_def)
  have rdb: "Flash_Read_for_download (packet_at k) 256 (fl_mem f') = dat"
    by (rule nth_equalityI) (simp_all add: p(1) peek_nth f(3) unat_of_nat_small Flash_Read_for_download_def)
  define s' where "s' = s1\<lparr>boot_flash := f', poc_device := (poc_device s)\<lparr>down_pack_cnt := down_pack_cnt (poc_device s) + 1\<rparr>\<rparr>"
  have "store_packet hw dat s1 = Some s'"
    unfolding store_packet_def Let_def s1(2) k(1) packet_at_def[symmetric] using f(1) rdb by (simp add: s'_def)
  then have run: "msg_packet hw (packet_buffer hdr mid k dat) s = Some s'"
    using packet_buffer_ok(2)[OF p, of k] parse_packet_buffer[OF p, of k] k p(1) s1(1)
      unat_of_nat_small[of "k + 1", where 'a=16]
    by (simp add: msg_packet_def calcrc_def)
  have cnt: "unat (down_pack_cnt (poc_device s')) = k + 1" using k by (simp add: s'_def unat_word_ariths)
  have far: "\<not> unat (q - packet_at k) < 256" if "256 * (k + 1) \<le> unat (q - START_ADDRESS)" for q
    using region[of q] that by linarith
  have "install_ready s'"
    using s1(3,4) f(2,3) cnt far unfolding install_ready_def s1(2) k(1) by (simp add: s'_def)
  moreover have "Flash_Read_for_download (packet_at j) 256 (fl_mem f') =
      Flash_Read_for_download (packet_at j) 256 (fl_mem (boot_flash s))" if "j < k" for j
    using write_keeps_packet[OF _ f(1) that] ch k s1(5) z that by (auto simp: chip_ok_def)
  ultimately show ?thesis using run rdb cnt s1(3) by (simp add: s'_def)
qed

fun deal_all :: "flash_hw \<Rightarrow> u8 list list \<Rightarrow> boot \<Rightarrow> boot option" where
  "deal_all hw [] s = Some s"
| "deal_all hw (m # ms) s = Option.bind (poc_uart_msg_deal hw m s) (deal_all hw ms)"

lemma deal_packet: "poc_uart_msg_deal hw (packet_buffer hdr mid k dat) s = msg_packet hw (packet_buffer hdr mid k dat) s"
  by (simp add: poc_uart_msg_deal_def mem_equal_def packet_buffer_def packet_line_def packet_text_def ascii_def)

definition image_packets :: "u8 list \<Rightarrow> u8 list \<Rightarrow> nat \<Rightarrow> u8 list list \<Rightarrow> u8 list list" where
  "image_packets hdr mid k img = map (\<lambda>i. packet_buffer hdr mid (k + i) (img ! i)) [0..<length img]"

lemma image_packets_Cons: "image_packets hdr mid k (dat # img) = packet_buffer hdr mid k dat # image_packets hdr mid (k + 1) img"
  unfolding image_packets_def by (simp add: upt_conv_Cons map_Suc_upt[symmetric] del: upt_Suc)

lemma install_from:
  assumes "chip_ok hw" "install_ready s" "erase_flag s = 0 \<Longrightarrow> down_pack_cnt (poc_device s) = 0"
    "unat (down_pack_cnt (poc_device s)) = k" "k + length img \<le> 1560" "\<forall>d \<in> set img. length d = 256" "framing hdr mid"
  shows "\<exists>s'. deal_all hw (image_packets hdr mid k img) s = Some s' \<and>
    unat (down_pack_cnt (poc_device s')) = k + length img \<and>
    (\<forall>i < length img. Flash_Read_for_download (packet_at (k + i)) 256 (fl_mem (boot_flash s')) = img ! i) \<and>
    (\<forall>j < k. Flash_Read_for_download (packet_at j) 256 (fl_mem (boot_flash s')) =
             Flash_Read_for_download (packet_at j) 256 (fl_mem (boot_flash s)))"
  using assms(2-6)
proof (induction img arbitrary: k s)
  case Nil
  then show ?case by (simp add: image_packets_def)
next
  case (Cons dat img)
  obtain s1 where s1: "msg_packet hw (packet_buffer hdr mid k dat) s = Some s1" "install_ready s1" "erase_flag s1 \<noteq> 0"
    "unat (down_pack_cnt (poc_device s1)) = k + 1"
    "Flash_Read_for_download (packet_at k) 256 (fl_mem (boot_flash s1)) = dat"
    "\<forall>j < k. Flash_Read_for_download (packet_at j) 256 (fl_mem (boot_flash s1)) =
             Flash_Read_for_download (packet_at j) 256 (fl_mem (boot_flash s))"
    using install_packet[OF assms(1) Cons.prems(1,2,3), of dat hdr mid] Cons.prems(4,5) assms(7) by auto
  obtain s' where s': "deal_all hw (image_packets hdr mid (k + 1) img) s1 = Some s'"
    "unat (down_pack_cnt (poc_device s')) = k + 1 + length img"
    "\<forall>i < length img. Flash_Read_for_download (packet_at (k + 1 + i)) 256 (fl_mem (boot_flash s')) = img ! i"
    "\<forall>j < k + 1. Flash_Read_for_download (packet_at j) 256 (fl_mem (boot_flash s')) =
             Flash_Read_for_download (packet_at j) 256 (fl_mem (boot_flash s1))"
    using Cons.IH[OF s1(2) _ s1(4)] s1(3) Cons.prems(4,5) by auto
  have "deal_all hw (image_packets hdr mid k (dat # img)) s = Some s'"
    using s1(1) s'(1) by (simp add: image_packets_Cons deal_packet)
  moreover have "Flash_Read_for_download (packet_at (k + i)) 256 (fl_mem (boot_flash s')) = (dat # img) ! i"
    if "i < length (dat # img)" for i
    using that s'(3,4) s1(5) by (cases i) auto
  ultimately show ?case using s'(2,4) s1(6) by auto
qed

text \<open>A packet with one wrong byte, but the checksum of the right one.\<close>

lemma corrupted_packet:
  assumes "parse_packet ptr = Some (crc, n, dat)" "calcrc good 256 = Some crc" "dat = good[i := b]" "i < 256"
    "length good = 256" "b \<noteq> good ! i" "strlen ptr = Some len"
  shows "msg_packet hw ptr s = Some s"
proof -
  have "calcrc dat 256 \<noteq> calcrc good 256"
    using calcrc_single_byte[of i 256 good b] assms(3-6) by auto
  then have "\<exists>sum. calcrc dat 256 = Some sum \<and> sum \<noteq> crc" using assms(2,3,5) by (auto simp: calcrc_def)
  then show ?thesis using assms(1,7) by (auto simp: msg_packet_def)
qed

section \<open>A session with one packet\<close>

text \<open>The boot loader asks for the only packet of an image, and its line has been received completely.\<close>

abbreviation (input) sample_hdr :: "u8 list" where "sample_hdr \<equiv> replicate 5 48"
abbreviation (input) sample_mid :: "u8 list" where "sample_mid \<equiv> replicate 6 48"
abbreviation (input) sample_data :: "u8 list" where "sample_data \<equiv> replicate 256 7"

definition sample_uart :: line_reader where
  "sample_uart = \<lparr>recv_buf = packet_line sample_hdr sample_mid 0 sample_data @ [13] @ replicate 1507 0,
     write_p = 541, read_p = 0, uart_stat = UART_STATUS_RECVING, cmp_cnt = 540\<rparr>"

definition sample_boot :: boot where
  "sample_boot = \<lparr>device_uart2 = sample_uart, uart_sent = [],
     poc_device = poc_device_zero\<lparr>poc_status := POC_DEVICE_VER_UPGRADE, pack_sum := 1\<rparr>,
     device_cfg = \<lparr>init_flag = 0, cfg_ver = replicate 32 0\<rparr>, boot_flash = blank_flash, SysTick_Cnt = 0,
     resend_timer = 0, send_times = 0, pack_cnt = 0, old_send_cnt = 0, erase_flag = 0\<rparr>"

lemma sample_framing: "framing sample_hdr sample_mid"
  by (simp add: framing_def eol_def)

lemma sample_line_length: "length (packet_line sample_hdr sample_mid 0 sample_data) = 540"
  by (rule packet_buffer_ok(1)[OF _ sample_framing]) simp_all

lemma sample_uart_ok:
  "line_ok sample_uart" "pend sample_uart = packet_line sample_hdr sample_mid 0 sample_data @ [13]"
  "avail sample_uart = 541" "unat (cmp_cnt sample_uart) = 540"
proof -
  let ?l = "packet_line sample_hdr sample_mid 0 sample_data"
  show av: "avail sample_uart = 541" by (simp add: avail_def sample_uart_def)
  show c: "unat (cmp_cnt sample_uart) = 540" by (simp add: sample_uart_def)
  show p: "pend sample_uart = ?l @ [13]"
  proof (rule nth_equalityI)
    fix i assume "i < length (pend sample_uart)"
    then have i: "i < 541" using av by simp
    have "read_p sample_uart = 0" by (simp add: sample_uart_def)
    then have "pend sample_uart ! i = recv_buf sample_uart ! i"
      using i nth_upt[of 0 i 541] unfolding pend_def av by (simp del: upt_Suc)
    also have "\<dots> = (?l @ [13]) ! i"
      using i sample_line_length by (cases "i = 540") (simp_all add: sample_uart_def nth_append)
    finally show "pend sample_uart ! i = (?l @ [13]) ! i" .
  qed (use av sample_line_length in simp)
  have "\<forall>c \<in> set ?l. \<not> eol c" using packet_text_chars[OF sample_framing] unfolding packet_line_def by blast
  then show "line_ok sample_uart"
    using av c sample_line_length unfolding line_ok_def p by (simp add: uart_ok_def sample_uart_def)
qed

lemma sample_ready: "install_ready sample_boot"
  by (simp add: install_ready_def sample_boot_def blank_flash_def)

lemma sample_pass:
  "\<exists>s u. uart_line_step sample_uart = Some (Some (packet_buffer sample_hdr sample_mid 0 sample_data), True, u) \<and>
    line_ok u \<and> pend u = [] \<and> msg_packet nor_chip (packet_buffer sample_hdr sample_mid 0 sample_data) sample_boot = Some s \<and>
    uart_pass nor_chip sample_boot = Some (True, s\<lparr>device_uart2 := u\<rparr>) \<and>
    unat (down_pack_cnt (poc_device s)) = 1 \<and>
    Flash_Read_for_download (packet_at 0) 256 (fl_mem (boot_flash s)) = sample_data"
proof -
  let ?l = "packet_line sample_hdr sample_mid 0 sample_data" and ?b = "packet_buffer sample_hdr sample_mid 0 sample_data"
  have e: "eol (pend sample_uart ! unat (cmp_cnt sample_uart))"
    unfolding sample_uart_ok(2,4) using sample_line_length by (simp add: nth_append eol_def)
  have "take 540 (?l @ [13]) = ?l" "drop (Suc 540) (?l @ [13]) = []" using sample_line_length by simp_all
  moreover have "message ?l = Some ?b" using sample_line_length by (simp add: message_def packet_buffer_def)
  ultimately obtain u where u: "uart_line_step sample_uart = Some (Some ?b, True, u)" "line_ok u" "pend u = []"
    using step_eol[OF sample_uart_ok(1) _ e] unfolding sample_uart_ok(2-4) by auto
  obtain s where s: "msg_packet nor_chip ?b sample_boot = Some s" "unat (down_pack_cnt (poc_device s)) = 1"
    "Flash_Read_for_download (packet_at 0) 256 (fl_mem (boot_flash s)) = sample_data"
    using install_packet[OF nor_chip_ok(1) sample_ready, of 0 sample_data sample_hdr sample_mid] sample_framing
    by (auto simp: sample_boot_def poc_device_zero_def)
  have "device_uart2 sample_boot = sample_uart" by (simp add: sample_boot_def)
  then have "uart_pass nor_chip sample_boot = Some (True, s\<lparr>device_uart2 := u\<rparr>)"
    using u(1) s(1) by (simp add: uart_pass_def deal_packet)
  then show ?thesis using u s by blast
qed

lemma sample_run: "\<exists>ms s. boot_run nor_chip sample_boot ms s \<and> unat (down_pack_cnt (poc_device s)) = 1"
proof -
  obtain s u where p: "uart_line_step sample_uart = Some (Some (packet_buffer sample_hdr sample_mid 0 sample_data), True, u)"
    "uart_pass nor_chip sample_boot = Some (True, s\<lparr>device_uart2 := u\<rparr>)" "unat (down_pack_cnt (poc_device s)) = 1"
    using sample_pass by blast
  have "uart_line_step (device_uart2 sample_boot) = Some (Some (packet_buffer sample_hdr sample_mid 0 sample_data), True, u)"
    using p(1) by (simp add: sample_boot_def)
  from boot_run.pass[OF boot_run.start this p(2)] obtain ms where "boot_run nor_chip sample_boot ms (s\<lparr>device_uart2 := u\<rparr>)"
    by blast
  moreover have "unat (down_pack_cnt (poc_device (s\<lparr>device_uart2 := u\<rparr>))) = 1" using p(3) by simp
  ultimately show ?thesis by blast
qed

lemma sample_zero: "down_pack_cnt (poc_device sample_boot) = 0"
  "poc_status (poc_device sample_boot) \<noteq> POC_DEVICE_VER_DWONLOAD_SUCCESS"
  by (simp_all add: sample_boot_def poc_device_zero_def)

section \<open>What the upgrade guarantees\<close>

text \<open>C4: Over every order of received bytes, clock ticks and steps of \<open>poc_task\<close>, and whatever the modem sends:
  the counter of packets never runs ahead of the flash. Every packet counted is in the application area at its
  place, and is the data of a received packet with that number whose checksum was right; and the status of a
  successful download is only reached when all packets announced have been counted. Of the flash controller
  this needs only that a command changes nothing outside the half word or page it names.\<close>

theorem upgrade_image_verified:
  assumes "boot_run hw s0 ms s" "chip_local hw" "down_pack_cnt (poc_device s0) = 0"
    "poc_status (poc_device s0) \<noteq> POC_DEVICE_VER_DWONLOAD_SUCCESS"
  shows "(\<forall>k < unat (down_pack_cnt (poc_device s)). \<exists>ptr \<in> set ms.
       carries ptr k (Flash_Read_for_download (packet_at k) 256 (fl_mem (boot_flash s)))) \<and>
    (poc_status (poc_device s) = POC_DEVICE_VER_DWONLOAD_SUCCESS \<longrightarrow>
       pack_sum (poc_device s) \<le> down_pack_cnt (poc_device s))"
  using run_image[OF assms(1-3)] run_success[OF assms(1,4)] by (simp add: image_ok_def success_ok_def)

theorem upgrade_image_verified_witness:
  "\<exists>ms s. boot_run nor_chip sample_boot ms s \<and> unat (down_pack_cnt (poc_device s)) = 1 \<and>
    (\<exists>ptr \<in> set ms. carries ptr 0 (Flash_Read_for_download (packet_at 0) 256 (fl_mem (boot_flash s))))"
proof -
  obtain ms s where r: "boot_run nor_chip sample_boot ms s" "unat (down_pack_cnt (poc_device s)) = 1"
    using sample_run by blast
  from upgrade_image_verified[OF r(1) nor_chip_ok(2) sample_zero] r(2) have
    "\<exists>ptr \<in> set ms. carries ptr 0 (Flash_Read_for_download (packet_at 0) 256 (fl_mem (boot_flash s)))" by simp
  with r show ?thesis by blast
qed

text \<open>C21: What the upgrade leaves alone, over every such history. The flash below \<open>START_ADDRESS\<close>, which holds the
  boot loader itself, always keeps its contents. Above it, a byte keeps its contents when it lies beyond the
  390 kB that are erased and also beyond the packets counted so far and the one after them, which may have
  been programmed without being counted. Nothing else bounds the upgrade from above: the announced number of
  packets is not checked, so an image of more than 1560 packets leaves the 390 kB.\<close>

theorem upgrade_outside_untouched:
  assumes "boot_run hw s0 ms s" "chip_local hw"
    and "unat p < unat START_ADDRESS \<or>
      unat START_ADDRESS + max (390 * 1024) (256 * (unat (down_pack_cnt (poc_device s)) + 1)) \<le> unat p"
  shows "fl_mem (boot_flash s) p = fl_mem (boot_flash s0) p"
proof (rule run_outside[OF assms(1,2)])
  show "max (390 * 1024) (256 * (unat (down_pack_cnt (poc_device s)) + 1)) \<le> unat (p - START_ADDRESS)"
    using assms(3) unsigned_less[of "down_pack_cnt (poc_device s)", where 'a=nat] unfolding unat_from by auto
qed

theorem upgrade_outside_untouched_witness:
  "\<exists>ms s. boot_run nor_chip sample_boot ms s \<and> unat (down_pack_cnt (poc_device s)) = 1 \<and>
    fl_mem (boot_flash s) 0x08003FFF = fl_mem (boot_flash sample_boot) 0x08003FFF"
proof -
  obtain ms s where r: "boot_run nor_chip sample_boot ms s" "unat (down_pack_cnt (poc_device s)) = 1"
    using sample_run by blast
  from upgrade_outside_untouched[OF r(1) nor_chip_ok(2), of "0x08003FFF"] r show ?thesis by auto
qed

text \<open>C20: On a flash controller that keeps its promises every image of at most 1560 packets, sent packet by
  packet in order, is installed: each message is handled, all are counted, and the application area then
  holds the image.\<close>

theorem upgrade_installs_image:
  assumes "chip_ok hw" "install_ready s" "down_pack_cnt (poc_device s) = 0" "length img \<le> 1560"
    "\<forall>d \<in> set img. length d = 256" "framing hdr mid"
  shows "\<exists>s'. deal_all hw (image_packets hdr mid 0 img) s = Some s' \<and>
    unat (down_pack_cnt (poc_device s')) = length img \<and>
    (\<forall>i < length img. Flash_Read_for_download (packet_at i) 256 (fl_mem (boot_flash s')) = img ! i)"
  using install_from[OF assms(1,2), of 0 img hdr mid] assms(3-6) by auto

theorem upgrade_installs_image_witness:
  "\<exists>s'. deal_all nor_chip (image_packets sample_hdr sample_mid 0 [replicate 256 7, replicate 256 9]) sample_boot = Some s' \<and>
    unat (down_pack_cnt (poc_device s')) = 2 \<and>
    Flash_Read_for_download (packet_at 1) 256 (fl_mem (boot_flash s')) = replicate 256 9"
proof -
  have l: "\<forall>d \<in> set [replicate 256 7, replicate 256 (9 :: u8)]. length d = 256" by simp
  have z: "down_pack_cnt (poc_device sample_boot) = 0" by (simp add: sample_boot_def poc_device_zero_def)
  have n: "length [replicate 256 7, replicate 256 (9 :: u8)] \<le> 1560" by simp
  from upgrade_installs_image[OF nor_chip_ok(1) sample_ready z n l sample_framing] show ?thesis
    by (auto dest: spec[of _ 1])
qed

text \<open>C24: A packet in which one byte of the data arrived wrong is refused: the state, the flash and the packet
  counter stay as they are, so that the packet is asked for again.\<close>

theorem corrupted_packet_refused:
  assumes "parse_packet ptr = Some (crc, n, good[i := b])" "calcrc good 256 = Some crc" "i < 256"
    "length good = 256" "b \<noteq> good ! i" "strlen ptr = Some len"
    "mem_equal ptr 0 (ascii ''+POC:4303'') 9 = Some True"
  shows "poc_uart_msg_deal hw ptr s = Some s"
proof -
  have "take 9 ptr = ascii ''+POC:4303''" "9 \<le> length ptr" using assms(7) by (auto simp: mem_equal_def ascii_def split: if_splits)
  then obtain r where "ptr = ascii ''+POC:4303'' @ r" by (metis append_take_drop_id)
  then have "poc_uart_msg_deal hw ptr s = msg_packet hw ptr s"
    by (simp add: poc_uart_msg_deal_def mem_equal_def ascii_def)
  then show ?thesis using corrupted_packet[OF assms(1,2) refl assms(3-6)] by simp
qed

theorem corrupted_packet_refused_witness:
  "poc_uart_msg_deal nor_chip (packet_text sample_hdr sample_mid 0 (sample_data[3 := 6]) (fold crc_byte sample_data 0) @
     replicate 484 0) sample_boot = Some sample_boot"
proof (rule corrupted_packet_refused)
  have l: "length (sample_data[3 := 6]) = 256" by (simp only: length_list_update length_replicate)
  let ?t = "packet_text sample_hdr sample_mid 0 (sample_data[3 := 6]) (fold crc_byte sample_data 0) @ replicate 484 0"
  show "parse_packet ?t = Some (fold crc_byte sample_data 0, word_of_nat (0 + 1), sample_data[3 := 6])"
    by (rule parse_packet_text[OF l sample_framing])
  show "strlen ?t = Some 540" by (rule packet_text_ok(2)[OF l sample_framing])
  show "mem_equal ?t 0 (ascii ''+POC:4303'') 9 = Some True" by (rule packet_text_ok(3)[OF l sample_framing])
qed (simp_all add: calcrc_def)

end
