(* ===== verification/Boot_task.thy ===== *)
theory Boot_task
  imports Boot_install
begin

text \<open>
  \<open>poc_task\<close> as a whole: it returns, whatever the modem sends, as long as no line is longer than its
  buffer; what it sends while it upgrades; and what happens when a line is longer.
\<close>

section \<open>Messages are always handled\<close>

definition boot_wf :: "boot \<Rightarrow> bool" where
  "boot_wf s \<longleftrightarrow> length (server_soft_ver (poc_device s)) = 32 \<and> length (server_soft_id (poc_device s)) = 4 \<and>
     length (cfg_ver (device_cfg s)) = 32 \<and> 0 \<in> set (cfg_ver (device_cfg s))"

lemma strlen_total: "0 \<in> set xs \<Longrightarrow> \<exists>n. strlen xs = Some n \<and> n < length xs"
  by (induction xs) auto

lemma str_to_hex_total: "2 * k \<le> length xs \<Longrightarrow> \<exists>r. str_to_hex xs (2 * k) = Some r"
proof (induction k arbitrary: xs)
  case (Suc k)
  then obtain a b t where "xs = a # b # t" by (cases xs rule: remdups_adj.cases) auto
  with Suc show ?case by auto
qed simp

lemma str_to_hex_4: "4 \<le> length xs \<Longrightarrow> \<exists>r. str_to_hex xs 4 = Some r"
  using str_to_hex_total[of 2 xs] by simp

lemma memcpy_total: "a + n \<le> length dst \<Longrightarrow> b + n \<le> length src \<Longrightarrow> \<exists>d. memcpy dst (int a) src (int b) (int n) = Some d"
  by (simp add: memcpy_nat)

lemma mem_equal_total: "i + n \<le> length p \<Longrightarrow> n \<le> length q \<Longrightarrow> \<exists>b. mem_equal p i q n = Some b"
  by (simp add: mem_equal_def)

lemma msg_version_total:
  assumes "length ptr = 1024" "0 \<in> set ptr" "boot_wf s"
  shows "\<exists>s'. msg_version ptr s = Some s' \<and> boot_wf s'"
proof -
  let ?v = "cfg_ver (device_cfg s)"
  have l: "length ?v = 32" "length (server_soft_id (poc_device s)) = 4" "0 \<in> set ?v" using assms(3) by (simp_all add: boot_wf_def)
  obtain n where n: "strlen ?v = Some n" "n < 32" using strlen_total[OF l(3)] l(1) by auto
  obtain len where len: "strlen ptr = Some len" using strlen_total[OF assms(2)] by auto
  define k where "k = unat ((word_of_nat len - 14 :: u32) mod 32)"
  have k: "k < 32" by (simp add: k_def unat_mod)
  obtain b1 b2 where b: "mem_equal ptr 14 ?v 12 = Some b1" "mem_equal ptr 14 ?v n = Some b2"
    using mem_equal_total[of 14 12 ptr ?v] mem_equal_total[of 14 n ptr ?v] l n assms(1) by auto
  obtain ver where ver: "memcpy (replicate 32 0) 0 ptr 14 (int k) = Some ver"
    using memcpy_total[of 0 k "replicate 32 (0 :: u8)" 14 ptr] k assms(1) by auto
  obtain i where i: "memcpy (server_soft_id (poc_device s)) 0 ptr 9 4 = Some i"
    using memcpy_total[of 0 4 "server_soft_id (poc_device s)" 9 ptr] l assms(1) by auto
  have "length ver = 32" "length i = 4" using memcpy_length[OF ver] memcpy_length[OF i] l(2) by simp_all
  then show ?thesis using b n(1) len ver[unfolded k_def] i assms(3)
    by (auto simp: msg_version_def boot_wf_def)
qed

lemma msg_packet_total:
  assumes "length ptr = 1024" "0 \<in> set ptr" "boot_wf s"
  shows "\<exists>s'. msg_packet hw ptr s = Some s' \<and> boot_wf s'"
proof -
  obtain len where len: "strlen ptr = Some len" using strlen_total[OF assms(2)] by auto
  obtain c n d where p: "str_to_hex (drop 536 ptr) 4 = Some c" "str_to_hex (drop 14 ptr) 4 = Some n"
    "str_to_hex (drop 24 ptr) 512 = Some d"
    using str_to_hex_4[of "drop 536 ptr"] str_to_hex_4[of "drop 14 ptr"] str_to_hex_total[of 256 "drop 24 ptr"] assms(1) by auto
  have d: "length d = 256" using str_to_hex_length[OF p(3)] by simp
  have "\<exists>s1. erase_app hw s = Some s1" by (simp add: erase_app_def Flash_Erase_def)
  then obtain s1 where s1: "erase_app hw s = Some s1" by blast
  then have wf1: "boot_wf s1" using assms(3) by (cases rule: erase_app_cases) (auto simp: boot_wf_def)
  have "\<exists>f'. Flash_Write hw a d 256 f = Some f'" for a f by (rule Flash_Write_total) (simp_all add: d)
  then obtain s2 where s2: "store_packet hw d s1 = Some s2" unfolding store_packet_def Let_def by (metis bind.bind_lunit)
  then have "boot_wf s2" using wf1 by (cases rule: store_packet_cases) (auto simp: boot_wf_def)
  then show ?thesis using len p d s1 s2 assms(3) by (auto simp: msg_packet_def parse_packet_def calcrc_def)
qed

lemma deal_total:
  assumes "length ptr = 1024" "0 \<in> set ptr" "boot_wf s"
  shows "\<exists>s'. poc_uart_msg_deal hw ptr s = Some s' \<and> boot_wf s'"
proof -
  obtain b1 b2 b3 b4 b5 b6 where b: "mem_equal ptr 0 (ascii ''OK'') 2 = Some b1"
    "mem_equal ptr 0 (ascii ''+POC:82'') 7 = Some b2" "mem_equal ptr 0 (ascii ''+POC:42'') 7 = Some b3"
    "mem_equal ptr 0 (ascii ''+POC:4300'') 9 = Some b4" "mem_equal ptr 0 (ascii ''+POC:4302'') 9 = Some b5"
    "mem_equal ptr 0 (ascii ''+POC:4303'') 9 = Some b6"
    using assms(1) by (auto simp: mem_equal_def ascii_length)
  obtain l1 l2 where l: "mem_equal ptr 7 (ascii ''02'') 2 = Some l1" "mem_equal ptr 7 (ascii ''01'') 2 = Some l2"
    using assms(1) by (auto simp: mem_equal_def ascii_length)
  obtain n where n: "str_to_hex (drop 9 ptr) 4 = Some n" using str_to_hex_4[of "drop 9 ptr"] assms(1) by auto
  have wf: "boot_wf (set_status x s)" "boot_wf (msg_ok s)" "boot_wf (msg_downloading s)" for x
    using assms(3) by (auto simp: boot_wf_def set_status_def msg_ok_def msg_downloading_def)
  have land: "\<exists>s'. msg_land ptr s = Some s' \<and> boot_wf s'" using wf(1) assms(3) by (simp add: msg_land_def l)
  have fin: "\<exists>s'. msg_downloaded ptr s = Some s' \<and> boot_wf s'" using assms(3) by (simp add: msg_downloaded_def n boot_wf_def)
  have "poc_uart_msg_deal hw ptr s =
     (if b1 then Some (msg_ok s) else if b2 then msg_land ptr s else if b3 then msg_version ptr s
      else if b4 then Some (msg_downloading s) else if b5 then msg_downloaded ptr s
      else if b6 then msg_packet hw ptr s else Some s)"
    by (simp add: poc_uart_msg_deal_def b)
  then show ?thesis using wf land fin msg_version_total[OF assms] msg_packet_total[OF assms, of hw] assms(3)
    by (simp split: if_split)
qed

lemma send_request_total: "\<exists>s'. send_request t = Some s'"
proof -
  have h: "hex_to_str [a, b] 2 = Some [hex_char (a div 16), hex_char (a mod 16), hex_char (b div 16), hex_char (b mod 16), 0]" for a b
    by (simp add: numeral_2_eq_2)
  show ?thesis by (simp add: send_request_def Let_def h memcpy_def ascii_length crlf_def)
qed

lemma control_total:
  assumes "boot_wf s"
  shows "\<exists>s'. poc_control s = Some s' \<and> boot_wf s'"
proof -
  have n: "poc_device (if b then s\<lparr>resend_timer := x\<rparr> else s) = poc_device s" for b x by simp
  have dl: "\<exists>s'. send_download t = Some s'" if "poc_device t = poc_device s" for t
    using assms that by (simp add: send_download_def Let_def memcpy_def ascii_length crlf_def boot_wf_def)
  have v: "server_soft_ver (poc_device s) \<noteq> []" using assms by (auto simp: boot_wf_def)
  define t where "t = (if resend_timer s > tick_now s then s\<lparr>resend_timer := tick_now s\<rparr> else s)"
  have t: "poc_device t = poc_device s" by (simp add: t_def)
  obtain a where dl: "send_download t = Some a" using dl[OF t] by blast
  obtain b where rq: "send_request t = Some b" using send_request_total by blast
  obtain c vs where v: "server_soft_ver (poc_device s) = c # vs" using v by (cases "server_soft_ver (poc_device s)") auto
  have "\<exists>s'. poc_control s = Some s'"
    unfolding poc_control_def Let_def t_def[symmetric] t
    by (cases "poc_status (poc_device s)") (simp_all add: dl rq v)
  then obtain s' where s': "poc_control s = Some s'" by blast
  with control_keeps(4,5)[OF s'] assms show ?thesis by (auto simp: boot_wf_def)
qed

section \<open>The loop ends\<close>

lemma message_zero:
  assumes "message l = Some m" "length l < 1024"
  shows "length m = 1024" "0 \<in> set m"
  using assms by (auto simp: message_def split: if_splits)

lemma uart_deal_total:
  assumes "line_ok (device_uart2 s)" "short (pend (device_uart2 s))" "boot_wf s"
  shows "\<exists>s'. uart_deal hw s = Some s' \<and> boot_wf s' \<and> line_ok (device_uart2 s') \<and>
    (\<forall>c \<in> set (pend (device_uart2 s')). \<not> eol c) \<and> (\<exists>d. closed d \<and> pend (device_uart2 s) = d @ pend (device_uart2 s'))"
  using assms
proof (induction "avail (device_uart2 s) - unat (cmp_cnt (device_uart2 s))" arbitrary: s rule: less_induct)
  case less
  let ?u = "device_uart2 s"
  have sh: "short ([] @ pend ?u)" using less.prems(2) by simp
  from less.prems(1) sh show ?case
  proof (cases rule: step_cases)
    case empty
    then have "uart_deal hw s = Some s" by (subst uart_deal.simps) (simp add: uart_pass_def)
    then show ?thesis using less.prems empty(1) by (auto simp: closed_def pend_def)
  next
    case (line l c r u')
    have "length l < 1024" using shortD[of "[]" l "c # r"] sh line(1,2) by simp
    then have "\<exists>s1. (case message l of None \<Rightarrow> Some s | Some ptr \<Rightarrow> poc_uart_msg_deal hw ptr s) = Some s1 \<and> boot_wf s1"
      using message_zero deal_total less.prems(3) by (cases "message l") auto
    then obtain s1 where s1: "(case message l of None \<Rightarrow> Some s | Some ptr \<Rightarrow> poc_uart_msg_deal hw ptr s) = Some s1" "boot_wf s1"
      by blast
    let ?t = "s1\<lparr>device_uart2 := u'\<rparr>"
    have step: "uart_deal hw s = uart_deal hw ?t"
      using s1(1) line(6) by (subst uart_deal.simps) (simp add: uart_pass_def)
    have "avail u' = length r" using line(5) length_pend[of u'] by simp
    moreover have "avail ?u = length l + 1 + length r" using line(1) length_pend[of ?u] by simp
    moreover have "unat (cmp_cnt ?u) \<le> length l"
    proof (rule ccontr)
      assume "\<not> ?thesis"
      then have "c \<in> set (take (unat (cmp_cnt ?u)) (pend ?u))" using line(1) by (auto simp: take_Cons')
      then show False using less.prems(1) line(3) by (simp add: line_ok_def)
    qed
    ultimately have "avail u' - unat (cmp_cnt u') < avail ?u - unat (cmp_cnt ?u)" by linarith
    moreover have "short (pend u')"
      using less.prems(2) unfolding line(1,5) short_def by (metis append.assoc append_Cons append_Nil)
    moreover have "boot_wf ?t" using s1(2) by (simp add: boot_wf_def)
    ultimately obtain s' where s': "uart_deal hw ?t = Some s'" "boot_wf s'" "line_ok (device_uart2 s')"
      "\<forall>c \<in> set (pend (device_uart2 s')). \<not> eol c" "\<exists>d. closed d \<and> pend u' = d @ pend (device_uart2 s')"
      using less.hyps[of ?t] line(4) by auto
    from s'(5) obtain d where "closed d" "pend u' = d @ pend (device_uart2 s')" by blast
    then have "closed (l @ c # d)" "pend ?u = (l @ c # d) @ pend (device_uart2 s')"
      using line(1,3,5) by (auto simp: closed_def)
    then show ?thesis using step s' by auto
  next
    case (more u')
    let ?t = "s\<lparr>device_uart2 := u'\<rparr>"
    have step: "uart_deal hw s = uart_deal hw ?t"
      using more(1) by (subst uart_deal.simps) (simp add: uart_pass_def)
    have av: "avail u' = avail ?u" using more(3) length_pend[of u'] length_pend[of ?u] by simp
    have "unat (cmp_cnt ?u) < avail ?u"
      using more(2) av more(4) by (auto simp: line_ok_def)
    then have "avail u' - unat (cmp_cnt u') < avail ?u - unat (cmp_cnt ?u)" using av more(4) by linarith
    moreover have "boot_wf ?t" using less.prems(3) by (simp add: boot_wf_def)
    ultimately show ?thesis using less.hyps[of ?t] more(2,3) less.prems(2) step by auto
  next
    case wait
    then have "uart_deal hw s = Some s" by (subst uart_deal.simps) (simp add: uart_pass_def)
    then show ?thesis using less.prems wait(2) by (auto simp: closed_def)
  qed
qed

lemma poc_task_total:
  assumes "line_ok (device_uart2 s)" "short (pend (device_uart2 s))" "boot_wf s"
  shows "\<exists>s'. poc_task hw s = Some s' \<and> boot_wf s' \<and> line_ok (device_uart2 s') \<and>
    (\<forall>c \<in> set (pend (device_uart2 s')). \<not> eol c) \<and> (\<exists>d. closed d \<and> pend (device_uart2 s) = d @ pend (device_uart2 s'))"
proof -
  obtain s1 where s1: "poc_control s = Some s1" "boot_wf s1" using control_total[OF assms(3)] by blast
  then show ?thesis
    using uart_deal_total[of s1 hw] assms(1,2) control_keeps(3)[OF s1(1)] by (simp add: poc_task_def)
qed

section \<open>Well-formed states\<close>

lemma deal_lengths:
  assumes "poc_uart_msg_deal hw ptr s = Some s'"
  shows "length (server_soft_ver (poc_device s)) = 32 \<Longrightarrow> length (server_soft_ver (poc_device s')) = 32"
    "length (server_soft_id (poc_device s')) = length (server_soft_id (poc_device s))" "device_cfg s' = device_cfg s"
proof -
  from assms consider "s' = msg_ok s" | "msg_land ptr s = Some s'" | "msg_version ptr s = Some s'"
    | "s' = msg_downloading s" | "msg_downloaded ptr s = Some s'" | "s' = s" | "msg_packet hw ptr s = Some s'"
    unfolding poc_uart_msg_deal_def by (auto simp: bind_eq_Some_conv split: if_splits)
  then have "(length (server_soft_ver (poc_device s)) = 32 \<longrightarrow> length (server_soft_ver (poc_device s')) = 32) \<and>
    length (server_soft_id (poc_device s')) = length (server_soft_id (poc_device s)) \<and> device_cfg s' = device_cfg s"
  proof cases
    case 3
    then show ?thesis by (auto simp: msg_version_def bind_eq_Some_conv dest: memcpy_length split: if_splits)
  next
    case 7
    have e: "poc_device s1 = poc_device s \<and> device_cfg s1 = device_cfg s" if "erase_app hw s = Some s1" for s1
      using that by (cases rule: erase_app_cases) auto
    have w: "server_soft_ver (poc_device s2) = server_soft_ver (poc_device s1) \<and>
        server_soft_id (poc_device s2) = server_soft_id (poc_device s1) \<and> device_cfg s2 = device_cfg s1"
      if "store_packet hw d s1 = Some s2" for d s1 s2
      using that by (cases rule: store_packet_cases) auto
    from 7 consider "s' = s" | d s1 where "erase_app hw s = Some s1" "store_packet hw d s1 = Some s'"
      by (auto simp: msg_packet_def bind_eq_Some_conv split: if_splits)
    then show ?thesis by cases (use e w in auto)
  qed (auto simp: msg_ok_def msg_land_def msg_downloading_def msg_downloaded_def bind_eq_Some_conv split: if_splits)
  then show "length (server_soft_ver (poc_device s)) = 32 \<Longrightarrow> length (server_soft_ver (poc_device s')) = 32"
    "length (server_soft_id (poc_device s')) = length (server_soft_id (poc_device s))" "device_cfg s' = device_cfg s" by auto
qed

lemma run_lengths:
  assumes "boot_run hw s0 ms s"
  shows "(length (server_soft_ver (poc_device s0)) = 32 \<longrightarrow> length (server_soft_ver (poc_device s)) = 32) \<and>
    length (server_soft_id (poc_device s)) = length (server_soft_id (poc_device s0)) \<and> device_cfg s = device_cfg s0"
  using assms
proof (induction rule: boot_run.induct)
  case (control ms s s')
  then show ?case using control_keeps(4,5)[OF control.hyps(2)] by auto
next
  case (pass ms s m go u s')
  from pass.hyps(2,3) show ?case
    by (cases rule: pass_cases) (use pass.IH deal_lengths in auto)
qed (simp_all add: SysTick_Handler_def)

text \<open>C23: Well-formed states stay well-formed over every history of interrupts and steps: the version and
  identification fields keep their sizes and the stored version its terminator. From a well-formed state
  \<open>poc_task\<close> always returns, whatever the messages are, as long as no line is longer than its buffer, and it
  leaves no complete line unread.\<close>

theorem boot_run_well_formed:
  assumes "boot_run hw s0 ms s" "boot_wf s0"
  shows "boot_wf s \<and> (line_ok (device_uart2 s) \<and> short (pend (device_uart2 s)) \<longrightarrow>
    (\<exists>s'. poc_task hw s = Some s' \<and> line_ok (device_uart2 s') \<and> (\<forall>c \<in> set (pend (device_uart2 s')). \<not> eol c)))"
proof -
  have wf: "boot_wf s" using run_lengths[OF assms(1)] assms(2) by (simp add: boot_wf_def)
  then show ?thesis using poc_task_total[of s hw] by blast
qed

lemma sample_wf: "boot_wf sample_boot" "line_ok (device_uart2 sample_boot)" "short (pend (device_uart2 sample_boot))"
proof -
  show "boot_wf sample_boot" by (simp add: boot_wf_def sample_boot_def poc_device_zero_def)
  have u: "device_uart2 sample_boot = sample_uart" by (simp add: sample_boot_def)
  show "line_ok (device_uart2 sample_boot)" unfolding u by (rule sample_uart_ok)
  show "short (pend (device_uart2 sample_boot))" unfolding u by (rule short_small) (simp add: sample_uart_ok(3))
qed

theorem boot_run_well_formed_witness: "\<exists>s'. poc_task nor_chip sample_boot = Some s'"
  using boot_run_well_formed[OF boot_run.start sample_wf(1), of nor_chip] sample_wf by auto

end
