(* ===== verification/Boot_main.thy ===== *)
theory Boot_main
  imports Boot_task
begin

text \<open>
  The boot loader's main program: \<open>app/device.c\<close>, which keeps the version in the user page, and \<open>usr/main.c\<close>,
  which runs the upgrade when the boot flag asks for it and then jumps to the application. What the main
  loop draws on the screen and its delays are left out.
\<close>

section \<open>The stored configuration\<close>

definition VER_SOFT :: "u8 list" where
  "VER_SOFT = ascii ''TYT_TP79V02_V190''"

text \<open>The 36 bytes of the structure, and the structure read from them.\<close>

definition cfg_bytes :: "device_cfg_t \<Rightarrow> u8 list" where
  "cfg_bytes cfg = bytes_le (init_flag cfg) @ cfg_ver cfg"

definition bytes_cfg :: "u8 list \<Rightarrow> device_cfg_t" where
  "bytes_cfg bs = \<lparr>init_flag = word_le (bs ! 0) (bs ! 1) (bs ! 2) (bs ! 3), cfg_ver = drop 4 bs\<rparr>"

definition device_config_save_flash :: "flash_hw \<Rightarrow> boot \<Rightarrow> boot option" where
  "device_config_save_flash hw s = do {
     f1 \<leftarrow> Flash_Erase hw FLASH_ADDR_USER_START (2 * 1024) (boot_flash s);
     f2 \<leftarrow> Flash_Write hw FLASH_ADDR_USER_START (cfg_bytes (device_cfg s)) 36 f1;
     Some (s\<lparr>boot_flash := f2\<rparr>) }"

definition device_config_read :: "boot \<Rightarrow> boot" where
  "device_config_read s = s\<lparr>device_cfg := bytes_cfg (Flash_Read FLASH_ADDR_USER_START 36 (fl_mem (boot_flash s)))\<rparr>"

definition device_init :: "flash_hw \<Rightarrow> boot \<Rightarrow> boot option" where
  "device_init hw s =
     (let s1 = s\<lparr>device_cfg := bytes_cfg (Flash_Read FLASH_ADDR_USER_START 36 (fl_mem (boot_flash s)))\<rparr> in
      if init_flag (device_cfg s1) \<noteq> 0x66666666
      then do { ver \<leftarrow> memcpy (cfg_ver (device_cfg s1)) 0 VER_SOFT 0 16;
                device_config_save_flash hw (s1\<lparr>device_cfg := \<lparr>init_flag = 0x66666666, cfg_ver = ver\<rparr>\<rparr>) }
      else Some s1)"

section \<open>The upgrade loop\<close>

definition clear_boot_flag :: "flash_hw \<Rightarrow> boot \<Rightarrow> boot option" where
  "clear_boot_flag hw s = do {
     f1 \<leftarrow> Flash_Erase hw FLASH_ADDR_BOOT_FLAG (2 * 1024) (boot_flash s);
     f2 \<leftarrow> Flash_Updata hw FLASH_ADDR_BOOT_FLAG [0, 0, 0, 0] 4 f1;
     Some (s\<lparr>boot_flash := f2\<rparr>) }"

definition upgrade_done :: "flash_hw \<Rightarrow> boot \<Rightarrow> boot option" where
  "upgrade_done hw s = do {
     s1 \<leftarrow> clear_boot_flag hw (device_config_read s);
     ver \<leftarrow> memcpy (replicate 32 0) 0 (server_soft_ver (poc_device s1)) 0 18;
     device_config_save_flash hw (s1\<lparr>device_cfg := \<lparr>init_flag = 0x66666666, cfg_ver = ver\<rparr>\<rparr>) }"

text \<open>One pass of the loop of \<open>download_code_bin\<close>, and whether it leaves the loop.\<close>

definition download_step :: "flash_hw \<Rightarrow> boot \<Rightarrow> (bool \<times> boot) option" where
  "download_step hw s = do {
     s1 \<leftarrow> poc_task hw s;
     case poc_status (poc_device s1) of
       POC_DEVICE_VER_SAME \<Rightarrow> do {
         f \<leftarrow> Flash_Updata hw FLASH_ADDR_BOOT_FLAG [0, 0, 0, 0] 4 (boot_flash s1);
         Some (True, s1\<lparr>boot_flash := f\<rparr>) }
     | POC_DEVICE_VER_DWONLOAD_SUCCESS \<Rightarrow> map_option (Pair True) (upgrade_done hw s1)
     | POC_DEVICE_VER_UPGRADE \<Rightarrow> Some (False, s1)
     | _ \<Rightarrow> if tick_now s1 > 300000 then map_option (Pair True) (clear_boot_flag hw s1) else Some (False, s1) }"

text \<open>The loop with the interrupts that come between its passes; \<open>False\<close> while it is still running.\<close>

datatype boot_event = Byte u8 | Tick | Loop

fun download_loop :: "flash_hw \<Rightarrow> boot_event list \<Rightarrow> boot \<Rightarrow> (bool \<times> boot) option" where
  "download_loop hw [] s = Some (False, s)"
| "download_loop hw (Byte b # es) s =
     Option.bind (USART2_IRQHandler b (device_uart2 s)) (\<lambda>u. download_loop hw es (s\<lparr>device_uart2 := u\<rparr>))"
| "download_loop hw (Tick # es) s = download_loop hw es (SysTick_Handler s)"
| "download_loop hw (Loop # es) s =
     Option.bind (download_step hw s) (\<lambda>(fin, s1). if fin then Some (True, s1) else download_loop hw es s1)"

definition download_code_bin :: "flash_hw \<Rightarrow> boot_event list \<Rightarrow> boot \<Rightarrow> (bool \<times> boot) option" where
  "download_code_bin hw es s = download_loop hw es (poc_init s)"

definition boot_ui_init :: "boot \<Rightarrow> boot" where
  "boot_ui_init s = device_config_read s"

definition boot_task :: "flash_hw \<Rightarrow> boot_event list \<Rightarrow> boot \<Rightarrow> (bool \<times> boot) option" where
  "boot_task hw es s = Option.bind (device_init hw s) (\<lambda>s1. download_code_bin hw es (boot_ui_init s1))"

section \<open>The start of the application\<close>

text \<open>The entry point, from the vector table of the application.\<close>

definition run_app :: "mem \<Rightarrow> u32" where
  "run_app m = load32 m (START_ADDRESS + 4)"

definition boot_requested :: "mem \<Rightarrow> bool" where
  "boot_requested m \<longleftrightarrow> read_word m FLASH_ADDR_BOOT_FLAG = 0x88888888"

text \<open>The result of \<open>main\<close> is the stack pointer it sets and the address it jumps to; \<open>None\<close>: the upgrade is
  still running.\<close>

definition boot_main :: "flash_hw \<Rightarrow> boot_event list \<Rightarrow> boot \<Rightarrow> ((u32 \<times> u32) option \<times> boot) option" where
  "boot_main hw es s = do {
     (fin, s1) \<leftarrow> (if boot_requested (fl_mem (boot_flash s)) then boot_task hw es s else Some (True, s));
     let m = fl_mem (boot_flash s1);
     Some (if fin then Some (load32 m START_ADDRESS, run_app m) else None, s1) }"

section \<open>Reading the configuration back\<close>

lemma length_rev4 [simp]: "length (rev4 xs) = length xs"
  by (induction xs rule: rev4.induct) auto

lemma save_read:
  assumes "chip_ok hw" "\<not> fl_wrprterr (boot_flash s)" "length (cfg_ver (device_cfg s)) = 32"
  shows "\<exists>s'. device_config_save_flash hw s = Some s' \<and> \<not> fl_wrprterr (boot_flash s') \<and>
    Flash_Read_for_download FLASH_ADDR_USER_START 36 (fl_mem (boot_flash s')) = cfg_bytes (device_cfg s) \<and>
    Flash_Read FLASH_ADDR_USER_START 36 (fl_mem (boot_flash s')) = rev4 (cfg_bytes (device_cfg s)) \<and>
    s' = s\<lparr>boot_flash := boot_flash s'\<rparr>"
proof -
  have len: "length (cfg_bytes (device_cfg s)) = 36" using assms(3) by (simp add: cfg_bytes_def bytes_le_def)
  obtain f1 where f1: "Flash_Erase hw FLASH_ADDR_USER_START (2 * 1024) (boot_flash s) = Some f1" "\<not> fl_wrprterr f1"
    "\<forall>p. unat (p - FLASH_ADDR_USER_START) < 2048 \<longrightarrow> fl_mem f1 p = 0xFF"
    using Flash_Erase_clean[OF assms(1,2), of FLASH_ADDR_USER_START "2 * 1024"] by auto
  obtain f2 where f2: "Flash_Write hw FLASH_ADDR_USER_START (cfg_bytes (device_cfg s)) 36 f1 = Some f2" "\<not> fl_wrprterr f2"
    "fl_mem f2 = (\<lambda>p. if unat (p - FLASH_ADDR_USER_START) < 36
       then cfg_bytes (device_cfg s) ! unat (p - FLASH_ADDR_USER_START) else fl_mem f1 p)"
    using Flash_Write_erased[OF assms(1) f1(2) len, of FLASH_ADDR_USER_START] f1(3) by auto
  have "Flash_Read_for_download FLASH_ADDR_USER_START 36 (fl_mem f2) = cfg_bytes (device_cfg s)"
    by (rule nth_equalityI) (simp_all add: len peek_nth f2(3) unat_of_nat_small Flash_Read_for_download_def)
  moreover have "Flash_Read FLASH_ADDR_USER_START 36 (fl_mem f2) = rev4 (Flash_Read_for_download FLASH_ADDR_USER_START 36 (fl_mem f2))"
    using Flash_Read_rev4[of FLASH_ADDR_USER_START 9 "fl_mem f2"] by simp
  ultimately show ?thesis using f1(1) f2(1,2) by (simp add: device_config_save_flash_def)
qed

lemma save_read_cfg:
  assumes "Flash_Read FLASH_ADDR_USER_START 36 (fl_mem (boot_flash s)) = rev4 (cfg_bytes cfg)" "length (cfg_ver cfg) = 32"
  shows "cfg_ver (device_cfg (device_config_read s)) = rev4 (cfg_ver cfg)"
    "bytes_le (init_flag (device_cfg (device_config_read s))) = rev (bytes_le (init_flag cfg))"
  by (simp_all add: device_config_read_def bytes_cfg_def assms(1) cfg_bytes_def bytes_le_def)

section \<open>The controller reports no write protection\<close>

lemma program_no_wrp: "chip_ok hw \<Longrightarrow> \<not> fl_wrprterr f \<Longrightarrow> \<not> fl_wrprterr (FLASH_ProgramWord hw a v f)"
  by (simp add: FLASH_ProgramWord_def write16_def fl_result_def chip_ok_def Let_def)

lemma erase_no_wrp: "chip_ok hw \<Longrightarrow> \<not> fl_wrprterr f \<Longrightarrow> \<not> fl_wrprterr (FLASH_ErasePage hw a f)"
  by (simp add: FLASH_ErasePage_def start_erase_def fl_result_def chip_ok_def)

lemma write_words_no_wrp:
  "chip_ok hw \<Longrightarrow> write_words hw a Data n f = Some f' \<Longrightarrow> \<not> fl_wrprterr f \<Longrightarrow> \<not> fl_wrprterr f'"
  by (induction hw a Data n f rule: write_words.induct) (auto dest: program_no_wrp)

lemma Flash_Write_no_wrp:
  "chip_ok hw \<Longrightarrow> Flash_Write hw a Data n f = Some f' \<Longrightarrow> \<not> fl_wrprterr f \<Longrightarrow> \<not> fl_wrprterr f'"
  by (auto simp: Flash_Write_def FLASH_Lock_def FLASH_ClearFlag_def FLASH_Unlock_def dest: write_words_no_wrp)

lemma fold_inv: "\<lbrakk>\<And>x g. P g \<Longrightarrow> P (h x g); P g\<rbrakk> \<Longrightarrow> P (fold h xs g)"
  by (induction xs arbitrary: g) auto

lemma Flash_Erase_no_wrp:
  assumes "chip_ok hw" "Flash_Erase hw a n f = Some f'" "\<not> fl_wrprterr f"
  shows "\<not> fl_wrprterr f'"
proof -
  have "\<not> fl_wrprterr (fold (\<lambda>i. FLASH_ErasePage hw (a + word_of_nat i * 0x800)) xs (FLASH_ClearFlag (FLASH_Unlock f)))" for xs
    by (rule fold_inv) (use assms erase_no_wrp in \<open>auto simp: FLASH_ClearFlag_def FLASH_Unlock_def\<close>)
  then show ?thesis using assms(2) by (auto simp: Flash_Erase_def FLASH_Lock_def split: if_splits)
qed

lemma deal_no_wrp:
  assumes "chip_ok hw" "poc_uart_msg_deal hw ptr s = Some s'" "\<not> fl_wrprterr (boot_flash s)"
  shows "\<not> fl_wrprterr (boot_flash s')"
  using assms(2)
proof (cases rule: deal_cases)
  case (packet dat s1)
  have "\<not> fl_wrprterr (boot_flash s1)"
    using packet(2) assms(3) Flash_Erase_no_wrp[OF assms(1)] by (cases rule: erase_app_cases) auto
  with packet(3) show ?thesis using Flash_Write_no_wrp[OF assms(1)] by (cases rule: store_packet_cases) auto
qed (use assms(3) in simp)

lemma run_no_wrp:
  assumes "boot_run hw s0 ms s" "chip_ok hw" "\<not> fl_wrprterr (boot_flash s0)"
  shows "\<not> fl_wrprterr (boot_flash s)"
  using assms(1)
proof (induction rule: boot_run.induct)
  case (control ms s s')
  then show ?case using control_keeps(1)[OF control.hyps(2)] by simp
next
  case (pass ms s m go u s')
  from pass.hyps(2,3) show ?case
    by (cases rule: pass_cases) (use pass.IH deal_no_wrp[OF assms(2)] in auto)
qed (use assms(3) in \<open>simp_all add: SysTick_Handler_def\<close>)

section \<open>Leaving the loop\<close>

abbreviation (input) CFG_START :: u32 where "CFG_START \<equiv> FLASH_ADDR_RESERVE"

lemma clear_boot_flag_ok:
  assumes "chip_ok hw" "\<not> fl_wrprterr (boot_flash s)"
  shows "\<exists>s'. clear_boot_flag hw s = Some s' \<and> \<not> fl_wrprterr (boot_flash s') \<and> s' = s\<lparr>boot_flash := boot_flash s'\<rparr> \<and>
    (\<forall>p. unat (p - FLASH_ADDR_BOOT_FLAG) < 4 \<longrightarrow> fl_mem (boot_flash s') p = 0) \<and>
    (\<forall>p. unat p < unat CFG_START \<longrightarrow> fl_mem (boot_flash s') p = fl_mem (boot_flash s) p)"
proof -
  obtain f1 where f1: "Flash_Erase hw FLASH_ADDR_BOOT_FLAG (2 * 1024) (boot_flash s) = Some f1" "\<not> fl_wrprterr f1"
    using Flash_Erase_clean[OF assms, of FLASH_ADDR_BOOT_FLAG "2 * 1024"] by auto
  obtain f2 where f2: "Flash_Updata hw FLASH_ADDR_BOOT_FLAG [0, 0, 0, 0] 4 f1 = Some f2" "\<not> fl_wrprterr f2"
    "\<forall>p. p div 0x800 \<noteq> FLASH_ADDR_RESERVE div 0x800 \<longrightarrow>
       fl_mem f2 p = (if unat (p - FLASH_ADDR_BOOT_FLAG) < 4 then [0, 0, 0, 0] ! unat (p - FLASH_ADDR_BOOT_FLAG) else fl_mem f1 p)"
    using Flash_Updata_page[OF assms(1) f1(2), of FLASH_ADDR_BOOT_FLAG 4 "[0, 0, 0, 0]"] by auto
  have pg: "p div 0x800 \<noteq> FLASH_ADDR_RESERVE div 0x800 \<longleftrightarrow> \<not> unat (p - FLASH_ADDR_RESERVE) < 2048" for p
    using page_iff[of FLASH_ADDR_RESERVE p] by simp
  have "fl_mem f2 p = 0" if "unat (p - FLASH_ADDR_BOOT_FLAG) < 4" for p
  proof -
    have "[0, 0, 0, 0 :: u8] ! unat (p - FLASH_ADDR_BOOT_FLAG) = 0" using that by (auto simp: less_Suc_eq numeral_eq_Suc)
    moreover have "\<not> unat (p - FLASH_ADDR_RESERVE) < 2048" using that unfolding unat_from by (simp split: if_splits)
    ultimately show ?thesis using f2(3) that pg[of p] by simp
  qed
  moreover have "fl_mem f2 p = fl_mem (boot_flash s) p" if "unat p < unat CFG_START" for p
  proof -
    have "\<not> unat (p - FLASH_ADDR_BOOT_FLAG) < 4" "2 * 1024 \<le> unat (p - FLASH_ADDR_BOOT_FLAG)" "\<not> unat (p - FLASH_ADDR_RESERVE) < 2048"
      using that unfolding unat_from by simp_all
    moreover have "fl_mem f1 p = fl_mem (boot_flash s) p"
      by (rule Flash_Erase_local[OF _ f1(1)]) (use assms(1) calculation(2) in \<open>simp_all add: chip_ok_def\<close>)
    ultimately show ?thesis using f2(3) pg[of p] by simp
  qed
  ultimately show ?thesis using f1(1) f2(1,2) by (simp add: clear_boot_flag_def)
qed

lemma save_local:
  assumes "chip_ok hw" "device_config_save_flash hw s = Some s'" "2 * 1024 \<le> unat (p - FLASH_ADDR_USER_START)"
  shows "fl_mem (boot_flash s') p = fl_mem (boot_flash s) p"
proof -
  from assms(2) obtain f1 f2 where f: "Flash_Erase hw FLASH_ADDR_USER_START (2 * 1024) (boot_flash s) = Some f1"
    "Flash_Write hw FLASH_ADDR_USER_START (cfg_bytes (device_cfg s)) 36 f1 = Some f2" "s' = s\<lparr>boot_flash := f2\<rparr>"
    by (auto simp: device_config_save_flash_def bind_eq_Some_conv)
  have ch: "chip_local hw" using assms(1) by (simp add: chip_ok_def)
  from Flash_Write_local[OF ch f(2), of p] Flash_Erase_local[OF ch f(1), of p] assms(3) f(3) show ?thesis by simp
qed

text \<open>When the loop is left, the boot flag is cleared and the memory below the configuration is kept.\<close>

definition finished :: "boot \<Rightarrow> boot \<Rightarrow> bool" where
  "finished s s' \<longleftrightarrow> (\<forall>p. unat (p - FLASH_ADDR_BOOT_FLAG) < 4 \<longrightarrow> fl_mem (boot_flash s') p = 0) \<and>
     (\<forall>p. unat p < unat CFG_START \<longrightarrow> fl_mem (boot_flash s') p = fl_mem (boot_flash s) p) \<and>
     poc_device s' = poc_device s"

lemma upgrade_done_ok:
  assumes "chip_ok hw" "\<not> fl_wrprterr (boot_flash s)" "length (server_soft_ver (poc_device s)) = 32"
  shows "\<exists>s'. upgrade_done hw s = Some s' \<and> finished s s' \<and>
    Flash_Read_for_download FLASH_ADDR_USER_START 36 (fl_mem (boot_flash s')) =
      bytes_le 0x66666666 @ take 18 (server_soft_ver (poc_device s)) @ replicate 14 0"
proof -
  obtain s1 where s1: "clear_boot_flag hw (device_config_read s) = Some s1" "\<not> fl_wrprterr (boot_flash s1)"
    "poc_device s1 = poc_device s" "\<forall>p. unat (p - FLASH_ADDR_BOOT_FLAG) < 4 \<longrightarrow> fl_mem (boot_flash s1) p = 0"
    "\<forall>p. unat p < unat CFG_START \<longrightarrow> fl_mem (boot_flash s1) p = fl_mem (boot_flash s) p"
    using clear_boot_flag_ok[OF assms(1), of "device_config_read s"] assms(2)
    by (auto simp: device_config_read_def dest: arg_cong[where f = poc_device])
  define ver where "ver = take 18 (server_soft_ver (poc_device s)) @ replicate 14 0"
  have v: "memcpy (replicate 32 0) 0 (server_soft_ver (poc_device s1)) 0 18 = Some ver"
    using memcpy_nat[of "replicate 32 0" 0 "server_soft_ver (poc_device s)" 0 18] assms(3) by (simp add: ver_def s1(3))
  define s2 where "s2 = s1\<lparr>device_cfg := \<lparr>init_flag = 0x66666666, cfg_ver = ver\<rparr>\<rparr>"
  obtain s' where s': "device_config_save_flash hw s2 = Some s'"
    "Flash_Read_for_download FLASH_ADDR_USER_START 36 (fl_mem (boot_flash s')) = cfg_bytes (device_cfg s2)"
    "s' = s2\<lparr>boot_flash := boot_flash s'\<rparr>"
    using save_read[OF assms(1), of s2] s1(2) assms(3) by (auto simp: s2_def ver_def)
  have keep: "fl_mem (boot_flash s') p = fl_mem (boot_flash s1) p" if "unat p < unat FLASH_ADDR_USER_START" for p
  proof -
    have "2 * 1024 \<le> unat (p - FLASH_ADDR_USER_START)" using that unfolding unat_from by simp
    from save_local[OF assms(1) s'(1) this] show ?thesis by (simp add: s2_def)
  qed
  have "unat p < unat FLASH_ADDR_USER_START" if "unat (p - FLASH_ADDR_BOOT_FLAG) < 4" for p
    using that unfolding unat_from by (simp split: if_splits)
  moreover have "poc_device s' = poc_device s" using arg_cong[OF s'(3), of poc_device] s1(3) by (simp add: s2_def)
  ultimately have "finished s s'" unfolding finished_def using keep s1(4,5) by auto
  moreover have "upgrade_done hw s = Some s'" using s1(1) v s'(1) by (simp add: upgrade_done_def s2_def)
  ultimately show ?thesis using s'(2) by (simp add: cfg_bytes_def s2_def ver_def)
qed

lemma clear_finished:
  assumes "chip_ok hw" "\<not> fl_wrprterr (boot_flash s)"
  shows "\<exists>s'. clear_boot_flag hw s = Some s' \<and> finished s s'"
proof -
  obtain s' where s': "clear_boot_flag hw s = Some s'" "s' = s\<lparr>boot_flash := boot_flash s'\<rparr>"
    "\<forall>p. unat (p - FLASH_ADDR_BOOT_FLAG) < 4 \<longrightarrow> fl_mem (boot_flash s') p = 0"
    "\<forall>p. unat p < unat CFG_START \<longrightarrow> fl_mem (boot_flash s') p = fl_mem (boot_flash s) p"
    using clear_boot_flag_ok[OF assms] by auto
  have "poc_device s' = poc_device s" by (subst s'(2)) simp
  then show ?thesis using s'(1,3,4) by (auto simp: finished_def)
qed

lemma same_finished:
  assumes "chip_ok hw" "\<not> fl_wrprterr (boot_flash s)"
  shows "\<exists>f. Flash_Updata hw FLASH_ADDR_BOOT_FLAG [0, 0, 0, 0] 4 (boot_flash s) = Some f \<and> finished s (s\<lparr>boot_flash := f\<rparr>)"
proof -
  obtain f2 where f2: "Flash_Updata hw FLASH_ADDR_BOOT_FLAG [0, 0, 0, 0] 4 (boot_flash s) = Some f2"
    "\<forall>p. p div 0x800 \<noteq> FLASH_ADDR_RESERVE div 0x800 \<longrightarrow>
       fl_mem f2 p = (if unat (p - FLASH_ADDR_BOOT_FLAG) < 4 then [0, 0, 0, 0] ! unat (p - FLASH_ADDR_BOOT_FLAG) else fl_mem (boot_flash s) p)"
    using Flash_Updata_page[OF assms, of FLASH_ADDR_BOOT_FLAG 4 "[0, 0, 0, 0]"] by auto
  have pg: "p div 0x800 \<noteq> FLASH_ADDR_RESERVE div 0x800 \<longleftrightarrow> \<not> unat (p - FLASH_ADDR_RESERVE) < 2048" for p
    using page_iff[of FLASH_ADDR_RESERVE p] by simp
  have "fl_mem f2 p = 0" if "unat (p - FLASH_ADDR_BOOT_FLAG) < 4" for p
  proof -
    have "[0, 0, 0, 0 :: u8] ! unat (p - FLASH_ADDR_BOOT_FLAG) = 0" using that by (auto simp: less_Suc_eq numeral_eq_Suc)
    moreover have "\<not> unat (p - FLASH_ADDR_RESERVE) < 2048" using that unfolding unat_from by (simp split: if_splits)
    ultimately show ?thesis using f2(2) that pg[of p] by simp
  qed
  moreover have "fl_mem f2 p = fl_mem (boot_flash s) p" if "unat p < unat CFG_START" for p
  proof -
    have "\<not> unat (p - FLASH_ADDR_BOOT_FLAG) < 4" "\<not> unat (p - FLASH_ADDR_RESERVE) < 2048"
      using that unfolding unat_from by simp_all
    then show ?thesis using f2(2) pg[of p] by simp
  qed
  ultimately show ?thesis using f2(1) by (simp add: finished_def)
qed

lemma step_run:
  assumes "download_step hw s = Some (fin, s')" "chip_ok hw" "\<not> fl_wrprterr (boot_flash s)"
    "length (server_soft_ver (poc_device s)) = 32"
  shows "\<exists>ms s1. boot_run hw s ms s1 \<and> (if fin then finished s1 s' else s' = s1)"
proof -
  from assms(1) obtain s1 where s1: "poc_task hw s = Some s1" by (auto simp: download_step_def bind_eq_Some_conv)
  then obtain ms where ms: "boot_run hw s ms s1" using poc_task_run by blast
  have wrp: "\<not> fl_wrprterr (boot_flash s1)" by (rule run_no_wrp[OF ms assms(2,3)])
  have len: "length (server_soft_ver (poc_device s1)) = 32" using run_lengths[OF ms] assms(4) by simp
  show ?thesis
  proof (cases "s' = s1 \<and> \<not> fin")
    case False
    then have "fin \<and> finished s1 s'"
      using assms(1) s1 upgrade_done_ok[OF assms(2) wrp len] clear_finished[OF assms(2) wrp] same_finished[OF assms(2) wrp]
      by (auto simp: download_step_def split: poc_device_status_t.splits if_splits)
    then show ?thesis using ms by auto
  qed (use ms in auto)
qed

lemma loop_run:
  assumes "download_loop hw es s = Some (fin, s')" "chip_ok hw" "\<not> fl_wrprterr (boot_flash s)"
    "length (server_soft_ver (poc_device s)) = 32"
  shows "\<exists>ms s1. boot_run hw s ms s1 \<and> (if fin then finished s1 s' else s' = s1)"
  using assms
proof (induction hw es s rule: download_loop.induct)
  case (1 hw s)
  then show ?case using boot_run.start by fastforce
next
  case (2 hw b es s)
  from "2.prems"(1) obtain u where u: "USART2_IRQHandler b (device_uart2 s) = Some u"
    "download_loop hw es (s\<lparr>device_uart2 := u\<rparr>) = Some (fin, s')" by (auto simp: bind_eq_Some_conv)
  from "2.IH"[OF u] "2.prems"(2-4) obtain ms s1 where
    "boot_run hw (s\<lparr>device_uart2 := u\<rparr>) ms s1" "if fin then finished s1 s' else s' = s1" by auto
  with boot_run_trans[OF this(1) boot_run.byte[OF boot_run.start u(1)]] show ?case by blast
next
  case (3 hw es s)
  from "3.IH" "3.prems" obtain ms s1 where
    "boot_run hw (SysTick_Handler s) ms s1" "if fin then finished s1 s' else s' = s1" by (auto simp: SysTick_Handler_def)
  with boot_run_trans[OF this(1) boot_run.tick[OF boot_run.start]] show ?case by blast
next
  case (4 hw es s)
  from "4.prems"(1) obtain d s2 where d: "download_step hw s = Some (d, s2)"
    "(if d then Some (True, s2) else download_loop hw es s2) = Some (fin, s')" by (auto simp: bind_eq_Some_conv)
  from step_run[OF d(1) "4.prems"(2-4)] obtain ms s1 where
    r: "boot_run hw s ms s1" "if d then finished s1 s2 else s2 = s1" by blast
  show ?case
  proof (cases d)
    case False
    then have "\<not> fl_wrprterr (boot_flash s2)" "length (server_soft_ver (poc_device s2)) = 32"
      using r run_no_wrp[OF r(1) "4.prems"(2,3)] run_lengths[OF r(1)] "4.prems"(4) by auto
    with False d "4.IH"[OF d(1) refl] "4.prems"(2) obtain ms2 s3 where
      "boot_run hw s2 ms2 s3" "if fin then finished s3 s' else s' = s3" by auto
    moreover have "boot_run hw s (ms @ ms2) s3" by (rule boot_run_trans[OF calculation(1)]) (use r False in simp)
    ultimately show ?thesis by blast
  qed (use d r in auto)
qed

lemma flag_cleared: "finished s s' \<Longrightarrow> \<not> boot_requested (fl_mem (boot_flash s'))"
proof -
  assume "finished s s'"
  then have z: "fl_mem (boot_flash s') (FLASH_ADDR_BOOT_FLAG + word_of_nat i) = 0" if "i < 4" for i
    using that by (simp add: finished_def unat_of_nat_small)
  have "fl_mem (boot_flash s') FLASH_ADDR_BOOT_FLAG = 0" "fl_mem (boot_flash s') (FLASH_ADDR_BOOT_FLAG + 1) = 0"
    "fl_mem (boot_flash s') (FLASH_ADDR_BOOT_FLAG + 2) = 0" "fl_mem (boot_flash s') (FLASH_ADDR_BOOT_FLAG + 3) = 0"
    using z[of 0] z[of 1] z[of 2] z[of 3] by simp_all
  then show ?thesis by (simp add: boot_requested_def read_word_eq word_le_def)
qed

lemma finished_packet:
  assumes "finished s s'" "k < 1936"
  shows "Flash_Read_for_download (packet_at k) 256 (fl_mem (boot_flash s')) =
    Flash_Read_for_download (packet_at k) 256 (fl_mem (boot_flash s))"
proof (rule peek_cong)
  fix i :: nat assume "i < 256"
  then have "unat (packet_at k + word_of_nat i) = 0x08004000 + 256 * k + i"
    using assms(2) unat_packet_at[of k] by (simp add: unat_word_ariths unat_of_nat_small)
  then have "unat (packet_at k + word_of_nat i) < unat CFG_START" using assms(2) \<open>i < 256\<close> by simp
  then show "fl_mem (boot_flash s') (packet_at k + word_of_nat i) = fl_mem (boot_flash s) (packet_at k + word_of_nat i)"
    using assms(1) unfolding finished_def by blast
qed

text \<open>Leaving the loop successfully: every packet announced is in the application area.\<close>

lemma success_image:
  assumes "download_loop hw es s0 = Some (True, s')" "chip_ok hw" "\<not> fl_wrprterr (boot_flash s0)"
    "length (server_soft_ver (poc_device s0)) = 32" "down_pack_cnt (poc_device s0) = 0"
    "poc_status (poc_device s0) \<noteq> POC_DEVICE_VER_DWONLOAD_SUCCESS"
    "poc_status (poc_device s') = POC_DEVICE_VER_DWONLOAD_SUCCESS" "pack_sum (poc_device s') \<le> 1936"
  shows "\<exists>ms s1. boot_run hw s0 ms s1 \<and> \<not> boot_requested (fl_mem (boot_flash s')) \<and>
    (\<forall>k < unat (pack_sum (poc_device s')). \<exists>ptr \<in> set ms.
       carries ptr k (Flash_Read_for_download (packet_at k) 256 (fl_mem (boot_flash s'))))"
proof -
  from loop_run[OF assms(1-4)] obtain ms s1 where r: "boot_run hw s0 ms s1" "finished s1 s'" by auto
  have dev: "poc_device s' = poc_device s1" using r(2) by (simp add: finished_def)
  have "image_ok ms s1" using run_image[OF r(1) _ assms(5)] assms(2) by (simp add: chip_ok_def)
  moreover have "pack_sum (poc_device s1) \<le> down_pack_cnt (poc_device s1)"
    using run_success[OF r(1) assms(6)] assms(7) dev by (simp add: success_ok_def)
  ultimately have "\<exists>ptr \<in> set ms. carries ptr k (Flash_Read_for_download (packet_at k) 256 (fl_mem (boot_flash s')))"
    if "k < unat (pack_sum (poc_device s'))" for k
    using that finished_packet[OF r(2), of k] assms(8) dev by (auto simp: image_ok_def word_le_nat_alt)
  then show ?thesis using r flag_cleared[OF r(2)] by blast
qed

section \<open>Results\<close>

lemma idle_step:
  assumes "avail (device_uart2 s) = 0" "uart_ok (device_uart2 s)"
    and "poc_status (poc_device s) = POC_DEVICE_VER_UPGRADE" "down_pack_cnt (poc_device s) < pack_sum (poc_device s)"
  shows "\<exists>s'. download_step hw s = Some (False, s') \<and> device_uart2 s' = device_uart2 s \<and> poc_device s' = poc_device s"
proof -
  define t where "t = (if resend_timer s > tick_now s then s\<lparr>resend_timer := tick_now s\<rparr> else s)"
  have t: "poc_device t = poc_device s" "device_uart2 t = device_uart2 s" by (simp_all add: t_def)
  obtain b where b: "send_request t = Some b" using send_request_total by blast
  have "\<exists>s1. poc_control s = Some s1"
    unfolding poc_control_def Let_def t_def[symmetric] t using assms(3,4) by (simp add: b)
  then obtain s1 where s1: "poc_control s = Some s1" by blast
  have keep: "device_uart2 s1 = device_uart2 s" "poc_device s1 = poc_device s"
    using control_keeps(3,5)[OF s1] assms(4) by auto
  have "read_p (device_uart2 s) = write_p (device_uart2 s)" using avail_cases(3)[OF assms(2)] assms(1) by simp
  then have "uart_deal hw s1 = Some s1"
    by (subst uart_deal.simps) (simp add: uart_pass_def uart_line_step_def keep)
  then show ?thesis using s1 keep assms(3) by (simp add: download_step_def poc_task_def)
qed

text \<open>C26: The upgrade state has no time limit: when the modem falls silent in the middle of an upgrade, the boot
  loader goes on asking for the next packet, in every sequence of clock ticks and passes of its loop, and
  neither finishes nor starts the application.\<close>

theorem upgrade_waits_forever:
  assumes "set es \<subseteq> {Tick, Loop}" "avail (device_uart2 s) = 0" "uart_ok (device_uart2 s)"
    "poc_status (poc_device s) = POC_DEVICE_VER_UPGRADE" "down_pack_cnt (poc_device s) < pack_sum (poc_device s)"
  shows "\<exists>s'. download_loop hw es s = Some (False, s') \<and> poc_device s' = poc_device s"
  using assms
proof (induction es arbitrary: s)
  case (Cons e es)
  show ?case
  proof (cases e)
    case Tick
    have "poc_device (SysTick_Handler s) = poc_device s" "device_uart2 (SysTick_Handler s) = device_uart2 s"
      by (simp_all add: SysTick_Handler_def)
    with Tick Cons.IH[of "SysTick_Handler s"] Cons.prems show ?thesis by simp
  next
    case Loop
    obtain s1 where "download_step hw s = Some (False, s1)" "device_uart2 s1 = device_uart2 s" "poc_device s1 = poc_device s"
      using idle_step[OF Cons.prems(2-5)] by blast
    with Loop Cons.IH[of s1] Cons.prems show ?thesis by simp
  qed (use Cons.prems(1) in simp)
qed simp

theorem upgrade_waits_forever_witness:
  "\<exists>s'. download_loop nor_chip (replicate 400000 Tick @ replicate 7 Loop) (sample_boot\<lparr>device_uart2 := uart_start\<rparr>) =
    Some (False, s')"
proof -
  let ?s = "sample_boot\<lparr>device_uart2 := uart_start\<rparr>"
  have e: "set (replicate 400000 Tick @ replicate 7 Loop) \<subseteq> {Tick, Loop}" by auto
  have a: "avail (device_uart2 ?s) = 0" "uart_ok (device_uart2 ?s)"
    using uart_start_ok length_pend[of uart_start] by (simp_all add: line_ok_def)
  have "poc_status (poc_device ?s) = POC_DEVICE_VER_UPGRADE" "down_pack_cnt (poc_device ?s) < pack_sum (poc_device ?s)"
    by (simp_all add: sample_boot_def poc_device_zero_def)
  from upgrade_waits_forever[OF e a this, of nor_chip] show ?thesis by blast
qed

text \<open>C5: The boot loader as a whole, for images of at most 1936 packets, on a flash controller that keeps its
  promises: when the upgrade loop is left with success, every packet the modem announced is in flash at its
  place, the data of a received packet whose checksum was right, and the boot flag is cleared, so that the
  next start runs the application. The writes to the reserve, flag and configuration pages on the way out do
  not touch these packets. The bound is the one the memory map gives, and the code does not check it: packet
  1936, the 1937th, lies at \<open>FLASH_ADDR_RESERVE\<close>, a page that the way out erases. The stored version field has
  the 32 bytes of its array.\<close>

theorem upgrade_success_image:
  assumes "download_loop hw es s0 = Some (True, s')" "chip_ok hw" "\<not> fl_wrprterr (boot_flash s0)"
    "length (server_soft_ver (poc_device s0)) = 32" "down_pack_cnt (poc_device s0) = 0" "poc_status (poc_device s0) \<noteq> POC_DEVICE_VER_DWONLOAD_SUCCESS"
    "poc_status (poc_device s') = POC_DEVICE_VER_DWONLOAD_SUCCESS" "pack_sum (poc_device s') \<le> 1936"
  shows "\<exists>ms s1. boot_run hw s0 ms s1 \<and> \<not> boot_requested (fl_mem (boot_flash s')) \<and>
    (\<forall>k < unat (pack_sum (poc_device s')). \<exists>ptr \<in> set ms.
       carries ptr k (Flash_Read_for_download (packet_at k) 256 (fl_mem (boot_flash s'))))"
  by (rule success_image[OF assms])

lemma control_complete:
  assumes "poc_status (poc_device s) = POC_DEVICE_VER_UPGRADE" "\<not> down_pack_cnt (poc_device s) < pack_sum (poc_device s)"
  shows "\<exists>v. poc_control s = Some v \<and> poc_device v = (poc_device s)\<lparr>poc_status := POC_DEVICE_VER_DWONLOAD_SUCCESS\<rparr>"
proof -
  define t where "t = (if resend_timer s > tick_now s then s\<lparr>resend_timer := tick_now s\<rparr> else s)"
  have t: "poc_device t = poc_device s" by (simp add: t_def)
  show ?thesis unfolding poc_control_def Let_def t_def[symmetric] t using assms by (simp add: t)
qed

lemma sample_finishes:
  "\<exists>s'. download_loop nor_chip [Loop, Loop] sample_boot = Some (True, s') \<and>
    poc_status (poc_device s') = POC_DEVICE_VER_DWONLOAD_SUCCESS \<and> pack_sum (poc_device s') = 1"
proof -
  obtain s u where p: "line_ok u" "pend u = []" "uart_pass nor_chip sample_boot = Some (True, s\<lparr>device_uart2 := u\<rparr>)"
    "unat (down_pack_cnt (poc_device s)) = 1" "msg_packet nor_chip (packet_buffer sample_hdr sample_mid 0 sample_data) sample_boot = Some s"
    using sample_pass by blast
  let ?t = "s\<lparr>device_uart2 := u\<rparr>"
  have rw: "read_p u = write_p u" using p(1,2) avail_cases(3)[of u] length_pend[of u] by (simp add: line_ok_def)
  have stop: "uart_deal nor_chip x = Some x" if "device_uart2 x = u" for x
    using that rw by (subst uart_deal.simps) (simp add: uart_pass_def uart_line_step_def)
  have c: "carries (packet_buffer sample_hdr sample_mid 0 sample_data) (unat (down_pack_cnt (poc_device sample_boot))) sample_data"
    using packet_buffer_ok(3)[OF _ sample_framing, of sample_data 0] by (simp add: sample_zero(1))
  have "down_pack_cnt (poc_device s) \<noteq> down_pack_cnt (poc_device sample_boot)" using p(4) sample_zero(1) by auto
  with p(5) have dev: "poc_device s = (poc_device sample_boot)\<lparr>down_pack_cnt := 1\<rparr>"
  proof -
    from p(5) obtain d s1 where d: "erase_app nor_chip sample_boot = Some s1" "store_packet nor_chip d s1 = Some s"
      using \<open>down_pack_cnt (poc_device s) \<noteq> down_pack_cnt (poc_device sample_boot)\<close>
      by (auto simp: msg_packet_def bind_eq_Some_conv split: if_splits)
    have "poc_device s1 = poc_device sample_boot" using d(1) by (cases rule: erase_app_cases) auto
    then obtain x where x: "poc_device s = (poc_device sample_boot)\<lparr>down_pack_cnt := x\<rparr>"
      by (cases rule: store_packet_cases[OF d(2)]) auto
    moreover have "x = 1" using p(4) x by (simp add: word_unat_eq_iff)
    ultimately show ?thesis by simp
  qed
  have "poc_control sample_boot = Some sample_boot"
    by (simp add: poc_control_def sample_boot_def poc_device_zero_def tick_now_def)
  moreover have "uart_deal nor_chip sample_boot = Some ?t" using p(3) stop[of ?t] by (subst uart_deal.simps) simp
  ultimately have one: "download_step nor_chip sample_boot = Some (False, ?t)"
    using dev by (simp add: download_step_def poc_task_def sample_boot_def poc_device_zero_def)
  obtain v where v: "poc_control ?t = Some v" "poc_device v = (poc_device s)\<lparr>poc_status := POC_DEVICE_VER_DWONLOAD_SUCCESS\<rparr>"
    using control_complete[of ?t] dev by (auto simp: sample_boot_def poc_device_zero_def)
  have fv: "boot_flash v = boot_flash s" "device_uart2 v = u" using control_keeps(1,3)[OF v(1)] by simp_all
  have "\<not> fl_wrprterr (boot_flash s)"
    using deal_no_wrp[OF nor_chip_ok(1), of "packet_buffer sample_hdr sample_mid 0 sample_data" sample_boot s] p(5) deal_packet
    by (simp add: sample_boot_def blank_flash_def)
  then obtain s' where s': "upgrade_done nor_chip v = Some s'" "finished v s'"
    using upgrade_done_ok[OF nor_chip_ok(1), of v] v(2) dev fv by (auto simp: sample_boot_def poc_device_zero_def)
  have "download_step nor_chip ?t = Some (True, s')"
    using v stop[OF fv(2)] s'(1) by (simp add: download_step_def poc_task_def)
  moreover have "poc_status (poc_device s') = POC_DEVICE_VER_DWONLOAD_SUCCESS" "pack_sum (poc_device s') = 1"
    using s'(2) v(2) dev by (simp_all add: finished_def sample_boot_def poc_device_zero_def)
  ultimately show ?thesis using one by simp
qed

theorem upgrade_success_image_witness:
  "\<exists>s'. download_loop nor_chip [Loop, Loop] sample_boot = Some (True, s') \<and> \<not> boot_requested (fl_mem (boot_flash s')) \<and>
    (\<exists>ptr. carries ptr 0 (Flash_Read_for_download (packet_at 0) 256 (fl_mem (boot_flash s'))))"
proof -
  obtain s' where s': "download_loop nor_chip [Loop, Loop] sample_boot = Some (True, s')"
    "poc_status (poc_device s') = POC_DEVICE_VER_DWONLOAD_SUCCESS" "pack_sum (poc_device s') = 1"
    using sample_finishes by blast
  have "\<not> fl_wrprterr (boot_flash sample_boot)" by (simp add: sample_boot_def blank_flash_def)
  moreover have "length (server_soft_ver (poc_device sample_boot)) = 32" using sample_wf(1) by (simp add: boot_wf_def)
  ultimately show ?thesis using upgrade_success_image[OF s'(1) nor_chip_ok(1) _ _ sample_zero s'(2)] s'(1,3) by auto
qed

text \<open>The version read back has the bytes of each word reversed, and so never has the expected prefix.\<close>

lemma rev4_first: "4 \<le> length v \<Longrightarrow> rev4 v ! 0 = v ! 3"
  by (cases v rule: rev4.cases) auto

lemma drop4_rev4: "4 \<le> length v \<Longrightarrow> drop 4 (rev4 v) = rev4 (drop 4 v)"
  by (cases v rule: rev4.cases) auto

lemma reversed_prefix:
  assumes "take 12 v = ascii ''TYT_TP79V02_''" "length v = 32" "cfg_ver (device_cfg s) = rev4 v"
    "length ptr = 1024" "take 12 (drop 14 ptr) = ascii ''TYT_TP79V02_''"
  shows "msg_version ptr s = Some s"
proof -
  have "take 12 (rev4 v) \<noteq> take 12 (drop 14 ptr)"
  proof
    assume e: "take 12 (rev4 v) = take 12 (drop 14 ptr)"
    have "take 12 (rev4 v) ! 0 = take 12 v ! 3" using assms(2) rev4_first[of v] by simp
    then show False unfolding e assms(5) assms(1) by (simp add: ascii_def)
  qed
  then have "mem_equal ptr 14 (cfg_ver (device_cfg s)) 12 = Some False"
    using assms(2-4) by (simp add: mem_equal_def)
  then show ?thesis by (simp add: msg_version_def)
qed

text \<open>C25: The boot loader never takes up an offered version of its own model: \<open>Flash_Read\<close> returns the bytes of each
  word in reverse, so that the version in memory, read back when the screen is drawn, does not begin with
  the model name, whether it was stored by an earlier run or by \<open>device_init\<close> just before; the offer is
  ignored and the state kept.\<close>

theorem upgrade_offer_ignored:
  assumes "chip_ok hw" "\<not> fl_wrprterr (boot_flash s)" "device_init hw s = Some s1"
    and "stored = Flash_Read_for_download FLASH_ADDR_USER_START 36 (fl_mem (boot_flash s))"
    and "take 4 stored = [0x66, 0x66, 0x66, 0x66] \<longrightarrow> take 12 (drop 4 stored) = ascii ''TYT_TP79V02_''"
    and "length ptr = 1024" "take 12 (drop 14 ptr) = ascii ''TYT_TP79V02_''"
  shows "msg_version ptr (boot_ui_init s1) = Some (boot_ui_init s1)"
proof -
  have len: "length stored = 36" by (simp add: assms(4) Flash_Read_for_download_def)
  have rd: "Flash_Read FLASH_ADDR_USER_START 36 (fl_mem (boot_flash s)) = rev4 stored"
    using Flash_Read_rev4[of FLASH_ADDR_USER_START 9 "fl_mem (boot_flash s)"] by (simp add: assms(4))
  define c where "c = bytes_cfg (rev4 stored)"
  have lc: "length (cfg_ver c) = 32" by (simp add: c_def bytes_cfg_def len)
  show ?thesis
  proof (cases "init_flag c = 0x66666666")
    case True
    then have s1: "s1 = s\<lparr>device_cfg := c\<rparr>" using assms(3) by (simp add: device_init_def Let_def rd c_def)
    obtain a0 a1 a2 a3 r where st: "stored = a0 # a1 # a2 # a3 # r" using len by (cases stored rule: rev4.cases) auto
    have "bytes_le (word_le a3 a2 a1 a0) = bytes_le 0x66666666" using True by (simp add: c_def bytes_cfg_def st)
    then have "take 4 stored = [0x66, 0x66, 0x66, 0x66]" by (simp add: st) (simp add: bytes_le_def)
    with assms(5) have "take 12 (drop 4 stored) = ascii ''TYT_TP79V02_''" by blast
    moreover have "cfg_ver (device_cfg (boot_ui_init s1)) = rev4 (drop 4 stored)"
      using drop4_rev4[of stored] len by (simp add: boot_ui_init_def device_config_read_def bytes_cfg_def s1 rd)
    ultimately show ?thesis using reversed_prefix[of "drop 4 stored"] assms(6,7) len by simp
  next
    case False
    define s2 where "s2 = s\<lparr>device_cfg := \<lparr>init_flag = 0x66666666, cfg_ver = VER_SOFT @ drop 16 (cfg_ver c)\<rparr>\<rparr>"
    have vl: "length VER_SOFT = 16" by (simp add: VER_SOFT_def)
    have "memcpy (cfg_ver c) 0 VER_SOFT 0 16 = Some (VER_SOFT @ drop 16 (cfg_ver c))"
      using memcpy_nat[of "cfg_ver c" 0 VER_SOFT 0 16] lc vl by simp
    then have sv: "device_config_save_flash hw s2 = Some s1"
      using assms(3) False by (simp add: device_init_def Let_def rd s2_def flip: c_def)
    have "Flash_Read FLASH_ADDR_USER_START 36 (fl_mem (boot_flash s1)) = rev4 (cfg_bytes (device_cfg s2))"
      using save_read[OF assms(1), of s2] assms(2) sv lc vl by (auto simp: s2_def)
    from save_read_cfg(1)[OF this] lc vl have "cfg_ver (device_cfg (boot_ui_init s1)) = rev4 (VER_SOFT @ drop 16 (cfg_ver c))"
      by (simp add: boot_ui_init_def s2_def)
    moreover have "take 12 (VER_SOFT @ drop 16 (cfg_ver c)) = ascii ''TYT_TP79V02_''" by (simp add: VER_SOFT_def ascii_def)
    moreover have "length (VER_SOFT @ drop 16 (cfg_ver c)) = 32" using lc vl by simp
    ultimately show ?thesis using reversed_prefix assms(6,7) by blast
  qed
qed

theorem upgrade_offer_ignored_witness:
  "\<exists>s1. device_init nor_chip sample_boot = Some s1 \<and>
    msg_version (replicate 14 48 @ ascii ''TYT_TP79V02_V191'' @ replicate 994 0) (boot_ui_init s1) = Some (boot_ui_init s1)"
proof -
  let ?st = "Flash_Read_for_download FLASH_ADDR_USER_START 36 (fl_mem (boot_flash sample_boot))"
  let ?p = "replicate 14 48 @ ascii ''TYT_TP79V02_V191'' @ replicate 994 0"
  have st: "?st = replicate 36 0xFF"
    by (rule nth_equalityI) (simp_all add: sample_boot_def blank_flash_def Flash_Read_for_download_def)
  have w: "\<not> fl_wrprterr (boot_flash sample_boot)" by (simp add: sample_boot_def blank_flash_def)
  have "\<exists>s1. device_init nor_chip sample_boot = Some s1"
  proof -
    have "Flash_Read FLASH_ADDR_USER_START 36 (fl_mem (boot_flash sample_boot)) = rev4 (replicate 36 0xFF)"
      using Flash_Read_rev4[of FLASH_ADDR_USER_START 9 "fl_mem (boot_flash sample_boot)"] st by simp
    then have l: "length (cfg_ver (bytes_cfg (Flash_Read FLASH_ADDR_USER_START 36 (fl_mem (boot_flash sample_boot))))) = 32"
      by (simp add: bytes_cfg_def)
    have vl: "length VER_SOFT = 16" by (simp add: VER_SOFT_def)
    define v where "v = cfg_ver (bytes_cfg (Flash_Read FLASH_ADDR_USER_START 36 (fl_mem (boot_flash sample_boot))))"
    have "memcpy v 0 VER_SOFT 0 16 = Some (VER_SOFT @ drop 16 v)"
      using memcpy_nat[of v 0 VER_SOFT 0 16] l vl by (simp add: v_def)
    moreover obtain x where "device_config_save_flash nor_chip
        (sample_boot\<lparr>device_cfg := \<lparr>init_flag = 0x66666666, cfg_ver = VER_SOFT @ drop 16 v\<rparr>\<rparr>) = Some x"
      using save_read[OF nor_chip_ok(1), of "sample_boot\<lparr>device_cfg := \<lparr>init_flag = 0x66666666, cfg_ver = VER_SOFT @ drop 16 v\<rparr>\<rparr>"]
        w vl l by (auto simp: v_def)
    ultimately show ?thesis by (auto simp: device_init_def Let_def v_def)
  qed
  then obtain s1 where s1: "device_init nor_chip sample_boot = Some s1" by blast
  have t: "take 4 ?st = [0x66, 0x66, 0x66, 0x66] \<longrightarrow> take 12 (drop 4 ?st) = ascii ''TYT_TP79V02_''"
    unfolding st by (auto dest: arg_cong[where f = hd])
  have p: "length ?p = 1024" "take 12 (drop 14 ?p) = ascii ''TYT_TP79V02_''" by (simp_all add: ascii_def)
  from upgrade_offer_ignored[OF nor_chip_ok(1) w s1 refl t p] s1 show ?thesis by blast
qed

end
