(* ===== verification/Spec2Isabelle.thy ===== *)
theory Spec2Isabelle
  imports Ringbuffer Ringblk Serial_dev Ipc_sem Ipc_mutex Ipc_event Ipc_mailbox Ipc_mq Mempool Heap Boot_main
begin

text \<open>
  The firmware of the TP79 radio: two programs for STM32 microcontrollers, modelled here from their C sources.

  \<^item> The application, \<open>TP79_APP\<close>: the RT-Thread 4.0.2 kernel in \<open>rt-thread/src\<close>, configured by \<open>rtconfig.h\<close>
    for one core, 32 priorities, the small memory allocator and hard timers only, with the driver IPC of
    \<open>rt-thread/components/drivers/src\<close> and the serial driver beside it. Its own \<open>applications/main.c\<close> only blinks a lamp, so that the kernel
    is the program.
  \<^item> The boot loader, \<open>TP79_BOOT\<close>: it receives a new application over a serial line from the modem, checks it
    packet by packet, writes it to the flash and starts it. It does not use the kernel.

  \<^bigskip>
  How the parts of the kernel work together. An IPC object keeps threads in lists of waiting threads. A call
  that blocks (\<open>ipc.c\<close>, \<open>mempool.c\<close>, \<open>completion.c\<close>, \<open>dataqueue.c\<close>) suspends the current thread
  (\<open>thread.c\<close>), which leaves the ready table of \<open>scheduler.c\<close>, starts the timer of the thread (\<open>timer.c\<close>) and
  calls \<open>rt_schedule\<close>. It is resumed by another thread that serves the object, or by the clock interrupt
  (\<open>clock.c\<close>), which runs the timers that are due; either sets the error code of the thread that it returns
  with. Objects are named and listed by \<open>object.c\<close>, dynamic ones live in the heap of \<open>mem.c\<close>. Threads that
  have ended wait in the defunct list for the idle thread (\<open>idle.c\<close>), which gives their memory back. Devices
  (\<open>device.c\<close>) are objects in front of the functions of a driver; the serial driver (\<open>serial.c\<close>) is one, with a
  FIFO that the receive interrupt of the port (\<open>drv_usart.c\<close>) fills.

  How the parts of the boot loader work together. The receive interrupt puts bytes into a ring buffer,
  \<open>poc_task\<close> takes lines out of it and hands them to the protocol of \<open>poc.c\<close>, which writes packets through
  \<open>flash.c\<close>; \<open>main.c\<close> decides by a flag in the flash whether to run the protocol at all, and leaves the
  upgrade loop on success, failure or timeout.
\<close>

section \<open>Theories and sources\<close>

text \<open>
  Paths of the kernel are below \<open>TP79_APP/rt-thread\<close>, paths of the boot loader below \<open>TP79_BOOT/Src\<close>.

  Shared by all:
  \<^item> \<open>Prelude\<close>: the integer types and error codes of \<open>include/rtdef.h\<close> at their width, \<open>RT_ALIGN\<close>, \<open>memcpy\<close>, and
    the locale \<open>bounded_queue\<close>.
  \<^item> \<open>Cyclic\<close>: windows of a circular buffer. \<open>Chains\<close>: singly linked lists in memory.

  Data structures without threads:
  \<^item> \<open>Ringbuffer\<close>: \<open>components/drivers/src/ringbuffer.c\<close>; \<open>Ringblk\<close>: \<open>ringblk_buf.c\<close> there.
  \<^item> \<open>Small_mem\<close>: the operations of \<open>src/mem.c\<close>; \<open>Heap\<close>: their correctness.
  \<^item> \<open>Ffs\<close>: \<open>__rt_ffs\<close> of \<open>src/kservice.c\<close>.

  The core of the kernel:
  \<^item> \<open>State\<close>: the control blocks of \<open>include/rtdef.h\<close>, the list operations of \<open>include/rtservice.h\<close>, the static
    variables of the kernel's files.
  \<^item> \<open>Sched\<close>: \<open>src/scheduler.c\<close> and \<open>src/irq.c\<close>. \<open>Kobject\<close>: \<open>src/object.c\<close>, and the string functions it uses.
    \<open>Timer\<close>: \<open>src/timer.c\<close>. \<open>Thread\<close>: \<open>src/thread.c\<close>, the stack frame of \<open>libcpu/arm/cortex-m3/cpuport.c\<close>,
    and \<open>src/clock.c\<close>.
  \<^item> \<open>Kinv\<close>: the invariant of the core and what each operation of \<open>Sched\<close>, \<open>Timer\<close> and \<open>Thread\<close> does to it.
    \<open>Clock\<close>: the clock interrupt with its loop over the timers.
  \<^item> \<open>Idle\<close>: \<open>src/idle.c\<close>. \<open>Device\<close>: \<open>src/device.c\<close>.

  Threads that wait:
  \<^item> \<open>Ipc_base\<close>: the inline functions of \<open>src/ipc.c\<close>. \<open>Waiting\<close>: the interface of the wait lists and the blocking
    of the current thread. \<open>Priority\<close>: the change of a thread's priority.
  \<^item> \<open>Ipc_sem\<close>, \<open>Ipc_mutex\<close>, \<open>Ipc_event\<close>, \<open>Ipc_mailbox\<close>, \<open>Ipc_mq\<close>: the five objects of \<open>src/ipc.c\<close>.
  \<^item> \<open>Mempool\<close>: \<open>src/mempool.c\<close>. \<open>Completion\<close>, \<open>Dataqueue\<close>: \<open>completion.c\<close> and \<open>dataqueue.c\<close> of the driver IPC.
  \<^item> \<open>Serial\<close>: \<open>components/drivers/serial/serial.c\<close>; \<open>Serial_fifo\<close>: its receive FIFO; \<open>Usart\<close>: the port,
    \<open>TP79_APP/libraries/HAL_Drivers/drv_usart.c\<close>; \<open>Serial_dev\<close>: what devices and ports guarantee each other.

  The boot loader:
  \<^item> \<open>Boot_text\<close>: \<open>app/my_string.c\<close> and the checksum of \<open>drv/poc.c\<close>. \<open>Boot_flash\<close>: \<open>drv/flash.c\<close> on the flash
    driver \<open>Libraries/src/stm32f10x_flash.c\<close>. \<open>Boot_uart\<close>: the receive interrupt, the ring buffer of
    \<open>drv/uart.c\<close> and the line reader of \<open>poc_task\<close>. \<open>Boot_poc\<close>: the protocol of \<open>drv/poc.c\<close>. \<open>Boot_main\<close>:
    \<open>usr/main.c\<close> and \<open>app/device.c\<close>.
  \<^item> \<open>Boot_upgrade\<close>, \<open>Boot_install\<close>, \<open>Boot_task\<close>: what the protocol guarantees.
\<close>

section \<open>How the code is represented\<close>

text \<open>
  State. The kernel is one record, \<open>kstate\<close>. A control block is named by a number (a thread, a semaphore and so
  on) or by an \<open>oid\<close>, its address in the code; the fields of the record map these names to the control blocks.
  The object header common to all of them is \<open>objs\<close>. A doubly linked list is the HOL list of the threads in
  it, \<open>lists\<close>, and \<open>tlink\<close> says in which list a thread's node is; the operations write both, as the pointer
  operations of \<open>rtservice.h\<close> do, and the invariant says that they agree. The heap is the field \<open>kheap\<close>, the
  record \<open>small_mem\<close>. The boot loader is the record \<open>boot\<close>, with the flash and the serial line as parts.

  Values. Integers are words at the width of the C type; where C promotes to \<open>int\<close> before it computes or
  compares, the model computes in \<open>int\<close> and truncates where the code stores. A result is an option, \<open>None\<close> for
  behaviour that the code has no defined way to go on from: a failed \<open>RT_ASSERT\<close>, after which
  \<open>rt_assert_handler\<close> loops for ever, an access outside a buffer, a division by 0, or a loop that does not
  end. Error codes are values of the result like any other.

  Atomicity. A section between \<open>rt_hw_interrupt_disable\<close> and \<open>rt_hw_interrupt_enable\<close> is one step, and sections
  with a window between them are separate definitions (\<open>Ipc_mq\<close> has the copy of a message between its two
  stages). A call that blocks is split at \<open>rt_schedule\<close>: the first definition returns the \<open>outcome\<close>
  \<open>Blocked\<close>, and its companion with the suffix \<open>_woken\<close> is the rest of the call, run when the thread is
  the current one again. Histories are inductive relations whose steps are the definitions of the code, in
  any order that the state admits, with whatever other threads, interrupts and timeouts do to the object; the
  histories of semaphores, mutexes and memory pools have the timeout of a waiting thread and the return of a
  woken one as steps of their own. Each history says what it leaves out.

  Loops. No definition has fuel. Loops over data are recursions on it; loops that may run for ever are
  \<open>partial_function (option)\<close>, and theorems state that they return: the search loops of the heap
  (\<open>malloc_search\<close>, \<open>lfree_search\<close>), the loop over due timers (\<open>timer_check_loop\<close>), waking all threads
  (\<open>rt_ipc_list_resume_all\<close>, \<open>mp_wake_all\<close>), emptying a message queue (\<open>mq_flush\<close>), reclaiming threads
  (\<open>rt_thread_idle_excute\<close>) and reading lines in the boot loader (\<open>uart_deal\<close>).

  Code that is not in the sources is a parameter: the flash controller (\<open>hw_program\<close> and \<open>hw_erase\<close>, whose
  documented behaviour is \<open>chip_ok\<close>; \<open>nor_chip\<close> is a controller that has it), the functions that users give to
  timers, threads, the idle hook list, devices and data queues, and the address of \<open>rt_thread_exit\<close>. Theorems
  that rest on what such a function does name it as a hypothesis (\<open>driver_ok\<close>, \<open>notify_ok\<close>), and their
  witnesses supply one; \<open>uart1_driver_ok\<close> shows that the serial driver on its port is such a driver.
\<close>

section \<open>What is proved\<close>

text \<open>
  \<^item> The kernel's invariant \<open>kinv\<close>: bitmap, ready lists, links and states of threads agree, the timer list is
    consistent, and the control blocks of started threads have their types. Every operation keeps it, and
    \<open>rt_schedule\<close> runs a thread of the highest priority (\<open>schedule_picks_highest\<close>).
  \<^item> Timers and clock: \<open>timers_sorted\<close> orders the pending timers by the ticks they have left, also across the
    wrap-around of the 32-bit counter. A tick returns and wakes exactly the threads that are due
    (\<open>tick_wakes_due_threads\<close>, and \<open>tick_with_release_timers\<close> for timers that release semaphores).
  \<^item> IPC objects: for each an invariant, the behaviour of each operation on every branch, and a statement
    over all histories: units of a semaphore are conserved, a mutex has one owner, no thread waits for an
    event that is there, mailboxes, message queues and data queues deliver in order what was sent, blocks of a
    memory pool have one user, no signal of a completion leaves its thread waiting.
  \<^item> Memory: blocks in use are disjoint over every history, in the heap and in the block ring buffer; the idle
    thread returns exactly the stacks and control blocks of the threads that have ended.
  \<^item> Devices: the reference counter is the number of opens not closed; a registered name finds its device. Serial
    devices: readers get the bytes received, in order, and all of them while the FIFO has room
    (\<open>serial_input_fifo\<close>).
  \<^item> Boot loader: every packet counted is in the flash as it was received, with a correct checksum
    (\<open>upgrade_image_verified\<close>, \<open>upgrade_success_image\<close>); a correct image sent in order is installed; the boot
    loader's own flash is not written; lines are read complete and in order.
  \<^item> Faults that modelling showed are theorems too, of all states that have the fault or, for the first, of a
    concrete history: \<open>data_queue_wrap_loses_item\<close>, \<open>mp_timeout_breaks_free\<close>, \<open>mutex_hold_wraps\<close>,
    \<open>completion_lost_after_timeout\<close>, \<open>device_destroy_fails\<close>, \<open>realloc_shrink_loses_block\<close>,
    \<open>rbb_queue_block_overlaid\<close>, \<open>long_line_overflows\<close>, \<open>upgrade_waits_forever\<close>, \<open>upgrade_offer_ignored\<close>,
    \<open>serial_reopen_deaf\<close>.

  Interfaces. \<open>bounded_queue\<close> is the contract of a queue with a capacity, with the laws of FIFO order proved once;
  \<open>Ringbuffer\<close> and \<open>Ipc_mailbox\<close> interpret it on their code. \<open>wait_lists\<close> and \<open>wait_lists_all\<close> are what the
  IPC objects need of waking and scheduling; \<open>Waiting\<close> interprets them on the functions of \<open>ipc.c\<close>, \<open>Mempool\<close> on
  its own waking. \<open>timeout_functions\<close> is what the clock interrupt needs of the functions of user timers;
  \<open>Ipc_sem\<close> interprets it on a function that releases a semaphore. \<open>receiving_port\<close> is what the receive interrupt of
  a serial device needs of the port; \<open>Serial_dev\<close> interprets it on the functions of \<open>drv_usart.c\<close>.

  Bounds. The statements that need a bound say so, because the code does not check it: a semaphore's initial value
  and releases below 65536 and 65535 pushes to a data queue (16-bit counters), 255 nested takes of a mutex, 1560
  packets of an image that is to be installed (the 390 kB erased) and 1936 of one that is to survive the way out
  of the boot loader (the pages behind it), updates of the flash in whole words, timers of less than half the
  tick range, lines of less than 1024 bytes, and requests to the block ring buffer of at most its size.
\<close>

section \<open>Not modelled\<close>

text \<open>
  \<^item> Compiled out by \<open>rtconfig.h\<close>: SMP (\<open>cpu.c\<close>), signals, the slab allocator, soft timers, the file system,
    pipes and wait queues (which need the POSIX layer) and lwIP.
  \<^item> Compiled in and not used by the application: memory heap objects (\<open>memheap.c\<close>; the system heap is \<open>mem.c\<close>),
    work queues, and the hooks of the scheduler, objects, timers and allocators, which nothing installs.
  \<^item> The shell, a command interpreter on top of the console, and reception by DMA in \<open>drv_usart.c\<close>, which no port
    is configured for (the DMA paths of \<open>serial.c\<close> are modelled).
  \<^item> \<open>rt_ringbuffer_create\<close> and \<open>rt_rbb_create\<close> with their \<open>destroy\<close> functions, which only allocate and free.
  \<^item> Formatted output and messages on the console, which change no state of the kernel.
  \<^item> Start-up (\<open>components.c\<close>), whose order of calls the linker decides, the machine code of context switches
    and faults, register level drivers, and the vendored HAL.
  \<^item> In the boot loader: the screen and its fonts, delays and the set-up of clocks and pins, and source files of
    the radio firmware that its project does not compile.
\<close>

end
